(* ===== verification/Lynx_Prelude.thy ===== *)
theory Lynx_Prelude
  imports Main "HOL-Library.Word" "HOL-Library.Monad_Syntax" "HOL-Library.AList" "HOL-Library.Char_ord"
begin

text \<open>
  Prelude of the LynxRDP development: the machine types the code uses, the arithmetic of
  \<open>u32\<close> and \<open>u64\<close> values with its wrap-around written out, little-endian bytes, Rust strings
  as byte strings with their UTF-8 invariant, the result type of fallible functions and the
  option type of functions that may panic, loops over lists that may panic, and reachability
  in a step relation. The collections \<open>wire_simps\<close>, \<open>no_wrap\<close> and \<open>panic_simps\<close> are filled
  by the component theories.
\<close>

unbundle bit_operations_syntax

named_theorems wire_simps "what a primitive write appends and what a primitive read returns"
named_theorems no_wrap "fixed-width operations that do not wrap on the operands in use"
named_theorems panic_simps "functions that may panic, on arguments where they do not"

section \<open>Machine types\<close>

type_synonym u8 = "8 word"
type_synonym u16 = "16 word"
type_synonym i16 = "16 word"
type_synonym u32 = "32 word"
type_synonym i32 = "32 word"
type_synonym u64 = "64 word"

text \<open>
  Lengths, coordinates and counters are natural numbers. Where the code adds or subtracts them
  at a fixed width the model uses the operations below, which wrap as release builds do.
\<close>

definition add32 :: "nat \<Rightarrow> nat \<Rightarrow> nat" where
  "add32 a b = (a + b) mod 2 ^ 32"

definition sub32 :: "nat \<Rightarrow> nat \<Rightarrow> nat" where
  "sub32 a b = (if b \<le> a then a - b else (2 ^ 32 + a) - b) mod 2 ^ 32"

definition mul32 :: "nat \<Rightarrow> nat \<Rightarrow> nat" where
  "mul32 a b = (a * b) mod 2 ^ 32"

definition add64 :: "nat \<Rightarrow> nat \<Rightarrow> nat" where
  "add64 a b = (a + b) mod 2 ^ 64"

definition sat_mul64 :: "nat \<Rightarrow> nat \<Rightarrow> nat" where
  "sat_mul64 a b = min (a * b) (2 ^ 64 - 1)"

definition div_ceil :: "nat \<Rightarrow> nat \<Rightarrow> nat" where
  "div_ceil a b = (if a mod b = 0 then a div b else a div b + 1)"

lemma add32_no_wrap [no_wrap]: "a + b < 2 ^ 32 \<Longrightarrow> add32 a b = a + b"
  by (simp add: add32_def)

lemma sub32_no_wrap [no_wrap]: "b \<le> a \<Longrightarrow> a < 2 ^ 32 \<Longrightarrow> sub32 a b = a - b"
  by (simp add: sub32_def)

lemma mul32_no_wrap [no_wrap]: "a * b < 2 ^ 32 \<Longrightarrow> mul32 a b = a * b"
  by (simp add: mul32_def)

lemma add64_no_wrap [no_wrap]: "a + b < 2 ^ 64 \<Longrightarrow> add64 a b = a + b"
  by (simp add: add64_def)

lemma add32_bound [simp]: "add32 a b < 2 ^ 32" "add32 a b < 4294967296"
  by (simp_all add: add32_def)

lemma sub32_bound [simp]: "sub32 a b < 2 ^ 32" "sub32 a b < 4294967296"
  by (simp_all add: sub32_def)

lemma div_ceil_mult_ge: "0 < b \<Longrightarrow> a \<le> div_ceil a b * b"
proof -
  assume "0 < b"
  then have "a \<le> a div b * b + b"
    using div_mult_mod_eq [of a b] mod_less_divisor [of b a] by linarith
  then show ?thesis
    using div_mult_mod_eq [of a b] by (auto simp: div_ceil_def add_mult_distrib)
qed

lemma div_ceil_least: "0 < b \<Longrightarrow> a \<le> n * b \<Longrightarrow> div_ceil a b \<le> n"
proof -
  assume b: "0 < b" and le: "a \<le> n * b"
  have "a div b \<le> n"
    using div_le_mono [OF le, of b] b by simp
  moreover have "a mod b = 0" if "a div b = n"
    using that le div_mult_mod_eq [of a b] by simp
  ultimately show ?thesis
    unfolding div_ceil_def by (metis Suc_eq_plus1 Suc_leI le_neq_implies_less)
qed

section \<open>Little-endian bytes\<close>

text \<open>\<open>le_bytes n v\<close> is the first \<open>n\<close> bytes of \<open>v.to_le_bytes()\<close>; \<open>of_le\<close> is \<open>from_le_bytes\<close>.\<close>

primrec le_bytes :: "nat \<Rightarrow> 'a::len word \<Rightarrow> u8 list" where
  "le_bytes 0 v = []"
| "le_bytes (Suc n) v = ucast v # le_bytes n (drop_bit 8 v)"

primrec of_le :: "u8 list \<Rightarrow> 'a::len word" where
  "of_le [] = 0"
| "of_le (b # bs) = ucast b OR push_bit 8 (of_le bs)"

lemma length_le_bytes [simp]: "length (le_bytes n v) = n"
  by (induction n arbitrary: v) auto

lemma of_le_le_bytes: "of_le (le_bytes n v) = (take_bit (8 * n) v :: 'a::len word)"
proof (induction n arbitrary: v)
  case (Suc n)
  have "ucast (ucast v :: u8) OR push_bit 8 (take_bit (8 * n) (drop_bit 8 v)) =
      (take_bit (8 * Suc n) v :: 'a word)"
    by (rule bit_word_eqI) (auto simp: bit_simps)
  with Suc.IH show ?case by simp
qed simp

lemma of_le_le_bytes_full:
  "of_le (le_bytes 2 v) = (v :: 16 word)"
  "of_le (le_bytes 4 w) = (w :: 32 word)"
  "of_le (le_bytes 8 x) = (x :: 64 word)"
  by (simp_all add: of_le_le_bytes take_bit_word_eq_self)

lemma le_bytes_of_le:
  "length bs = n \<Longrightarrow> 8 * n \<le> LENGTH('a::len) \<Longrightarrow> le_bytes n (of_le bs :: 'a word) = bs"
proof (induction n arbitrary: bs)
  case (Suc n)
  then obtain b cs where bs: "bs = b # cs" and len: "length cs = n"
    by (cases bs) auto
  have low: "ucast (ucast b OR push_bit 8 (of_le cs) :: 'a word) = b"
    using Suc.prems(2) by (intro bit_word_eqI) (auto simp: bit_simps)
  have "bit (of_le ds :: 'a word) m \<Longrightarrow> m < 8 * length ds" for ds m
  proof (induction ds arbitrary: m)
    case (Cons d ds)
    then show ?case by (fastforce simp: bit_simps dest: bit_imp_le_length)
  qed simp
  with Suc.prems(2) len have high: "drop_bit 8 (ucast b OR push_bit 8 (of_le cs)) = (of_le cs :: 'a word)"
    by (intro bit_word_eqI)
      (fastforce simp: bit_simps simp del: drop_bit_or dest: bit_imp_le_length)
  from Suc.IH [OF len] Suc.prems(2) show ?case
    by (simp add: bs low high del: drop_bit_or)
qed simp

section \<open>Strings\<close>

text \<open>
  A Rust \<open>String\<close> is a byte string (an Isabelle \<open>string\<close>, one \<open>char\<close> per byte) that is valid
  UTF-8. \<open>utf8_valid\<close> accepts exactly the byte sequences of Unicode's table of well-formed
  UTF-8, which is what \<open>std::str::from_utf8\<close> checks.
\<close>

definition str_bytes :: "string \<Rightarrow> u8 list" where
  "str_bytes s = map of_char s"

definition bytes_str :: "u8 list \<Rightarrow> string" where
  "bytes_str bs = map (\<lambda>b. char_of (unat b)) bs"

lemma unat_of_char [simp]: "unat (of_char c :: u8) = of_char c"
proof -
  have "unat (of_nat (of_char c) :: u8) = of_char c"
    by (simp add: unat_of_nat del: of_nat_of_char)
  then show ?thesis by (simp only: of_nat_of_char)
qed

lemma of_char_char_of_byte [simp]: "of_char (char_of (unat b)) = (b :: u8)"
proof -
  have "unat b < 256"
    using unsigned_less [of b] by simp
  then have "of_nat (of_char (char_of (unat b))) = b"
    by (simp del: of_nat_of_char)
  then show ?thesis by (simp only: of_nat_of_char)
qed

lemma bytes_str_str_bytes [simp]: "bytes_str (str_bytes s) = s"
  by (simp add: bytes_str_def str_bytes_def comp_def)

lemma str_bytes_bytes_str [simp]: "str_bytes (bytes_str bs) = bs"
  by (simp add: bytes_str_def str_bytes_def comp_def)

lemma length_str_bytes [simp]: "length (str_bytes s) = length s"
  by (simp add: str_bytes_def)

lemma length_bytes_str [simp]: "length (bytes_str s) = length s"
  by (simp add: bytes_str_def)

lemma str_bytes_inject [simp]: "str_bytes s = str_bytes t \<longleftrightarrow> s = t"
  by (metis bytes_str_str_bytes)

definition cont_byte :: "u8 \<Rightarrow> bool" where
  "cont_byte b \<longleftrightarrow> 0x80 \<le> b \<and> b \<le> 0xBF"

definition utf8_two :: "u8 \<Rightarrow> u8 \<Rightarrow> bool" where
  "utf8_two a b \<longleftrightarrow> 0xC2 \<le> a \<and> a \<le> 0xDF \<and> cont_byte b"

definition utf8_three :: "u8 \<Rightarrow> u8 \<Rightarrow> u8 \<Rightarrow> bool" where
  "utf8_three a b c \<longleftrightarrow>
     (a = 0xE0 \<and> 0xA0 \<le> b \<and> b \<le> 0xBF \<or>
      0xE1 \<le> a \<and> a \<le> 0xEC \<and> cont_byte b \<or>
      a = 0xED \<and> 0x80 \<le> b \<and> b \<le> 0x9F \<or>
      0xEE \<le> a \<and> a \<le> 0xEF \<and> cont_byte b) \<and> cont_byte c"

definition utf8_four :: "u8 \<Rightarrow> u8 \<Rightarrow> u8 \<Rightarrow> u8 \<Rightarrow> bool" where
  "utf8_four a b c d \<longleftrightarrow>
     (a = 0xF0 \<and> 0x90 \<le> b \<and> b \<le> 0xBF \<or>
      0xF1 \<le> a \<and> a \<le> 0xF3 \<and> cont_byte b \<or>
      a = 0xF4 \<and> 0x80 \<le> b \<and> b \<le> 0x8F) \<and> cont_byte c \<and> cont_byte d"

fun utf8_valid :: "u8 list \<Rightarrow> bool" where
  "utf8_valid [] = True"
| "utf8_valid (a # bs) =
     (if a \<le> 0x7F then utf8_valid bs
      else case bs of [] \<Rightarrow> False | b # cs \<Rightarrow>
        if utf8_two a b then utf8_valid cs
        else case cs of [] \<Rightarrow> False | c # ds \<Rightarrow>
          if utf8_three a b c then utf8_valid ds
          else case ds of [] \<Rightarrow> False | d # es \<Rightarrow> utf8_four a b c d \<and> utf8_valid es)"

definition utf8_str :: "string \<Rightarrow> bool" where
  "utf8_str s \<longleftrightarrow> utf8_valid (str_bytes s)"

text \<open>\<open>str::is_char_boundary\<close>: an index that does not point at a continuation byte.\<close>

definition char_boundary :: "u8 list \<Rightarrow> nat \<Rightarrow> bool" where
  "char_boundary bs i \<longleftrightarrow> i = 0 \<or> i = length bs \<or> i < length bs \<and> \<not> cont_byte (bs ! i)"

lemma char_boundary_Suc:
  "char_boundary (b # bs) (Suc i) \<longleftrightarrow>
     i = length bs \<or> i < length bs \<and> \<not> cont_byte (bs ! i)"
  by (auto simp: char_boundary_def)

lemma char_boundary_skip:
  "char_boundary (b # bs) (Suc i) \<Longrightarrow> bs \<noteq> [] \<Longrightarrow> cont_byte (hd bs) \<Longrightarrow>
     \<exists>j. i = Suc j \<and> char_boundary bs (Suc j)"
  by (cases i; cases bs) (auto simp: char_boundary_def)

lemma utf8_cont:
  "utf8_two a b \<Longrightarrow> cont_byte b"
  "utf8_three a b c \<Longrightarrow> cont_byte b" "utf8_three a b c \<Longrightarrow> cont_byte c"
  "utf8_four a b c d \<Longrightarrow> cont_byte b" "utf8_four a b c d \<Longrightarrow> cont_byte c"
  "utf8_four a b c d \<Longrightarrow> cont_byte d"
  by (auto simp: utf8_two_def utf8_three_def utf8_four_def cont_byte_def
      elim: order_trans [rotated] order_trans)


text \<open>Cutting valid UTF-8 at a character boundary leaves valid UTF-8.\<close>

lemma utf8_valid_take:
  "utf8_valid bs \<Longrightarrow> char_boundary bs i \<Longrightarrow> utf8_valid (take i bs)"
proof (induction bs arbitrary: i rule: utf8_valid.induct)
  case (2 a bs)
  show ?case
  proof (cases i)
    case (Suc n)
    show ?thesis
    proof (cases "a \<le> 0x7F")
      case True
      with 2 Suc show ?thesis by (auto simp: char_boundary_def)
    next
      case multi: False
      then obtain b cs where bs: "bs = b # cs"
        using 2(5) by (cases bs) auto
      have b: "cont_byte b"
        using 2(5) multi by (auto simp: bs utf8_cont split: if_splits list.splits dest: utf8_cont)
      then obtain n1 where n: "n = Suc n1" and n1: "char_boundary bs (Suc n1)"
        using char_boundary_skip [of a bs n] 2(6) Suc bs by auto
      show ?thesis
      proof (cases "utf8_two a b")
        case True
        then show ?thesis
          using 2(2) [OF multi bs True, of n1] 2(5) n1 multi
          by (auto simp: bs Suc n char_boundary_def)
      next
        case two: False
        then obtain c ds where cs: "cs = c # ds"
          using 2(5) multi by (cases cs) (auto simp: bs)
        have c: "cont_byte c"
          using 2(5) multi two by (auto simp: bs cs split: if_splits list.splits dest: utf8_cont)
        then obtain n2 where n1': "n1 = Suc n2" and n2: "char_boundary cs (Suc n2)"
          using char_boundary_skip [of b cs n1] n1 bs cs by auto
        show ?thesis
        proof (cases "utf8_three a b c")
          case True
          then show ?thesis
            using 2(3) [OF multi bs two cs True, of n2] 2(5) n2 multi two
            by (auto simp: bs cs Suc n n1' char_boundary_def)
        next
          case three: False
          then obtain d es where ds: "ds = d # es"
            using 2(5) multi two by (cases ds) (auto simp: bs cs)
          have four: "utf8_four a b c d" "utf8_valid es"
            using 2(5) multi two three by (auto simp: bs cs ds)
          then obtain n3 where n2': "n2 = Suc n3" and n3: "char_boundary ds (Suc n3)"
            using char_boundary_skip [of c ds n2] n2 cs ds utf8_cont(6) by auto
          show ?thesis
            using 2(4) [OF multi bs two cs three ds, of n3] four n3 multi two three
            by (auto simp: bs cs ds Suc n n1' n2' char_boundary_def)
        qed
      qed
    qed
  qed simp
qed simp

section \<open>Numbers in messages\<close>

text \<open>Decimal digits, as \<open>format!("{n}")\<close> prints an unsigned integer.\<close>

fun decimal :: "nat \<Rightarrow> string" where
  "decimal n = (if n < 10 then [char_of (48 + n)] else decimal (n div 10) @ [char_of (48 + n mod 10)])"

declare decimal.simps [simp del]

section \<open>Fallible and panicking functions\<close>

text \<open>
  A function returning \<open>Result\<close> is a sum with \<open>Inl\<close> for the error; \<open>bindE\<close> is Rust's \<open>?\<close>.
  A function that may panic (an out-of-range slice, a failed \<open>assert!\<close>) returns an option with
  \<open>None\<close> for the panic. \<open>ofold\<close> is a loop over a list whose body may panic.
\<close>

definition bindE :: "'e + 'a \<Rightarrow> ('a \<Rightarrow> 'e + 'b) \<Rightarrow> 'e + 'b" where
  "bindE m f = (case m of Inl e \<Rightarrow> Inl e | Inr x \<Rightarrow> f x)"

lemma bindE_simps [simp]: "bindE (Inl e) f = Inl e" "bindE (Inr x) f = f x"
  by (simp_all add: bindE_def)

lemma bindE_Inr_iff: "bindE m f = Inr y \<longleftrightarrow> (\<exists>x. m = Inr x \<and> f x = Inr y)"
  by (cases m) auto

primrec ofold :: "('x \<Rightarrow> 's \<Rightarrow> 's option) \<Rightarrow> 'x list \<Rightarrow> 's \<Rightarrow> 's option" where
  "ofold f [] s = Some s"
| "ofold f (x # xs) s = Option.bind (f x s) (ofold f xs)"

lemma ofold_append: "ofold f (xs @ ys) s = Option.bind (ofold f xs s) (ofold f ys)"
  by (induction xs arbitrary: s) (auto split: Option.bind_splits)

lemma ofold_pure:
  assumes "Inv s"
    and "\<And>x s. x \<in> set xs \<Longrightarrow> Inv s \<Longrightarrow> f x s = Some (g x s) \<and> Inv (g x s)"
  shows "ofold f xs s = Some (fold g xs s) \<and> Inv (fold g xs s)"
  using assms by (induction xs arbitrary: s) auto

text \<open>Mapping a list with a function that may panic.\<close>

primrec omap :: "('x \<Rightarrow> 'y option) \<Rightarrow> 'x list \<Rightarrow> 'y list option" where
  "omap f [] = Some []"
| "omap f (x # xs) = Option.bind (f x) (\<lambda>y. Option.bind (omap f xs) (\<lambda>ys. Some (y # ys)))"

lemma omap_pure: "(\<And>x. x \<in> set xs \<Longrightarrow> f x = Some (g x)) \<Longrightarrow> omap f xs = Some (map g xs)"
  by (induction xs) auto

text \<open>A loop whose body may stop with an error, over a result that may also panic.\<close>

primrec efold :: "('x \<Rightarrow> 's \<Rightarrow> 'e + 's) \<Rightarrow> 'x list \<Rightarrow> 's \<Rightarrow> 'e + 's" where
  "efold f [] s = Inr s"
| "efold f (x # xs) s = bindE (f x s) (efold f xs)"

lemma efold_append: "efold f (xs @ ys) s = bindE (efold f xs s) (efold f ys)"
  by (induction xs arbitrary: s) (auto simp: bindE_def split: sum.splits)

section \<open>Reachable states\<close>

text \<open>
  The states a component can be in: those it starts in, closed under its steps. The locale
  states what an invariant owes, and gives that it holds in every reachable state.
\<close>

inductive reach :: "('s \<Rightarrow> bool) \<Rightarrow> ('s \<Rightarrow> 's \<Rightarrow> bool) \<Rightarrow> 's \<Rightarrow> bool"
  for init step where
  reach_init: "init s \<Longrightarrow> reach init step s"
| reach_step: "reach init step s \<Longrightarrow> step s t \<Longrightarrow> reach init step t"

locale invariant_system =
  fixes init :: "'s \<Rightarrow> bool" and step :: "'s \<Rightarrow> 's \<Rightarrow> bool" and inv :: "'s \<Rightarrow> bool"
  assumes inv_init: "init s \<Longrightarrow> inv s"
    and inv_step: "step s t \<Longrightarrow> inv s \<Longrightarrow> inv t"
begin

lemma inv_reach: "reach init step s \<Longrightarrow> inv s"
  by (induction rule: reach.induct) (auto intro: inv_init inv_step)

end

section \<open>Hash maps\<close>

text \<open>
  A \<open>HashMap\<close> is an association list with distinct keys; the order of the list stands for the
  unspecified iteration order, so no property may depend on it.
\<close>

type_synonym ('k, 'v) hmap = "('k \<times> 'v) list"

abbreviation hm_get :: "('k, 'v) hmap \<Rightarrow> 'k \<Rightarrow> 'v option" where
  "hm_get \<equiv> map_of"

abbreviation hm_insert :: "'k \<Rightarrow> 'v \<Rightarrow> ('k, 'v) hmap \<Rightarrow> ('k, 'v) hmap" where
  "hm_insert \<equiv> AList.update"

abbreviation hm_remove :: "'k \<Rightarrow> ('k, 'v) hmap \<Rightarrow> ('k, 'v) hmap" where
  "hm_remove \<equiv> AList.delete"

abbreviation hm_ok :: "('k, 'v) hmap \<Rightarrow> bool" where
  "hm_ok m \<equiv> distinct (map fst m)"

lemma hm_ok_insert [simp]: "hm_ok m \<Longrightarrow> hm_ok (hm_insert k v m)"
  by (rule distinct_update)

lemma hm_ok_remove [simp]: "hm_ok m \<Longrightarrow> hm_ok (hm_remove k m)"
  by (rule distinct_delete)

lemma hm_get_insert: "hm_get (hm_insert k v m) l = (if l = k then Some v else hm_get m l)"
  by (simp add: update_conv')

lemma hm_get_remove: "hm_get (hm_remove k m) l = (if l = k then None else hm_get m l)"
  by (simp add: delete_conv')

lemma hm_mem_insert: "x \<in> set (hm_insert k v m) \<Longrightarrow> x = (k, v) \<or> x \<in> set m"
  by (induction m) (auto split: if_splits)

lemma hm_mem_remove: "x \<in> set (hm_remove k m) \<Longrightarrow> x \<in> set m \<and> fst x \<noteq> k"
  by (auto simp: AList.delete_eq)

text \<open>Adding up over the values of a map.\<close>

abbreviation hm_sum :: "('v \<Rightarrow> nat) \<Rightarrow> ('k, 'v) hmap \<Rightarrow> nat" where
  "hm_sum f m \<equiv> sum_list (map (f \<circ> snd) m)"

lemma hm_sum_insert_old:
  "hm_get m k = Some w \<Longrightarrow> hm_sum f (hm_insert k v m) + f w = hm_sum f m + f v"
  by (induction m) (auto split: if_splits)

lemma hm_sum_insert_new: "hm_get m k = None \<Longrightarrow> hm_sum f (hm_insert k v m) = hm_sum f m + f v"
  by (induction m) (auto split: if_splits)

lemma hm_sum_remove: "hm_sum f (hm_remove k m) \<le> hm_sum f m"
  by (induction m) (auto simp: AList.delete_eq)

lemma hm_length_insert_old: "hm_get m k = Some w \<Longrightarrow> length (hm_insert k v m) = length m"
  by (induction m) (auto split: if_splits)

lemma hm_length_insert_new: "hm_get m k = None \<Longrightarrow> length (hm_insert k v m) = length m + 1"
  by (induction m) (auto split: if_splits)

lemma hm_length_remove: "length (hm_remove k m) \<le> length m"
  by (simp add: AList.delete_eq)

end
