(* ===== verification/Image.thy ===== *)
theory Image
  imports Lynx_Prelude
begin

text \<open>
  \<open>crates/proto/src/image.rs\<close>: rectangles and framebuffers. Coordinates are \<open>u32\<close> values as
  natural numbers with \<open>add32\<close>, \<open>sub32\<close> and \<open>mul32\<close> where the code adds, subtracts and
  multiplies. A framebuffer access outside the pixel vector panics in the code and is \<open>None\<close>
  here. The lemmas characterise every operation by the pixel at each coordinate.
\<close>

section \<open>Rectangles\<close>

record rect =
  rx :: nat
  ry :: nat
  rwidth :: nat
  rheight :: nat

definition rect_new :: "nat \<Rightarrow> nat \<Rightarrow> nat \<Rightarrow> nat \<Rightarrow> rect" where
  "rect_new x y w h = \<lparr>rx = x, ry = y, rwidth = w, rheight = h\<rparr>"

definition rect_default :: rect where "rect_default = rect_new 0 0 0 0"

definition rect_is_empty :: "rect \<Rightarrow> bool" where
  "rect_is_empty r \<longleftrightarrow> rwidth r = 0 \<or> rheight r = 0"

definition right :: "rect \<Rightarrow> nat" where "right r = add32 (rx r) (rwidth r)"

definition bottom :: "rect \<Rightarrow> nat" where "bottom r = add32 (ry r) (rheight r)"

definition area :: "rect \<Rightarrow> nat" where "area r = rwidth r * rheight r"

definition rect_intersect :: "rect \<Rightarrow> rect \<Rightarrow> rect" where
  "rect_intersect r s =
     (let x1 = max (rx r) (rx s); y1 = max (ry r) (ry s);
          x2 = min (right r) (right s); y2 = min (bottom r) (bottom s)
      in if x1 < x2 \<and> y1 < y2 then rect_new x1 y1 (sub32 x2 x1) (sub32 y2 y1) else rect_default)"

definition rect_union :: "rect \<Rightarrow> rect \<Rightarrow> rect" where
  "rect_union r s =
     (if rect_is_empty r then s else if rect_is_empty s then r
      else let x1 = min (rx r) (rx s); y1 = min (ry r) (ry s);
               x2 = max (right r) (right s); y2 = max (bottom r) (bottom s)
           in rect_new x1 y1 (sub32 x2 x1) (sub32 y2 y1))"

definition rect_intersects :: "rect \<Rightarrow> rect \<Rightarrow> bool" where
  "rect_intersects r s \<longleftrightarrow> \<not> rect_is_empty (rect_intersect r s)"

definition rect_contains :: "rect \<Rightarrow> rect \<Rightarrow> bool" where
  "rect_contains r s \<longleftrightarrow> rect_is_empty s \<or>
     (rx r \<le> rx s \<and> ry r \<le> ry s \<and> right s \<le> right r \<and> bottom s \<le> bottom r)"

text \<open>Division by a zero tile panics.\<close>

definition align_to_tiles :: "rect \<Rightarrow> nat \<Rightarrow> rect \<Rightarrow> rect option" where
  "align_to_tiles r tile bounds =
     (if rect_is_empty r then Some rect_default
      else if tile = 0 then None
      else let x1 = mul32 (rx r div tile) tile; y1 = mul32 (ry r div tile) tile;
               x2 = mul32 (div_ceil (right r) tile) tile; y2 = mul32 (div_ceil (bottom r) tile) tile
           in Some (rect_intersect (rect_new x1 y1 (sub32 x2 x1) (sub32 y2 y1)) bounds))"

text \<open>A rectangle whose edges are below \<open>2^32\<close>; \<open>inside r x y\<close> are its pixels.\<close>

definition rect_wf :: "rect \<Rightarrow> bool" where
  "rect_wf r \<longleftrightarrow> rx r + rwidth r < 2 ^ 32 \<and> ry r + rheight r < 2 ^ 32"

definition inside :: "rect \<Rightarrow> nat \<Rightarrow> nat \<Rightarrow> bool" where
  "inside r x y \<longleftrightarrow> rx r \<le> x \<and> x < rx r + rwidth r \<and> ry r \<le> y \<and> y < ry r + rheight r"

lemma rect_new_simps [simp]:
  "rx (rect_new x y w h) = x" "ry (rect_new x y w h) = y"
  "rwidth (rect_new x y w h) = w" "rheight (rect_new x y w h) = h"
  by (simp_all add: rect_new_def)

lemma rect_eta: "rect_new (rx r) (ry r) (rwidth r) (rheight r) = r"
  by (simp add: rect_new_def)

lemma right_wf [no_wrap]: "rect_wf r \<Longrightarrow> right r = rx r + rwidth r"
  by (simp add: right_def rect_wf_def no_wrap)

lemma bottom_wf [no_wrap]: "rect_wf r \<Longrightarrow> bottom r = ry r + rheight r"
  by (simp add: bottom_def rect_wf_def no_wrap)

lemma rect_default_wf [simp]: "rect_wf rect_default" "rect_is_empty rect_default"
  "\<not> inside rect_default x y" "area rect_default = 0"
  by (simp_all add: rect_wf_def rect_default_def rect_is_empty_def inside_def area_def)

lemma area_empty [simp]: "rect_is_empty r \<Longrightarrow> area r = 0"
  by (auto simp: rect_is_empty_def area_def)

lemma not_empty_inside: "\<not> rect_is_empty r \<longleftrightarrow> (\<exists>x y. inside r x y)"
  by (force simp: rect_is_empty_def inside_def)

lemma rect_intersect_wf [simp]: "rect_wf r \<Longrightarrow> rect_wf s \<Longrightarrow> rect_wf (rect_intersect r s)"
  by (auto simp: rect_intersect_def Let_def no_wrap)
    (auto simp: rect_wf_def sub32_def)

lemma inside_intersect:
  "rect_wf r \<Longrightarrow> rect_wf s \<Longrightarrow> inside (rect_intersect r s) x y \<longleftrightarrow> inside r x y \<and> inside s x y"
  by (auto simp: rect_intersect_def Let_def no_wrap)
    (auto simp: rect_wf_def sub32_def inside_def)

lemma rect_union_wf [simp]: "rect_wf r \<Longrightarrow> rect_wf s \<Longrightarrow> rect_wf (rect_union r s)"
  by (auto simp: rect_union_def Let_def no_wrap)
    (auto simp: rect_wf_def sub32_def)

lemma inside_union:
  "rect_wf r \<Longrightarrow> rect_wf s \<Longrightarrow> inside r x y \<or> inside s x y \<Longrightarrow> inside (rect_union r s) x y"
  by (auto simp: rect_union_def Let_def no_wrap rect_is_empty_def)
    (auto simp: rect_wf_def sub32_def inside_def)

lemma contains_inside:
  "rect_wf r \<Longrightarrow> rect_wf s \<Longrightarrow>
     rect_contains r s \<longleftrightarrow> (\<forall>x y. inside s x y \<longrightarrow> inside r x y)"
proof
  assume wf: "rect_wf r" "rect_wf s" and sub: "\<forall>x y. inside s x y \<longrightarrow> inside r x y"
  show "rect_contains r s"
  proof (cases "rect_is_empty s")
    case False
    then have "inside s (rx s) (ry s)"
      "inside s (rx s + rwidth s - 1) (ry s + rheight s - 1)"
      by (auto simp: inside_def rect_is_empty_def)
    with sub have "inside r (rx s) (ry s)" "inside r (rx s + rwidth s - 1) (ry s + rheight s - 1)"
      by blast+
    with wf show ?thesis by (auto simp: rect_contains_def inside_def no_wrap)
  qed (simp add: rect_contains_def)
qed (auto simp: rect_contains_def inside_def rect_is_empty_def no_wrap)

section \<open>Framebuffers\<close>

record framebuffer =
  fb_width :: nat
  fb_height :: nat
  fb_pixels :: "u32 list"

definition fb_new :: "nat \<Rightarrow> nat \<Rightarrow> framebuffer" where
  "fb_new w h = \<lparr>fb_width = w, fb_height = h, fb_pixels = replicate (w * h) 0\<rparr>"

definition fb_from_pixels :: "nat \<Rightarrow> nat \<Rightarrow> u32 list \<Rightarrow> framebuffer option" where
  "fb_from_pixels w h ps =
     (if length ps = w * h then Some \<lparr>fb_width = w, fb_height = h, fb_pixels = ps\<rparr> else None)"

definition fb_bounds :: "framebuffer \<Rightarrow> rect" where
  "fb_bounds fb = rect_new 0 0 (fb_width fb) (fb_height fb)"

definition fb_get :: "framebuffer \<Rightarrow> nat \<Rightarrow> nat \<Rightarrow> u32 option" where
  "fb_get fb x y =
     (let i = y * fb_width fb + x in if i < length (fb_pixels fb) then Some (fb_pixels fb ! i) else None)"

definition fb_set :: "framebuffer \<Rightarrow> nat \<Rightarrow> nat \<Rightarrow> u32 \<Rightarrow> framebuffer option" where
  "fb_set fb x y v =
     (let i = y * fb_width fb + x
      in if i < length (fb_pixels fb) then Some (fb\<lparr>fb_pixels := (fb_pixels fb)[i := v]\<rparr>) else None)"

definition fb_row :: "framebuffer \<Rightarrow> nat \<Rightarrow> nat \<Rightarrow> nat \<Rightarrow> u32 list option" where
  "fb_row fb y x len =
     (let start = y * fb_width fb + x
      in if start + len \<le> length (fb_pixels fb) then Some (take len (drop start (fb_pixels fb)))
         else None)"

text \<open>
  Writing through \<open>row_mut(y, x, len)\<close>: the slice is taken, which panics out of range, and then
  overwritten with a source slice, which panics when the lengths differ.
\<close>

definition fb_row_write :: "framebuffer \<Rightarrow> nat \<Rightarrow> nat \<Rightarrow> nat \<Rightarrow> u32 list \<Rightarrow> framebuffer option" where
  "fb_row_write fb y x len src =
     (let start = y * fb_width fb + x
      in if start + len \<le> length (fb_pixels fb) \<and> length src = len
         then Some (fb\<lparr>fb_pixels :=
                take start (fb_pixels fb) @ src @ drop (start + len) (fb_pixels fb)\<rparr>)
         else None)"

definition rgb_mask :: u32 where "rgb_mask = 0x00FFFFFF"

definition fb_fill :: "framebuffer \<Rightarrow> rect \<Rightarrow> u32 \<Rightarrow> framebuffer option" where
  "fb_fill fb rect color =
     (let r = rect_intersect rect (fb_bounds fb)
      in ofold (\<lambda>y fb. fb_row_write fb y (rx r) (rwidth r) (replicate (rwidth r) (color AND rgb_mask)))
           [ry r..<bottom r] fb)"

definition fb_copy_rect_from :: "framebuffer \<Rightarrow> framebuffer \<Rightarrow> rect \<Rightarrow> framebuffer option" where
  "fb_copy_rect_from fb src rect =
     (if fb_width fb \<noteq> fb_width src \<or> fb_height fb \<noteq> fb_height src then None
      else let r = rect_intersect rect (fb_bounds fb)
           in ofold (\<lambda>y fb. do { s \<leftarrow> fb_row src y (rx r) (rwidth r);
                                fb_row_write fb y (rx r) (rwidth r) s })
                [ry r..<bottom r] fb)"

definition fb_resize :: "framebuffer \<Rightarrow> nat \<Rightarrow> nat \<Rightarrow> framebuffer option" where
  "fb_resize fb w h =
     (if w = fb_width fb \<and> h = fb_height fb then Some fb
      else let mw = min w (fb_width fb); mh = min h (fb_height fb)
           in ofold (\<lambda>y new. do { s \<leftarrow> fb_row fb y 0 mw; fb_row_write new y 0 mw s })
                [0..<mh] (fb_new w h))"

definition fb_blit_pixels :: "framebuffer \<Rightarrow> rect \<Rightarrow> u32 list \<Rightarrow> framebuffer option" where
  "fb_blit_pixels fb rect ps =
     (if length ps \<noteq> area rect \<or> \<not> rect_contains (fb_bounds fb) rect then None
      else ofold (\<lambda>y fb. let i = y - ry rect in
                    fb_row_write fb y (rx rect) (rwidth rect)
                      (take (rwidth rect) (drop (i * rwidth rect) ps)))
             [ry rect..<bottom rect] fb)"

definition fb_extract :: "framebuffer \<Rightarrow> rect \<Rightarrow> u32 list option" where
  "fb_extract fb rect =
     (let r = rect_intersect rect (fb_bounds fb)
      in ofold (\<lambda>y out. do { row \<leftarrow> fb_row fb y (rx r) (rwidth r); Some (out @ row) })
           [ry r..<bottom r] [])"

section \<open>Pixels\<close>

definition fb_wf :: "framebuffer \<Rightarrow> bool" where
  "fb_wf fb \<longleftrightarrow> length (fb_pixels fb) = fb_width fb * fb_height fb \<and>
     fb_width fb < 2 ^ 32 \<and> fb_height fb < 2 ^ 32"

definition px :: "framebuffer \<Rightarrow> nat \<Rightarrow> nat \<Rightarrow> u32" where
  "px fb x y = fb_pixels fb ! (y * fb_width fb + x)"

definition same_size :: "framebuffer \<Rightarrow> framebuffer \<Rightarrow> bool" where
  "same_size a b \<longleftrightarrow> fb_width a = fb_width b \<and> fb_height a = fb_height b"

lemma same_size_refl [simp]: "same_size a a"
  by (simp add: same_size_def)

lemma same_size_bounds: "same_size a b \<Longrightarrow> fb_bounds a = fb_bounds b"
  by (simp add: same_size_def fb_bounds_def)

lemma fb_bounds_wf [simp]: "fb_wf fb \<Longrightarrow> rect_wf (fb_bounds fb)"
  by (simp add: fb_wf_def rect_wf_def fb_bounds_def)

lemma inside_bounds [simp]: "inside (fb_bounds fb) x y \<longleftrightarrow> x < fb_width fb \<and> y < fb_height fb"
  by (auto simp: inside_def fb_bounds_def)

lemma fb_new_wf: "w < 2 ^ 32 \<Longrightarrow> h < 2 ^ 32 \<Longrightarrow> fb_wf (fb_new w h)"
  by (simp add: fb_wf_def fb_new_def)

lemma index_less: "x < w \<Longrightarrow> y < h \<Longrightarrow> y * w + x < w * (h::nat)"
proof -
  assume "x < w" "y < h"
  then have "y * w + x < Suc y * w" "Suc y * w \<le> h * w"
    by (simp, intro mult_le_mono1) simp
  then show ?thesis by (simp add: mult.commute)
qed

lemma row_index_le: "x + len \<le> w \<Longrightarrow> y < h \<Longrightarrow> y * w + x + len \<le> w * (h::nat)"
proof -
  assume "x + len \<le> w" "y < h"
  then have "y * w + x + len \<le> Suc y * w" "Suc y * w \<le> h * w"
    by (simp, intro mult_le_mono1) simp
  then show ?thesis by (simp add: mult.commute)
qed

lemma px_new: "x < w \<Longrightarrow> y < h \<Longrightarrow> px (fb_new w h) x y = 0"
  by (simp add: px_def fb_new_def index_less)

lemma fb_get_px: "fb_wf fb \<Longrightarrow> x < fb_width fb \<Longrightarrow> y < fb_height fb \<Longrightarrow> fb_get fb x y = Some (px fb x y)"
  by (simp add: fb_get_def px_def fb_wf_def index_less Let_def)

text \<open>Two framebuffers of one size are equal when their pixels are.\<close>

lemma index_split: "(i::nat) < w * h \<Longrightarrow> i mod w < w \<and> i div w < h \<and> (i div w) * w + i mod w = i"
  by (cases "w = 0") (auto simp: less_mult_imp_div_less mult.commute)

lemma fb_eqI:
  assumes "fb_wf a" "fb_wf b" "same_size a b"
    and "\<And>x y. x < fb_width a \<Longrightarrow> y < fb_height a \<Longrightarrow> px a x y = px b x y"
  shows "a = (b :: framebuffer)"
proof -
  have "fb_pixels a = fb_pixels b"
  proof (rule nth_equalityI)
    show "length (fb_pixels a) = length (fb_pixels b)"
      using assms(1-3) by (simp add: fb_wf_def same_size_def)
    fix i assume "i < length (fb_pixels a)"
    then have "i < fb_width a * fb_height a" using assms(1) by (simp add: fb_wf_def)
    from index_split [OF this] assms(3) assms(4) [of "i mod fb_width a" "i div fb_width a"]
    show "fb_pixels a ! i = fb_pixels b ! i" by (simp add: px_def same_size_def)
  qed
  with assms(3) show ?thesis by (simp add: same_size_def)
qed

lemma fb_row_Some:
  assumes "fb_wf fb" "x + len \<le> fb_width fb" "y < fb_height fb"
  shows "fb_row fb y x len = Some (map (\<lambda>i. px fb i y) [x..<x + len])"
proof -
  have le: "y * fb_width fb + x + len \<le> length (fb_pixels fb)"
    using assms by (simp add: fb_wf_def row_index_le)
  have "take len (drop (y * fb_width fb + x) (fb_pixels fb)) = map (\<lambda>i. px fb i y) [x..<x + len]"
    using le by (intro nth_equalityI) (auto simp: px_def add.assoc)
  with le show ?thesis by (simp add: fb_row_def Let_def)
qed

lemma index_eq: "x < w \<Longrightarrow> x' < w \<Longrightarrow> y * w + x = y' * w + x' \<longleftrightarrow> x = x' \<and> y = (y'::nat)"
  by (metis add.commute div_mult_self3 mod_mult_self3 mod_less add_right_imp_eq
      mult_right_cancel not_less_zero)

lemma px_splice:
  assumes "y * w + x + len \<le> length ps" "length src = len" "x + len \<le> w" "x' < w"
  shows "(take (y * w + x) ps @ src @ drop (y * w + x + len) ps) ! (y' * w + x') =
     (if y' = y \<and> x \<le> x' \<and> x' < x + len then src ! (x' - x) else ps ! (y' * w + x'))"
proof (cases "y' = y")
  case True
  then show ?thesis using assms by (auto simp: nth_append)
next
  case False
  then have "y' * w + x' < y * w + x \<or> y * w + x + len \<le> y' * w + x'"
  proof (cases "y' < y")
    case True
    then have "Suc y' * w \<le> y * w" by (intro mult_le_mono1) simp
    with assms(4) show ?thesis by simp
  next
    case F: False
    with False have "Suc y * w \<le> y' * w" by (intro mult_le_mono1) simp
    with assms(3) show ?thesis by simp
  qed
  with False assms show ?thesis by (auto simp: nth_append)
qed

lemma fb_row_write_Some:
  assumes "fb_wf fb" "x + len \<le> fb_width fb" "y < fb_height fb" "length src = len"
  obtains fb' where "fb_row_write fb y x len src = Some fb'" "fb_wf fb'" "same_size fb' fb"
    "\<And>x' y'. x' < fb_width fb \<Longrightarrow> px fb' x' y' =
       (if y' = y \<and> x \<le> x' \<and> x' < x + len then src ! (x' - x) else px fb x' y')"
proof -
  let ?s = "y * fb_width fb + x"
  let ?fb = "fb\<lparr>fb_pixels := take ?s (fb_pixels fb) @ src @ drop (?s + len) (fb_pixels fb)\<rparr>"
  have le: "?s + len \<le> length (fb_pixels fb)"
    using assms by (simp add: fb_wf_def row_index_le)
  show ?thesis
  proof (rule that [of ?fb])
    show "fb_row_write fb y x len src = Some ?fb"
      using le assms(4) by (simp add: fb_row_write_def Let_def)
    show "fb_wf ?fb" using assms(1,4) le by (simp add: fb_wf_def)
    show "px ?fb x' y' = (if y' = y \<and> x \<le> x' \<and> x' < x + len then src ! (x' - x) else px fb x' y')"
      if "x' < fb_width fb" for x' y'
      using px_splice [OF le assms(4,2) that] by (simp add: px_def)
  qed (simp add: same_size_def)
qed

text \<open>
  A loop that rewrites one stretch of each row in a range, with the stretch of row \<open>y\<close> given by
  \<open>f y\<close>: it does not panic, and the pixels of the stretch become \<open>f y\<close>'s.
\<close>

lemma rows_write:
  assumes "fb_wf fb" "x + len \<le> fb_width fb"
  shows "b \<le> fb_height fb \<Longrightarrow> \<forall>y < b. length (f y) = len \<Longrightarrow>
    \<exists>fb'. ofold (\<lambda>y fb. fb_row_write fb y x len (f y)) [a..<b] fb = Some fb' \<and>
      fb_wf fb' \<and> same_size fb' fb \<and>
      (\<forall>x' y'. x' < fb_width fb \<longrightarrow> px fb' x' y' =
        (if a \<le> y' \<and> y' < b \<and> x \<le> x' \<and> x' < x + len then f y' ! (x' - x) else px fb x' y'))"
proof (induction b)
  case 0
  show ?case using assms(1) by simp
next
  case (Suc b)
  show ?case
  proof (cases "a \<le> b")
    case False
    then show ?thesis using assms(1) by auto
  next
    case True
    from Suc obtain fb1 where fb1: "ofold (\<lambda>y fb. fb_row_write fb y x len (f y)) [a..<b] fb = Some fb1"
      "fb_wf fb1" "same_size fb1 fb" and p1: "\<And>x' y'. x' < fb_width fb \<Longrightarrow> px fb1 x' y' =
       (if a \<le> y' \<and> y' < b \<and> x \<le> x' \<and> x' < x + len then f y' ! (x' - x) else px fb x' y')"
      by auto
    have dims: "x + len \<le> fb_width fb1" "b < fb_height fb1" "length (f b) = len"
      using fb1(3) assms(2) Suc.prems by (simp_all add: same_size_def)
    obtain fb2 where fb2: "fb_row_write fb1 b x len (f b) = Some fb2" "fb_wf fb2" "same_size fb2 fb1"
      and p2: "\<And>x' y'. x' < fb_width fb1 \<Longrightarrow> px fb2 x' y' =
       (if y' = b \<and> x \<le> x' \<and> x' < x + len then f b ! (x' - x) else px fb1 x' y')"
      by (rule fb_row_write_Some [OF fb1(2) dims]) blast
    have "px fb2 x' y' = (if a \<le> y' \<and> y' < Suc b \<and> x \<le> x' \<and> x' < x + len
        then f y' ! (x' - x) else px fb x' y')" if "x' < fb_width fb" for x' y'
      using p1 [OF that, of y'] p2 [of x' y'] that fb1(3) True by (auto simp: same_size_def)
    with fb1 fb2 True show ?thesis by (auto simp: ofold_append same_size_def)
  qed
qed

section \<open>Blitting and extracting\<close>

text \<open>
  \<open>concat_rows\<close> reads an element of a rectangle packed row by row.
\<close>

lemma concat_rows:
  assumes "\<And>y. y < h \<Longrightarrow> length (f y) = w" "y < h" "x < (w::nat)"
  shows "concat (map f [0..<h]) ! (y * w + x) = f y ! x"
  using assms
proof (induction h)
  case (Suc h)
  have "length (concat (map f [0..<h])) = h * w"
    using Suc.prems(1) by (induction h) auto
  with Suc show ?case
    by (cases "y = h") (auto simp: nth_append index_less mult.commute [of h])
qed simp

lemma length_concat_rows:
  "(\<And>y. y < h \<Longrightarrow> length (f y) = w) \<Longrightarrow> length (concat (map f [0..<h])) = h * (w::nat)"
  by (induction h) auto

lemma upt_shift: "[a..<a + n] = map (\<lambda>i. a + i) [0..<n]"
  by (induction n) auto

text \<open>The pixels of a rectangle, row by row.\<close>

definition rect_pixels :: "(nat \<Rightarrow> nat \<Rightarrow> 'a) \<Rightarrow> rect \<Rightarrow> 'a list" where
  "rect_pixels p r =
     concat (map (\<lambda>j. map (\<lambda>i. p (rx r + i) (ry r + j)) [0..<rwidth r]) [0..<rheight r])"

lemma length_rect_pixels [simp]: "length (rect_pixels p r) = area r"
  using length_concat_rows [of "rheight r" "\<lambda>j. map (\<lambda>i. p (rx r + i) (ry r + j)) [0..<rwidth r]" "rwidth r"]
  by (simp add: rect_pixels_def area_def mult.commute)

lemma rect_pixels_nth:
  assumes "inside r x y"
  shows "rect_pixels p r ! ((y - ry r) * rwidth r + (x - rx r)) = p x y"
proof -
  have "y - ry r < rheight r" "x - rx r < rwidth r" "rx r + (x - rx r) = x" "ry r + (y - ry r) = y"
    using assms by (auto simp: inside_def)
  then show ?thesis
    unfolding rect_pixels_def
    by (subst concat_rows [where w = "rwidth r"]) auto
qed

lemma rect_pixels_cong:
  "(\<And>x y. inside r x y \<Longrightarrow> p x y = q x y) \<Longrightarrow> rect_pixels p r = rect_pixels q r"
  unfolding rect_pixels_def by (intro arg_cong [where f = concat] map_cong refl) (simp add: inside_def)

lemma set_rect_pixels: "set (rect_pixels p r) = {p x y | x y. inside r x y}"
proof -
  have "set (rect_pixels p r) =
      {p (rx r + i) (ry r + j) | i j. i < rwidth r \<and> j < rheight r}"
    by (auto simp: rect_pixels_def) blast
  also have "\<dots> = {p x y | x y. inside r x y}"
    by (force simp: inside_def le_iff_add)
  finally show ?thesis .
qed

lemma map_rect_pixels: "map f (rect_pixels p r) = rect_pixels (\<lambda>x y. f (p x y)) r"
  by (simp add: rect_pixels_def map_concat comp_def)

lemma contains_dims:
  assumes "fb_wf fb" "rect_wf r" "rect_contains (fb_bounds fb) r" "\<not> rect_is_empty r"
  shows "rx r + rwidth r \<le> fb_width fb" "ry r + rheight r \<le> fb_height fb"
    "bottom r = ry r + rheight r"
  using assms by (auto simp: rect_contains_def no_wrap) (auto simp: fb_bounds_def)

lemma fb_blit_Some:
  assumes "fb_wf fb" "rect_wf r" "rect_contains (fb_bounds fb) r" "\<not> rect_is_empty r"
    and "length ps = area r"
  obtains fb' where "fb_blit_pixels fb r ps = Some fb'" "fb_wf fb'" "same_size fb' fb"
    "\<And>x y. x < fb_width fb \<Longrightarrow> px fb' x y =
       (if inside r x y then ps ! ((y - ry r) * rwidth r + (x - rx r)) else px fb x y)"
proof -
  note dims = contains_dims [OF assms(1-4)]
  let ?f = "\<lambda>y. if ry r \<le> y then take (rwidth r) (drop ((y - ry r) * rwidth r) ps)
    else replicate (rwidth r) 0"
  have len: "length (?f y) = rwidth r" if "y < ry r + rheight r" for y
  proof (cases "ry r \<le> y")
    case True
    with that have "Suc (y - ry r) * rwidth r \<le> rheight r * rwidth r"
      by (intro mult_le_mono1) auto
    then show ?thesis using assms(5) True by (simp add: area_def mult.commute)
  qed simp
  obtain fb' where fb': "ofold (\<lambda>y fb. fb_row_write fb y (rx r) (rwidth r) (?f y))
      [ry r..<ry r + rheight r] fb = Some fb' \<and> fb_wf fb' \<and> same_size fb' fb \<and>
     (\<forall>x' y'. x' < fb_width fb \<longrightarrow> px fb' x' y' =
       (if ry r \<le> y' \<and> y' < ry r + rheight r \<and> rx r \<le> x' \<and> x' < rx r + rwidth r
        then ?f y' ! (x' - rx r) else px fb x' y'))"
    using rows_write [OF assms(1) dims(1,2), where f = ?f and a = "ry r"] len by blast
  have cong: "ofold f xs s = ofold g xs s" if "\<And>x s. x \<in> set xs \<Longrightarrow> f x s = g x s"
    for f g :: "nat \<Rightarrow> framebuffer \<Rightarrow> framebuffer option" and xs s
    using that by (induction xs arbitrary: s) (auto intro: Option.bind_cong)
  have "fb_blit_pixels fb r ps = ofold (\<lambda>y fb. fb_row_write fb y (rx r) (rwidth r) (?f y))
      [ry r..<ry r + rheight r] fb"
    unfolding fb_blit_pixels_def using assms(3,5) dims(3) by (auto intro: cong)
  with fb' have "fb_blit_pixels fb r ps = Some fb'" by simp
  moreover have "px fb' x y =
      (if inside r x y then ps ! ((y - ry r) * rwidth r + (x - rx r)) else px fb x y)"
    if "x < fb_width fb" for x y
    using fb' that len [of y] by (auto simp: inside_def)
  ultimately show ?thesis using fb' that by blast
qed

lemma rows_extract:
  assumes "fb_wf fb" "x + len \<le> fb_width fb"
  shows "b \<le> fb_height fb \<Longrightarrow>
    ofold (\<lambda>y out. do { row \<leftarrow> fb_row fb y x len; Some (out @ row) }) [a..<b] out =
      Some (out @ concat (map (\<lambda>y. map (\<lambda>i. px fb i y) [x..<x + len]) [a..<b]))"
proof (induction b)
  case (Suc b)
  then show ?case
    using assms by (cases "a \<le> b") (auto simp: ofold_append fb_row_Some)
qed simp

lemma fb_extract_Some:
  assumes "fb_wf fb" "rect_wf r" "rect_contains (fb_bounds fb) r" "\<not> rect_is_empty r"
  shows "fb_extract fb r = Some (rect_pixels (px fb) r)"
proof -
  note dims = contains_dims [OF assms]
  have int: "rect_intersect r (fb_bounds fb) = r"
    using assms dims
    by (auto simp: rect_intersect_def Let_def no_wrap rect_is_empty_def)
      (auto simp: fb_bounds_def fb_wf_def rect_wf_def no_wrap rect_new_def)
  have "concat (map (\<lambda>y. map (\<lambda>i. px fb i y) [rx r..<rx r + rwidth r]) [ry r..<ry r + rheight r]) =
      rect_pixels (px fb) r"
    by (simp add: rect_pixels_def upt_shift [of "rx r"] upt_shift [of "ry r"] comp_def)
  then show ?thesis
    using rows_extract [OF assms(1) dims(1,2), of "ry r" "[]"]
    by (simp add: fb_extract_def int Let_def dims(3))
qed

text \<open>Writing back what was read changes nothing; reading back what was written returns it.\<close>

lemma blit_rect_pixels:
  assumes "fb_wf fb" "rect_wf r" "rect_contains (fb_bounds fb) r" "\<not> rect_is_empty r"
  obtains fb' where "fb_blit_pixels fb r (rect_pixels p r) = Some fb'" "fb_wf fb'" "same_size fb' fb"
    "\<And>x y. x < fb_width fb \<Longrightarrow> px fb' x y = (if inside r x y then p x y else px fb x y)"
proof -
  obtain fb' where fb': "fb_blit_pixels fb r (rect_pixels p r) = Some fb'" "fb_wf fb'"
    "same_size fb' fb"
    and q: "\<And>x y. x < fb_width fb \<Longrightarrow> px fb' x y =
       (if inside r x y then rect_pixels p r ! ((y - ry r) * rwidth r + (x - rx r)) else px fb x y)"
    by (rule fb_blit_Some [OF assms length_rect_pixels]) blast
  show ?thesis
    by (rule that [OF fb']) (simp add: q rect_pixels_nth)
qed

section \<open>Resizing\<close>

lemma fb_resize_Some:
  assumes "fb_wf fb" "w < 2 ^ 32" "h < 2 ^ 32"
  obtains fb' where "fb_resize fb w h = Some fb'" "fb_wf fb'" "fb_width fb' = w" "fb_height fb' = h"
    "\<And>x y. x < min w (fb_width fb) \<Longrightarrow> y < min h (fb_height fb) \<Longrightarrow> px fb' x y = px fb x y"
proof (cases "w = fb_width fb \<and> h = fb_height fb")
  case True
  then show ?thesis using assms(1) by (intro that [of fb]) (simp_all add: fb_resize_def)
next
  case False
  let ?mw = "min w (fb_width fb)" and ?mh = "min h (fb_height fb)"
  let ?f = "\<lambda>y. map (\<lambda>i. px fb i y) [0..<?mw]"
  have new: "fb_wf (fb_new w h)" "fb_width (fb_new w h) = w" "fb_height (fb_new w h) = h"
    using assms(2,3) by (simp_all add: fb_new_wf) (simp_all add: fb_new_def)
  obtain fb' where fb': "ofold (\<lambda>y fb. fb_row_write fb y 0 ?mw (?f y)) [0..<?mh] (fb_new w h) = Some fb'"
    "fb_wf fb'" "same_size fb' (fb_new w h)"
    and p: "\<And>x y. x < w \<Longrightarrow> px fb' x y = (if y < ?mh \<and> x < ?mw then ?f y ! x else px (fb_new w h) x y)"
    using rows_write [OF new(1), of 0 ?mw ?mh ?f 0] new by auto
  have cong: "ofold f xs s = ofold g xs s" if "\<And>x s. x \<in> set xs \<Longrightarrow> f x s = g x s"
    for f g :: "nat \<Rightarrow> framebuffer \<Rightarrow> framebuffer option" and xs s
    using that by (induction xs arbitrary: s) (auto intro: Option.bind_cong)
  have "fb_resize fb w h = ofold (\<lambda>y new. do { s \<leftarrow> fb_row fb y 0 ?mw; fb_row_write new y 0 ?mw s }) [0..<?mh] (fb_new w h)"
    unfolding fb_resize_def Let_def using False by argo
  also have "\<dots> = ofold (\<lambda>y fb. fb_row_write fb y 0 ?mw (?f y)) [0..<?mh] (fb_new w h)"
    by (rule cong) (use fb_row_Some [OF assms(1), of 0 ?mw] in simp)
  finally have "fb_resize fb w h = Some fb'" using fb'(1) by simp
  then show ?thesis
    using fb' new p by (intro that [of fb']) (auto simp: same_size_def)
qed

end
