(* ===== verification/Wire.thy ===== *)
theory Wire
  imports Lynx_Prelude "HOL-Library.Sublist"
begin

text \<open>
  \<open>crates/proto/src/wire.rs\<close>: the primitive little-endian reader and writer every message and
  the daemon's handoff record are built from. A \<open>Writer\<close> is the bytes written so far; a
  \<open>Reader\<close> is the input and a position. The locale \<open>wire_field\<close> is what the message codec
  relies on: a write appends an encoding, and a read of that encoding returns the value and
  stops right behind it. It is interpreted on every primitive of the file.
\<close>

section \<open>Errors and limits\<close>

datatype decode_error =
    UnexpectedEof (needed: nat) (eof_remaining: nat)
  | InvalidUtf8
  | LengthTooLarge nat
  | InvalidTag u32
  | TrailingBytes nat
  | InvalidValue string

fun show_decode_error :: "decode_error \<Rightarrow> string" where
  "show_decode_error (UnexpectedEof n r) =
     ''unexpected end of input: need '' @ decimal n @ '' bytes, '' @ decimal r @ '' remaining''"
| "show_decode_error InvalidUtf8 = ''invalid UTF-8 in string field''"
| "show_decode_error (LengthTooLarge n) = ''length prefix too large: '' @ decimal n"
| "show_decode_error (InvalidTag t) = ''unknown tag value '' @ decimal (unat t)"
| "show_decode_error (TrailingBytes n) = decimal n @ '' trailing bytes after message''"
| "show_decode_error (InvalidValue w) = ''invalid value for '' @ w"

definition MAX_BLOB_LEN :: nat where "MAX_BLOB_LEN = 32 * 1024 * 1024"

definition MAX_TEXT_LEN :: nat where "MAX_TEXT_LEN = 4096"

section \<open>Truncation\<close>

text \<open>
  The loop of \<open>truncated\<close>: step down from \<open>max\<close> to the nearest character boundary. Index 0
  always is one, so the loop stops.
\<close>

primrec cut_at_boundary :: "u8 list \<Rightarrow> nat \<Rightarrow> nat" where
  "cut_at_boundary bs 0 = 0"
| "cut_at_boundary bs (Suc n) =
     (if char_boundary bs (Suc n) then Suc n else cut_at_boundary bs n)"

definition truncated :: "string \<Rightarrow> nat \<Rightarrow> string" where
  "truncated s mx = (if length s \<le> mx then s else take (cut_at_boundary (str_bytes s) mx) s)"

lemma cut_at_boundary: "cut_at_boundary bs n \<le> n \<and> char_boundary bs (cut_at_boundary bs n)"
  by (induction n) (auto simp: char_boundary_def)

lemma cut_at_boundary_greatest:
  "char_boundary bs i \<Longrightarrow> i \<le> n \<Longrightarrow> i \<le> cut_at_boundary bs n"
  by (induction n) (auto simp: le_Suc_eq)

lemma length_truncated: "length (truncated s mx) \<le> mx"
  using cut_at_boundary [of "str_bytes s" mx] by (auto simp: truncated_def)

lemma str_bytes_take: "str_bytes (take n s) = take n (str_bytes s)"
  by (simp add: str_bytes_def take_map)

lemma utf8_truncated: "utf8_str s \<Longrightarrow> utf8_str (truncated s mx)"
  using cut_at_boundary [of "str_bytes s" mx]
  by (auto simp: truncated_def utf8_str_def str_bytes_take intro: utf8_valid_take)

section \<open>Writer\<close>

type_synonym writer = "u8 list"

definition w_u8 :: "u8 \<Rightarrow> writer \<Rightarrow> writer" where "w_u8 v w = w @ [v]"

definition w_bool :: "bool \<Rightarrow> writer \<Rightarrow> writer" where "w_bool v w = w @ [of_bool v]"

definition w_u16 :: "u16 \<Rightarrow> writer \<Rightarrow> writer" where "w_u16 v w = w @ le_bytes 2 v"

definition w_i16 :: "i16 \<Rightarrow> writer \<Rightarrow> writer" where "w_i16 v w = w @ le_bytes 2 v"

definition w_u32 :: "u32 \<Rightarrow> writer \<Rightarrow> writer" where "w_u32 v w = w @ le_bytes 4 v"

definition w_i32 :: "i32 \<Rightarrow> writer \<Rightarrow> writer" where "w_i32 v w = w @ le_bytes 4 v"

definition w_u64 :: "u64 \<Rightarrow> writer \<Rightarrow> writer" where "w_u64 v w = w @ le_bytes 8 v"

definition w_raw :: "u8 list \<Rightarrow> writer \<Rightarrow> writer" where "w_raw bs w = w @ bs"

definition w_bytes :: "u8 list \<Rightarrow> writer \<Rightarrow> writer" where
  "w_bytes bs w =
     (let bs = (if MAX_BLOB_LEN < length bs then take MAX_BLOB_LEN bs else bs)
      in w_u32 (of_nat (length bs)) w @ bs)"

definition w_string :: "string \<Rightarrow> writer \<Rightarrow> writer" where
  "w_string s w = w_bytes (str_bytes (truncated s MAX_BLOB_LEN)) w"

definition w_text :: "string \<Rightarrow> writer \<Rightarrow> writer" where
  "w_text s w = w_bytes (str_bytes (truncated s MAX_TEXT_LEN)) w"

text \<open>A block of statements that write, in order.\<close>

definition w_seq :: "(writer \<Rightarrow> writer) list \<Rightarrow> writer \<Rightarrow> writer" where
  "w_seq fs w = fold (\<lambda>f. f) fs w"

lemma w_seq_simps [simp]: "w_seq [] w = w" "w_seq (f # fs) w = w_seq fs (f w)"
  by (simp_all add: w_seq_def)

text \<open>What each write appends.\<close>

definition enc_bytes :: "u8 list \<Rightarrow> u8 list" where
  "enc_bytes bs = (let bs = take MAX_BLOB_LEN bs in le_bytes 4 (of_nat (length bs) :: u32) @ bs)"

definition enc_string :: "string \<Rightarrow> u8 list" where
  "enc_string s = enc_bytes (str_bytes (truncated s MAX_BLOB_LEN))"

definition enc_text :: "string \<Rightarrow> u8 list" where
  "enc_text s = enc_bytes (str_bytes (truncated s MAX_TEXT_LEN))"

lemma w_bytes_enc: "w_bytes bs w = w @ enc_bytes bs"
  by (simp add: w_bytes_def enc_bytes_def Let_def w_u32_def)

lemma writes_append [wire_simps]:
  "w_u8 a w = w @ [a]" "w_bool b w = w @ [of_bool b]" "w_u16 c w = w @ le_bytes 2 c"
  "w_i16 c w = w @ le_bytes 2 c" "w_u32 d w = w @ le_bytes 4 d" "w_i32 d w = w @ le_bytes 4 d"
  "w_u64 e w = w @ le_bytes 8 e" "w_raw bs w = w @ bs" "w_bytes bs w = w @ enc_bytes bs"
  "w_string s w = w @ enc_string s" "w_text s w = w @ enc_text s"
  by (simp_all add: w_u8_def w_bool_def w_u16_def w_i16_def w_u32_def w_i32_def w_u64_def
      w_raw_def w_bytes_enc w_string_def w_text_def enc_string_def enc_text_def)

lemma length_enc_bytes: "length (enc_bytes bs) = 4 + min (length bs) MAX_BLOB_LEN"
  by (simp add: enc_bytes_def Let_def min.commute)

lemma length_enc_text: "length (enc_text s) \<le> 4 + MAX_TEXT_LEN"
  using length_truncated [of s MAX_TEXT_LEN] by (simp add: enc_text_def length_enc_bytes)

lemma length_enc_text_ge: "4 \<le> length (enc_text s)"
  by (simp add: enc_text_def length_enc_bytes)

section \<open>Reader\<close>

record reader =
  rdata :: "u8 list"
  rpos :: nat

type_synonym 'a rd = "reader \<Rightarrow> decode_error + 'a \<times> reader"

definition rd_new :: "u8 list \<Rightarrow> reader" where
  "rd_new data = \<lparr>rdata = data, rpos = 0\<rparr>"

definition remaining :: "reader \<Rightarrow> nat" where
  "remaining r = length (rdata r) - rpos r"

definition rd_is_empty :: "reader \<Rightarrow> bool" where
  "rd_is_empty r \<longleftrightarrow> remaining r = 0"

definition rd_finish :: "reader \<Rightarrow> decode_error + unit" where
  "rd_finish r = (if remaining r = 0 then Inr () else Inl (TrailingBytes (remaining r)))"

text \<open>Sequencing of fallible reads (\<open>?\<close> on a \<open>&mut self\<close> method), success and failure.\<close>

definition rd_bind :: "'a rd \<Rightarrow> ('a \<Rightarrow> 'b rd) \<Rightarrow> 'b rd" where
  "rd_bind m f r = (case m r of Inl e \<Rightarrow> Inl e | Inr (x, r') \<Rightarrow> f x r')"

definition rd_return :: "'a \<Rightarrow> 'a rd" where "rd_return x r = Inr (x, r)"

definition rd_fail :: "decode_error \<Rightarrow> 'a rd" where "rd_fail e r = Inl e"

definition rd_lift :: "decode_error + 'a \<Rightarrow> 'a rd" where
  "rd_lift m r = (case m of Inl e \<Rightarrow> Inl e | Inr x \<Rightarrow> Inr (x, r))"

definition rd_take :: "nat \<Rightarrow> u8 list rd" where
  "rd_take n r =
     (if remaining r < n then Inl (UnexpectedEof n (remaining r))
      else Inr (take n (drop (rpos r) (rdata r)), r\<lparr>rpos := rpos r + n\<rparr>))"

definition rd_u8 :: "u8 rd" where
  "rd_u8 = rd_bind (rd_take 1) (\<lambda>b. rd_return (b ! 0))"

definition rd_bool :: "bool rd" where
  "rd_bool = rd_bind rd_u8 (\<lambda>b. rd_return (b \<noteq> 0))"

definition rd_u16 :: "u16 rd" where
  "rd_u16 = rd_bind (rd_take 2) (\<lambda>b. rd_return (of_le b))"

definition rd_i16 :: "i16 rd" where
  "rd_i16 = rd_bind (rd_take 2) (\<lambda>b. rd_return (of_le b))"

definition rd_u32 :: "u32 rd" where
  "rd_u32 = rd_bind (rd_take 4) (\<lambda>b. rd_return (of_le b))"

definition rd_i32 :: "i32 rd" where
  "rd_i32 = rd_bind (rd_take 4) (\<lambda>b. rd_return (of_le b))"

definition rd_u64 :: "u64 rd" where
  "rd_u64 = rd_bind (rd_take 8) (\<lambda>b. rd_return (of_le b))"

definition rd_raw :: "nat \<Rightarrow> u8 list rd" where "rd_raw n = rd_take n"

definition rd_bytes :: "u8 list rd" where
  "rd_bytes = rd_bind rd_u32 (\<lambda>len.
     if MAX_BLOB_LEN < unat len then rd_fail (LengthTooLarge (unat len)) else rd_take (unat len))"

definition rd_string_up_to :: "nat \<Rightarrow> string rd" where
  "rd_string_up_to mx = rd_bind rd_u32 (\<lambda>len.
     if mx < unat len then rd_fail (LengthTooLarge (unat len))
     else rd_bind (rd_take (unat len)) (\<lambda>b.
       if utf8_valid b then rd_return (bytes_str b) else rd_fail InvalidUtf8))"

definition rd_string :: "string rd" where "rd_string = rd_string_up_to MAX_BLOB_LEN"

definition rd_text :: "string rd" where "rd_text = rd_string_up_to MAX_TEXT_LEN"

text \<open>A counted loop of reads.\<close>

primrec rd_repeat :: "nat \<Rightarrow> 'a rd \<Rightarrow> 'a list rd" where
  "rd_repeat 0 get = rd_return []"
| "rd_repeat (Suc n) get = rd_bind get (\<lambda>x. rd_bind (rd_repeat n get) (\<lambda>xs. rd_return (x # xs)))"

section \<open>The contract of a field\<close>

text \<open>\<open>rd_at pre rest\<close> is the reader that has consumed \<open>pre\<close> and has \<open>rest\<close> before it.\<close>

definition rd_at :: "u8 list \<Rightarrow> u8 list \<Rightarrow> reader" where
  "rd_at pre rest = \<lparr>rdata = pre @ rest, rpos = length pre\<rparr>"

definition rd_ok :: "reader \<Rightarrow> bool" where
  "rd_ok r \<longleftrightarrow> rpos r \<le> length (rdata r)"

lemma rd_new_at: "rd_new bs = rd_at [] bs"
  by (simp add: rd_new_def rd_at_def)

lemma rd_bind_simps [wire_simps]:
  "m r = Inl e \<Longrightarrow> rd_bind m f r = Inl e"
  "m r = Inr (x, r') \<Longrightarrow> rd_bind m f r = f x r'"
  "rd_return y r = Inr (y, r)" "rd_fail e r = Inl e"
  "rd_lift (Inl e) r = Inl e" "rd_lift (Inr z) r = Inr (z, r)"
  by (simp_all add: rd_bind_def rd_return_def rd_fail_def rd_lift_def)

lemma rd_bind_Inr_iff:
  "rd_bind m f r = Inr (y, t) \<longleftrightarrow> (\<exists>x s. m r = Inr (x, s) \<and> f x s = Inr (y, t))"
  by (auto simp: rd_bind_def split: sum.splits)

lemma remaining_at [simp]: "remaining (rd_at pre rest) = length rest"
  by (simp add: remaining_def rd_at_def)

lemma rd_finish_at: "rd_finish (rd_at pre []) = Inr ()"
  by (simp add: rd_finish_def)

lemma rd_take_at:
  "length bs = n \<Longrightarrow> rd_take n (rd_at pre (bs @ t)) = Inr (bs, rd_at (pre @ bs) t)"
  by (auto simp: rd_take_def remaining_def rd_at_def)

lemma rd_take_eof:
  "length t < n \<Longrightarrow> rd_take n (rd_at pre t) = Inl (UnexpectedEof n (length t))"
  by (simp add: rd_take_def)

lemma rd_take_Inr:
  "rd_take n r = Inr (bs, r') \<Longrightarrow> rd_ok r \<Longrightarrow>
     length bs = n \<and> rdata r' = rdata r \<and> rpos r' = rpos r + n \<and> rd_ok r'"
  by (auto simp: rd_take_def remaining_def rd_ok_def split: if_splits)

locale wire_field =
  fixes put :: "'a \<Rightarrow> writer \<Rightarrow> writer"
    and enc :: "'a \<Rightarrow> u8 list"
    and get :: "'a rd"
    and ok :: "'a \<Rightarrow> bool"
  assumes put_enc: "put v w = w @ enc v"
    and get_enc: "ok v \<Longrightarrow> get (rd_at pre (enc v @ t)) = Inr (v, rd_at (pre @ enc v) t)"
    and get_ok: "get r = Inr (v, r') \<Longrightarrow> ok v"
begin

lemma put_list: "fold put vs w = w @ concat (map enc vs)"
  by (induction vs arbitrary: w) (auto simp: put_enc)

lemma get_list:
  "\<forall>v \<in> set vs. ok v \<Longrightarrow> rd_repeat (length vs) get (rd_at pre (concat (map enc vs) @ t)) =
     Inr (vs, rd_at (pre @ concat (map enc vs)) t)"
proof (induction vs arbitrary: pre)
  case (Cons v vs)
  from Cons.IH [of "pre @ enc v"] Cons.prems get_enc [of v pre "concat (map enc vs) @ t"]
  show ?case by (simp add: wire_simps)
qed (simp add: wire_simps)

lemma get_list_ok: "rd_repeat n get r = Inr (vs, r') \<Longrightarrow> length vs = n \<and> (\<forall>v \<in> set vs. ok v)"
proof (induction n arbitrary: r vs)
  case (Suc n)
  then obtain x s xs where get: "get r = Inr (x, s)" and rest: "rd_repeat n get s = Inr (xs, r')"
    and vs: "vs = x # xs"
    by (auto simp: rd_bind_Inr_iff rd_return_def)
  from Suc.IH [OF rest] get_ok [OF get] vs show ?case by simp
qed (simp add: rd_return_def)

end

text \<open>A field with a least encoded size, which is what the decoder's early count checks use.\<close>

locale sized_field = wire_field +
  fixes width :: nat
  assumes width: "width \<le> length (enc v)"
begin

lemma width_list: "length vs * width \<le> length (concat (map enc vs))"
  using width by (induction vs) (auto intro: add_mono)

end

section \<open>The primitives keep the contract\<close>

lemma rd_u8_at: "rd_u8 (rd_at pre (b # t)) = Inr (b, rd_at (pre @ [b]) t)"
  using rd_take_at [of "[b]" 1 pre t] by (simp add: rd_u8_def wire_simps)

interpretation wu8: wire_field w_u8 "\<lambda>v. [v]" rd_u8 "\<lambda>_. True"
  by unfold_locales (simp_all add: wire_simps rd_u8_at)

interpretation wbool: wire_field w_bool "\<lambda>v. [of_bool v]" rd_bool "\<lambda>_. True"
  by unfold_locales (simp_all add: wire_simps rd_bool_def rd_u8_at)

interpretation wu16: wire_field w_u16 "le_bytes 2" rd_u16 "\<lambda>_. True"
  by unfold_locales (simp_all add: wire_simps rd_u16_def rd_take_at of_le_le_bytes_full)

interpretation wi16: wire_field w_i16 "le_bytes 2" rd_i16 "\<lambda>_. True"
  by unfold_locales (simp_all add: wire_simps rd_i16_def rd_take_at of_le_le_bytes_full)

interpretation wu32: wire_field w_u32 "le_bytes 4" rd_u32 "\<lambda>_. True"
  by unfold_locales (simp_all add: wire_simps rd_u32_def rd_take_at of_le_le_bytes_full)

interpretation wi32: wire_field w_i32 "le_bytes 4" rd_i32 "\<lambda>_. True"
  by unfold_locales (simp_all add: wire_simps rd_i32_def rd_take_at of_le_le_bytes_full)

interpretation wu64: wire_field w_u64 "le_bytes 8" rd_u64 "\<lambda>_. True"
  by unfold_locales (simp_all add: wire_simps rd_u64_def rd_take_at of_le_le_bytes_full)

lemma unat_of_nat_u32: "n < 2 ^ 32 \<Longrightarrow> unat (of_nat n :: u32) = n"
  by (simp add: unat_of_nat)

lemma rd_bytes_at:
  "length bs \<le> MAX_BLOB_LEN \<Longrightarrow>
     rd_bytes (rd_at pre (enc_bytes bs @ t)) = Inr (bs, rd_at (pre @ enc_bytes bs) t)"
  by (simp add: rd_bytes_def enc_bytes_def wire_simps wu32.get_enc unat_of_nat_u32 rd_take_at
      MAX_BLOB_LEN_def)

lemma rd_bytes_ok: "rd_bytes r = Inr (bs, r') \<Longrightarrow> length bs \<le> MAX_BLOB_LEN"
  by (auto simp: rd_bytes_def rd_bind_Inr_iff rd_fail_def rd_take_def split: if_splits)

interpretation wbytes: sized_field w_bytes enc_bytes rd_bytes "\<lambda>bs. length bs \<le> MAX_BLOB_LEN" 4
  by unfold_locales (auto simp: wire_simps rd_bytes_at rd_bytes_ok length_enc_bytes)

lemma rd_string_up_to_at:
  "utf8_str s \<Longrightarrow> length s \<le> mx \<Longrightarrow> mx \<le> MAX_BLOB_LEN \<Longrightarrow>
     rd_string_up_to mx (rd_at pre (enc_bytes (str_bytes s) @ t)) =
       Inr (s, rd_at (pre @ enc_bytes (str_bytes s)) t)"
  by (simp add: rd_string_up_to_def enc_bytes_def wire_simps wu32.get_enc unat_of_nat_u32 rd_take_at
      MAX_BLOB_LEN_def utf8_str_def)

lemma rd_string_up_to_ok:
  "rd_string_up_to mx r = Inr (s, r') \<Longrightarrow> utf8_str s \<and> length s \<le> mx"
  by (auto simp: rd_string_up_to_def rd_bind_Inr_iff rd_fail_def rd_return_def rd_take_def
      utf8_str_def split: if_splits)

definition text_ok :: "string \<Rightarrow> bool" where
  "text_ok s \<longleftrightarrow> utf8_str s \<and> length s \<le> MAX_TEXT_LEN"

definition string_ok :: "string \<Rightarrow> bool" where
  "string_ok s \<longleftrightarrow> utf8_str s \<and> length s \<le> MAX_BLOB_LEN"

interpretation wstring: sized_field w_string enc_string rd_string string_ok 4
  by unfold_locales
    (auto simp: wire_simps rd_string_def enc_string_def string_ok_def truncated_def
      rd_string_up_to_at length_enc_bytes dest: rd_string_up_to_ok)

interpretation wtext: sized_field w_text enc_text rd_text text_ok 4
  by unfold_locales
    (auto simp: wire_simps rd_text_def enc_text_def text_ok_def truncated_def
      rd_string_up_to_at length_enc_bytes MAX_BLOB_LEN_def MAX_TEXT_LEN_def
      dest: rd_string_up_to_ok)

lemmas field_reads [wire_simps] =
  wu8.get_enc [OF TrueI, simplified] wbool.get_enc [OF TrueI, simplified]
  wu16.get_enc [OF TrueI] wi16.get_enc [OF TrueI] wu32.get_enc [OF TrueI] wi32.get_enc [OF TrueI]
  wu64.get_enc [OF TrueI] wbytes.get_enc wstring.get_enc wtext.get_enc

lemma enc_text_at_limit: "truncated (truncated s mx) mx = truncated s mx"
  using length_truncated [of s mx] by (simp add: truncated_def [of "truncated s mx"])

section \<open>Properties\<close>

text \<open>
  A free-text field survives any string a caller hands the writer: whatever its length,
  \<open>text\<close> on the other side reads back the longest prefix of at most \<open>MAX_TEXT_LEN\<close> bytes that
  ends on a character boundary, which is valid UTF-8, and nothing behind the field is touched.
\<close>

theorem text_field_roundtrip:
  assumes "utf8_str s"
  shows "rd_text (rd_at pre (w_text s [] @ t)) =
      Inr (truncated s MAX_TEXT_LEN, rd_at (pre @ w_text s []) t) \<and>
    text_ok (truncated s MAX_TEXT_LEN) \<and> prefix (truncated s MAX_TEXT_LEN) s \<and>
    (\<forall>i. char_boundary (str_bytes s) i \<longrightarrow> i \<le> MAX_TEXT_LEN \<longrightarrow>
       i \<le> length (truncated s MAX_TEXT_LEN))"
proof (intro conjI allI impI)
  let ?c = "truncated s MAX_TEXT_LEN"
  show ok: "text_ok ?c"
    using utf8_truncated [OF assms] length_truncated by (simp add: text_ok_def)
  show "rd_text (rd_at pre (w_text s [] @ t)) = Inr (?c, rd_at (pre @ w_text s []) t)"
    using wtext.get_enc [OF ok, of pre t]
    by (simp add: wire_simps enc_text_def enc_text_at_limit)
  show "prefix ?c s"
    by (simp add: truncated_def take_is_prefix)
  show "i \<le> length ?c" if "char_boundary (str_bytes s) i" "i \<le> MAX_TEXT_LEN" for i
    using cut_at_boundary_greatest [OF that] that
    by (auto simp: truncated_def char_boundary_def)
qed

theorem text_field_roundtrip_witness:
  "rd_text (rd_at [] (w_text ''hi'' [] @ [7])) =
     Inr (truncated ''hi'' MAX_TEXT_LEN, rd_at ([] @ w_text ''hi'' []) [7])
   \<and> 1 \<le> length (truncated ''hi'' MAX_TEXT_LEN)"
proof -
  have u: "utf8_str ''hi''"
    by (simp add: utf8_str_def str_bytes_def)
  have b: "char_boundary (str_bytes ''hi'') 1"
    by (simp add: char_boundary_def str_bytes_def cont_byte_def)
  show ?thesis
    using text_field_roundtrip [OF u, of "[]" "[7]"] b by (auto simp: MAX_TEXT_LEN_def)
qed

end
