(* ===== verification/Tile_Codec.thy ===== *)
theory Tile_Codec
  imports Image Wire
begin

text \<open>
  The data types of \<open>crates/proto/src/codec.rs\<close> and its two byte packings: packed 24-bit RGB
  (\<open>pack_rgb\<close>, \<open>unpack_rgb\<close>) and palette indices at 1, 2, 4 or 8 bits (\<open>pack_indices\<close>,
  \<open>unpack_indices\<close>). The lemmas say which bit of which byte holds which index bit, and that
  both packings read back what they were given, less the unused high byte of a pixel.
\<close>

section \<open>Data\<close>

datatype tile_encoding = Solid | Raw | Lz4 | Zstd | Palette | PaletteLz4 | PaletteZstd

fun tile_encoding_tag :: "tile_encoding \<Rightarrow> u8" where
  "tile_encoding_tag Solid = 0" | "tile_encoding_tag Raw = 1" | "tile_encoding_tag Lz4 = 2"
| "tile_encoding_tag Zstd = 3" | "tile_encoding_tag Palette = 4"
| "tile_encoding_tag PaletteLz4 = 5" | "tile_encoding_tag PaletteZstd = 6"

definition tile_encoding_from_u8 :: "u8 \<Rightarrow> decode_error + tile_encoding" where
  "tile_encoding_from_u8 v =
     (if v = 0 then Inr Solid else if v = 1 then Inr Raw else if v = 2 then Inr Lz4
      else if v = 3 then Inr Zstd else if v = 4 then Inr Palette else if v = 5 then Inr PaletteLz4
      else if v = 6 then Inr PaletteZstd else Inl (InvalidTag (ucast v)))"

fun is_palette :: "tile_encoding \<Rightarrow> bool" where
  "is_palette Palette = True" | "is_palette PaletteLz4 = True" | "is_palette PaletteZstd = True"
| "is_palette _ = False"

record tile_update =
  tile_rect :: rect
  tile_encoding :: tile_encoding
  tile_data :: "u8 list"

record copy_rect =
  src_x :: nat
  src_y :: nat
  dest :: rect

definition copy_src :: "copy_rect \<Rightarrow> rect" where
  "copy_src c = rect_new (src_x c) (src_y c) (rwidth (dest c)) (rheight (dest c))"

record frame_update =
  fu_copies :: "copy_rect list"
  fu_tiles :: "tile_update list"

definition fu_is_empty :: "frame_update \<Rightarrow> bool" where
  "fu_is_empty f \<longleftrightarrow> fu_copies f = [] \<and> fu_tiles f = []"

definition payload_bytes :: "frame_update \<Rightarrow> nat" where
  "payload_bytes f = sum_list (map (\<lambda>t. length (tile_data t)) (fu_tiles f)) + length (fu_copies f) * 12"

datatype codec_error = Corrupt string | OutOfBounds rect | Excessive string

lemma tile_encoding_from_tag [simp]: "tile_encoding_from_u8 (tile_encoding_tag e) = Inr e"
  by (cases e) (simp_all add: tile_encoding_from_u8_def)

section \<open>Packed RGB\<close>

definition rgb_bytes :: "u32 \<Rightarrow> u8 list" where
  "rgb_bytes p = [ucast (drop_bit 16 p), ucast (drop_bit 8 p), ucast p]"

definition rgb :: "u8 \<Rightarrow> u8 \<Rightarrow> u8 \<Rightarrow> u32" where
  "rgb r g b = push_bit 16 (ucast r) OR push_bit 8 (ucast g) OR ucast b"

definition pack_rgb :: "u32 list \<Rightarrow> u8 list" where
  "pack_rgb ps = concat (map rgb_bytes ps)"

text \<open>\<open>chunks_exact(3)\<close> leaves a remainder of one or two bytes out.\<close>

fun rgb_chunks :: "u8 list \<Rightarrow> u32 list" where
  "rgb_chunks (r # g # b # rest) = rgb r g b # rgb_chunks rest"
| "rgb_chunks _ = []"

definition unpack_rgb :: "u8 list \<Rightarrow> codec_error + u32 list" where
  "unpack_rgb bs =
     (if length bs mod 3 \<noteq> 0 then Inl (Corrupt ''rgb length not a multiple of 3'')
      else Inr (rgb_chunks bs))"

definition visible :: "u32 \<Rightarrow> u32" where "visible p = p AND rgb_mask"

lemma bit_rgb_mask: "bit rgb_mask n \<longleftrightarrow> n < 24"
proof -
  have "rgb_mask = (mask 24 :: u32)" by (simp add: rgb_mask_def mask_eq_exp_minus_1)
  moreover have "bit (mask 24 :: u32) n \<longleftrightarrow> n < 24"
    unfolding bit_mask_iff by auto
  ultimately show ?thesis by (simp only:)
qed

lemma rgb_rgb_bytes: "rgb (ucast (drop_bit 16 p)) (ucast (drop_bit 8 p)) (ucast p) = visible p"
proof (rule bit_word_eqI)
  fix n :: nat
  consider "n < 8" | "8 \<le> n" "n < 16" | "16 \<le> n" "n < 24" | "24 \<le> n" by linarith
  then show "bit (rgb (ucast (drop_bit 16 p)) (ucast (drop_bit 8 p)) (ucast p)) n =
      bit (visible p) n"
    by cases (auto simp: rgb_def visible_def bit_simps bit_rgb_mask)
qed

lemma visible_idem [simp]: "visible (visible p) = visible p"
  by (simp add: visible_def)

lemma rgb_bytes_visible [simp]: "rgb_bytes (visible p) = rgb_bytes p"
  unfolding rgb_bytes_def visible_def
  by (auto intro!: bit_word_eqI simp: bit_simps bit_rgb_mask)

lemma visible_neq_ones: "visible p \<noteq> - 1"
proof
  assume "visible p = - 1"
  then have "bit (visible p) 31" by simp
  then show False by (simp add: visible_def bit_simps bit_rgb_mask)
qed

lemma length_pack_rgb: "length (pack_rgb ps) = 3 * length ps"
  by (induction ps) (auto simp: pack_rgb_def rgb_bytes_def)

lemma rgb_chunks_pack: "rgb_chunks (pack_rgb ps @ rest) = map visible ps @ rgb_chunks rest"
  by (induction ps) (auto simp: pack_rgb_def rgb_bytes_def rgb_rgb_bytes)

lemma rgb_chunks_pack_exact: "rgb_chunks (pack_rgb ps) = map visible ps"
  using rgb_chunks_pack [of ps "[]"] by simp

lemma unpack_pack_rgb: "unpack_rgb (pack_rgb ps) = Inr (map visible ps)"
  by (simp add: unpack_rgb_def length_pack_rgb rgb_chunks_pack_exact)

section \<open>Palette indices\<close>

definition bits_for :: "nat \<Rightarrow> nat" where
  "bits_for n = (if n \<le> 2 then 1 else if n \<le> 4 then 2 else if n \<le> 16 then 4 else 8)"

definition index_mask :: "nat \<Rightarrow> u8" where
  "index_mask bpi = ucast (push_bit bpi (1 :: u16) - 1)"

definition index_shift :: "nat \<Rightarrow> nat \<Rightarrow> nat" where
  "index_shift bpi i = 8 - bpi * (i mod (8 div bpi) + 1)"

definition pack_step :: "nat \<Rightarrow> nat \<times> u16 \<Rightarrow> u8 list \<Rightarrow> u8 list" where
  "pack_step bpi = (\<lambda>(i, idx) out.
     out[i div (8 div bpi) := (out ! (i div (8 div bpi))) OR
           push_bit (index_shift bpi i) (ucast idx AND index_mask bpi)])"

definition pack_indices :: "u16 list \<Rightarrow> nat \<Rightarrow> u8 list" where
  "pack_indices indices bpi =
     fold (pack_step bpi) (enumerate 0 indices)
       (replicate (div_ceil (length indices) (8 div bpi)) 0)"

definition unpack_indices :: "u8 list \<Rightarrow> nat \<Rightarrow> nat \<Rightarrow> codec_error + u16 list" where
  "unpack_indices data count bpi =
     (if length data < div_ceil count (8 div bpi) then Inl (Corrupt ''palette index stream too short'')
      else Inr (map (\<lambda>i. ucast (drop_bit (index_shift bpi i) (data ! (i div (8 div bpi)))
                                AND index_mask bpi)) [0..<count]))"

lemma bits_for_cases: "bits_for n = 1 \<or> bits_for n = 2 \<or> bits_for n = 4 \<or> bits_for n = 8"
  by (simp add: bits_for_def)

lemma bits_for_enough: "n \<le> 256 \<Longrightarrow> n \<le> 2 ^ bits_for n"
  by (auto simp: bits_for_def)

lemma bit_index_mask: "b \<le> 8 \<Longrightarrow> bit (index_mask b) n \<longleftrightarrow> n < b"
proof -
  assume b: "b \<le> 8"
  have "push_bit b (1 :: u16) - 1 = mask b"
    by (simp add: mask_eq_exp_minus_1)
  then show ?thesis using b by (auto simp: index_mask_def bit_simps)
qed

text \<open>
  Which index bit \<open>m\<close> of byte \<open>k\<close> belongs to: slots fill a byte from its most significant end.
\<close>

definition slot_of :: "nat \<Rightarrow> nat \<Rightarrow> nat \<Rightarrow> nat" where
  "slot_of bpi k m = k * (8 div bpi) + (8 div bpi - 1 - m div bpi)"

lemma shift_slot:
  assumes b: "b = 1 \<or> b = 2 \<or> b = 4 \<or> b = (8::nat)" and m: "m < 8"
  shows "index_shift b n \<le> m \<and> m - index_shift b n < b \<longleftrightarrow>
      slot_of b (n div (8 div b)) m = n"
    and "slot_of b (n div (8 div b)) m = n \<Longrightarrow> m - index_shift b n = m mod b"
    and "slot_of b k' m div (8 div b) = k'"
proof -
  define k r where "k = n div (8 div b)" and "r = n mod (8 div b)"
  have n: "n = k * (8 div b) + r" by (simp only: k_def r_def div_mult_mod_eq)
  have r: "r < 8 div b" using b unfolding r_def by (auto intro: mod_less_divisor)
  have ms: "m = 0 \<or> m = 1 \<or> m = 2 \<or> m = 3 \<or> m = 4 \<or> m = 5 \<or> m = 6 \<or> m = 7"
    using m by linarith
  have rs: "r = 0 \<or> r = 1 \<or> r = 2 \<or> r = 3 \<or> r = 4 \<or> r = 5 \<or> r = 6 \<or> r = 7"
    using r b by auto
  have shift: "index_shift b n = 8 - b * (r + 1)"
    by (simp add: index_shift_def r_def)
  have "slot_of b k m = n \<longleftrightarrow> 8 div b - 1 - m div b = r"
    by (simp add: slot_of_def n)
  moreover have "8 - b * (r + 1) \<le> m \<and> m - (8 - b * (r + 1)) < b \<longleftrightarrow> 8 div b - 1 - m div b = r"
    and "8 div b - 1 - m div b = r \<Longrightarrow> m - (8 - b * (r + 1)) = m mod b"
    using r by (insert b ms rs, elim disjE; simp)+
  ultimately show "index_shift b n \<le> m \<and> m - index_shift b n < b \<longleftrightarrow>
      slot_of b (n div (8 div b)) m = n"
    and "slot_of b (n div (8 div b)) m = n \<Longrightarrow> m - index_shift b n = m mod b"
    by (simp_all add: shift k_def [symmetric])
  show "slot_of b k' m div (8 div b) = k'"
    using b ms unfolding slot_of_def by (elim disjE; simp)
qed

lemma index_shift_bound:
  assumes "b = 1 \<or> b = 2 \<or> b = 4 \<or> b = (8::nat)" shows "index_shift b i + b \<le> 8"
proof -
  have "i mod (8 div b) < 8 div b" using assms by (auto intro: mod_less_divisor)
  then show ?thesis using assms unfolding index_shift_def by (elim disjE) auto
qed

lemma length_pack_step [simp]: "length (pack_step b p out) = length out"
  by (simp add: pack_step_def split: prod.split)

lemma bit_pack_step:
  assumes b: "b = 1 \<or> b = 2 \<or> b = 4 \<or> b = (8::nat)" and m: "m < 8"
    and k: "k < length out" and i: "i div (8 div b) < length out"
  shows "bit (pack_step b (i, idx) out ! k) m \<longleftrightarrow>
    bit (out ! k) m \<or> slot_of b k m = i \<and> bit idx (m mod b)"
proof (cases "k = i div (8 div b)")
  case True
  have "bit (push_bit (index_shift b i) (ucast idx AND index_mask b)) m \<longleftrightarrow>
      (index_shift b i \<le> m \<and> m - index_shift b i < b) \<and> bit idx (m - index_shift b i)"
    using b m by (auto simp: bit_simps bit_index_mask)
  also have "\<dots> \<longleftrightarrow> slot_of b k m = i \<and> bit idx (m mod b)"
    using shift_slot(1,2) [OF b m, of i] True by auto
  finally show ?thesis
    using True i by (simp add: pack_step_def bit_or_iff)
next
  case False
  then have "slot_of b k m \<noteq> i" using shift_slot(3) [OF b m, of k] by auto
  with False show ?thesis by (simp add: pack_step_def)
qed

lemma length_fold_pack_step [simp]: "length (fold (pack_step b) ps out) = length out"
  by (induction ps arbitrary: out) auto

lemma bit_fold_pack_step:
  assumes b: "b = 1 \<or> b = 2 \<or> b = 4 \<or> b = (8::nat)" and m: "m < 8" and k: "k < N"
    and N: "length xs \<le> N * (8 div b)"
  shows "bit (fold (pack_step b) (enumerate 0 xs) (replicate N 0) ! k) m \<longleftrightarrow>
    slot_of b k m < length xs \<and> bit (xs ! slot_of b k m) (m mod b)"
  using N
proof (induction xs rule: rev_induct)
  case (snoc x xs)
  have "length xs div (8 div b) < N"
    using snoc.prems b by (intro div_less_iff_less_mult [THEN iffD2]) auto
  then have "bit (fold (pack_step b) (enumerate 0 (xs @ [x])) (replicate N 0) ! k) m \<longleftrightarrow>
      bit (fold (pack_step b) (enumerate 0 xs) (replicate N 0) ! k) m \<or>
      slot_of b k m = length xs \<and> bit x (m mod b)"
    by (simp add: enumerate_append_eq bit_pack_step [OF b m] k)
  with snoc show ?case by (auto simp: nth_append less_Suc_eq)
qed (use k in simp)

lemma length_pack_indices:
  "length (pack_indices xs b) = div_ceil (length xs) (8 div b)"
  by (simp add: pack_indices_def)

lemma unpack_pack_indices:
  assumes b: "b = 1 \<or> b = 2 \<or> b = 4 \<or> b = (8::nat)" and small: "\<forall>x \<in> set xs. unat x < 2 ^ b"
  shows "unpack_indices (pack_indices xs b) (length xs) b = Inr xs"
proof -
  let ?q = "8 div b" and ?out = "pack_indices xs b"
  have q: "0 < ?q" using b by auto
  have elem: "ucast (drop_bit (index_shift b i) (?out ! (i div ?q)) AND index_mask b) = xs ! i"
    if i: "i < length xs" for i
  proof (rule bit_word_eqI)
    fix p :: nat assume "p < LENGTH(16)"
    let ?m = "index_shift b i + p"
    have "take_bit b (xs ! i) = xs ! i"
      using small i by (auto simp: word_unat_eq_iff unsigned_take_bit_eq dest!: bspec [OF _ nth_mem]
          intro: take_bit_nat_eq_self)
    then have le: "p < b" if "bit (xs ! i) p"
      using that bit_take_bit_iff [of b "xs ! i" p] by simp
    have "bit (ucast (drop_bit (index_shift b i) (?out ! (i div ?q)) AND index_mask b) :: u16) p
        \<longleftrightarrow> p < b \<and> bit (?out ! (i div ?q)) ?m"
      using b by (auto simp: bit_simps bit_index_mask)
    also have "\<dots> \<longleftrightarrow> p < b \<and> bit (xs ! i) p"
    proof (cases "p < b")
      case True
      have m: "?m < 8" using index_shift_bound [OF b, of i] True by simp
      have slot: "slot_of b (i div ?q) ?m = i"
        using shift_slot(1) [OF b m, of i] True by simp
      have "?m mod b = p" using shift_slot(2) [OF b m slot] by simp
      moreover have "i div ?q < div_ceil (length xs) ?q"
        using i div_ceil_mult_ge [OF q, of "length xs"]
        by (intro div_less_iff_less_mult [THEN iffD2] q) simp
      ultimately show ?thesis
        using bit_fold_pack_step [OF b m _ div_ceil_mult_ge [OF q], of "i div ?q" xs] slot i True
        by (simp add: pack_indices_def)
    qed simp
    also have "\<dots> \<longleftrightarrow> bit (xs ! i) p" using le by auto
    finally show "bit (ucast (drop_bit (index_shift b i) (?out ! (i div ?q)) AND index_mask b) :: u16) p
      \<longleftrightarrow> bit (xs ! i) p" .
  qed
  then have "map (\<lambda>i. ucast (drop_bit (index_shift b i) (?out ! (i div ?q)) AND index_mask b))
      [0..<length xs] = xs"
    by (intro nth_equalityI) simp_all
  then show ?thesis by (simp add: unpack_indices_def length_pack_indices)
qed

end
