(* ===== verification/Palette.thy ===== *)
theory Palette
  imports Tile_Codec
begin

text \<open>
  The palette family of \<open>crates/proto/src/codec.rs\<close>: \<open>encode_palette\<close> with its open-addressed
  table of 1024 slots, and \<open>decode_palette\<close>. The per-process hash seed is a parameter. The
  probe loop runs on fuel of one round of the table; an outer \<open>None\<close> would be a probe that
  found neither its colour nor a free slot. The lemmas show that this never happens, that for
  every seed the payload is the one of the plain reference \<open>naive_palette\<close>, and that decoding it
  gives the pixels back.
\<close>

section \<open>Encoding\<close>

definition MAX_PALETTE :: nat where "MAX_PALETTE = 256"

definition SLOTS :: nat where "SLOTS = 1024"

definition EMPTY_KEY :: u32 where "EMPTY_KEY = - 1"

definition palette_bucket :: "u64 \<Rightarrow> u32 \<Rightarrow> nat" where
  "palette_bucket seed c = unat (drop_bit 54 (ucast c * seed))"

text \<open>The probe: the first slot at or after \<open>slot\<close> that holds \<open>c\<close> or is free.\<close>

primrec probe_slot :: "nat \<Rightarrow> u32 list \<Rightarrow> u32 \<Rightarrow> nat \<Rightarrow> nat option" where
  "probe_slot 0 keys c slot = None"
| "probe_slot (Suc fuel) keys c slot =
     (if keys ! slot = c \<or> keys ! slot = EMPTY_KEY then Some slot
      else probe_slot fuel keys c ((slot + 1) AND (SLOTS - 1)))"

record palette_table =
  pt_keys :: "u32 list"
  pt_vals :: "u16 list"
  pt_colors :: "u32 list"
  pt_indices :: "u16 list"

definition palette_table_new :: palette_table where
  "palette_table_new =
     \<lparr>pt_keys = replicate SLOTS EMPTY_KEY, pt_vals = replicate SLOTS 0, pt_colors = [],
      pt_indices = []\<rparr>"

text \<open>One pixel: outer \<open>None\<close> when the probe does not end, inner \<open>None\<close> at a 257th colour.\<close>

definition palette_pixel :: "u64 \<Rightarrow> u32 \<Rightarrow> palette_table \<Rightarrow> palette_table option option" where
  "palette_pixel seed p t =
     (let c = p AND rgb_mask in
      case probe_slot SLOTS (pt_keys t) c (palette_bucket seed c) of
        None \<Rightarrow> None
      | Some slot \<Rightarrow>
          if pt_keys t ! slot = c then
            Some (Some (t\<lparr>pt_indices := pt_indices t @ [pt_vals t ! slot]\<rparr>))
          else if length (pt_colors t) = MAX_PALETTE then Some None
          else let idx = of_nat (length (pt_colors t)) in
            Some (Some \<lparr>pt_keys = (pt_keys t)[slot := c], pt_vals = (pt_vals t)[slot := idx],
                        pt_colors = pt_colors t @ [c], pt_indices = pt_indices t @ [idx]\<rparr>))"

primrec palette_pixels :: "u64 \<Rightarrow> u32 list \<Rightarrow> palette_table \<Rightarrow> palette_table option option" where
  "palette_pixels seed [] t = Some (Some t)"
| "palette_pixels seed (p # ps) t =
     (case palette_pixel seed p t of
        None \<Rightarrow> None
      | Some None \<Rightarrow> Some None
      | Some (Some t') \<Rightarrow> palette_pixels seed ps t')"

definition palette_payload :: "u32 list \<Rightarrow> u16 list \<Rightarrow> u8 list" where
  "palette_payload colors indices =
     le_bytes 2 (of_nat (length colors) :: u16) @ concat (map rgb_bytes colors)
       @ pack_indices indices (bits_for (length colors))"

definition encode_palette :: "u64 \<Rightarrow> u32 list \<Rightarrow> u8 list option option" where
  "encode_palette seed pixels =
     map_option (map_option (\<lambda>t. palette_payload (pt_colors t) (pt_indices t)))
       (palette_pixels seed pixels palette_table_new)"

section \<open>Decoding\<close>

definition palette_lookup :: "u32 list \<Rightarrow> u16 \<Rightarrow> codec_error + u32" where
  "palette_lookup colors i =
     (if unat i < length colors then Inr (colors ! unat i)
      else Inl (Corrupt ''palette index out of range''))"

definition decode_palette :: "u8 list \<Rightarrow> nat \<Rightarrow> codec_error + u32 list" where
  "decode_palette data count =
     (if length data < 2 then Inl (Corrupt ''palette payload too short'')
      else let n = unat (of_le (take 2 data) :: u16) in
        if n = 0 \<or> MAX_PALETTE < n then Inl (Corrupt ''bad palette colour count'')
        else let table_end = 2 + n * 3 in
          if length data < table_end then Inl (Corrupt ''palette table truncated'')
          else let colors = rgb_chunks (take (n * 3) (drop 2 data)) in
            bindE (unpack_indices (drop table_end data) count (bits_for n)) (\<lambda>indices.
            efold (\<lambda>i out. bindE (palette_lookup colors i) (\<lambda>c. Inr (out @ [c]))) indices []))"

section \<open>The reference palette\<close>

text \<open>
  The colours in order of first appearance, and each pixel's position among them: what the
  \<open>naive_palette\<close> of the codec's tests computes with a plain map.
\<close>

definition first_seen :: "'a list \<Rightarrow> 'a list" where
  "first_seen xs = rev (remdups (rev xs))"

definition index_of :: "'a list \<Rightarrow> 'a \<Rightarrow> nat" where
  "index_of xs x = length (takeWhile (\<lambda>y. y \<noteq> x) xs)"

definition naive_palette :: "u32 list \<Rightarrow> u8 list option" where
  "naive_palette pixels =
     (let cs = map visible pixels; colors = first_seen cs in
      if MAX_PALETTE < length colors then None
      else Some (palette_payload colors (map (\<lambda>c. of_nat (index_of colors c)) cs)))"

lemma first_seen_snoc:
  "first_seen (xs @ [x]) = (if x \<in> set xs then first_seen xs else first_seen xs @ [x])"
  by (simp add: first_seen_def)

lemma set_first_seen [simp]: "set (first_seen xs) = set xs"
  by (simp add: first_seen_def)

lemma distinct_first_seen [simp]: "distinct (first_seen xs)"
  by (simp add: first_seen_def)

lemma length_first_seen: "length (first_seen xs) = card (set xs)"
  by (simp add: first_seen_def length_remdups_card_conv)

lemma index_of_append: "x \<in> set xs \<Longrightarrow> index_of (xs @ ys) x = index_of xs x"
  by (simp add: index_of_def takeWhile_append1)

lemma index_of_fresh: "x \<notin> set xs \<Longrightarrow> index_of (xs @ [x]) x = length xs"
  by (induction xs) (auto simp: index_of_def)

lemma index_of_nth: "distinct xs \<Longrightarrow> i < length xs \<Longrightarrow> index_of xs (xs ! i) = i"
proof (induction xs arbitrary: i)
  case (Cons x xs)
  then show ?case by (cases i) (auto simp: index_of_def)
qed simp

lemma nth_index_of: "x \<in> set xs \<Longrightarrow> index_of xs x < length xs \<and> xs ! index_of xs x = x"
  by (induction xs) (auto simp: index_of_def)

section \<open>The table\<close>

lemma next_slot: "(s + 1) AND (SLOTS - 1) = (s + 1) mod SLOTS"
proof -
  have "SLOTS - 1 = mask 10" by (simp add: SLOTS_def mask_eq_exp_minus_1)
  moreover have "x AND mask 10 = x mod SLOTS" for x :: nat
    by (simp add: take_bit_eq_mod SLOTS_def flip: take_bit_eq_mask)
  ultimately show ?thesis by (simp only:)
qed

lemma probe_slot_step:
  "probe_slot (Suc fuel) keys c slot =
     (if keys ! slot = c \<or> keys ! slot = EMPTY_KEY then Some slot
      else probe_slot fuel keys c ((slot + 1) mod SLOTS))"
  by (simp only: probe_slot.simps next_slot)

declare probe_slot.simps(2) [simp del]

lemma bucket_less [simp]: "palette_bucket seed c < SLOTS"
proof -
  have "unat (drop_bit 54 (x :: u64)) < 2 ^ 10" for x
  proof -
    have "unat x < 2 ^ 10 * 2 ^ 54" using unsigned_less [of x] by simp
    then have "unat x div 2 ^ 54 < 2 ^ 10" by (rule less_mult_imp_div_less)
    moreover have "unat (drop_bit 54 x) = unat x div 2 ^ 54"
      by (subst unat_drop_bit_eq) (rule drop_bit_eq_div)
    ultimately show ?thesis by (simp only:)
  qed
  then show ?thesis by (simp add: palette_bucket_def SLOTS_def)
qed

text \<open>If a stopping slot lies within the fuel, the probe returns the first one.\<close>

lemma probe_slot_first:
  assumes "s < SLOTS" "d < n" "keys ! ((s + d) mod SLOTS) = c \<or> keys ! ((s + d) mod SLOTS) = EMPTY_KEY"
  shows "\<exists>e \<le> d. probe_slot n keys c s = Some ((s + e) mod SLOTS) \<and>
    (keys ! ((s + e) mod SLOTS) = c \<or> keys ! ((s + e) mod SLOTS) = EMPTY_KEY) \<and>
    (\<forall>i < e. keys ! ((s + i) mod SLOTS) \<noteq> c \<and> keys ! ((s + i) mod SLOTS) \<noteq> EMPTY_KEY)"
  using assms
proof (induction n arbitrary: s d)
  case (Suc n)
  show ?case
  proof (cases "keys ! s = c \<or> keys ! s = EMPTY_KEY")
    case True
    with Suc.prems(1) show ?thesis by (intro exI [of _ 0]) (simp add: probe_slot_step)
  next
    case False
    with Suc.prems obtain d' where d: "d = Suc d'" by (cases d) auto
    have shift: "((s + 1) mod SLOTS + i) mod SLOTS = (s + Suc i) mod SLOTS" for i
      by (simp add: mod_add_left_eq)
    have at: "keys ! (((s + 1) mod SLOTS + d') mod SLOTS) = c \<or>
        keys ! (((s + 1) mod SLOTS + d') mod SLOTS) = EMPTY_KEY"
      using Suc.prems(3) unfolding shift d .
    have "(s + 1) mod SLOTS < SLOTS" by (simp add: SLOTS_def)
    from Suc.IH [OF this _ at] Suc.prems(2) d obtain e where "e \<le> d'"
      "probe_slot n keys c ((s + 1) mod SLOTS) = Some ((s + Suc e) mod SLOTS)"
      "keys ! ((s + Suc e) mod SLOTS) = c \<or> keys ! ((s + Suc e) mod SLOTS) = EMPTY_KEY"
      "\<forall>i < e. keys ! ((s + Suc i) mod SLOTS) \<noteq> c \<and> keys ! ((s + Suc i) mod SLOTS) \<noteq> EMPTY_KEY"
      unfolding shift by auto
    then show ?thesis
      using False d Suc.prems(1)
      by (intro exI [of _ "Suc e"]) (auto simp: probe_slot_step less_Suc_eq_0_disj simp del: add_Suc_right)
  qed
qed simp

text \<open>
  The table's invariant: every colour is found by walking from its bucket over taken slots,
  every taken slot holds a colour and its index, and at most one slot is taken per colour.
\<close>

definition taken :: "u32 list \<Rightarrow> nat set" where
  "taken keys = {s. s < SLOTS \<and> keys ! s \<noteq> EMPTY_KEY}"

definition table_inv :: "u64 \<Rightarrow> palette_table \<Rightarrow> bool" where
  "table_inv seed t \<longleftrightarrow>
     length (pt_keys t) = SLOTS \<and> length (pt_vals t) = SLOTS \<and>
     distinct (pt_colors t) \<and> length (pt_colors t) \<le> MAX_PALETTE \<and>
     EMPTY_KEY \<notin> set (pt_colors t) \<and> card (taken (pt_keys t)) \<le> length (pt_colors t) \<and>
     (\<forall>s \<in> taken (pt_keys t). pt_keys t ! s \<in> set (pt_colors t) \<and>
        pt_vals t ! s = of_nat (index_of (pt_colors t) (pt_keys t ! s))) \<and>
     (\<forall>c \<in> set (pt_colors t). \<exists>d < SLOTS.
        pt_keys t ! ((palette_bucket seed c + d) mod SLOTS) = c \<and>
        (\<forall>i < d. pt_keys t ! ((palette_bucket seed c + i) mod SLOTS) \<noteq> EMPTY_KEY))"

lemma table_inv_new: "table_inv seed palette_table_new"
proof -
  have "taken (replicate SLOTS EMPTY_KEY) = {}" by (auto simp: taken_def)
  then show ?thesis by (simp add: table_inv_def palette_table_new_def)
qed

lemma finite_taken [simp]: "finite (taken keys)"
  by (simp add: taken_def)

text \<open>A quarter of the slots is the most that can be taken, so a free one exists.\<close>

lemma free_slot:
  assumes "table_inv seed t" "s < SLOTS"
  shows "\<exists>d < SLOTS. pt_keys t ! ((s + d) mod SLOTS) = EMPTY_KEY"
proof -
  have "card (taken (pt_keys t)) < card {..<SLOTS}"
    using assms(1) by (simp add: table_inv_def SLOTS_def MAX_PALETTE_def)
  then have "\<exists>f < SLOTS. f \<notin> taken (pt_keys t)"
    by (metis card_mono finite_taken lessThan_iff not_less subsetI)
  then obtain f where f: "f < SLOTS" "pt_keys t ! f = EMPTY_KEY"
    by (auto simp: taken_def)
  have "(s + (f + SLOTS - s) mod SLOTS) mod SLOTS = f"
    using f(1) assms(2) by (simp add: mod_add_right_eq)
  moreover have "(f + SLOTS - s) mod SLOTS < SLOTS" by (simp add: SLOTS_def)
  ultimately show ?thesis using f(2) by metis
qed

lemma probe_known:
  assumes inv: "table_inv seed t" and c: "c \<in> set (pt_colors t)"
  obtains s where "probe_slot SLOTS (pt_keys t) c (palette_bucket seed c) = Some s"
    "pt_keys t ! s = c" "pt_vals t ! s = of_nat (index_of (pt_colors t) c)"
proof -
  let ?at = "\<lambda>d. pt_keys t ! ((palette_bucket seed c + d) mod SLOTS)"
  obtain d where d: "d < SLOTS" "?at d = c" "\<forall>i < d. ?at i \<noteq> EMPTY_KEY"
    using inv c by (auto simp: table_inv_def)
  obtain e where e: "e \<le> d" "?at e = c \<or> ?at e = EMPTY_KEY"
    "probe_slot SLOTS (pt_keys t) c (palette_bucket seed c) =
      Some ((palette_bucket seed c + e) mod SLOTS)"
    using probe_slot_first [OF bucket_less d(1), where keys = "pt_keys t" and c = c] d(2) by blast
  have at: "?at e = c" using e d by (cases "e = d") auto
  then have "(palette_bucket seed c + e) mod SLOTS \<in> taken (pt_keys t)"
    using inv c by (auto simp: taken_def table_inv_def SLOTS_def)
  then show ?thesis using that [OF e(3) at] inv at by (auto simp: table_inv_def)
qed

lemma probe_new:
  assumes inv: "table_inv seed t" and c: "c \<notin> set (pt_colors t)" "c \<noteq> EMPTY_KEY"
  obtains d where "d < SLOTS"
    "probe_slot SLOTS (pt_keys t) c (palette_bucket seed c) =
       Some ((palette_bucket seed c + d) mod SLOTS)"
    "pt_keys t ! ((palette_bucket seed c + d) mod SLOTS) = EMPTY_KEY"
    "\<forall>i < d. pt_keys t ! ((palette_bucket seed c + i) mod SLOTS) \<noteq> EMPTY_KEY"
proof -
  let ?at = "\<lambda>d. pt_keys t ! ((palette_bucket seed c + d) mod SLOTS)"
  obtain f where f: "f < SLOTS" "?at f = EMPTY_KEY"
    using free_slot [OF inv bucket_less] by blast
  then obtain e where e: "e \<le> f" "?at e = c \<or> ?at e = EMPTY_KEY"
    "probe_slot SLOTS (pt_keys t) c (palette_bucket seed c) =
      Some ((palette_bucket seed c + e) mod SLOTS)"
    "\<forall>i < e. ?at i \<noteq> EMPTY_KEY"
    using probe_slot_first [OF bucket_less f(1), where keys = "pt_keys t" and c = c] f(2) by blast
  have "?at e \<noteq> c"
  proof
    assume "?at e = c"
    then have "(palette_bucket seed c + e) mod SLOTS \<in> taken (pt_keys t)"
      using c(2) by (simp add: taken_def SLOTS_def)
    with inv \<open>?at e = c\<close> c(1) show False by (auto simp: table_inv_def)
  qed
  with e f that [of e] show ?thesis by auto
qed

lemma table_inv_insert:
  assumes inv: "table_inv seed t" and c: "c \<notin> set (pt_colors t)" "c \<noteq> EMPTY_KEY"
    and room: "length (pt_colors t) < MAX_PALETTE"
    and d: "d < SLOTS" and free: "pt_keys t ! ((palette_bucket seed c + d) mod SLOTS) = EMPTY_KEY"
    and walk: "\<forall>i < d. pt_keys t ! ((palette_bucket seed c + i) mod SLOTS) \<noteq> EMPTY_KEY"
    and s: "s = (palette_bucket seed c + d) mod SLOTS"
  shows "table_inv seed \<lparr>pt_keys = (pt_keys t)[s := c],
    pt_vals = (pt_vals t)[s := of_nat (length (pt_colors t))],
    pt_colors = pt_colors t @ [c], pt_indices = is\<rparr>"
proof -
  let ?keys = "(pt_keys t)[s := c]"
  have len: "length (pt_keys t) = SLOTS" "length (pt_vals t) = SLOTS" and s_less: "s < SLOTS"
    using inv by (auto simp: table_inv_def s SLOTS_def)
  have tk: "taken ?keys = insert s (taken (pt_keys t))"
    using c(2) s_less len by (auto simp: taken_def nth_list_update)
  have "s \<notin> taken (pt_keys t)" using free by (simp add: taken_def s)
  then have card: "card (taken ?keys) \<le> length (pt_colors t @ [c])"
    using inv by (simp add: tk table_inv_def)
  have vals: "?keys ! r \<in> set (pt_colors t @ [c]) \<and>
      (pt_vals t)[s := of_nat (length (pt_colors t))] ! r =
        of_nat (index_of (pt_colors t @ [c]) (?keys ! r))"
    if "r \<in> taken ?keys" for r
  proof (cases "r = s")
    case True
    then show ?thesis using s_less len c by (simp add: index_of_fresh)
  next
    case False
    with that have "r \<in> taken (pt_keys t)" by (simp add: tk)
    with inv False show ?thesis by (auto simp: table_inv_def index_of_append)
  qed
  have stay: "?keys ! r = pt_keys t ! r" if "pt_keys t ! r \<noteq> EMPTY_KEY" for r
    using that free by (auto simp: nth_list_update s nth_list_update_neq intro: nth_list_update_neq)
  have find: "\<exists>d < SLOTS. ?keys ! ((palette_bucket seed b + d) mod SLOTS) = b \<and>
      (\<forall>i < d. ?keys ! ((palette_bucket seed b + i) mod SLOTS) \<noteq> EMPTY_KEY)"
    if "b \<in> set (pt_colors t @ [c])" for b
  proof (cases "b = c")
    case True
    then show ?thesis using d walk stay s_less len by (intro exI [of _ d]) (auto simp: s [symmetric])
  next
    case False
    with that inv obtain e where e: "e < SLOTS" "pt_keys t ! ((palette_bucket seed b + e) mod SLOTS) = b"
      "\<forall>i < e. pt_keys t ! ((palette_bucket seed b + i) mod SLOTS) \<noteq> EMPTY_KEY"
      by (auto simp: table_inv_def)
    have "b \<noteq> EMPTY_KEY" using that False inv by (auto simp: table_inv_def)
    with e stay show ?thesis by (intro exI [of _ e]) auto
  qed
  show ?thesis
    using inv c room card vals find by (simp add: table_inv_def)
qed

section \<open>The table against the reference\<close>

lemma visible_not_empty [simp]: "visible p \<noteq> EMPTY_KEY" "EMPTY_KEY \<noteq> visible p"
  using visible_neq_ones [of p] by (auto simp: EMPTY_KEY_def)

text \<open>The state of the table after the pixels \<open>ps\<close>.\<close>

definition table_after :: "u64 \<Rightarrow> u32 list \<Rightarrow> palette_table \<Rightarrow> bool" where
  "table_after seed ps t \<longleftrightarrow> table_inv seed t \<and> pt_colors t = first_seen (map visible ps) \<and>
     pt_indices t = map (\<lambda>p. of_nat (index_of (pt_colors t) (visible p))) ps"

lemma palette_pixel_known:
  assumes t: "table_after seed ps t" and p: "visible p \<in> set (pt_colors t)"
  shows "\<exists>t'. palette_pixel seed p t = Some (Some t') \<and> table_after seed (ps @ [p]) t'"
proof -
  have inv: "table_inv seed t" using t by (simp add: table_after_def)
  obtain s where s: "probe_slot SLOTS (pt_keys t) (visible p) (palette_bucket seed (visible p)) = Some s"
    "pt_keys t ! s = visible p" "pt_vals t ! s = of_nat (index_of (pt_colors t) (visible p))"
    using probe_known [OF inv p] by blast
  let ?t = "t\<lparr>pt_indices := pt_indices t @ [pt_vals t ! s]\<rparr>"
  have "palette_pixel seed p t = Some (Some ?t)"
    using s by (simp add: palette_pixel_def flip: visible_def)
  moreover have "table_after seed (ps @ [p]) ?t"
    using t s(3) p by (auto simp: table_after_def table_inv_def first_seen_snoc)
  ultimately show ?thesis by blast
qed

lemma palette_pixel_new:
  assumes t: "table_after seed ps t" and p: "visible p \<notin> set (pt_colors t)"
  shows "if length (pt_colors t) = MAX_PALETTE then palette_pixel seed p t = Some None
    else \<exists>t'. palette_pixel seed p t = Some (Some t') \<and> table_after seed (ps @ [p]) t'"
proof -
  have inv: "table_inv seed t" using t by (simp add: table_after_def)
  obtain d where d: "d < SLOTS"
    "probe_slot SLOTS (pt_keys t) (visible p) (palette_bucket seed (visible p)) =
       Some ((palette_bucket seed (visible p) + d) mod SLOTS)"
    "pt_keys t ! ((palette_bucket seed (visible p) + d) mod SLOTS) = EMPTY_KEY"
    "\<forall>i < d. pt_keys t ! ((palette_bucket seed (visible p) + i) mod SLOTS) \<noteq> EMPTY_KEY"
    using probe_new [OF inv p] by auto
  show ?thesis
  proof (cases "length (pt_colors t) = MAX_PALETTE")
    case True
    then show ?thesis using d by (simp add: palette_pixel_def flip: visible_def)
  next
    case False
    let ?s = "(palette_bucket seed (visible p) + d) mod SLOTS"
    let ?idx = "of_nat (length (pt_colors t)) :: u16"
    let ?t = "\<lparr>pt_keys = (pt_keys t)[?s := visible p], pt_vals = (pt_vals t)[?s := ?idx],
      pt_colors = pt_colors t @ [visible p], pt_indices = pt_indices t @ [?idx]\<rparr>"
    have "length (pt_colors t) < MAX_PALETTE" using inv False by (simp add: table_inv_def)
    then have "table_inv seed ?t" using table_inv_insert [OF inv p _ _ d(1,3,4) refl] by simp
    moreover have "first_seen (map visible (ps @ [p])) = pt_colors t @ [visible p]"
      using t p by (auto simp: table_after_def first_seen_snoc)
    moreover have "index_of (pt_colors t @ [visible p]) (visible q) = index_of (pt_colors t) (visible q)"
      if "q \<in> set ps" for q
      using t that by (intro index_of_append) (auto simp: table_after_def)
    ultimately have "table_after seed (ps @ [p]) ?t"
      using t p by (simp add: table_after_def index_of_fresh)
    moreover have "palette_pixel seed p t = Some (Some ?t)"
      using d False by (simp add: palette_pixel_def Let_def flip: visible_def)
    ultimately show ?thesis using False by auto
  qed
qed

lemma palette_pixels_after:
  assumes "table_after seed ps t"
  shows "if card (visible ` set (ps @ qs)) \<le> MAX_PALETTE
    then \<exists>t'. palette_pixels seed qs t = Some (Some t') \<and> table_after seed (ps @ qs) t'
    else palette_pixels seed qs t = Some None"
  using assms
proof (induction qs arbitrary: ps t)
  case Nil
  then have "length (first_seen (map visible ps)) \<le> MAX_PALETTE"
    by (auto simp: table_after_def table_inv_def)
  then show ?case using Nil by (simp add: length_first_seen)
next
  case (Cons p qs)
  show ?case
  proof (cases "visible p \<notin> set (pt_colors t) \<and> length (pt_colors t) = MAX_PALETTE")
    case True
    have "Suc (card (visible ` set ps)) \<le> card (visible ` set (ps @ p # qs))"
    proof -
      have "visible p \<notin> visible ` set ps" using True Cons.prems by (auto simp: table_after_def)
      then have "Suc (card (visible ` set ps)) = card (insert (visible p) (visible ` set ps))" by simp
      also have "\<dots> \<le> card (visible ` set (ps @ p # qs))" by (intro card_mono) auto
      finally show ?thesis .
    qed
    moreover have "card (visible ` set ps) = MAX_PALETTE"
      using True Cons.prems by (simp add: table_after_def length_first_seen)
    ultimately show ?thesis
      using palette_pixel_new [OF Cons.prems, of p] True by simp
  next
    case False
    then obtain t' where px: "palette_pixel seed p t = Some (Some t')"
      and after: "table_after seed (ps @ [p]) t'"
      using palette_pixel_known [OF Cons.prems, of p] palette_pixel_new [OF Cons.prems, of p]
      by (cases "visible p \<in> set (pt_colors t)") (auto split: if_splits)
    show ?thesis
      using Cons.IH [OF after]
      by (simp only: append.assoc append_Cons append_Nil palette_pixels.simps option.case px)
  qed
qed

lemma table_after_new: "table_after seed [] palette_table_new"
  using table_inv_new by (simp add: table_after_def palette_table_new_def first_seen_def)

lemma encode_palette_naive: "encode_palette seed ps = Some (naive_palette ps)"
  using palette_pixels_after [OF table_after_new [of seed], of ps]
  by (auto simp: encode_palette_def naive_palette_def length_first_seen table_after_def Let_def
      comp_def split: if_splits)

section \<open>Decoding what was encoded\<close>

lemma length_rgb_bytes_list: "length (concat (map rgb_bytes cs)) = 3 * length cs"
  using length_pack_rgb [of cs] by (simp add: pack_rgb_def)

lemma rgb_chunks_table:
  "\<forall>c \<in> set cs. visible c = c \<Longrightarrow> rgb_chunks (concat (map rgb_bytes cs)) = cs"
  using rgb_chunks_pack_exact [of cs] by (simp add: pack_rgb_def map_idI)

lemma unat_u16_small: "n \<le> MAX_PALETTE \<Longrightarrow> unat (of_nat n :: u16) = n"
  by (simp add: unat_of_nat MAX_PALETTE_def)

lemma lookup_loop:
  "\<forall>i \<in> set is. unat i < length cs \<Longrightarrow>
     efold (\<lambda>i out. bindE (palette_lookup cs i) (\<lambda>c. Inr (out @ [c]))) is out =
       Inr (out @ map (\<lambda>i. cs ! unat i) is)"
  by (induction "is" arbitrary: out) (auto simp: palette_lookup_def)

lemma naive_palette_decodes:
  assumes enc: "naive_palette ps = Some d" and ne: "ps \<noteq> []"
  shows "decode_palette d (length ps) = Inr (map visible ps)"
proof -
  let ?cs = "first_seen (map visible ps)"
  let ?is = "map (\<lambda>c. of_nat (index_of ?cs c) :: u16) (map visible ps)"
  let ?b = "bits_for (length ?cs)"
  have small: "length ?cs \<le> MAX_PALETTE" and d: "d = palette_payload ?cs ?is"
    using enc by (auto simp: naive_palette_def Let_def split: if_splits)
  have idx: "index_of ?cs c < length ?cs \<and> ?cs ! index_of ?cs c = c"
    if "c \<in> set (map visible ps)" for c
    using nth_index_of [of c ?cs] that by simp
  have idx16: "unat (of_nat (index_of ?cs c) :: u16) = index_of ?cs c" if "c \<in> set (map visible ps)" for c
    using idx [OF that] small by (intro unat_u16_small) linarith
  have is_less: "\<forall>i \<in> set ?is. unat i < length ?cs"
    using idx by (auto simp: idx16)
  have "\<forall>i \<in> set ?is. unat i < 2 ^ ?b"
    using is_less bits_for_enough [of "length ?cs"] small by (fastforce simp: MAX_PALETTE_def)
  then have unpack: "unpack_indices (pack_indices ?is ?b) (length ps) ?b = Inr ?is"
    using unpack_pack_indices [of ?b ?is] bits_for_cases [of "length ?cs"] by simp
  have "map (\<lambda>i. ?cs ! unat i) ?is = map visible ps"
    using idx by (auto simp: idx16)
  then have lookup: "efold (\<lambda>i out. bindE (palette_lookup ?cs i) (\<lambda>c. Inr (out @ [c]))) ?is [] =
      Inr (map visible ps)"
    using lookup_loop [OF is_less, of "[]"] by simp
  have len: "length ?cs \<noteq> 0" using ne by (auto simp: length_first_seen)
  have table: "rgb_chunks (concat (map rgb_bytes ?cs)) = ?cs"
    by (rule rgb_chunks_table) auto
  have count: "unat (of_le (take 2 d) :: u16) = length ?cs"
    using small by (simp add: d palette_payload_def of_le_le_bytes_full unat_u16_small)
  have parts: "take (length ?cs * 3) (drop 2 d) = concat (map rgb_bytes ?cs)"
    "drop (2 + length ?cs * 3) d = pack_indices ?is ?b"
    "\<not> length d < 2 + length ?cs * 3" "\<not> length d < 2"
    by (simp_all add: d palette_payload_def length_rgb_bytes_list)
  show ?thesis
    using len small
    by (simp add: decode_palette_def Let_def count parts table unpack lookup
        del: add_2_eq_Suc add_2_eq_Suc' map_map)
qed

section \<open>Properties\<close>

text \<open>
  C27. The open-addressed palette is the plain palette: for every hash seed the build ends, gives
  up exactly when the tile has more than 256 colours, and otherwise produces byte for byte the
  payload of the reference, colours in order of first appearance.
\<close>

theorem palette_matches_reference:
  "encode_palette seed ps = Some (naive_palette ps) \<and>
     (naive_palette ps = None \<longleftrightarrow> MAX_PALETTE < card (visible ` set ps))"
proof
  show "encode_palette seed ps = Some (naive_palette ps)" by (rule encode_palette_naive)
  show "naive_palette ps = None \<longleftrightarrow> MAX_PALETTE < card (visible ` set ps)"
    by (simp add: naive_palette_def Let_def length_first_seen)
qed

text \<open>
  A palette payload decodes to the colours of the pixels it was built from, at every index
  width from one to eight bits.
\<close>

theorem palette_roundtrip:
  assumes "encode_palette seed ps = Some (Some d)" and "ps \<noteq> []"
  shows "decode_palette d (length ps) = Inr (map visible ps)"
  using assms by (intro naive_palette_decodes) (simp_all add: encode_palette_naive)

theorem palette_roundtrip_witness:
  "\<exists>d. encode_palette 7 [0xFF112233, 0x445566, 0x112233] = Some (Some d) \<and>
     decode_palette d 3 = Inr (map visible [0xFF112233, 0x445566, 0x112233])"
proof -
  let ?ps = "[0xFF112233, 0x445566, 0x112233 :: u32]"
  have "card (visible ` set ?ps) \<le> card (set ?ps)" by (rule card_image_le) simp
  also have "\<dots> \<le> length ?ps" by (rule card_length)
  finally have "naive_palette ?ps \<noteq> None"
    by (auto simp: naive_palette_def Let_def length_first_seen MAX_PALETTE_def)
  then obtain d where "encode_palette 7 ?ps = Some (Some d)"
    by (auto simp: encode_palette_naive)
  with palette_roundtrip [OF this] show ?thesis by (auto simp: numeral_3_eq_3)
qed

end
