(* ===== verification/Pixels.thy ===== *)
theory Pixels
  imports Palette
begin

text \<open>
  \<open>encode_pixels\<close> and \<open>decode_pixels\<close> of \<open>crates/proto/src/codec.rs\<close>: the choice between solid,
  packed RGB and palette, and between storing, LZ4 and Zstd. LZ4 and Zstd are libraries; they
  are a record of functions, and \<open>compressors_ok\<close> is their documented contract: they decompress
  what they compressed, LZ4 behind its four-byte size prefix, Zstd into any buffer that is large
  enough. The lemmas show that every tile decodes to the pixels it was made from and is never
  larger than packed RGB.
\<close>

section \<open>The compression libraries\<close>

record compressors =
  lz4_compress :: "u8 list \<Rightarrow> u8 list"
  lz4_uncompressed_size :: "u8 list \<Rightarrow> (nat \<times> u8 list) option"
  lz4_decompress :: "u8 list \<Rightarrow> nat \<Rightarrow> u8 list option"
  zstd_compress :: "u8 list \<Rightarrow> nat \<Rightarrow> u8 list option"
  zstd_decompress :: "u8 list \<Rightarrow> nat \<Rightarrow> u8 list option"

definition compressors_ok :: "compressors \<Rightarrow> bool" where
  "compressors_ok cs \<longleftrightarrow>
     (\<forall>d. length d < 2 ^ 32 \<longrightarrow>
        (\<exists>body. lz4_uncompressed_size cs (lz4_compress cs d) = Some (length d, body) \<and>
                lz4_decompress cs body (length d) = Some d)) \<and>
     (\<forall>d z level cap. zstd_compress cs d level = Some z \<longrightarrow> length d \<le> cap \<longrightarrow>
        zstd_decompress cs z cap = Some d)"

section \<open>Encoding\<close>

definition ZSTD_LEVEL :: nat where "ZSTD_LEVEL = 3"

definition COMPRESS_MIN :: nat where "COMPRESS_MIN = 48"

definition max_payload_len :: "tile_encoding \<Rightarrow> nat \<Rightarrow> nat" where
  "max_payload_len encoding pixel_count =
     (if is_palette encoding then 2 + MAX_PALETTE * 3 + pixel_count else pixel_count * 3)"

definition stored_tile :: "compressors \<Rightarrow> rect \<Rightarrow> u8 list \<Rightarrow> bool \<Rightarrow> tile_update" where
  "stored_tile cs rect base palette =
     (if length base < COMPRESS_MIN then
        \<lparr>tile_rect = rect, tile_encoding = (if palette then Palette else Raw), tile_data = base\<rparr>
      else
        let lz4 = lz4_compress cs base;
            zstd = (case zstd_compress cs base ZSTD_LEVEL of None \<Rightarrow> [] | Some z \<Rightarrow> z) in
        if zstd \<noteq> [] \<and> length zstd \<le> length lz4 \<and> length zstd < length base then
          \<lparr>tile_rect = rect, tile_encoding = (if palette then PaletteZstd else Zstd), tile_data = zstd\<rparr>
        else if length lz4 < length base then
          \<lparr>tile_rect = rect, tile_encoding = (if palette then PaletteLz4 else Lz4), tile_data = lz4\<rparr>
        else
          \<lparr>tile_rect = rect, tile_encoding = (if palette then Palette else Raw), tile_data = base\<rparr>)"

text \<open>
  \<open>None\<close> is the panic of \<open>pixels[0]\<close> on an empty slice (or a palette probe that does not end).
\<close>

definition encode_pixels :: "compressors \<Rightarrow> u64 \<Rightarrow> rect \<Rightarrow> u32 list \<Rightarrow> tile_update option" where
  "encode_pixels cs seed rect pixels =
     (if pixels = [] then None
      else let first = (pixels ! 0) AND rgb_mask in
        if list_all (\<lambda>p. p AND rgb_mask = first) pixels then
          Some \<lparr>tile_rect = rect, tile_encoding = Solid, tile_data = rgb_bytes first\<rparr>
        else let rgb_len = length pixels * 3 in
          (case encode_palette seed pixels of
             None \<Rightarrow> None
           | Some (Some p) \<Rightarrow>
               Some (if length p < rgb_len then stored_tile cs rect p True
                     else stored_tile cs rect (pack_rgb pixels) False)
           | Some None \<Rightarrow> Some (stored_tile cs rect (pack_rgb pixels) False)))"

section \<open>Decoding\<close>

definition tile_payload :: "compressors \<Rightarrow> tile_encoding \<Rightarrow> u8 list \<Rightarrow> nat \<Rightarrow> codec_error + u8 list" where
  "tile_payload cs encoding data cap =
     (case encoding of
        Raw \<Rightarrow> Inr data
      | Palette \<Rightarrow> Inr data
      | Zstd \<Rightarrow> (case zstd_decompress cs data cap of
          None \<Rightarrow> Inl (Corrupt ''zstd decompression failed'') | Some raw \<Rightarrow> Inr raw)
      | PaletteZstd \<Rightarrow> (case zstd_decompress cs data cap of
          None \<Rightarrow> Inl (Corrupt ''zstd decompression failed'') | Some raw \<Rightarrow> Inr raw)
      | _ \<Rightarrow> (case lz4_uncompressed_size cs data of
          None \<Rightarrow> Inl (Corrupt ''lz4 size prefix missing'')
        | Some (declared, body) \<Rightarrow>
            if cap < declared then Inl (Corrupt ''lz4 payload too large'')
            else (case lz4_decompress cs body declared of
                    None \<Rightarrow> Inl (Corrupt ''lz4 decompression failed'') | Some raw \<Rightarrow> Inr raw)))"

definition decode_pixels :: "compressors \<Rightarrow> tile_update \<Rightarrow> codec_error + u32 list" where
  "decode_pixels cs tile =
     (let n = area (tile_rect tile) in
      if tile_encoding tile = Solid then
        (if length (tile_data tile) \<noteq> 3 then Inl (Corrupt ''solid payload must be 3 bytes'')
         else Inr (replicate n (rgb (tile_data tile ! 0) (tile_data tile ! 1) (tile_data tile ! 2))))
      else
        bindE (tile_payload cs (tile_encoding tile) (tile_data tile)
                 (max_payload_len (tile_encoding tile) n)) (\<lambda>payload.
        if is_palette (tile_encoding tile) then decode_palette payload n
        else if length payload \<noteq> n * 3 then Inl (Corrupt ''rgb payload size mismatch'')
        else unpack_rgb payload))"

section \<open>What a tile carries\<close>

lemma stored_tile_payload:
  assumes ok: "compressors_ok cs" and cap: "length base \<le> cap" and small: "length base < 2 ^ 32"
  shows "tile_payload cs (tile_encoding (stored_tile cs r base pal)) (tile_data (stored_tile cs r base pal)) cap
    = Inr base"
proof -
  obtain body where lz4: "lz4_uncompressed_size cs (lz4_compress cs base) = Some (length base, body)"
    "lz4_decompress cs body (length base) = Some base"
    using ok small unfolding compressors_ok_def by blast
  have "zstd_decompress cs z cap = Some base" if "zstd_compress cs base ZSTD_LEVEL = Some z" for z
    using ok that cap unfolding compressors_ok_def by blast
  with lz4 cap show ?thesis
    by (auto simp: stored_tile_def tile_payload_def Let_def split: option.splits)
qed

lemma stored_tile_fields:
  "tile_rect (stored_tile cs r base pal) = r"
  "tile_encoding (stored_tile cs r base pal) \<noteq> Solid"
  "is_palette (tile_encoding (stored_tile cs r base pal)) = pal"
  "length (tile_data (stored_tile cs r base pal)) \<le> length base"
  by (auto simp: stored_tile_def Let_def)

lemma length_palette_payload:
  assumes "naive_palette ps = Some p"
  shows "length p \<le> 2 + MAX_PALETTE * 3 + length ps"
proof -
  let ?k = "length (first_seen (map visible ps))"
  have k: "?k \<le> MAX_PALETTE"
    and p: "length p = 2 + 3 * ?k + div_ceil (length ps) (8 div bits_for ?k)"
    using assms by (auto simp: naive_palette_def Let_def palette_payload_def length_rgb_bytes_list
        length_pack_indices split: if_splits)
  have "0 < 8 div bits_for ?k" using bits_for_cases [of ?k] by auto
  then have "div_ceil (length ps) (8 div bits_for ?k) \<le> length ps"
    by (intro div_ceil_least) (auto simp: Suc_le_eq)
  with k p show ?thesis by simp
qed

lemma stored_palette_decodes:
  assumes ok: "compressors_ok cs" and p: "naive_palette ps = Some p" and ne: "ps \<noteq> []"
    and n: "area r = length ps" and small: "length ps < 2 ^ 30"
  shows "decode_pixels cs (stored_tile cs r p True) = Inr (map visible ps)"
proof -
  have len: "length p \<le> 2 + MAX_PALETTE * 3 + length ps"
    by (rule length_palette_payload [OF p])
  moreover have "length p < 2 ^ 32" using len small by (simp add: MAX_PALETTE_def)
  ultimately have "tile_payload cs (tile_encoding (stored_tile cs r p True))
      (tile_data (stored_tile cs r p True)) (2 + MAX_PALETTE * 3 + length ps) = Inr p"
    by (rule stored_tile_payload [OF ok])
  then show ?thesis
    using naive_palette_decodes [OF p ne] n
    by (simp add: decode_pixels_def stored_tile_fields max_payload_len_def Let_def)
qed

lemma stored_rgb_decodes:
  assumes ok: "compressors_ok cs" and n: "area r = length ps" and small: "length ps < 2 ^ 30"
  shows "decode_pixels cs (stored_tile cs r (pack_rgb ps) False) = Inr (map visible ps)"
proof -
  have "length (pack_rgb ps) \<le> length ps * 3" "length (pack_rgb ps) < 2 ^ 32"
    using small by (simp_all add: length_pack_rgb)
  then have "tile_payload cs (tile_encoding (stored_tile cs r (pack_rgb ps) False))
      (tile_data (stored_tile cs r (pack_rgb ps) False)) (length ps * 3) = Inr (pack_rgb ps)"
    by (rule stored_tile_payload [OF ok])
  then show ?thesis
    using n by (simp add: decode_pixels_def stored_tile_fields max_payload_len_def Let_def
        length_pack_rgb unpack_pack_rgb)
qed

lemma solid_decodes:
  assumes "area r = length ps" "ps \<noteq> []" "list_all (\<lambda>p. visible p = visible (ps ! 0)) ps"
  shows "decode_pixels cs \<lparr>tile_rect = r, tile_encoding = Solid, tile_data = rgb_bytes (visible (ps ! 0))\<rparr>
    = Inr (map visible ps)"
proof -
  have "map visible ps = map (\<lambda>_. visible (ps ! 0)) ps"
    using assms(3) by (auto simp: list_all_iff)
  then have "map visible ps = replicate (length ps) (visible (ps ! 0))"
    by (simp add: map_replicate_const)
  then show ?thesis
    using assms(1) by (simp add: decode_pixels_def rgb_bytes_def rgb_rgb_bytes)
qed

lemma encode_pixels_total:
  "ps \<noteq> [] \<Longrightarrow> \<exists>t. encode_pixels cs seed r ps = Some t \<and> tile_rect t = r \<and>
     length (tile_data t) \<le> 3 * length ps"
proof -
  assume "ps \<noteq> []"
  then have "length ps \<ge> 1" by (cases ps) auto
  moreover have "length (tile_data (stored_tile cs r (pack_rgb ps) False)) \<le> 3 * length ps"
    using stored_tile_fields(4) [of cs r "pack_rgb ps" False] by (simp add: length_pack_rgb)
  moreover have "length (tile_data (stored_tile cs r p True)) \<le> 3 * length ps"
    if "length p < length ps * 3" for p
    using stored_tile_fields(4) [of cs r p True] that by linarith
  ultimately show ?thesis
    using \<open>ps \<noteq> []\<close>
    by (simp add: encode_pixels_def encode_palette_naive Let_def stored_tile_fields(1) rgb_bytes_def
        split: option.split)
qed

lemma encode_pixels_decodes:
  assumes ok: "compressors_ok cs" and ne: "ps \<noteq> []" and n: "area r = length ps"
    and small: "length ps < 2 ^ 30" and t: "encode_pixels cs seed r ps = Some t"
  shows "tile_rect t = r \<and> decode_pixels cs t = Inr (map visible ps)"
proof (cases "list_all (\<lambda>p. visible p = visible (ps ! 0)) ps")
  case True
  then have "t = \<lparr>tile_rect = r, tile_encoding = Solid, tile_data = rgb_bytes (visible (ps ! 0))\<rparr>"
    using t ne by (simp add: encode_pixels_def flip: visible_def)
  with solid_decodes [OF n ne True] show ?thesis by simp
next
  case False
  with t ne consider p where "naive_palette ps = Some p" "t = stored_tile cs r p True"
    | "t = stored_tile cs r (pack_rgb ps) False"
    by (auto simp: encode_pixels_def encode_palette_naive Let_def simp flip: visible_def
        split: option.splits if_splits)
  then show ?thesis
    by cases (simp_all add: stored_tile_fields stored_palette_decodes [OF ok _ ne n small]
        stored_rgb_decodes [OF ok n small])
qed

section \<open>An instance of the libraries\<close>

text \<open>
  Run-length compression: a list of equal bytes becomes its length and the byte, any other list
  is kept behind a marker. It satisfies \<open>compressors_ok\<close>, so the contract can hold.
\<close>

definition run_compress :: "u8 list \<Rightarrow> u8 list" where
  "run_compress d =
     (if d \<noteq> [] \<and> length d < 2 ^ 32 \<and> d = replicate (length d) (hd d)
      then 1 # hd d # le_bytes 4 (of_nat (length d) :: u32) else 0 # d)"

definition run_decompress :: "u8 list \<Rightarrow> u8 list option" where
  "run_decompress z =
     (case z of [] \<Rightarrow> None
      | m # d \<Rightarrow> if m = 0 then Some d
          else (case d of [] \<Rightarrow> None | b # l \<Rightarrow> Some (replicate (unat (of_le l :: u32)) b)))"

definition run_length_libraries :: compressors where
  "run_length_libraries =
     \<lparr>lz4_compress = (\<lambda>d. le_bytes 4 (of_nat (length d) :: u32) @ run_compress d),
      lz4_uncompressed_size = (\<lambda>d. if length d < 4 then None
                                  else Some (unat (of_le (take 4 d) :: u32), drop 4 d)),
      lz4_decompress = (\<lambda>body n. run_decompress body),
      zstd_compress = (\<lambda>d level. Some (run_compress d)),
      zstd_decompress = (\<lambda>z cap. case run_decompress z of None \<Rightarrow> None
                                 | Some d \<Rightarrow> if length d \<le> cap then Some d else None)\<rparr>"

lemma run_decompress: "run_decompress (run_compress d) = Some d"
  by (auto simp: run_decompress_def run_compress_def of_le_le_bytes_full unat_of_nat_u32)

lemma run_length_libraries_ok: "compressors_ok run_length_libraries"
  by (simp add: compressors_ok_def run_length_libraries_def run_decompress of_le_le_bytes_full
      unat_of_nat_u32)

section \<open>Properties\<close>

text \<open>
  C26. A tile is lossless and never larger than packed RGB: every non-empty rectangle of pixels is
  encoded without a panic, in at most three bytes per pixel, and decodes to the colours of
  exactly those pixels, whichever of the seven encodings was chosen.
\<close>

theorem tile_roundtrip:
  assumes "compressors_ok cs" and "ps \<noteq> []" and "area r = length ps" and "length ps < 2 ^ 30"
  shows "\<exists>t. encode_pixels cs seed r ps = Some t \<and> tile_rect t = r \<and>
    length (tile_data t) \<le> 3 * length ps \<and> decode_pixels cs t = Inr (map visible ps)"
  using encode_pixels_total [OF assms(2), of cs seed r] encode_pixels_decodes [OF assms] by blast

theorem tile_roundtrip_witness:
  "\<exists>t. encode_pixels run_length_libraries 7 (rect_new 3 4 2 1) [0x102030, 0x405060] = Some t \<and>
    tile_rect t = rect_new 3 4 2 1 \<and> length (tile_data t) \<le> 6 \<and>
    decode_pixels run_length_libraries t = Inr [0x102030, 0x405060]"
  using tile_roundtrip [OF run_length_libraries_ok, of "[0x102030, 0x405060]" "rect_new 3 4 2 1" 7]
  by (simp add: area_def visible_def rgb_mask_def)

end
