(* ===== verification/Screen_Diff.thy ===== *)
theory Screen_Diff
  imports Pixels
begin

text \<open>
  The stateless routines of the screen codec in \<open>crates/proto/src/codec.rs\<close> that work on whole
  framebuffers: \<open>changed_bbox\<close>, \<open>apply_tile\<close> and \<open>apply_copies\<close>. A panic is \<open>None\<close>; the result of
  a fallible routine comes with the framebuffer it leaves behind. The lemmas describe each by
  the pixel at every coordinate.
\<close>

section \<open>The bounding box of a change\<close>

definition u32_max :: nat where "u32_max = 2 ^ 32 - 1"

text \<open>The indices at which two rows differ; \<open>position\<close> and \<open>rposition\<close> are its ends.\<close>

definition diff_positions :: "u32 list \<Rightarrow> u32 list \<Rightarrow> nat list" where
  "diff_positions ra rb = filter (\<lambda>i. ra ! i \<noteq> rb ! i) [0..<min (length ra) (length rb)]"

definition first_diff :: "u32 list \<Rightarrow> u32 list \<Rightarrow> nat" where
  "first_diff ra rb = (case diff_positions ra rb of [] \<Rightarrow> 0 | i # _ \<Rightarrow> i)"

definition last_diff :: "u32 list \<Rightarrow> u32 list \<Rightarrow> nat" where
  "last_diff ra rb = (case rev (diff_positions ra rb) of [] \<Rightarrow> 0 | i # _ \<Rightarrow> i)"

record bbox =
  min_x :: nat
  max_x :: nat
  min_y :: nat
  max_y :: nat

definition bbox_row :: "framebuffer \<Rightarrow> framebuffer \<Rightarrow> rect \<Rightarrow> nat \<Rightarrow> bbox \<Rightarrow> bbox option" where
  "bbox_row a b r y s = do {
     ra \<leftarrow> fb_row a y (rx r) (rwidth r);
     rb \<leftarrow> fb_row b y (rx r) (rwidth r);
     Some (if ra = rb then s
           else \<lparr>min_x = min (min_x s) (add32 (rx r) (first_diff ra rb)),
                 max_x = max (max_x s) (add32 (rx r) (last_diff ra rb)),
                 min_y = min (min_y s) y, max_y = max (max_y s) y\<rparr>) }"

definition changed_bbox :: "framebuffer \<Rightarrow> framebuffer \<Rightarrow> rect \<Rightarrow> rect option option" where
  "changed_bbox a b rect =
     (let r = rect_intersect rect (fb_bounds a) in
      if rect_is_empty r then Some None
      else do {
        s \<leftarrow> ofold (bbox_row a b r) [ry r..<bottom r]
               \<lparr>min_x = u32_max, max_x = 0, min_y = u32_max, max_y = 0\<rparr>;
        Some (if min_x s = u32_max then None
              else Some (rect_new (min_x s) (min_y s)
                     (add32 (sub32 (max_x s) (min_x s)) 1)
                     (add32 (sub32 (max_y s) (min_y s)) 1))) })"

lemma diff_positions_ends:
  assumes "length ra = n" "length rb = n" "ra \<noteq> rb"
  shows "first_diff ra rb < n" "ra ! first_diff ra rb \<noteq> rb ! first_diff ra rb"
    "last_diff ra rb < n" "ra ! last_diff ra rb \<noteq> rb ! last_diff ra rb"
    "\<And>i. i < n \<Longrightarrow> ra ! i \<noteq> rb ! i \<Longrightarrow> first_diff ra rb \<le> i \<and> i \<le> last_diff ra rb"
proof -
  let ?d = "diff_positions ra rb"
  have mem: "i \<in> set ?d \<longleftrightarrow> i < n \<and> ra ! i \<noteq> rb ! i" for i
    using assms by (auto simp: diff_positions_def)
  have "sorted ?d" by (simp add: diff_positions_def sorted_wrt_filter)
  have ne: "?d \<noteq> []"
    using assms nth_equalityI [of ra rb] mem by (metis empty_iff list.set(1))
  then obtain f fs where d: "?d = f # fs" by (cases ?d) auto
  then have first: "first_diff ra rb = f" by (simp add: first_diff_def)
  have last: "last_diff ra rb = last ?d"
    using ne by (cases ?d rule: rev_cases) (simp_all add: last_diff_def)
  have f: "f \<in> set ?d" "last ?d \<in> set ?d" using d ne by auto
  show "first_diff ra rb < n" "ra ! first_diff ra rb \<noteq> rb ! first_diff ra rb"
    "last_diff ra rb < n" "ra ! last_diff ra rb \<noteq> rb ! last_diff ra rb"
    using f mem by (auto simp: first last)
  fix i assume "i < n" "ra ! i \<noteq> rb ! i"
  then have i: "i \<in> set ?d" using mem by simp
  have "f \<le> i" using i \<open>sorted ?d\<close> d by auto
  moreover have "i \<le> last ?d"
    using i \<open>sorted ?d\<close> by (cases ?d rule: rev_cases) (auto simp: sorted_append)
  ultimately show "first_diff ra rb \<le> i \<and> i \<le> last_diff ra rb"
    by (simp add: first last)
qed

text \<open>The changed pixels of \<open>r\<close> in rows below \<open>k\<close>, and what the loop knows of them.\<close>

definition changed_below :: "framebuffer \<Rightarrow> framebuffer \<Rightarrow> rect \<Rightarrow> nat \<Rightarrow> (nat \<times> nat) set" where
  "changed_below a b r k = {(x, y). inside r x y \<and> y < k \<and> px a x y \<noteq> px b x y}"

definition bbox_of :: "(nat \<times> nat) set \<Rightarrow> bbox \<Rightarrow> bool" where
  "bbox_of D s \<longleftrightarrow>
     (if D = {} then s = \<lparr>min_x = u32_max, max_x = 0, min_y = u32_max, max_y = 0\<rparr>
      else (\<forall>(x, y) \<in> D. min_x s \<le> x \<and> x \<le> max_x s \<and> min_y s \<le> y \<and> y \<le> max_y s) \<and>
        min_x s \<in> fst ` D \<and> max_x s \<in> fst ` D \<and> min_y s \<in> snd ` D \<and> max_y s \<in> snd ` D)"

lemma bbox_of_union:
  assumes s: "bbox_of D s" and R: "R \<noteq> {}" "\<forall>(x, y) \<in> R. f \<le> x \<and> x \<le> l \<and> y = k"
    "f \<in> fst ` R" "l \<in> fst ` R" and small: "\<forall>(x, y) \<in> R. x < u32_max \<and> y < u32_max"
  shows "bbox_of (D \<union> R) \<lparr>min_x = min (min_x s) f, max_x = max (max_x s) l,
    min_y = min (min_y s) k, max_y = max (max_y s) k\<rparr>"
proof -
  have k: "k \<in> snd ` R" using R by force
  have less: "f < u32_max" "l < u32_max" "k < u32_max" using R(3,4) k small by auto
  show ?thesis
  proof (cases "D = {}")
    case True
    then have "s = \<lparr>min_x = u32_max, max_x = 0, min_y = u32_max, max_y = 0\<rparr>"
      using s by (simp add: bbox_of_def)
    then show ?thesis using True R k less by (auto simp: bbox_of_def min_def)
  next
    case False
    then have box: "\<forall>(x, y) \<in> D. min_x s \<le> x \<and> x \<le> max_x s \<and> min_y s \<le> y \<and> y \<le> max_y s"
      and ends: "min_x s \<in> fst ` D" "max_x s \<in> fst ` D" "min_y s \<in> snd ` D" "max_y s \<in> snd ` D"
      using s by (auto simp: bbox_of_def)
    have "min (min_x s) f \<in> fst ` (D \<union> R)" "max (max_x s) l \<in> fst ` (D \<union> R)"
      "min (min_y s) k \<in> snd ` (D \<union> R)" "max (max_y s) k \<in> snd ` (D \<union> R)"
      using ends R(3,4) k by (simp_all add: min_def max_def image_Un)
    moreover have "min (min_x s) f \<le> x \<and> x \<le> max (max_x s) l \<and>
        min (min_y s) k \<le> y \<and> y \<le> max (max_y s) k" if "(x, y) \<in> D \<union> R" for x y
      using that box R(2) by (auto simp: min_le_iff_disj le_max_iff_disj)
    ultimately show ?thesis using R(1) by (auto simp: bbox_of_def)
  qed
qed

lemma bbox_row_step:
  assumes "fb_wf a" "fb_wf b" "same_size a b" "rx r + rwidth r \<le> fb_width a"
    "ry r \<le> k" "k < ry r + rheight r" "ry r + rheight r \<le> fb_height a"
    and s: "bbox_of (changed_below a b r k) s"
  shows "\<exists>s'. bbox_row a b r k s = Some s' \<and> bbox_of (changed_below a b r (Suc k)) s'"
proof -
  let ?w = "rwidth r"
  let ?ra = "map (\<lambda>i. px a i k) [rx r..<rx r + ?w]" and ?rb = "map (\<lambda>i. px b i k) [rx r..<rx r + ?w]"
  let ?R = "{(x, y). rx r \<le> x \<and> x < rx r + ?w \<and> y = k \<and> px a x k \<noteq> px b x k}"
  have rows: "fb_row a k (rx r) ?w = Some ?ra" "fb_row b k (rx r) ?w = Some ?rb"
    using assms by (auto simp: same_size_def intro!: fb_row_Some)
  have split: "changed_below a b r (Suc k) = changed_below a b r k \<union> ?R"
    using assms(5,6) by (auto simp: changed_below_def inside_def less_Suc_eq)
  have small: "fb_width a \<le> u32_max" "fb_height a \<le> u32_max"
    using assms(1) by (auto simp: fb_wf_def u32_max_def)
  show ?thesis
  proof (cases "?ra = ?rb")
    case True
    then have "?R = {}" by auto
    then have "changed_below a b r (Suc k) = changed_below a b r k"
      by (simp only: split Un_empty_right)
    with True s show ?thesis by (simp add: bbox_row_def rows)
  next
    case False
    let ?f = "first_diff ?ra ?rb" and ?l = "last_diff ?ra ?rb"
    note ends = diff_positions_ends [OF _ _ False, of ?w, simplified]
    have nw: "add32 (rx r) ?f = rx r + ?f" "add32 (rx r) ?l = rx r + ?l"
      using ends(1,3) assms(4) small by (auto simp: u32_max_def intro!: add32_no_wrap)
    have f: "(rx r + ?f, k) \<in> ?R" and l: "(rx r + ?l, k) \<in> ?R" using ends(1-4) by auto
    have range: "rx r + ?f \<le> x \<and> x \<le> rx r + ?l \<and> y = k" if "(x, y) \<in> ?R" for x y
    proof -
      have "x - rx r < ?w" "?ra ! (x - rx r) \<noteq> ?rb ! (x - rx r)" using that by auto
      from ends(5) [OF this] that show ?thesis by auto
    qed
    have less: "x < u32_max \<and> y < u32_max" if "(x, y) \<in> ?R" for x y
      using that assms(4-7) small by auto
    have "bbox_of (changed_below a b r k \<union> ?R)
        \<lparr>min_x = min (min_x s) (rx r + ?f), max_x = max (max_x s) (rx r + ?l),
         min_y = min (min_y s) k, max_y = max (max_y s) k\<rparr>"
      by (rule bbox_of_union [OF s])
        (use f l range less in \<open>blast intro: image_eqI [where x = "(u, k)" for u] fst_conv [symmetric]\<close>)+
    moreover have "bbox_row a b r k s = Some
        \<lparr>min_x = min (min_x s) (rx r + ?f), max_x = max (max_x s) (rx r + ?l),
         min_y = min (min_y s) k, max_y = max (max_y s) k\<rparr>"
      by (simp only: bbox_row_def rows Option.bind.simps False if_False nw)
    ultimately show ?thesis unfolding split by blast
  qed
qed

lemma bbox_loop:
  assumes "fb_wf a" "fb_wf b" "same_size a b" "rx r + rwidth r \<le> fb_width a"
    "ry r + rheight r \<le> fb_height a"
  shows "k \<le> rheight r \<Longrightarrow> \<exists>s. ofold (bbox_row a b r) [ry r..<ry r + k]
    \<lparr>min_x = u32_max, max_x = 0, min_y = u32_max, max_y = 0\<rparr> = Some s \<and>
    bbox_of (changed_below a b r (ry r + k)) s"
proof (induction k)
  case 0
  have "changed_below a b r (ry r) = {}" by (auto simp: changed_below_def inside_def)
  then show ?case by (simp add: bbox_of_def)
next
  case (Suc k)
  then obtain s where s: "ofold (bbox_row a b r) [ry r..<ry r + k]
    \<lparr>min_x = u32_max, max_x = 0, min_y = u32_max, max_y = 0\<rparr> = Some s"
    "bbox_of (changed_below a b r (ry r + k)) s" by auto
  have "\<exists>s'. bbox_row a b r (ry r + k) s = Some s' \<and>
      bbox_of (changed_below a b r (Suc (ry r + k))) s'"
    using assms Suc.prems s(2) by (intro bbox_row_step) auto
  with s(1) show ?case by (auto simp: ofold_append)
qed

lemma intersect_bounds:
  assumes "fb_wf fb" "rect_wf r" "\<not> rect_is_empty (rect_intersect r (fb_bounds fb))"
  shows "rx (rect_intersect r (fb_bounds fb)) + rwidth (rect_intersect r (fb_bounds fb)) \<le> fb_width fb"
    "ry (rect_intersect r (fb_bounds fb)) + rheight (rect_intersect r (fb_bounds fb)) \<le> fb_height fb"
proof -
  let ?r = "rect_intersect r (fb_bounds fb)"
  have wf: "rect_wf ?r" using assms(1,2) by simp
  have "rect_contains (fb_bounds fb) ?r"
    using assms wf by (auto simp: contains_inside inside_intersect simp del: inside_bounds)
  from contains_dims [OF assms(1) wf this assms(3)]
  show "rx ?r + rwidth ?r \<le> fb_width fb" "ry ?r + rheight ?r \<le> fb_height fb" by auto
qed

text \<open>
  The box found is the tightest one: every changed pixel of the rectangle is inside, and a
  changed pixel touches each of its four sides. Nothing is found when nothing changed.
\<close>

lemma changed_bbox_Some:
  assumes wf: "fb_wf a" "fb_wf b" "same_size a b" "rect_wf rect"
  obtains "changed_bbox a b rect = Some None"
      "\<forall>x y. inside rect x y \<longrightarrow> x < fb_width a \<longrightarrow> y < fb_height a \<longrightarrow> px a x y = px b x y"
  | bb where "changed_bbox a b rect = Some (Some bb)" "rect_wf bb" "\<not> rect_is_empty bb"
      "\<forall>x y. inside bb x y \<longrightarrow> inside rect x y \<and> x < fb_width a \<and> y < fb_height a"
      "\<forall>x y. inside rect x y \<longrightarrow> x < fb_width a \<longrightarrow> y < fb_height a \<longrightarrow> px a x y \<noteq> px b x y \<longrightarrow>
         inside bb x y"
proof -
  let ?r = "rect_intersect rect (fb_bounds a)"
  have in_r: "inside ?r x y \<longleftrightarrow> inside rect x y \<and> x < fb_width a \<and> y < fb_height a" for x y
    using wf by (simp add: inside_intersect)
  show ?thesis
  proof (cases "rect_is_empty ?r")
    case True
    then have "\<not> inside ?r x y" for x y using not_empty_inside [of ?r] by blast
    with True that(1) show ?thesis by (auto simp: changed_bbox_def in_r)
  next
    case False
    note dims = intersect_bounds [OF wf(1,4) False]
    have wfr: "rect_wf ?r" using wf by simp
    have small: "fb_width a \<le> u32_max" "fb_height a \<le> u32_max"
      using wf(1) by (auto simp: fb_wf_def u32_max_def)
    define D where "D = changed_below a b ?r (ry ?r + rheight ?r)"
    have D: "(x, y) \<in> D \<longleftrightarrow> inside ?r x y \<and> px a x y \<noteq> px b x y" for x y
      by (auto simp: D_def changed_below_def inside_def)
    obtain s where s: "ofold (bbox_row a b ?r) [ry ?r..<bottom ?r]
        \<lparr>min_x = u32_max, max_x = 0, min_y = u32_max, max_y = 0\<rparr> = Some s" "bbox_of D s"
      using bbox_loop [OF wf(1-3) dims, of "rheight ?r"] by (auto simp: bottom_wf [OF wfr] D_def)
    show ?thesis
    proof (cases "D = {}")
      case True
      then have "changed_bbox a b rect = Some None"
        using s False by (simp add: changed_bbox_def Let_def bbox_of_def)
      moreover have "\<forall>x y. inside rect x y \<longrightarrow> x < fb_width a \<longrightarrow> y < fb_height a \<longrightarrow> px a x y = px b x y"
        using D True in_r by blast
      ultimately show ?thesis by (rule that(1))
    next
      case ne: False
      let ?bb = "rect_new (min_x s) (min_y s) (max_x s - min_x s + 1) (max_y s - min_y s + 1)"
      have box: "\<forall>(x, y) \<in> D. min_x s \<le> x \<and> x \<le> max_x s \<and> min_y s \<le> y \<and> y \<le> max_y s"
        "min_x s \<in> fst ` D" "max_x s \<in> fst ` D" "min_y s \<in> snd ` D" "max_y s \<in> snd ` D"
        using s(2) ne by (auto simp: bbox_of_def)
      have le: "min_x s \<le> max_x s" "min_y s \<le> max_y s" using box by force+
      have lim: "max_x s < fb_width a" "max_y s < fb_height a"
        using box(3,5) D in_r by auto
      have range: "rx ?r \<le> min_x s" "max_x s < rx ?r + rwidth ?r" "ry ?r \<le> min_y s"
        "max_y s < ry ?r + rheight ?r"
        using box(2-5) D by (auto simp: inside_def)
      have "min_x s < u32_max" using le lim small by simp
      then have "changed_bbox a b rect = Some (Some ?bb)"
        using s(1) False le lim small
        by (simp add: changed_bbox_def Let_def u32_max_def no_wrap)
      moreover have "rect_wf ?bb" using le lim small by (auto simp: rect_wf_def u32_max_def)
      moreover have "\<not> rect_is_empty ?bb" by (simp add: rect_is_empty_def)
      moreover have "\<forall>x y. inside ?bb x y \<longrightarrow> inside ?r x y"
        using range le by (auto simp: inside_def)
      moreover have "\<forall>x y. inside ?r x y \<longrightarrow> px a x y \<noteq> px b x y \<longrightarrow> inside ?bb x y"
      proof (intro allI impI)
        fix x y assume "inside ?r x y" "px a x y \<noteq> px b x y"
        then have "(x, y) \<in> D" using D by simp
        then have "min_x s \<le> x \<and> x \<le> max_x s \<and> min_y s \<le> y \<and> y \<le> max_y s"
          using box(1) by blast
        then show "inside ?bb x y" by (simp add: inside_def)
      qed
      ultimately show ?thesis using that(2) in_r by blast
    qed
  qed
qed

section \<open>Applying a tile\<close>

definition MAX_FRAME_PIXEL_FACTOR :: nat where "MAX_FRAME_PIXEL_FACTOR = 4"

definition frame_pixel_budget :: "framebuffer \<Rightarrow> nat" where
  "frame_pixel_budget fb = sat_mul64 (area (fb_bounds fb)) MAX_FRAME_PIXEL_FACTOR"

definition apply_tile ::
  "compressors \<Rightarrow> framebuffer \<Rightarrow> tile_update \<Rightarrow> (framebuffer \<times> (codec_error + unit)) option" where
  "apply_tile cs fb tile =
     (if \<not> rect_contains (fb_bounds fb) (tile_rect tile) \<or> rect_is_empty (tile_rect tile)
      then Some (fb, Inl (OutOfBounds (tile_rect tile)))
      else (case decode_pixels cs tile of
              Inl e \<Rightarrow> Some (fb, Inl e)
            | Inr pixels \<Rightarrow> do {
                fb' \<leftarrow> fb_blit_pixels fb (tile_rect tile) pixels;
                Some (fb', Inr ()) }))"

text \<open>Whatever bytes a tile carries, decoding yields an error or exactly its rectangle's pixels.\<close>

lemma length_rgb_chunks: "length (rgb_chunks bs) = length bs div 3"
  by (induction bs rule: rgb_chunks.induct) auto

lemma unpack_indices_length: "unpack_indices d n b = Inr is \<Longrightarrow> length is = n"
  by (auto simp: unpack_indices_def split: if_splits)

lemma lookup_loop_length:
  "efold (\<lambda>i out. bindE (palette_lookup cs i) (\<lambda>c. Inr (out @ [c]))) is out = Inr ps \<Longrightarrow>
     length ps = length out + length is"
  by (induction "is" arbitrary: out) (fastforce simp: bindE_Inr_iff)+

lemma decode_palette_length: "decode_palette d n = Inr ps \<Longrightarrow> length ps = n"
  by (auto simp: decode_palette_def Let_def bindE_Inr_iff split: if_splits
      dest!: lookup_loop_length unpack_indices_length)

lemma decode_pixels_length: "decode_pixels cs t = Inr ps \<Longrightarrow> length ps = area (tile_rect t)"
  by (auto simp: decode_pixels_def Let_def bindE_Inr_iff unpack_rgb_def length_rgb_chunks
      split: if_splits dest: decode_palette_length)

text \<open>
  \<open>tile_accepts cs fb t ps\<close>: the tile is in bounds and decodes to \<open>ps\<close>; then and only then the
  framebuffer changes, to \<open>ps\<close> inside the tile's rectangle.
\<close>

definition tile_accepts :: "compressors \<Rightarrow> framebuffer \<Rightarrow> tile_update \<Rightarrow> u32 list \<Rightarrow> bool" where
  "tile_accepts cs fb t ps \<longleftrightarrow> rect_contains (fb_bounds fb) (tile_rect t) \<and>
     \<not> rect_is_empty (tile_rect t) \<and> decode_pixels cs t = Inr ps"

lemma apply_tile_accepts:
  assumes "fb_wf fb" "rect_wf (tile_rect t)" "tile_accepts cs fb t ps"
  obtains fb' where "apply_tile cs fb t = Some (fb', Inr ())" "fb_wf fb'" "same_size fb' fb"
    "\<And>x y. x < fb_width fb \<Longrightarrow> px fb' x y =
       (if inside (tile_rect t) x y
        then ps ! ((y - ry (tile_rect t)) * rwidth (tile_rect t) + (x - rx (tile_rect t)))
        else px fb x y)"
proof -
  have in_b: "rect_contains (fb_bounds fb) (tile_rect t)" and ne: "\<not> rect_is_empty (tile_rect t)"
    and dec: "decode_pixels cs t = Inr ps"
    using assms(3) by (auto simp: tile_accepts_def)
  obtain fb' where fb': "fb_blit_pixels fb (tile_rect t) ps = Some fb'" "fb_wf fb'" "same_size fb' fb"
    "\<And>x y. x < fb_width fb \<Longrightarrow> px fb' x y =
       (if inside (tile_rect t) x y
        then ps ! ((y - ry (tile_rect t)) * rwidth (tile_rect t) + (x - rx (tile_rect t)))
        else px fb x y)"
    by (rule fb_blit_Some [OF assms(1,2) in_b ne decode_pixels_length [OF dec]]) blast
  show ?thesis
    by (rule that [OF _ fb'(2,3,4)]) (simp_all add: apply_tile_def in_b ne dec fb'(1))
qed

lemma apply_tile_total:
  assumes "fb_wf fb" "rect_wf (tile_rect t)"
  shows "\<exists>fb' res. apply_tile cs fb t = Some (fb', res) \<and> fb_wf fb' \<and> same_size fb' fb \<and>
    (\<forall>e. res = Inl e \<longrightarrow> fb' = fb)"
proof (cases "\<exists>ps. tile_accepts cs fb t ps")
  case True
  then obtain ps where "tile_accepts cs fb t ps" by blast
  then show ?thesis by (rule apply_tile_accepts [OF assms]) auto
next
  case False
  then show ?thesis
    using assms(1) by (auto simp: apply_tile_def tile_accepts_def split: sum.splits)
qed

section \<open>Applying copies\<close>

text \<open>
  The first loop of \<open>apply_copies\<close>: check every copy against the bounds and the budget, and take
  a snapshot of its source.
\<close>

primrec copy_sources ::
  "framebuffer \<Rightarrow> nat \<Rightarrow> copy_rect list \<Rightarrow> nat \<Rightarrow> (codec_error + u32 list list) option" where
  "copy_sources fb budget [] spent = Some (Inr [])"
| "copy_sources fb budget (c # cs) spent =
     (if rect_is_empty (dest c) \<or> \<not> rect_contains (fb_bounds fb) (dest c)
         \<or> \<not> rect_contains (fb_bounds fb) (copy_src c)
      then Some (Inl (OutOfBounds (dest c)))
      else let spent = add64 spent (area (dest c)) in
        if budget < spent then Some (Inl (Excessive ''copy''))
        else do {
          pixels \<leftarrow> fb_extract fb (copy_src c);
          rest \<leftarrow> copy_sources fb budget cs spent;
          Some (bindE rest (\<lambda>sources. Inr (pixels # sources))) })"

definition apply_copies ::
  "framebuffer \<Rightarrow> copy_rect list \<Rightarrow> (framebuffer \<times> (codec_error + rect)) option" where
  "apply_copies fb copies = do {
     checked \<leftarrow> copy_sources fb (frame_pixel_budget fb) copies 0;
     (case checked of
        Inl e \<Rightarrow> Some (fb, Inl e)
      | Inr sources \<Rightarrow> do {
          (fb', dirty) \<leftarrow> ofold (\<lambda>(c, pixels) (fb, dirty). do {
              fb' \<leftarrow> fb_blit_pixels fb (dest c) pixels;
              Some (fb', rect_union dirty (dest c)) })
            (zip copies sources) (fb, rect_default);
          Some (fb', Inr dirty) }) }"

text \<open>The outcome of the checks, which depends on the screen's size alone.\<close>

primrec copies_check :: "rect \<Rightarrow> nat \<Rightarrow> copy_rect list \<Rightarrow> nat \<Rightarrow> codec_error + unit" where
  "copies_check bounds budget [] spent = Inr ()"
| "copies_check bounds budget (c # cs) spent =
     (if rect_is_empty (dest c) \<or> \<not> rect_contains bounds (dest c) \<or> \<not> rect_contains bounds (copy_src c)
      then Inl (OutOfBounds (dest c))
      else let spent = add64 spent (area (dest c)) in
        if budget < spent then Inl (Excessive ''copy'') else copies_check bounds budget cs spent)"

text \<open>
  What a batch does to a picture: each pixel of a destination is the source pixel of the picture
  as it was before the batch; where destinations overlap the later copy wins.
\<close>

definition copy_step :: "(nat \<Rightarrow> nat \<Rightarrow> 'a) \<Rightarrow> copy_rect \<Rightarrow> (nat \<Rightarrow> nat \<Rightarrow> 'a) \<Rightarrow> nat \<Rightarrow> nat \<Rightarrow> 'a" where
  "copy_step p c q x y =
     (if inside (dest c) x y then p (src_x c + (x - rx (dest c))) (src_y c + (y - ry (dest c)))
      else q x y)"

definition copies_px :: "(nat \<Rightarrow> nat \<Rightarrow> 'a) \<Rightarrow> copy_rect list \<Rightarrow> nat \<Rightarrow> nat \<Rightarrow> 'a" where
  "copies_px p copies = fold (copy_step p) copies p"

definition copy_wf :: "copy_rect \<Rightarrow> bool" where
  "copy_wf c \<longleftrightarrow> rect_wf (dest c) \<and> rect_wf (copy_src c)"

lemma copy_source_pixels:
  "rect_pixels p (copy_src c) =
     rect_pixels (\<lambda>x y. p (src_x c + (x - rx (dest c))) (src_y c + (y - ry (dest c)))) (dest c)"
  by (simp add: rect_pixels_def copy_src_def)

lemma copy_src_not_empty: "rect_is_empty (copy_src c) = rect_is_empty (dest c)"
  by (simp add: copy_src_def rect_is_empty_def)

lemma copy_sources_check:
  assumes "fb_wf fb" "\<forall>c \<in> set cs. copy_wf c"
  shows "copy_sources fb b cs spent = Some (bindE (copies_check (fb_bounds fb) b cs spent)
    (\<lambda>_. Inr (map (\<lambda>c. rect_pixels (px fb) (copy_src c)) cs)))"
  using assms
proof (induction cs arbitrary: spent)
  case (Cons c cs)
  then have "fb_extract fb (copy_src c) = Some (rect_pixels (px fb) (copy_src c))"
    if "rect_contains (fb_bounds fb) (copy_src c)" "\<not> rect_is_empty (dest c)"
    using that by (intro fb_extract_Some) (auto simp: copy_wf_def copy_src_not_empty)
  with Cons show ?case
    by (auto simp: Let_def bindE_def split: sum.splits)
qed simp

lemma copies_check_ok:
  "copies_check bounds b cs spent = Inr u \<Longrightarrow>
     \<forall>c \<in> set cs. \<not> rect_is_empty (dest c) \<and> rect_contains bounds (dest c) \<and> rect_contains bounds (copy_src c)"
  by (induction cs arbitrary: spent) (auto simp: Let_def split: if_splits)

lemma copy_steps_local:
  "q x y = q' x y \<Longrightarrow> fold (copy_step p) cs q x y = fold (copy_step p) cs q' x y"
proof (induction cs arbitrary: q q')
  case (Cons c cs)
  then have "copy_step p c q x y = copy_step p c q' x y" by (simp add: copy_step_def)
  then show ?case using Cons.IH [of "copy_step p c q" "copy_step p c q'"] by simp
qed simp

lemma blit_copies:
  assumes "fb_wf fb" "\<forall>c \<in> set cs. rect_wf (dest c) \<and> \<not> rect_is_empty (dest c) \<and>
    rect_contains (fb_bounds fb) (dest c)"
  shows "\<exists>fb' d'. ofold (\<lambda>(c, pixels) (fb, dirty). do {
      fb' \<leftarrow> fb_blit_pixels fb (dest c) pixels;
      Some (fb', rect_union dirty (dest c)) })
    (zip cs (map (\<lambda>c. rect_pixels p (copy_src c)) cs)) (fb, d) = Some (fb', d') \<and>
    fb_wf fb' \<and> same_size fb' fb \<and>
    (\<forall>x y. x < fb_width fb \<longrightarrow> px fb' x y = fold (copy_step p) cs (px fb) x y)"
  using assms
proof (induction cs arbitrary: fb d)
  case (Cons c cs)
  let ?q = "\<lambda>x y. p (src_x c + (x - rx (dest c))) (src_y c + (y - ry (dest c)))"
  obtain fb1 where fb1: "fb_blit_pixels fb (dest c) (rect_pixels ?q (dest c)) = Some fb1" "fb_wf fb1"
    "same_size fb1 fb"
    and p1: "\<And>x y. x < fb_width fb \<Longrightarrow> px fb1 x y = (if inside (dest c) x y then ?q x y else px fb x y)"
    by (rule blit_rect_pixels [of fb "dest c" ?q]) (use Cons.prems in auto)
  have bnd: "fb_bounds fb1 = fb_bounds fb" by (rule same_size_bounds [OF fb1(3)])
  obtain fb' d' where fb': "ofold (\<lambda>(c, pixels) (fb, dirty). do {
      fb' \<leftarrow> fb_blit_pixels fb (dest c) pixels;
      Some (fb', rect_union dirty (dest c)) })
    (zip cs (map (\<lambda>c. rect_pixels p (copy_src c)) cs)) (fb1, rect_union d (dest c)) = Some (fb', d')"
    "fb_wf fb'" "same_size fb' fb1"
    and p2: "\<forall>x y. x < fb_width fb1 \<longrightarrow> px fb' x y = fold (copy_step p) cs (px fb1) x y"
    using Cons.IH [OF fb1(2), of "rect_union d (dest c)"] Cons.prems bnd by auto
  have "px fb' x y = fold (copy_step p) (c # cs) (px fb) x y" if "x < fb_width fb" for x y
    using p1 [OF that, of y] p2 that fb1(3) copy_steps_local [of "px fb1" x y "copy_step p c (px fb)" p cs]
    by (simp add: same_size_def copy_step_def)
  moreover have "same_size fb' fb" using fb1(3) fb'(3) by (simp add: same_size_def)
  moreover have "rect_pixels p (copy_src c) = rect_pixels ?q (dest c)" by (rule copy_source_pixels)
  ultimately show ?case
    using fb1(1) fb'(1,2) by (intro exI [of _ fb'] exI [of _ d']) simp
qed simp

lemma apply_copies_Some:
  assumes "fb_wf fb" "\<forall>c \<in> set cs. copy_wf c"
  obtains e where "copies_check (fb_bounds fb) (frame_pixel_budget fb) cs 0 = Inl e"
      "apply_copies fb cs = Some (fb, Inl e)"
  | fb' d where "copies_check (fb_bounds fb) (frame_pixel_budget fb) cs 0 = Inr ()"
      "apply_copies fb cs = Some (fb', Inr d)" "fb_wf fb'" "same_size fb' fb"
      "\<And>x y. x < fb_width fb \<Longrightarrow> px fb' x y = copies_px (px fb) cs x y"
proof (cases "copies_check (fb_bounds fb) (frame_pixel_budget fb) cs 0")
  case (Inl e)
  then show ?thesis
    using copy_sources_check [OF assms, of "frame_pixel_budget fb" 0] that(1)
    by (simp add: apply_copies_def)
next
  case (Inr u)
  have "\<forall>c \<in> set cs. rect_wf (dest c) \<and> \<not> rect_is_empty (dest c) \<and> rect_contains (fb_bounds fb) (dest c)"
    using copies_check_ok [OF Inr] assms(2) by (auto simp: copy_wf_def)
  from blit_copies [OF assms(1) this, of "px fb" rect_default] obtain fb' d' where
    "ofold (\<lambda>(c, pixels) (fb, dirty). do {
      fb' \<leftarrow> fb_blit_pixels fb (dest c) pixels;
      Some (fb', rect_union dirty (dest c)) })
    (zip cs (map (\<lambda>c. rect_pixels (px fb) (copy_src c)) cs)) (fb, rect_default) = Some (fb', d')"
    "fb_wf fb'" "same_size fb' fb"
    "\<forall>x y. x < fb_width fb \<longrightarrow> px fb' x y = copies_px (px fb) cs x y"
    by (auto simp: copies_px_def)
  then show ?thesis
    using that(2) copy_sources_check [OF assms, of "frame_pixel_budget fb" 0] Inr
    by (simp add: apply_copies_def)
qed

end
