(* ===== verification/Scroll.thy ===== *)
theory Scroll
  imports Screen_Diff "HOL-Library.Product_Lexorder"
begin

text \<open>
  Scroll detection of \<open>crates/proto/src/codec.rs\<close>: \<open>row_hash\<close>, \<open>hash_runs\<close> and
  \<open>detect_scroll_runs\<close>. The tally of shifts is a \<open>HashMap\<close> whose iteration order the code does
  not fix and an unstable sort follows it; the order is the parameter \<open>ord\<close>, on which no lemma
  makes an assumption. The lemmas show that the runs of a shift are disjoint stretches of
  matching rows, and that every copy proposed moves exactly the pixels the new frame shows.
\<close>

section \<open>Row hashes\<close>

definition fnv_prime :: u64 where "fnv_prime = 0x100000001b3"

definition hash_lane :: "u64 \<Rightarrow> u32 \<Rightarrow> u64" where
  "hash_lane h p = (h XOR ucast (p AND rgb_mask)) * fnv_prime"

fun hash_groups :: "u64 \<times> u64 \<times> u64 \<times> u64 \<Rightarrow> u32 list \<Rightarrow> u64 \<times> u64 \<times> u64 \<times> u64" where
  "hash_groups (a, b, c, d) (p # q # r # s # row) =
     hash_groups (hash_lane a p, hash_lane b q, hash_lane c r, hash_lane d s) row"
| "hash_groups (a, b, c, d) [p, q, r] = (hash_lane a p, hash_lane b q, hash_lane c r, d)"
| "hash_groups (a, b, c, d) [p, q] = (hash_lane a p, hash_lane b q, c, d)"
| "hash_groups (a, b, c, d) [p] = (hash_lane a p, b, c, d)"
| "hash_groups h [] = h"

definition row_hash :: "u32 list \<Rightarrow> u64" where
  "row_hash row =
     (case hash_groups (0xcbf29ce484222325, 0x9e3779b97f4a7c15, 0xff51afd7ed558ccd,
                        0xc4ceb9fe1a85ec53) row of
        (a, b, c, d) \<Rightarrow> a XOR word_rotl 16 b XOR word_rotl 32 c XOR word_rotl 48 d)"

section \<open>Runs of one shift\<close>

type_synonym runs = "(nat \<times> nat) list"

definition run_match :: "u64 list \<Rightarrow> nat \<Rightarrow> int \<Rightarrow> nat \<Rightarrow> u64 \<Rightarrow> bool option" where
  "run_match prev_h rows dy i h =
     (let p = int i - dy in
      if 0 \<le> p \<and> nat p < rows
      then (if nat p < length prev_h then Some (prev_h ! nat p = h) else None)
      else Some False)"

definition run_step ::
  "u64 list \<Rightarrow> nat \<Rightarrow> int \<Rightarrow> nat \<Rightarrow> nat \<times> u64 \<Rightarrow> runs \<times> nat option \<Rightarrow> (runs \<times> nat option) option" where
  "run_step prev_h rows dy min_rows = (\<lambda>(i, h) (runs, start). do {
     matches \<leftarrow> run_match prev_h rows dy i h;
     Some (if matches then (runs, Some (case start of None \<Rightarrow> i | Some s \<Rightarrow> s))
           else (case start of
                   None \<Rightarrow> (runs, None)
                 | Some s \<Rightarrow> (if min_rows \<le> i - s then runs @ [(s, i)] else runs, None))) })"

definition hash_runs :: "u64 list \<Rightarrow> u64 list \<Rightarrow> int \<Rightarrow> nat \<Rightarrow> runs option" where
  "hash_runs prev_h cur_h dy min_rows = do {
     let rows = length cur_h;
     (runs, start) \<leftarrow> ofold (run_step prev_h rows dy min_rows) (enumerate 0 cur_h) ([], None);
     Some (case start of
             None \<Rightarrow> runs
           | Some s \<Rightarrow> if min_rows \<le> rows - s then runs @ [(s, rows)] else runs) }"

section \<open>Voting\<close>

definition MAX_CANDIDATES_PER_HASH :: nat where "MAX_CANDIDATES_PER_HASH = 16"

definition MAX_SHIFTS_CONSIDERED :: nat where "MAX_SHIFTS_CONSIDERED = 8"

definition add_candidate :: "nat \<times> u64 \<Rightarrow> (u64, nat list) hmap \<Rightarrow> (u64, nat list) hmap" where
  "add_candidate = (\<lambda>(i, h) m.
     let e = (case hm_get m h of None \<Rightarrow> [] | Some e \<Rightarrow> e) in
     hm_insert h (if length e < MAX_CANDIDATES_PER_HASH then e @ [i] else e) m)"

definition vote :: "nat \<Rightarrow> nat \<Rightarrow> (int, nat) hmap \<Rightarrow> (int, nat) hmap" where
  "vote i p tally =
     (let dy = int i - int p in
      if dy = 0 then tally
      else hm_insert dy (add32 (case hm_get tally dy of None \<Rightarrow> 0 | Some n \<Rightarrow> n) 1) tally)"

definition tally_row ::
  "u64 list \<Rightarrow> (u64, nat list) hmap \<Rightarrow> nat \<times> u64 \<Rightarrow> (int, nat) hmap \<Rightarrow> (int, nat) hmap option" where
  "tally_row prev_h by_hash = (\<lambda>(i, h) tally.
     if \<not> i < length prev_h then None
     else if prev_h ! i = h then Some tally
     else (case hm_get by_hash h of
             None \<Rightarrow> Some tally
           | Some candidates \<Rightarrow> Some (fold (vote i) candidates tally)))"

text \<open>\<open>max_by_key\<close> keeps the last of equal maxima; the keys here carry the rank and never tie.\<close>

definition covered :: "runs \<Rightarrow> nat" where
  "covered runs = sum_list (map (\<lambda>(a, b). b - a) runs)"

definition best_shift :: "(int \<times> runs \<times> nat) list \<Rightarrow> (int \<times> runs \<times> nat) option" where
  "best_shift xs = fold (\<lambda>x best. case best of
       None \<Rightarrow> Some x
     | Some y \<Rightarrow>
         if (covered (fst (snd y)), - int (snd (snd y))) \<le> (covered (fst (snd x)), - int (snd (snd x)))
         then Some x else Some y) xs None"

section \<open>Confirmation\<close>

primrec rows_equal :: "framebuffer \<Rightarrow> framebuffer \<Rightarrow> rect \<Rightarrow> nat list \<Rightarrow> bool option" where
  "rows_equal prev cur r [] = Some True"
| "rows_equal prev cur r (y # ys) = do {
     c \<leftarrow> fb_row cur y (rx r) (rwidth r);
     p \<leftarrow> fb_row prev y (rx r) (rwidth r);
     if c = p then rows_equal prev cur r ys else Some False }"

primrec confirm_rows ::
  "framebuffer \<Rightarrow> framebuffer \<Rightarrow> rect \<Rightarrow> int \<Rightarrow> nat list \<Rightarrow> nat \<Rightarrow> nat option" where
  "confirm_rows prev cur r dy [] end = Some end"
| "confirm_rows prev cur r dy (y # ys) end = do {
     c \<leftarrow> fb_row cur y (rx r) (rwidth r);
     p \<leftarrow> fb_row prev (nat ((int y - dy) mod 2 ^ 32)) (rx r) (rwidth r);
     if c \<noteq> p then Some end else confirm_rows prev cur r dy ys (add32 y 1) }"

definition confirm_run ::
  "framebuffer \<Rightarrow> framebuffer \<Rightarrow> rect \<Rightarrow> int \<Rightarrow> nat \<Rightarrow> nat \<times> nat \<Rightarrow> copy_rect list \<Rightarrow> copy_rect list option" where
  "confirm_run prev cur r dy min_rows = (\<lambda>(a, b) copies. do {
     let y0 = add32 (ry r) a;
     end \<leftarrow> confirm_rows prev cur r dy [y0..<add32 (ry r) b] y0;
     Some (if min_rows \<le> sub32 end y0 then
             copies @ [\<lparr>src_x = rx r, src_y = nat ((int y0 - dy) mod 2 ^ 32),
                        dest = rect_new (rx r) y0 (rwidth r) (sub32 end y0)\<rparr>]
           else copies) })"

definition detect_scroll_runs ::
  "((int \<times> nat) list \<Rightarrow> (int \<times> nat) list) \<Rightarrow> framebuffer \<Rightarrow> framebuffer \<Rightarrow> rect \<Rightarrow> nat
     \<Rightarrow> copy_rect list option" where
  "detect_scroll_runs ord prev cur region min_rows =
     (if fb_width prev \<noteq> fb_width cur \<or> fb_height prev \<noteq> fb_height cur then Some []
      else let r = rect_intersect region (fb_bounds cur); ys = [ry r..<bottom r] in
      if rwidth r = 0 \<or> rheight r < min (min_rows * 2) u32_max then Some []
      else do {
        same \<leftarrow> rows_equal prev cur r ys;
        if same then Some []
        else do {
          prev_h \<leftarrow> omap (\<lambda>y. map_option row_hash (fb_row prev y (rx r) (rwidth r))) ys;
          cur_h \<leftarrow> omap (\<lambda>y. map_option row_hash (fb_row cur y (rx r) (rwidth r))) ys;
          let by_hash = fold add_candidate (enumerate 0 prev_h) [];
          tally \<leftarrow> ofold (tally_row prev_h by_hash) (enumerate 0 cur_h) [];
          if tally = [] then Some []
          else do {
            let shifts = sort_key (\<lambda>(dy, votes). (- int votes, \<bar>dy\<bar>)) (ord tally);
            ranked \<leftarrow> omap (\<lambda>(rank, dy, votes).
                map_option (\<lambda>runs. (dy, runs, rank)) (hash_runs prev_h cur_h dy min_rows))
              (enumerate 0 (take MAX_SHIFTS_CONSIDERED shifts));
            (case best_shift ranked of
               None \<Rightarrow> Some []
             | Some (dy, runs, _) \<Rightarrow> ofold (confirm_run prev cur r dy min_rows) runs []) } } })"

text \<open>The tallest copy; \<open>max_by_key\<close> keeps the last of equals.\<close>

definition detect_scroll ::
  "((int \<times> nat) list \<Rightarrow> (int \<times> nat) list) \<Rightarrow> framebuffer \<Rightarrow> framebuffer \<Rightarrow> rect \<Rightarrow> nat
     \<Rightarrow> copy_rect option option" where
  "detect_scroll ord prev cur region min_rows =
     map_option (\<lambda>cs. fold (\<lambda>c best. case best of
         None \<Rightarrow> Some c
       | Some b \<Rightarrow> if rheight (dest b) \<le> rheight (dest c) then Some c else Some b) cs None)
       (detect_scroll_runs ord prev cur region min_rows)"

section \<open>What a run is\<close>

definition row_match :: "u64 list \<Rightarrow> u64 list \<Rightarrow> int \<Rightarrow> nat \<Rightarrow> bool" where
  "row_match prev_h cur_h dy i \<longleftrightarrow> 0 \<le> int i - dy \<and> nat (int i - dy) < length cur_h \<and>
     prev_h ! nat (int i - dy) = cur_h ! i"

definition runs_ok :: "u64 list \<Rightarrow> u64 list \<Rightarrow> int \<Rightarrow> nat \<Rightarrow> nat \<Rightarrow> runs \<Rightarrow> bool" where
  "runs_ok prev_h cur_h dy min_rows k runs \<longleftrightarrow>
     (\<forall>(a, b) \<in> set runs. a < b \<and> b \<le> k \<and> min_rows \<le> b - a \<and>
        (\<forall>i. a \<le> i \<and> i < b \<longrightarrow> row_match prev_h cur_h dy i)) \<and>
     sorted_wrt (\<lambda>(a, b) (c, d). b < c) runs"

definition run_state_ok :: "u64 list \<Rightarrow> u64 list \<Rightarrow> int \<Rightarrow> nat \<Rightarrow> nat \<Rightarrow> runs \<times> nat option \<Rightarrow> bool" where
  "run_state_ok prev_h cur_h dy min_rows k = (\<lambda>(runs, start).
     runs_ok prev_h cur_h dy min_rows k runs \<and>
     (case start of
        None \<Rightarrow> \<forall>(a, b) \<in> set runs. b < k
      | Some s \<Rightarrow> s < k \<and> (\<forall>i. s \<le> i \<and> i < k \<longrightarrow> row_match prev_h cur_h dy i) \<and>
          (\<forall>(a, b) \<in> set runs. b < s)))"

lemma runs_ok_mono: "runs_ok p c dy m k runs \<Longrightarrow> k \<le> l \<Longrightarrow> runs_ok p c dy m l runs"
  by (fastforce simp: runs_ok_def)

lemma runs_ok_snoc:
  "runs_ok p c dy m k runs \<Longrightarrow> \<forall>(a, b) \<in> set runs. b < s \<Longrightarrow> s < e \<Longrightarrow> k \<le> l \<Longrightarrow> e \<le> l \<Longrightarrow> m \<le> e - s \<Longrightarrow>
     \<forall>i. s \<le> i \<and> i < e \<longrightarrow> row_match p c dy i \<Longrightarrow> runs_ok p c dy m l (runs @ [(s, e)])"
  by (fastforce simp: runs_ok_def sorted_wrt_append)

lemma run_step_ok:
  assumes "run_state_ok prev_h cur_h dy m k st" "k < length cur_h" "length prev_h = length cur_h"
  shows "\<exists>st'. run_step prev_h (length cur_h) dy m (k, cur_h ! k) st = Some st' \<and>
    run_state_ok prev_h cur_h dy m (Suc k) st'"
proof -
  obtain runs start where st: "st = (runs, start)" by (cases st)
  have match: "run_match prev_h (length cur_h) dy k (cur_h ! k) = Some (row_match prev_h cur_h dy k)"
    using assms(2,3) by (auto simp: run_match_def row_match_def Let_def)
  have runs: "runs_ok prev_h cur_h dy m (Suc k) runs"
    using assms(1) by (auto simp: run_state_ok_def st intro: runs_ok_mono)
  show ?thesis
  proof (cases "row_match prev_h cur_h dy k")
    case True
    then show ?thesis
      using assms(1) runs
      by (auto simp: run_step_def st match run_state_ok_def less_Suc_eq le_Suc_eq split: option.splits)
  next
    case False
    show ?thesis
    proof (cases start)
      case None
      then show ?thesis
        using assms(1) runs False
        by (auto simp: run_step_def st match run_state_ok_def split: option.splits)
    next
      case (Some s)
      have s: "s < k" "\<forall>i. s \<le> i \<and> i < k \<longrightarrow> row_match prev_h cur_h dy i" "\<forall>(a, b) \<in> set runs. b < s"
        and k: "runs_ok prev_h cur_h dy m k runs"
        using assms(1) by (auto simp: run_state_ok_def st Some)
      have "runs_ok prev_h cur_h dy m (Suc k) (runs @ [(s, k)])" if "m \<le> k - s"
        by (rule runs_ok_snoc [OF k s(3,1) _ _ that s(2)]) auto
      then show ?thesis
        using s runs False by (auto simp: run_step_def st match run_state_ok_def Some)
    qed
  qed
qed

lemma hash_runs_ok:
  assumes len: "length prev_h = length cur_h"
  shows "\<exists>runs. hash_runs prev_h cur_h dy m = Some runs \<and> runs_ok prev_h cur_h dy m (length cur_h) runs"
proof -
  have "k \<le> length cur_h \<Longrightarrow>
    \<exists>st. ofold (run_step prev_h (length cur_h) dy m) (enumerate 0 (take k cur_h)) ([], None) = Some st \<and>
      run_state_ok prev_h cur_h dy m k st" for k
  proof (induction k)
    case 0
    show ?case by (simp add: run_state_ok_def runs_ok_def)
  next
    case (Suc k)
    then obtain st where st: "run_state_ok prev_h cur_h dy m k st"
      "ofold (run_step prev_h (length cur_h) dy m) (enumerate 0 (take k cur_h)) ([], None) = Some st"
      by auto
    have "k < length cur_h" using Suc.prems by simp
    with run_step_ok [OF st(1) this len] st(2) show ?case
      by (auto simp: take_Suc_conv_app_nth enumerate_append_eq ofold_append)
  qed
  from this [of "length cur_h"] obtain runs start where
    fin: "ofold (run_step prev_h (length cur_h) dy m) (enumerate 0 cur_h) ([], None) = Some (runs, start)"
    and ok: "run_state_ok prev_h cur_h dy m (length cur_h) (runs, start)" by auto
  show ?thesis
  proof (cases start)
    case None
    then show ?thesis using fin ok by (simp add: hash_runs_def run_state_ok_def)
  next
    case (Some s)
    then have "s < length cur_h" "\<forall>i. s \<le> i \<and> i < length cur_h \<longrightarrow> row_match prev_h cur_h dy i"
      "\<forall>(a, b) \<in> set runs. b < s" "runs_ok prev_h cur_h dy m (length cur_h) runs"
      using ok by (auto simp: run_state_ok_def)
    then show ?thesis
      using fin Some runs_ok_snoc [of prev_h cur_h dy m "length cur_h" runs s "length cur_h" "length cur_h"]
      by (auto simp: hash_runs_def Let_def)
  qed
qed

section \<open>What a copy is\<close>

definition copy_exact :: "framebuffer \<Rightarrow> framebuffer \<Rightarrow> copy_rect \<Rightarrow> bool" where
  "copy_exact prev cur c \<longleftrightarrow> (\<forall>x y. inside (dest c) x y \<longrightarrow>
     px cur x y = px prev (src_x c + (x - rx (dest c))) (src_y c + (y - ry (dest c))))"

definition scroll_copy :: "framebuffer \<Rightarrow> framebuffer \<Rightarrow> rect \<Rightarrow> nat \<Rightarrow> copy_rect \<Rightarrow> bool" where
  "scroll_copy prev cur r min_rows c \<longleftrightarrow> copy_wf c \<and> \<not> rect_is_empty (dest c) \<and>
     min_rows \<le> rheight (dest c) \<and> (\<forall>x y. inside (dest c) x y \<longrightarrow> inside r x y) \<and>
     (\<forall>x y. inside (copy_src c) x y \<longrightarrow> inside r x y) \<and> copy_exact prev cur c"

definition rows_below :: "copy_rect \<Rightarrow> copy_rect \<Rightarrow> bool" where
  "rows_below c d \<longleftrightarrow> ry (dest c) + rheight (dest c) \<le> ry (dest d)"

text \<open>The rectangle the loops run over: inside both framebuffers.\<close>

definition scan_ok :: "framebuffer \<Rightarrow> framebuffer \<Rightarrow> rect \<Rightarrow> bool" where
  "scan_ok prev cur r \<longleftrightarrow> fb_wf prev \<and> fb_wf cur \<and> same_size prev cur \<and> rect_wf r \<and> 0 < rwidth r \<and>
     rx r + rwidth r \<le> fb_width cur \<and> ry r + rheight r \<le> fb_height cur"

definition row_px :: "framebuffer \<Rightarrow> rect \<Rightarrow> nat \<Rightarrow> u32 list" where
  "row_px fb r y = map (\<lambda>i. px fb i y) [rx r..<rx r + rwidth r]"

lemma scan_row [panic_simps]:
  "scan_ok prev cur r \<Longrightarrow> y < fb_height cur \<Longrightarrow> fb_row cur y (rx r) (rwidth r) = Some (row_px cur r y)"
  "scan_ok prev cur r \<Longrightarrow> y < fb_height cur \<Longrightarrow> fb_row prev y (rx r) (rwidth r) = Some (row_px prev r y)"
  by (auto simp: scan_ok_def same_size_def row_px_def intro!: fb_row_Some)

lemma row_px_eq:
  "row_px cur r y = row_px prev r z \<longleftrightarrow> (\<forall>x. rx r \<le> x \<longrightarrow> x < rx r + rwidth r \<longrightarrow> px cur x y = px prev x z)"
  by (auto simp: row_px_def)

lemma rows_equal_total:
  "scan_ok prev cur r \<Longrightarrow> \<forall>y \<in> set ys. y < fb_height cur \<Longrightarrow>
     rows_equal prev cur r ys = Some (\<forall>y \<in> set ys. row_px cur r y = row_px prev r y)"
  by (induction ys) (auto simp: panic_simps)

lemma confirm_rows_ok:
  assumes "scan_ok prev cur r"
  shows "y \<le> e \<Longrightarrow> e \<le> fb_height cur \<Longrightarrow>
    \<forall>i. y \<le> i \<and> i < e \<longrightarrow> 0 \<le> int i - dy \<and> int i - dy < int (fb_height cur) \<Longrightarrow>
    \<exists>e'. confirm_rows prev cur r dy [y..<e] y = Some e' \<and> y \<le> e' \<and> e' \<le> e \<and>
      (\<forall>i. y \<le> i \<and> i < e' \<longrightarrow> row_px cur r i = row_px prev r (nat (int i - dy)))"
proof (induction "e - y" arbitrary: y)
  case 0
  then show ?case by auto
next
  case (Suc n)
  then have y: "y < e" "[y..<e] = y # [Suc y..<e]" by (auto simp: upt_conv_Cons)
  have n: "n = e - Suc y" using Suc.hyps(2) by simp
  have small: "fb_height cur < 2 ^ 32" using assms by (simp add: scan_ok_def fb_wf_def)
  have src: "0 \<le> int y - dy" "int y - dy < int (fb_height cur)" using Suc.prems(3) y(1) by auto
  then have m: "nat ((int y - dy) mod 2 ^ 32) = nat (int y - dy)"
    using small by (intro arg_cong [where f = nat] mod_pos_pos_trivial) auto
  have rows: "fb_row cur y (rx r) (rwidth r) = Some (row_px cur r y)"
    "fb_row prev (nat (int y - dy)) (rx r) (rwidth r) = Some (row_px prev r (nat (int y - dy)))"
    using assms Suc.prems(2) y(1) src by (auto simp: panic_simps intro!: scan_row)
  have nw: "add32 y 1 = Suc y" using Suc.prems(2) y(1) small by (simp add: no_wrap)
  have step: "confirm_rows prev cur r dy [y..<e] y =
      (if row_px cur r y \<noteq> row_px prev r (nat (int y - dy)) then Some y
       else confirm_rows prev cur r dy [Suc y..<e] (Suc y))"
    by (simp only: y(2) confirm_rows.simps rows m nw Option.bind.simps)
  show ?case
  proof (cases "row_px cur r y = row_px prev r (nat (int y - dy))")
    case True
    obtain e' where "confirm_rows prev cur r dy [Suc y..<e] (Suc y) = Some e'" "Suc y \<le> e'" "e' \<le> e"
      "\<forall>i. Suc y \<le> i \<and> i < e' \<longrightarrow> row_px cur r i = row_px prev r (nat (int i - dy))"
      using Suc.hyps(1) [of "Suc y"] n Suc.prems y(1) by auto
    moreover from this True have "\<forall>i. y \<le> i \<and> i < e' \<longrightarrow> row_px cur r i = row_px prev r (nat (int i - dy))"
      by (metis le_eq_less_or_eq Suc_leI)
    ultimately show ?thesis
      using True by (auto simp: step)
  next
    case False
    then show ?thesis using y(1) by (intro exI [of _ y]) (auto simp: step)
  qed
qed

lemma confirm_run_ok:
  assumes scan: "scan_ok prev cur r" and ab: "a < b" "b \<le> rheight r" and pos: "0 < min_rows"
    and src: "\<forall>i. a \<le> i \<and> i < b \<longrightarrow> 0 \<le> int i - dy \<and> nat (int i - dy) < rheight r"
  shows "\<exists>copies'. confirm_run prev cur r dy min_rows (a, b) copies = Some copies' \<and>
    (copies' = copies \<or> (\<exists>c. copies' = copies @ [c] \<and> scroll_copy prev cur r min_rows c \<and>
       ry (dest c) = ry r + a \<and> ry (dest c) + rheight (dest c) \<le> ry r + b))"
proof -
  have dims: "rect_wf r" "rx r + rwidth r \<le> fb_width cur" "ry r + rheight r \<le> fb_height cur"
    "0 < rwidth r" and small: "fb_height cur < 2 ^ 32"
    using scan by (auto simp: scan_ok_def fb_wf_def)
  have nw: "add32 (ry r) a = ry r + a" "add32 (ry r) b = ry r + b"
    using ab dims(3) small by (auto intro!: add32_no_wrap)
  have rng: "0 \<le> int i - dy \<and> int i - dy < int (fb_height cur) \<and>
      int (ry r) \<le> int i - dy \<and> int i - dy < int (ry r + rheight r)"
    if i: "ry r + a \<le> i \<and> i < ry r + b" for i
  proof -
    have "a \<le> i - ry r \<and> i - ry r < b" using i by auto
    then have "0 \<le> int (i - ry r) - dy \<and> nat (int (i - ry r) - dy) < rheight r" using src by blast
    then show ?thesis using i dims(3) by (auto simp: of_nat_diff)
  qed
  obtain e where e: "confirm_rows prev cur r dy [ry r + a..<ry r + b] (ry r + a) = Some e"
    "ry r + a \<le> e" "e \<le> ry r + b"
    "\<forall>i. ry r + a \<le> i \<and> i < e \<longrightarrow> row_px cur r i = row_px prev r (nat (int i - dy))"
    using confirm_rows_ok [OF scan, of "ry r + a" "ry r + b" dy] ab dims(3) rng by auto
  have len: "sub32 e (ry r + a) = e - (ry r + a)"
    using e ab dims(3) small by (intro sub32_no_wrap) auto
  have "0 \<le> int (ry r + a) - dy" "int (ry r + a) - dy < 2 ^ 32"
    using rng [of "ry r + a"] ab small by auto
  then have sy: "nat ((int (ry r + a) - dy) mod 2 ^ 32) = nat (int (ry r + a) - dy)"
    by (simp add: mod_pos_pos_trivial)
  let ?c = "\<lparr>src_x = rx r, src_y = nat (int (ry r + a) - dy),
    dest = rect_new (rx r) (ry r + a) (rwidth r) (e - (ry r + a))\<rparr>"
  have run: "confirm_run prev cur r dy min_rows (a, b) copies = Some
      (if min_rows \<le> e - (ry r + a) then copies @ [?c] else copies)"
    by (simp only: confirm_run_def prod.case Let_def nw e(1) Option.bind.simps len sy)
  have "scroll_copy prev cur r min_rows ?c" if long: "min_rows \<le> e - (ry r + a)"
  proof -
    have e_pos: "ry r + a < e" using long pos by simp
    have top: "int (ry r) \<le> int (ry r + a) - dy" using rng [of "ry r + a"] ab by auto
    have "ry r + a \<le> e - 1 \<and> e - 1 < ry r + b" using e(3) e_pos by auto
    from rng [OF this] have bot: "int (e - 1) - dy < int (ry r + rheight r)" by blast
    have inside_src: "ry r \<le> nat (int (ry r + a) - dy)"
      "nat (int (ry r + a) - dy) + (e - (ry r + a)) \<le> ry r + rheight r"
      using top bot e_pos by auto
    have "rect_wf (dest ?c)" "rect_wf (copy_src ?c)"
      using dims e(3) ab inside_src by (auto simp: rect_wf_def copy_src_def)
    moreover have "copy_exact prev cur ?c"
    proof -
      have "px cur x y = px prev x (nat (int (ry r + a) - dy) + (y - (ry r + a)))"
        if "rx r \<le> x" "x < rx r + rwidth r" "ry r + a \<le> y" "y < e" for x y
      proof -
        have "nat (int y - dy) = nat (int (ry r + a) - dy) + (y - (ry r + a))"
          using that(3) top by simp
        then show ?thesis using e(4) that by (simp add: row_px_eq)
      qed
      then show ?thesis by (auto simp: copy_exact_def inside_def)
    qed
    ultimately show ?thesis
      using dims e ab e_pos inside_src long
      by (auto simp: scroll_copy_def copy_wf_def rect_is_empty_def inside_def copy_src_def)
  qed
  with run e show ?thesis by (cases "min_rows \<le> e - (ry r + a)") auto
qed

text \<open>All runs of the winning shift.\<close>

definition copies_ok :: "framebuffer \<Rightarrow> framebuffer \<Rightarrow> rect \<Rightarrow> nat \<Rightarrow> copy_rect list \<Rightarrow> bool" where
  "copies_ok prev cur r min_rows cs \<longleftrightarrow>
     (\<forall>c \<in> set cs. scroll_copy prev cur r min_rows c) \<and> sorted_wrt rows_below cs"

lemma confirm_runs_ok:
  assumes scan: "scan_ok prev cur r" and pos: "0 < min_rows"
  shows "\<forall>(a, b) \<in> set runs. a < b \<and> b \<le> rheight r \<and>
      (\<forall>i. a \<le> i \<and> i < b \<longrightarrow> 0 \<le> int i - dy \<and> nat (int i - dy) < rheight r) \<Longrightarrow>
    sorted_wrt (\<lambda>(a, b) (c, d). b < c) runs \<Longrightarrow> copies_ok prev cur r min_rows copies \<Longrightarrow>
    \<forall>c \<in> set copies. \<forall>(a, b) \<in> set runs. ry (dest c) + rheight (dest c) \<le> ry r + a \<Longrightarrow>
    \<exists>copies'. ofold (confirm_run prev cur r dy min_rows) runs copies = Some copies' \<and>
      copies_ok prev cur r min_rows copies'"
proof (induction runs arbitrary: copies)
  case (Cons ab runs)
  obtain a b where ab: "ab = (a, b)" by (cases ab)
  obtain copies1 where c1: "confirm_run prev cur r dy min_rows (a, b) copies = Some copies1"
    "copies1 = copies \<or> (\<exists>c. copies1 = copies @ [c] \<and> scroll_copy prev cur r min_rows c \<and>
       ry (dest c) = ry r + a \<and> ry (dest c) + rheight (dest c) \<le> ry r + b)"
    using confirm_run_ok [OF scan _ _ pos, of a b dy copies] Cons.prems(1) by (auto simp: ab)
  have "copies_ok prev cur r min_rows copies1"
    using c1(2) Cons.prems(3,4) by (auto simp: copies_ok_def ab sorted_wrt_append rows_below_def)
  moreover have "ry (dest c) + rheight (dest c) \<le> ry r + a'"
    if "c \<in> set copies1" "(a', b') \<in> set runs" for c a' b'
  proof -
    have "b < a'" using Cons.prems(2) that(2) by (auto simp: ab)
    then show ?thesis using c1(2) Cons.prems(4) that by (fastforce simp: ab)
  qed
  ultimately obtain copies' where "ofold (confirm_run prev cur r dy min_rows) runs copies1 = Some copies'"
    "copies_ok prev cur r min_rows copies'"
    using Cons.IH [of copies1] Cons.prems(1,2) by auto
  with c1(1) show ?case by (simp add: ab)
qed simp

section \<open>Detection never panics and proposes exact copies\<close>

lemma ofold_total:
  "(\<And>x s. x \<in> set xs \<Longrightarrow> \<exists>s'. f x s = Some s') \<Longrightarrow> \<exists>s'. ofold f xs s = Some s'"
proof (induction xs arbitrary: s)
  case (Cons x xs)
  then obtain s1 where "f x s = Some s1" by force
  with Cons show ?case by auto
qed simp

lemma omap_prop:
  "(\<And>x. x \<in> set xs \<Longrightarrow> \<exists>y. f x = Some y \<and> P y) \<Longrightarrow> \<exists>ys. omap f xs = Some ys \<and> (\<forall>y \<in> set ys. P y)"
  by (induction xs) fastforce+

lemma best_shift_mem: "best_shift xs = Some x \<Longrightarrow> x \<in> set xs"
proof -
  have "fold (\<lambda>x best. case best of None \<Rightarrow> Some x | Some y \<Rightarrow>
      if (covered (fst (snd y)), - int (snd (snd y))) \<le> (covered (fst (snd x)), - int (snd (snd x)))
      then Some x else Some y) xs b = Some x \<Longrightarrow> x \<in> set xs \<or> b = Some x" for b
    by (induction xs arbitrary: b) (auto split: option.splits if_splits)
  from this [of None] show "best_shift xs = Some x \<Longrightarrow> x \<in> set xs"
    by (simp add: best_shift_def)
qed

lemma detect_scroll_runs_ok:
  assumes wf: "fb_wf prev" "fb_wf cur" "rect_wf region" and pos: "0 < min_rows"
  shows "\<exists>cs. detect_scroll_runs ord prev cur region min_rows = Some cs \<and>
    copies_ok prev cur (rect_intersect region (fb_bounds cur)) min_rows cs"
proof -
  let ?r = "rect_intersect region (fb_bounds cur)"
  have none: "copies_ok prev cur ?r min_rows []" by (simp add: copies_ok_def)
  show ?thesis
  proof (cases "same_size prev cur \<and> rwidth ?r \<noteq> 0 \<and> \<not> rheight ?r < min (min_rows * 2) u32_max")
    case False
    then show ?thesis using none by (auto simp: detect_scroll_runs_def same_size_def Let_def)
  next
    case True
    then have "\<not> rect_is_empty ?r" using pos by (auto simp: rect_is_empty_def u32_max_def)
    then have scan: "scan_ok prev cur ?r"
      using wf True intersect_bounds [OF wf(2,3)] by (simp add: scan_ok_def)
    let ?ys = "[ry ?r..<bottom ?r]"
    have ys: "\<forall>y \<in> set ?ys. y < fb_height cur" and len: "length ?ys = rheight ?r"
      using scan by (auto simp: scan_ok_def no_wrap)
    let ?ph = "map (\<lambda>y. row_hash (row_px prev ?r y)) ?ys" and ?ch = "map (\<lambda>y. row_hash (row_px cur ?r y)) ?ys"
    have hashes: "omap (\<lambda>y. map_option row_hash (fb_row prev y (rx ?r) (rwidth ?r))) ?ys = Some ?ph"
      "omap (\<lambda>y. map_option row_hash (fb_row cur y (rx ?r) (rwidth ?r))) ?ys = Some ?ch"
      using scan_row [OF scan] ys by (auto intro!: omap_pure)
    obtain tally where tally: "ofold (tally_row ?ph (fold add_candidate (enumerate 0 ?ph) []))
        (enumerate 0 ?ch) [] = Some tally"
      using ofold_total [of "enumerate 0 ?ch" "tally_row ?ph (fold add_candidate (enumerate 0 ?ph) [])" "[]"]
      by (fastforce simp: tally_row_def in_set_enumerate_eq split: option.splits)
    let ?xs = "enumerate 0 (take MAX_SHIFTS_CONSIDERED
      (sort_key (\<lambda>(dy, votes). (- int votes, \<bar>dy\<bar>)) (ord tally)))"
    obtain ranked where ranked: "omap (\<lambda>(rank, dy, votes).
          map_option (\<lambda>runs. (dy, runs, rank)) (hash_runs ?ph ?ch dy min_rows)) ?xs = Some ranked"
      and rk: "\<forall>(dy, runs, rank) \<in> set ranked. runs_ok ?ph ?ch dy min_rows (rheight ?r) runs"
    proof -
      have "\<exists>y. (case x of (rank, dy, votes) \<Rightarrow>
            map_option (\<lambda>runs. (dy, runs, rank)) (hash_runs ?ph ?ch dy min_rows)) = Some y \<and>
          (case y of (dy, runs, rank) \<Rightarrow> runs_ok ?ph ?ch dy min_rows (rheight ?r) runs)" for x
        using hash_runs_ok [of ?ph ?ch "fst (snd x)" min_rows] len by (cases x) auto
      then have "\<exists>ys. omap (\<lambda>(rank, dy, votes).
          map_option (\<lambda>runs. (dy, runs, rank)) (hash_runs ?ph ?ch dy min_rows)) ?xs = Some ys \<and>
          (\<forall>y \<in> set ys. case y of (dy, runs, rank) \<Rightarrow> runs_ok ?ph ?ch dy min_rows (rheight ?r) runs)"
        by (rule omap_prop)
      then show ?thesis using that by blast
    qed
    show ?thesis
    proof (cases "(\<forall>y \<in> set ?ys. row_px cur ?r y = row_px prev ?r y) \<or> tally = [] \<or> best_shift ranked = None")
      case early: True
      have "detect_scroll_runs ord prev cur region min_rows = Some []"
        using True early
        by (auto simp: detect_scroll_runs_def same_size_def Let_def rows_equal_total [OF scan ys] hashes
            tally ranked)
      with none show ?thesis by blast
    next
      case False
      then obtain dy runs rank where best: "best_shift ranked = Some (dy, runs, rank)" by auto
      then have runs: "runs_ok ?ph ?ch dy min_rows (rheight ?r) runs"
        using rk best_shift_mem by fastforce
      have "detect_scroll_runs ord prev cur region min_rows =
          ofold (confirm_run prev cur ?r dy min_rows) runs []"
        using True False best
        by (auto simp: detect_scroll_runs_def same_size_def Let_def rows_equal_total [OF scan ys] hashes
            tally ranked)
      moreover have "\<exists>cs. ofold (confirm_run prev cur ?r dy min_rows) runs [] = Some cs \<and>
          copies_ok prev cur ?r min_rows cs"
        using runs len none
        by (intro confirm_runs_ok [OF scan pos]) (auto simp: runs_ok_def row_match_def)
      ultimately show ?thesis by simp
    qed
  qed
qed

section \<open>Properties\<close>

text \<open>
  C28. Scroll copies are exact: for every pair of framebuffers and every region, detection ends
  without a panic, and each copy it proposes is at least \<open>min_rows\<close> high, has its source and
  destination inside the region and on the screen, and moves exactly the pixels the new frame
  shows there; the destinations of one region are disjoint bands from top to bottom. A hash
  collision can therefore shorten a copy but never corrupt the picture.
\<close>

theorem scroll_copies_exact:
  assumes "fb_wf prev" and "fb_wf cur" and "rect_wf region" and "0 < min_rows"
  shows "\<exists>cs. detect_scroll_runs ord prev cur region min_rows = Some cs \<and> sorted_wrt rows_below cs \<and>
    (\<forall>c \<in> set cs. copy_exact prev cur c \<and> min_rows \<le> rheight (dest c) \<and> rwidth (dest c) \<noteq> 0 \<and>
       (\<forall>x y. inside (dest c) x y \<or> inside (copy_src c) x y \<longrightarrow>
          inside region x y \<and> x < fb_width cur \<and> y < fb_height cur))"
proof -
  have in_r: "inside (rect_intersect region (fb_bounds cur)) x y \<longleftrightarrow>
      inside region x y \<and> x < fb_width cur \<and> y < fb_height cur" for x y
    using assms by (simp add: inside_intersect)
  obtain cs where cs: "detect_scroll_runs ord prev cur region min_rows = Some cs"
    "copies_ok prev cur (rect_intersect region (fb_bounds cur)) min_rows cs"
    using detect_scroll_runs_ok [OF assms] by blast
  have "copy_exact prev cur c \<and> min_rows \<le> rheight (dest c) \<and> rwidth (dest c) \<noteq> 0 \<and>
       (\<forall>x y. inside (dest c) x y \<or> inside (copy_src c) x y \<longrightarrow>
          inside region x y \<and> x < fb_width cur \<and> y < fb_height cur)" if "c \<in> set cs" for c
  proof -
    have "scroll_copy prev cur (rect_intersect region (fb_bounds cur)) min_rows c"
      using cs(2) that by (simp add: copies_ok_def)
    then show ?thesis unfolding scroll_copy_def rect_is_empty_def in_r by metis
  qed
  with cs show ?thesis by (auto simp: copies_ok_def)
qed

theorem scroll_copies_exact_witness:
  "\<exists>cs. detect_scroll_runs (\<lambda>t. t)
      \<lparr>fb_width = 1, fb_height = 4, fb_pixels = [1, 2, 3, 4]\<rparr>
      \<lparr>fb_width = 1, fb_height = 4, fb_pixels = [2, 3, 4, 5]\<rparr> (rect_new 0 0 1 4) 2 = Some cs \<and>
    (\<forall>c \<in> set cs. copy_exact \<lparr>fb_width = 1, fb_height = 4, fb_pixels = [1, 2, 3, 4]\<rparr>
      \<lparr>fb_width = 1, fb_height = 4, fb_pixels = [2, 3, 4, 5]\<rparr> c \<and> 2 \<le> rheight (dest c))"
proof -
  have "fb_wf \<lparr>fb_width = 1, fb_height = 4, fb_pixels = [1, 2, 3, 4]\<rparr>"
    "fb_wf \<lparr>fb_width = 1, fb_height = 4, fb_pixels = [2, 3, 4, 5]\<rparr>" "rect_wf (rect_new 0 0 1 4)"
    by (simp_all add: fb_wf_def rect_wf_def)
  from scroll_copies_exact [OF this, of 2 "\<lambda>t. t"] show ?thesis by auto
qed

end
