(* ===== verification/Screen_Codec.thy ===== *)
theory Screen_Codec
  imports Scroll
begin

text \<open>
  The two ends of the screen codec in \<open>crates/proto/src/codec.rs\<close>: \<open>Encoder\<close>, which keeps the
  frame it believes the client shows, and \<open>Decoder\<close>, which keeps the client's copy. A panic or a
  loop that does not end is \<open>None\<close>. The lemmas build up to the lockstep theorem: a decoder in
  sync with an encoder stays in sync over every frame, and shows the current pixels in every
  region the frame covers.
\<close>

section \<open>Encoder\<close>

definition TILE_SIZE :: nat where "TILE_SIZE = 64"

definition MIN_SCROLL_ROWS :: nat where "MIN_SCROLL_ROWS = 16"

definition SCROLL_MIN_AREA :: nat where "SCROLL_MIN_AREA = 128 * 128"

record encoder =
  enc_prev :: framebuffer
  enc_tile :: nat

definition encoder_new :: "nat \<Rightarrow> nat \<Rightarrow> encoder" where
  "encoder_new w h = \<lparr>enc_prev = fb_new w h, enc_tile = TILE_SIZE\<rparr>"

definition encoder_with_tile_size :: "nat \<Rightarrow> encoder \<Rightarrow> encoder option" where
  "encoder_with_tile_size tile e = (if 0 < tile then Some (e\<lparr>enc_tile := tile\<rparr>) else None)"

definition encoder_resize :: "nat \<Rightarrow> nat \<Rightarrow> encoder \<Rightarrow> encoder" where
  "encoder_resize w h e = e\<lparr>enc_prev := fb_new w h\<rparr>"

definition encoder_invalidate :: "rect \<Rightarrow> encoder \<Rightarrow> encoder option" where
  "encoder_invalidate rect e = (let r = rect_intersect rect (fb_bounds (enc_prev e)) in
     map_option (\<lambda>prev. e\<lparr>enc_prev := prev\<rparr>)
       (ofold (\<lambda>y fb. fb_row_write fb y (rx r) (rwidth r) (replicate (rwidth r) 0xFFFFFFFF))
         [ry r..<bottom r] (enc_prev e)))"

text \<open>The starts of the tiles along one axis: \<open>t\<close>, \<open>t + ts\<close>, ... while below \<open>e\<close>.\<close>

partial_function (option) tile_starts :: "nat \<Rightarrow> nat \<Rightarrow> nat \<Rightarrow> nat list option" where
  "tile_starts ts t e =
     (if t < e then Option.bind (tile_starts ts (add32 t ts) e) (\<lambda>rest. Some (t # rest)) else Some [])"

definition encode_tile ::
  "compressors \<Rightarrow> u64 \<Rightarrow> framebuffer \<Rightarrow> rect \<Rightarrow> encoder \<times> tile_update list
     \<Rightarrow> (encoder \<times> tile_update list) option" where
  "encode_tile cs seed current tile = (\<lambda>(e, updates). do {
     changed \<leftarrow> changed_bbox current (enc_prev e) tile;
     (case changed of
        None \<Rightarrow> Some (e, updates)
      | Some bbox \<Rightarrow> do {
          pixels \<leftarrow> fb_extract current bbox;
          update \<leftarrow> encode_pixels cs seed bbox pixels;
          prev \<leftarrow> fb_blit_pixels (enc_prev e) bbox pixels;
          Some (e\<lparr>enc_prev := prev\<rparr>, updates @ [update]) }) })"

definition encode_region ::
  "compressors \<Rightarrow> u64 \<Rightarrow> framebuffer \<Rightarrow> rect \<Rightarrow> encoder \<Rightarrow> (encoder \<times> tile_update list) option" where
  "encode_region cs seed current rect e =
     (if fb_width current \<noteq> fb_width (enc_prev e) \<or> fb_height current \<noteq> fb_height (enc_prev e) then None
      else let region = rect_intersect rect (fb_bounds (enc_prev e)); ts = enc_tile e in
        if rect_is_empty region then Some (e, [])
        else if ts = 0 then None
        else do {
          tys \<leftarrow> tile_starts ts (mul32 (ry region div ts) ts) (bottom region);
          txs \<leftarrow> tile_starts ts (mul32 (rx region div ts) ts) (right region);
          ofold (\<lambda>ty. ofold (\<lambda>tx. encode_tile cs seed current (rect_intersect (rect_new tx ty ts ts) region)) txs)
            tys (e, []) })"

definition encode_regions ::
  "compressors \<Rightarrow> u64 \<Rightarrow> framebuffer \<Rightarrow> rect list \<Rightarrow> encoder \<Rightarrow> (encoder \<times> tile_update list) option" where
  "encode_regions cs seed current regions e =
     ofold (\<lambda>r (e, out). do {
         (e', updates) \<leftarrow> encode_region cs seed current r e;
         Some (e', out @ updates) }) regions (e, [])"

definition region_copies ::
  "((int \<times> nat) list \<Rightarrow> (int \<times> nat) list) \<Rightarrow> framebuffer \<Rightarrow> framebuffer \<Rightarrow> rect \<Rightarrow> copy_rect list
     \<Rightarrow> copy_rect list option" where
  "region_copies ord prev current rect copies =
     (let region = rect_intersect rect (fb_bounds prev) in
      if area region < SCROLL_MIN_AREA then Some copies
      else do {
        changed \<leftarrow> changed_bbox current prev region;
        (case changed of
           None \<Rightarrow> Some copies
         | Some c \<Rightarrow> do {
             found \<leftarrow> detect_scroll_runs ord prev current c MIN_SCROLL_ROWS;
             Some (copies @ found) }) })"

definition encode_frame ::
  "((int \<times> nat) list \<Rightarrow> (int \<times> nat) list) \<Rightarrow> compressors \<Rightarrow> u64 \<Rightarrow> framebuffer \<Rightarrow> rect list \<Rightarrow> bool
     \<Rightarrow> encoder \<Rightarrow> (encoder \<times> frame_update) option" where
  "encode_frame ord cs seed current regions allow_copy e = do {
     (e1, copies) \<leftarrow>
       (if allow_copy then do {
          copies \<leftarrow> ofold (region_copies ord (enc_prev e) current) regions [];
          if copies = [] then Some (e, [])
          else do {
            (prev, applied) \<leftarrow> apply_copies (enc_prev e) copies;
            Some (e\<lparr>enc_prev := prev\<rparr>, case applied of Inl _ \<Rightarrow> [] | Inr _ \<Rightarrow> copies) } }
        else Some (e, []));
     (e2, tiles) \<leftarrow> encode_regions cs seed current regions e1;
     Some (e2, \<lparr>fu_copies = copies, fu_tiles = tiles\<rparr>) }"

section \<open>Decoder\<close>

record decoder =
  dec_fb :: framebuffer

definition decoder_new :: "nat \<Rightarrow> nat \<Rightarrow> decoder" where
  "decoder_new w h = \<lparr>dec_fb = fb_new w h\<rparr>"

definition decoder_resize :: "nat \<Rightarrow> nat \<Rightarrow> decoder \<Rightarrow> decoder option" where
  "decoder_resize w h d = map_option (\<lambda>fb. d\<lparr>dec_fb := fb\<rparr>) (fb_resize (dec_fb d) w h)"

primrec apply_tiles ::
  "compressors \<Rightarrow> nat \<Rightarrow> tile_update list \<Rightarrow> framebuffer \<Rightarrow> nat \<Rightarrow> rect
     \<Rightarrow> (framebuffer \<times> (codec_error + rect)) option" where
  "apply_tiles cs budget [] fb spent dirty = Some (fb, Inr dirty)"
| "apply_tiles cs budget (t # ts) fb spent dirty =
     (let spent = add64 spent (area (tile_rect t)) in
      if budget < spent then Some (fb, Inl (Excessive ''tile''))
      else do {
        (fb', res) \<leftarrow> apply_tile cs fb t;
        (case res of
           Inl e \<Rightarrow> Some (fb', Inl e)
         | Inr _ \<Rightarrow> apply_tiles cs budget ts fb' spent (rect_union dirty (tile_rect t))) })"

definition decoder_apply ::
  "compressors \<Rightarrow> tile_update list \<Rightarrow> decoder \<Rightarrow> (decoder \<times> (codec_error + rect)) option" where
  "decoder_apply cs tiles d = do {
     (fb, res) \<leftarrow> apply_tiles cs (frame_pixel_budget (dec_fb d)) tiles (dec_fb d) 0 rect_default;
     Some (d\<lparr>dec_fb := fb\<rparr>, res) }"

definition decoder_apply_frame ::
  "compressors \<Rightarrow> copy_rect list \<Rightarrow> tile_update list \<Rightarrow> decoder
     \<Rightarrow> (decoder \<times> (codec_error + rect)) option" where
  "decoder_apply_frame cs copies tiles d = do {
     (fb, moved) \<leftarrow> apply_copies (dec_fb d) copies;
     (case moved of
        Inl e \<Rightarrow> Some (d\<lparr>dec_fb := fb\<rparr>, Inl e)
      | Inr m \<Rightarrow> do {
          (d', drawn) \<leftarrow> decoder_apply cs tiles (d\<lparr>dec_fb := fb\<rparr>);
          Some (d', bindE drawn (\<lambda>r. Inr (rect_union m r))) }) }"

section \<open>Tile grids\<close>

lemma tile_starts_cover:
  assumes "0 < ts" "e + ts < 2 ^ 32"
  shows "\<exists>l. tile_starts ts t e = Some l \<and> (\<forall>s \<in> set l. t \<le> s \<and> s < e) \<and>
    (\<forall>x. t \<le> x \<and> x < e \<longrightarrow> (\<exists>s \<in> set l. s \<le> x \<and> x < s + ts)) \<and>
    sum_list (map (\<lambda>s. min (s + ts) e - max s a) l) \<le> e - max t a"
proof (induction "e - t" arbitrary: t rule: less_induct)
  case less
  show ?case
  proof (cases "t < e")
    case False
    then show ?thesis by (subst tile_starts.simps) auto
  next
    case True
    have nw: "add32 t ts = t + ts" using True assms(2) by (intro add32_no_wrap) simp
    have "e - (t + ts) < e - t" using True assms(1) by simp
    from less [OF this] obtain l where l: "tile_starts ts (t + ts) e = Some l"
      "\<forall>s \<in> set l. t + ts \<le> s \<and> s < e"
      "\<forall>x. t + ts \<le> x \<and> x < e \<longrightarrow> (\<exists>s \<in> set l. s \<le> x \<and> x < s + ts)"
      "sum_list (map (\<lambda>s. min (s + ts) e - max s a) l) \<le> e - max (t + ts) a"
      by blast
    have "tile_starts ts t e = Some (t # l)"
      using True l(1) by (subst tile_starts.simps) (simp add: nw)
    moreover have "\<exists>s \<in> set (t # l). s \<le> x \<and> x < s + ts" if "t \<le> x \<and> x < e" for x
      using l(3) that by (cases "t + ts \<le> x") auto
    moreover have "sum_list (map (\<lambda>s. min (s + ts) e - max s a) (t # l)) \<le> e - max t a"
    proof -
      have "min (t + ts) e - max t a + (e - max (t + ts) a) \<le> e - max t a"
        using True by (auto simp: min_def max_def)
      then show ?thesis using l(4) by simp
    qed
    ultimately show ?thesis
      using l(2) True by (intro exI [of _ "t # l"]) auto
  qed
qed

lemma ofold_map: "ofold (\<lambda>x. f (h x)) xs = ofold f (map h xs)"
proof (induction xs)
  case (Cons x xs)
  show ?case by (rule ext) (simp add: Cons)
qed (rule ext, simp)

lemma ofold_nested:
  "ofold (\<lambda>y. ofold (\<lambda>x. f (g y x)) xs) ys = ofold f (concat (map (\<lambda>y. map (g y) xs) ys))"
proof (induction ys)
  case (Cons y ys)
  show ?case by (rule ext) (simp add: Cons [simplified ofold_map] ofold_append ofold_map)
qed (rule ext, simp)

lemma sum_list_products:
  "sum_list (map f (concat (map (\<lambda>y. map (g y) xs) ys))) = sum_list (map (\<lambda>y. sum_list (map (\<lambda>x. f (g y x)) xs)) ys)"
  for f :: "'a \<Rightarrow> nat"
  by (induction ys) (auto simp: comp_def)

text \<open>The tiles of a region: together they cover it, and their areas add up to at most its own.\<close>

definition region_tiles :: "nat \<Rightarrow> rect \<Rightarrow> nat list \<Rightarrow> nat list \<Rightarrow> rect list" where
  "region_tiles ts region txs tys =
     concat (map (\<lambda>ty. map (\<lambda>tx. rect_intersect (rect_new tx ty ts ts) region) txs) tys)"

lemma area_intersect_le:
  assumes "rect_wf r" "rect_wf s"
  shows "area (rect_intersect r s) \<le>
    (min (rx r + rwidth r) (rx s + rwidth s) - max (rx r) (rx s)) *
    (min (ry r + rheight r) (ry s + rheight s) - max (ry r) (ry s))"
proof -
  have "rx r + rwidth r < 2 ^ 32" "ry r + rheight r < 2 ^ 32" "rx s + rwidth s < 2 ^ 32"
    "ry s + rheight s < 2 ^ 32"
    using assms by (auto simp: rect_wf_def)
  then show ?thesis
    using assms by (auto simp: rect_intersect_def Let_def no_wrap area_def rect_default_def)
qed

lemma region_grid:
  assumes wf: "rect_wf region" and ts: "0 < ts"
    and lim: "rx region + rwidth region + ts < 2 ^ 32" "ry region + rheight region + ts < 2 ^ 32"
  obtains txs tys where
    "tile_starts ts (mul32 (rx region div ts) ts) (right region) = Some txs"
    "tile_starts ts (mul32 (ry region div ts) ts) (bottom region) = Some tys"
    "\<forall>r \<in> set (region_tiles ts region txs tys). rect_wf r"
    "\<forall>x y. inside region x y \<longleftrightarrow> (\<exists>r \<in> set (region_tiles ts region txs tys). inside r x y)"
    "sum_list (map area (region_tiles ts region txs tys)) \<le> area region"
proof -
  have le: "a div ts * ts \<le> a" for a by (simp add: div_times_less_eq_dividend)
  have m: "mul32 (rx region div ts) ts = rx region div ts * ts"
    "mul32 (ry region div ts) ts = ry region div ts * ts"
    using lim le [of "rx region"] le [of "ry region"] by (intro mul32_no_wrap; linarith)+
  let ?w = "\<lambda>s. min (s + ts) (rx region + rwidth region) - max s (rx region)"
  let ?h = "\<lambda>s. min (s + ts) (ry region + rheight region) - max s (ry region)"
  obtain txs where txs: "tile_starts ts (rx region div ts * ts) (rx region + rwidth region) = Some txs"
    "\<forall>s \<in> set txs. s < rx region + rwidth region"
    "\<forall>x. rx region div ts * ts \<le> x \<and> x < rx region + rwidth region \<longrightarrow> (\<exists>s \<in> set txs. s \<le> x \<and> x < s + ts)"
    "sum_list (map ?w txs) \<le> rwidth region"
    using tile_starts_cover [OF ts lim(1), of "rx region div ts * ts" "rx region"] le [of "rx region"]
    by (auto simp: max_absorb2)
  obtain tys where tys: "tile_starts ts (ry region div ts * ts) (ry region + rheight region) = Some tys"
    "\<forall>s \<in> set tys. s < ry region + rheight region"
    "\<forall>x. ry region div ts * ts \<le> x \<and> x < ry region + rheight region \<longrightarrow> (\<exists>s \<in> set tys. s \<le> x \<and> x < s + ts)"
    "sum_list (map ?h tys) \<le> rheight region"
    using tile_starts_cover [OF ts lim(2), of "ry region div ts * ts" "ry region"] le [of "ry region"]
    by (auto simp: max_absorb2)
  let ?tiles = "region_tiles ts region txs tys"
  have tile_wf: "rect_wf (rect_new tx ty ts ts)" if "tx \<in> set txs" "ty \<in> set tys" for tx ty
    using that txs(2) tys(2) lim by (auto simp: rect_wf_def)
  have cover: "inside region x y \<longleftrightarrow> (\<exists>r \<in> set ?tiles. inside r x y)" for x y
  proof
    assume i: "inside region x y"
    then have "rx region div ts * ts \<le> x" "ry region div ts * ts \<le> y"
      using le [of "rx region"] le [of "ry region"] unfolding inside_def by linarith+
    with i have "\<exists>tx \<in> set txs. tx \<le> x \<and> x < tx + ts" "\<exists>ty \<in> set tys. ty \<le> y \<and> y < ty + ts"
      using txs(3) tys(3) unfolding inside_def by blast+
    then obtain tx ty where "tx \<in> set txs" "tx \<le> x" "x < tx + ts" "ty \<in> set tys" "ty \<le> y" "y < ty + ts"
      by blast
    moreover from this have "inside (rect_intersect (rect_new tx ty ts ts) region) x y"
      using i by (simp add: inside_intersect [OF tile_wf wf]) (simp add: inside_def)
    ultimately show "\<exists>r \<in> set ?tiles. inside r x y"
      unfolding region_tiles_def by auto
  qed (auto simp: region_tiles_def inside_intersect [OF tile_wf wf])
  have "sum_list (map area ?tiles) =
      sum_list (map (\<lambda>ty. sum_list (map (\<lambda>tx. area (rect_intersect (rect_new tx ty ts ts) region)) txs)) tys)"
    unfolding region_tiles_def by (rule sum_list_products)
  also have "\<dots> \<le> sum_list (map (\<lambda>ty. sum_list (map (\<lambda>tx. ?w tx * ?h ty) txs)) tys)"
    using area_intersect_le [OF tile_wf wf] by (intro sum_list_mono) (auto intro: sum_list_mono)
  also have "\<dots> = sum_list (map ?w txs) * sum_list (map ?h tys)"
    by (simp add: sum_list_mult_const sum_list_const_mult)
  also have "\<dots> \<le> area region"
    using txs(4) tys(4) by (auto simp: area_def intro: mult_le_mono)
  finally have "sum_list (map area ?tiles) \<le> area region" .
  with txs(1) tys(1) cover show ?thesis
    using that [of txs tys] wf tile_wf
    by (auto simp: m right_wf [OF wf] bottom_wf [OF wf] region_tiles_def)
qed

section \<open>Encoder and decoder in sync\<close>

text \<open>
  The decoder shows what the encoder believes it shows. Reference pixels with bits above the
  colour set are the ones \<open>invalidate\<close> wrote: nothing is claimed of them.
\<close>

definition in_sync :: "framebuffer \<Rightarrow> framebuffer \<Rightarrow> bool" where
  "in_sync prev fb \<longleftrightarrow> fb_wf prev \<and> fb_wf fb \<and> same_size prev fb \<and>
     (\<forall>x y. x < fb_width prev \<longrightarrow> y < fb_height prev \<longrightarrow> visible (px prev x y) = px prev x y \<longrightarrow>
        px fb x y = px prev x y)"

definition fb_rgb :: "framebuffer \<Rightarrow> bool" where
  "fb_rgb fb \<longleftrightarrow> fb_wf fb \<and>
     (\<forall>x y. x < fb_width fb \<longrightarrow> y < fb_height fb \<longrightarrow> visible (px fb x y) = px fb x y)"

definition encoder_wf :: "encoder \<Rightarrow> bool" where
  "encoder_wf e \<longleftrightarrow> fb_wf (enc_prev e) \<and> 0 < enc_tile e \<and>
     fb_width (enc_prev e) + enc_tile e < 2 ^ 32 \<and> fb_height (enc_prev e) + enc_tile e < 2 ^ 32 \<and>
     area (fb_bounds (enc_prev e)) < 2 ^ 30"

text \<open>Tiles that a decoder accepts one after another.\<close>

primrec paints :: "compressors \<Rightarrow> tile_update list \<Rightarrow> framebuffer \<Rightarrow> framebuffer \<Rightarrow> bool" where
  "paints cs [] fb fb' \<longleftrightarrow> fb' = fb"
| "paints cs (t # ts) fb fb' \<longleftrightarrow>
     rect_wf (tile_rect t) \<and> (\<exists>fb1. apply_tile cs fb t = Some (fb1, Inr ()) \<and> paints cs ts fb1 fb')"

lemma paints_append: "paints cs (ts @ us) fb fb' \<longleftrightarrow> (\<exists>fb1. paints cs ts fb fb1 \<and> paints cs us fb1 fb')"
  by (induction ts arbitrary: fb) auto

text \<open>
  One stretch of encoding: the tiles \<open>ts\<close> take a decoder from \<open>fb\<close> to \<open>fb'\<close> while the reference
  goes from \<open>prev\<close> to \<open>prev'\<close>, both in sync at the end, and the reference now holds the current
  pixels in \<open>R\<close> and is unchanged elsewhere.
\<close>

definition syncs ::
  "compressors \<Rightarrow> framebuffer \<Rightarrow> (nat \<Rightarrow> nat \<Rightarrow> bool) \<Rightarrow> framebuffer \<Rightarrow> framebuffer \<Rightarrow> framebuffer
     \<Rightarrow> framebuffer \<Rightarrow> tile_update list \<Rightarrow> bool" where
  "syncs cs cur R prev fb prev' fb' ts \<longleftrightarrow> paints cs ts fb fb' \<and> in_sync prev' fb' \<and> same_size prev' prev \<and>
     (\<forall>x y. x < fb_width prev \<longrightarrow> y < fb_height prev \<longrightarrow>
        px prev' x y = (if R x y then px cur x y else px prev x y))"

lemma syncs_none:
  "in_sync prev fb \<Longrightarrow>
   \<forall>x y. R x y \<longrightarrow> x < fb_width prev \<longrightarrow> y < fb_height prev \<longrightarrow> px prev x y = px cur x y \<Longrightarrow>
     syncs cs cur R prev fb prev fb []"
  by (auto simp: syncs_def)

lemma syncs_cong:
  "syncs cs cur R prev fb prev' fb' ts \<Longrightarrow>
   (\<And>x y. x < fb_width prev \<Longrightarrow> y < fb_height prev \<Longrightarrow> R x y = S x y) \<Longrightarrow>
     syncs cs cur S prev fb prev' fb' ts"
  by (simp add: syncs_def)

lemma syncs_trans:
  "syncs cs cur R prev fb prev1 fb1 ts \<Longrightarrow> syncs cs cur S prev1 fb1 prev2 fb2 us \<Longrightarrow>
     syncs cs cur (\<lambda>x y. R x y \<or> S x y) prev fb prev2 fb2 (ts @ us)"
  by (auto simp: syncs_def paints_append same_size_def)

lemma area_mono:
  assumes "\<forall>x y. inside r x y \<longrightarrow> inside s x y"
  shows "area r \<le> area s"
proof (cases "rect_is_empty r")
  case False
  then have "inside r (rx r) (ry r)" "inside r (rx r + rwidth r - 1) (ry r + rheight r - 1)"
    by (auto simp: inside_def rect_is_empty_def)
  then have "inside s (rx r) (ry r)" "inside s (rx r + rwidth r - 1) (ry r + rheight r - 1)"
    using assms by blast+
  then have "rwidth r \<le> rwidth s" "rheight r \<le> rheight s"
    by (auto simp: inside_def)
  then show ?thesis by (simp add: area_def mult_le_mono)
qed simp

lemma encode_tile_syncs:
  assumes ok: "compressors_ok cs" and e: "encoder_wf e" and sync: "in_sync (enc_prev e) fb"
    and cur: "fb_rgb cur" "same_size cur (enc_prev e)" and tile: "rect_wf tile"
  shows "\<exists>prev' fb' ts. encode_tile cs seed cur tile (e, us) = Some (e\<lparr>enc_prev := prev'\<rparr>, us @ ts) \<and>
    syncs cs cur (inside tile) (enc_prev e) fb prev' fb' ts \<and>
    sum_list (map (\<lambda>t. area (tile_rect t)) ts) \<le> area tile"
proof -
  let ?prev = "enc_prev e"
  have wf: "fb_wf cur" "fb_wf ?prev" "fb_wf fb" "same_size ?prev fb"
    using cur sync by (auto simp: fb_rgb_def in_sync_def)
  have size: "fb_width ?prev = fb_width cur" "fb_height ?prev = fb_height cur"
    using cur(2) by (auto simp: same_size_def)
  show ?thesis
  proof (rule changed_bbox_Some [OF wf(1,2) cur(2) tile])
    assume "changed_bbox cur ?prev tile = Some None"
      and same: "\<forall>x y. inside tile x y \<longrightarrow> x < fb_width cur \<longrightarrow> y < fb_height cur \<longrightarrow> px cur x y = px ?prev x y"
    then have "encode_tile cs seed cur tile (e, us) = Some (e\<lparr>enc_prev := ?prev\<rparr>, us @ [])"
      by (simp add: encode_tile_def)
    moreover have "syncs cs cur (inside tile) ?prev fb ?prev fb []"
      using sync same size by (auto intro: syncs_none)
    ultimately show ?thesis by fastforce
  next
    fix bb
    assume bb: "changed_bbox cur ?prev tile = Some (Some bb)" "rect_wf bb" "\<not> rect_is_empty bb"
      and sub: "\<forall>x y. inside bb x y \<longrightarrow> inside tile x y \<and> x < fb_width cur \<and> y < fb_height cur"
      and all: "\<forall>x y. inside tile x y \<longrightarrow> x < fb_width cur \<longrightarrow> y < fb_height cur \<longrightarrow>
         px cur x y \<noteq> px ?prev x y \<longrightarrow> inside bb x y"
    let ?ps = "rect_pixels (px cur) bb"
    have bnd: "rect_contains (fb_bounds cur) bb" "fb_bounds ?prev = fb_bounds cur" "fb_bounds fb = fb_bounds cur"
      using sub bb(2) wf cur(2) same_size_bounds by (auto simp: contains_inside simp flip: same_size_bounds)
    have ext: "fb_extract cur bb = Some ?ps"
      by (rule fb_extract_Some [OF wf(1) bb(2) bnd(1) bb(3)])
    have "area bb \<le> area (fb_bounds cur)" using sub by (intro area_mono) auto
    then have small: "length ?ps < 2 ^ 30" using e bnd by (simp add: encoder_wf_def)
    have ne: "?ps \<noteq> []" using bb(3) by (auto simp: area_def rect_is_empty_def simp flip: length_0_conv)
    obtain t where t1: "encode_pixels cs seed bb ?ps = Some t"
      using encode_pixels_total [OF ne, of cs seed bb] by blast
    have t: "encode_pixels cs seed bb ?ps = Some t" "tile_rect t = bb"
      "decode_pixels cs t = Inr (map visible ?ps)"
      using t1 encode_pixels_decodes [OF ok ne _ small t1] by simp_all
    have vis: "map visible ?ps = ?ps"
      using cur(1) sub unfolding map_rect_pixels fb_rgb_def by (intro rect_pixels_cong) auto
    obtain prev' where prev': "fb_blit_pixels ?prev bb ?ps = Some prev'" "fb_wf prev'" "same_size prev' ?prev"
      and p: "\<And>x y. x < fb_width ?prev \<Longrightarrow> px prev' x y = (if inside bb x y then px cur x y else px ?prev x y)"
      by (rule blit_rect_pixels [OF wf(2) bb(2) _ bb(3), of "px cur"]) (use bnd in auto)
    have acc: "tile_accepts cs fb t ?ps"
      using bnd bb(3) t(2,3) vis by (simp add: tile_accepts_def)
    obtain fb' where fb': "apply_tile cs fb t = Some (fb', Inr ())" "fb_wf fb'" "same_size fb' fb"
      and q: "\<And>x y. x < fb_width fb \<Longrightarrow> px fb' x y = (if inside bb x y
        then ?ps ! ((y - ry bb) * rwidth bb + (x - rx bb)) else px fb x y)"
      by (rule apply_tile_accepts [OF wf(3) _ acc]) (use bb(2) t(2) in auto)
    have "encode_tile cs seed cur tile (e, us) = Some (e\<lparr>enc_prev := prev'\<rparr>, us @ [t])"
      by (simp add: encode_tile_def bb(1) ext t(1) prev'(1))
    moreover have in_sync: "in_sync prev' fb'"
    proof -
      have dims: "fb_width prev' = fb_width ?prev" "fb_height prev' = fb_height ?prev"
        "fb_width fb = fb_width ?prev" "same_size prev' fb'"
        using prev'(3) fb'(3) wf(4) by (auto simp: same_size_def)
      have "px fb' x y = px prev' x y"
        if "x < fb_width ?prev" "y < fb_height ?prev" "visible (px prev' x y) = px prev' x y" for x y
        using p [OF that(1), of y] q [of x y] sync that dims
        by (cases "inside bb x y") (simp_all add: rect_pixels_nth in_sync_def)
      then show ?thesis using prev'(2) fb'(2) dims by (simp add: in_sync_def)
    qed
    have "px prev' x y = (if inside tile x y then px cur x y else px ?prev x y)"
      if "x < fb_width ?prev" "y < fb_height ?prev" for x y
    proof -
      have "x < fb_width cur" "y < fb_height cur" using that size by simp_all
      then have "inside bb x y \<Longrightarrow> inside tile x y"
        and "inside tile x y \<Longrightarrow> \<not> inside bb x y \<Longrightarrow> px cur x y = px ?prev x y"
        using all sub by blast+
      then show ?thesis using p [OF that(1), of y] by auto
    qed
    then have "syncs cs cur (inside tile) ?prev fb prev' fb' [t]"
      using fb'(1) prev'(3) in_sync bb(2) t(2) by (simp add: syncs_def)
    moreover have "area bb \<le> area tile" using sub by (intro area_mono) auto
    ultimately show ?thesis using t(2) by (intro exI [of _ prev'] exI [of _ fb'] exI [of _ "[t]"]) simp
  qed
qed

lemma encoder_wf_prev: "encoder_wf e \<Longrightarrow> same_size p (enc_prev e) \<Longrightarrow> fb_wf p \<Longrightarrow> encoder_wf (e\<lparr>enc_prev := p\<rparr>)"
  by (auto simp: encoder_wf_def same_size_def fb_bounds_def area_def)

lemma syncs_wf: "syncs cs cur R prev fb prev' fb' ts \<Longrightarrow> fb_wf prev' \<and> same_size prev' prev \<and> in_sync prev' fb'"
  by (simp add: syncs_def in_sync_def)

lemma encode_tiles_syncs:
  assumes ok: "compressors_ok cs" and cur: "fb_rgb cur"
  shows "encoder_wf e \<Longrightarrow> in_sync (enc_prev e) fb \<Longrightarrow> same_size cur (enc_prev e) \<Longrightarrow> \<forall>r \<in> set rs. rect_wf r \<Longrightarrow>
    \<exists>prev' fb' ts. ofold (encode_tile cs seed cur) rs (e, us) = Some (e\<lparr>enc_prev := prev'\<rparr>, us @ ts) \<and>
      syncs cs cur (\<lambda>x y. \<exists>r \<in> set rs. inside r x y) (enc_prev e) fb prev' fb' ts \<and>
      sum_list (map (\<lambda>t. area (tile_rect t)) ts) \<le> sum_list (map area rs)"
proof (induction rs arbitrary: e fb us)
  case Nil
  have "syncs cs cur (\<lambda>x y. False) (enc_prev e) fb (enc_prev e) fb []"
    using Nil by (intro syncs_none) auto
  then show ?case by (intro exI [of _ "enc_prev e"] exI [of _ fb] exI [of _ "[]"]) simp
next
  case (Cons r rs)
  obtain p1 fb1 ts1 where s1: "encode_tile cs seed cur r (e, us) = Some (e\<lparr>enc_prev := p1\<rparr>, us @ ts1)"
    "syncs cs cur (inside r) (enc_prev e) fb p1 fb1 ts1"
    "sum_list (map (\<lambda>t. area (tile_rect t)) ts1) \<le> area r"
    using encode_tile_syncs [OF ok Cons.prems(1,2) cur Cons.prems(3)] Cons.prems(4) by fastforce
  let ?e = "e\<lparr>enc_prev := p1\<rparr>"
  have "encoder_wf ?e" "in_sync (enc_prev ?e) fb1" "same_size cur (enc_prev ?e)"
    using syncs_wf [OF s1(2)] encoder_wf_prev [OF Cons.prems(1)] Cons.prems(3)
    by (auto simp: same_size_def)
  from Cons.IH [OF this, of "us @ ts1"] Cons.prems(4) obtain p2 fb2 ts2 where
    s2: "ofold (encode_tile cs seed cur) rs (?e, us @ ts1) = Some (?e\<lparr>enc_prev := p2\<rparr>, (us @ ts1) @ ts2)"
    "syncs cs cur (\<lambda>x y. \<exists>r \<in> set rs. inside r x y) p1 fb1 p2 fb2 ts2"
    "sum_list (map (\<lambda>t. area (tile_rect t)) ts2) \<le> sum_list (map area rs)"
    by auto
  have "syncs cs cur (\<lambda>x y. \<exists>r \<in> set (r # rs). inside r x y) (enc_prev e) fb p2 fb2 (ts1 @ ts2)"
    using syncs_trans [OF s1(2) s2(2)] by simp
  then show ?case
    using s1(1,3) s2(1,3) by (intro exI [of _ p2] exI [of _ fb2] exI [of _ "ts1 @ ts2"]) simp
qed

text \<open>The part of a rectangle on the screen.\<close>

abbreviation on_screen :: "framebuffer \<Rightarrow> rect \<Rightarrow> rect" where
  "on_screen fb r \<equiv> rect_intersect r (fb_bounds fb)"

lemma encode_region_syncs:
  assumes ok: "compressors_ok cs" and cur: "fb_rgb cur" and e: "encoder_wf e"
    and sync: "in_sync (enc_prev e) fb" and size: "same_size cur (enc_prev e)" and r: "rect_wf r"
  shows "\<exists>prev' fb' ts. encode_region cs seed cur r e = Some (e\<lparr>enc_prev := prev'\<rparr>, ts) \<and>
    syncs cs cur (inside r) (enc_prev e) fb prev' fb' ts \<and>
    sum_list (map (\<lambda>t. area (tile_rect t)) ts) \<le> area (on_screen cur r)"
proof -
  let ?r = "rect_intersect r (fb_bounds (enc_prev e))"
  have wf: "fb_wf (enc_prev e)" using e by (simp add: encoder_wf_def)
  have in_r: "inside ?r x y \<longleftrightarrow> inside r x y \<and> x < fb_width (enc_prev e) \<and> y < fb_height (enc_prev e)" for x y
    using r wf by (simp add: inside_intersect)
  have bnd: "fb_bounds (enc_prev e) = fb_bounds cur" using same_size_bounds [OF size] by simp
  have pre: "\<not> (fb_width cur \<noteq> fb_width (enc_prev e) \<or> fb_height cur \<noteq> fb_height (enc_prev e))"
    using size by (simp add: same_size_def)
  show ?thesis
  proof (cases "rect_is_empty ?r")
    case True
    then have "syncs cs cur (inside r) (enc_prev e) fb (enc_prev e) fb []"
      using in_r not_empty_inside [of ?r] by (intro syncs_none [OF sync]) blast
    then show ?thesis
      using True pre by (intro exI [of _ "enc_prev e"] exI [of _ fb] exI [of _ "[]"])
        (simp add: encode_region_def Let_def)
  next
    case False
    have wfr: "rect_wf ?r" and ts: "0 < enc_tile e" using r e by (auto simp: encoder_wf_def)
    have lim: "rx ?r + rwidth ?r + enc_tile e < 2 ^ 32" "ry ?r + rheight ?r + enc_tile e < 2 ^ 32"
      using intersect_bounds [OF wf r False] e by (auto simp: encoder_wf_def)
    obtain txs tys where grid:
      "tile_starts (enc_tile e) (mul32 (rx ?r div enc_tile e) (enc_tile e)) (right ?r) = Some txs"
      "tile_starts (enc_tile e) (mul32 (ry ?r div enc_tile e) (enc_tile e)) (bottom ?r) = Some tys"
      "\<forall>q \<in> set (region_tiles (enc_tile e) ?r txs tys). rect_wf q"
      "\<forall>x y. inside ?r x y \<longleftrightarrow> (\<exists>q \<in> set (region_tiles (enc_tile e) ?r txs tys). inside q x y)"
      "sum_list (map area (region_tiles (enc_tile e) ?r txs tys)) \<le> area ?r"
      by (rule region_grid [OF wfr ts lim])
    let ?tiles = "region_tiles (enc_tile e) ?r txs tys"
    have enc: "encode_region cs seed cur r e = ofold (encode_tile cs seed cur) ?tiles (e, [])"
      using False pre ts grid(1,2)
      by (simp add: encode_region_def Let_def region_tiles_def ofold_nested
          [where f = "encode_tile cs seed cur" and
            g = "\<lambda>ty tx. rect_intersect (rect_new tx ty (enc_tile e) (enc_tile e)) ?r"])
    obtain p ts' fb' where run: "ofold (encode_tile cs seed cur) ?tiles (e, []) = Some (e\<lparr>enc_prev := p\<rparr>, [] @ ts')"
      "syncs cs cur (\<lambda>x y. \<exists>q \<in> set ?tiles. inside q x y) (enc_prev e) fb p fb' ts'"
      "sum_list (map (\<lambda>t. area (tile_rect t)) ts') \<le> sum_list (map area ?tiles)"
      using encode_tiles_syncs [OF ok cur e sync size grid(3), of seed "[]"] by blast
    have "syncs cs cur (inside r) (enc_prev e) fb p fb' ts'"
      by (rule syncs_cong [OF run(2)]) (use grid(4) in_r in blast)
    moreover have "sum_list (map (\<lambda>t. area (tile_rect t)) ts') \<le> area (on_screen cur r)"
      using run(3) grid(5) bnd by simp
    ultimately show ?thesis
      using enc run(1) by (intro exI [of _ p] exI [of _ fb'] exI [of _ ts']) simp
  qed
qed

lemma encode_regions_syncs:
  assumes ok: "compressors_ok cs" and cur: "fb_rgb cur"
  shows "encoder_wf e \<Longrightarrow> in_sync (enc_prev e) fb \<Longrightarrow> same_size cur (enc_prev e) \<Longrightarrow> \<forall>r \<in> set rs. rect_wf r \<Longrightarrow>
    \<exists>prev' fb' ts. ofold (\<lambda>r (e, out). do {
         (e', updates) \<leftarrow> encode_region cs seed cur r e;
         Some (e', out @ updates) }) rs (e, us) = Some (e\<lparr>enc_prev := prev'\<rparr>, us @ ts) \<and>
      syncs cs cur (\<lambda>x y. \<exists>r \<in> set rs. inside r x y) (enc_prev e) fb prev' fb' ts \<and>
      sum_list (map (\<lambda>t. area (tile_rect t)) ts) \<le> sum_list (map (\<lambda>r. area (on_screen cur r)) rs)"
proof (induction rs arbitrary: e fb us)
  case Nil
  have "syncs cs cur (\<lambda>x y. False) (enc_prev e) fb (enc_prev e) fb []"
    using Nil by (intro syncs_none) auto
  then show ?case by (intro exI [of _ "enc_prev e"] exI [of _ fb] exI [of _ "[]"]) simp
next
  case (Cons r rs)
  obtain p1 fb1 ts1 where s1: "encode_region cs seed cur r e = Some (e\<lparr>enc_prev := p1\<rparr>, ts1)"
    "syncs cs cur (inside r) (enc_prev e) fb p1 fb1 ts1"
    "sum_list (map (\<lambda>t. area (tile_rect t)) ts1) \<le> area (on_screen cur r)"
    using encode_region_syncs [OF ok cur Cons.prems(1,2,3)] Cons.prems(4) by fastforce
  let ?e = "e\<lparr>enc_prev := p1\<rparr>"
  have "encoder_wf ?e" "in_sync (enc_prev ?e) fb1" "same_size cur (enc_prev ?e)"
    using syncs_wf [OF s1(2)] encoder_wf_prev [OF Cons.prems(1)] Cons.prems(3)
    by (auto simp: same_size_def)
  from Cons.IH [OF this, of "us @ ts1"] Cons.prems(4) obtain p2 fb2 ts2 where
    s2: "ofold (\<lambda>r (e, out). do {
         (e', updates) \<leftarrow> encode_region cs seed cur r e;
         Some (e', out @ updates) }) rs (?e, us @ ts1) = Some (?e\<lparr>enc_prev := p2\<rparr>, (us @ ts1) @ ts2)"
    "syncs cs cur (\<lambda>x y. \<exists>r \<in> set rs. inside r x y) p1 fb1 p2 fb2 ts2"
    "sum_list (map (\<lambda>t. area (tile_rect t)) ts2) \<le> sum_list (map (\<lambda>r. area (on_screen cur r)) rs)"
    by auto
  have "syncs cs cur (\<lambda>x y. \<exists>r \<in> set (r # rs). inside r x y) (enc_prev e) fb p2 fb2 (ts1 @ ts2)"
    using syncs_trans [OF s1(2) s2(2)] by simp
  then show ?case
    using s1(1,3) s2(1,3) by (intro exI [of _ p2] exI [of _ fb2] exI [of _ "ts1 @ ts2"]) simp
qed

section \<open>Frames\<close>

lemma apply_tiles_paints:
  "paints cs ts fb fb' \<Longrightarrow> spent + sum_list (map (\<lambda>t. area (tile_rect t)) ts) \<le> budget \<Longrightarrow> budget < 2 ^ 64 \<Longrightarrow>
     \<exists>d. apply_tiles cs budget ts fb spent dirty = Some (fb', Inr d)"
proof (induction ts arbitrary: fb spent dirty)
  case (Cons t ts)
  then obtain fb1 where fb1: "apply_tile cs fb t = Some (fb1, Inr ())" "paints cs ts fb1 fb'" by auto
  have "add64 spent (area (tile_rect t)) = spent + area (tile_rect t)"
    using Cons.prems by (intro add64_no_wrap) simp
  with Cons.IH [OF fb1(2), of "spent + area (tile_rect t)" "rect_union dirty (tile_rect t)"] fb1(1) Cons.prems
  show ?case by (simp add: Let_def)
qed simp

lemma copies_px_related:
  assumes rel: "\<And>x y. x < w \<Longrightarrow> y < h \<Longrightarrow> R (p x y) (q x y)"
    and src: "\<forall>c \<in> set cs. \<forall>x y. inside (copy_src c) x y \<longrightarrow> x < w \<and> y < h"
    and xy: "x < w" "y < h"
  shows "R (copies_px p cs x y) (copies_px q cs x y)"
proof -
  have "R (u x y) (v x y) \<Longrightarrow> R (fold (copy_step p) cs u x y) (fold (copy_step q) cs v x y)" for u v
    using src
  proof (induction cs arbitrary: u v)
    case (Cons c cs)
    have "R (copy_step p c u x y) (copy_step q c v x y)"
    proof (cases "inside (dest c) x y")
      case True
      then have "inside (copy_src c) (src_x c + (x - rx (dest c))) (src_y c + (y - ry (dest c)))"
        by (auto simp: inside_def copy_src_def)
      then have "src_x c + (x - rx (dest c)) < w \<and> src_y c + (y - ry (dest c)) < h"
        using Cons.prems(2) by auto
      with True rel show ?thesis by (simp add: copy_step_def)
    next
      case False
      with Cons.prems(1) show ?thesis by (simp add: copy_step_def)
    qed
    with Cons.IH Cons.prems(2) show ?case by simp
  qed simp
  with rel [OF xy] show ?thesis by (simp add: copies_px_def)
qed

lemma apply_copies_sync:
  assumes sync: "in_sync prev fb" and wf: "\<forall>c \<in> set cs. copy_wf c"
  obtains e where "apply_copies prev cs = Some (prev, Inl e)" "apply_copies fb cs = Some (fb, Inl e)"
  | prev' fb' d d' where "apply_copies prev cs = Some (prev', Inr d)" "apply_copies fb cs = Some (fb', Inr d')"
      "in_sync prev' fb'" "same_size prev' prev"
proof -
  have w: "fb_wf prev" "fb_wf fb" "same_size prev fb" using sync by (auto simp: in_sync_def)
  have b: "fb_bounds fb = fb_bounds prev" using same_size_bounds [OF w(3)] by simp
  then have bud: "frame_pixel_budget fb = frame_pixel_budget prev" by (simp add: frame_pixel_budget_def)
  show ?thesis
  proof (cases "copies_check (fb_bounds prev) (frame_pixel_budget prev) cs 0")
    case (Inl e)
    then have "apply_copies prev cs = Some (prev, Inl e)" "apply_copies fb cs = Some (fb, Inl e)"
      using apply_copies_Some [OF w(1) wf] apply_copies_Some [OF w(2) wf] b bud by (metis Inl_Inr_False sum.inject(1))+
    then show ?thesis by (rule that(1))
  next
    case (Inr u)
    obtain prev' d where p: "apply_copies prev cs = Some (prev', Inr d)" "fb_wf prev'" "same_size prev' prev"
      "\<And>x y. x < fb_width prev \<Longrightarrow> px prev' x y = copies_px (px prev) cs x y"
      by (rule apply_copies_Some [OF w(1) wf]) (use Inr in auto)
    obtain fb' d' where q: "apply_copies fb cs = Some (fb', Inr d')" "fb_wf fb'" "same_size fb' fb"
      "\<And>x y. x < fb_width fb \<Longrightarrow> px fb' x y = copies_px (px fb) cs x y"
      by (rule apply_copies_Some [OF w(2) wf]) (use Inr b bud in auto)
    have src: "\<forall>c \<in> set cs. \<forall>x y. inside (copy_src c) x y \<longrightarrow> x < fb_width prev \<and> y < fb_height prev"
      using copies_check_ok [OF Inr] wf w(1)
      by (auto simp: contains_inside copy_wf_def)
    have "visible (px prev' x y) = px prev' x y \<longrightarrow> px fb' x y = px prev' x y"
      if "x < fb_width prev" "y < fb_height prev" for x y
    proof -
      have "(\<lambda>u v. visible u = u \<longrightarrow> v = u) (copies_px (px prev) cs x y) (copies_px (px fb) cs x y)"
        by (rule copies_px_related [where w = "fb_width prev" and h = "fb_height prev", OF _ src that])
          (use sync in \<open>auto simp: in_sync_def\<close>)
      then show ?thesis using p(4) q(4) that w(3) by (simp add: same_size_def)
    qed
    then have "in_sync prev' fb'"
      using p(2,3) q(2,3) w(3) by (simp add: in_sync_def same_size_def)
    then show ?thesis using that(2) p q by blast
  qed
qed

lemma region_copies_ok:
  assumes wf: "fb_wf prev" "fb_wf cur" "same_size cur prev" and rs: "\<forall>r \<in> set rs. rect_wf r"
  shows "\<forall>c \<in> set copies. copy_wf c \<Longrightarrow>
    \<exists>cs. ofold (region_copies ord prev cur) rs copies = Some cs \<and> (\<forall>c \<in> set cs. copy_wf c)"
  using rs
proof (induction rs arbitrary: copies)
  case (Cons r rs)
  let ?r = "rect_intersect r (fb_bounds prev)"
  have wfr: "rect_wf ?r" using Cons.prems(2) wf(1) by simp
  have "\<exists>cs. region_copies ord prev cur r copies = Some cs \<and> (\<forall>c \<in> set cs. copy_wf c)"
  proof (rule changed_bbox_Some [OF wf(2,1,3) wfr])
    assume "changed_bbox cur prev ?r = Some None"
    then show ?thesis using Cons.prems(1) by (simp add: region_copies_def Let_def)
  next
    fix bb assume bb: "changed_bbox cur prev ?r = Some (Some bb)" "rect_wf bb"
    obtain found where found: "detect_scroll_runs ord prev cur bb MIN_SCROLL_ROWS = Some found"
      "copies_ok prev cur (rect_intersect bb (fb_bounds cur)) MIN_SCROLL_ROWS found"
      using detect_scroll_runs_ok [OF wf(1,2) bb(2), of MIN_SCROLL_ROWS ord] by (auto simp: MIN_SCROLL_ROWS_def)
    have "\<forall>c \<in> set found. copy_wf c" using found(2) by (simp add: copies_ok_def scroll_copy_def)
    with Cons.prems(1) show ?thesis by (auto simp: region_copies_def Let_def bb(1) found(1))
  qed
  with Cons.IH Cons.prems(2) show ?case by auto
qed simp

text \<open>The copy pass alone keeps both ends in sync.\<close>

lemma copy_pass_sync:
  assumes e: "encoder_wf e" and sync: "in_sync (enc_prev e) fb"
    and cur: "fb_wf cur" "same_size cur (enc_prev e)" and rs: "\<forall>r \<in> set rs. rect_wf r"
  shows "\<exists>prev' copies fb' d. (if allow_copy then do {
          copies \<leftarrow> ofold (region_copies ord (enc_prev e) cur) rs [];
          if copies = [] then Some (e, [])
          else do {
            (prev, applied) \<leftarrow> apply_copies (enc_prev e) copies;
            Some (e\<lparr>enc_prev := prev\<rparr>, case applied of Inl _ \<Rightarrow> [] | Inr _ \<Rightarrow> copies) } }
        else Some (e, [])) = Some (e\<lparr>enc_prev := prev'\<rparr>, copies) \<and>
    apply_copies fb copies = Some (fb', Inr d) \<and> in_sync prev' fb' \<and> same_size prev' (enc_prev e)"
proof -
  have wf: "fb_wf (enc_prev e)" using e by (simp add: encoder_wf_def)
  have no_copies: "apply_copies fb [] = Some (fb, Inr rect_default)" by (simp add: apply_copies_def)
  obtain cs where cs: "ofold (region_copies ord (enc_prev e) cur) rs [] = Some cs" "\<forall>c \<in> set cs. copy_wf c"
    using region_copies_ok [OF wf cur rs, of "[]" ord] by auto
  let ?pass = "if allow_copy then do {
          copies \<leftarrow> ofold (region_copies ord (enc_prev e) cur) rs [];
          if copies = [] then Some (e, [])
          else do {
            (prev, applied) \<leftarrow> apply_copies (enc_prev e) copies;
            Some (e\<lparr>enc_prev := prev\<rparr>, case applied of Inl _ \<Rightarrow> [] | Inr _ \<Rightarrow> copies) } }
        else Some (e, [])"
  show ?thesis
  proof (cases "allow_copy \<and> cs \<noteq> []")
    case False
    then have "?pass = Some (e\<lparr>enc_prev := enc_prev e\<rparr>, [])" using cs(1) by auto
    then show ?thesis using no_copies sync same_size_refl [of "enc_prev e"] by blast
  next
    case True
    show ?thesis
    proof (rule apply_copies_sync [OF sync cs(2)])
      fix err assume "apply_copies (enc_prev e) cs = Some (enc_prev e, Inl err)"
      then have "?pass = Some (e\<lparr>enc_prev := enc_prev e\<rparr>, [])" using True cs(1) by auto
      then show ?thesis using no_copies sync same_size_refl [of "enc_prev e"] by blast
    next
      fix prev' fb' d d'
      assume a: "apply_copies (enc_prev e) cs = Some (prev', Inr d)" "apply_copies fb cs = Some (fb', Inr d')"
        "in_sync prev' fb'" "same_size prev' (enc_prev e)"
      then have "?pass = Some (e\<lparr>enc_prev := prev'\<rparr>, cs)" using True cs(1) by auto
      then show ?thesis using a(2-4) by blast
    qed
  qed
qed

text \<open>
  An update the decoder applies without ever coming near its budget: the copies succeed, then the
  tiles paint one after the other.
\<close>

definition applies_whole :: "compressors \<Rightarrow> frame_update \<Rightarrow> decoder \<Rightarrow> decoder \<Rightarrow> bool" where
  "applies_whole cs f d d' \<longleftrightarrow>
     (\<exists>fb1 m fb2. apply_copies (dec_fb d) (fu_copies f) = Some (fb1, Inr m) \<and> fb_wf fb1 \<and>
        paints cs (fu_tiles f) fb1 fb2 \<and> d' = d\<lparr>dec_fb := fb2\<rparr> \<and>
        sum_list (map (\<lambda>t. area (tile_rect t)) (fu_tiles f)) \<le> frame_pixel_budget fb1)"

lemma encode_frame_sync:
  assumes ok: "compressors_ok cs" and e: "encoder_wf e" and sync: "in_sync (enc_prev e) (dec_fb d)"
    and cur: "fb_rgb cur" "same_size cur (enc_prev e)" and rs: "\<forall>r \<in> set rs. rect_wf r"
    and budget: "sum_list (map (\<lambda>r. area (on_screen cur r)) rs) \<le> MAX_FRAME_PIXEL_FACTOR * area (fb_bounds cur)"
  shows "\<exists>e' f d' dirty. encode_frame ord cs seed cur rs allow_copy e = Some (e', f) \<and>
    decoder_apply_frame cs (fu_copies f) (fu_tiles f) d = Some (d', Inr dirty) \<and>
    encoder_wf e' \<and> in_sync (enc_prev e') (dec_fb d') \<and> same_size (dec_fb d') cur \<and>
    (\<forall>x y. x < fb_width cur \<longrightarrow> y < fb_height cur \<longrightarrow> (\<exists>r \<in> set rs. inside r x y) \<longrightarrow>
       px (dec_fb d') x y = px cur x y) \<and> applies_whole cs f d d' \<and> enc_tile e' = enc_tile e"
proof -
  have wf_cur: "fb_wf cur" using cur(1) by (simp add: fb_rgb_def)
  obtain p1 copies fb1 m where c: "(if allow_copy then do {
          copies \<leftarrow> ofold (region_copies ord (enc_prev e) cur) rs [];
          if copies = [] then Some (e, [])
          else do {
            (prev, applied) \<leftarrow> apply_copies (enc_prev e) copies;
            Some (e\<lparr>enc_prev := prev\<rparr>, case applied of Inl _ \<Rightarrow> [] | Inr _ \<Rightarrow> copies) } }
        else Some (e, [])) = Some (e\<lparr>enc_prev := p1\<rparr>, copies)"
    "apply_copies (dec_fb d) copies = Some (fb1, Inr m)" "in_sync p1 fb1" "same_size p1 (enc_prev e)"
    using copy_pass_sync [OF e sync wf_cur cur(2) rs, of allow_copy ord] by blast
  let ?e1 = "e\<lparr>enc_prev := p1\<rparr>"
  have e1: "encoder_wf ?e1" "in_sync (enc_prev ?e1) fb1" "same_size cur (enc_prev ?e1)"
    using c(3,4) encoder_wf_prev [OF e] cur(2) by (auto simp: in_sync_def same_size_def)
  obtain p2 fb2 ts where t: "encode_regions cs seed cur rs ?e1 = Some (?e1\<lparr>enc_prev := p2\<rparr>, ts)"
    "syncs cs cur (\<lambda>x y. \<exists>r \<in> set rs. inside r x y) p1 fb1 p2 fb2 ts"
    "sum_list (map (\<lambda>t. area (tile_rect t)) ts) \<le> sum_list (map (\<lambda>r. area (on_screen cur r)) rs)"
    using encode_regions_syncs [OF ok cur(1) e1 rs, of seed "[]"] by (auto simp: encode_regions_def)
  have size: "same_size p2 cur" "same_size fb2 cur" "same_size fb1 cur" "in_sync p2 fb2"
    using t(2) c(3) e1(3) by (auto simp: syncs_def in_sync_def same_size_def)
  have area: "area (fb_bounds fb1) = area (fb_bounds cur)" "area (fb_bounds cur) < 2 ^ 30"
    using same_size_bounds [OF size(3)] same_size_bounds [OF cur(2)] e by (auto simp: encoder_wf_def)
  then have "frame_pixel_budget fb1 = MAX_FRAME_PIXEL_FACTOR * area (fb_bounds cur)"
    by (simp add: frame_pixel_budget_def sat_mul64_def MAX_FRAME_PIXEL_FACTOR_def)
  then obtain r where "apply_tiles cs (frame_pixel_budget fb1) ts fb1 0 rect_default = Some (fb2, Inr r)"
    using apply_tiles_paints [of cs ts fb1 fb2 0 "frame_pixel_budget fb1" rect_default] t(2,3) budget area
    by (auto simp: syncs_def MAX_FRAME_PIXEL_FACTOR_def)
  then have dec: "decoder_apply_frame cs copies ts d = Some (d\<lparr>dec_fb := fb2\<rparr>, Inr (rect_union m r))"
    by (simp add: decoder_apply_frame_def c(2) decoder_apply_def)
  have enc: "encode_frame ord cs seed cur rs allow_copy e =
      Some (?e1\<lparr>enc_prev := p2\<rparr>, \<lparr>fu_copies = copies, fu_tiles = ts\<rparr>)"
    unfolding encode_frame_def c(1) by (simp add: t(1))
  have shown: "px fb2 x y = px cur x y"
    if "x < fb_width cur" "y < fb_height cur" "\<exists>r \<in> set rs. inside r x y" for x y
  proof -
    have "px p2 x y = px cur x y" using t(2) that e1(3) by (simp add: syncs_def same_size_def)
    moreover have "visible (px cur x y) = px cur x y" using cur(1) that by (simp add: fb_rgb_def)
    ultimately show ?thesis using size(1,4) that by (simp add: in_sync_def same_size_def)
  qed
  have "encoder_wf (?e1\<lparr>enc_prev := p2\<rparr>)"
    using encoder_wf_prev [OF e1(1), of p2] syncs_wf [OF t(2)] by simp
  moreover have "applies_whole cs \<lparr>fu_copies = copies, fu_tiles = ts\<rparr> d (d\<lparr>dec_fb := fb2\<rparr>)"
    using c(2,3) t(2,3) area budget \<open>frame_pixel_budget fb1 = _\<close>
    by (auto simp: applies_whole_def syncs_def in_sync_def)
  ultimately show ?thesis using enc dec shown size by fastforce
qed

section \<open>Resending everything\<close>

lemma intersect_empty_default:
  "rect_is_empty (rect_intersect r s) \<Longrightarrow> rect_intersect r s = rect_default"
proof -
  have "right q < 2 ^ 32" "bottom q < 2 ^ 32" for q by (simp_all add: right_def bottom_def)
  then have "min (right r) (right s) < 2 ^ 32" "min (bottom r) (bottom s) < 2 ^ 32"
    by (simp_all add: min_less_iff_disj)
  then show "rect_is_empty (rect_intersect r s) \<Longrightarrow> rect_intersect r s = rect_default"
    by (auto simp: rect_intersect_def Let_def rect_is_empty_def sub32_no_wrap simp del: min_less_iff_disj
        split: if_splits)
qed

lemma encoder_invalidate_Some:
  assumes e: "fb_wf (enc_prev e)" and r: "rect_wf rect"
  obtains prev where "encoder_invalidate rect e = Some (e\<lparr>enc_prev := prev\<rparr>)" "fb_wf prev"
    "same_size prev (enc_prev e)"
    "\<And>x y. x < fb_width prev \<Longrightarrow> y < fb_height prev \<Longrightarrow> px prev x y =
       (if inside rect x y then 0xFFFFFFFF else px (enc_prev e) x y)"
proof -
  let ?r = "rect_intersect rect (fb_bounds (enc_prev e))"
  have in_r: "inside ?r x y \<longleftrightarrow> inside rect x y \<and> x < fb_width (enc_prev e) \<and> y < fb_height (enc_prev e)" for x y
    using e r by (simp add: inside_intersect)
  show ?thesis
  proof (cases "rect_is_empty ?r")
    case True
    then have "?r = rect_default"
      by (rule intersect_empty_default)
    then have "encoder_invalidate rect e = Some (e\<lparr>enc_prev := enc_prev e\<rparr>)"
      by (simp add: encoder_invalidate_def rect_default_def bottom_def add32_def)
    moreover have "\<not> inside rect x y" if "x < fb_width (enc_prev e)" "y < fb_height (enc_prev e)" for x y
      using in_r [of x y] that True not_empty_inside [of ?r] by blast
    ultimately show ?thesis using that e by (metis same_size_refl)
  next
    case False
    note dims = intersect_bounds [OF e r False]
    obtain prev where p: "ofold (\<lambda>y fb. fb_row_write fb y (rx ?r) (rwidth ?r) (replicate (rwidth ?r) 0xFFFFFFFF))
        [ry ?r..<ry ?r + rheight ?r] (enc_prev e) = Some prev" "fb_wf prev" "same_size prev (enc_prev e)"
      "\<forall>x y. x < fb_width (enc_prev e) \<longrightarrow> px prev x y =
        (if ry ?r \<le> y \<and> y < ry ?r + rheight ?r \<and> rx ?r \<le> x \<and> x < rx ?r + rwidth ?r
         then replicate (rwidth ?r) 0xFFFFFFFF ! (x - rx ?r) else px (enc_prev e) x y)"
      using rows_write [OF e dims(1,2), where a = "ry ?r" and f = "\<lambda>_. replicate (rwidth ?r) 0xFFFFFFFF"]
      by auto
    have "px prev x y = (if inside rect x y then 0xFFFFFFFF else px (enc_prev e) x y)"
      if "x < fb_width prev" "y < fb_height prev" for x y
      using p(3,4) that in_r [of x y] by (auto simp: inside_def same_size_def)
    moreover have "encoder_invalidate rect e = Some (e\<lparr>enc_prev := prev\<rparr>)"
      using e r by (simp add: encoder_invalidate_def Let_def bottom_wf p(1))
    ultimately show ?thesis using that p(2,3) by blast
  qed
qed

lemma sentinel_not_visible: "visible 0xFFFFFFFF \<noteq> 0xFFFFFFFF"
  by (simp add: visible_def rgb_mask_def)

section \<open>Properties\<close>

text \<open>
  C3. Lockstep, the codec's promise: whatever regions the server encodes and whether or not it
  looks for scrolls, encoding the frame does not panic, the client accepts the update, its
  framebuffer again agrees with the encoder's reference, and in every encoded region it is
  pixel for pixel the current screen. It holds for every hash seed, every iteration order of
  the scroll tally and every pair of compressors that keep their contract.
\<close>

theorem frame_lockstep:
  assumes "compressors_ok cs" and "encoder_wf e" and "in_sync (enc_prev e) (dec_fb d)"
    and "fb_rgb cur" and "same_size cur (enc_prev e)" and "\<forall>r \<in> set regions. rect_wf r"
    and "sum_list (map (\<lambda>r. area (on_screen cur r)) regions)
           \<le> MAX_FRAME_PIXEL_FACTOR * area (fb_bounds cur)"
  shows "\<exists>e' f d' dirty. encode_frame ord cs seed cur regions allow_copy e = Some (e', f) \<and>
    decoder_apply_frame cs (fu_copies f) (fu_tiles f) d = Some (d', Inr dirty) \<and>
    encoder_wf e' \<and> in_sync (enc_prev e') (dec_fb d') \<and>
    (\<forall>x y. x < fb_width cur \<longrightarrow> y < fb_height cur \<longrightarrow> (\<exists>r \<in> set regions. inside r x y) \<longrightarrow>
       px (dec_fb d') x y = px cur x y)"
  using encode_frame_sync [OF assms] by blast

text \<open>
  A full refresh repairs any client: after \<open>invalidate\<close> of the whole reference, one frame over
  the whole screen makes the client's framebuffer equal to the current one, whatever it held.
\<close>

theorem refresh_resyncs:
  assumes ok: "compressors_ok cs" and e: "encoder_wf e" and d: "fb_wf (dec_fb d)"
    and size: "same_size (dec_fb d) cur" "same_size cur (enc_prev e)" and cur: "fb_rgb cur"
  shows "\<exists>e1 e2 f d' dirty. encoder_invalidate (fb_bounds (enc_prev e)) e = Some e1 \<and>
    encode_frame ord cs seed cur [fb_bounds cur] allow_copy e1 = Some (e2, f) \<and>
    decoder_apply_frame cs (fu_copies f) (fu_tiles f) d = Some (d', Inr dirty) \<and> dec_fb d' = cur"
proof -
  have wf: "fb_wf (enc_prev e)" "fb_wf cur" using e cur by (auto simp: encoder_wf_def fb_rgb_def)
  obtain prev where p: "encoder_invalidate (fb_bounds (enc_prev e)) e = Some (e\<lparr>enc_prev := prev\<rparr>)"
    "fb_wf prev" "same_size prev (enc_prev e)"
    "\<And>x y. x < fb_width prev \<Longrightarrow> y < fb_height prev \<Longrightarrow> px prev x y =
       (if inside (fb_bounds (enc_prev e)) x y then 0xFFFFFFFF else px (enc_prev e) x y)"
    by (rule encoder_invalidate_Some [OF wf(1) fb_bounds_wf [OF wf(1)]]) blast
  let ?e = "e\<lparr>enc_prev := prev\<rparr>"
  have "px prev x y = 0xFFFFFFFF" if "x < fb_width prev" "y < fb_height prev" for x y
    using p(3,4) that by (simp add: same_size_def)
  then have sync: "in_sync (enc_prev ?e) (dec_fb d)"
    using p(2,3) d size sentinel_not_visible by (simp add: in_sync_def same_size_def)
  have area: "area (on_screen cur (fb_bounds cur)) \<le> area (fb_bounds cur)"
    using wf(2) by (intro area_mono) (simp add: inside_intersect)
  have "encoder_wf ?e" "same_size cur (enc_prev ?e)" "\<forall>r \<in> set [fb_bounds cur]. rect_wf r"
    using encoder_wf_prev [OF e p(3,2)] p(3) size wf by (auto simp: same_size_def)
  then obtain e2 f d' dirty where f: "encode_frame ord cs seed cur [fb_bounds cur] allow_copy ?e = Some (e2, f)"
    "decoder_apply_frame cs (fu_copies f) (fu_tiles f) d = Some (d', Inr dirty)"
    "in_sync (enc_prev e2) (dec_fb d')" "same_size (dec_fb d') cur"
    "\<forall>x y. x < fb_width cur \<longrightarrow> y < fb_height cur \<longrightarrow> (\<exists>r \<in> set [fb_bounds cur]. inside r x y) \<longrightarrow>
       px (dec_fb d') x y = px cur x y"
    using encode_frame_sync [OF ok _ sync cur, of "[fb_bounds cur]" ord seed allow_copy] area
    by (auto simp: MAX_FRAME_PIXEL_FACTOR_def)
  then have "dec_fb d' = cur"
    using wf(2) by (intro fb_eqI) (auto simp: in_sync_def same_size_def)
  with p(1) f(1,2) show ?thesis by blast
qed

lemma apply_tiles_total:
  "fb_wf fb \<Longrightarrow> \<forall>t \<in> set ts. rect_wf (tile_rect t) \<Longrightarrow>
     \<exists>fb' res. apply_tiles cs budget ts fb spent dirty = Some (fb', res) \<and> fb_wf fb' \<and> same_size fb' fb"
proof (induction ts arbitrary: fb spent dirty)
  case (Cons t ts)
  obtain fb1 res where t: "apply_tile cs fb t = Some (fb1, res)" "fb_wf fb1" "same_size fb1 fb"
    using apply_tile_total [OF Cons.prems(1), of t cs] Cons.prems(2) by auto
  show ?case
  proof (cases "budget < add64 spent (area (tile_rect t))")
    case True
    then show ?thesis using Cons.prems(1) by (simp add: Let_def)
  next
    case False
    then show ?thesis
      using t Cons.IH [OF t(2), of "add64 spent (area (tile_rect t))" "rect_union dirty (tile_rect t)"] Cons.prems(2)
      by (cases res) (auto simp: Let_def same_size_def)
  qed
qed simp

lemma decoder_apply_frame_total:
  assumes "fb_wf (dec_fb d)" and "\<forall>c \<in> set copies. copy_wf c" and "\<forall>t \<in> set tiles. rect_wf (tile_rect t)"
  shows "\<exists>d' res. decoder_apply_frame cs copies tiles d = Some (d', res) \<and> fb_wf (dec_fb d') \<and>
    same_size (dec_fb d') (dec_fb d)"
proof (rule apply_copies_Some [OF assms(1,2)])
  fix e assume "apply_copies (dec_fb d) copies = Some (dec_fb d, Inl e)"
  then show ?thesis using assms(1) by (simp add: decoder_apply_frame_def)
next
  fix fb m assume c: "apply_copies (dec_fb d) copies = Some (fb, Inr m)" "fb_wf fb" "same_size fb (dec_fb d)"
  obtain fb' res where "apply_tiles cs (frame_pixel_budget fb) tiles fb 0 rect_default = Some (fb', res)"
    "fb_wf fb'" "same_size fb' fb"
    using apply_tiles_total [OF c(2) assms(3)] by blast
  with c show ?thesis
    by (auto simp: decoder_apply_frame_def decoder_apply_def same_size_def)
qed

text \<open>
  C25. No update a server can put on the wire panics the client: whatever bytes, encodings and
  rectangles the copies and tiles carry (their edges fit 32 bits, which 16-bit wire fields
  guarantee), the client ends with a result and a framebuffer of the same size.
\<close>

theorem decoder_never_panics:
  assumes "fb_wf (dec_fb d)" and "\<forall>c \<in> set copies. copy_wf c" and "\<forall>t \<in> set tiles. rect_wf (tile_rect t)"
  shows "\<exists>d' res. decoder_apply_frame cs copies tiles d = Some (d', res) \<and> fb_wf (dec_fb d') \<and>
    same_size (dec_fb d') (dec_fb d)"
  using assms by (rule decoder_apply_frame_total)

subsection \<open>Instances\<close>

definition two_pixels :: framebuffer where
  "two_pixels = \<lparr>fb_width = 2, fb_height = 1, fb_pixels = [0x112233, 0x445566]\<rparr>"

lemma two_pixels_rgb: "fb_rgb two_pixels"
proof -
  have "visible (px two_pixels x y) = px two_pixels x y" if "x < 2" "y < 1" for x y
    using that by (auto simp: less_2_cases_iff two_pixels_def px_def visible_def rgb_mask_def)
  then show ?thesis by (simp add: fb_rgb_def fb_wf_def two_pixels_def)
qed

lemma encoder_new_wf:
  "w * h < 2 ^ 30 \<Longrightarrow> w + 64 < 2 ^ 32 \<Longrightarrow> h + 64 < 2 ^ 32 \<Longrightarrow> encoder_wf (encoder_new w h)"
  by (simp add: encoder_wf_def encoder_new_def TILE_SIZE_def fb_wf_def fb_new_def fb_bounds_def area_def)

lemma new_in_sync: "w < 2 ^ 32 \<Longrightarrow> h < 2 ^ 32 \<Longrightarrow> in_sync (fb_new w h) (fb_new w h)"
  by (simp add: in_sync_def fb_wf_def fb_new_def)

theorem frame_lockstep_witness:
  "\<exists>e' f d' dirty.
    encode_frame (\<lambda>t. t) run_length_libraries 5 two_pixels [rect_new 0 0 1 1] True (encoder_new 2 1) = Some (e', f) \<and>
    decoder_apply_frame run_length_libraries (fu_copies f) (fu_tiles f) (decoder_new 2 1) = Some (d', Inr dirty) \<and>
    px (dec_fb d') 0 0 = 0x112233"
proof -
  have s: "in_sync (enc_prev (encoder_new 2 1)) (dec_fb (decoder_new 2 1))"
    by (simp add: encoder_new_def decoder_new_def new_in_sync)
  have z: "same_size two_pixels (enc_prev (encoder_new 2 1))"
    by (simp add: two_pixels_def encoder_new_def fb_new_def same_size_def)
  have r: "\<forall>r \<in> set [rect_new 0 0 1 1]. rect_wf r" by (simp add: rect_wf_def)
  have b: "sum_list (map (\<lambda>r. area (on_screen two_pixels r)) [rect_new 0 0 1 1])
      \<le> MAX_FRAME_PIXEL_FACTOR * area (fb_bounds two_pixels)"
    by (simp add: two_pixels_def fb_bounds_def area_def MAX_FRAME_PIXEL_FACTOR_def rect_intersect_def
        right_def bottom_def add32_def sub32_def Let_def rect_default_def)
  have "inside (rect_new 0 0 1 1) 0 0" by (simp add: inside_def)
  moreover have "px two_pixels 0 0 = 0x112233" "0 < fb_width two_pixels" "0 < fb_height two_pixels"
    by (simp_all add: two_pixels_def px_def)
  ultimately show ?thesis
    using frame_lockstep [OF run_length_libraries_ok encoder_new_wf s two_pixels_rgb z r b,
        of "\<lambda>t. t" 5 True] by auto
qed

theorem refresh_resyncs_witness:
  "\<exists>e1 e2 f d' dirty. encoder_invalidate (fb_bounds (enc_prev (encoder_new 2 1))) (encoder_new 2 1) = Some e1 \<and>
    encode_frame (\<lambda>t. t) run_length_libraries 5 two_pixels [fb_bounds two_pixels] False e1 = Some (e2, f) \<and>
    decoder_apply_frame run_length_libraries (fu_copies f) (fu_tiles f)
      \<lparr>dec_fb = \<lparr>fb_width = 2, fb_height = 1, fb_pixels = [7, 8]\<rparr>\<rparr> = Some (d', Inr dirty) \<and> dec_fb d' = two_pixels"
  by (rule refresh_resyncs [OF run_length_libraries_ok encoder_new_wf _ _ _ two_pixels_rgb])
    (simp_all add: fb_wf_def same_size_def two_pixels_def encoder_new_def fb_new_def)

theorem decoder_never_panics_witness:
  "\<exists>d' res. decoder_apply_frame run_length_libraries
      [\<lparr>src_x = 9, src_y = 0, dest = rect_new 0 0 65535 65535\<rparr>]
      [\<lparr>tile_rect = rect_new 0 0 2 1, tile_encoding = PaletteLz4, tile_data = [1, 2, 3]\<rparr>]
      (decoder_new 2 1) = Some (d', res) \<and> fb_wf (dec_fb d') \<and> same_size (dec_fb d') (dec_fb (decoder_new 2 1))"
  by (rule decoder_never_panics)
    (simp_all add: decoder_new_def fb_new_wf copy_wf_def copy_src_def rect_wf_def)

end
