(* ===== verification/Message.thy ===== *)
theory Message
  imports Screen_Codec
begin

text \<open>
  \<open>crates/proto/src/message.rs\<close>: the messages of the protocol, their kind tags and their binary
  encoding, with the limits the decoder enforces. \<open>message_ok\<close> is what a decoder accepts. The
  list elements (copies, tiles, file entries) interpret \<open>sized_field\<close>, and with the primitive
  reads that makes the round trip of every message one simplification.
\<close>

section \<open>Types and limits\<close>

datatype transfer_purpose = ClipboardImage | FileUpload | FileDownload

fun purpose_tag :: "transfer_purpose \<Rightarrow> u8" where
  "purpose_tag ClipboardImage = 0" | "purpose_tag FileUpload = 1" | "purpose_tag FileDownload = 2"

definition purpose_from_u8 :: "u8 \<Rightarrow> transfer_purpose option" where
  "purpose_from_u8 v =
     (if v = 0 then Some ClipboardImage else if v = 1 then Some FileUpload
      else if v = 2 then Some FileDownload else None)"

record file_entry =
  fe_path :: string
  fe_size :: u64

record cursor_image =
  cur_width :: u16
  cur_height :: u16
  hot_x :: u16
  hot_y :: u16
  argb :: "u32 list"

definition CHUNK_SIZE :: nat where "CHUNK_SIZE = 64 * 1024"

definition MAX_TRANSFER_SIZE :: nat where "MAX_TRANSFER_SIZE = 2 * 1024 * 1024 * 1024"

definition MAX_FILE_LIST :: nat where "MAX_FILE_LIST = 4096"

definition MAX_TILES_PER_UPDATE :: nat where "MAX_TILES_PER_UPDATE = 65536"

definition MAX_COPIES_PER_UPDATE :: nat where "MAX_COPIES_PER_UPDATE = 4096"

definition MAX_CURSOR_DIM :: u16 where "MAX_CURSOR_DIM = 256"

definition MAX_SCREEN_DIM :: u16 where "MAX_SCREEN_DIM = 16384"

datatype kind =
    KClientHello
  | KKeyEvent
  | KPointerMotion
  | KPointerButton
  | KScroll
  | KFrameAck
  | KResizeRequest
  | KClipboardText
  | KPong
  | KDisconnect
  | KRefreshRequest
  | KServerHello
  | KRejected
  | KScreenUpdate
  | KScreenResized
  | KCursorShape
  | KCursorPosition
  | KPing
  | KNotice
  | KTransferOffer
  | KTransferAccept
  | KTransferData
  | KTransferAck
  | KTransferEnd
  | KFileRequest
  | KFileList
  | KClipboardOffer
  | KClipboardRequest
  | KTransferOptions
  | KFileDrop
  | KFileDropResult

fun kind_tag :: "kind \<Rightarrow> u8" where
  "kind_tag KClientHello = 1"
| "kind_tag KKeyEvent = 2"
| "kind_tag KPointerMotion = 3"
| "kind_tag KPointerButton = 4"
| "kind_tag KScroll = 5"
| "kind_tag KFrameAck = 6"
| "kind_tag KResizeRequest = 7"
| "kind_tag KClipboardText = 8"
| "kind_tag KPong = 9"
| "kind_tag KDisconnect = 10"
| "kind_tag KRefreshRequest = 11"
| "kind_tag KServerHello = 32"
| "kind_tag KRejected = 33"
| "kind_tag KScreenUpdate = 34"
| "kind_tag KScreenResized = 35"
| "kind_tag KCursorShape = 36"
| "kind_tag KCursorPosition = 37"
| "kind_tag KPing = 38"
| "kind_tag KNotice = 39"
| "kind_tag KTransferOffer = 64"
| "kind_tag KTransferAccept = 65"
| "kind_tag KTransferData = 66"
| "kind_tag KTransferAck = 67"
| "kind_tag KTransferEnd = 68"
| "kind_tag KFileRequest = 69"
| "kind_tag KFileList = 70"
| "kind_tag KClipboardOffer = 71"
| "kind_tag KClipboardRequest = 72"
| "kind_tag KTransferOptions = 129"
| "kind_tag KFileDrop = 130"
| "kind_tag KFileDropResult = 131"

definition kind_from_u8 :: "u8 \<Rightarrow> decode_error + kind" where
  "kind_from_u8 v =
     (if v = 1 then Inr KClientHello
      else if v = 2 then Inr KKeyEvent
      else if v = 3 then Inr KPointerMotion
      else if v = 4 then Inr KPointerButton
      else if v = 5 then Inr KScroll
      else if v = 6 then Inr KFrameAck
      else if v = 7 then Inr KResizeRequest
      else if v = 8 then Inr KClipboardText
      else if v = 9 then Inr KPong
      else if v = 10 then Inr KDisconnect
      else if v = 11 then Inr KRefreshRequest
      else if v = 32 then Inr KServerHello
      else if v = 33 then Inr KRejected
      else if v = 34 then Inr KScreenUpdate
      else if v = 35 then Inr KScreenResized
      else if v = 36 then Inr KCursorShape
      else if v = 37 then Inr KCursorPosition
      else if v = 38 then Inr KPing
      else if v = 39 then Inr KNotice
      else if v = 64 then Inr KTransferOffer
      else if v = 65 then Inr KTransferAccept
      else if v = 66 then Inr KTransferData
      else if v = 67 then Inr KTransferAck
      else if v = 68 then Inr KTransferEnd
      else if v = 69 then Inr KFileRequest
      else if v = 70 then Inr KFileList
      else if v = 71 then Inr KClipboardOffer
      else if v = 72 then Inr KClipboardRequest
      else if v = 129 then Inr KTransferOptions
      else if v = 130 then Inr KFileDrop
      else if v = 131 then Inr KFileDropResult
      else Inl (InvalidTag (ucast v)))"

datatype message =
    ClientHello u16 string u32 u16 u16
  | ServerHello u16 string u32 u64 string u16 u16
  | Rejected u16 string
  | KeyEvent u32 bool
  | PointerMotion u16 u16
  | PointerButton u8 bool
  | Scroll i16 i16
  | FrameAck u64
  | ResizeRequest u16 u16
  | ClipboardText string
  | Ping u64
  | Pong u64
  | Disconnect string
  | RefreshRequest
  | ScreenUpdate u64 "copy_rect list" "tile_update list"
  | ScreenResized u16 u16
  | CursorShape cursor_image
  | CursorPosition u16 u16
  | Notice string
  | TransferOffer u64 transfer_purpose string u64
  | TransferAccept u64 bool string
  | TransferData u64 u32 "u8 list"
  | TransferAck u64 u32
  | TransferEnd u64 bool string
  | TransferOptions u64 bool
  | FileRequest u64 string
  | FileList u64 "file_entry list"
  | FileDrop u64 u16 u16 "file_entry list"
  | FileDropResult u64 bool string
  | ClipboardOffer u32
  | ClipboardRequest u32

fun msg_kind :: "message \<Rightarrow> kind" where
  "msg_kind (ClientHello _ _ _ _ _) = KClientHello"
| "msg_kind (ServerHello _ _ _ _ _ _ _) = KServerHello"
| "msg_kind (Rejected _ _) = KRejected"
| "msg_kind (KeyEvent _ _) = KKeyEvent"
| "msg_kind (PointerMotion _ _) = KPointerMotion"
| "msg_kind (PointerButton _ _) = KPointerButton"
| "msg_kind (Scroll _ _) = KScroll"
| "msg_kind (FrameAck _) = KFrameAck"
| "msg_kind (ResizeRequest _ _) = KResizeRequest"
| "msg_kind (ClipboardText _) = KClipboardText"
| "msg_kind (Ping _) = KPing"
| "msg_kind (Pong _) = KPong"
| "msg_kind (Disconnect _) = KDisconnect"
| "msg_kind RefreshRequest = KRefreshRequest"
| "msg_kind (ScreenUpdate _ _ _) = KScreenUpdate"
| "msg_kind (ScreenResized _ _) = KScreenResized"
| "msg_kind (CursorShape _) = KCursorShape"
| "msg_kind (CursorPosition _ _) = KCursorPosition"
| "msg_kind (Notice _) = KNotice"
| "msg_kind (TransferOffer _ _ _ _) = KTransferOffer"
| "msg_kind (TransferAccept _ _ _) = KTransferAccept"
| "msg_kind (TransferData _ _ _) = KTransferData"
| "msg_kind (TransferAck _ _) = KTransferAck"
| "msg_kind (TransferEnd _ _ _) = KTransferEnd"
| "msg_kind (TransferOptions _ _) = KTransferOptions"
| "msg_kind (FileRequest _ _) = KFileRequest"
| "msg_kind (FileList _ _) = KFileList"
| "msg_kind (FileDrop _ _ _ _) = KFileDrop"
| "msg_kind (FileDropResult _ _ _) = KFileDropResult"
| "msg_kind (ClipboardOffer _) = KClipboardOffer"
| "msg_kind (ClipboardRequest _) = KClipboardRequest"

section \<open>Encoding\<close>

definition w_copy :: "copy_rect \<Rightarrow> writer \<Rightarrow> writer" where
  "w_copy c = w_seq [w_u16 (of_nat (src_x c)), w_u16 (of_nat (src_y c)), w_u16 (of_nat (rx (dest c))),
     w_u16 (of_nat (ry (dest c))), w_u16 (of_nat (rwidth (dest c))), w_u16 (of_nat (rheight (dest c)))]"

definition w_tile :: "tile_update \<Rightarrow> writer \<Rightarrow> writer" where
  "w_tile t = w_seq [w_u16 (of_nat (rx (tile_rect t))), w_u16 (of_nat (ry (tile_rect t))),
     w_u16 (of_nat (rwidth (tile_rect t))), w_u16 (of_nat (rheight (tile_rect t))),
     w_u8 (tile_encoding_tag (tile_encoding t)), w_bytes (tile_data t)]"

definition w_file :: "file_entry \<Rightarrow> writer \<Rightarrow> writer" where
  "w_file f = w_seq [w_text (fe_path f), w_u64 (fe_size f)]"

fun encode_payload :: "message \<Rightarrow> writer \<Rightarrow> writer" where
  "encode_payload (ClientHello version client_name features width height) =
     w_seq [w_u16 version, w_text client_name, w_u32 features, w_u16 width, w_u16 height]"
| "encode_payload (ServerHello version server_name features session_id username width height) =
     w_seq [w_u16 version, w_text server_name, w_u32 features, w_u64 session_id, w_text username,
            w_u16 width, w_u16 height]"
| "encode_payload (Rejected code reason) = w_seq [w_u16 code, w_text reason]"
| "encode_payload (KeyEvent keysym down) = w_seq [w_u32 keysym, w_bool down]"
| "encode_payload (PointerMotion x y) = w_seq [w_u16 x, w_u16 y]"
| "encode_payload (PointerButton button down) = w_seq [w_u8 button, w_bool down]"
| "encode_payload (Scroll dx dy) = w_seq [w_i16 dx, w_i16 dy]"
| "encode_payload (FrameAck frame_id) = w_seq [w_u64 frame_id]"
| "encode_payload (ResizeRequest width height) = w_seq [w_u16 width, w_u16 height]"
| "encode_payload (ClipboardText t) = w_seq [w_string t]"
| "encode_payload (Ping nonce) = w_seq [w_u64 nonce]"
| "encode_payload (Pong nonce) = w_seq [w_u64 nonce]"
| "encode_payload (Disconnect reason) = w_seq [w_text reason]"
| "encode_payload RefreshRequest = w_seq []"
| "encode_payload (ScreenUpdate frame_id copies tiles) =
     w_seq [w_u64 frame_id, w_u32 (of_nat (length copies)), fold w_copy copies,
            w_u32 (of_nat (length tiles)), fold w_tile tiles]"
| "encode_payload (ScreenResized width height) = w_seq [w_u16 width, w_u16 height]"
| "encode_payload (CursorShape c) =
     w_seq [w_u16 (cur_width c), w_u16 (cur_height c), w_u16 (hot_x c), w_u16 (hot_y c),
            w_u32 (of_nat (length (argb c))), fold w_u32 (argb c)]"
| "encode_payload (CursorPosition x y) = w_seq [w_u16 x, w_u16 y]"
| "encode_payload (Notice t) = w_seq [w_text t]"
| "encode_payload (TransferOffer i purpose name sz) =
     w_seq [w_u64 i, w_u8 (purpose_tag purpose), w_text name, w_u64 sz]"
| "encode_payload (TransferAccept i accepted reason) =
     w_seq [w_u64 i, w_bool accepted, w_text reason]"
| "encode_payload (TransferData i seq data) = w_seq [w_u64 i, w_u32 seq, w_bytes data]"
| "encode_payload (TransferAck i seq) = w_seq [w_u64 i, w_u32 seq]"
| "encode_payload (TransferEnd i ok msg) = w_seq [w_u64 i, w_bool ok, w_text msg]"
| "encode_payload (TransferOptions i replace) = w_seq [w_u64 i, w_bool replace]"
| "encode_payload (FileRequest i path) = w_seq [w_u64 i, w_text path]"
| "encode_payload (FileList i files) =
     w_seq [w_u64 i, w_u32 (of_nat (length files)), fold w_file files]"
| "encode_payload (FileDrop i x y files) =
     w_seq [w_u64 i, w_u16 x, w_u16 y, w_u32 (of_nat (length files)), fold w_file files]"
| "encode_payload (FileDropResult i ok reason) = w_seq [w_u64 i, w_bool ok, w_text reason]"
| "encode_payload (ClipboardOffer formats) = w_seq [w_u32 formats]"
| "encode_payload (ClipboardRequest format) = w_seq [w_u32 format]"

definition encode_into :: "message \<Rightarrow> writer \<Rightarrow> writer" where
  "encode_into m w = encode_payload m (w_u8 (kind_tag (msg_kind m)) w)"

definition encode :: "message \<Rightarrow> u8 list" where
  "encode m = encode_into m []"

section \<open>Decoding\<close>

text \<open>
  An element count: refused above \<open>mx\<close>, and refused early when the elements, of at least
  \<open>width\<close> bytes each, cannot fit in what is left.
\<close>

definition rd_count :: "nat \<Rightarrow> nat \<Rightarrow> nat rd" where
  "rd_count mx width = rd_bind rd_u32 (\<lambda>n r.
     if mx < unat n then Inl (LengthTooLarge (unat n))
     else if remaining r < unat n * width then Inl (UnexpectedEof (unat n * width) (remaining r))
     else Inr (unat n, r))"

definition rd_copy :: "copy_rect rd" where
  "rd_copy = rd_bind rd_u16 (\<lambda>sx. rd_bind rd_u16 (\<lambda>sy. rd_bind rd_u16 (\<lambda>x. rd_bind rd_u16 (\<lambda>y.
     rd_bind rd_u16 (\<lambda>width. rd_bind rd_u16 (\<lambda>height.
     if width = 0 \<or> height = 0 then rd_fail (InvalidValue ''copy size'')
     else rd_return \<lparr>src_x = unat sx, src_y = unat sy,
            dest = rect_new (unat x) (unat y) (unat width) (unat height)\<rparr>))))))"

definition rd_tile :: "tile_update rd" where
  "rd_tile = rd_bind rd_u16 (\<lambda>x. rd_bind rd_u16 (\<lambda>y. rd_bind rd_u16 (\<lambda>width. rd_bind rd_u16 (\<lambda>height.
     if width = 0 \<or> height = 0 then rd_fail (InvalidValue ''tile size'')
     else rd_bind rd_u8 (\<lambda>tag. rd_bind (rd_lift (tile_encoding_from_u8 tag)) (\<lambda>encoding.
       rd_bind rd_bytes (\<lambda>data.
       rd_return \<lparr>tile_rect = rect_new (unat x) (unat y) (unat width) (unat height),
                  tile_encoding = encoding, tile_data = data\<rparr>)))))))"

definition rd_file :: "file_entry rd" where
  "rd_file = rd_bind rd_text (\<lambda>path. rd_bind rd_u64 (\<lambda>size.
     rd_return \<lparr>fe_path = path, fe_size = size\<rparr>))"

definition decode_server_hello :: "message rd" where
  "decode_server_hello =
     rd_bind rd_u16 (\<lambda>version. rd_bind rd_text (\<lambda>server_name. rd_bind rd_u32 (\<lambda>features.
     rd_bind rd_u64 (\<lambda>session_id. rd_bind rd_text (\<lambda>username.
     rd_bind rd_u16 (\<lambda>width. rd_bind rd_u16 (\<lambda>height.
     if MAX_SCREEN_DIM < width \<or> MAX_SCREEN_DIM < height then rd_fail (InvalidValue ''screen size'')
     else rd_return (ServerHello version server_name features session_id username width height))))))))"

definition decode_screen_update :: "message rd" where
  "decode_screen_update =
     rd_bind rd_u64 (\<lambda>frame_id.
     rd_bind (rd_count MAX_COPIES_PER_UPDATE 12) (\<lambda>n_copies.
     rd_bind (rd_repeat n_copies rd_copy) (\<lambda>copies.
     rd_bind (rd_count MAX_TILES_PER_UPDATE 13) (\<lambda>n.
     rd_bind (rd_repeat n rd_tile) (\<lambda>tiles.
     rd_return (ScreenUpdate frame_id copies tiles))))))"

definition decode_screen_resized :: "message rd" where
  "decode_screen_resized =
     rd_bind rd_u16 (\<lambda>width. rd_bind rd_u16 (\<lambda>height.
     if MAX_SCREEN_DIM < width \<or> MAX_SCREEN_DIM < height then rd_fail (InvalidValue ''screen size'')
     else rd_return (ScreenResized width height)))"

definition decode_cursor_shape :: "message rd" where
  "decode_cursor_shape =
     rd_bind rd_u16 (\<lambda>width. rd_bind rd_u16 (\<lambda>height. rd_bind rd_u16 (\<lambda>hx. rd_bind rd_u16 (\<lambda>hy.
     if MAX_CURSOR_DIM < width \<or> MAX_CURSOR_DIM < height then rd_fail (InvalidValue ''cursor size'')
     else rd_bind rd_u32 (\<lambda>n.
       if unat n \<noteq> unat width * unat height then rd_fail (InvalidValue ''cursor pixel count'')
       else rd_bind (rd_repeat (unat n) rd_u32) (\<lambda>pixels.
         rd_return (CursorShape \<lparr>cur_width = width, cur_height = height, hot_x = hx, hot_y = hy,
                                 argb = pixels\<rparr>)))))))"

definition decode_transfer_offer :: "message rd" where
  "decode_transfer_offer =
     rd_bind rd_u64 (\<lambda>i. rd_bind rd_u8 (\<lambda>tag.
     case purpose_from_u8 tag of
       None \<Rightarrow> rd_fail (InvalidValue ''transfer purpose'')
     | Some purpose \<Rightarrow> rd_bind rd_text (\<lambda>name. rd_bind rd_u64 (\<lambda>size.
         if MAX_TRANSFER_SIZE < unat size then rd_fail (InvalidValue ''transfer size'')
         else rd_return (TransferOffer i purpose name size)))))"

definition decode_transfer_data :: "message rd" where
  "decode_transfer_data =
     rd_bind rd_u64 (\<lambda>i. rd_bind rd_u32 (\<lambda>seq. rd_bind rd_bytes (\<lambda>data.
     if CHUNK_SIZE < length data then rd_fail (InvalidValue ''transfer chunk size'')
     else rd_return (TransferData i seq data))))"

definition decode_file_list :: "message rd" where
  "decode_file_list =
     rd_bind rd_u64 (\<lambda>i. rd_bind (rd_count MAX_FILE_LIST 12) (\<lambda>n.
     rd_bind (rd_repeat n rd_file) (\<lambda>files. rd_return (FileList i files))))"

definition decode_file_drop :: "message rd" where
  "decode_file_drop =
     rd_bind rd_u64 (\<lambda>i. rd_bind rd_u16 (\<lambda>x. rd_bind rd_u16 (\<lambda>y.
     rd_bind (rd_count MAX_FILE_LIST 12) (\<lambda>n.
     rd_bind (rd_repeat n rd_file) (\<lambda>files. rd_return (FileDrop i x y files))))))"

fun decode_payload :: "kind \<Rightarrow> message rd" where
  "decode_payload KClientHello =
     rd_bind rd_u16 (\<lambda>version. rd_bind rd_text (\<lambda>client_name.
     rd_bind rd_u32 (\<lambda>features. rd_bind rd_u16 (\<lambda>width.
     rd_bind rd_u16 (\<lambda>height.
     rd_return (ClientHello version client_name features width height))))))"
| "decode_payload KServerHello = decode_server_hello"
| "decode_payload KRejected =
     rd_bind rd_u16 (\<lambda>code. rd_bind rd_text (\<lambda>reason.
     rd_return (Rejected code reason)))"
| "decode_payload KKeyEvent =
     rd_bind rd_u32 (\<lambda>keysym. rd_bind rd_bool (\<lambda>down.
     rd_return (KeyEvent keysym down)))"
| "decode_payload KPointerMotion =
     rd_bind rd_u16 (\<lambda>x. rd_bind rd_u16 (\<lambda>y. rd_return (PointerMotion x y)))"
| "decode_payload KPointerButton =
     rd_bind rd_u8 (\<lambda>button. rd_bind rd_bool (\<lambda>down.
     rd_return (PointerButton button down)))"
| "decode_payload KScroll =
     rd_bind rd_i16 (\<lambda>dx. rd_bind rd_i16 (\<lambda>dy. rd_return (Scroll dx dy)))"
| "decode_payload KFrameAck = rd_bind rd_u64 (\<lambda>frame_id. rd_return (FrameAck frame_id))"
| "decode_payload KResizeRequest =
     rd_bind rd_u16 (\<lambda>width. rd_bind rd_u16 (\<lambda>height.
     rd_return (ResizeRequest width height)))"
| "decode_payload KClipboardText = rd_bind rd_string (\<lambda>t. rd_return (ClipboardText t))"
| "decode_payload KPing = rd_bind rd_u64 (\<lambda>nonce. rd_return (Ping nonce))"
| "decode_payload KPong = rd_bind rd_u64 (\<lambda>nonce. rd_return (Pong nonce))"
| "decode_payload KDisconnect = rd_bind rd_text (\<lambda>reason. rd_return (Disconnect reason))"
| "decode_payload KRefreshRequest = rd_return RefreshRequest"
| "decode_payload KScreenUpdate = decode_screen_update"
| "decode_payload KScreenResized = decode_screen_resized"
| "decode_payload KCursorShape = decode_cursor_shape"
| "decode_payload KCursorPosition =
     rd_bind rd_u16 (\<lambda>x. rd_bind rd_u16 (\<lambda>y. rd_return (CursorPosition x y)))"
| "decode_payload KNotice = rd_bind rd_text (\<lambda>t. rd_return (Notice t))"
| "decode_payload KTransferOffer = decode_transfer_offer"
| "decode_payload KTransferAccept =
     rd_bind rd_u64 (\<lambda>i. rd_bind rd_bool (\<lambda>accepted.
     rd_bind rd_text (\<lambda>reason. rd_return (TransferAccept i accepted reason))))"
| "decode_payload KTransferData = decode_transfer_data"
| "decode_payload KTransferAck =
     rd_bind rd_u64 (\<lambda>i. rd_bind rd_u32 (\<lambda>seq. rd_return (TransferAck i seq)))"
| "decode_payload KTransferEnd =
     rd_bind rd_u64 (\<lambda>i. rd_bind rd_bool (\<lambda>ok. rd_bind rd_text (\<lambda>msg.
     rd_return (TransferEnd i ok msg))))"
| "decode_payload KTransferOptions =
     rd_bind rd_u64 (\<lambda>i. rd_bind rd_bool (\<lambda>replace.
     rd_return (TransferOptions i replace)))"
| "decode_payload KFileRequest =
     rd_bind rd_u64 (\<lambda>i. rd_bind rd_text (\<lambda>path.
     rd_return (FileRequest i path)))"
| "decode_payload KFileList = decode_file_list"
| "decode_payload KFileDrop = decode_file_drop"
| "decode_payload KFileDropResult =
     rd_bind rd_u64 (\<lambda>i. rd_bind rd_bool (\<lambda>ok. rd_bind rd_text (\<lambda>reason.
     rd_return (FileDropResult i ok reason))))"
| "decode_payload KClipboardOffer =
     rd_bind rd_u32 (\<lambda>formats. rd_return (ClipboardOffer formats))"
| "decode_payload KClipboardRequest =
     rd_bind rd_u32 (\<lambda>format. rd_return (ClipboardRequest format))"

definition decode :: "u8 list \<Rightarrow> decode_error + message" where
  "decode bytes =
     bindE (rd_u8 (rd_new bytes)) (\<lambda>(tag, r).
     bindE (kind_from_u8 tag) (\<lambda>kind.
     bindE (decode_payload kind r) (\<lambda>(msg, r).
     bindE (rd_finish r) (\<lambda>_. Inr msg))))"

section \<open>The elements of lists\<close>

definition coord16 :: "nat \<Rightarrow> bool" where "coord16 n \<longleftrightarrow> n < 65536"

definition rect_ok :: "rect \<Rightarrow> bool" where
  "rect_ok r \<longleftrightarrow> coord16 (rx r) \<and> coord16 (ry r) \<and> coord16 (rwidth r) \<and> coord16 (rheight r) \<and>
     \<not> rect_is_empty r"

definition copy_ok :: "copy_rect \<Rightarrow> bool" where
  "copy_ok c \<longleftrightarrow> coord16 (src_x c) \<and> coord16 (src_y c) \<and> rect_ok (dest c)"

definition tile_ok :: "tile_update \<Rightarrow> bool" where
  "tile_ok t \<longleftrightarrow> rect_ok (tile_rect t) \<and> length (tile_data t) \<le> MAX_BLOB_LEN"

definition file_ok :: "file_entry \<Rightarrow> bool" where
  "file_ok f \<longleftrightarrow> text_ok (fe_path f)"

definition enc_copy :: "copy_rect \<Rightarrow> u8 list" where "enc_copy c = w_copy c []"

definition enc_tile_bytes :: "tile_update \<Rightarrow> u8 list" where "enc_tile_bytes t = w_tile t []"

definition enc_file :: "file_entry \<Rightarrow> u8 list" where "enc_file f = w_file f []"

lemma unat_u16 [simp]: "coord16 n \<Longrightarrow> unat (of_nat n :: u16) = n"
  by (simp add: coord16_def unat_of_nat)

lemma u16_zero_iff: "coord16 n \<Longrightarrow> (of_nat n :: u16) = 0 \<longleftrightarrow> n = 0"
  using unat_u16 [of n] unat_0 [where 'a = 16] unfolding word_unat_eq_iff by presburger

lemma coord16_unat [simp]: "coord16 (unat (v :: u16))"
  using unsigned_less [of v] by (simp add: coord16_def)

lemma rd_lift_Inr_iff: "rd_lift m r = Inr (x, s) \<longleftrightarrow> m = Inr x \<and> s = r"
  by (cases m) (auto simp: rd_lift_def)

lemma unat_pos16: "(v :: u16) \<noteq> 0 \<Longrightarrow> 0 < unat v"
  by (simp add: unat_gt_0)

interpretation copies: sized_field w_copy enc_copy rd_copy copy_ok 12
proof unfold_locales
  show "w_copy c w = w @ enc_copy c" for c w
    by (simp add: enc_copy_def w_copy_def wire_simps)
  show "rd_copy (rd_at pre (enc_copy c @ t)) = Inr (c, rd_at (pre @ enc_copy c) t)" if "copy_ok c" for c pre t
    using that by (simp add: rd_copy_def enc_copy_def w_copy_def wire_simps copy_ok_def rect_ok_def
        rect_is_empty_def u16_zero_iff rect_eta)
  show "copy_ok c" if "rd_copy r = Inr (c, r')" for r c r'
    using that by (auto simp: rd_copy_def rd_bind_Inr_iff rd_fail_def rd_return_def copy_ok_def rect_ok_def
        rect_is_empty_def unat_pos16 split: if_splits)
  show "12 \<le> length (enc_copy c)" for c
    by (simp add: enc_copy_def w_copy_def wire_simps)
qed

interpretation tiles: sized_field w_tile enc_tile_bytes rd_tile tile_ok 13
proof unfold_locales
  show "w_tile c w = w @ enc_tile_bytes c" for c w
    by (simp add: enc_tile_bytes_def w_tile_def wire_simps)
  show "rd_tile (rd_at pre (enc_tile_bytes c @ t)) = Inr (c, rd_at (pre @ enc_tile_bytes c) t)"
    if "tile_ok c" for c pre t
    using that by (simp add: rd_tile_def enc_tile_bytes_def w_tile_def wire_simps tile_ok_def rect_ok_def
        rect_is_empty_def u16_zero_iff rect_eta)
  show "tile_ok c" if "rd_tile r = Inr (c, r')" for r c r'
    using that by (auto simp: rd_tile_def rd_bind_Inr_iff rd_lift_Inr_iff rd_fail_def rd_return_def tile_ok_def
        rect_ok_def rect_is_empty_def unat_pos16 split: if_splits dest: rd_bytes_ok)
  show "13 \<le> length (enc_tile_bytes c)" for c
    by (simp add: enc_tile_bytes_def w_tile_def wire_simps length_enc_bytes)
qed

interpretation files: sized_field w_file enc_file rd_file file_ok 12
proof unfold_locales
  show "w_file c w = w @ enc_file c" for c w
    by (simp add: enc_file_def w_file_def wire_simps)
  show "rd_file (rd_at pre (enc_file c @ t)) = Inr (c, rd_at (pre @ enc_file c) t)" if "file_ok c" for c pre t
    using that by (simp add: rd_file_def enc_file_def w_file_def wire_simps file_ok_def)
  show "file_ok c" if "rd_file r = Inr (c, r')" for r c r'
    using that by (auto simp: rd_file_def rd_bind_Inr_iff rd_return_def file_ok_def dest: wtext.get_ok)
  show "12 \<le> length (enc_file c)" for c
    using length_enc_text_ge [of "fe_path c"] by (simp add: enc_file_def w_file_def wire_simps)
qed

section \<open>What a decoder accepts\<close>

definition dims_ok :: "u16 \<Rightarrow> u16 \<Rightarrow> bool" where
  "dims_ok w h \<longleftrightarrow> w \<le> MAX_SCREEN_DIM \<and> h \<le> MAX_SCREEN_DIM"

definition cursor_ok :: "cursor_image \<Rightarrow> bool" where
  "cursor_ok c \<longleftrightarrow> cur_width c \<le> MAX_CURSOR_DIM \<and> cur_height c \<le> MAX_CURSOR_DIM \<and>
     length (argb c) = unat (cur_width c) * unat (cur_height c)"

definition files_ok :: "file_entry list \<Rightarrow> bool" where
  "files_ok fs \<longleftrightarrow> length fs \<le> MAX_FILE_LIST \<and> (\<forall>f \<in> set fs. file_ok f)"

fun message_ok :: "message \<Rightarrow> bool" where
  "message_ok (ClientHello version client_name features width height) = text_ok client_name"
| "message_ok (ServerHello version server_name features session_id username width height) =
     (text_ok server_name \<and> text_ok username \<and> dims_ok width height)"
| "message_ok (Rejected code reason) = text_ok reason"
| "message_ok (ClipboardText t) = string_ok t"
| "message_ok (Disconnect reason) = text_ok reason"
| "message_ok (ScreenUpdate frame_id copies tiles) =
     (length copies \<le> MAX_COPIES_PER_UPDATE \<and> length tiles \<le> MAX_TILES_PER_UPDATE \<and>
      (\<forall>c \<in> set copies. copy_ok c) \<and> (\<forall>t \<in> set tiles. tile_ok t))"
| "message_ok (ScreenResized width height) = dims_ok width height"
| "message_ok (CursorShape c) = cursor_ok c"
| "message_ok (Notice t) = text_ok t"
| "message_ok (TransferOffer i purpose name sz) = (text_ok name \<and> unat sz \<le> MAX_TRANSFER_SIZE)"
| "message_ok (TransferAccept i accepted reason) = text_ok reason"
| "message_ok (TransferData i seq data) = (length data \<le> CHUNK_SIZE)"
| "message_ok (TransferEnd i ok msg) = text_ok msg"
| "message_ok (FileRequest i path) = text_ok path"
| "message_ok (FileList i files) = files_ok files"
| "message_ok (FileDrop i x y files) = files_ok files"
| "message_ok (FileDropResult i ok reason) = text_ok reason"
| "message_ok _ = True"

lemma kind_from_tag [simp]: "kind_from_u8 (kind_tag k) = Inr k"
  by (cases k) (simp_all add: kind_from_u8_def)

lemma purpose_from_tag [simp]: "purpose_from_u8 (purpose_tag p) = Some p"
  by (cases p) (simp_all add: purpose_from_u8_def)

lemma fold_elements [wire_simps]:
  "fold w_copy cs w = w @ concat (map enc_copy cs)"
  "fold w_tile ts w = w @ concat (map enc_tile_bytes ts)"
  "fold w_file fs w = w @ concat (map enc_file fs)"
  "fold w_u32 ns w = w @ concat (map (le_bytes 4) ns)"
  by (simp_all add: copies.put_list tiles.put_list files.put_list wu32.put_list)

lemma encode_payload_append: "encode_payload m w = w @ encode_payload m []"
  by (cases m) (simp_all add: wire_simps)

lemma rd_count_at:
  "n \<le> mx \<Longrightarrow> mx < 2 ^ 32 \<Longrightarrow> n * width \<le> length t \<Longrightarrow>
     rd_count mx width (rd_at pre (le_bytes 4 (of_nat n :: u32) @ t)) =
       Inr (n, rd_at (pre @ le_bytes 4 (of_nat n :: u32)) t)"
  by (simp add: rd_count_def wire_simps unat_of_nat_u32)

lemma rd_count_Inr: "rd_count mx width r = Inr (n, r') \<Longrightarrow> n \<le> mx"
  by (auto simp: rd_count_def rd_bind_Inr_iff split: if_splits)

lemma counted_lists:
  "length cs \<le> MAX_COPIES_PER_UPDATE \<Longrightarrow>
     rd_count MAX_COPIES_PER_UPDATE 12 (rd_at pre (le_bytes 4 (of_nat (length cs) :: u32) @ concat (map enc_copy cs) @ t)) =
       Inr (length cs, rd_at (pre @ le_bytes 4 (of_nat (length cs) :: u32)) (concat (map enc_copy cs) @ t))"
  "length ts \<le> MAX_TILES_PER_UPDATE \<Longrightarrow>
     rd_count MAX_TILES_PER_UPDATE 13 (rd_at pre (le_bytes 4 (of_nat (length ts) :: u32) @ concat (map enc_tile_bytes ts) @ t)) =
       Inr (length ts, rd_at (pre @ le_bytes 4 (of_nat (length ts) :: u32)) (concat (map enc_tile_bytes ts) @ t))"
  "length fs \<le> MAX_FILE_LIST \<Longrightarrow>
     rd_count MAX_FILE_LIST 12 (rd_at pre (le_bytes 4 (of_nat (length fs) :: u32) @ concat (map enc_file fs) @ t)) =
       Inr (length fs, rd_at (pre @ le_bytes 4 (of_nat (length fs) :: u32)) (concat (map enc_file fs) @ t))"
proof -
  have "length cs * 12 \<le> length (concat (map enc_copy cs) @ t)"
    using copies.width_list [of cs] by simp
  then show "length cs \<le> MAX_COPIES_PER_UPDATE \<Longrightarrow>
     rd_count MAX_COPIES_PER_UPDATE 12 (rd_at pre (le_bytes 4 (of_nat (length cs) :: u32) @ concat (map enc_copy cs) @ t)) =
       Inr (length cs, rd_at (pre @ le_bytes 4 (of_nat (length cs) :: u32)) (concat (map enc_copy cs) @ t))"
    by (intro rd_count_at) (simp_all add: MAX_COPIES_PER_UPDATE_def)
  have "length ts * 13 \<le> length (concat (map enc_tile_bytes ts) @ t)"
    using tiles.width_list [of ts] by simp
  then show "length ts \<le> MAX_TILES_PER_UPDATE \<Longrightarrow>
     rd_count MAX_TILES_PER_UPDATE 13 (rd_at pre (le_bytes 4 (of_nat (length ts) :: u32) @ concat (map enc_tile_bytes ts) @ t)) =
       Inr (length ts, rd_at (pre @ le_bytes 4 (of_nat (length ts) :: u32)) (concat (map enc_tile_bytes ts) @ t))"
    by (intro rd_count_at) (simp_all add: MAX_TILES_PER_UPDATE_def)
  have "length fs * 12 \<le> length (concat (map enc_file fs) @ t)"
    using files.width_list [of fs] by simp
  then show "length fs \<le> MAX_FILE_LIST \<Longrightarrow>
     rd_count MAX_FILE_LIST 12 (rd_at pre (le_bytes 4 (of_nat (length fs) :: u32) @ concat (map enc_file fs) @ t)) =
       Inr (length fs, rd_at (pre @ le_bytes 4 (of_nat (length fs) :: u32)) (concat (map enc_file fs) @ t))"
    by (intro rd_count_at) (simp_all add: MAX_FILE_LIST_def)
qed

lemmas list_reads = counted_lists counted_lists [where t = "[]", simplified]
  copies.get_list tiles.get_list files.get_list wu32.get_list
  tiles.get_list [where t = "[]", simplified] files.get_list [where t = "[]", simplified]
  wu32.get_list [where t = "[]", simplified]

text \<open>The reads at the end of the input, where nothing follows.\<close>

lemmas field_reads_end [wire_simps] =
  field_reads [where t = "[]", simplified]

lemma cursor_count:
  assumes "cursor_ok c"
  shows "unat (of_nat (length (argb c)) :: u32) = unat (cur_width c) * unat (cur_height c)"
proof -
  have "unat (cur_width c) \<le> 256" "unat (cur_height c) \<le> 256"
    using assms by (auto simp: cursor_ok_def MAX_CURSOR_DIM_def word_le_nat_alt)
  then have "unat (cur_width c) * unat (cur_height c) \<le> 256 * 256" by (rule mult_le_mono)
  moreover have len: "length (argb c) = unat (cur_width c) * unat (cur_height c)"
    using assms by (simp add: cursor_ok_def)
  ultimately have "length (argb c) < 2 ^ 32" by simp
  then have "unat (of_nat (length (argb c)) :: u32) = length (argb c)" by (rule unat_of_nat_u32)
  then show ?thesis by (simp only: len)
qed

lemma decode_payload_encoded:
  "message_ok m \<Longrightarrow> decode_payload (msg_kind m) (rd_at pre (encode_payload m [])) =
     Inr (m, rd_at (pre @ encode_payload m []) [])"
proof (cases m)
  case (CursorShape c)
  assume "message_ok m"
  then have ok: "cursor_ok c" using CursorShape by simp
  then have dims: "\<not> MAX_CURSOR_DIM < cur_width c" "\<not> MAX_CURSOR_DIM < cur_height c"
    "length (argb c) = unat (cur_width c) * unat (cur_height c)"
    by (auto simp: cursor_ok_def)
  have pixels: "rd_repeat (unat (cur_width c) * unat (cur_height c)) rd_u32
      (rd_at pre (concat (map (le_bytes 4) (argb c)))) = Inr (argb c, rd_at (pre @ concat (map (le_bytes 4) (argb c))) [])" for pre
    using wu32.get_list [of "argb c" pre "[]"] dims(3) by simp
  show ?thesis
    by (simp add: CursorShape decode_cursor_shape_def wire_simps dims(1,2) cursor_count [OF ok] pixels)
qed (simp_all add: wire_simps list_reads decode_server_hello_def decode_screen_update_def
    decode_screen_resized_def decode_transfer_offer_def decode_transfer_data_def decode_file_list_def
    decode_file_drop_def dims_ok_def files_ok_def not_less MAX_BLOB_LEN_def CHUNK_SIZE_def)

lemma decode_encode: "message_ok m \<Longrightarrow> decode (encode m) = Inr m"
proof -
  assume ok: "message_ok m"
  have "encode m = kind_tag (msg_kind m) # encode_payload m []"
    using encode_payload_append [of m "[kind_tag (msg_kind m)]"]
    by (simp add: encode_def encode_into_def wire_simps)
  moreover have "rd_u8 (rd_new (kind_tag (msg_kind m) # encode_payload m [])) =
      Inr (kind_tag (msg_kind m), rd_at [kind_tag (msg_kind m)] (encode_payload m []))"
    using rd_u8_at [of "[]" "kind_tag (msg_kind m)" "encode_payload m []"] by (simp add: rd_new_at)
  ultimately show ?thesis
    using decode_payload_encoded [OF ok] by (simp add: decode_def rd_finish_at)
qed

lemma decode_payload_ok: "decode_payload k r = Inr (m, r') \<Longrightarrow> message_ok m \<and> msg_kind m = k"
  by (cases k)
    (auto simp: rd_bind_Inr_iff rd_return_def rd_fail_def decode_server_hello_def decode_screen_update_def
      decode_screen_resized_def decode_cursor_shape_def decode_transfer_offer_def decode_transfer_data_def
      decode_file_list_def decode_file_drop_def dims_ok_def files_ok_def cursor_ok_def not_less
      split: if_splits option.splits
      dest!: wtext.get_ok wstring.get_ok copies.get_list_ok tiles.get_list_ok files.get_list_ok
        wu32.get_list_ok rd_count_Inr)

lemma decode_ok: "decode bs = Inr m \<Longrightarrow> message_ok m"
  by (auto simp: decode_def bindE_Inr_iff dest: decode_payload_ok)

section \<open>Properties\<close>

text \<open>
  C23. Every message a peer may send survives the wire: encoding and decoding is the identity on all
  31 kinds, for every message within the limits the decoder enforces.
\<close>

theorem message_roundtrip:
  assumes "message_ok m"
  shows "decode (encode m) = Inr m"
  using assms by (rule decode_encode)

theorem message_roundtrip_witness:
  "decode (encode (ScreenUpdate 7
      [\<lparr>src_x = 0, src_y = 16, dest = rect_new 0 0 64 32\<rparr>]
      [\<lparr>tile_rect = rect_new 0 32 64 16, tile_encoding = Solid, tile_data = [1, 2, 3]\<rparr>])) =
   Inr (ScreenUpdate 7
      [\<lparr>src_x = 0, src_y = 16, dest = rect_new 0 0 64 32\<rparr>]
      [\<lparr>tile_rect = rect_new 0 32 64 16, tile_encoding = Solid, tile_data = [1, 2, 3]\<rparr>])"
  by (rule message_roundtrip)
    (simp add: MAX_COPIES_PER_UPDATE_def MAX_TILES_PER_UPDATE_def copy_ok_def tile_ok_def rect_ok_def
      coord16_def rect_is_empty_def MAX_BLOB_LEN_def)

text \<open>
  C24. Nothing outside the limits gets past the decoder: whatever bytes arrive, a message that
  decodes has its texts valid UTF-8 and within \<open>MAX_TEXT_LEN\<close>, its screen and cursor sizes, counts,
  chunk and transfer sizes within their limits and its rectangles non-empty with 16-bit edges,
  and sending it on is understood as the same message.
\<close>

theorem decoded_messages_are_sound:
  assumes "decode bs = Inr m"
  shows "message_ok m \<and> decode (encode m) = Inr m"
  using decode_ok [OF assms] decode_encode by blast

theorem decoded_messages_are_sound_witness:
  "message_ok (KeyEvent 65 True) \<and> decode (encode (KeyEvent 65 True)) = Inr (KeyEvent 65 True)"
proof -
  have "decode [2, 65, 0, 0, 0, 1] = Inr (KeyEvent 65 True)"
    by code_simp
  then show ?thesis by (rule decoded_messages_are_sound)
qed

end
