(* ===== verification/Frame.thy ===== *)
theory Frame
  imports Message
begin

text \<open>
  \<open>crates/proto/src/frame.rs\<close> and the version rule of \<open>crates/proto/src/lib.rs\<close>: length-prefixed
  framing, skippable extensions, the incremental \<open>FrameParser\<close> and the blocking reader. The
  abstract view of a parser is the list of bytes it has not consumed; \<open>frames\<close> reads such a list
  to its end. The lemmas show that the parser computes \<open>frames\<close> however its input is cut into
  chunks, that it stays within its buffer, and that a stream of framed messages arrives intact.
\<close>

section \<open>Versions\<close>

definition PROTOCOL_VERSION :: u16 where "PROTOCOL_VERSION = 4"

definition MIN_COMPATIBLE_VERSION :: u16 where "MIN_COMPATIBLE_VERSION = 3"

definition peer_meets_floor :: "u16 \<Rightarrow> bool" where
  "peer_meets_floor peer \<longleftrightarrow> MIN_COMPATIBLE_VERSION \<le> peer"

definition agreed_version :: "u16 \<Rightarrow> u16" where
  "agreed_version peer = (if peer < PROTOCOL_VERSION then peer else PROTOCOL_VERSION)"

definition can_speak :: "u16 \<Rightarrow> bool" where
  "can_speak version \<longleftrightarrow> peer_meets_floor version \<and> version \<le> PROTOCOL_VERSION"

section \<open>Framing\<close>

definition MAX_MESSAGE_SIZE :: nat where "MAX_MESSAGE_SIZE = 64 * 1024 * 1024"

definition HEADER_LEN :: nat where "HEADER_LEN = 4"

definition EXTENSION_TAG_MIN :: u8 where "EXTENSION_TAG_MIN = 128"

definition is_skippable_extension :: "u8 list \<Rightarrow> bool" where
  "is_skippable_extension payload =
     (case payload of [] \<Rightarrow> False
      | tag # _ \<Rightarrow> EXTENSION_TAG_MIN \<le> tag \<and> (case kind_from_u8 tag of Inl _ \<Rightarrow> True | Inr _ \<Rightarrow> False))"

datatype io_error = UnexpectedEofIo | ConnectionReset | ConnectionAborted | BrokenPipe | OtherIo string

datatype frame_error = Io io_error | TooLarge nat | Decode decode_error

fun is_disconnect :: "frame_error \<Rightarrow> bool" where
  "is_disconnect (Io e) = (e = UnexpectedEofIo \<or> e = ConnectionReset \<or> e = ConnectionAborted \<or> e = BrokenPipe)"
| "is_disconnect _ = False"

definition max_screen_update_len :: "nat \<Rightarrow> nat \<Rightarrow> nat" where
  "max_screen_update_len width height =
     (let tiles = div_ceil width TILE_SIZE * div_ceil height TILE_SIZE; pixels = width * height in
      1 + 8 + 4 + MAX_COPIES_PER_UPDATE * 12 + 4 + tiles * 13 + pixels * 3)"

definition frame_message :: "message \<Rightarrow> u8 list \<Rightarrow> u8 list" where
  "frame_message m out =
     (let start = length out;
          out = out @ [0, 0, 0, 0] @ encode_into m [];
          len = of_nat (length out - start - HEADER_LEN) :: u32 in
      take start out @ le_bytes 4 len @ drop (start + HEADER_LEN) out)"

text \<open>One look at the bytes in front of the parser.\<close>

datatype frame_view = NeedMore | Bad frame_error | Skip nat | Got message nat

definition view_frame :: "u8 list \<Rightarrow> frame_view" where
  "view_frame avail =
     (if length avail < HEADER_LEN then NeedMore
      else let len = unat (of_le (take 4 avail) :: u32) in
        if MAX_MESSAGE_SIZE < len then Bad (TooLarge len)
        else let total = HEADER_LEN + len in
          if length avail < total then NeedMore
          else let payload = take len (drop HEADER_LEN avail) in
            if is_skippable_extension payload then Skip total
            else (case decode payload of Inl e \<Rightarrow> Bad (Decode e) | Inr m \<Rightarrow> Got m total))"

lemma view_frame_advance:
  "view_frame avail = Skip n \<Longrightarrow> 4 \<le> n \<and> n \<le> length avail"
  "view_frame avail = Got m n \<Longrightarrow> 4 \<le> n \<and> n \<le> length avail"
  by (auto simp: view_frame_def HEADER_LEN_def Let_def split: if_splits sum.splits)

section \<open>The incremental parser\<close>

record parser =
  fp_buf :: "u8 list"
  fp_pos :: nat

definition parser_new :: parser where "parser_new = \<lparr>fp_buf = [], fp_pos = 0\<rparr>"

definition parser_feed :: "u8 list \<Rightarrow> parser \<Rightarrow> parser" where
  "parser_feed bytes p =
     (let p = (if 0 < fp_pos p \<and> length (fp_buf p) div 2 \<le> fp_pos p
               then \<lparr>fp_buf = drop (fp_pos p) (fp_buf p), fp_pos = 0\<rparr> else p)
      in p\<lparr>fp_buf := fp_buf p @ bytes\<rparr>)"

function next_frame :: "u8 list \<Rightarrow> nat \<Rightarrow> (frame_error + message option) \<times> nat" where
  "next_frame buf pos =
     (case view_frame (drop pos buf) of
        NeedMore \<Rightarrow> (Inr None, pos)
      | Bad e \<Rightarrow> (Inl e, pos)
      | Skip n \<Rightarrow> next_frame buf (pos + n)
      | Got m n \<Rightarrow> (Inr (Some m), pos + n))"
  by pat_completeness auto
termination
  by (relation "measure (\<lambda>(buf, pos). length buf - pos)")
    (auto dest: view_frame_advance)

declare next_frame.simps [simp del]

lemma next_frame_view:
  "view_frame (drop pos buf) = NeedMore \<Longrightarrow> next_frame buf pos = (Inr None, pos)"
  "view_frame (drop pos buf) = Bad e \<Longrightarrow> next_frame buf pos = (Inl e, pos)"
  "view_frame (drop pos buf) = Skip n \<Longrightarrow> next_frame buf pos = next_frame buf (pos + n)"
  "view_frame (drop pos buf) = Got m n \<Longrightarrow> next_frame buf pos = (Inr (Some m), pos + n)"
  by (subst next_frame.simps, simp)+

definition parser_next :: "parser \<Rightarrow> (frame_error + message option) \<times> parser" where
  "parser_next p = (case next_frame (fp_buf p) (fp_pos p) of (res, pos) \<Rightarrow> (res, p\<lparr>fp_pos := pos\<rparr>))"

definition parser_pending :: "parser \<Rightarrow> nat" where
  "parser_pending p = length (fp_buf p) - fp_pos p"

section \<open>The blocking reader\<close>

text \<open>\<open>read_exact\<close> on a stream that ends after the bytes given.\<close>

definition read_exact :: "nat \<Rightarrow> u8 list \<Rightarrow> frame_error + u8 list \<times> u8 list" where
  "read_exact n s = (if length s < n then Inl (Io UnexpectedEofIo) else Inr (take n s, drop n s))"

function read_message :: "u8 list \<Rightarrow> frame_error + message \<times> u8 list" where
  "read_message s =
     (case read_exact HEADER_LEN s of
        Inl e \<Rightarrow> Inl e
      | Inr (hdr, s1) \<Rightarrow>
          let len = unat (of_le hdr :: u32) in
          if MAX_MESSAGE_SIZE < len then Inl (TooLarge len)
          else (case read_exact len s1 of
                  Inl e \<Rightarrow> Inl e
                | Inr (payload, s2) \<Rightarrow>
                    if is_skippable_extension payload then read_message s2
                    else (case decode payload of Inl e \<Rightarrow> Inl (Decode e) | Inr m \<Rightarrow> Inr (m, s2))))"
  by pat_completeness auto
termination
  by (relation "measure length") (auto simp: read_exact_def HEADER_LEN_def split: if_splits)

declare read_message.simps [simp del]

section \<open>The abstract parser\<close>

text \<open>
  Everything a receiver gets out of a list of bytes: the messages, the error it stops at, if any,
  and the bytes left.
\<close>

function frames :: "u8 list \<Rightarrow> message list \<times> frame_error option \<times> u8 list" where
  "frames bs =
     (case view_frame bs of
        NeedMore \<Rightarrow> ([], None, bs)
      | Bad e \<Rightarrow> ([], Some e, bs)
      | Skip n \<Rightarrow> frames (drop n bs)
      | Got m n \<Rightarrow> (case frames (drop n bs) of (ms, e, r) \<Rightarrow> (m # ms, e, r)))"
  by pat_completeness auto
termination
  by (relation "measure length") (auto dest!: view_frame_advance)

declare frames.simps [simp del]

text \<open>The loop both ends run after every read: take messages until there is none or an error.\<close>

function drain :: "u8 list \<Rightarrow> nat \<Rightarrow> message list \<times> frame_error option \<times> nat" where
  "drain buf pos =
     (case next_frame buf pos of
        (Inl e, pos') \<Rightarrow> ([], Some e, pos')
      | (Inr None, pos') \<Rightarrow> ([], None, pos')
      | (Inr (Some m), pos') \<Rightarrow>
          (case drain buf pos' of (ms, e, q) \<Rightarrow> (m # ms, e, q)))"
  by pat_completeness auto

lemma next_frame_advance:
  "next_frame buf pos = (res, pos') \<Longrightarrow> pos \<le> pos' \<and> (pos \<le> length buf \<longrightarrow> pos' \<le> length buf) \<and>
     (\<forall>m. res = Inr (Some m) \<longrightarrow> pos + 4 \<le> pos' \<and> pos' \<le> length buf)"
proof (induction buf pos arbitrary: pos' rule: next_frame.induct)
  case (1 buf pos)
  show ?case
  proof (cases "view_frame (drop pos buf)")
    case NeedMore
    then show ?thesis using 1(2) by (auto simp: next_frame_view(1))
  next
    case (Bad e)
    then show ?thesis using 1(2) by (auto simp: next_frame_view(2))
  next
    case (Skip n)
    then have n: "4 \<le> n \<and> n \<le> length buf - pos" using view_frame_advance(1) [OF Skip] by simp
    have "next_frame buf (pos + n) = (res, pos')"
      using 1(2) by (simp add: next_frame_view(3) [OF Skip])
    from 1(1) [OF Skip this] n show ?thesis by auto
  next
    case (Got m n)
    then have "4 \<le> n \<and> n \<le> length buf - pos" using view_frame_advance(2) [OF Got] by simp
    then show ?thesis using 1(2) by (auto simp: next_frame_view(4) [OF Got])
  qed
qed

termination drain
  by (relation "measure (\<lambda>(buf, pos). length buf - pos)")
    (auto dest!: next_frame_advance [OF sym])

declare drain.simps [simp del]

section \<open>The parser against the abstract parser\<close>

lemma frames_view:
  "view_frame bs = NeedMore \<Longrightarrow> frames bs = ([], None, bs)"
  "view_frame bs = Bad e \<Longrightarrow> frames bs = ([], Some e, bs)"
  "view_frame bs = Skip n \<Longrightarrow> frames bs = frames (drop n bs)"
  "view_frame bs = Got m n \<Longrightarrow> frames bs = (case frames (drop n bs) of (ms, e, r) \<Rightarrow> (m # ms, e, r))"
  by (subst frames.simps, simp)+

text \<open>A frame that can be judged is judged the same whatever follows it.\<close>

lemma view_frame_mono: "view_frame xs \<noteq> NeedMore \<Longrightarrow> view_frame (xs @ ys) = view_frame xs"
  by (auto simp: view_frame_def Let_def HEADER_LEN_def split: if_splits sum.splits)

lemma frames_append:
  "frames xs = (ms, e, r) \<Longrightarrow> frames (xs @ ys) =
     (case e of None \<Rightarrow> (case frames (r @ ys) of (ms', e', r') \<Rightarrow> (ms @ ms', e', r'))
      | Some err \<Rightarrow> (ms, Some err, r @ ys))"
proof (induction xs arbitrary: ms e r rule: frames.induct)
  case (1 bs)
  show ?case
  proof (cases "view_frame bs")
    case NeedMore
    then show ?thesis using 1(3) by (auto simp: frames_view(1) split: prod.split)
  next
    case (Bad err)
    then have "view_frame (bs @ ys) = Bad err" using view_frame_mono [of bs ys] by simp
    with Bad show ?thesis using 1(3) by (auto simp: frames_view(2))
  next
    case (Skip n)
    then have v: "view_frame (bs @ ys) = Skip n" using view_frame_mono [of bs ys] by simp
    have n: "n \<le> length bs" using view_frame_advance(1) [OF Skip] by simp
    have "frames (drop n bs) = (ms, e, r)" using 1(3) by (simp add: frames_view(3) [OF Skip])
    from 1(1) [OF Skip this] show ?thesis using n by (simp add: frames_view(3) [OF v])
  next
    case (Got m n)
    then have v: "view_frame (bs @ ys) = Got m n" using view_frame_mono [of bs ys] by simp
    have n: "n \<le> length bs" using view_frame_advance(2) [OF Got] by simp
    obtain ms' where ms: "ms = m # ms'" and "frames (drop n bs) = (ms', e, r)"
      using 1(3) by (auto simp: frames_view(4) [OF Got] split: prod.splits)
    from 1(2) [OF Got this(2)] show ?thesis
      using n by (simp add: frames_view(4) [OF v] ms split: option.splits prod.splits)
  qed
qed

lemma frames_next:
  "next_frame buf pos = (res, pos') \<Longrightarrow> frames (drop pos buf) =
     (case res of Inl e \<Rightarrow> ([], Some e, drop pos' buf)
      | Inr None \<Rightarrow> ([], None, drop pos' buf)
      | Inr (Some m) \<Rightarrow> (case frames (drop pos' buf) of (ms, e, r) \<Rightarrow> (m # ms, e, r)))"
proof (induction buf pos arbitrary: pos' rule: next_frame.induct)
  case (1 buf pos)
  show ?case
  proof (cases "view_frame (drop pos buf)")
    case NeedMore
    then show ?thesis using 1(2) by (auto simp: next_frame_view(1) frames_view(1))
  next
    case (Bad e)
    then show ?thesis using 1(2) by (auto simp: next_frame_view(2) frames_view(2))
  next
    case (Skip n)
    have "next_frame buf (pos + n) = (res, pos')" using 1(2) by (simp add: next_frame_view(3) [OF Skip])
    from 1(1) [OF Skip this] show ?thesis by (simp add: frames_view(3) [OF Skip] add.commute)
  next
    case (Got m n)
    then show ?thesis
      using 1(2) by (auto simp: next_frame_view(4) [OF Got] frames_view(4) [OF Got] add.commute)
  qed
qed

lemma drain_frames: "drain buf pos = (ms, e, q) \<Longrightarrow> frames (drop pos buf) = (ms, e, drop q buf)"
proof (induction buf pos arbitrary: ms q rule: drain.induct)
  case (1 buf pos)
  obtain res pos' where nx: "next_frame buf pos = (res, pos')" by (cases "next_frame buf pos")
  show ?case
  proof (cases "\<exists>m. res = Inr (Some m)")
    case True
    then obtain m where m: "res = Inr (Some m)" by blast
    obtain ms' where "drain buf pos' = (ms', e, q)" "ms = m # ms'"
      using 1(2) by (subst (asm) drain.simps) (auto simp: nx m split: prod.splits)
    with 1(1) [OF nx [symmetric] m] frames_next [OF nx] show ?thesis by (auto simp: m)
  next
    case False
    then show ?thesis
      using 1(2) frames_next [OF nx] by (subst (asm) drain.simps)
        (auto simp: nx split: sum.splits option.splits)
  qed
qed

lemma drain_bound: "drain buf pos = (ms, e, q) \<Longrightarrow> pos \<le> length buf \<Longrightarrow> q \<le> length buf"
proof (induction buf pos arbitrary: ms q rule: drain.induct)
  case (1 buf pos)
  obtain res pos' where nx: "next_frame buf pos = (res, pos')" by (cases "next_frame buf pos")
  have pos': "pos' \<le> length buf" using next_frame_advance [OF nx] 1(3) by blast
  show ?case
  proof (cases "\<exists>m. res = Inr (Some m)")
    case True
    then obtain m where m: "res = Inr (Some m)" by blast
    obtain ms' where "drain buf pos' = (ms', e, q)"
      using 1(2) by (subst (asm) drain.simps) (auto simp: nx m split: prod.splits)
    with 1(1) [OF nx [symmetric] m] pos' show ?thesis by blast
  next
    case False
    then show ?thesis
      using 1(2) pos' by (subst (asm) drain.simps) (auto simp: nx split: sum.splits option.splits)
  qed
qed

text \<open>What a parser has not consumed.\<close>

definition unread :: "parser \<Rightarrow> u8 list" where "unread p = drop (fp_pos p) (fp_buf p)"

definition parser_ok :: "parser \<Rightarrow> bool" where "parser_ok p \<longleftrightarrow> fp_pos p \<le> length (fp_buf p)"

lemma length_unread: "length (unread p) = parser_pending p"
  by (simp add: unread_def parser_pending_def)

lemma unread_feed: "parser_ok p \<Longrightarrow> unread (parser_feed bytes p) = unread p @ bytes \<and> parser_ok (parser_feed bytes p)"
  by (simp add: unread_def parser_ok_def parser_feed_def Let_def)

lemma parser_next_ok: "parser_ok p \<Longrightarrow> parser_ok (snd (parser_next p))"
  by (cases "next_frame (fp_buf p) (fp_pos p)")
    (auto simp: parser_ok_def parser_next_def dest: next_frame_advance)

inductive parser_step :: "parser \<Rightarrow> parser \<Rightarrow> bool" where
  step_feed: "parser_step p (parser_feed bytes p)"
| step_next: "parser_step p (snd (parser_next p))"

interpretation parser_states: invariant_system "\<lambda>p. p = parser_new" parser_step parser_ok
proof unfold_locales
  show "parser_ok p" if "p = parser_new" for p using that by (simp add: parser_ok_def parser_new_def)
  show "parser_ok q" if "parser_step p q" "parser_ok p" for p q
    using that by (auto elim!: parser_step.cases dest: unread_feed parser_next_ok)
qed

lemma needs_more: "view_frame bs = NeedMore \<Longrightarrow> length bs < HEADER_LEN + MAX_MESSAGE_SIZE"
  by (auto simp: view_frame_def Let_def HEADER_LEN_def MAX_MESSAGE_SIZE_def split: if_splits sum.splits)

lemma next_none:
  "next_frame buf pos = (Inr None, pos') \<Longrightarrow> view_frame (drop pos' buf) = NeedMore"
proof (induction buf pos arbitrary: pos' rule: next_frame.induct)
  case (1 buf pos)
  show ?case
  proof (cases "view_frame (drop pos buf)")
    case (Skip n)
    then show ?thesis using 1 by (simp add: next_frame_view(3) [OF Skip])
  qed (use 1(2) in \<open>simp_all add: next_frame_view\<close>)
qed

section \<open>Receiving chunks\<close>

definition receive :: "u8 list \<Rightarrow> parser \<Rightarrow> message list \<times> frame_error option \<times> parser" where
  "receive chunk p =
     (let p = parser_feed chunk p in
      case drain (fp_buf p) (fp_pos p) of (ms, e, pos) \<Rightarrow> (ms, e, p\<lparr>fp_pos := pos\<rparr>))"

primrec receive_all :: "parser \<Rightarrow> u8 list list \<Rightarrow> message list \<times> frame_error option \<times> parser" where
  "receive_all p [] = ([], None, p)"
| "receive_all p (c # cs) =
     (case receive c p of
        (ms, Some e, p') \<Rightarrow> (ms, Some e, p')
      | (ms, None, p') \<Rightarrow> (case receive_all p' cs of (ms', e, p'') \<Rightarrow> (ms @ ms', e, p'')))"

lemma receive_frames:
  "parser_ok p \<Longrightarrow> receive c p = (ms, e, p') \<Longrightarrow> frames (unread p @ c) = (ms, e, unread p') \<and> parser_ok p'"
  using unread_feed [of p c]
  by (auto simp: receive_def Let_def parser_ok_def unread_def split: prod.splits
      dest: drain_frames drain_bound)

lemma frames_none_stop: "frames bs = (ms, None, r) \<Longrightarrow> view_frame r = NeedMore"
proof (induction bs arbitrary: ms r rule: frames.induct)
  case (1 bs)
  show ?case
  proof (cases "view_frame bs")
    case NeedMore
    then show ?thesis using 1(3) by (simp add: frames_view(1))
  next
    case (Bad e)
    then show ?thesis using 1(3) by (simp add: frames_view(2))
  next
    case (Skip n)
    then show ?thesis using 1(1) [OF Skip] 1(3) by (simp add: frames_view(3))
  next
    case (Got m n)
    then show ?thesis using 1(2) [OF Got] 1(3) by (auto simp: frames_view(4) split: prod.splits)
  qed
qed

lemma receive_all_frames:
  "parser_ok p \<Longrightarrow> view_frame (unread p) = NeedMore \<Longrightarrow> receive_all p cs = (ms, e, p') \<Longrightarrow>
     \<exists>tail. frames (unread p @ concat cs) = (ms, e, unread p' @ tail) \<and> (e = None \<longrightarrow> tail = []) \<and> parser_ok p'"
proof (induction cs arbitrary: p ms)
  case Nil
  then show ?case by (auto simp: frames_view(1))
next
  case (Cons c cs)
  obtain ms1 e1 p1 where r: "receive c p = (ms1, e1, p1)" by (cases "receive c p")
  note f = receive_frames [OF Cons.prems(1) r]
  show ?case
  proof (cases e1)
    case (Some err)
    then have "ms = ms1" "e = Some err" "p' = p1" using Cons.prems(3) r by auto
    then show ?thesis
      using Some f frames_append [of "unread p @ c" ms1 e1 "unread p1" "concat cs"] by auto
  next
    case None
    obtain ms2 p2 where rest: "receive_all p1 cs = (ms2, e, p2)" and out: "ms = ms1 @ ms2" "p' = p2"
      using Cons.prems(3) r None by (auto split: prod.splits)
    have rest': "receive_all p1 cs = (ms2, e, p')" using rest out(2) by simp
    have stop: "view_frame (unread p1) = NeedMore" using f None frames_none_stop by blast
    from f have "parser_ok p1" by simp
    from Cons.IH [OF this stop rest' ] obtain tail where
      "frames (unread p1 @ concat cs) = (ms2, e, unread p2 @ tail)" "e = None \<longrightarrow> tail = []" "parser_ok p2"
      by (auto simp: out(2))
    then show ?thesis
      using f None out frames_append [of "unread p @ c" ms1 None "unread p1" "concat cs"] by auto
  qed
qed

section \<open>The sender's stream\<close>

datatype stream_item = Msg message | Extension "u8 list"

fun item_bytes :: "stream_item \<Rightarrow> u8 list" where
  "item_bytes (Msg m) = frame_message m []"
| "item_bytes (Extension payload) = le_bytes 4 (of_nat (length payload) :: u32) @ payload"

fun item_ok :: "stream_item \<Rightarrow> bool" where
  "item_ok (Msg m) = (message_ok m \<and> length (encode m) \<le> MAX_MESSAGE_SIZE)"
| "item_ok (Extension payload) = (is_skippable_extension payload \<and> length payload \<le> MAX_MESSAGE_SIZE)"

fun item_messages :: "stream_item \<Rightarrow> message list" where
  "item_messages (Msg m) = [m]"
| "item_messages (Extension payload) = []"

lemma frame_message_bytes: "frame_message m out = out @ le_bytes 4 (of_nat (length (encode m)) :: u32) @ encode m"
  by (simp add: frame_message_def HEADER_LEN_def encode_def)

lemma encode_bytes: "encode m = kind_tag (msg_kind m) # encode_payload m []"
  using encode_payload_append [of m "[kind_tag (msg_kind m)]"]
  by (simp add: encode_def encode_into_def wire_simps)

lemma view_framed:
  "length payload \<le> MAX_MESSAGE_SIZE \<Longrightarrow>
     view_frame (le_bytes 4 (of_nat (length payload) :: u32) @ payload @ ys) =
       (if is_skippable_extension payload then Skip (4 + length payload)
        else case decode payload of Inl e \<Rightarrow> Bad (Decode e) | Inr m \<Rightarrow> Got m (4 + length payload))"
  by (simp add: view_frame_def HEADER_LEN_def of_le_le_bytes_full unat_of_nat_u32 MAX_MESSAGE_SIZE_def Let_def)

lemma frames_item:
  "item_ok it \<Longrightarrow> frames (item_bytes it @ ys) =
     (case frames ys of (ms, e, r) \<Rightarrow> (item_messages it @ ms, e, r))"
proof (cases it)
  case (Msg m)
  assume ok: "item_ok it"
  have "\<not> is_skippable_extension (encode m)"
    by (simp add: encode_bytes is_skippable_extension_def)
  then have "view_frame (item_bytes it @ ys) = Got m (4 + length (encode m))"
    using ok Msg view_framed [of "encode m" ys] by (simp add: frame_message_bytes decode_encode)
  from frames_view(4) [OF this] show ?thesis by (simp add: Msg frame_message_bytes)
next
  case (Extension payload)
  assume ok: "item_ok it"
  then have "view_frame (item_bytes it @ ys) = Skip (4 + length payload)"
    using Extension view_framed [of payload ys] by simp
  from frames_view(3) [OF this] show ?thesis by (simp add: Extension split: prod.split)
qed

lemma frames_stream:
  "\<forall>it \<in> set items. item_ok it \<Longrightarrow>
     frames (concat (map item_bytes items)) = (concat (map item_messages items), None, [])"
proof (induction items)
  case Nil
  have "view_frame [] = NeedMore" by (simp add: view_frame_def HEADER_LEN_def)
  then show ?case by (simp add: frames_view(1))
qed (simp add: frames_item)

section \<open>The blocking reader against the abstract parser\<close>

lemma read_view:
  "read_message s =
     (case view_frame s of
        NeedMore \<Rightarrow> Inl (Io UnexpectedEofIo)
      | Bad e \<Rightarrow> Inl e
      | Skip n \<Rightarrow> read_message (drop n s)
      | Got m n \<Rightarrow> Inr (m, drop n s))"
  by (subst read_message.simps)
    (auto simp: view_frame_def read_exact_def HEADER_LEN_def Let_def add.commute split: sum.splits)

lemma read_message_next:
  "read_message (drop pos buf) =
     (case next_frame buf pos of
        (Inl e, _) \<Rightarrow> Inl e
      | (Inr None, _) \<Rightarrow> Inl (Io UnexpectedEofIo)
      | (Inr (Some m), pos') \<Rightarrow> Inr (m, drop pos' buf))"
proof (induction buf pos rule: next_frame.induct)
  case (1 buf pos)
  show ?case
  proof (cases "view_frame (drop pos buf)")
    case NeedMore
    then show ?thesis by (subst read_view) (simp add: next_frame_view(1))
  next
    case (Bad e)
    then show ?thesis by (subst read_view) (simp add: next_frame_view(2))
  next
    case (Skip n)
    then have "read_message (drop pos buf) = read_message (drop (pos + n) buf)"
      by (subst read_view) (simp add: add.commute)
    then show ?thesis using 1(1) [OF Skip] by (simp add: next_frame_view(3) [OF Skip])
  next
    case (Got m n)
    then show ?thesis by (subst read_view) (simp add: next_frame_view(4) add.commute)
  qed
qed

section \<open>The size of a screen update\<close>

lemma length_concat_map: "length (concat (map f xs)) = sum_list (map (\<lambda>x. length (f x)) xs)"
  by (induction xs) auto

lemma length_enc_copy: "length (enc_copy c) = 12"
  by (simp add: enc_copy_def w_copy_def wire_simps)

lemma length_enc_tile: "length (enc_tile_bytes t) \<le> 13 + length (tile_data t)"
  by (simp add: enc_tile_bytes_def w_tile_def wire_simps length_enc_bytes)

lemma length_screen_update:
  "length (encode (ScreenUpdate fid copies tiles)) \<le>
     17 + 12 * length copies + sum_list (map (\<lambda>t. 13 + length (tile_data t)) tiles)"
proof -
  have "length (concat (map enc_copy copies)) = 12 * length copies"
    by (induction copies) (simp_all add: length_enc_copy)
  moreover have "length (concat (map enc_tile_bytes tiles)) \<le> sum_list (map (\<lambda>t. 13 + length (tile_data t)) tiles)"
    unfolding length_concat_map by (intro sum_list_mono length_enc_tile)
  ultimately show ?thesis by (simp add: encode_bytes wire_simps)
qed

text \<open>Tiles never outnumber the grid cells they came from, nor exceed three bytes per pixel.\<close>

lemma encode_tile_data:
  assumes "encode_tile cs seed cur tile (e, us) = Some (e', vs)"
  shows "\<exists>ts. vs = us @ ts \<and> length ts \<le> 1 \<and> (\<forall>t \<in> set ts. length (tile_data t) \<le> 3 * area (tile_rect t))"
proof -
  have "length (tile_data t) \<le> 3 * area (tile_rect t)"
    if "encode_pixels cs seed bb ps = Some t" "fb_blit_pixels fb bb ps = Some fb'" for t bb ps fb fb'
  proof -
    have "ps \<noteq> []" using that(1) by (auto simp: encode_pixels_def)
    moreover have "length ps = area bb" using that(2) by (auto simp: fb_blit_pixels_def split: if_splits)
    ultimately show ?thesis using encode_pixels_total [of ps cs seed bb] that(1) by auto
  qed
  then show ?thesis
    using assms by (auto simp: encode_tile_def split: Option.bind_splits option.splits)
qed

lemma encode_tiles_data:
  "ofold (encode_tile cs seed cur) rs (e, us) = Some (e', vs) \<Longrightarrow>
     \<exists>ts. vs = us @ ts \<and> length ts \<le> length rs \<and> (\<forall>t \<in> set ts. length (tile_data t) \<le> 3 * area (tile_rect t))"
proof (induction rs arbitrary: e us)
  case (Cons r rs)
  then obtain e1 us1 where 1: "encode_tile cs seed cur r (e, us) = Some (e1, us1)"
    and 2: "ofold (encode_tile cs seed cur) rs (e1, us1) = Some (e', vs)"
    by (auto split: Option.bind_splits)
  from encode_tile_data [OF 1] Cons.IH [OF 2] show ?case by fastforce
qed simp

lemma tile_starts_length:
  "0 < ts \<Longrightarrow> e + ts < 2 ^ 32 \<Longrightarrow> tile_starts ts t e = Some l \<Longrightarrow> t \<le> e \<Longrightarrow> length l * ts < e - t + ts"
proof (induction "e - t" arbitrary: t l rule: less_induct)
  case less
  show ?case
  proof (cases "t < e")
    case False
    then show ?thesis using less.prems by (subst (asm) tile_starts.simps) auto
  next
    case True
    have nw: "add32 t ts = t + ts" using True less.prems by (intro add32_no_wrap) simp
    obtain k where k: "tile_starts ts (t + ts) e = Some k" "l = t # k"
      using less.prems(3) True by (subst (asm) tile_starts.simps) (auto simp: nw split: Option.bind_splits)
    show ?thesis
    proof (cases "t + ts \<le> e")
      case le: True
      have "length k * ts < e - (t + ts) + ts"
        using less.hyps [of "t + ts" k] less.prems k le True by auto
      then show ?thesis using k(2) le by simp
    next
      case False
      then have "k = []" using k(1) by (subst (asm) tile_starts.simps) simp
      then show ?thesis using k(2) True by simp
    qed
  qed
qed

lemma div_ceil_upper: "0 < b \<Longrightarrow> n * b < a + b \<Longrightarrow> n \<le> div_ceil a b"
proof -
  assume b: "0 < b" and "n * b < a + b"
  then have "n * b < (div_ceil a b + 1) * b" using div_ceil_mult_ge [OF b, of a] by simp
  then have "n < div_ceil a b + 1" using b by (simp only: mult_less_cancel2)
  then show ?thesis by simp
qed

lemma full_region_tiles:
  assumes e: "encoder_wf e" "enc_tile e = TILE_SIZE"
    and enc: "encode_region cs seed cur (fb_bounds cur) e = Some (e', ts)" and cur: "fb_wf cur"
  shows "length ts \<le> div_ceil (fb_width cur) TILE_SIZE * div_ceil (fb_height cur) TILE_SIZE \<and>
    (\<forall>t \<in> set ts. length (tile_data t) \<le> 3 * area (tile_rect t))"
proof -
  have size: "fb_width (enc_prev e) = fb_width cur" "fb_height (enc_prev e) = fb_height cur"
    using enc by (auto simp: encode_region_def split: if_splits)
  then have b: "fb_bounds (enc_prev e) = fb_bounds cur" by (simp add: fb_bounds_def)
  let ?r = "rect_intersect (fb_bounds cur) (fb_bounds cur)"
  show ?thesis
  proof (cases "rect_is_empty ?r")
    case True
    then show ?thesis using enc size b by (simp add: encode_region_def Let_def)
  next
    case False
    have lim: "fb_width cur + 64 < 2 ^ 32" "fb_height cur + 64 < 2 ^ 32"
      using e size by (auto simp: encoder_wf_def TILE_SIZE_def)
    have "?r = fb_bounds cur"
      using False cur by (auto simp: rect_intersect_def Let_def fb_bounds_def fb_wf_def right_def bottom_def
          add32_def sub32_def split: if_splits)
    then have dims: "rx ?r = 0" "ry ?r = 0" "right ?r = fb_width cur" "bottom ?r = fb_height cur"
      using cur by (auto simp: right_wf bottom_wf) (auto simp: fb_bounds_def)
    obtain tys txs where g: "tile_starts 64 0 (fb_height cur) = Some tys" "tile_starts 64 0 (fb_width cur) = Some txs"
      "ofold (\<lambda>ty. ofold (\<lambda>tx. encode_tile cs seed cur (rect_intersect (rect_new tx ty 64 64) ?r)) txs) tys (e, [])
        = Some (e', ts)"
      using enc size b False e(2)
      by (auto simp: encode_region_def Let_def dims TILE_SIZE_def mul32_def split: Option.bind_splits)
    have "ofold (encode_tile cs seed cur) (region_tiles 64 ?r txs tys) (e, []) = Some (e', ts)"
      using g(3) ofold_nested [where f = "encode_tile cs seed cur" and xs = txs and ys = tys
          and g = "\<lambda>ty tx. rect_intersect (rect_new tx ty 64 64) ?r"] by (simp add: region_tiles_def)
    from encode_tiles_data [OF this] have "length ts \<le> length (region_tiles 64 ?r txs tys)"
      and data: "\<forall>t \<in> set ts. length (tile_data t) \<le> 3 * area (tile_rect t)" by auto
    moreover have "length (region_tiles 64 ?r txs tys) = length txs * length tys"
      by (induction tys) (simp_all add: region_tiles_def)
    moreover have "length txs \<le> div_ceil (fb_width cur) TILE_SIZE"
      using tile_starts_length [OF _ lim(1) g(2)] by (intro div_ceil_upper) (simp_all add: TILE_SIZE_def)
    moreover have "length tys \<le> div_ceil (fb_height cur) TILE_SIZE"
      using tile_starts_length [OF _ lim(2) g(1)] by (intro div_ceil_upper) (simp_all add: TILE_SIZE_def)
    ultimately show ?thesis by (metis mult_le_mono order_trans)
  qed
qed

section \<open>Properties\<close>

text \<open>
  C10. The stream survives any network: however the transport cuts a sender's stream of framed
  messages and unknown extension frames into chunks, the receiver gets exactly the messages, in
  order, skips every extension it does not know, reports no error and is left with nothing unread.
\<close>

theorem stream_delivery:
  assumes "\<forall>it \<in> set items. item_ok it"
    and "concat chunks = concat (map item_bytes items)"
  shows "\<exists>p. receive_all parser_new chunks = (concat (map item_messages items), None, p) \<and> parser_pending p = 0"
proof -
  have ok: "parser_ok parser_new" "view_frame (unread parser_new) = NeedMore" "unread parser_new = []"
    by (simp_all add: parser_ok_def parser_new_def unread_def view_frame_def HEADER_LEN_def)
  obtain ms e p where r: "receive_all parser_new chunks = (ms, e, p)" by (cases "receive_all parser_new chunks")
  from receive_all_frames [OF ok(1,2) r] obtain tail where
    "frames (concat chunks) = (ms, e, unread p @ tail)" by (auto simp: ok(3))
  then have "ms = concat (map item_messages items)" "e = None" "unread p = []"
    using frames_stream [OF assms(1)] by (auto simp: assms(2))
  with r show ?thesis by (simp flip: length_unread)
qed

theorem stream_delivery_witness:
  "\<exists>p. receive_all parser_new [[9, 0, 0], [0, 38, 5, 0, 0, 0, 0, 0, 0, 0, 2, 0, 0], [0, 200], [1]] =
     ([Ping 5], None, p) \<and> parser_pending p = 0"
proof -
  have b: "item_bytes (Msg (Ping 5)) = [9, 0, 0, 0, 38, 5, 0, 0, 0, 0, 0, 0, 0]"
    by code_simp
  have x: "item_bytes (Extension [200, 1]) = [2, 0, 0, 0, 200, 1]" by code_simp
  have ok: "\<forall>it \<in> set [Msg (Ping 5), Extension [200, 1]]. item_ok it"
    by (simp add: encode_bytes wire_simps MAX_MESSAGE_SIZE_def is_skippable_extension_def
        EXTENSION_TAG_MIN_def kind_from_u8_def)
  show ?thesis
    using stream_delivery [OF ok, of "[[9, 0, 0], [0, 38, 5, 0, 0, 0, 0, 0, 0, 0, 2, 0, 0], [0, 200], [1]]"] b x
    by simp
qed

text \<open>
  The incremental parser stays inside its buffer in every reachable state, so its slices never
  panic, and a peer can never make it hold a whole frame of more than \<open>MAX_MESSAGE_SIZE\<close> bytes:
  once it asks for more input, fewer than a header and a maximal message are pending.
\<close>

theorem parser_bounds:
  assumes "reach (\<lambda>p. p = parser_new) parser_step p"
  shows "fp_pos p \<le> length (fp_buf p) \<and>
    (fst (parser_next p) = Inr None \<longrightarrow>
       parser_pending (snd (parser_next p)) < HEADER_LEN + MAX_MESSAGE_SIZE)"
proof
  show "fp_pos p \<le> length (fp_buf p)"
    using parser_states.inv_reach [OF assms] by (simp add: parser_ok_def)
  show "fst (parser_next p) = Inr None \<longrightarrow>
       parser_pending (snd (parser_next p)) < HEADER_LEN + MAX_MESSAGE_SIZE"
    by (cases "next_frame (fp_buf p) (fp_pos p)")
      (auto simp: parser_next_def parser_pending_def dest!: next_none needs_more)
qed

theorem parser_bounds_witness:
  "fp_pos (parser_feed [1, 2] parser_new) \<le> length (fp_buf (parser_feed [1, 2] parser_new))"
proof -
  have "reach (\<lambda>p. p = parser_new) parser_step (parser_feed [1, 2] parser_new)"
    by (rule reach_step [of _ _ parser_new]) (auto intro: reach_init step_feed)
  then show ?thesis using parser_bounds by blast
qed

text \<open>
  C29. The blocking reader used for the handshake and the incremental parser used for the session
  agree on every byte stream: the reader returns the first message the parser would deliver and
  leaves the stream just behind it, and where the parser delivers none it fails with the parser's
  error, or with an unexpected end of the stream.
\<close>

theorem blocking_reader_agrees:
  "read_message (drop (fp_pos p) (fp_buf p)) =
     (case parser_next p of
        (Inl e, _) \<Rightarrow> Inl e
      | (Inr None, _) \<Rightarrow> Inl (Io UnexpectedEofIo)
      | (Inr (Some m), p') \<Rightarrow> Inr (m, drop (fp_pos p') (fp_buf p')))"
  by (simp add: parser_next_def read_message_next split: prod.split sum.split option.split)

text \<open>
  A full refresh fits the bound the configuration is validated against: the message carrying
  every tile of a frame over the whole screen, with any list of copies the limit allows, is no
  longer than \<open>max_screen_update_len\<close> of the screen's size.
\<close>

theorem full_refresh_fits:
  assumes ok: "compressors_ok cs" and e: "encoder_wf e" "enc_tile e = TILE_SIZE"
    and sync: "in_sync (enc_prev e) fb" and cur: "fb_rgb cur" "same_size cur (enc_prev e)"
    and enc: "encode_region cs seed cur (fb_bounds cur) e = Some (e', ts)"
    and copies: "length copies \<le> MAX_COPIES_PER_UPDATE"
  shows "length (encode (ScreenUpdate fid copies ts)) \<le> max_screen_update_len (fb_width cur) (fb_height cur)"
proof -
  have wf: "fb_wf cur" using cur(1) by (simp add: fb_rgb_def)
  note grid = full_region_tiles [OF e enc wf]
  have "area (on_screen cur (fb_bounds cur)) \<le> area (fb_bounds cur)"
    using wf by (intro area_mono) (simp add: inside_intersect)
  then have areas: "sum_list (map (\<lambda>t. area (tile_rect t)) ts) \<le> fb_width cur * fb_height cur"
    using encode_region_syncs [OF ok cur(1) e(1) sync cur(2) fb_bounds_wf [OF wf], of seed] enc
    by (auto simp: area_def [of "fb_bounds cur"]) (auto simp: fb_bounds_def)
  have "sum_list (map (\<lambda>t. 13 + length (tile_data t)) ts) \<le> sum_list (map (\<lambda>t. 13 + 3 * area (tile_rect t)) ts)"
    using grid by (intro sum_list_mono) simp
  also have "\<dots> = 13 * length ts + 3 * sum_list (map (\<lambda>t. area (tile_rect t)) ts)"
    by (induction ts) auto
  finally show ?thesis
    using length_screen_update [of fid copies ts] grid areas copies
    by (simp add: max_screen_update_len_def Let_def)
qed

theorem full_refresh_fits_witness:
  "\<exists>e' ts. encode_region run_length_libraries 5 two_pixels (fb_bounds two_pixels) (encoder_new 2 1) = Some (e', ts) \<and>
    length (encode (ScreenUpdate 1 [] ts)) \<le> max_screen_update_len 2 1"
proof -
  have e: "encoder_wf (encoder_new 2 1)" by (simp add: encoder_new_wf)
  have t: "enc_tile (encoder_new 2 1) = TILE_SIZE" by (simp add: encoder_new_def)
  have s: "in_sync (enc_prev (encoder_new 2 1)) (fb_new 2 1)" by (simp add: encoder_new_def new_in_sync)
  have z: "same_size two_pixels (enc_prev (encoder_new 2 1))"
    by (simp add: two_pixels_def encoder_new_def fb_new_def same_size_def)
  have "rect_wf (fb_bounds two_pixels)" by (simp add: two_pixels_def fb_bounds_def rect_wf_def)
  then obtain e' ts where r: "encode_region run_length_libraries 5 two_pixels (fb_bounds two_pixels) (encoder_new 2 1) = Some (e', ts)"
    using encode_region_syncs [OF run_length_libraries_ok two_pixels_rgb e s z] by blast
  from full_refresh_fits [OF run_length_libraries_ok e t s two_pixels_rgb z r, of "[]" 1] r
  show ?thesis by (auto simp: two_pixels_def)
qed

text \<open>
  Version agreement: a peer that meets the floor is answered with a version this build can
  speak, never above the peer's own; an older peer is answered with exactly its own version, and a
  peer below the floor is answered with one this build refuses.
\<close>

theorem version_agreement:
  "can_speak (agreed_version peer) = peer_meets_floor peer \<and> agreed_version peer \<le> peer \<and>
     (peer \<le> PROTOCOL_VERSION \<longrightarrow> agreed_version peer = peer)"
proof (cases "peer < PROTOCOL_VERSION")
  case True
  then show ?thesis by (auto simp: can_speak_def agreed_version_def intro: less_imp_le)
next
  case False
  then have "PROTOCOL_VERSION \<le> peer" "MIN_COMPATIBLE_VERSION \<le> PROTOCOL_VERSION"
    by (simp_all add: not_less PROTOCOL_VERSION_def MIN_COMPATIBLE_VERSION_def)
  then show ?thesis
    using order_trans by (auto simp: can_speak_def agreed_version_def peer_meets_floor_def False)
qed

theorem version_agreement_witness: "can_speak 3 = peer_meets_floor 3 \<and> agreed_version 3 = 3"
proof -
  have "agreed_version 3 = 3" using version_agreement [of 3] by (simp add: PROTOCOL_VERSION_def)
  with version_agreement [of 3] show ?thesis by simp
qed

end
