(* ===== verification/Chunk_Transfer.thy ===== *)
theory Chunk_Transfer
  imports Frame
begin

text \<open>
  The two ends of one chunked transfer (\<open>crates/proto/src/transfer.rs\<close>, first half): the windowed
  \<open>TransferSender\<close>, the \<open>TransferReceiver\<close> and the identifiers. A source is the list of results
  its coming \<open>read\<close> calls have in stock, a stream sink the bytes it took and the results of its
  coming calls. The lemmas show the sender's window and that the chunks it hands out are the
  source's bytes in order; a step relation runs both ends over a connection with acknowledgements
  in flight, and its invariant gives that no chunk is ever refused and that every byte arrives.
\<close>

section \<open>Limits and errors\<close>

definition WINDOW_CHUNKS :: nat where "WINDOW_CHUNKS = 8"

definition GLOBAL_WINDOW_CHUNKS :: nat where "GLOBAL_WINDOW_CHUNKS = WINDOW_CHUNKS * 2"

definition MAX_MEMORY_TRANSFER_SIZE :: nat where "MAX_MEMORY_TRANSFER_SIZE = 64 * 1024 * 1024"

definition MAX_CONCURRENT_MEMORY_TRANSFERS :: nat where "MAX_CONCURRENT_MEMORY_TRANSFERS = 2"

datatype transfer_error =
    OutOfOrder nat nat
  | TooLong nat nat
  | Truncated nat nat
  | ChunkTooLarge nat
  | TransferTooLarge nat
  | TransferIo string

fun show_transfer_error :: "transfer_error \<Rightarrow> string" where
  "show_transfer_error (OutOfOrder expected got) =
     ''chunk out of order: expected '' @ decimal expected @ '', got '' @ decimal got"
| "show_transfer_error (TooLong expected got) =
     ''transfer longer than offered: '' @ decimal got @ '' > '' @ decimal expected"
| "show_transfer_error (Truncated expected got) =
     ''transfer truncated: '' @ decimal got @ '' of '' @ decimal expected @ '' bytes''"
| "show_transfer_error (ChunkTooLarge n) = ''chunk of '' @ decimal n @ '' bytes exceeds the limit''"
| "show_transfer_error (TransferTooLarge n) = ''transfer of '' @ decimal n @ '' bytes is too large''"
| "show_transfer_error (TransferIo e) = ''i/o error: '' @ e"

section \<open>Sources and sinks\<close>

text \<open>
  What a \<open>Read\<close> has in stock: bytes it hands out as asked for, a call that would block, a call
  that fails. Past the end of the list a read returns no bytes, which is the end of the input.
\<close>

datatype read_event = Bytes "u8 list" | ReadBlocks | ReadFails string

type_synonym source = "read_event list"

datatype read_result = ReadOk "u8 list" | ReadWouldBlock | ReadErr string

fun read_source :: "nat \<Rightarrow> source \<Rightarrow> read_result \<times> source" where
  "read_source n [] = (ReadOk [], [])"
| "read_source n (Bytes bs # src) =
     (ReadOk (take n bs), if n < length bs then Bytes (drop n bs) # src else src)"
| "read_source n (ReadBlocks # src) = (ReadWouldBlock, src)"
| "read_source n (ReadFails e # src) = (ReadErr e, src)"

text \<open>
  A sink: a vector in memory, whose writes cannot fail, or a stream with the results of its coming
  \<open>write_all\<close> and \<open>flush\<close> calls, which succeed past the end of the list.
\<close>

datatype io_fail = FailBlocked string | FailOther string

fun show_fail :: "io_fail \<Rightarrow> string" where
  "show_fail (FailBlocked e) = e"
| "show_fail (FailOther e) = e"

datatype sink = Memory "u8 list" | Stream "u8 list" "io_fail option list"

fun sink_bytes :: "sink \<Rightarrow> u8 list" where
  "sink_bytes (Memory v) = v"
| "sink_bytes (Stream out _) = out"

fun in_memory :: "sink \<Rightarrow> bool" where
  "in_memory (Memory _) = True"
| "in_memory (Stream _ _) = False"

fun sink_write_all :: "u8 list \<Rightarrow> sink \<Rightarrow> io_fail option \<times> sink" where
  "sink_write_all bs (Memory v) = (None, Memory (v @ bs))"
| "sink_write_all bs (Stream out (Some e # rs)) = (Some e, Stream out rs)"
| "sink_write_all bs (Stream out (None # rs)) = (None, Stream (out @ bs) rs)"
| "sink_write_all bs (Stream out []) = (None, Stream (out @ bs) [])"

fun sink_flush :: "sink \<Rightarrow> io_fail option \<times> sink" where
  "sink_flush (Memory v) = (None, Memory v)"
| "sink_flush (Stream out (r # rs)) = (r, Stream out rs)"
| "sink_flush (Stream out []) = (None, Stream out [])"

lemma sink_write_all_ok:
  "sink_write_all bs s = (None, s') \<Longrightarrow> sink_bytes s' = sink_bytes s @ bs \<and> in_memory s' = in_memory s"
  by (induction bs s rule: sink_write_all.induct) auto

lemma sink_flush_keeps: "sink_flush s = (r, s') \<Longrightarrow> sink_bytes s' = sink_bytes s \<and> in_memory s' = in_memory s"
  by (induction s rule: sink_flush.induct) auto

section \<open>The sender\<close>

record sender =
  snd_id :: u64
  snd_source :: source
  snd_total :: nat
  snd_sent :: nat
  snd_next_seq :: nat
  snd_acked :: nat
  snd_eof :: bool
  snd_partial :: "u8 list"

definition sender_new :: "u64 \<Rightarrow> nat \<Rightarrow> source \<Rightarrow> sender" where
  "sender_new i tot src =
     \<lparr>snd_id = i, snd_source = src, snd_total = tot, snd_sent = 0, snd_next_seq = 0,
      snd_acked = 0, snd_eof = (tot = 0), snd_partial = []\<rparr>"

definition sender_in_flight :: "sender \<Rightarrow> nat" where
  "sender_in_flight s = sub32 (snd_next_seq s) (snd_acked s)"

definition may_send :: "sender \<Rightarrow> bool" where
  "may_send s \<longleftrightarrow> \<not> snd_eof s \<and> sub32 (snd_next_seq s) (snd_acked s) < WINDOW_CHUNKS"

text \<open>
  The read loop of \<open>next_chunk\<close>: how it ended (\<open>ReadOk []\<close> when the chunk is full or the source
  ended), the bytes filled so far, and the source left.
\<close>

function fill_chunk :: "nat \<Rightarrow> u8 list \<Rightarrow> source \<Rightarrow> read_result \<times> u8 list \<times> source" where
  "fill_chunk want buf src =
     (if length buf < want then
        case read_source (want - length buf) src of
          (ReadOk bs, src') \<Rightarrow>
            if bs = [] then (ReadOk [], buf, src') else fill_chunk want (buf @ bs) src'
        | (ReadWouldBlock, src') \<Rightarrow> (ReadWouldBlock, buf, src')
        | (ReadErr e, src') \<Rightarrow> (ReadErr e, buf, src')
      else (ReadOk [], buf, src))"
  by pat_completeness auto
termination
  by (relation "measure (\<lambda>(want, buf, src). want - length buf)") (auto simp: length_greater_0_conv [symmetric] simp del: length_greater_0_conv)

declare fill_chunk.simps [simp del]

definition next_chunk :: "sender \<Rightarrow> (transfer_error + (nat \<times> u8 list) option) \<times> sender" where
  "next_chunk s =
     (if \<not> may_send s then (Inr None, s)
      else let rest = snd_total s - snd_sent s in
        if rest = 0 then (Inr None, s\<lparr>snd_eof := True\<rparr>)
        else let want = min CHUNK_SIZE rest in
          case fill_chunk want (snd_partial s) (snd_source s) of
            (ReadWouldBlock, buf, src) \<Rightarrow> (Inr None, s\<lparr>snd_source := src, snd_partial := buf\<rparr>)
          | (ReadErr e, buf, src) \<Rightarrow> (Inl (TransferIo e), s\<lparr>snd_source := src, snd_partial := []\<rparr>)
          | (ReadOk _, buf, src) \<Rightarrow>
              let s = s\<lparr>snd_source := src, snd_partial := []\<rparr>; filled = length buf in
              if filled = 0 then (Inr None, s\<lparr>snd_eof := True\<rparr>)
              else let sent = add64 (snd_sent s) filled; seq = snd_next_seq s in
                (Inr (Some (seq, take want buf)),
                 s\<lparr>snd_sent := sent, snd_next_seq := add32 seq 1,
                   snd_eof := (snd_eof s \<or> snd_total s \<le> sent \<or> filled < want)\<rparr>))"

definition on_ack :: "nat \<Rightarrow> sender \<Rightarrow> sender" where
  "on_ack seq s =
     (if snd_acked s \<le> seq \<and> seq < snd_next_seq s then s\<lparr>snd_acked := add32 seq 1\<rparr> else s)"

definition is_drained :: "sender \<Rightarrow> bool" where "is_drained s = snd_eof s"

definition sender_complete :: "sender \<Rightarrow> bool" where
  "sender_complete s \<longleftrightarrow> snd_eof s \<and> snd_acked s = snd_next_seq s"

definition sender_progress :: "sender \<Rightarrow> nat \<times> nat" where
  "sender_progress s = (snd_sent s, snd_total s)"

section \<open>The receiver\<close>

record receiver =
  rcv_id :: u64
  rcv_sink :: sink
  rcv_expected :: nat
  rcv_received :: nat
  rcv_next_seq :: nat

definition receiver_new :: "u64 \<Rightarrow> nat \<Rightarrow> sink \<Rightarrow> receiver" where
  "receiver_new i expected s =
     \<lparr>rcv_id = i, rcv_sink = s, rcv_expected = expected, rcv_received = 0, rcv_next_seq = 0\<rparr>"

definition receive_chunk :: "nat \<Rightarrow> u8 list \<Rightarrow> receiver \<Rightarrow> (transfer_error + nat) \<times> receiver" where
  "receive_chunk seq data r =
     (if CHUNK_SIZE < length data then (Inl (ChunkTooLarge (length data)), r)
      else if seq \<noteq> rcv_next_seq r then (Inl (OutOfOrder (rcv_next_seq r) seq), r)
      else let after = add64 (rcv_received r) (length data) in
        if rcv_expected r < after then (Inl (TooLong (rcv_expected r) after), r)
        else (case sink_write_all data (rcv_sink r) of
            (Some e, sk) \<Rightarrow> (Inl (TransferIo (show_fail e)), r\<lparr>rcv_sink := sk\<rparr>)
          | (None, sk) \<Rightarrow>
              (Inr seq, r\<lparr>rcv_sink := sk, rcv_received := after,
                          rcv_next_seq := add32 (rcv_next_seq r) 1\<rparr>)))"

definition receiver_finish :: "receiver \<Rightarrow> transfer_error + sink" where
  "receiver_finish r =
     (if rcv_received r \<noteq> rcv_expected r then Inl (Truncated (rcv_expected r) (rcv_received r))
      else (case sink_flush (rcv_sink r) of
          (Some e, _) \<Rightarrow> Inl (TransferIo (show_fail e))
        | (None, sk) \<Rightarrow> Inr sk))"

definition receiver_progress :: "receiver \<Rightarrow> nat \<times> nat" where
  "receiver_progress r = (rcv_received r, rcv_expected r)"

definition receiver_complete :: "receiver \<Rightarrow> bool" where
  "receiver_complete r \<longleftrightarrow> rcv_received r = rcv_expected r"

section \<open>Identifiers\<close>

definition ids_new :: "bool \<Rightarrow> u64" where
  "ids_new origin_bit = push_bit 63 (of_bool origin_bit)"

definition ids_allocate :: "u64 \<Rightarrow> u64 \<times> u64" where
  "ids_allocate nxt = (nxt, nxt + 1)"

section \<open>What the sender hands out\<close>

fun stock :: "source \<Rightarrow> u8 list" where
  "stock [] = []"
| "stock (Bytes bs # src) = bs @ stock src"
| "stock (ReadBlocks # src) = stock src"
| "stock (ReadFails e # src) = stock src"

definition steady :: "source \<Rightarrow> bool" where
  "steady src \<longleftrightarrow> (\<forall>e \<in> set src. case e of Bytes bs \<Rightarrow> bs \<noteq> [] | _ \<Rightarrow> False)"

lemma read_source_stock:
  "read_source n src = (r, src') \<Longrightarrow> (case r of ReadOk bs \<Rightarrow> bs | _ \<Rightarrow> []) @ stock src' = stock src"
  by (induction n src rule: read_source.induct) (auto split: if_splits)

lemma read_source_length: "read_source n src = (ReadOk bs, src') \<Longrightarrow> length bs \<le> n"
  by (induction n src rule: read_source.induct) auto

lemma read_source_steady:
  assumes "read_source n src = (r, src')" "steady src" "0 < n" "stock src \<noteq> []"
  shows "steady src' \<and> (\<exists>bs. r = ReadOk bs \<and> bs \<noteq> [])"
  using assms by (induction n src rule: read_source.induct) (auto simp: steady_def split: if_splits)

lemma fill_chunk_stock:
  "fill_chunk want buf src = (r, buf', src') \<Longrightarrow>
     buf' @ stock src' = buf @ stock src \<and> length buf \<le> length buf' \<and>
     (length buf \<le> want \<longrightarrow> length buf' \<le> want) \<and> (r = ReadWouldBlock \<longrightarrow> length buf' < want)"
proof (induction want buf src rule: fill_chunk.induct)
  case (1 want buf src)
  show ?case
  proof (cases "length buf < want")
    case more: True
    obtain r0 src0 where rd: "read_source (want - length buf) src = (r0, src0)" by fastforce
    note sup = read_source_stock [OF rd]
    show ?thesis
    proof (cases r0)
      case (ReadOk bs)
      show ?thesis
      proof (cases "bs = []")
        case True
        then show ?thesis using 1(2) more rd sup ReadOk by (auto simp: fill_chunk.simps [of want buf])
      next
        case False
        have l: "length bs \<le> want - length buf" using read_source_length rd ReadOk by blast
        have "fill_chunk want (buf @ bs) src0 = (r, buf', src')"
          using 1(2) more rd ReadOk False by (simp add: fill_chunk.simps [of want buf])
        from 1(1) [OF more rd [symmetric] ReadOk False this] l sup ReadOk more show ?thesis by auto
      qed
    qed (use 1(2) more rd sup in \<open>auto simp: fill_chunk.simps [of want buf]\<close>)
  next
    case False
    then show ?thesis using 1(2) by (auto simp: fill_chunk.simps [of want buf])
  qed
qed

lemma fill_chunk_steady:
  "fill_chunk want buf src = (r, buf', src') \<Longrightarrow> steady src \<Longrightarrow> length buf \<le> want \<Longrightarrow>
     want \<le> length buf + length (stock src) \<Longrightarrow>
     steady src' \<and> length buf' = want \<and> (\<exists>bs. r = ReadOk bs)"
proof (induction want buf src rule: fill_chunk.induct)
  case (1 want buf src)
  show ?case
  proof (cases "length buf < want")
    case more: True
    obtain r0 src0 where rd: "read_source (want - length buf) src = (r0, src0)" by fastforce
    from more 1(5) have "0 < want - length buf" "stock src \<noteq> []" by auto
    from read_source_steady [OF rd 1(3) this] obtain bs
      where bs: "r0 = ReadOk bs" "bs \<noteq> []" and st: "steady src0" by blast
    have l: "length bs \<le> want - length buf" using read_source_length rd bs by blast
    have sup: "bs @ stock src0 = stock src" using read_source_stock [OF rd] bs by simp
    then have len: "length (stock src) = length bs + length (stock src0)"
      by (metis length_append)
    have "fill_chunk want (buf @ bs) src0 = (r, buf', src')"
      using 1(2) more rd bs by (simp add: fill_chunk.simps [of want buf])
    from 1(1) [OF more rd [symmetric] bs this st] l len 1(5) more show ?thesis by auto
  next
    case False
    then show ?thesis using 1 by (auto simp: fill_chunk.simps [of want buf])
  qed
qed

text \<open>
  The sender's invariant, for offers of less than \<open>2^47\<close> bytes (128 TiB), which number their
  chunks within \<open>u32\<close>: the window, the numbering, and that the bytes held back fit in the next
  chunk.
\<close>

definition sender_ok :: "sender \<Rightarrow> bool" where
  "sender_ok s \<longleftrightarrow> snd_total s < 2 ^ 47 \<and> snd_sent s \<le> snd_total s \<and>
     snd_acked s \<le> snd_next_seq s \<and> snd_next_seq s \<le> snd_acked s + WINDOW_CHUNKS \<and>
     (\<not> snd_eof s \<longrightarrow> snd_sent s < snd_total s \<and> snd_next_seq s * CHUNK_SIZE = snd_sent s \<and>
        length (snd_partial s) < min CHUNK_SIZE (snd_total s - snd_sent s)) \<and>
     snd_next_seq s * CHUNK_SIZE < snd_sent s + CHUNK_SIZE"

lemma sender_ok_new: "tot < 2 ^ 47 \<Longrightarrow> sender_ok (sender_new i tot src)"
  by (simp add: sender_ok_def sender_new_def WINDOW_CHUNKS_def CHUNK_SIZE_def)

lemma sender_ok_seq: "sender_ok s \<Longrightarrow> snd_next_seq s < 2 ^ 31 + 1"
  by (simp add: sender_ok_def CHUNK_SIZE_def)

lemma sender_ok_in_flight:
  "sender_ok s \<Longrightarrow> sub32 (snd_next_seq s) (snd_acked s) = snd_next_seq s - snd_acked s"
  using sender_ok_seq [of s] by (intro no_wrap) (auto simp: sender_ok_def)

lemma sender_window: "sender_ok s \<Longrightarrow> sender_in_flight s \<le> WINDOW_CHUNKS"
  by (simp add: sender_in_flight_def sender_ok_in_flight) (auto simp: sender_ok_def)

lemma on_ack_ok: "sender_ok s \<Longrightarrow> sender_ok (on_ack seq s)"
  using sender_ok_seq [of s]
  by (auto simp: on_ack_def sender_ok_def no_wrap)

lemma on_ack_in_flight: "sender_ok s \<Longrightarrow> sender_in_flight (on_ack seq s) \<le> sender_in_flight s"
  using on_ack_ok [of s seq] sender_ok_seq [of s]
  by (simp add: sender_in_flight_def sender_ok_in_flight) (auto simp: on_ack_def no_wrap)

text \<open>The ways \<open>next_chunk\<close> can go.\<close>

lemma next_chunk_cases:
  assumes nc: "next_chunk s = (r, s')" and ok: "sender_ok s"
  obtains (Closed) "\<not> may_send s" "r = Inr None" "s' = s"
  | (Blocked) buf src where "may_send s" "r = Inr None" "s' = s\<lparr>snd_source := src, snd_partial := buf\<rparr>"
      "buf @ stock src = snd_partial s @ stock (snd_source s)"
      "length buf < min CHUNK_SIZE (snd_total s - snd_sent s)" "\<not> steady (snd_source s) \<or>
         length (snd_partial s @ stock (snd_source s)) < snd_total s - snd_sent s"
  | (Failed) e src where "may_send s" "r = Inl (TransferIo e)" "s' = s\<lparr>snd_source := src, snd_partial := []\<rparr>"
      "\<not> steady (snd_source s) \<or>
         length (snd_partial s @ stock (snd_source s)) < snd_total s - snd_sent s"
  | (Ended) src where "may_send s" "r = Inr None" "s' = s\<lparr>snd_source := src, snd_partial := [], snd_eof := True\<rparr>"
      "stock src = snd_partial s @ stock (snd_source s)" "\<not> steady (snd_source s) \<or>
         length (snd_partial s @ stock (snd_source s)) < snd_total s - snd_sent s"
  | (Chunk) c src where "may_send s" "r = Inr (Some (snd_next_seq s, c))" "c \<noteq> []"
      "length c \<le> min CHUNK_SIZE (snd_total s - snd_sent s)"
      "c @ stock src = snd_partial s @ stock (snd_source s)"
      "s' = s\<lparr>snd_source := src, snd_partial := [], snd_sent := snd_sent s + length c,
              snd_next_seq := snd_next_seq s + 1,
              snd_eof := (snd_total s \<le> snd_sent s + length c \<or>
                length c < min CHUNK_SIZE (snd_total s - snd_sent s))\<rparr>"
      "steady (snd_source s) \<Longrightarrow> snd_total s - snd_sent s \<le> length (snd_partial s @ stock (snd_source s)) \<Longrightarrow>
         steady src \<and> length c = min CHUNK_SIZE (snd_total s - snd_sent s)"
proof (cases "may_send s")
  case False
  then have "next_chunk s = (Inr None, s)" by (simp add: next_chunk_def)
  then show ?thesis using nc by (intro Closed [OF False]) auto
next
  case may: True
  then have e: "\<not> snd_eof s" by (simp add: may_send_def)
  define want where "want = min CHUNK_SIZE (snd_total s - snd_sent s)"
  obtain r0 buf src where f: "fill_chunk want (snd_partial s) (snd_source s) = (r0, buf, src)"
    by (metis prod_cases3)
  note ok' = ok [unfolded sender_ok_def]
  have part: "length (snd_partial s) \<le> want" using ok' e by (auto simp: want_def)
  note st = fill_chunk_stock [OF f]
  have want0: "0 < want" using ok' e by (auto simp: want_def CHUNK_SIZE_def)
  have rest: "snd_total s - snd_sent s \<noteq> 0" using ok' e by auto
  have lb: "length buf \<le> want" using st part by blast
  have steady_fill: "steady src \<and> length buf = want \<and> (\<exists>bs. r0 = ReadOk bs)"
    if "steady (snd_source s)" "snd_total s - snd_sent s \<le> length (snd_partial s @ stock (snd_source s))"
    using fill_chunk_steady [OF f that(1) part] that(2) by (simp add: want_def)
  have small: "snd_sent s + length buf < 2 ^ 64" "snd_next_seq s + 1 < 2 ^ 32"
    using ok' lb sender_ok_seq [OF ok] by (auto simp: want_def)
  have short: "\<not> steady (snd_source s) \<or>
      length (snd_partial s @ stock (snd_source s)) < snd_total s - snd_sent s"
    if "\<not> (length buf = want \<and> (\<exists>bs. r0 = ReadOk bs))"
    using that steady_fill by (metis not_le)
  have stocks: "buf @ stock src = snd_partial s @ stock (snd_source s)" using st by blast
  show ?thesis
  proof (cases r0)
    case (ReadOk bs)
    show ?thesis
    proof (cases "buf = []")
      case True
      have "next_chunk s = (Inr None, s\<lparr>snd_source := src, snd_partial := [], snd_eof := True\<rparr>)"
        using may rest f [unfolded want_def] by (simp add: next_chunk_def Let_def ReadOk True)
      moreover have "stock src = snd_partial s @ stock (snd_source s)" using stocks True by simp
      ultimately show ?thesis using nc may short want0 True Ended by auto
    next
      case False
      have "take want buf = buf" using lb by simp
      then have "next_chunk s = (Inr (Some (snd_next_seq s, buf)),
          s\<lparr>snd_source := src, snd_partial := [], snd_sent := snd_sent s + length buf,
            snd_next_seq := snd_next_seq s + 1,
            snd_eof := (snd_total s \<le> snd_sent s + length buf \<or> length buf < want)\<rparr>)"
        using may rest f [unfolded want_def] False e small
        by (simp add: next_chunk_def Let_def ReadOk add64_def add32_def want_def)
      then have "r = Inr (Some (snd_next_seq s, buf))"
        "s' = s\<lparr>snd_source := src, snd_partial := [], snd_sent := snd_sent s + length buf,
            snd_next_seq := snd_next_seq s + 1,
            snd_eof := (snd_total s \<le> snd_sent s + length buf \<or> length buf < want)\<rparr>"
        using nc by simp_all
      then show ?thesis using may False lb stocks steady_fill unfolding want_def by (intro Chunk) auto
    qed
  next
    case ReadWouldBlock
    have "next_chunk s = (Inr None, s\<lparr>snd_source := src, snd_partial := buf\<rparr>)"
      using may rest f [unfolded want_def] by (simp add: next_chunk_def Let_def ReadWouldBlock)
    moreover have "length buf < want" using st ReadWouldBlock by blast
    ultimately show ?thesis
      using nc may stocks short ReadWouldBlock unfolding want_def by (intro Blocked) auto
  next
    case (ReadErr e)
    have "next_chunk s = (Inl (TransferIo e), s\<lparr>snd_source := src, snd_partial := []\<rparr>)"
      using may rest f [unfolded want_def] by (simp add: next_chunk_def Let_def ReadErr)
    then show ?thesis using nc may short ReadErr Failed by auto
  qed
qed

lemma next_chunk_ok:
  assumes "next_chunk s = (r, s')" "sender_ok s"
  shows "sender_ok s' \<and> snd_id s' = snd_id s \<and> snd_total s' = snd_total s \<and> snd_acked s' = snd_acked s"
  using assms
proof (cases rule: next_chunk_cases)
  case (Chunk c src)
  have w: "\<not> snd_eof s" "snd_next_seq s - snd_acked s < WINDOW_CHUNKS"
    using Chunk(1) assms(2) by (auto simp: may_send_def sender_ok_in_flight)
  note ok = assms(2) [unfolded sender_ok_def]
  have full: "snd_sent s' = snd_sent s + CHUNK_SIZE" "snd_sent s' < snd_total s" if "\<not> snd_eof s'"
    using that Chunk(4,6) by auto
  have fresh: "snd_next_seq s * CHUNK_SIZE = snd_sent s" using ok w(1) by blast
  have flds: "snd_next_seq s' = snd_next_seq s + 1" "snd_sent s' = snd_sent s + length c"
    "snd_partial s' = []" "snd_id s' = snd_id s" "snd_total s' = snd_total s" "snd_acked s' = snd_acked s"
    using Chunk(6) by simp_all
  have pos: "0 < length c" "length c \<le> snd_total s - snd_sent s" using Chunk(3,4) by auto
  show ?thesis
    unfolding sender_ok_def flds
    using ok w fresh full flds pos by (auto simp: CHUNK_SIZE_def)
qed (use assms(2) in \<open>auto simp: sender_ok_def CHUNK_SIZE_def\<close>)

lemma next_chunk_in_flight:
  assumes "next_chunk s = (r, s')" "sender_ok s"
  shows "sender_in_flight s' = sender_in_flight s + (case r of Inr (Some _) \<Rightarrow> 1 | _ \<Rightarrow> 0)"
  using assms(1,2)
proof (cases rule: next_chunk_cases)
  case (Chunk c src)
  have "snd_next_seq s' = snd_next_seq s + 1" "snd_acked s' = snd_acked s" using Chunk(6) by simp_all
  moreover have "snd_acked s \<le> snd_next_seq s" using assms(2) by (simp add: sender_ok_def)
  moreover have "sender_ok s'" using next_chunk_ok [OF assms] by blast
  ultimately show ?thesis
    using assms(2) Chunk(2) sender_ok_in_flight [of s] sender_ok_in_flight [of s']
    by (simp add: sender_in_flight_def)
qed (simp_all add: sender_in_flight_def)

section \<open>A transfer over a connection\<close>

text \<open>
  Both ends of an accepted transfer with what is under way between them: chunks towards the
  receiver and acknowledgements back, each delivered in order as TCP does. A step is a call of
  \<open>next_chunk\<close>, the arrival of a chunk, or the arrival of an acknowledgement.
\<close>

record link =
  tx :: sender
  rx :: receiver
  chunks_on_wire :: "(nat \<times> u8 list) list"
  acks_on_wire :: "nat list"

definition link_start :: "u64 \<Rightarrow> nat \<Rightarrow> source \<Rightarrow> link" where
  "link_start i tot src =
     \<lparr>tx = sender_new i tot src, rx = receiver_new i tot (Memory []), chunks_on_wire = [], acks_on_wire = []\<rparr>"

inductive link_step :: "link \<Rightarrow> link \<Rightarrow> bool" where
  link_send: "next_chunk (tx l) = (Inr (Some ch), t) \<Longrightarrow>
    link_step l (l\<lparr>tx := t, chunks_on_wire := chunks_on_wire l @ [ch]\<rparr>)"
| link_wait: "next_chunk (tx l) = (Inr None, t) \<Longrightarrow> link_step l (l\<lparr>tx := t\<rparr>)"
| link_deliver: "chunks_on_wire l = (seq, data) # q \<Longrightarrow> receive_chunk seq data (rx l) = (Inr a, r) \<Longrightarrow>
    link_step l (l\<lparr>rx := r, chunks_on_wire := q, acks_on_wire := acks_on_wire l @ [a]\<rparr>)"
| link_ack: "acks_on_wire l = a # q \<Longrightarrow>
    link_step l (l\<lparr>tx := on_ack a (tx l), acks_on_wire := q\<rparr>)"

inductive_cases link_stepE [elim]: "link_step l l'"

definition link_ok :: "nat \<Rightarrow> u8 list \<Rightarrow> link \<Rightarrow> bool" where
  "link_ok tot bs l \<longleftrightarrow>
     sender_ok (tx l) \<and> snd_total (tx l) = tot \<and> rcv_expected (rx l) = tot \<and>
     map fst (chunks_on_wire l) = [rcv_next_seq (rx l)..<snd_next_seq (tx l)] \<and>
     acks_on_wire l = [snd_acked (tx l)..<rcv_next_seq (rx l)] \<and>
     snd_acked (tx l) \<le> rcv_next_seq (rx l) \<and> rcv_next_seq (rx l) \<le> snd_next_seq (tx l) \<and>
     rcv_received (rx l) + length (concat (map snd (chunks_on_wire l))) = snd_sent (tx l) \<and>
     (\<forall>c \<in> set (chunks_on_wire l). snd c \<noteq> [] \<and> length (snd c) \<le> CHUNK_SIZE) \<and>
     (\<exists>got. rcv_sink (rx l) = Memory got \<and> length got = rcv_received (rx l) \<and>
        got @ concat (map snd (chunks_on_wire l)) @ snd_partial (tx l) @ stock (snd_source (tx l)) = bs)"

lemma link_ok_start: "tot < 2 ^ 47 \<Longrightarrow> link_ok tot (stock src) (link_start i tot src)"
  by (simp add: link_ok_def link_start_def sender_ok_new) (simp add: sender_new_def receiver_new_def)

text \<open>The chunk in front is the one the receiver expects, and it takes it.\<close>

lemma link_ok_accepts:
  assumes ok: "link_ok tot bs l" and ch: "chunks_on_wire l = (seq, data) # q"
  shows "\<exists>got. rcv_sink (rx l) = Memory got \<and> seq = rcv_next_seq (rx l) \<and>
    receive_chunk seq data (rx l) =
      (Inr seq, (rx l)\<lparr>rcv_sink := Memory (got @ data), rcv_received := rcv_received (rx l) + length data,
                       rcv_next_seq := rcv_next_seq (rx l) + 1\<rparr>)"
proof -
  note o = ok [unfolded link_ok_def]
  obtain got where got: "rcv_sink (rx l) = Memory got" using o by blast
  have s: "sender_ok (tx l)" using o by blast
  have seqs: "seq # map fst q = [rcv_next_seq (rx l)..<snd_next_seq (tx l)]" using o ch by auto
  then have lt: "rcv_next_seq (rx l) < snd_next_seq (tx l)" by (metis list.distinct(1) upt_eq_Nil_conv not_le)
  then have seq: "seq = rcv_next_seq (rx l)" using seqs by (simp add: upt_conv_Cons)
  have len: "length data \<le> CHUNK_SIZE" using o ch by auto
  have "rcv_received (rx l) + length data \<le> snd_sent (tx l)" using o ch by auto
  then have le: "rcv_received (rx l) + length data \<le> tot" "tot < 2 ^ 47" using s o by (auto simp: sender_ok_def)
  then have add: "add64 (rcv_received (rx l)) (length data) = rcv_received (rx l) + length data"
    by (simp add: add64_def)
  have "add32 (rcv_next_seq (rx l)) 1 = rcv_next_seq (rx l) + 1"
    using lt sender_ok_seq [OF s] by (intro no_wrap) simp
  then show ?thesis using got seq len le o add by (auto simp: receive_chunk_def)
qed

lemma on_ack_next:
  "sender_ok s \<Longrightarrow> snd_acked s < snd_next_seq s \<Longrightarrow> on_ack (snd_acked s) s = s\<lparr>snd_acked := snd_acked s + 1\<rparr>"
  using sender_ok_seq [of s] by (simp add: on_ack_def no_wrap)

lemma link_ok_step:
  assumes "link_step l l'" and ok: "link_ok tot bs l"
  shows "link_ok tot bs l'"
  using assms(1)
proof cases
  case (link_send ch t)
  note o = ok [unfolded link_ok_def]
  have s: "sender_ok (tx l)" using o by blast
  from link_send(2) s show ?thesis
  proof (cases rule: next_chunk_cases)
    case (Chunk c src)
    then have ch: "ch = (snd_next_seq (tx l), c)" by simp
    have t: "sender_ok t" "snd_total t = tot" using next_chunk_ok [OF link_send(2) s] o by auto
    have le: "length c \<le> CHUNK_SIZE" using Chunk(4) by simp
    show ?thesis
      unfolding link_ok_def link_send(1)
      using o t ch Chunk(3,5,6) le by auto
  qed auto
next
  case (link_wait t)
  note o = ok [unfolded link_ok_def]
  have s: "sender_ok (tx l)" using o by blast
  have t: "sender_ok t" "snd_total t = tot" "snd_acked t = snd_acked (tx l)"
    using next_chunk_ok [OF link_wait(2) s] o by auto
  from link_wait(2) s have "snd_next_seq t = snd_next_seq (tx l)" "snd_sent t = snd_sent (tx l)"
    "snd_partial t @ stock (snd_source t) = snd_partial (tx l) @ stock (snd_source (tx l))"
    by (cases rule: next_chunk_cases; simp)+
  with o t show ?thesis unfolding link_ok_def link_wait(1) by auto
next
  case (link_deliver seq data q a r)
  note o = ok [unfolded link_ok_def]
  from link_ok_accepts [OF ok link_deliver(2)] obtain got where
    got: "rcv_sink (rx l) = Memory got" "seq = rcv_next_seq (rx l)"
    and r: "a = seq" "r = (rx l)\<lparr>rcv_sink := Memory (got @ data),
        rcv_received := rcv_received (rx l) + length data, rcv_next_seq := rcv_next_seq (rx l) + 1\<rparr>"
    using link_deliver(3) by auto
  have seqs: "seq # map fst q = [rcv_next_seq (rx l)..<snd_next_seq (tx l)]" using o link_deliver(2) by auto
  then have lt: "rcv_next_seq (rx l) < snd_next_seq (tx l)" by (metis list.distinct(1) upt_eq_Nil_conv not_le)
  then have q: "map fst q = [rcv_next_seq (rx l) + 1..<snd_next_seq (tx l)]"
    using seqs by (simp add: upt_conv_Cons)
  show ?thesis
    unfolding link_ok_def link_deliver(1)
    using o got r lt q link_deliver(2) by auto
next
  case (link_ack a q)
  note o = ok [unfolded link_ok_def]
  have s: "sender_ok (tx l)" using o by blast
  have acks: "a # q = [snd_acked (tx l)..<rcv_next_seq (rx l)]" using o link_ack(2) by auto
  then have lt: "snd_acked (tx l) < rcv_next_seq (rx l)" by (metis list.distinct(1) upt_eq_Nil_conv not_le)
  then have q: "a = snd_acked (tx l)" "q = [snd_acked (tx l) + 1..<rcv_next_seq (rx l)]"
    using acks by (simp_all add: upt_conv_Cons)
  have "snd_acked (tx l) < snd_next_seq (tx l)" using lt o by linarith
  then have "on_ack a (tx l) = (tx l)\<lparr>snd_acked := snd_acked (tx l) + 1\<rparr>" using on_ack_next s q by simp
  then show ?thesis
    unfolding link_ok_def link_ack(1)
    using o q lt on_ack_ok [OF s, of a] by auto
qed

interpretation link_states: invariant_system "\<lambda>l. l = link_start i tot src \<and> tot < 2 ^ 47" link_step
  "link_ok tot (stock src)" for i tot src
  by unfold_locales (auto simp: link_ok_start intro: link_ok_step)

section \<open>Progress\<close>

text \<open>
  With a source that neither blocks nor fails nor ends early, every step but a wait at a closed
  window works off some of the transfer, and while it is not complete some such step is possible.
\<close>

definition link_live :: "nat \<Rightarrow> u8 list \<Rightarrow> link \<Rightarrow> bool" where
  "link_live tot bs l \<longleftrightarrow> link_ok tot bs l \<and>
     (if snd_eof (tx l) then snd_sent (tx l) = tot
      else steady (snd_source (tx l)) \<and>
        tot - snd_sent (tx l) \<le> length (snd_partial (tx l) @ stock (snd_source (tx l))))"

definition link_work :: "link \<Rightarrow> nat" where
  "link_work l = 3 * (snd_total (tx l) - snd_sent (tx l)) + 2 * length (chunks_on_wire l) + length (acks_on_wire l)"

lemma next_chunk_steady:
  assumes nc: "next_chunk s = (r, s')" and ok: "sender_ok s" and st: "steady (snd_source s)"
    and enough: "snd_total s - snd_sent s \<le> length (snd_partial s @ stock (snd_source s))"
  shows "if may_send s
    then (\<exists>c. r = Inr (Some (snd_next_seq s, c)) \<and> 0 < length c \<and> snd_sent s' = snd_sent s + length c \<and>
        (if snd_eof s' then snd_sent s' = snd_total s
         else steady (snd_source s') \<and>
           snd_total s - snd_sent s' \<le> length (snd_partial s' @ stock (snd_source s'))))
    else r = Inr None \<and> s' = s"
  using nc ok
proof (cases rule: next_chunk_cases)
  case (Chunk c src)
  have full: "steady src" "length c = min CHUNK_SIZE (snd_total s - snd_sent s)"
    using Chunk(7) [OF st enough] by blast+
  have sent: "snd_sent s \<le> snd_total s" using ok by (simp add: sender_ok_def)
  have len: "length c + length (stock src) = length (snd_partial s @ stock (snd_source s))"
    using Chunk(5) by (metis length_append)
  have "snd_sent s + length c = snd_total s" if "snd_total s \<le> snd_sent s + length c"
    using that full(2) sent by auto
  then show ?thesis using Chunk(1,2,3,6) full enough len by auto
qed (use st enough in auto)

lemma link_live_step:
  assumes step: "link_step l l'" and live: "link_live tot bs l"
  shows "link_live tot bs l' \<and> (l' = l \<or> link_work l' < link_work l)"
proof -
  have ok: "link_ok tot bs l" "link_ok tot bs l'" using live link_ok_step [OF step] by (auto simp: link_live_def)
  then have s: "sender_ok (tx l)" "sender_ok (tx l')" and tot: "snd_total (tx l) = tot" "snd_total (tx l') = tot"
    by (auto simp: link_ok_def)
  have sent: "snd_sent (tx l') \<le> tot" using s(2) tot by (simp add: sender_ok_def)
  show ?thesis
    using step
  proof cases
    case (link_send ch t)
    then have may: "may_send (tx l)" by (auto simp: next_chunk_def split: if_splits)
    then have "\<not> snd_eof (tx l)" by (simp add: may_send_def)
    then have "steady (snd_source (tx l))"
      "snd_total (tx l) - snd_sent (tx l) \<le> length (snd_partial (tx l) @ stock (snd_source (tx l)))"
      using live tot by (simp_all add: link_live_def)
    from next_chunk_steady [OF link_send(2) s(1) this, unfolded if_P [OF may] tot]
    obtain c :: "u8 list" where c: "0 < length c" "snd_sent t = snd_sent (tx l) + length c"
      and t: "if snd_eof t then snd_sent t = tot else steady (snd_source t) \<and>
          tot - snd_sent t \<le> length (snd_partial t @ stock (snd_source t))"
      by blast
    have "snd_sent (tx l) + length c \<le> tot" using sent c by (simp add: link_send(1))
    then have "3 * (tot - (snd_sent (tx l) + length c)) + 2 < 3 * (tot - snd_sent (tx l))"
      using c(1) by linarith
    then have "link_work l' < link_work l"
      using c tot by (simp add: link_work_def link_send(1))
    moreover have "link_live tot bs l'" using ok(2) t by (auto simp: link_live_def link_send(1) split: if_splits)
    ultimately show ?thesis by blast
  next
    case (link_wait t)
    have "t = tx l"
    proof (cases "snd_eof (tx l)")
      case True
      then show ?thesis using link_wait(2) by (simp add: next_chunk_def may_send_def)
    next
      case False
      then show ?thesis
        using next_chunk_steady [OF link_wait(2) s(1)] live tot by (auto simp: link_live_def split: if_splits)
    qed
    then show ?thesis using live link_wait(1) by simp
  next
    case (link_deliver seq data q a r)
    then show ?thesis using live ok(2) by (auto simp: link_live_def link_work_def)
  next
    case (link_ack a q)
    have "snd_eof (on_ack a (tx l)) = snd_eof (tx l)" "snd_sent (on_ack a (tx l)) = snd_sent (tx l)"
      "snd_source (on_ack a (tx l)) = snd_source (tx l)" "snd_partial (on_ack a (tx l)) = snd_partial (tx l)"
      "snd_total (on_ack a (tx l)) = snd_total (tx l)"
      by (auto simp: on_ack_def)
    then show ?thesis using live ok(2) link_ack by (auto simp: link_live_def link_work_def)
  qed
qed

definition link_done :: "link \<Rightarrow> bool" where
  "link_done l \<longleftrightarrow> sender_complete (tx l) \<and> receiver_complete (rx l)"

lemma link_live_progress:
  assumes live: "link_live tot bs l" and "\<not> link_done l"
  shows "\<exists>l'. link_step l l' \<and> link_work l' < link_work l"
proof -
  have ok: "link_ok tot bs l" using live by (simp add: link_live_def)
  note o = ok [unfolded link_ok_def]
  have s: "sender_ok (tx l)" using o by blast
  have moves: ?thesis if "link_step l l'" "l' \<noteq> l" for l' using link_live_step that live by blast
  show ?thesis
  proof (cases "chunks_on_wire l")
    case (Cons ch q)
    obtain seq data where ch: "ch = (seq, data)" by fastforce
    from link_ok_accepts [OF ok Cons [unfolded ch]] obtain r where "receive_chunk seq data (rx l) = (Inr seq, r)" by blast
    from link_step.link_deliver [OF Cons [unfolded ch] this] show ?thesis
      by (rule moves) (use Cons in \<open>auto dest: arg_cong [where f = chunks_on_wire]\<close>)
  next
    case no_chunks: Nil
    have "rcv_next_seq (rx l) = snd_next_seq (tx l)"
      using o no_chunks by (metis list.simps(8) upt_eq_Nil_conv le_antisym zero_le)
    then have r: "rcv_next_seq (rx l) = snd_next_seq (tx l)" "rcv_received (rx l) = snd_sent (tx l)"
      using o no_chunks by auto
    show ?thesis
    proof (cases "acks_on_wire l")
      case (Cons a q)
      from link_step.link_ack [OF this] show ?thesis
        by (rule moves) (use Cons in \<open>auto dest: arg_cong [where f = acks_on_wire]\<close>)
    next
      case Nil
      then have a: "snd_acked (tx l) = snd_next_seq (tx l)" using o r by auto
      have e: "\<not> snd_eof (tx l)"
        using assms r a o by (auto simp: link_done_def sender_complete_def receiver_complete_def link_live_def)
      then have may: "may_send (tx l)"
        using a sender_ok_in_flight [OF s] by (simp add: may_send_def WINDOW_CHUNKS_def)
      obtain x t where nc: "next_chunk (tx l) = (x, t)" by fastforce
      from next_chunk_steady [OF nc s] live may e o obtain c where x: "x = Inr (Some (snd_next_seq (tx l), c))"
        by (auto simp: link_live_def)
      from link_step.link_send [OF nc [unfolded x]] show ?thesis
        by (rule moves) (use no_chunks in \<open>auto dest: arg_cong [where f = chunks_on_wire]\<close>)
    qed
  qed
qed

lemma link_live_finishes:
  "link_live tot bs l \<Longrightarrow> \<exists>l'. link_step\<^sup>*\<^sup>* l l' \<and> link_live tot bs l' \<and> link_done l'"
proof (induction "link_work l" arbitrary: l rule: less_induct)
  case less
  show ?case
  proof (cases "link_done l")
    case False
    from link_live_progress [OF less(2) False] obtain l1 where "link_step l l1" "link_work l1 < link_work l" by blast
    with less(1) [OF this(2)] link_live_step [OF this(1) less(2)] show ?thesis
      by (meson converse_rtranclp_into_rtranclp)
  qed (use less in blast)
qed

lemma link_live_start:
  assumes "tot < 2 ^ 47" "steady src" "tot \<le> length (stock src)"
  shows "link_live tot (stock src) (link_start i tot src)"
proof -
  have "snd_eof (tx (link_start i tot src)) = (tot = 0)" "snd_sent (tx (link_start i tot src)) = 0"
    "snd_source (tx (link_start i tot src)) = src" "snd_partial (tx (link_start i tot src)) = []"
    by (simp_all add: link_start_def sender_new_def)
  with assms link_ok_start [of tot src i] show ?thesis by (cases "tot = 0") (auto simp: link_live_def)
qed

interpretation live_links: invariant_system
  "\<lambda>l. l = link_start i tot src \<and> tot < 2 ^ 47 \<and> steady src \<and> tot \<le> length (stock src)"
  link_step "link_live tot (stock src)" for i tot src
  by unfold_locales (auto simp: link_live_start dest: link_live_step)

section \<open>Properties\<close>

text \<open>
  C9. A transfer is exact at every moment: however sends, arrivals and acknowledgements interleave,
  the chunk in front is always accepted and acknowledged under its own number, the receiver holds
  exactly the first bytes of the source, at most \<open>WINDOW_CHUNKS\<close> chunks are unacknowledged, and a
  receiver that has everything finishes with exactly the bytes offered.
\<close>

theorem transfer_exact:
  assumes "reach (\<lambda>l. l = link_start i tot src \<and> tot < 2 ^ 47) link_step l"
  shows "(\<forall>seq data q. chunks_on_wire l = (seq, data) # q \<longrightarrow> fst (receive_chunk seq data (rx l)) = Inr seq) \<and>
    sink_bytes (rcv_sink (rx l)) = take (rcv_received (rx l)) (stock src) \<and> rcv_received (rx l) \<le> tot \<and>
    length (chunks_on_wire l) + length (acks_on_wire l) \<le> WINDOW_CHUNKS \<and>
    (receiver_complete (rx l) \<longrightarrow> receiver_finish (rx l) = Inr (Memory (take tot (stock src))))"
proof -
  have ok: "link_ok tot (stock src) l" by (rule link_states.inv_reach [OF assms])
  note o = ok [unfolded link_ok_def]
  then have s: "sender_ok (tx l)" by blast
  obtain got more where got: "rcv_sink (rx l) = Memory got" "length got = rcv_received (rx l)" "got @ more = stock src"
    using o by blast
  then have sk: "got = take (rcv_received (rx l)) (stock src)" by (metis append_eq_conv_conj)
  have len: "length (chunks_on_wire l) = snd_next_seq (tx l) - rcv_next_seq (rx l)"
    using o by (metis length_map length_upt)
  have "length (chunks_on_wire l) + length (acks_on_wire l) \<le> WINDOW_CHUNKS"
    using o s by (auto simp: len) (auto simp: sender_ok_def)
  moreover have "rcv_received (rx l) \<le> tot" using o s unfolding sender_ok_def by linarith
  moreover have "receiver_complete (rx l) \<Longrightarrow> receiver_finish (rx l) = Inr (Memory (take tot (stock src)))"
    using o got sk by (simp add: receiver_complete_def receiver_finish_def)
  moreover have "chunks_on_wire l = (seq, data) # q \<Longrightarrow> fst (receive_chunk seq data (rx l)) = Inr seq" for seq data q
    using link_ok_accepts [OF ok] by fastforce
  ultimately show ?thesis using got sk by simp
qed

theorem transfer_exact_witness:
  "\<exists>l :: link. chunks_on_wire l = [(0, [7, 8])] \<and> fst (receive_chunk 0 [7, 8] (rx l)) = Inr 0"
proof -
  define l0 where "l0 = link_start 1 2 [Bytes [7], Bytes [8, 9]]"
  have e0: "reach (\<lambda>l. l = link_start 1 2 [Bytes [7], Bytes [8, 9]] \<and> (2 :: nat) < 2 ^ 47) link_step l0"
    by (rule reach_init) (simp add: l0_def)
  obtain t where "next_chunk (tx l0) = (Inr (Some (0, [7, 8])), t)"
    by (simp add: l0_def link_start_def sender_new_def next_chunk_def may_send_def WINDOW_CHUNKS_def
        CHUNK_SIZE_def sub32_def Let_def fill_chunk.simps)
  from reach_step [OF e0 link_step.link_send [OF this]]
  have r: "reach (\<lambda>l. l = link_start 1 2 [Bytes [7], Bytes [8, 9]] \<and> (2 :: nat) < 2 ^ 47) link_step
      (l0\<lparr>tx := t, chunks_on_wire := [(0, [7, 8])]\<rparr>)" by (simp add: l0_def link_start_def)
  have "fst (receive_chunk 0 [7, 8] (rx (l0\<lparr>tx := t, chunks_on_wire := [(0, [7, 8])]\<rparr>))) = Inr 0"
    using transfer_exact [OF r] by simp
  then show ?thesis by (intro exI [of _ "l0\<lparr>tx := t, chunks_on_wire := [(0, [7, 8])]\<rparr>"]) simp
qed

text \<open>
  C21. A transfer never hangs: from every reachable state of a transfer whose source delivers what
  was offered, some steps lead to a state where the sender is complete and the receiver holds
  exactly the offered bytes, and every step on the way other than a wait that changes no state
  works off part of a finite amount of work.
\<close>

theorem transfer_completes:
  assumes "reach (\<lambda>l. l = link_start i tot src \<and> tot < 2 ^ 47 \<and> steady src \<and> tot \<le> length (stock src)) link_step l"
  shows "(\<exists>l'. link_step\<^sup>*\<^sup>* l l' \<and> sender_complete (tx l') \<and> receiver_complete (rx l') \<and>
      sink_bytes (rcv_sink (rx l')) = take tot (stock src)) \<and>
    (\<forall>l'. link_step l l' \<longrightarrow> l' = l \<or> link_work l' < link_work l)"
proof -
  have live: "link_live tot (stock src) l" by (rule live_links.inv_reach [OF assms])
  from link_live_finishes [OF this] obtain l' where l': "link_step\<^sup>*\<^sup>* l l'" "link_live tot (stock src) l'" "link_done l'"
    by blast
  then have o: "link_ok tot (stock src) l'" by (simp add: link_live_def)
  then obtain got more where got: "rcv_sink (rx l') = Memory got" "length got = rcv_received (rx l')" "got @ more = stock src"
    unfolding link_ok_def by blast
  have "rcv_received (rx l') = tot" using l'(3) o by (simp add: link_done_def receiver_complete_def link_ok_def)
  then have "got = take tot (stock src)" using got by (metis append_eq_conv_conj)
  then have "sink_bytes (rcv_sink (rx l')) = take tot (stock src)" using got by simp
  with l' show ?thesis using link_live_step [OF _ live] unfolding link_done_def by blast
qed

theorem transfer_completes_witness:
  "\<exists>l'. link_step\<^sup>*\<^sup>* (link_start 1 2 [Bytes [7], Bytes [8, 9]]) l' \<and> sink_bytes (rcv_sink (rx l')) = [7, 8]"
proof -
  have "reach (\<lambda>l. l = link_start 1 2 [Bytes [7], Bytes [8, 9]] \<and> (2 :: nat) < 2 ^ 47 \<and>
      steady [Bytes [7], Bytes [8, 9]] \<and> 2 \<le> length (stock [Bytes [7], Bytes [8, 9]])) link_step
      (link_start 1 2 [Bytes [7], Bytes [8, 9]])"
    by (rule reach_init) (simp add: steady_def)
  from transfer_completes [OF this] show ?thesis by auto
qed

text \<open>
  The two ends of a connection never allocate the same identifier, as long as neither has
  allocated \<open>2^63\<close> of them, and neither end allocates one twice.
\<close>

theorem transfer_ids_disjoint:
  assumes "n < 2 ^ 63" "k < 2 ^ 63"
  shows "fst (ids_allocate (((snd \<circ> ids_allocate) ^^ n) (ids_new b))) =
      fst (ids_allocate (((snd \<circ> ids_allocate) ^^ k) (ids_new c))) \<longleftrightarrow> n = k \<and> b = c"
proof -
  have it: "((snd \<circ> ids_allocate) ^^ n) x = x + of_nat n" for x n
    by (induction n) (simp_all add: ids_allocate_def ac_simps)
  have base: "unat (ids_new b + of_nat n) = of_bool b * 2 ^ 63 + n" if "n < 2 ^ 63" for b n
  proof -
    have "ids_new b + of_nat n = of_nat (of_bool b * 2 ^ 63 + n)"
      by (cases b) (simp_all add: ids_new_def push_bit_eq_mult)
    then have "unat (ids_new b + of_nat n) = (of_bool b * 2 ^ 63 + n) mod 2 ^ 64"
      by (simp only: unat_of_nat) simp
    then show ?thesis using that by (cases b) simp_all
  qed
  have "fst (ids_allocate (((snd \<circ> ids_allocate) ^^ n) (ids_new b))) =
      fst (ids_allocate (((snd \<circ> ids_allocate) ^^ k) (ids_new c))) \<longleftrightarrow>
      unat (ids_new b + of_nat n) = unat (ids_new c + of_nat k)"
    by (simp add: it ids_allocate_def word_unat_eq_iff)
  then show ?thesis using base [of n b] base [of k c] assms by (cases b; cases c) auto
qed

theorem transfer_ids_disjoint_witness:
  "fst (ids_allocate (ids_new True)) \<noteq> fst (ids_allocate (((snd \<circ> ids_allocate) ^^ 3) (ids_new False)))"
  using transfer_ids_disjoint [of 0 3 True False] by simp

end
