(* ===== verification/Transfer_Manager.thy ===== *)
theory Transfer_Manager
  imports Chunk_Transfer
begin

text \<open>
  \<open>TransferManager\<close> (\<open>crates/proto/src/transfer.rs\<close>, second half): every transfer in flight on one
  connection, in both directions. The policy that answers offers is a function of its own state.
  The lemmas show the invariant of all its operations: the windows, the number of incoming
  transfers and the memory they hold stay within the stated limits whatever the peer sends, and a
  success the peer claims is only believed when every byte was moved.
\<close>

section \<open>State\<close>

record completed =
  done_id :: u64
  done_purpose :: transfer_purpose
  done_name :: string
  done_data :: "u8 list option"

record outcome =
  replies :: "message list"
  completed :: "completed list"
  failed :: "(u64 \<times> string) list"
  sent :: "(u64 \<times> transfer_purpose \<times> string) list"

record outgoing =
  out_sender :: sender
  out_purpose :: transfer_purpose
  out_name :: string
  out_accepted :: bool

record incoming =
  inc_receiver :: receiver
  inc_purpose :: transfer_purpose
  inc_name :: string
  inc_in_memory :: bool

record manager =
  mg_ids :: u64
  mg_outgoing :: "(u64, outgoing) hmap"
  mg_incoming :: "(u64, incoming) hmap"
  mg_pending :: "u64 set"
  mg_max_size :: nat
  mg_pump_cursor :: u64

type_synonym 'p policy = "u64 \<Rightarrow> transfer_purpose \<Rightarrow> string \<Rightarrow> u64 \<Rightarrow> 'p \<Rightarrow> (string + sink) \<times> 'p"

definition outcome_default :: outcome where
  "outcome_default = \<lparr>replies = [], completed = [], failed = [], sent = []\<rparr>"

definition reply :: "message \<Rightarrow> outcome \<Rightarrow> outcome" where
  "reply m out = out\<lparr>replies := replies out @ [m]\<rparr>"

definition fail_transfer :: "u64 \<Rightarrow> string \<Rightarrow> outcome \<Rightarrow> outcome" where
  "fail_transfer i e out = out\<lparr>failed := failed out @ [(i, e)]\<rparr>"

definition complete_transfer :: "completed \<Rightarrow> outcome \<Rightarrow> outcome" where
  "complete_transfer c out = out\<lparr>completed := completed out @ [c]\<rparr>"

definition manager_new :: "bool \<Rightarrow> manager" where
  "manager_new client_side =
     \<lparr>mg_ids = ids_new client_side, mg_outgoing = [], mg_incoming = [], mg_pending = {},
      mg_max_size = MAX_TRANSFER_SIZE, mg_pump_cursor = 0\<rparr>"

definition manager_clear :: "manager \<Rightarrow> manager" where
  "manager_clear m = m\<lparr>mg_outgoing := [], mg_incoming := [], mg_pending := {}, mg_pump_cursor := 0\<rparr>"

definition set_max_size :: "nat \<Rightarrow> manager \<Rightarrow> manager" where
  "set_max_size mx m = m\<lparr>mg_max_size := mx\<rparr>"

definition in_flight :: "manager \<Rightarrow> nat \<times> nat" where
  "in_flight m = (length (mg_outgoing m), length (mg_incoming m))"

definition next_id :: "manager \<Rightarrow> u64 \<times> manager" where
  "next_id m = (case ids_allocate (mg_ids m) of (i, ids) \<Rightarrow> (i, m\<lparr>mg_ids := ids\<rparr>))"

definition expect :: "u64 \<Rightarrow> manager \<Rightarrow> manager" where
  "expect i m = m\<lparr>mg_pending := insert i (mg_pending m)\<rparr>"

definition offer_stream_with_id ::
    "u64 \<Rightarrow> transfer_purpose \<Rightarrow> string \<Rightarrow> nat \<Rightarrow> source \<Rightarrow> manager \<Rightarrow> message \<times> manager" where
  "offer_stream_with_id i purpose name sz src m =
     (TransferOffer i purpose name (of_nat sz),
      m\<lparr>mg_outgoing := hm_insert i \<lparr>out_sender = sender_new i sz src, out_purpose = purpose,
          out_name = name, out_accepted = False\<rparr> (mg_outgoing m)\<rparr>)"

definition offer_bytes :: "transfer_purpose \<Rightarrow> string \<Rightarrow> u8 list \<Rightarrow> manager \<Rightarrow> message \<times> manager" where
  "offer_bytes purpose name data m =
     (case next_id m of (i, m) \<Rightarrow> offer_stream_with_id i purpose name (length data) [Bytes data] m)"

definition cancel :: "u64 \<Rightarrow> string \<Rightarrow> manager \<Rightarrow> message option \<times> manager" where
  "cancel i reason m =
     (let known = hm_get (mg_outgoing m) i \<noteq> None \<or> hm_get (mg_incoming m) i \<noteq> None \<or> i \<in> mg_pending m in
      (if known then Some (TransferEnd i False reason) else None,
       m\<lparr>mg_outgoing := hm_remove i (mg_outgoing m), mg_incoming := hm_remove i (mg_incoming m),
         mg_pending := mg_pending m - {i}\<rparr>))"

section \<open>Completion\<close>

definition finish_incoming :: "u64 \<Rightarrow> incoming \<Rightarrow> outcome \<Rightarrow> outcome" where
  "finish_incoming i inc out =
     (case receiver_finish (inc_receiver inc) of
        Inr sk \<Rightarrow>
          complete_transfer \<lparr>done_id = i, done_purpose = inc_purpose inc, done_name = inc_name inc,
              done_data = (case sk of Memory v \<Rightarrow> Some v | Stream _ _ \<Rightarrow> None)\<rparr>
            (reply (TransferEnd i True []) out)
      | Inl e \<Rightarrow>
          fail_transfer i ((show_transfer_error e))
            (reply (TransferEnd i False ((show_transfer_error e))) out))"

definition complete_incoming :: "u64 \<Rightarrow> manager \<times> outcome \<Rightarrow> manager \<times> outcome" where
  "complete_incoming i = (\<lambda>(m, out).
     case hm_get (mg_incoming m) i of
       None \<Rightarrow> (m, out)
     | Some inc \<Rightarrow>
         let r = inc_receiver inc in
         (case if receiver_complete r then sink_flush (rcv_sink r) else (None, rcv_sink r) of
            (Some (FailBlocked _), sk) \<Rightarrow>
              (m\<lparr>mg_incoming := hm_insert i (inc\<lparr>inc_receiver := r\<lparr>rcv_sink := sk\<rparr>\<rparr>) (mg_incoming m)\<rparr>, out)
          | (Some (FailOther e), _) \<Rightarrow>
              (m\<lparr>mg_incoming := hm_remove i (mg_incoming m)\<rparr>,
               reply (TransferEnd i False (e)) (fail_transfer i (e) out))
          | (None, sk) \<Rightarrow>
              (m\<lparr>mg_incoming := hm_remove i (mg_incoming m)\<rparr>,
               finish_incoming i (inc\<lparr>inc_receiver := r\<lparr>rcv_sink := sk\<rparr>\<rparr>) out)))"

section \<open>Sending\<close>

text \<open>The inner loop of \<open>pump\<close>: chunks of one transfer while the budget lasts.\<close>

fun pump_chunks :: "u64 \<Rightarrow> nat \<Rightarrow> sender \<Rightarrow> message list \<times> string option \<times> nat \<times> sender" where
  "pump_chunks i 0 s = ([], None, 0, s)"
| "pump_chunks i (Suc budget) s =
     (case next_chunk s of
        (Inr (Some (seq, data)), s) \<Rightarrow>
          (case pump_chunks i budget s of
             (ms, f, b, s) \<Rightarrow> (TransferData i (of_nat seq) data # ms, f, b, s))
      | (Inr None, s) \<Rightarrow>
          (case sender_progress s of (done, tot) \<Rightarrow>
            ([], if is_drained s \<and> done \<noteq> tot
                 then Some ((''source truncated: '' @ decimal done @ '' of '' @ decimal tot @ '' bytes''))
                 else None, Suc budget, s))
      | (Inl e, s) \<Rightarrow> ([], Some ((show_transfer_error e)), Suc budget, s))"

record pumping =
  pm_outgoing :: "(u64, outgoing) hmap"
  pm_replies :: "message list"
  pm_failed :: "(u64 \<times> string) list"
  pm_budget :: nat

definition pump_id :: "u64 \<Rightarrow> pumping \<Rightarrow> pumping" where
  "pump_id i st =
     (if pm_budget st = 0 then st
      else case hm_get (pm_outgoing st) i of
        None \<Rightarrow> st
      | Some o1 \<Rightarrow>
          if \<not> out_accepted o1 then st
          else (case pump_chunks i (pm_budget st) (out_sender o1) of
            (ms, f, b, s) \<Rightarrow>
              \<lparr>pm_outgoing = hm_insert i (o1\<lparr>out_sender := s\<rparr>) (pm_outgoing st),
               pm_replies = pm_replies st @ ms,
               pm_failed = pm_failed st @ (case f of None \<Rightarrow> [] | Some e \<Rightarrow> [(i, e)]),
               pm_budget = b\<rparr>))"

definition pump_ids :: "manager \<Rightarrow> u64 list" where
  "pump_ids m =
     (let ids = sort (map fst (mg_outgoing m)) in
      rotate (unat (mg_pump_cursor m) mod length ids) ids)"

definition pump :: "manager \<times> outcome \<Rightarrow> manager \<times> outcome" where
  "pump = (\<lambda>(m, out).
     if mg_outgoing m = [] then (m, out)
     else
       let flight = sum_list (map (sender_in_flight \<circ> out_sender \<circ> snd) (mg_outgoing m)) mod 2 ^ 32;
           st = fold pump_id (pump_ids m)
             \<lparr>pm_outgoing = mg_outgoing m, pm_replies = [], pm_failed = [],
              pm_budget = GLOBAL_WINDOW_CHUNKS - flight\<rparr>
       in (m\<lparr>mg_outgoing := fold (\<lambda>(i, e). hm_remove i) (pm_failed st) (pm_outgoing st),
             mg_pump_cursor := mg_pump_cursor m + 1\<rparr>,
           out\<lparr>replies := replies out @ pm_replies st @ map (\<lambda>(i, e). TransferEnd i False e) (pm_failed st),
               failed := failed out @ pm_failed st\<rparr>))"

text \<open>\<open>order\<close> is the iteration order of the map of incoming transfers.\<close>

definition poll :: "(u64 list \<Rightarrow> u64 list) \<Rightarrow> manager \<Rightarrow> outcome \<times> manager" where
  "poll order m =
     (let ready = order (map fst (filter (\<lambda>(_, i). receiver_complete (inc_receiver i)) (mg_incoming m))) in
      case pump (fold complete_incoming ready (m, outcome_default)) of (m, out) \<Rightarrow> (out, m))"

section \<open>Messages\<close>

definition refuse :: "u64 \<Rightarrow> string \<Rightarrow> outcome" where
  "refuse i reason = reply (TransferAccept i False reason) outcome_default"

definition live_in_memory :: "manager \<Rightarrow> nat" where
  "live_in_memory m = length (filter (\<lambda>(_, i). inc_in_memory i) (mg_incoming m))"

definition handle_offer ::
    "'p policy \<Rightarrow> u64 \<Rightarrow> transfer_purpose \<Rightarrow> string \<Rightarrow> u64 \<Rightarrow> manager \<Rightarrow> 'p \<Rightarrow> outcome \<times> manager \<times> 'p" where
  "handle_offer accept i purpose name sz m p =
     (let m = m\<lparr>mg_pending := mg_pending m - {i}\<rparr> in
      if hm_get (mg_incoming m) i \<noteq> None \<or> hm_get (mg_outgoing m) i \<noteq> None \<or> 64 \<le> length (mg_incoming m) then
        (refuse i (''transfer ID already active or receiver busy''), m, p)
      else if mg_max_size m < unat sz then
        (refuse i ((decimal (unat sz) @ '' bytes exceeds the limit'')), m, p)
      else case accept i purpose name sz p of
        (Inl reason, p) \<Rightarrow> (refuse i reason, m, p)
      | (Inr sk, p) \<Rightarrow>
          let mem = in_memory sk in
          if mem \<and> MAX_MEMORY_TRANSFER_SIZE < unat sz then
            (refuse i ((decimal (unat sz) @ '' bytes is more than this side will hold in memory'')), m, p)
          else if mem \<and> MAX_CONCURRENT_MEMORY_TRANSFERS \<le> live_in_memory m then
            (refuse i (''too many in-memory transfers already in flight''), m, p)
          else
            let m = m\<lparr>mg_incoming := hm_insert i \<lparr>inc_receiver = receiver_new i (unat sz) sk,
                  inc_purpose = purpose, inc_name = name, inc_in_memory = mem\<rparr> (mg_incoming m)\<rparr>;
                out = reply (TransferAccept i True []) outcome_default;
                (m, out) = (if sz = 0 then complete_incoming i (m, out) else (m, out))
            in (out, m, p))"

definition handle_accept :: "u64 \<Rightarrow> bool \<Rightarrow> string \<Rightarrow> manager \<Rightarrow> outcome \<times> manager" where
  "handle_accept i accepted reason m =
     (case hm_get (mg_outgoing m) i of
        None \<Rightarrow> (outcome_default, m)
      | Some o1 \<Rightarrow>
          if \<not> accepted then
            (fail_transfer i (''peer declined: '' @ reason) outcome_default,
             m\<lparr>mg_outgoing := hm_remove i (mg_outgoing m)\<rparr>)
          else
            (case pump (m\<lparr>mg_outgoing := hm_insert i (o1\<lparr>out_accepted := True\<rparr>) (mg_outgoing m)\<rparr>, outcome_default)
             of (m, out) \<Rightarrow> (out, m)))"

definition handle_data :: "u64 \<Rightarrow> u32 \<Rightarrow> u8 list \<Rightarrow> manager \<Rightarrow> outcome \<times> manager" where
  "handle_data i seq data m =
     (case hm_get (mg_incoming m) i of
        None \<Rightarrow> (outcome_default, m)
      | Some inc \<Rightarrow>
          (case receive_chunk (unat seq) data (inc_receiver inc) of
             (Inr ack, r) \<Rightarrow>
               let m = m\<lparr>mg_incoming := hm_insert i (inc\<lparr>inc_receiver := r\<rparr>) (mg_incoming m)\<rparr>;
                   out = reply (TransferAck i (of_nat ack)) outcome_default;
                   (m, out) = (if receiver_complete r then complete_incoming i (m, out) else (m, out))
               in (out, m)
           | (Inl e, _) \<Rightarrow>
               (fail_transfer i ((show_transfer_error e))
                  (reply (TransferEnd i False ((show_transfer_error e))) outcome_default),
                m\<lparr>mg_incoming := hm_remove i (mg_incoming m)\<rparr>)))"

definition handle_ack :: "u64 \<Rightarrow> u32 \<Rightarrow> manager \<Rightarrow> outcome \<times> manager" where
  "handle_ack i seq m =
     (let m = (case hm_get (mg_outgoing m) i of
          None \<Rightarrow> m
        | Some o1 \<Rightarrow> m\<lparr>mg_outgoing := hm_insert i (o1\<lparr>out_sender := on_ack (unat seq) (out_sender o1)\<rparr>) (mg_outgoing m)\<rparr>)
      in case pump (m, outcome_default) of (m, out) \<Rightarrow> (out, m))"

definition handle_end :: "u64 \<Rightarrow> bool \<Rightarrow> string \<Rightarrow> manager \<Rightarrow> outcome \<times> manager" where
  "handle_end i ok msg m =
     (let inc = hm_get (mg_incoming m) i; og = hm_get (mg_outgoing m) i; was_pending = i \<in> mg_pending m in
      if ok \<and> (case inc of None \<Rightarrow> False | Some x \<Rightarrow> receiver_complete (inc_receiver x)) then
        (case complete_incoming i (m, outcome_default) of (m, out) \<Rightarrow> (out, m))
      else
        let m = m\<lparr>mg_incoming := hm_remove i (mg_incoming m), mg_pending := mg_pending m - {i},
                  mg_outgoing := hm_remove i (mg_outgoing m)\<rparr>;
            out = outcome_default in
        if ok then
          let out = (case inc of
                None \<Rightarrow> out
              | Some x \<Rightarrow>
                  (case receiver_finish (inc_receiver x) of
                     Inr _ \<Rightarrow> complete_transfer \<lparr>done_id = i, done_purpose = inc_purpose x,
                         done_name = inc_name x, done_data = None\<rparr> out
                   | Inl e \<Rightarrow> fail_transfer i ((show_transfer_error e)) out));
              out = (case og of
                None \<Rightarrow> out
              | Some x \<Rightarrow>
                  if sender_complete (out_sender x)
                  then out\<lparr>sent := sent out @ [(i, out_purpose x, out_name x)]\<rparr>
                  else fail_transfer i (''peer reported success before the transfer finished'') out)
          in (out, m)
        else if inc \<noteq> None \<or> was_pending \<or> og \<noteq> None then (fail_transfer i msg out, m)
        else (out, m))"

fun handle :: "'p policy \<Rightarrow> message \<Rightarrow> manager \<Rightarrow> 'p \<Rightarrow> outcome option \<times> manager \<times> 'p" where
  "handle accept (TransferOffer i purpose name sz) m p =
     (case handle_offer accept i purpose name sz m p of (out, m, p) \<Rightarrow> (Some out, m, p))"
| "handle accept (TransferAccept i accepted reason) m p =
     (case handle_accept i accepted reason m of (out, m) \<Rightarrow> (Some out, m, p))"
| "handle accept (TransferData i seq data) m p =
     (case handle_data i seq data m of (out, m) \<Rightarrow> (Some out, m, p))"
| "handle accept (TransferAck i seq) m p =
     (case handle_ack i seq m of (out, m) \<Rightarrow> (Some out, m, p))"
| "handle accept (TransferEnd i ok msg) m p =
     (case handle_end i ok msg m of (out, m) \<Rightarrow> (Some out, m, p))"
| "handle accept _ m p = (None, m, p)"

section \<open>Progress reports\<close>

definition active_ids :: "manager \<Rightarrow> u64 list" where
  "active_ids m = sorted_list_of_set (fst ` set (mg_outgoing m) \<union> fst ` set (mg_incoming m) \<union> mg_pending m)"

definition describe :: "u64 \<Rightarrow> manager \<Rightarrow> (transfer_purpose \<times> string \<times> nat \<times> nat) option" where
  "describe i m =
     (case hm_get (mg_outgoing m) i of
        Some o1 \<Rightarrow> Some (out_purpose o1, out_name o1, sender_progress (out_sender o1))
      | None \<Rightarrow>
          (case hm_get (mg_incoming m) i of
             Some x \<Rightarrow> Some (inc_purpose x, inc_name x, receiver_progress (inc_receiver x))
           | None \<Rightarrow> None))"

definition progress :: "u64 \<Rightarrow> manager \<Rightarrow> (nat \<times> nat) option" where
  "progress i m =
     (case hm_get (mg_outgoing m) i of
        Some o1 \<Rightarrow> Some (sender_progress (out_sender o1))
      | None \<Rightarrow> map_option (\<lambda>x. receiver_progress (inc_receiver x)) (hm_get (mg_incoming m) i))"

section \<open>The invariant\<close>

definition flight :: "(u64, outgoing) hmap \<Rightarrow> nat" where
  "flight og = hm_sum (sender_in_flight \<circ> out_sender) og"

definition incoming_ok :: "incoming \<Rightarrow> bool" where
  "incoming_ok x \<longleftrightarrow>
     (let r = inc_receiver x in
      rcv_received r \<le> rcv_expected r \<and> rcv_expected r < 2 ^ 63 \<and>
      length (sink_bytes (rcv_sink r)) = rcv_received r \<and> inc_in_memory x = in_memory (rcv_sink r) \<and>
      (inc_in_memory x \<longrightarrow> rcv_expected r \<le> MAX_MEMORY_TRANSFER_SIZE))"

definition outgoing_ok :: "(u64, outgoing) hmap \<Rightarrow> bool" where
  "outgoing_ok og \<longleftrightarrow> hm_ok og \<and> (\<forall>x \<in> set og. sender_ok (out_sender (snd x))) \<and>
     flight og \<le> GLOBAL_WINDOW_CHUNKS"

definition memory_count :: "(u64, incoming) hmap \<Rightarrow> nat" where
  "memory_count inc = hm_sum (of_bool \<circ> inc_in_memory) inc"

definition incomings_ok :: "(u64, incoming) hmap \<Rightarrow> bool" where
  "incomings_ok inc \<longleftrightarrow> hm_ok inc \<and> (\<forall>x \<in> set inc. incoming_ok (snd x)) \<and> length inc \<le> 64 \<and>
     memory_count inc \<le> MAX_CONCURRENT_MEMORY_TRANSFERS"

definition manager_ok :: "manager \<Rightarrow> bool" where
  "manager_ok m \<longleftrightarrow> outgoing_ok (mg_outgoing m) \<and> incomings_ok (mg_incoming m) \<and> mg_max_size m < 2 ^ 63"

lemma live_in_memory_count: "live_in_memory m = memory_count (mg_incoming m)"
proof -
  have "length (filter (\<lambda>(_, i). inc_in_memory i) xs) = hm_sum (of_bool \<circ> inc_in_memory) xs" for xs :: "(u64 \<times> incoming) list"
    by (induction xs) auto
  then show ?thesis by (simp add: live_in_memory_def memory_count_def)
qed

lemma map_of_mem: "map_of m k = Some v \<Longrightarrow> (k, v) \<in> set m"
  by (rule map_of_SomeD)

subsection \<open>Both maps under their operations\<close>

lemma outgoing_ok_remove: "outgoing_ok og \<Longrightarrow> outgoing_ok (hm_remove i og)"
  using hm_sum_remove [of "sender_in_flight \<circ> out_sender" i og]
  by (auto simp: outgoing_ok_def flight_def dest: hm_mem_remove)

lemma outgoing_ok_update:
  assumes "outgoing_ok og" "hm_get og i = Some old" "sender_ok (out_sender new)"
    "sender_in_flight (out_sender new) \<le> sender_in_flight (out_sender old)"
  shows "outgoing_ok (hm_insert i new og)"
  using assms hm_sum_insert_old [OF assms(2), of "sender_in_flight \<circ> out_sender" new]
  by (auto simp: outgoing_ok_def flight_def dest: hm_mem_insert)

lemma outgoing_ok_offer:
  assumes ok: "outgoing_ok og" and new: "sender_ok (out_sender new)" "sender_in_flight (out_sender new) = 0"
  shows "outgoing_ok (hm_insert i new og)"
proof (cases "hm_get og i")
  case None
  then show ?thesis
    using assms hm_sum_insert_new [OF None, of "sender_in_flight \<circ> out_sender" new]
    by (auto simp: outgoing_ok_def flight_def dest: hm_mem_insert)
next
  case (Some old)
  then show ?thesis using outgoing_ok_update [OF ok Some new(1)] new(2) by simp
qed

lemma incomings_ok_remove: "incomings_ok inc \<Longrightarrow> incomings_ok (hm_remove i inc)"
  using hm_sum_remove [of "of_bool \<circ> inc_in_memory" i inc] hm_length_remove [of i inc]
  by (auto simp: incomings_ok_def memory_count_def dest: hm_mem_remove)

lemma incomings_ok_update:
  assumes "incomings_ok inc" "hm_get inc i = Some old" "incoming_ok new" "inc_in_memory new = inc_in_memory old"
  shows "incomings_ok (hm_insert i new inc)"
  using assms hm_sum_insert_old [OF assms(2), of "of_bool \<circ> inc_in_memory" new] hm_length_insert_old [OF assms(2), of new]
  by (auto simp: incomings_ok_def memory_count_def dest: hm_mem_insert)

lemma incomings_ok_insert:
  assumes "incomings_ok inc" "hm_get inc i = None" "incoming_ok new" "length inc < 64"
    "inc_in_memory new \<Longrightarrow> memory_count inc < MAX_CONCURRENT_MEMORY_TRANSFERS"
  shows "incomings_ok (hm_insert i new inc)"
  using assms hm_sum_insert_new [OF assms(2), of "of_bool \<circ> inc_in_memory" new] hm_length_insert_new [OF assms(2), of new]
  by (auto simp: incomings_ok_def memory_count_def dest: hm_mem_insert)

lemma incomings_ok_get: "incomings_ok inc \<Longrightarrow> hm_get inc i = Some x \<Longrightarrow> incoming_ok x"
  by (auto simp: incomings_ok_def dest: map_of_mem)

lemma outgoing_ok_get: "outgoing_ok og \<Longrightarrow> hm_get og i = Some x \<Longrightarrow> sender_ok (out_sender x)"
  by (auto simp: outgoing_ok_def dest: map_of_mem)

subsection \<open>The operations keep it\<close>

lemma complete_incoming_outgoing [simp]:
  "mg_outgoing (fst (complete_incoming i (m, out))) = mg_outgoing m \<and>
   mg_max_size (fst (complete_incoming i (m, out))) = mg_max_size m"
  by (auto simp: complete_incoming_def Let_def split: option.splits prod.splits io_fail.splits)

lemma complete_incoming_ok:
  assumes ok: "incomings_ok (mg_incoming m)"
  shows "incomings_ok (mg_incoming (fst (complete_incoming i (m, out))))"
proof (cases "hm_get (mg_incoming m) i")
  case None
  then show ?thesis using ok by (simp add: complete_incoming_def)
next
  case (Some inc)
  define r where "r = inc_receiver inc"
  obtain res sk where fl: "(if receiver_complete r then sink_flush (rcv_sink r) else (None, rcv_sink r)) = (res, sk)"
    by fastforce
  then have same: "sink_bytes sk = sink_bytes (rcv_sink r)" "in_memory sk = in_memory (rcv_sink r)"
    using sink_flush_keeps by (auto split: if_splits)
  have "incoming_ok (inc\<lparr>inc_receiver := r\<lparr>rcv_sink := sk\<rparr>\<rparr>)"
    using incomings_ok_get [OF ok Some] same by (simp add: incoming_ok_def Let_def r_def)
  from incomings_ok_update [OF ok Some this]
  have blocked: "incomings_ok (hm_insert i (inc\<lparr>inc_receiver := r\<lparr>rcv_sink := sk\<rparr>\<rparr>) (mg_incoming m))" by simp
  show ?thesis
    using Some fl blocked incomings_ok_remove [OF ok, of i]
    by (auto simp: complete_incoming_def Let_def r_def split: option.splits io_fail.splits)
qed

lemma complete_incoming_manager_ok:
  "manager_ok m \<Longrightarrow> manager_ok (fst (complete_incoming i (m, out)))"
  by (simp add: manager_ok_def complete_incoming_ok)

lemma pump_chunks_spec:
  "pump_chunks i b s = (ms, f, b', s') \<Longrightarrow> sender_ok s \<Longrightarrow>
     sender_ok s' \<and> b' + length ms = b \<and> sender_in_flight s' = sender_in_flight s + length ms \<and>
     (\<forall>x \<in> set ms. \<exists>seq data. x = TransferData i seq data)"
proof (induction b arbitrary: s ms f b' s')
  case (Suc b)
  obtain r t where nc: "next_chunk s = (r, t)" by fastforce
  note t = next_chunk_ok [OF nc Suc(3)] next_chunk_in_flight [OF nc Suc(3)]
  show ?case
  proof (cases "\<exists>ch. r = Inr (Some ch)")
    case True
    then obtain seq data where r: "r = Inr (Some (seq, data))" by auto
    obtain ms1 f1 b1 s1 where rest: "pump_chunks i b t = (ms1, f1, b1, s1)" by (metis prod_cases4)
    have "ms = TransferData i (of_nat seq) data # ms1" "b' = b1" "s' = s1"
      using Suc(2) by (simp_all add: nc r rest)
    then show ?thesis using Suc(1) [OF rest] t r by auto
  next
    case False
    then have "ms = [] \<and> b' = Suc b \<and> s' = t"
      using Suc(2) nc by (auto split: sum.splits option.splits prod.splits)
    then show ?thesis using t False by (auto split: sum.splits option.splits)
  qed
qed auto

definition pumping_ok :: "pumping \<Rightarrow> bool" where
  "pumping_ok st \<longleftrightarrow> outgoing_ok (pm_outgoing st) \<and> flight (pm_outgoing st) + pm_budget st \<le> GLOBAL_WINDOW_CHUNKS"

lemma pump_id_ok:
  assumes ok: "pumping_ok st"
  shows "pumping_ok (pump_id i st)"
proof (cases "pm_budget st = 0")
  case False
  show ?thesis
  proof (cases "hm_get (pm_outgoing st) i")
    case (Some o1)
    note og = ok [unfolded pumping_ok_def]
    obtain ms f b s where pc: "pump_chunks i (pm_budget st) (out_sender o1) = (ms, f, b, s)" by (metis prod_cases4)
    have "sender_ok (out_sender o1)" using outgoing_ok_get og Some by blast
    note sp = pump_chunks_spec [OF pc this]
    have fl: "flight (hm_insert i (o1\<lparr>out_sender := s\<rparr>) (pm_outgoing st)) + sender_in_flight (out_sender o1) =
        flight (pm_outgoing st) + sender_in_flight s"
      using hm_sum_insert_old [OF Some, of "sender_in_flight \<circ> out_sender" "o1\<lparr>out_sender := s\<rparr>"]
      by (simp add: flight_def)
    then have sum: "flight (hm_insert i (o1\<lparr>out_sender := s\<rparr>) (pm_outgoing st)) + b \<le> GLOBAL_WINDOW_CHUNKS"
      using sp og by linarith
    then have "outgoing_ok (hm_insert i (o1\<lparr>out_sender := s\<rparr>) (pm_outgoing st))"
      using og sp by (auto simp: outgoing_ok_def dest: hm_mem_insert)
    then show ?thesis
      using ok sum False Some pc by (simp add: pump_id_def pumping_ok_def)
  qed (use ok in \<open>simp add: pump_id_def\<close>)
qed (use ok in \<open>simp add: pump_id_def\<close>)

lemma pump_ids_ok: "pumping_ok st \<Longrightarrow> pumping_ok (fold pump_id ids st)"
  by (induction ids arbitrary: st) (auto intro: pump_id_ok)

lemma removes_ok: "outgoing_ok og \<Longrightarrow> outgoing_ok (fold (\<lambda>(i, e). hm_remove i) xs og)"
  by (induction xs arbitrary: og) (auto intro: outgoing_ok_remove)

lemma pump_start:
  assumes "outgoing_ok og"
  shows "pumping_ok \<lparr>pm_outgoing = og, pm_replies = [], pm_failed = [],
      pm_budget = GLOBAL_WINDOW_CHUNKS - sum_list (map (sender_in_flight \<circ> out_sender \<circ> snd) og) mod 2 ^ 32\<rparr>"
proof -
  have "flight og \<le> 16" using assms by (simp add: outgoing_ok_def GLOBAL_WINDOW_CHUNKS_def WINDOW_CHUNKS_def)
  then have "flight og mod 2 ^ 32 = flight og" by simp
  then show ?thesis using assms by (simp add: pumping_ok_def flight_def outgoing_ok_def comp_assoc)
qed

lemma pump_ok:
  assumes "manager_ok m"
  shows "manager_ok (fst (pump (m, out)))"
proof -
  note removes_ok [of "pm_outgoing st" for st]
  then show ?thesis
    using assms pump_ids_ok [OF pump_start, of "mg_outgoing m" "pump_ids m"]
    by (auto simp: pump_def Let_def manager_ok_def pumping_ok_def)
qed

section \<open>Policies\<close>

text \<open>
  What the manager relies on in the policy that answers offers: a sink it hands out has taken no
  bytes yet, and only clipboard images are collected in memory.
\<close>

locale transfer_policy =
  fixes accept :: "u64 \<Rightarrow> transfer_purpose \<Rightarrow> string \<Rightarrow> u64 \<Rightarrow> 'p \<Rightarrow> (string + sink) \<times> 'p"
  assumes fresh_sink: "accept i purpose name sz p = (Inr sk, p') \<Longrightarrow> sink_bytes sk = []"
    and memory_only_for_images: "accept i purpose name sz p = (Inr sk, p') \<Longrightarrow> in_memory sk \<Longrightarrow> purpose = ClipboardImage"
begin

lemma handle_offer_ok:
  assumes ok: "manager_ok m" and h: "handle_offer accept i purpose name sz m p = (out, m', p')"
  shows "manager_ok m'"
proof -
  define m1 where "m1 = m\<lparr>mg_pending := mg_pending m - {i}\<rparr>"
  have ok1: "manager_ok m1" using ok by (simp add: m1_def manager_ok_def)
  obtain res q where acc: "accept i purpose name sz p = (res, q)" by fastforce
  show ?thesis
  proof (cases "m' = m1")
    case False
    then obtain sk where res: "res = Inr sk"
      and free: "hm_get (mg_incoming m1) i = None" "length (mg_incoming m1) < 64" "unat sz \<le> mg_max_size m1"
      and mem: "in_memory sk \<Longrightarrow> unat sz \<le> MAX_MEMORY_TRANSFER_SIZE"
        "in_memory sk \<Longrightarrow> memory_count (mg_incoming m1) < MAX_CONCURRENT_MEMORY_TRANSFERS"
      using h acc unfolding handle_offer_def Let_def m1_def [symmetric] live_in_memory_count
      by (auto simp: not_le not_less split: if_splits sum.splits)
    define x where "x = \<lparr>inc_receiver = receiver_new i (unat sz) sk, inc_purpose = purpose, inc_name = name,
      inc_in_memory = in_memory sk\<rparr>"
    define m2 where "m2 = m1\<lparr>mg_incoming := hm_insert i x (mg_incoming m1)\<rparr>"
    have "incoming_ok x"
      using fresh_sink [OF acc [unfolded res]] free(3) ok1 mem(1)
      by (auto simp: incoming_ok_def x_def receiver_new_def manager_ok_def)
    then have "incomings_ok (mg_incoming m2)"
      using ok1 free mem(2) by (auto simp: m2_def manager_ok_def x_def intro: incomings_ok_insert)
    then have "manager_ok m2" using ok1 by (simp add: m2_def manager_ok_def)
    moreover have "m' = m2 \<or> (\<exists>o1. m' = fst (complete_incoming i (m2, o1)))"
      using h acc free False mem unfolding handle_offer_def Let_def m1_def [symmetric] live_in_memory_count res
      by (auto simp: m2_def x_def not_le not_less split: if_splits sum.splits prod.splits) (metis fst_conv)
    ultimately show ?thesis by (auto intro: complete_incoming_manager_ok)
  qed (use ok1 in simp)
qed

end

lemma handle_accept_ok:
  assumes ok: "manager_ok m" and h: "handle_accept i accepted reason m = (out, m')"
  shows "manager_ok m'"
proof (cases "hm_get (mg_outgoing m) i")
  case (Some o1)
  have ogs: "outgoing_ok (mg_outgoing m)" using ok by (simp add: manager_ok_def)
  define m1 where "m1 = m\<lparr>mg_outgoing := hm_insert i (o1\<lparr>out_accepted := True\<rparr>) (mg_outgoing m)\<rparr>"
  have "manager_ok m1"
    using ok outgoing_ok_update [OF ogs Some, of "o1\<lparr>out_accepted := True\<rparr>"] outgoing_ok_get [OF ogs Some]
    by (simp add: manager_ok_def m1_def)
  from pump_ok [OF this] have "manager_ok (fst (pump (m1, outcome_default)))" .
  moreover have "manager_ok (m\<lparr>mg_outgoing := hm_remove i (mg_outgoing m)\<rparr>)"
    using ok by (simp add: manager_ok_def outgoing_ok_remove)
  ultimately show ?thesis
    using h Some by (auto simp: handle_accept_def m1_def [symmetric] split: if_splits prod.splits)
qed (use ok h in \<open>simp add: handle_accept_def\<close>)

lemma receive_chunk_ok:
  assumes "incoming_ok x" "receive_chunk seq data (inc_receiver x) = (Inr a, r)"
  shows "incoming_ok (x\<lparr>inc_receiver := r\<rparr>)"
proof -
  note ok = assms(1) [unfolded incoming_ok_def Let_def]
  have le: "length data \<le> 65536"
    using assms(2) by (auto simp: receive_chunk_def CHUNK_SIZE_def split: if_splits)
  then have "add64 (rcv_received (inc_receiver x)) (length data) = rcv_received (inc_receiver x) + length data"
    using ok by (simp add: add64_def)
  then show ?thesis
    using assms(2) ok
    by (auto simp: receive_chunk_def Let_def incoming_ok_def split: if_splits prod.splits option.splits
        dest!: sink_write_all_ok)
qed

lemma handle_data_ok:
  assumes ok: "manager_ok m" and h: "handle_data i seq data m = (out, m')"
  shows "manager_ok m'"
proof (cases "hm_get (mg_incoming m) i")
  case (Some x)
  have inc: "incomings_ok (mg_incoming m)" using ok by (simp add: manager_ok_def)
  obtain res r where rc: "receive_chunk (unat seq) data (inc_receiver x) = (res, r)" by fastforce
  show ?thesis
  proof (cases res)
    case (Inl e)
    then show ?thesis
      using h Some rc ok by (auto simp: handle_data_def manager_ok_def incomings_ok_remove)
  next
    case (Inr a)
    define m1 where "m1 = m\<lparr>mg_incoming := hm_insert i (x\<lparr>inc_receiver := r\<rparr>) (mg_incoming m)\<rparr>"
    have "incoming_ok (x\<lparr>inc_receiver := r\<rparr>)"
      using receive_chunk_ok [OF incomings_ok_get [OF inc Some] rc [unfolded Inr]] .
    from incomings_ok_update [OF inc Some this] have "manager_ok m1" using ok by (simp add: m1_def manager_ok_def)
    then show ?thesis
      using h Some rc Inr complete_incoming_manager_ok [of m1]
      by (auto simp: handle_data_def Let_def m1_def [symmetric] split: if_splits prod.splits) (metis fst_conv)
  qed
qed (use ok h in \<open>simp add: handle_data_def\<close>)

lemma handle_ack_ok:
  assumes ok: "manager_ok m" and h: "handle_ack i seq m = (out, m')"
  shows "manager_ok m'"
proof -
  define m1 where "m1 = (case hm_get (mg_outgoing m) i of
          None \<Rightarrow> m
        | Some o1 \<Rightarrow> m\<lparr>mg_outgoing := hm_insert i (o1\<lparr>out_sender := on_ack (unat seq) (out_sender o1)\<rparr>) (mg_outgoing m)\<rparr>)"
  have ogs: "outgoing_ok (mg_outgoing m)" using ok by (simp add: manager_ok_def)
  have "manager_ok m1"
  proof (cases "hm_get (mg_outgoing m) i")
    case (Some o1)
    note s = outgoing_ok_get [OF ogs Some]
    show ?thesis
      using ok outgoing_ok_update [OF ogs Some, of "o1\<lparr>out_sender := on_ack (unat seq) (out_sender o1)\<rparr>"]
        on_ack_ok [OF s] on_ack_in_flight [OF s]
      by (simp add: m1_def Some manager_ok_def)
  qed (use ok in \<open>simp add: m1_def\<close>)
  from pump_ok [OF this] have "manager_ok (fst (pump (m1, outcome_default)))" .
  then show ?thesis using h by (auto simp: handle_ack_def Let_def m1_def [symmetric] split: prod.splits)
qed

lemma handle_end_ok:
  assumes ok: "manager_ok m" and h: "handle_end i k msg m = (out, m')"
  shows "manager_ok m'"
proof -
  define m1 where "m1 = m\<lparr>mg_incoming := hm_remove i (mg_incoming m), mg_pending := mg_pending m - {i},
      mg_outgoing := hm_remove i (mg_outgoing m)\<rparr>"
  have "manager_ok m1" using ok by (simp add: m1_def manager_ok_def outgoing_ok_remove incomings_ok_remove)
  moreover have "m' = m1 \<or> (\<exists>o1. m' = fst (complete_incoming i (m, o1)))"
    using h unfolding handle_end_def Let_def m1_def [symmetric]
    by (auto split: if_splits prod.splits option.splits) (metis fst_conv)+
  ultimately show ?thesis using complete_incoming_manager_ok [OF ok] by auto
qed

lemma poll_ok: "manager_ok m \<Longrightarrow> poll order m = (out, m') \<Longrightarrow> manager_ok m'"
proof -
  assume ok: "manager_ok m" and p: "poll order m = (out, m')"
  have "manager_ok (fst (fold complete_incoming ids (m, o1)))" if "manager_ok m" for ids m o1
    using that
  proof (induction ids arbitrary: m o1)
    case (Cons i ids)
    then show ?case using complete_incoming_manager_ok [of m i o1] by (cases "complete_incoming i (m, o1)") auto
  qed simp
  then have "manager_ok (fst (pump (fold complete_incoming ids (m, outcome_default))))" for ids
    using ok pump_ok by (metis prod.collapse)
  then show ?thesis using p by (auto simp: poll_def Let_def split: prod.splits) (metis fst_conv)
qed

section \<open>Every operation as a step\<close>

inductive manager_step :: "'p policy \<Rightarrow> manager \<Rightarrow> manager \<Rightarrow> bool" for accept where
  step_handle: "handle accept msg m p = (res, m', p') \<Longrightarrow> manager_step accept m m'"
| step_poll: "poll order m = (out, m') \<Longrightarrow> manager_step accept m m'"
| step_offer: "sz < 2 ^ 47 \<Longrightarrow> offer_stream_with_id i purpose name sz src m = (msg, m') \<Longrightarrow> manager_step accept m m'"
| step_offer_bytes: "length data < 2 ^ 47 \<Longrightarrow> offer_bytes purpose name data m = (msg, m') \<Longrightarrow> manager_step accept m m'"
| step_cancel: "cancel i reason m = (res, m') \<Longrightarrow> manager_step accept m m'"
| step_clear: "manager_step accept m (manager_clear m)"
| step_next_id: "next_id m = (i, m') \<Longrightarrow> manager_step accept m m'"
| step_expect: "manager_step accept m (expect i m)"
| step_max_size: "mx < 2 ^ 63 \<Longrightarrow> manager_step accept m (set_max_size mx m)"

inductive_cases manager_stepE [elim]: "manager_step accept m m'"

lemma manager_ok_new: "manager_ok (manager_new b)"
  by (simp add: manager_ok_def manager_new_def outgoing_ok_def incomings_ok_def flight_def memory_count_def
      MAX_TRANSFER_SIZE_def)

lemma manager_ok_clear: "manager_ok m \<Longrightarrow> manager_ok (manager_clear m)"
  by (simp add: manager_ok_def manager_clear_def outgoing_ok_def incomings_ok_def flight_def memory_count_def)

lemma manager_ok_offer:
  "manager_ok m \<Longrightarrow> sz < 2 ^ 47 \<Longrightarrow> manager_ok (snd (offer_stream_with_id i purpose name sz src m))"
  by (simp add: manager_ok_def offer_stream_with_id_def outgoing_ok_offer sender_ok_new)
    (simp add: outgoing_ok_offer sender_ok_new sender_in_flight_def sender_new_def sub32_def
      sender_ok_new [unfolded sender_new_def])

lemma manager_ok_next_id: "next_id m = (i, m') \<Longrightarrow> manager_ok m \<Longrightarrow> manager_ok m'"
  by (auto simp: next_id_def manager_ok_def split: prod.splits)

lemma manager_ok_offer_bytes:
  assumes "manager_ok m" "length data < 2 ^ 47"
  shows "manager_ok (snd (offer_bytes purpose name data m))"
proof -
  obtain i m1 where n: "next_id m = (i, m1)" by fastforce
  then show ?thesis
    using manager_ok_offer [OF manager_ok_next_id [OF n assms(1)] assms(2)] by (simp add: offer_bytes_def)
qed

lemma manager_ok_cancel: "cancel i reason m = (r, m') \<Longrightarrow> manager_ok m \<Longrightarrow> manager_ok m'"
  by (auto simp: cancel_def Let_def manager_ok_def outgoing_ok_remove incomings_ok_remove)

context transfer_policy
begin

lemma handle_ok:
  assumes ok: "manager_ok m" and h: "handle accept msg m p = (res, m', p')"
  shows "manager_ok m'"
proof (cases msg)
  case (TransferOffer i purpose name sz)
  obtain o1 m1 p1 where "handle_offer accept i purpose name sz m p = (o1, m1, p1)" by (metis prod_cases3)
  with handle_offer_ok [OF ok this] h show ?thesis by (simp add: TransferOffer)
next
  case (TransferAccept i accepted reason)
  obtain o1 m1 where "handle_accept i accepted reason m = (o1, m1)" by fastforce
  with handle_accept_ok [OF ok this] h show ?thesis by (simp add: TransferAccept)
next
  case (TransferData i seq data)
  obtain o1 m1 where "handle_data i seq data m = (o1, m1)" by fastforce
  with handle_data_ok [OF ok this] h show ?thesis by (simp add: TransferData)
next
  case (TransferAck i seq)
  obtain o1 m1 where "handle_ack i seq m = (o1, m1)" by fastforce
  with handle_ack_ok [OF ok this] h show ?thesis by (simp add: TransferAck)
next
  case (TransferEnd i k why)
  obtain o1 m1 where "handle_end i k why m = (o1, m1)" by fastforce
  with handle_end_ok [OF ok this] h show ?thesis by (simp add: TransferEnd)
qed (use ok h in simp_all)

lemma manager_step_ok:
  assumes step: "manager_step accept m m'" and ok: "manager_ok m"
  shows "manager_ok m'"
  using step
proof cases
  case (step_handle msg p res p')
  then show ?thesis using handle_ok [OF ok] by blast
next
  case (step_poll order out)
  then show ?thesis using poll_ok [OF ok] by blast
next
  case (step_offer sz i purpose name src msg)
  then show ?thesis using manager_ok_offer [OF ok, of sz i purpose name src] by simp
next
  case (step_offer_bytes data purpose name msg)
  then show ?thesis using manager_ok_offer_bytes [OF ok, of data purpose name] by simp
next
  case (step_cancel i reason r)
  then show ?thesis using manager_ok_cancel [OF _ ok] by blast
next
  case (step_next_id i)
  then show ?thesis using manager_ok_next_id [OF _ ok] by blast
next
  case step_clear
  then show ?thesis using manager_ok_clear [OF ok] by simp
qed (use ok in \<open>simp_all add: expect_def set_max_size_def manager_ok_def\<close>)

lemma manager_reach_ok: "reach (\<lambda>m. \<exists>b. m = manager_new b) (manager_step accept) m \<Longrightarrow> manager_ok m"
  by (induction rule: reach.induct) (auto simp: manager_ok_new manager_step_ok)

end

text \<open>What the invariant says of the bytes a manager holds and has under way.\<close>

definition memory_held :: "manager \<Rightarrow> nat" where
  "memory_held m = hm_sum (\<lambda>x. if inc_in_memory x then length (sink_bytes (rcv_sink (inc_receiver x))) else 0)
     (mg_incoming m)"

lemma memory_held_le:
  assumes "manager_ok m"
  shows "memory_held m \<le> MAX_CONCURRENT_MEMORY_TRANSFERS * MAX_MEMORY_TRANSFER_SIZE"
proof -
  have each: "(if inc_in_memory x then length (sink_bytes (rcv_sink (inc_receiver x))) else 0) \<le>
      of_bool (inc_in_memory x) * MAX_MEMORY_TRANSFER_SIZE" if "incoming_ok x" for x
    using that by (auto simp: incoming_ok_def Let_def)
  have "hm_sum (\<lambda>x. if inc_in_memory x then length (sink_bytes (rcv_sink (inc_receiver x))) else 0) xs \<le>
      hm_sum (of_bool \<circ> inc_in_memory) xs * MAX_MEMORY_TRANSFER_SIZE"
    if "\<forall>x \<in> set xs. incoming_ok (snd x)" for xs :: "(u64 \<times> incoming) list"
    using that
  proof (induction xs)
    case (Cons x xs)
    then show ?case using each [of "snd x"] by (simp add: algebra_simps)
  qed simp
  moreover have "incomings_ok (mg_incoming m)" using assms by (simp add: manager_ok_def)
  ultimately show ?thesis
    unfolding memory_held_def incomings_ok_def memory_count_def by (meson le_trans mult_le_mono1)
qed

lemma flight_each:
  assumes "manager_ok m" "(i, o1) \<in> set (mg_outgoing m)"
  shows "sender_in_flight (out_sender o1) \<le> WINDOW_CHUNKS"
  using assms sender_window by (fastforce simp: manager_ok_def outgoing_ok_def)

section \<open>What is sent, and when a success is believed\<close>

definition accepted_in :: "(u64, outgoing) hmap \<Rightarrow> u64 \<Rightarrow> bool" where
  "accepted_in og i \<longleftrightarrow> (\<exists>x. hm_get og i = Some x \<and> out_accepted x)"

definition data_for :: "(u64 \<Rightarrow> bool) \<Rightarrow> message list \<Rightarrow> bool" where
  "data_for P ms \<longleftrightarrow> list_all (\<lambda>m. case m of TransferData i _ _ \<Rightarrow> P i | _ \<Rightarrow> True) ms"

lemma data_for_simps [simp]:
  "data_for P []"
  "data_for P (xs @ ys) \<longleftrightarrow> data_for P xs \<and> data_for P ys"
  by (simp_all add: data_for_def)

lemma data_forD: "data_for P ms \<Longrightarrow> TransferData i seq data \<in> set ms \<Longrightarrow> P i"
  by (fastforce simp: data_for_def list_all_iff)

lemma pump_chunks_data: "pump_chunks i b s = (ms, f, b', s') \<Longrightarrow> P i \<Longrightarrow> data_for P ms"
proof (induction b arbitrary: s ms f b' s')
  case (Suc b)
  then show ?case
    by (fastforce simp: data_for_def split: sum.splits option.splits prod.splits)
qed simp

lemma pump_id_data:
  assumes "data_for P (pm_replies st)" "\<forall>j. accepted_in (pm_outgoing st) j \<longrightarrow> P j"
  shows "data_for P (pm_replies (pump_id i st)) \<and> (\<forall>j. accepted_in (pm_outgoing (pump_id i st)) j \<longrightarrow> P j)"
proof (cases "pm_budget st \<noteq> 0 \<and> accepted_in (pm_outgoing st) i")
  case True
  then obtain o1 where o1: "hm_get (pm_outgoing st) i = Some o1" "out_accepted o1" by (auto simp: accepted_in_def)
  obtain ms f b s where pc: "pump_chunks i (pm_budget st) (out_sender o1) = (ms, f, b, s)" by (metis prod_cases4)
  have "P i" using assms(2) True by blast
  with pump_chunks_data [OF pc] have "data_for P ms" by blast
  then show ?thesis
    using assms True o1 pc by (auto simp: pump_id_def accepted_in_def update_conv')
next
  case False
  then have "pump_id i st = st"
    by (auto simp: pump_id_def accepted_in_def split: option.splits)
  then show ?thesis using assms by simp
qed

lemma pump_ids_data:
  assumes "data_for P (pm_replies st)" "\<forall>j. accepted_in (pm_outgoing st) j \<longrightarrow> P j"
  shows "data_for P (pm_replies (fold pump_id ids st))"
  using assms
proof (induction ids arbitrary: st)
  case (Cons i ids)
  then show ?case using pump_id_data [OF Cons(2,3), of i] by simp
qed simp

lemma pump_data:
  assumes "data_for P (replies out)" "\<forall>j. accepted_in (mg_outgoing m) j \<longrightarrow> P j"
  shows "data_for P (replies (snd (pump (m, out))))"
proof -
  have "data_for P (map (\<lambda>(i, e). TransferEnd i False e) xs)" for xs
    by (induction xs) (auto simp: data_for_def)
  then show ?thesis using assms by (auto simp: pump_def Let_def intro!: pump_ids_data)
qed

lemma complete_incoming_data:
  "data_for P (replies out) \<Longrightarrow> data_for P (replies (snd (complete_incoming i (m, out))))"
  by (auto simp: complete_incoming_def finish_incoming_def Let_def reply_def fail_transfer_def complete_transfer_def
      data_for_def split: option.splits sum.splits prod.splits io_fail.splits)

lemma handle_data_for:
  assumes h: "handle accept msg m p = (Some out, m', p')"
  shows "data_for (\<lambda>i. accepted_in (mg_outgoing m) i \<or> (\<exists>r. msg = TransferAccept i True r)) (replies out)"
    (is "data_for ?P _")
proof (cases msg)
  case (TransferOffer i purpose name sz)
  have d: "data_for ?P (replies (reply (TransferAccept i a r) outcome_default))" for a r
    by (simp add: data_for_def reply_def outcome_default_def)
  show ?thesis
  proof -
    have "(\<exists>a r. out = reply (TransferAccept i a r) outcome_default) \<or>
        (\<exists>m2. out = snd (complete_incoming i (m2, reply (TransferAccept i True []) outcome_default)))"
      using h by (auto simp: TransferOffer handle_offer_def Let_def refuse_def split: if_splits sum.splits prod.splits)
        (metis snd_conv)+
    then show ?thesis using d complete_incoming_data [OF d] by auto
  qed
next
  case (TransferAccept i accepted reason)
  have d: "data_for ?P (replies outcome_default)" by (simp add: outcome_default_def)
  show ?thesis
  proof (cases "hm_get (mg_outgoing m) i")
    case None
    then show ?thesis using h d by (simp add: TransferAccept handle_accept_def)
  next
    case (Some o1)
    define m1 where "m1 = m\<lparr>mg_outgoing := hm_insert i (o1\<lparr>out_accepted := True\<rparr>) (mg_outgoing m)\<rparr>"
    show ?thesis
    proof (cases accepted)
      case True
      have "\<forall>j. accepted_in (mg_outgoing m1) j \<longrightarrow> ?P j"
        using TransferAccept True by (auto simp: m1_def accepted_in_def update_conv')
      from pump_data [OF d this] show ?thesis
        using h True Some by (auto simp: TransferAccept handle_accept_def m1_def [symmetric] split: prod.splits)
    next
      case False
      then show ?thesis
        using h Some by (auto simp: TransferAccept handle_accept_def fail_transfer_def outcome_default_def)
    qed
  qed
next
  case (TransferData i seq data)
  have d: "data_for ?P (replies (reply (TransferAck i a) outcome_default))" for a
    by (simp add: data_for_def reply_def outcome_default_def)
  have e: "data_for ?P (replies (fail_transfer i w (reply (TransferEnd i False w) outcome_default)))" for w
    by (simp add: data_for_def fail_transfer_def reply_def outcome_default_def)
  show ?thesis
  proof -
    have "out = outcome_default \<or> (\<exists>a. out = reply (TransferAck i a) outcome_default) \<or>
        (\<exists>w. out = fail_transfer i w (reply (TransferEnd i False w) outcome_default)) \<or>
        (\<exists>m2 a. out = snd (complete_incoming i (m2, reply (TransferAck i a) outcome_default)))"
      using h by (auto simp: TransferData handle_data_def Let_def split: if_splits sum.splits prod.splits option.splits)
        (metis snd_conv)+
    then show ?thesis using d e complete_incoming_data [OF d] by (auto simp: outcome_default_def)
  qed
next
  case (TransferAck i seq)
  have d: "data_for ?P (replies outcome_default)" by (simp add: outcome_default_def)
  define m1 where "m1 = (case hm_get (mg_outgoing m) i of
          None \<Rightarrow> m
        | Some o1 \<Rightarrow> m\<lparr>mg_outgoing := hm_insert i (o1\<lparr>out_sender := on_ack (unat seq) (out_sender o1)\<rparr>) (mg_outgoing m)\<rparr>)"
  have "\<forall>j. accepted_in (mg_outgoing m1) j \<longrightarrow> ?P j"
    by (auto simp: m1_def accepted_in_def update_conv' split: option.splits if_splits)
  from pump_data [OF d this] show ?thesis
    using h by (auto simp: TransferAck handle_ack_def Let_def m1_def [symmetric] split: prod.splits)
next
  case (TransferEnd i k why)
  have d: "data_for ?P (replies outcome_default)" by (simp add: outcome_default_def)
  show ?thesis
  proof -
    have "replies out = [] \<or> (\<exists>m2. out = snd (complete_incoming i (m2, outcome_default)))"
      using h by (auto simp: TransferEnd handle_end_def Let_def complete_transfer_def fail_transfer_def outcome_default_def
          split: if_splits sum.splits prod.splits option.splits) (metis snd_conv)+
    then show ?thesis using complete_incoming_data [OF d] by auto
  qed
qed (use h in simp_all)

text \<open>
  C30. A success the peer claims is checked against what moved: after a \<open>TransferEnd\<close> saying ok, a
  completion is reported only for that identifier and only if all its bytes had arrived, and an
  outgoing transfer counts as sent only if every chunk of it had been sent and acknowledged.
\<close>

theorem peer_success_is_checked:
  assumes "handle accept (TransferEnd i True why) m p = (Some out, m', p')"
  shows "(\<forall>c \<in> set (completed out). done_id c = i \<and>
      (\<exists>x. hm_get (mg_incoming m) i = Some x \<and> receiver_complete (inc_receiver x))) \<and>
    (\<forall>y \<in> set (sent out). fst y = i \<and>
      (\<exists>x. hm_get (mg_outgoing m) i = Some x \<and> sender_complete (out_sender x)))"
proof (cases "\<exists>x. hm_get (mg_incoming m) i = Some x \<and> receiver_complete (inc_receiver x)")
  case True
  then have "out = snd (complete_incoming i (m, outcome_default))"
    using assms by (auto simp: handle_end_def Let_def split: prod.splits option.splits)
  moreover have "sent (snd (complete_incoming i (m, outcome_default))) = []"
    "\<forall>c \<in> set (completed (snd (complete_incoming i (m, outcome_default)))). done_id c = i"
    by (auto simp: complete_incoming_def finish_incoming_def Let_def reply_def fail_transfer_def
        complete_transfer_def outcome_default_def split: option.splits sum.splits prod.splits io_fail.splits)
  ultimately show ?thesis using True by simp
next
  case False
  then have "receiver_finish (inc_receiver x) = Inl (Truncated (rcv_expected (inc_receiver x)) (rcv_received (inc_receiver x)))"
    if "hm_get (mg_incoming m) i = Some x" for x
    using that by (simp add: receiver_finish_def receiver_complete_def)
  then show ?thesis
    using assms False
    by (auto simp: handle_end_def Let_def outcome_default_def fail_transfer_def split: option.splits if_splits)
qed

text \<open>A manager with one offer of three bytes under way, and a policy that refuses every offer.\<close>

definition one_offer :: manager where
  "one_offer = snd (offer_stream_with_id 7 FileUpload ''a'' 3 [Bytes [1, 2, 3]] (manager_new True))"

definition refuse_all :: "unit policy" where
  "refuse_all i purpose name sz p = (Inl ''no'', p)"

lemma one_offer_outgoing:
  "mg_outgoing one_offer = [(7, \<lparr>out_sender = sender_new 7 3 [Bytes [1, 2, 3]], out_purpose = FileUpload,
      out_name = ''a'', out_accepted = False\<rparr>)]"
  by (simp add: one_offer_def offer_stream_with_id_def manager_new_def)

theorem peer_success_is_checked_witness:
  "\<exists>out m' p'. handle refuse_all (TransferEnd 7 True []) one_offer () = (Some out, m', p') \<and>
     failed out \<noteq> [] \<and> sent out = []"
proof -
  obtain out m' where e: "handle_end 7 True [] one_offer = (out, m')" by fastforce
  then have h: "handle refuse_all (TransferEnd 7 True []) one_offer () = (Some out, m', ())" by simp
  have "\<forall>y \<in> set (sent out). \<exists>x. hm_get (mg_outgoing one_offer) 7 = Some x \<and> sender_complete (out_sender x)"
    using peer_success_is_checked [OF h] by blast
  then have "sent out = []"
    by (cases "sent out") (auto simp: one_offer_outgoing sender_complete_def sender_new_def)
  moreover have "mg_incoming one_offer = []"
    by (simp add: one_offer_def offer_stream_with_id_def manager_new_def)
  then have "failed out \<noteq> []"
    using h by (auto simp: handle_end_def Let_def one_offer_outgoing sender_complete_def sender_new_def
        fail_transfer_def outcome_default_def)
  ultimately show ?thesis using h by blast
qed

text \<open>
  No byte leaves before the peer agreed: whatever message is handled, every chunk it causes to
  be sent belongs to an outgoing transfer the peer had accepted, or accepts with this message.
\<close>

theorem no_data_before_accept:
  assumes "handle accept msg m p = (Some out, m', p')" "TransferData i seq data \<in> set (replies out)"
  shows "(\<exists>x. hm_get (mg_outgoing m) i = Some x \<and> out_accepted x) \<or> (\<exists>r. msg = TransferAccept i True r)"
  using data_forD [OF handle_data_for [OF assms(1)] assms(2)] by (simp add: accepted_in_def)

theorem no_data_before_accept_witness:
  "\<exists>out m' p'. handle refuse_all (TransferAccept 7 True []) one_offer () = (Some out, m', p') \<and>
    TransferData 7 0 [1, 2, 3] \<in> set (replies out) \<and> (\<exists>r. TransferAccept 7 True [] = TransferAccept 7 True r)"
proof -
  define s0 where "s0 = sender_new 7 3 [Bytes [1, 2, 3]]"
  define s1 where "s1 = s0\<lparr>snd_source := [], snd_sent := 3, snd_next_seq := 1, snd_eof := True\<rparr>"
  have fill: "fill_chunk 3 [] [Bytes [1, 2, 3]] = (ReadOk [], [1, 2, 3], [])" by (simp add: fill_chunk.simps)
  have n0: "next_chunk s0 = (Inr (Some (0, [1, 2, 3])), s1)"
    by (simp add: s1_def s0_def next_chunk_def may_send_def sender_new_def sub32_def WINDOW_CHUNKS_def
        CHUNK_SIZE_def Let_def fill add32_def add64_def)
  have n1: "next_chunk s1 = (Inr None, s1)" by (simp add: s1_def next_chunk_def may_send_def)
  have "pump_chunks 7 (Suc (Suc n)) s0 = ([TransferData 7 0 [1, 2, 3]], None, Suc n, s1)" for n
    by (simp add: n0 n1 sender_progress_def is_drained_def) (simp add: s1_def s0_def sender_new_def)
  from this [of 14] have pc: "pump_chunks 7 16 (sender_new 7 3 [Bytes [1, 2, 3]]) = ([TransferData 7 0 [1, 2, 3]], None, 15, s1)"
    by (simp add: s0_def)
  obtain out m' where e: "handle_accept 7 True [] one_offer = (out, m')" by fastforce
  then have h: "handle refuse_all (TransferAccept 7 True []) one_offer () = (Some out, m', ())" by simp
  have d: "TransferData 7 0 [1, 2, 3] \<in> set (replies out)"
    using e pc by (auto simp: one_offer_outgoing handle_accept_def pump_def pump_ids_def Let_def
        pump_id_def sender_in_flight_def GLOBAL_WINDOW_CHUNKS_def WINDOW_CHUNKS_def outcome_default_def
        sub32_def sender_new_def)
  from no_data_before_accept [OF h d] have "\<exists>r. TransferAccept 7 True [] = TransferAccept 7 True r"
    by (auto simp: one_offer_outgoing)
  with h d show ?thesis by blast
qed

end
