(* ===== verification/Safe_Path.thy ===== *)
theory Safe_Path
  imports Lynx_Prelude
begin

text \<open>
  \<open>safe_relative_path\<close> of \<open>crates/proto/src/transfer.rs\<close>: the check every upload destination named by
  a peer goes through. The result is compared with how a file system resolves a path.
\<close>

section \<open>Trimming\<close>

text \<open>The characters of Unicode's \<open>White_Space\<close>, as \<open>str::trim\<close> reads them, in UTF-8.\<close>

definition white_space :: "string list" where
  "white_space =
    [[CHR 0x09], [CHR 0x0A], [CHR 0x0B], [CHR 0x0C], [CHR 0x0D], [CHR 0x20],
     [CHR 0xC2, CHR 0x85], [CHR 0xC2, CHR 0xA0], [CHR 0xE1, CHR 0x9A, CHR 0x80],
     [CHR 0xE2, CHR 0x80, CHR 0x80], [CHR 0xE2, CHR 0x80, CHR 0x81],
     [CHR 0xE2, CHR 0x80, CHR 0x82], [CHR 0xE2, CHR 0x80, CHR 0x83],
     [CHR 0xE2, CHR 0x80, CHR 0x84], [CHR 0xE2, CHR 0x80, CHR 0x85],
     [CHR 0xE2, CHR 0x80, CHR 0x86], [CHR 0xE2, CHR 0x80, CHR 0x87],
     [CHR 0xE2, CHR 0x80, CHR 0x88], [CHR 0xE2, CHR 0x80, CHR 0x89],
     [CHR 0xE2, CHR 0x80, CHR 0x8A], [CHR 0xE2, CHR 0x80, CHR 0xA8],
     [CHR 0xE2, CHR 0x80, CHR 0xA9], [CHR 0xE2, CHR 0x80, CHR 0xAF],
     [CHR 0xE2, CHR 0x81, CHR 0x9F], [CHR 0xE3, CHR 0x80, CHR 0x80]]"

definition starts_with :: "string \<Rightarrow> string \<Rightarrow> bool" where
  "starts_with s pre \<longleftrightarrow> take (length pre) s = pre"

function strip_start :: "string list \<Rightarrow> string \<Rightarrow> string" where
  "strip_start ws s =
     (case List.find (\<lambda>w. w \<noteq> [] \<and> starts_with s w) ws of
        None \<Rightarrow> s
      | Some w \<Rightarrow> strip_start ws (drop (length w) s))"
  by pat_completeness auto
termination
proof (relation "measure (\<lambda>(ws, s). length s)")
  fix ws :: "string list" and s w :: string
  assume "List.find (\<lambda>w. w \<noteq> [] \<and> starts_with s w) ws = Some w"
  then have w: "w \<noteq> []" "starts_with s w" by (auto simp: find_Some_iff)
  then have "s \<noteq> []" by (auto simp: starts_with_def)
  then show "((ws, drop (length w) s), (ws, s)) \<in> measure (\<lambda>(ws, s). length s)" using w by simp
qed simp

declare strip_start.simps [simp del]

definition trim :: "string \<Rightarrow> string" where
  "trim s = rev (strip_start (map rev white_space) (rev (strip_start white_space s)))"

section \<open>The check\<close>

text \<open>\<open>str::split\<close> on a set of separators: always one part more than there are separators.\<close>

fun split_on :: "(char \<Rightarrow> bool) \<Rightarrow> string \<Rightarrow> string list" where
  "split_on sep [] = [[]]"
| "split_on sep (c # cs) =
     (if sep c then [] # split_on sep cs
      else (case split_on sep cs of [] \<Rightarrow> [[c]] | p # ps \<Rightarrow> (c # p) # ps))"

definition path_separator :: "char \<Rightarrow> bool" where
  "path_separator c \<longleftrightarrow> c = CHR ''/'' \<or> c = CHR 0x5C"

fun safe_parts :: "string list \<Rightarrow> string list option" where
  "safe_parts [] = Some []"
| "safe_parts (p # ps) =
     (if p = '''' \<or> p = ''.'' then safe_parts ps
      else if p = ''..'' then None
      else if CHR 0x00 \<in> set p then None
      else map_option (Cons p) (safe_parts ps))"

fun join :: "string list \<Rightarrow> string" where
  "join [] = ''''"
| "join [p] = p"
| "join (p # ps) = p @ ''/'' @ join ps"

definition safe_relative_path :: "string \<Rightarrow> string option" where
  "safe_relative_path name =
     (let trimmed = trim name in
      if trimmed = [] then None
      else case safe_parts (split_on path_separator trimmed) of
        None \<Rightarrow> None
      | Some parts \<Rightarrow> if parts = [] then None else Some (join parts))"

section \<open>What a file system makes of it\<close>

text \<open>Resolving the parts of a path from a directory: \<open>..\<close> goes up, empty parts and \<open>.\<close> stay.\<close>

fun resolve :: "string list \<Rightarrow> string list \<Rightarrow> string list" where
  "resolve dir [] = dir"
| "resolve dir (p # ps) =
     resolve (if p = '''' \<or> p = ''.'' then dir else if p = ''..'' then butlast dir else dir @ [p]) ps"

definition plain_part :: "string \<Rightarrow> bool" where
  "plain_part p \<longleftrightarrow> p \<notin> {'''', ''.'', ''..''} \<and> CHR 0x00 \<notin> set p \<and> (\<forall>c \<in> set p. \<not> path_separator c)"

lemma split_on_parts: "\<forall>p \<in> set (split_on sep s). \<forall>c \<in> set p. \<not> sep c"
  by (induction s) (auto split: list.splits)

lemma split_on_nonempty [simp]: "split_on sep s \<noteq> []"
  by (induction s) (auto split: list.splits)

lemma split_on_plain: "\<forall>c \<in> set p. \<not> sep c \<Longrightarrow> split_on sep p = [p]"
  by (induction p) auto

lemma split_on_append:
  "\<forall>c \<in> set p. \<not> sep c \<Longrightarrow> sep x \<Longrightarrow> split_on sep (p @ x # s) = p # split_on sep s"
  by (induction p) auto

lemma safe_parts_plain:
  "safe_parts ps = Some qs \<Longrightarrow> \<forall>p \<in> set ps. \<forall>c \<in> set p. \<not> path_separator c \<Longrightarrow> \<forall>q \<in> set qs. plain_part q"
  by (induction ps arbitrary: qs) (auto simp: plain_part_def split: if_splits)

lemma split_join:
  assumes "ps \<noteq> []" "\<forall>p \<in> set ps. \<forall>c \<in> set p. \<not> sep c" "sep (CHR ''/'')"
  shows "split_on sep (join ps) = ps"
  using assms by (induction ps rule: join.induct) (auto simp: split_on_plain split_on_append)

lemma resolve_plain: "\<forall>p \<in> set ps. plain_part p \<Longrightarrow> resolve dir ps = dir @ ps"
  by (induction ps arbitrary: dir) (auto simp: plain_part_def)

lemma safe_relative_path_parts:
  assumes "safe_relative_path name = Some p"
  obtains parts where "parts \<noteq> []" "p = join parts" "\<forall>q \<in> set parts. plain_part q"
proof -
  from assms obtain parts where "safe_parts (split_on path_separator (trim name)) = Some parts" "parts \<noteq> []" "p = join parts"
    by (auto simp: safe_relative_path_def Let_def split: if_splits option.splits)
  with that safe_parts_plain [OF _ split_on_parts] show ?thesis by blast
qed

text \<open>
  C15. An upload cannot escape its directory: whatever name a peer sends, the accepted path resolves,
  with either kind of separator, to a file strictly below the directory it is joined to, along
  parts that are plain file names.
\<close>

theorem upload_stays_inside:
  assumes "safe_relative_path name = Some p"
  shows "\<exists>rest. rest \<noteq> [] \<and> (\<forall>q \<in> set rest. plain_part q) \<and>
    resolve dir (split_on path_separator p) = dir @ rest \<and>
    resolve dir (split_on (\<lambda>c. c = CHR ''/'') p) = dir @ rest"
proof -
  from safe_relative_path_parts [OF assms] obtain parts
    where parts: "parts \<noteq> []" "p = join parts" "\<forall>q \<in> set parts. plain_part q" by blast
  have "split_on path_separator p = parts"
    unfolding parts(2) using parts(1,3) by (intro split_join) (auto simp: plain_part_def path_separator_def)
  moreover have "split_on (\<lambda>c. c = CHR ''/'') p = parts"
    unfolding parts(2) using parts(1,3) by (intro split_join) (auto simp: plain_part_def path_separator_def)
  ultimately have "split_on path_separator p = parts" "split_on (\<lambda>c. c = CHR ''/'') p = parts" .
  then show ?thesis using parts resolve_plain by metis
qed

theorem upload_stays_inside_witness:
  "safe_relative_path ('' /docs'' @ [CHR 0x5C] @ ''./a.txt '') = Some ''docs/a.txt'' \<and>
    (\<exists>rest. rest \<noteq> [] \<and> resolve [''home''] (split_on path_separator ''docs/a.txt'') = [''home''] @ rest)"
proof -
  have p: "safe_relative_path ('' /docs'' @ [CHR 0x5C] @ ''./a.txt '') = Some ''docs/a.txt''"
    by (simp add: safe_relative_path_def trim_def strip_start.simps white_space_def starts_with_def path_separator_def Let_def)
  show ?thesis using p upload_stays_inside [OF p, of "[''home'']"] by blast
qed

end
