(* ===== verification/Transfer_Policies.thy ===== *)
theory Transfer_Policies
  imports Transfer_Manager Safe_Path
begin

text \<open>
  The two policies that answer transfer offers, \<open>SessionTransferPolicy\<close> of
  \<open>crates/server/src/session/engine.rs\<close> and \<open>ClientTransferPolicy\<close> of
  \<open>crates/client/src/connection.rs\<close>. Both discharge the laws of \<open>transfer_policy\<close>, so that the limits
  of the manager hold for both ends of a connection. Opening the destination is a parameter: it
  gives the results of the coming writes of the stream, or an error.
\<close>

section \<open>The session's policy\<close>

definition ECHO_LIMIT :: nat where "ECHO_LIMIT = 256"

text \<open>\<open>char_indices\<close>: the places where a character starts.\<close>

definition char_starts :: "string \<Rightarrow> nat list" where
  "char_starts s = filter (char_boundary (str_bytes s)) [0..<length s]"

definition ellipsis :: string where "ellipsis = [CHR 0xE2, CHR 0x80, CHR 0xA6]"

definition echo_prefix :: "string \<Rightarrow> string" where
  "echo_prefix s =
     (if ECHO_LIMIT < length (char_starts s) then take (char_starts s ! ECHO_LIMIT) s @ ellipsis else s)"

text \<open>A destination in \<open>staging\<close> is the directory and the file name it is made of.\<close>

record session_policy =
  sp_replace :: bool
  sp_upload_dir :: string
  sp_staging :: "(u64, string \<times> string) hmap"

text \<open>\<open>create dir name replace\<close> is the worker's file, \<open>quote\<close> the \<open>Debug\<close> form of a string.\<close>

definition session_accept ::
    "(string \<Rightarrow> string \<Rightarrow> bool \<Rightarrow> io_fail option list) \<Rightarrow> (string \<Rightarrow> string) \<Rightarrow> session_policy policy" where
  "session_accept create quote i purpose name sz p =
     (case purpose of
        ClipboardImage \<Rightarrow> (Inr (Memory []), p)
      | FileUpload \<Rightarrow>
          (case safe_relative_path name of
             None \<Rightarrow> (Inl (''refusing unsafe upload path '' @ quote (echo_prefix name)), p)
           | Some rel \<Rightarrow> (Inr (Stream [] (create (sp_upload_dir p) rel (sp_replace p))), p))
      | FileDownload \<Rightarrow>
          (case hm_get (sp_staging p) i of
             None \<Rightarrow> (Inl ''unsolicited download offer'', p)
           | Some (dir, file) \<Rightarrow> (Inr (Stream [] (create dir file False)), p)))"

interpretation session_policy: transfer_policy "session_accept create quote" for create quote
  by unfold_locales
    (auto simp: session_accept_def split: transfer_purpose.splits option.splits)

section \<open>The client's policy\<close>

record client_destination =
  cd_path :: string
  cd_parent :: "string option"

record client_policy =
  cp_replacements :: "u64 set"
  cp_downloads :: "(u64, client_destination) hmap"

text \<open>
  \<open>create_dirs\<close> gives the error of \<open>create_dir_all\<close>, if any, and \<open>open\<close> that of \<open>AtomicFile::new\<close> or
  the results of the coming writes.
\<close>

definition open_download ::
    "(string \<Rightarrow> string option) \<Rightarrow> (string \<Rightarrow> bool \<Rightarrow> string + io_fail option list) \<Rightarrow> u64 \<Rightarrow>
     client_policy \<Rightarrow> string + sink" where
  "open_download create_dirs open_file i p =
     (case hm_get (cp_downloads p) i of
        None \<Rightarrow> Inl ''unsolicited download''
      | Some dst \<Rightarrow>
          bindE (case cd_parent dst of
              None \<Rightarrow> Inr ()
            | Some parent \<Rightarrow>
                if parent \<noteq> [] then
                  (case create_dirs parent of
                     None \<Rightarrow> Inr ()
                   | Some e \<Rightarrow> Inl (''cannot create '' @ parent @ '': '' @ e))
                else Inr ())
            (\<lambda>_. case open_file (cd_path dst) (i \<in> cp_replacements p) of
                Inl e \<Rightarrow> Inl (''cannot write '' @ cd_path dst @ '': '' @ e)
              | Inr results \<Rightarrow> Inr (Stream [] results)))"

definition client_accept ::
    "(string \<Rightarrow> string option) \<Rightarrow> (string \<Rightarrow> bool \<Rightarrow> string + io_fail option list) \<Rightarrow> client_policy policy" where
  "client_accept create_dirs open_file i purpose name sz p =
     (case purpose of
        ClipboardImage \<Rightarrow> (Inr (Memory []), p)
      | FileDownload \<Rightarrow> (open_download create_dirs open_file i p, p)
      | FileUpload \<Rightarrow> (Inl ''unexpected upload offer'', p))"

lemma open_download_stream:
  "open_download create_dirs open_file i p = Inr sk \<Longrightarrow> sink_bytes sk = [] \<and> \<not> in_memory sk"
  by (auto simp: open_download_def bindE_Inr_iff split: option.splits sum.splits)

interpretation client_policy: transfer_policy "client_accept create_dirs open_file" for create_dirs open_file
  by unfold_locales
    (auto simp: client_accept_def dest: open_download_stream split: transfer_purpose.splits)

section \<open>Properties\<close>

text \<open>What stays bounded in a manager, whatever its peer sends.\<close>

definition within_limits :: "manager \<Rightarrow> bool" where
  "within_limits m \<longleftrightarrow>
     sum_list (map (sender_in_flight \<circ> out_sender \<circ> snd) (mg_outgoing m)) \<le> GLOBAL_WINDOW_CHUNKS \<and>
     (\<forall>(i, x) \<in> set (mg_outgoing m). sender_in_flight (out_sender x) \<le> WINDOW_CHUNKS) \<and>
     length (mg_incoming m) \<le> 64 \<and>
     (\<forall>(i, x) \<in> set (mg_incoming m). rcv_received (inc_receiver x) \<le> rcv_expected (inc_receiver x)) \<and>
     live_in_memory m \<le> MAX_CONCURRENT_MEMORY_TRANSFERS \<and>
     memory_held m \<le> MAX_CONCURRENT_MEMORY_TRANSFERS * MAX_MEMORY_TRANSFER_SIZE"

lemma manager_ok_limits:
  assumes "manager_ok m"
  shows "within_limits m"
proof -
  have "incoming_ok x" if "(i, x) \<in> set (mg_incoming m)" for i x
    using assms that by (auto simp: manager_ok_def incomings_ok_def)
  then have "\<forall>(i, x) \<in> set (mg_incoming m). rcv_received (inc_receiver x) \<le> rcv_expected (inc_receiver x)"
    by (auto simp: incoming_ok_def Let_def)
  then show ?thesis
    using assms memory_held_le [OF assms] flight_each [OF assms]
    by (auto simp: within_limits_def live_in_memory_count manager_ok_def outgoing_ok_def incomings_ok_def
        flight_def comp_assoc)
qed

text \<open>
  C31. A peer cannot make the session hold or send more than the limits: in every state reached by
  any sequence of the manager's operations and of messages from the client, at most
  \<open>GLOBAL_WINDOW_CHUNKS\<close> chunks are unacknowledged over all transfers and \<open>WINDOW_CHUNKS\<close> in each, at
  most 64 transfers come in, none of them has taken more bytes than were offered, and those
  collected in memory hold at most two times 64 MiB.
\<close>

theorem session_transfers_bounded:
  assumes "reach (\<lambda>m. \<exists>b. m = manager_new b) (manager_step (session_accept create quote)) m"
  shows "within_limits m"
  by (rule manager_ok_limits [OF session_policy.manager_reach_ok [OF assms]])

theorem session_transfers_bounded_witness:
  "within_limits (snd (offer_stream_with_id 7 FileUpload ''a'' 3 [Bytes [1, 2, 3]] (manager_new False)))"
proof (rule session_transfers_bounded [of "\<lambda>d f r. []" "\<lambda>s. s"])
  let ?step = "manager_step (session_accept (\<lambda>d f r. []) (\<lambda>s. s))"
  have "reach (\<lambda>m. \<exists>b. m = manager_new b) ?step (manager_new False)" by (rule reach_init) blast
  moreover have "?step (manager_new False)
      (snd (offer_stream_with_id 7 FileUpload ''a'' 3 [Bytes [1, 2, 3]] (manager_new False)))"
    by (rule step_offer [where sz = 3, OF _ prod.collapse [symmetric]]) simp
  ultimately show "reach (\<lambda>m. \<exists>b. m = manager_new b) ?step
      (snd (offer_stream_with_id 7 FileUpload ''a'' 3 [Bytes [1, 2, 3]] (manager_new False)))"
    by (rule reach_step)
qed

text \<open>
  The same limits hold on the client, whatever the server sends and whatever its file system
  answers.
\<close>

theorem client_transfers_bounded:
  assumes "reach (\<lambda>m. \<exists>b. m = manager_new b) (manager_step (client_accept create_dirs open_file)) m"
  shows "within_limits m"
  by (rule manager_ok_limits [OF client_policy.manager_reach_ok [OF assms]])

theorem client_transfers_bounded_witness: "within_limits (expect 9 (manager_new True))"
proof (rule client_transfers_bounded [of "\<lambda>d. None" "\<lambda>p r. Inr []"])
  let ?step = "manager_step (client_accept (\<lambda>d. None) (\<lambda>p r. Inr []))"
  have "reach (\<lambda>m. \<exists>b. m = manager_new b) ?step (manager_new True)" by (rule reach_init) blast
  then show "reach (\<lambda>m. \<exists>b. m = manager_new b) ?step (expect 9 (manager_new True))"
    by (rule reach_step) (rule step_expect)
qed

text \<open>
  Nothing is written that was not asked for: a download offer is taken only if the session is
  staging that identifier, or the client asked for it, and the client takes no upload at all.
\<close>

theorem only_solicited_downloads:
  "(fst (session_accept create quote i FileDownload name sz sp) = Inr sk \<longrightarrow> hm_get (sp_staging sp) i \<noteq> None) \<and>
   (fst (client_accept create_dirs open_file i FileDownload name sz cp) = Inr sk \<longrightarrow>
      hm_get (cp_downloads cp) i \<noteq> None) \<and>
   (\<exists>e. fst (client_accept create_dirs open_file i FileUpload name sz cp) = Inl e)"
  by (auto simp: session_accept_def client_accept_def open_download_def split: option.splits)

theorem only_solicited_downloads_witness:
  "hm_get (sp_staging \<lparr>sp_replace = False, sp_upload_dir = ''u'', sp_staging = [(5, (''d'', ''f''))]\<rparr>) (5 :: u64) \<noteq> None"
proof -
  let ?p = "\<lparr>sp_replace = False, sp_upload_dir = ''u'', sp_staging = [(5 :: u64, (''d'', ''f''))]\<rparr>"
  have "fst (session_accept (\<lambda>d f r. []) (\<lambda>s. s) 5 FileDownload ''x'' 1 ?p) = Inr (Stream [] [])"
    by (simp add: session_accept_def)
  then show ?thesis using only_solicited_downloads [of "\<lambda>d f r. []" "\<lambda>s. s" 5 "''x''" 1 ?p "Stream [] []"] by blast
qed

end
