(* ===== verification/Flow_Control.thy ===== *)
theory Flow_Control
  imports Frame
begin

text \<open>
  The rules of \<open>crates/server/src/session/engine.rs\<close> that decide how many frames may be under way,
  how a frame is cut into messages and which screen sizes are asked for. Times are nanoseconds.
  The lemmas bound the window, show where it settles, and show that the messages of a frame
  together do what the frame does, each within the frame limit of the receiver.
\<close>

section \<open>Constants\<close>

definition MAX_IN_FLIGHT_CAP :: nat where "MAX_IN_FLIGHT_CAP = 8"

definition RTT_WINDOW :: nat where "RTT_WINDOW = 10 * 1000000000"

definition RTT_SAMPLES :: nat where "RTT_SAMPLES = 256"

definition MIN_SCREEN_DIM :: nat where "MIN_SCREEN_DIM = 64"

definition SCREEN_UPDATE_FIXED :: nat where "SCREEN_UPDATE_FIXED = 1 + 8 + 4 + 4"

definition COPY_RECT_BYTES :: nat where "COPY_RECT_BYTES = 12"

definition TILE_FIXED :: nat where "TILE_FIXED = 8 + 1 + 4"

text \<open>The longest \<open>Duration\<close>, where its saturating operations stop.\<close>

definition DURATION_MAX :: nat where "DURATION_MAX = (2 ^ 64 - 1) * 1000000000 + 999999999"

section \<open>Round trips\<close>

type_synonym rtt_window = "(nat \<times> nat) list"

text \<open>\<open>duration_since\<close> of an instant in the future is zero.\<close>

definition rtt_record :: "nat \<Rightarrow> nat \<Rightarrow> rtt_window \<Rightarrow> nat \<times> rtt_window" where
  "rtt_record now rtt samples =
     (let samples = samples @ [(now, rtt)];
          samples = dropWhile (\<lambda>(at, _). RTT_WINDOW < now - at) samples;
          samples = drop (length samples - RTT_SAMPLES) samples
      in (case map snd samples of [] \<Rightarrow> rtt | d # ds \<Rightarrow> fold min ds d, samples))"

definition clamp :: "nat \<Rightarrow> nat \<Rightarrow> nat \<Rightarrow> nat" where
  "clamp lo hi n = (if n < lo then lo else if hi < n then hi else n)"

definition frames_per_rtt :: "nat \<Rightarrow> nat \<Rightarrow> nat" where
  "frames_per_rtt rtt interval = clamp 1 MAX_IN_FLIGHT_CAP (div_ceil rtt (max interval 1))"

definition adapt_in_flight :: "nat \<Rightarrow> nat \<Rightarrow> nat \<Rightarrow> nat \<Rightarrow> nat \<Rightarrow> nat" where
  "adapt_in_flight current flr base_rtt sample min_frame_interval =
     (let flr = clamp 1 MAX_IN_FLIGHT_CAP flr;
          interval = max min_frame_interval 1000;
          target = clamp flr MAX_IN_FLIGHT_CAP (frames_per_rtt base_rtt interval);
          late = min (base_rtt + min (interval * 2) DURATION_MAX) DURATION_MAX;
          nxt = (if late < sample \<or> target < current then current - 1
                 else if current < target then min (current + 1) (2 ^ 32 - 1)
                 else current)
      in clamp flr MAX_IN_FLIGHT_CAP nxt)"

section \<open>Screen sizes\<close>

definition clamp_dimension :: "nat \<Rightarrow> nat \<Rightarrow> nat" where
  "clamp_dimension v mx = max (min v mx) (min MIN_SCREEN_DIM mx)"

section \<open>Cutting a frame into messages\<close>

record splitting =
  sf_parts :: "(copy_rect list \<times> tile_update list) list"
  sf_copies :: "copy_rect list option"
  sf_part :: "tile_update list"
  sf_size :: nat

definition split_step :: "nat \<Rightarrow> tile_update \<Rightarrow> splitting \<Rightarrow> splitting" where
  "split_step budget tile st =
     (let cost = TILE_FIXED + length (tile_data tile);
          st = (if sf_part st \<noteq> [] \<and> budget < sf_size st + cost
                then \<lparr>sf_parts = sf_parts st @ [(case sf_copies st of None \<Rightarrow> [] | Some cs \<Rightarrow> cs, sf_part st)],
                      sf_copies = None, sf_part = [], sf_size = SCREEN_UPDATE_FIXED\<rparr>
                else st)
      in st\<lparr>sf_size := sf_size st + cost, sf_part := sf_part st @ [tile]\<rparr>)"

definition split_frame_within ::
    "copy_rect list \<Rightarrow> tile_update list \<Rightarrow> nat \<Rightarrow> (copy_rect list \<times> tile_update list) list" where
  "split_frame_within copies tiles budget =
     (let st = fold (split_step budget) tiles
            \<lparr>sf_parts = [], sf_copies = Some copies, sf_part = [],
             sf_size = SCREEN_UPDATE_FIXED + length copies * COPY_RECT_BYTES\<rparr>
      in sf_parts st @ [(case sf_copies st of None \<Rightarrow> [] | Some cs \<Rightarrow> cs, sf_part st)])"

definition split_frame :: "copy_rect list \<Rightarrow> tile_update list \<Rightarrow> (copy_rect list \<times> tile_update list) list" where
  "split_frame copies tiles = split_frame_within copies tiles MAX_MESSAGE_SIZE"

section \<open>The window rule\<close>

lemma clamp_bounds: "lo \<le> hi \<Longrightarrow> lo \<le> clamp lo hi n \<and> clamp lo hi n \<le> hi"
  by (simp add: clamp_def)

lemma clamp_id: "lo \<le> n \<Longrightarrow> n \<le> hi \<Longrightarrow> clamp lo hi n = n"
  by (simp add: clamp_def)

lemma clamp_near:
  "lo \<le> cur \<Longrightarrow> cur \<le> hi \<Longrightarrow> n \<le> cur + 1 \<Longrightarrow> cur \<le> n + 1 \<Longrightarrow>
     clamp lo hi n \<le> cur + 1 \<and> cur \<le> clamp lo hi n + 1"
  by (simp add: clamp_def)

text \<open>The window every step moves towards.\<close>

definition window_target :: "nat \<Rightarrow> nat \<Rightarrow> nat \<Rightarrow> nat" where
  "window_target flr base_rtt interval =
     clamp (clamp 1 MAX_IN_FLIGHT_CAP flr) MAX_IN_FLIGHT_CAP (frames_per_rtt base_rtt (max interval 1000))"

definition on_time :: "nat \<Rightarrow> nat \<Rightarrow> nat \<Rightarrow> bool" where
  "on_time base_rtt interval sample \<longleftrightarrow>
     sample \<le> min (base_rtt + min (max interval 1000 * 2) DURATION_MAX) DURATION_MAX"

lemma adapt_bounds:
  "clamp 1 MAX_IN_FLIGHT_CAP flr \<le> adapt_in_flight cur flr base s iv \<and> adapt_in_flight cur flr base s iv \<le> MAX_IN_FLIGHT_CAP"
  unfolding adapt_in_flight_def Let_def by (rule clamp_bounds) (simp add: clamp_def MAX_IN_FLIGHT_CAP_def)

lemma target_bounds:
  "clamp 1 MAX_IN_FLIGHT_CAP flr \<le> window_target flr base iv \<and> window_target flr base iv \<le> MAX_IN_FLIGHT_CAP"
  unfolding window_target_def by (rule clamp_bounds) (simp add: clamp_def MAX_IN_FLIGHT_CAP_def)

lemma adapt_step:
  assumes "clamp 1 MAX_IN_FLIGHT_CAP flr \<le> cur" "cur \<le> MAX_IN_FLIGHT_CAP" "on_time base iv s"
  shows "adapt_in_flight cur flr base s iv =
    (if window_target flr base iv < cur then cur - 1 else if cur < window_target flr base iv then cur + 1 else cur)"
proof -
  have late: "\<not> min (base + min (max iv 1000 * 2) DURATION_MAX) DURATION_MAX < s"
    using assms(3) by (simp only: on_time_def not_less)
  have cap: "cur + 1 \<le> 2 ^ 32 - 1" using assms(2) by (simp add: MAX_IN_FLIGHT_CAP_def)
  have m: "min (cur + 1) (2 ^ 32 - 1) = cur + 1" using cap by (rule min_absorb1)
  show ?thesis
    using target_bounds [of flr base iv] assms(1,2)
    unfolding adapt_in_flight_def Let_def window_target_def [symmetric] m
    by (simp only: late if_False simp_thms) (auto simp: clamp_id)
qed

text \<open>
  C32. The in-flight window never undercuts the configured floor nor exceeds the cap, moves by at
  most one slot per acknowledgement within them, and while samples are on time comes to the number
  of frames that fit in one round trip and stays there: eight acknowledgements are enough from
  anywhere.
\<close>

theorem window_settles:
  assumes "clamp 1 MAX_IN_FLIGHT_CAP flr \<le> cur" "cur \<le> MAX_IN_FLIGHT_CAP"
  shows "clamp 1 MAX_IN_FLIGHT_CAP flr \<le> adapt_in_flight cur flr base s iv \<and>
    adapt_in_flight cur flr base s iv \<le> MAX_IN_FLIGHT_CAP \<and>
    adapt_in_flight cur flr base s iv \<le> cur + 1 \<and> cur \<le> adapt_in_flight cur flr base s iv + 1 \<and>
    (\<forall>samples. 8 \<le> length samples \<and> list_all (on_time base iv) samples \<longrightarrow>
       fold (\<lambda>s w. adapt_in_flight w flr base s iv) samples cur = window_target flr base iv)"
proof -
  let ?t = "window_target flr base iv"
  have near: "fold (\<lambda>s w. adapt_in_flight w flr base s iv) samples cur = ?t"
    if "list_all (on_time base iv) samples" "clamp 1 MAX_IN_FLIGHT_CAP flr \<le> cur" "cur \<le> MAX_IN_FLIGHT_CAP"
      "?t \<le> cur + length samples" "cur \<le> ?t + length samples" for samples cur
    using that
  proof (induction samples arbitrary: cur)
    case (Cons s samples)
    let ?next = "if ?t < cur then cur - 1 else if cur < ?t then cur + 1 else cur"
    have "adapt_in_flight cur flr base s iv = ?next"
      using Cons.prems by (intro adapt_step) auto
    moreover have "fold (\<lambda>s w. adapt_in_flight w flr base s iv) samples ?next = ?t"
      using Cons.prems target_bounds [of flr base iv] by (intro Cons.IH) auto
    ultimately show ?case by simp
  qed simp
  have "?t \<le> 8" using target_bounds [of flr base iv] by (simp add: MAX_IN_FLIGHT_CAP_def)
  moreover have cur8: "cur \<le> 8" using assms(2) by (simp add: MAX_IN_FLIGHT_CAP_def)
  ultimately have settles: "\<forall>samples. 8 \<le> length samples \<and> list_all (on_time base iv) samples \<longrightarrow>
       fold (\<lambda>s w. adapt_in_flight w flr base s iv) samples cur = ?t"
    using near [OF _ assms] by simp
  have one: "adapt_in_flight cur flr base s iv \<le> cur + 1 \<and> cur \<le> adapt_in_flight cur flr base s iv + 1"
    using assms cur8 unfolding adapt_in_flight_def Let_def
    by (intro clamp_near) (auto simp: min_def)
  show ?thesis using adapt_bounds one settles by blast
qed

theorem window_settles_witness:
  "fold (\<lambda>s w. adapt_in_flight w 2 50000000 s 10000000) (replicate 8 50000000) 2 = window_target 2 50000000 10000000 \<and>
     window_target 2 50000000 10000000 = 5"
proof -
  have on: "list_all (on_time 50000000 10000000) (replicate 8 50000000)"
    by (simp add: list_all_iff on_time_def DURATION_MAX_def)
  have "clamp 1 MAX_IN_FLIGHT_CAP 2 \<le> 2" "2 \<le> MAX_IN_FLIGHT_CAP"
    by (simp_all add: clamp_def MAX_IN_FLIGHT_CAP_def)
  from window_settles [OF this, of 50000000 0 10000000]
  have "\<forall>samples. 8 \<le> length samples \<and> list_all (on_time 50000000 10000000) samples \<longrightarrow>
       fold (\<lambda>s w. adapt_in_flight w 2 50000000 s 10000000) samples 2 = window_target 2 50000000 10000000"
    by blast
  from this [rule_format, of "replicate 8 50000000"] on
  have "fold (\<lambda>s w. adapt_in_flight w 2 50000000 s 10000000) (replicate 8 50000000) 2 = window_target 2 50000000 10000000"
    by (simp only: length_replicate simp_thms order_refl)
  then show ?thesis
    by (simp add: window_target_def frames_per_rtt_def div_ceil_def clamp_def MAX_IN_FLIGHT_CAP_def)
qed

section \<open>The base round trip\<close>

text \<open>What a window remembers: samples in the order they came, at most \<open>RTT_SAMPLES\<close> of them.\<close>

definition rtt_ok :: "nat \<Rightarrow> rtt_window \<Rightarrow> bool" where
  "rtt_ok now samples \<longleftrightarrow> sorted (map fst samples) \<and> (\<forall>(at, _) \<in> set samples. at \<le> now) \<and>
     length samples \<le> RTT_SAMPLES"

lemma fold_min_set:
  fixes d :: nat
  shows "fold min ds d = Min (insert d (set ds))"
proof (induction ds arbitrary: d)
  case (Cons x ds)
  have "fold min (x # ds) d = Min (insert (min x d) (set ds))" using Cons by simp
  also have "\<dots> = Min (insert d (set (x # ds)))"
    by (cases "set ds = {}") (auto simp: min.commute min.left_commute)
  finally show ?case .
qed simp

lemma dropWhile_old:
  fixes now w :: nat
  assumes "sorted (map fst xs)"
  shows "dropWhile (\<lambda>(at, _). w < now - at) xs = filter (\<lambda>(at, _). now - at \<le> w) xs"
  using assms
proof (induction xs)
  case (Cons x xs)
  show ?case
  proof (cases "w < now - fst x")
    case True
    then show ?thesis using Cons by (simp add: case_prod_unfold)
  next
    case False
    have "now - fst y \<le> w" if "y \<in> set xs" for y
      using False Cons(2) that diff_le_mono2 [of "fst x" "fst y" now] by (fastforce simp: not_less)
    then show ?thesis using False by (simp add: case_prod_unfold not_less filter_id_conv [THEN iffD2])
  qed
qed simp

text \<open>
  The base round trip is the minimum of the recent samples: of all samples no older than
  \<open>RTT_WINDOW\<close>, the newest \<open>RTT_SAMPLES\<close>; nothing else is kept, so the record stays bounded and a
  path that became longer is believed once its better samples are out of the window.
\<close>

theorem rtt_is_recent_minimum:
  assumes "rtt_ok earlier samples" "earlier \<le> now" "rtt_record now rtt samples = (base, samples')"
  shows "(let recent = filter (\<lambda>(at, _). now - at \<le> RTT_WINDOW) (samples @ [(now, rtt)]) in
      samples' = drop (length recent - RTT_SAMPLES) recent) \<and>
    base = Min (snd ` set samples') \<and> (now, rtt) \<in> set samples' \<and> base \<le> rtt \<and> rtt_ok now samples'"
proof -
  define recent where "recent = filter (\<lambda>(at, _). now - at \<le> RTT_WINDOW) (samples @ [(now, rtt)])"
  have sorted: "sorted (map fst (samples @ [(now, rtt)]))"
    using assms(1,2) by (fastforce simp: rtt_ok_def sorted_append)
  have s': "samples' = drop (length recent - RTT_SAMPLES) recent"
    and base: "base = (case map snd samples' of [] \<Rightarrow> rtt | d # ds \<Rightarrow> fold min ds d)"
    using assms(3) unfolding rtt_record_def Let_def dropWhile_old [OF sorted] recent_def by auto
  have last: "recent \<noteq> []" "last recent = (now, rtt)" by (simp_all add: recent_def)
  have "length recent - RTT_SAMPLES < length recent" using last(1) by (simp add: RTT_SAMPLES_def)
  then have ne: "samples' \<noteq> []" "last samples' = (now, rtt)" using s' last by simp_all
  then have mem: "(now, rtt) \<in> set samples'" by (metis last_in_set)
  have min: "base = Min (snd ` set samples')"
    using base ne by (cases samples') (auto simp: fold_min_set)
  have sub: "set samples' \<subseteq> set (samples @ [(now, rtt)])"
    using s' by (auto simp: recent_def dest: in_set_dropD)
  have "sorted (map fst recent)" unfolding recent_def by (rule sorted_filter [OF sorted])
  then have "sorted (map fst samples')" unfolding s' drop_map [symmetric] by (rule sorted_wrt_drop)
  then have "rtt_ok now samples'"
    using sub s' assms(1,2) by (fastforce simp: rtt_ok_def)
  moreover have "base \<le> rtt" unfolding min using mem by (intro Min_le) force+
  ultimately show ?thesis using s' min mem by (simp add: recent_def Let_def)
qed

theorem rtt_is_recent_minimum_witness:
  "fst (rtt_record 20000000000 80 [(0, 10), (15000000000, 60)]) = 60"
proof -
  obtain base samples' where r: "rtt_record 20000000000 80 [(0, 10), (15000000000, 60)] = (base, samples')"
    by fastforce
  have "rtt_ok 15000000000 [(0, 10), (15000000000, 60)]" by (simp add: rtt_ok_def RTT_SAMPLES_def)
  from rtt_is_recent_minimum [OF this _ r] have "base = Min (snd ` set samples')"
    "samples' = [(15000000000, 60), (20000000000, 80)]"
    by (simp_all add: RTT_WINDOW_def RTT_SAMPLES_def Let_def)
  then show ?thesis using r by simp
qed

section \<open>The messages of one frame\<close>

definition tile_cost :: "tile_update \<Rightarrow> nat" where
  "tile_cost t = TILE_FIXED + length (tile_data t)"

definition part_cost :: "copy_rect list \<times> tile_update list \<Rightarrow> nat" where
  "part_cost p = SCREEN_UPDATE_FIXED + COPY_RECT_BYTES * length (fst p) + sum_list (map tile_cost (snd p))"

definition open_part :: "splitting \<Rightarrow> copy_rect list \<times> tile_update list" where
  "open_part st = (case sf_copies st of None \<Rightarrow> [] | Some cs \<Rightarrow> cs, sf_part st)"

definition split_shape :: "copy_rect list \<Rightarrow> tile_update list \<Rightarrow> splitting \<Rightarrow> bool" where
  "split_shape copies ts st \<longleftrightarrow>
     concat (map snd (sf_parts st @ [open_part st])) = ts \<and>
     fst (hd (sf_parts st @ [open_part st])) = copies \<and>
     (\<forall>p \<in> set (tl (sf_parts st @ [open_part st])). fst p = []) \<and>
     (sf_copies st = (if sf_parts st = [] then Some copies else None))"

definition split_inv :: "copy_rect list \<Rightarrow> nat \<Rightarrow> tile_update list \<Rightarrow> splitting \<Rightarrow> bool" where
  "split_inv copies budget ts st \<longleftrightarrow> split_shape copies ts st \<and>
     sf_size st = part_cost (open_part st) \<and>
     (\<forall>p \<in> set (sf_parts st @ [open_part st]). part_cost p \<le> budget)"

lemma split_step_shape: "split_shape copies ts st \<Longrightarrow> split_shape copies (ts @ [t]) (split_step budget t st)"
  by (cases "sf_parts st")
    (auto simp: split_shape_def split_step_def Let_def open_part_def split: if_splits)

lemma split_step_inv:
  assumes inv: "split_inv copies budget ts st"
    and fits: "SCREEN_UPDATE_FIXED + COPY_RECT_BYTES * length copies + tile_cost t \<le> budget"
  shows "split_inv copies budget (ts @ [t]) (split_step budget t st)"
proof (cases "sf_part st \<noteq> [] \<and> budget < sf_size st + tile_cost t")
  case True
  then have st': "split_step budget t st = \<lparr>sf_parts = sf_parts st @ [open_part st], sf_copies = None,
      sf_part = [t], sf_size = SCREEN_UPDATE_FIXED + tile_cost t\<rparr>"
    by (simp add: split_step_def Let_def tile_cost_def open_part_def)
  show ?thesis
    using inv fits unfolding st'
    by (auto simp: split_inv_def split_shape_def open_part_def part_cost_def hd_append tl_append split: list.splits if_splits)
next
  case False
  then have st': "split_step budget t st = st\<lparr>sf_size := sf_size st + tile_cost t, sf_part := sf_part st @ [t]\<rparr>"
    by (auto simp: split_step_def Let_def tile_cost_def)
  have cost: "part_cost (open_part (split_step budget t st)) = sf_size st + tile_cost t"
    using inv unfolding st' by (simp add: split_inv_def split_shape_def open_part_def part_cost_def)
  have "sf_size st + tile_cost t \<le> budget"
  proof (cases "sf_part st = []")
    case True
    then show ?thesis
      using inv fits by (auto simp: split_inv_def split_shape_def open_part_def part_cost_def split: if_splits)
  qed (use False in simp)
  then show ?thesis
    using inv cost unfolding st'
    by (auto simp: split_inv_def split_shape_def open_part_def hd_append tl_append split: list.splits if_splits)
qed

lemma split_frame_within_inv:
  assumes fits: "\<forall>t \<in> set tiles. SCREEN_UPDATE_FIXED + COPY_RECT_BYTES * length copies + tile_cost t \<le> budget"
    and copies: "SCREEN_UPDATE_FIXED + COPY_RECT_BYTES * length copies \<le> budget"
  shows "concat (map snd (split_frame_within copies tiles budget)) = tiles \<and>
    (\<exists>ts ps. split_frame_within copies tiles budget = (copies, ts) # ps \<and> (\<forall>p \<in> set ps. fst p = [])) \<and>
    (\<forall>p \<in> set (split_frame_within copies tiles budget). part_cost p \<le> budget)"
proof -
  define st0 where "st0 = \<lparr>sf_parts = [], sf_copies = Some copies, sf_part = [],
      sf_size = SCREEN_UPDATE_FIXED + length copies * COPY_RECT_BYTES\<rparr>"
  have "split_inv copies budget (ts @ us) (fold (split_step budget) us st)"
    if "split_inv copies budget ts st" "\<forall>t \<in> set us. SCREEN_UPDATE_FIXED + COPY_RECT_BYTES * length copies + tile_cost t \<le> budget"
    for ts us st
    using that
  proof (induction us arbitrary: ts st)
    case (Cons u us)
    then show ?case using split_step_inv [of copies budget ts st u] Cons.IH [of "ts @ [u]"] by simp
  qed simp
  moreover have "split_inv copies budget [] st0"
    using copies by (simp add: st0_def split_inv_def split_shape_def open_part_def part_cost_def mult.commute)
  ultimately have inv: "split_inv copies budget tiles (fold (split_step budget) tiles st0)"
    using fits by fastforce
  define all where "all = sf_parts (fold (split_step budget) tiles st0) @ [open_part (fold (split_step budget) tiles st0)]"
  have all: "split_frame_within copies tiles budget = all"
    by (simp add: split_frame_within_def Let_def st0_def open_part_def all_def)
  obtain p ps where ps: "all = p # ps" by (cases all) (auto simp: all_def)
  then show ?thesis
    using inv unfolding all split_inv_def split_shape_def all_def [symmetric]
    by (intro conjI exI [of _ "snd p"] exI [of _ ps]) (auto simp: prod_eq_iff)
qed

text \<open>What the client does with the messages of a frame, one after the other.\<close>

primrec apply_messages ::
    "compressors \<Rightarrow> (copy_rect list \<times> tile_update list) list \<Rightarrow> decoder \<Rightarrow> (decoder \<times> (codec_error + unit)) option" where
  "apply_messages cs [] d = Some (d, Inr ())"
| "apply_messages cs (p # ps) d =
     Option.bind (decoder_apply_frame cs (fst p) (snd p) d) (\<lambda>(d, res).
       case res of Inl e \<Rightarrow> Some (d, Inl e) | Inr _ \<Rightarrow> apply_messages cs ps d)"

lemma apply_tiles_accepted:
  "apply_tiles cs budget ts fb spent dirty = Some (fb', Inr r) \<Longrightarrow>
   spent + sum_list (map (\<lambda>t. area (tile_rect t)) ts) < 2 ^ 64 \<Longrightarrow> \<forall>t \<in> set ts. rect_wf (tile_rect t) \<Longrightarrow>
     paints cs ts fb fb' \<and> (ts = [] \<or> spent + sum_list (map (\<lambda>t. area (tile_rect t)) ts) \<le> budget)"
proof (induction ts arbitrary: fb spent dirty)
  case (Cons t ts)
  have s: "add64 spent (area (tile_rect t)) = spent + area (tile_rect t)"
    using Cons.prems(2) by (intro add64_no_wrap) simp
  from Cons.prems(1) have le: "spent + area (tile_rect t) \<le> budget"
    by (auto simp: s Let_def split: if_splits)
  with Cons.prems(1) obtain fb1 res where tile: "apply_tile cs fb t = Some (fb1, res)"
    by (auto simp: s Let_def bind_eq_Some_conv)
  with Cons.prems(1) le have t: "apply_tile cs fb t = Some (fb1, Inr ())"
    and rest: "apply_tiles cs budget ts fb1 (spent + area (tile_rect t)) (rect_union dirty (tile_rect t)) = Some (fb', Inr r)"
    by (cases res; auto simp: s Let_def)+
  from Cons.IH [OF rest] Cons.prems(2,3) t le show ?case by (auto simp: add.assoc)
qed simp

lemma paints_size:
  "paints cs ts fb fb' \<Longrightarrow> fb_wf fb \<Longrightarrow> fb_wf fb' \<and> same_size fb' fb"
proof (induction ts arbitrary: fb)
  case (Cons t ts)
  then obtain fb1 where t: "rect_wf (tile_rect t)" "apply_tile cs fb t = Some (fb1, Inr ())" "paints cs ts fb1 fb'" by auto
  then have "fb_wf fb1" "same_size fb1 fb" using apply_tile_total [OF Cons.prems(2), of t cs] by auto
  then show ?case using Cons.IH [OF t(3)] by (auto simp: same_size_def)
qed (auto simp: same_size_def)

lemma budget_size: "same_size a b \<Longrightarrow> frame_pixel_budget a = frame_pixel_budget b"
  by (simp add: frame_pixel_budget_def same_size_def fb_bounds_def)

lemma budget_bound: "frame_pixel_budget fb < 2 ^ 64"
  by (simp add: frame_pixel_budget_def sat_mul64_def min_def)

lemma decoder_apply_tiles:
  assumes "paints cs ts (dec_fb d) fb" "sum_list (map (\<lambda>t. area (tile_rect t)) ts) \<le> frame_pixel_budget (dec_fb d)"
  shows "\<exists>r. decoder_apply cs ts d = Some (d\<lparr>dec_fb := fb\<rparr>, Inr r)"
  using apply_tiles_paints [OF assms(1), of 0 "frame_pixel_budget (dec_fb d)" rect_default] assms(2) budget_bound
  by (auto simp: decoder_apply_def)

lemma apply_no_copies: "decoder_apply cs ts d = Some (d', Inr r) \<Longrightarrow> \<exists>r'. decoder_apply_frame cs [] ts d = Some (d', Inr r')"
  by (simp add: decoder_apply_frame_def apply_copies_def)

lemma apply_later_parts:
  assumes "paints cs (concat (map snd ps)) (dec_fb d) fb" "\<forall>p \<in> set ps. fst p = []"
    "sum_list (map (\<lambda>t. area (tile_rect t)) (concat (map snd ps))) \<le> frame_pixel_budget (dec_fb d)"
    "fb_wf (dec_fb d)"
  shows "apply_messages cs ps d = Some (d\<lparr>dec_fb := fb\<rparr>, Inr ())"
  using assms
proof (induction ps arbitrary: d)
  case (Cons p ps)
  then obtain fb1 where fb1: "paints cs (snd p) (dec_fb d) fb1" "paints cs (concat (map snd ps)) fb1 fb"
    by (auto simp: paints_append)
  have size: "fb_wf fb1" "same_size fb1 (dec_fb d)" using paints_size [OF fb1(1)] Cons.prems by auto
  obtain r where "decoder_apply cs (snd p) d = Some (d\<lparr>dec_fb := fb1\<rparr>, Inr r)"
    using decoder_apply_tiles [OF fb1(1)] Cons.prems by auto
  from apply_no_copies [OF this] obtain r' where
    "decoder_apply_frame cs (fst p) (snd p) d = Some (d\<lparr>dec_fb := fb1\<rparr>, Inr r')" using Cons.prems by auto
  moreover have "apply_messages cs ps (d\<lparr>dec_fb := fb1\<rparr>) = Some (d\<lparr>dec_fb := fb\<rparr>, Inr ())"
    using Cons.IH [of "d\<lparr>dec_fb := fb1\<rparr>"] Cons.prems fb1(2) size budget_size [OF size(2)] by simp
  ultimately show ?case by simp
qed simp

text \<open>The parts of an update that applies as a whole apply one after the other.\<close>

lemma split_frame_shape:
  obtains ts ps where "split_frame copies tiles = (copies, ts) # ps" "\<forall>p \<in> set ps. fst p = []"
    "tiles = ts @ concat (map snd ps)"
proof -
  define st0 where "st0 = \<lparr>sf_parts = [], sf_copies = Some copies, sf_part = [],
      sf_size = SCREEN_UPDATE_FIXED + length copies * COPY_RECT_BYTES\<rparr>"
  have "split_shape copies (ts @ us) (fold (split_step b) us st)" if "split_shape copies ts st" for ts us st b
    using that
  proof (induction us arbitrary: ts st)
    case (Cons u us)
    then show ?case using split_step_shape [of copies ts st u b] Cons.IH [of "ts @ [u]"] by simp
  qed simp
  moreover have "split_shape copies [] st0" by (simp add: st0_def split_shape_def open_part_def)
  ultimately have inv: "split_shape copies tiles (fold (split_step MAX_MESSAGE_SIZE) tiles st0)" by fastforce
  define all where "all = sf_parts (fold (split_step MAX_MESSAGE_SIZE) tiles st0) @
      [open_part (fold (split_step MAX_MESSAGE_SIZE) tiles st0)]"
  have all: "split_frame copies tiles = all"
    by (simp add: split_frame_def split_frame_within_def Let_def st0_def open_part_def all_def)
  obtain p ps where ps: "all = p # ps" by (cases all) (auto simp: all_def)
  show ?thesis
    by (rule that [of "snd p" ps])
      (use inv all ps in \<open>auto simp: split_shape_def all_def [symmetric] prod_eq_iff\<close>)
qed

lemma split_frame_applies:
  assumes "applies_whole cs \<lparr>fu_copies = copies, fu_tiles = tiles\<rparr> d d'"
  shows "apply_messages cs (split_frame copies tiles) d = Some (d', Inr ())"
proof -
  obtain ts ps where ps: "split_frame copies tiles = (copies, ts) # ps" "\<forall>p \<in> set ps. fst p = []"
    "tiles = ts @ concat (map snd ps)" by (rule split_frame_shape)
  obtain fb1 m fb2 where c: "apply_copies (dec_fb d) copies = Some (fb1, Inr m)" "fb_wf fb1"
    and p: "paints cs tiles fb1 fb2" and d': "d' = d\<lparr>dec_fb := fb2\<rparr>"
    and budget: "sum_list (map (\<lambda>t. area (tile_rect t)) tiles) \<le> frame_pixel_budget fb1"
    using assms by (auto simp: applies_whole_def)
  from p ps(3) obtain fb3 where fb3: "paints cs ts fb1 fb3" "paints cs (concat (map snd ps)) fb3 fb2"
    by (auto simp: paints_append)
  have size: "fb_wf fb3" "same_size fb3 fb1" using paints_size [OF fb3(1) c(2)] by auto
  have "\<exists>r. decoder_apply cs ts (d\<lparr>dec_fb := fb1\<rparr>) = Some (d\<lparr>dec_fb := fb3\<rparr>, Inr r)"
    using decoder_apply_tiles [of cs ts "d\<lparr>dec_fb := fb1\<rparr>" fb3] fb3(1) budget ps(3) by simp
  then obtain r where "decoder_apply_frame cs copies ts d = Some (d\<lparr>dec_fb := fb3\<rparr>, Inr r)"
    using c(1) by (auto simp: decoder_apply_frame_def)
  moreover have "apply_messages cs ps (d\<lparr>dec_fb := fb3\<rparr>) = Some (d', Inr ())"
    using apply_later_parts [of cs ps "d\<lparr>dec_fb := fb3\<rparr>" fb2] fb3(2) ps(2,3) budget budget_size [OF size(2)] size(1) d'
    by simp
  ultimately show ?thesis by (simp add: ps(1))
qed

text \<open>
  C33. Cutting a frame into messages changes nothing but their size: each message fits the frame
  limit of the receiver, and a client that accepts the whole frame accepts the messages one after
  the other and ends in the same state. The hypotheses on the tiles' edges and areas are what
  16-bit wire fields guarantee; no single tile may exceed the limit beside the copies.
\<close>

theorem split_frame_refines:
  assumes whole: "decoder_apply_frame cs copies tiles d = Some (d', Inr dirty)"
    and d: "fb_wf (dec_fb d)" and copies: "\<forall>c \<in> set copies. copy_wf c" and tiles: "\<forall>t \<in> set tiles. rect_wf (tile_rect t)"
    and areas: "sum_list (map (\<lambda>t. area (tile_rect t)) tiles) < 2 ^ 64"
    and fits: "SCREEN_UPDATE_FIXED + COPY_RECT_BYTES * length copies \<le> MAX_MESSAGE_SIZE"
      "\<forall>t \<in> set tiles. SCREEN_UPDATE_FIXED + COPY_RECT_BYTES * length copies + tile_cost t \<le> MAX_MESSAGE_SIZE"
  shows "apply_messages cs (split_frame copies tiles) d = Some (d', Inr ()) \<and>
    (\<forall>p \<in> set (split_frame copies tiles).
       \<forall>fid. length (encode (ScreenUpdate fid (fst p) (snd p))) \<le> MAX_MESSAGE_SIZE)"
proof -
  note inv = split_frame_within_inv [OF fits(2,1), folded split_frame_def]
  obtain fb1 m where c: "apply_copies (dec_fb d) copies = Some (fb1, Inr m)" "fb_wf fb1" "same_size fb1 (dec_fb d)"
    by (rule apply_copies_Some [OF d copies]) (use whole in \<open>auto simp: decoder_apply_frame_def\<close>)
  from whole c(1) obtain fb2 r where t: "apply_tiles cs (frame_pixel_budget fb1) tiles fb1 0 rect_default = Some (fb2, Inr r)"
    and d': "d' = d\<lparr>dec_fb := fb2\<rparr>"
    by (auto simp: decoder_apply_frame_def decoder_apply_def bind_eq_Some_conv bindE_Inr_iff)
  have "sum_list (map (\<lambda>t. area (tile_rect t)) tiles) \<le> frame_pixel_budget fb1"
    using apply_tiles_accepted [OF t] areas tiles by auto
  then have "applies_whole cs \<lparr>fu_copies = copies, fu_tiles = tiles\<rparr> d d'"
    using apply_tiles_accepted [OF t] areas tiles c d' by (auto simp: applies_whole_def)
  then have "apply_messages cs (split_frame copies tiles) d = Some (d', Inr ())" by (rule split_frame_applies)
  moreover have "length (encode (ScreenUpdate fid (fst p) (snd p))) \<le> MAX_MESSAGE_SIZE"
    if "p \<in> set (split_frame copies tiles)" for p fid
  proof -
    have "part_cost p \<le> MAX_MESSAGE_SIZE" using inv that by blast
    then show ?thesis
      using length_screen_update [of fid "fst p" "snd p"]
      by (simp add: part_cost_def tile_cost_def [abs_def] SCREEN_UPDATE_FIXED_def COPY_RECT_BYTES_def TILE_FIXED_def)
  qed
  ultimately show ?thesis by blast
qed

theorem split_frame_refines_witness:
  "\<exists>d'. apply_messages run_length_libraries
      (split_frame [] [\<lparr>tile_rect = rect_new 0 0 1 1, tile_encoding = Solid, tile_data = [1, 2, 3]\<rparr>])
      (decoder_new 2 1) = Some (d', Inr ())"
proof -
  let ?t = "\<lparr>tile_rect = rect_new 0 0 1 1, tile_encoding = Solid, tile_data = [1, 2, 3]\<rparr>"
  obtain d' r where w: "decoder_apply_frame run_length_libraries [] [?t] (decoder_new 2 1) = Some (d', Inr r)"
    by (simp add: decoder_apply_frame_def decoder_apply_def apply_copies_def decoder_new_def fb_new_def Let_def
        frame_pixel_budget_def sat_mul64_def MAX_FRAME_PIXEL_FACTOR_def area_def add64_def apply_tile_def
        rect_contains_def rect_is_empty_def right_def bottom_def add32_def fb_bounds_def decode_pixels_def
        fb_blit_pixels_def fb_row_write_def)
  have "fb_wf (dec_fb (decoder_new 2 1))" by (simp add: decoder_new_def fb_new_wf)
  from split_frame_refines [OF w this]
  have "apply_messages run_length_libraries (split_frame [] [?t]) (decoder_new 2 1) = Some (d', Inr ())"
    by (simp add: rect_wf_def area_def SCREEN_UPDATE_FIXED_def tile_cost_def TILE_FIXED_def MAX_MESSAGE_SIZE_def)
  then show ?thesis by blast
qed

end
