(* ===== verification/Damage.thy ===== *)
theory Damage
  imports Image
begin

text \<open>
  Merging of damage rectangles, \<open>coalesce\<close> of \<open>crates/server/src/x11/capture.rs\<close>. Areas are \<open>u64\<close>
  and wrap as release builds do; a panic is \<open>None\<close>. The lemmas show that both loops end, that the
  result covers every damaged pixel of the screen, and what the fallback for fragmented damage
  computes.
\<close>

definition MAX_CAPTURE_RECTS :: nat where "MAX_CAPTURE_RECTS = 24"

definition merge_slack :: "nat \<Rightarrow> nat" where
  "merge_slack tile = 4 * tile * tile"

definition touches :: "rect \<Rightarrow> rect \<Rightarrow> bool" where
  "touches a b \<longleftrightarrow> rx a \<le> right b \<and> rx b \<le> right a \<and> ry a \<le> bottom b \<and> ry b \<le> bottom a"

text \<open>
  \<open>DamageTracker::take\<close>: what the fetched region's rectangles, \<open>i16\<close> corners and \<open>u16\<close> sizes,
  become.
\<close>

definition damage_rects :: "(i16 \<times> i16 \<times> u16 \<times> u16) list \<Rightarrow> rect list" where
  "damage_rects rectangles =
     map (\<lambda>(x, y, w, h). rect_new (nat (max (sint x) 0)) (nat (max (sint y) 0)) (unat w) (unat h))
       (filter (\<lambda>(x, y, w, h). 0 < w \<and> 0 < h) rectangles)"

definition total_area :: "rect list \<Rightarrow> nat" where
  "total_area rects = sum_list (map area rects) mod 2 ^ 64"

text \<open>\<open>Vec::swap_remove\<close>: the last element takes the place of the removed one.\<close>

definition swap_remove :: "nat \<Rightarrow> 'a list \<Rightarrow> 'a list" where
  "swap_remove i xs = butlast (xs[i := last xs])"

definition mergeable :: "nat \<Rightarrow> rect \<Rightarrow> rect \<Rightarrow> bool" where
  "mergeable slack cur old \<longleftrightarrow>
     touches old cur \<and> area (rect_union cur old) \<le> add64 (add64 (area cur) (area old)) slack"

text \<open>One pass over the rectangles kept so far, from index \<open>i\<close>.\<close>

function absorb_pass :: "nat \<Rightarrow> rect \<Rightarrow> rect list \<Rightarrow> nat \<Rightarrow> bool \<Rightarrow> rect \<times> rect list \<times> bool" where
  "absorb_pass slack cur out i merged =
     (if i < length out then
        if mergeable slack cur (out ! i)
        then absorb_pass slack (rect_union cur (out ! i)) (swap_remove i out) i True
        else absorb_pass slack cur out (i + 1) merged
      else (cur, out, merged))"
  by pat_completeness auto
termination
  by (relation "measure (\<lambda>(slack, cur, out, i, merged). length out - i)") (auto simp: swap_remove_def)

declare absorb_pass.simps [simp del]

lemma length_swap_remove: "i < length xs \<Longrightarrow> length (swap_remove i xs) = length xs - 1"
  by (simp add: swap_remove_def)

lemma absorb_pass_length:
  "absorb_pass slack cur out i merged = (cur', out', m) \<Longrightarrow>
     length out' \<le> length out \<and> (m \<longrightarrow> merged \<or> length out' < length out)"
proof (induction slack cur out i merged rule: absorb_pass.induct)
  case (1 slack cur out i merged)
  show ?case
  proof (cases "i < length out")
    case True
    show ?thesis
    proof (cases "mergeable slack cur (out ! i)")
      case m: True
      have "absorb_pass slack (rect_union cur (out ! i)) (swap_remove i out) i True = (cur', out', m)"
        using 1(3) True m by (simp add: absorb_pass.simps [of slack cur out i])
      from 1(1) [OF True m this] show ?thesis using True by (auto simp: length_swap_remove)
    next
      case m: False
      have "absorb_pass slack cur out (i + 1) merged = (cur', out', m)"
        using 1(3) True m by (simp add: absorb_pass.simps [of slack cur out i])
      from 1(2) [OF True m this] show ?thesis .
    qed
  qed (use 1(3) in \<open>simp add: absorb_pass.simps [of slack cur out i]\<close>)
qed

function absorb :: "nat \<Rightarrow> rect \<Rightarrow> rect list \<Rightarrow> rect \<times> rect list" where
  "absorb slack cur out =
     (case absorb_pass slack cur out 0 False of
        (cur', out', merged) \<Rightarrow> if merged then absorb slack cur' out' else (cur', out'))"
  by pat_completeness auto
termination
  by (relation "measure (\<lambda>(slack, cur, out). length out)")
    (auto dest!: absorb_pass_length [OF sym])

declare absorb.simps [simp del]

definition coalesce_within :: "rect list \<Rightarrow> nat \<Rightarrow> rect \<Rightarrow> nat \<Rightarrow> rect list option" where
  "coalesce_within rects tile bounds slack =
     ofold (\<lambda>r out.
       Option.bind (align_to_tiles r tile bounds) (\<lambda>cur.
         if rect_is_empty cur then Some out
         else (case absorb slack cur out of (cur, out) \<Rightarrow> Some (out @ [cur]))))
       rects []"

definition coalesce :: "rect list \<Rightarrow> nat \<Rightarrow> rect \<Rightarrow> rect list option" where
  "coalesce rects tile bounds =
     Option.bind (coalesce_within rects tile bounds (merge_slack tile)) (\<lambda>guarded.
       if length guarded \<le> MAX_CAPTURE_RECTS then Some guarded
       else coalesce_within rects tile bounds (2 ^ 64 - 1))"

section \<open>What the merging covers\<close>

definition covers :: "rect list \<Rightarrow> nat \<Rightarrow> nat \<Rightarrow> bool" where
  "covers rs x y \<longleftrightarrow> (\<exists>r \<in> set rs. inside r x y)"

definition rects_ok :: "rect \<Rightarrow> rect list \<Rightarrow> bool" where
  "rects_ok bounds rs \<longleftrightarrow> (\<forall>r \<in> set rs. rect_wf r \<and> \<not> rect_is_empty r \<and> rect_contains bounds r)"

lemma covers_simps [simp]: "\<not> covers [] x y" "covers (r # rs) x y \<longleftrightarrow> inside r x y \<or> covers rs x y"
  "covers (rs @ ss) x y \<longleftrightarrow> covers rs x y \<or> covers ss x y"
  by (auto simp: covers_def)

lemma set_swap_remove: "i < length xs \<Longrightarrow> set xs = insert (xs ! i) (set (swap_remove i xs))"
proof -
  assume i: "i < length xs"
  then obtain ys z where xs: "xs = ys @ [z]" by (cases xs rule: rev_cases) auto
  show ?thesis
  proof (cases "i = length ys")
    case True
    then show ?thesis by (simp add: xs swap_remove_def)
  next
    case False
    then have "i < length ys" using i xs by simp
    then show ?thesis
      by (auto simp: xs swap_remove_def nth_append list_update_append set_update_memI in_set_conv_nth
          nth_list_update split: if_splits)
  qed
qed

lemma union_edges:
  assumes "rect_wf r" "rect_wf s" "\<not> rect_is_empty r" "\<not> rect_is_empty s"
  shows "rect_union r s = rect_new (min (rx r) (rx s)) (min (ry r) (ry s))
      (max (rx r + rwidth r) (rx s + rwidth s) - min (rx r) (rx s))
      (max (ry r + rheight r) (ry s + rheight s) - min (ry r) (ry s))"
proof -
  have "sub32 (max (rx r + rwidth r) (rx s + rwidth s)) (min (rx r) (rx s)) =
      max (rx r + rwidth r) (rx s + rwidth s) - min (rx r) (rx s)"
    using assms(1,2) by (intro sub32_no_wrap) (auto simp: rect_wf_def)
  moreover have "sub32 (max (ry r + rheight r) (ry s + rheight s)) (min (ry r) (ry s)) =
      max (ry r + rheight r) (ry s + rheight s) - min (ry r) (ry s)"
    using assms(1,2) by (intro sub32_no_wrap) (auto simp: rect_wf_def)
  ultimately show ?thesis using assms(3,4) by (simp add: rect_union_def Let_def right_wf bottom_wf assms(1,2))
qed

lemma union_contained:
  assumes "rect_wf bounds" "rect_wf r" "rect_wf s" "\<not> rect_is_empty r" "\<not> rect_is_empty s"
    "rect_contains bounds r" "rect_contains bounds s"
  shows "rect_contains bounds (rect_union r s) \<and> \<not> rect_is_empty (rect_union r s)"
proof -
  have wf: "rect_wf (rect_union r s)" using assms by simp
  have in_bounds: "rx bounds \<le> rx r" "rx bounds \<le> rx s" "ry bounds \<le> ry r" "ry bounds \<le> ry s"
    "rx r + rwidth r \<le> rx bounds + rwidth bounds" "rx s + rwidth s \<le> rx bounds + rwidth bounds"
    "ry r + rheight r \<le> ry bounds + rheight bounds" "ry s + rheight s \<le> ry bounds + rheight bounds"
    using assms by (auto simp: rect_contains_def right_wf bottom_wf)
  have "\<not> rect_is_empty (rect_union r s)"
    using assms(4,5) unfolding union_edges [OF assms(2-5)] by (auto simp: rect_is_empty_def)
  moreover have "rect_contains bounds (rect_union r s)"
    unfolding contains_inside [OF assms(1) wf] unfolding union_edges [OF assms(2-5)]
    using in_bounds by (auto simp: inside_def)
  ultimately show ?thesis by blast
qed

lemma absorb_pass_covers:
  "absorb_pass slack cur out i merged = (cur', out', m) \<Longrightarrow> rect_wf bounds \<Longrightarrow> rects_ok bounds (cur # out) \<Longrightarrow>
     rects_ok bounds (cur' # out') \<and> (\<forall>x y. covers (cur # out) x y \<longrightarrow> covers (cur' # out') x y)"
proof (induction slack cur out i merged rule: absorb_pass.induct)
  case (1 slack cur out i merged)
  show ?case
  proof (cases "i < length out")
    case True
    show ?thesis
    proof (cases "mergeable slack cur (out ! i)")
      case m: True
      have rec: "absorb_pass slack (rect_union cur (out ! i)) (swap_remove i out) i True = (cur', out', m)"
        using 1(3) True m by (simp add: absorb_pass.simps [of slack cur out i])
      have mem: "set out = insert (out ! i) (set (swap_remove i out))" by (rule set_swap_remove [OF True])
      have wf: "rect_wf cur" "rect_wf (out ! i)" "\<not> rect_is_empty cur" "\<not> rect_is_empty (out ! i)"
        "rect_contains bounds cur" "rect_contains bounds (out ! i)"
        using 1(5) True by (auto simp: rects_ok_def)
      have ok: "rects_ok bounds (rect_union cur (out ! i) # swap_remove i out)"
        using 1(5) mem wf union_contained [OF 1(4) wf(1,2,3,4,5,6)] by (auto simp: rects_ok_def)
      have cov: "covers (rect_union cur (out ! i) # swap_remove i out) x y" if "covers (cur # out) x y" for x y
        using that mem inside_union [OF wf(1,2)] by (auto simp: covers_def)
      from 1(1) [OF True m rec 1(4) ok] cov show ?thesis by blast
    next
      case m: False
      have rec: "absorb_pass slack cur out (i + 1) merged = (cur', out', m)"
        using 1(3) True m by (simp add: absorb_pass.simps [of slack cur out i])
      from 1(2) [OF True m rec 1(4,5)] show ?thesis .
    qed
  qed (use 1 in \<open>simp add: absorb_pass.simps [of slack cur out i]\<close>)
qed

lemma absorb_covers:
  "absorb slack cur out = (cur', out') \<Longrightarrow> rect_wf bounds \<Longrightarrow> rects_ok bounds (cur # out) \<Longrightarrow>
     rects_ok bounds (cur' # out') \<and> (\<forall>x y. covers (cur # out) x y \<longrightarrow> covers (cur' # out') x y)"
proof (induction slack cur out rule: absorb.induct)
  case (1 slack cur out)
  obtain c1 o1 m where p: "absorb_pass slack cur out 0 False = (c1, o1, m)" by (metis prod_cases3)
  note pass = absorb_pass_covers [OF p 1(3,4)]
  show ?case
  proof (cases m)
    case True
    have "absorb slack c1 o1 = (cur', out')" using 1(2) p True by (simp add: absorb.simps [of slack cur])
    from 1(1) [OF p [symmetric] refl True this 1(3)] pass show ?thesis by blast
  next
    case False
    then show ?thesis using 1(2) p pass by (simp add: absorb.simps [of slack cur])
  qed
qed

text \<open>Damage the X server reports: 16-bit fields, far from the edge of \<open>u32\<close>.\<close>

definition small_rect :: "rect \<Rightarrow> bool" where
  "small_rect r \<longleftrightarrow> rx r + rwidth r \<le> 2 ^ 31 \<and> ry r + rheight r \<le> 2 ^ 31"

lemma small_rect_wf: "small_rect r \<Longrightarrow> rect_wf r"
  by (simp add: small_rect_def rect_wf_def)

lemma damage_rects_small: "r \<in> set (damage_rects raw) \<Longrightarrow> small_rect r"
proof -
  have "nat (max (sint x) 0) + unat w \<le> 2 ^ 31" for x :: i16 and w :: u16
  proof -
    have "sint x < 2 ^ 15" using sint_lt [of x] by simp
    moreover have "unat w < 2 ^ 16" using unsigned_less [of w] by simp
    ultimately show ?thesis by simp
  qed
  then show "r \<in> set (damage_rects raw) \<Longrightarrow> small_rect r"
    by (auto simp: damage_rects_def small_rect_def)
qed

lemma div_ceil_grid:
  assumes "0 < (t :: nat)"
  shows "n \<le> div_ceil n t * t" "div_ceil n t * t < n + t"
proof -
  define q r where "q = n div t * t" and "r = n mod t"
  have n: "n = q + r" "r < t" using assms by (simp_all add: q_def r_def)
  have "div_ceil n t * t = (if r = 0 then q else q + t)" by (simp add: div_ceil_def q_def r_def)
  then show "n \<le> div_ceil n t * t" "div_ceil n t * t < n + t"
    using n assms by (auto split: if_splits)
qed

lemma align_covers:
  assumes "0 < tile" "tile < 2 ^ 16" "small_rect r" "rect_wf bounds"
  obtains cur where "align_to_tiles r tile bounds = Some cur" "rect_wf cur" "rect_is_empty cur \<or> rect_contains bounds cur"
    "\<And>x y. inside r x y \<Longrightarrow> inside bounds x y \<Longrightarrow> inside cur x y"
proof (cases "rect_is_empty r")
  case True
  then have "align_to_tiles r tile bounds = Some rect_default" "\<And>x y. \<not> inside r x y"
    using not_empty_inside by (auto simp: align_to_tiles_def)
  then show ?thesis by (intro that [of rect_default]) auto
next
  case False
  let ?x2 = "div_ceil (rx r + rwidth r) tile * tile" and ?y2 = "div_ceil (ry r + rheight r) tile * tile"
  let ?x1 = "rx r div tile * tile" and ?y1 = "ry r div tile * tile"
  have big: "?x2 < 2 ^ 32" "?y2 < 2 ^ 32"
    using div_ceil_grid(2) [OF assms(1), of "rx r + rwidth r"] div_ceil_grid(2) [OF assms(1), of "ry r + rheight r"] assms(2,3)
    by (auto simp: small_rect_def)
  have lo: "?x1 \<le> rx r" "?y1 \<le> ry r" by simp_all
  have hi: "rx r + rwidth r \<le> ?x2" "ry r + rheight r \<le> ?y2"
    using div_ceil_grid(1) [OF assms(1)] by blast+
  have le: "?x1 \<le> ?x2" "?y1 \<le> ?y2" using lo hi by linarith+
  define grid where "grid = rect_new ?x1 ?y1 (?x2 - ?x1) (?y2 - ?y1)"
  have grid: "rect_wf grid" using big le by (simp add: grid_def rect_wf_def)
  have "?x1 < 2 ^ 32" "?y1 < 2 ^ 32" using le big by linarith+
  then have "mul32 (rx r div tile) tile = ?x1" "mul32 (ry r div tile) tile = ?y1"
    by (simp_all add: mul32_def)
  moreover have "mul32 (div_ceil (right r) tile) tile = ?x2" "mul32 (div_ceil (bottom r) tile) tile = ?y2"
    using big by (simp_all add: mul32_def right_wf bottom_wf small_rect_wf [OF assms(3)])
  ultimately have "align_to_tiles r tile bounds = Some (rect_intersect grid bounds)"
    using False assms(1) big le by (simp add: align_to_tiles_def Let_def grid_def sub32_no_wrap)
  moreover have "rect_wf (rect_intersect grid bounds)" using grid assms(4) by simp
  moreover have "inside (rect_intersect grid bounds) x y" if "inside r x y" "inside bounds x y" for x y
  proof -
    have "?x1 \<le> x" "?y1 \<le> y"
      using that(1) le_trans [OF lo(1)] le_trans [OF lo(2)] unfolding inside_def by blast+
    moreover have "x < ?x2" "y < ?y2"
      using that(1) less_le_trans [OF _ hi(1)] less_le_trans [OF _ hi(2)] unfolding inside_def by blast+
    ultimately have "inside grid x y" using le by (simp add: grid_def inside_def)
    then show ?thesis using that(2) by (simp add: inside_intersect [OF grid assms(4)])
  qed
  moreover have "rect_contains bounds (rect_intersect grid bounds)"
    unfolding contains_inside [OF assms(4) \<open>rect_wf (rect_intersect grid bounds)\<close>]
    by (simp add: inside_intersect [OF grid assms(4)])
  ultimately show ?thesis by (intro that [of "rect_intersect grid bounds"]) simp_all
qed

lemma coalesce_within_covers:
  assumes "0 < tile" "tile < 2 ^ 16" "rect_wf bounds" "\<forall>r \<in> set rects. small_rect r"
  shows "\<exists>out. coalesce_within rects tile bounds slack = Some out \<and> rects_ok bounds out \<and>
    (\<forall>x y. covers rects x y \<longrightarrow> inside bounds x y \<longrightarrow> covers out x y)"
proof -
  let ?f = "\<lambda>r out. Option.bind (align_to_tiles r tile bounds) (\<lambda>cur.
         if rect_is_empty cur then Some out
         else (case absorb slack cur out of (cur, out) \<Rightarrow> Some (out @ [cur])))"
  have step: "\<exists>out'. ?f r out = Some out' \<and> rects_ok bounds out' \<and>
      (\<forall>x y. covers out x y \<or> inside r x y \<and> inside bounds x y \<longrightarrow> covers out' x y)"
    if r: "small_rect r" and out: "rects_ok bounds out" for r out
  proof -
    obtain cur where cur: "align_to_tiles r tile bounds = Some cur" "rect_wf cur"
      "rect_is_empty cur \<or> rect_contains bounds cur"
      and in_cur: "\<And>x y. inside r x y \<Longrightarrow> inside bounds x y \<Longrightarrow> inside cur x y"
      by (rule align_covers [OF assms(1,2) r assms(3)]) blast
    show ?thesis
    proof (cases "rect_is_empty cur")
      case True
      then show ?thesis using cur out in_cur not_empty_inside by fastforce
    next
      case False
      obtain c' o' where a: "absorb slack cur out = (c', o')" by fastforce
      have "rects_ok bounds (cur # out)" using cur False out by (simp add: rects_ok_def)
      from absorb_covers [OF a assms(3) this]
      have "rects_ok bounds (c' # o')" "\<forall>x y. covers (cur # out) x y \<longrightarrow> covers (c' # o') x y" by blast+
      then show ?thesis using cur False a in_cur by (auto simp: rects_ok_def)
    qed
  qed
  have "\<exists>out'. ofold ?f rs out = Some out' \<and> rects_ok bounds out' \<and>
      (\<forall>x y. covers out x y \<or> covers rs x y \<and> inside bounds x y \<longrightarrow> covers out' x y)"
    if "\<forall>r \<in> set rs. small_rect r" "rects_ok bounds out" for rs out
    using that
  proof (induction rs arbitrary: out)
    case (Cons r rs)
    from step [of r out] Cons.prems obtain o1 where o1: "?f r out = Some o1" "rects_ok bounds o1"
      "\<forall>x y. covers out x y \<or> inside r x y \<and> inside bounds x y \<longrightarrow> covers o1 x y" by auto
    from Cons.IH [of o1] Cons.prems o1(2) obtain o2 where "ofold ?f rs o1 = Some o2" "rects_ok bounds o2"
      "\<forall>x y. covers o1 x y \<or> covers rs x y \<and> inside bounds x y \<longrightarrow> covers o2 x y" by auto
    with o1 show ?case by (intro exI [of _ o2]) auto
  qed simp
  from this [of rects "[]"] assms(4) obtain out where "ofold ?f rects [] = Some out" "rects_ok bounds out"
      "\<forall>x y. covers [] x y \<or> covers rects x y \<and> inside bounds x y \<longrightarrow> covers out x y"
    by (auto simp: rects_ok_def)
  then show ?thesis unfolding coalesce_within_def by blast
qed

lemma coalesce_ok:
  assumes "0 < tile" "tile < 2 ^ 16" "rect_wf bounds" "\<forall>r \<in> set rects. small_rect r"
  obtains out where "coalesce rects tile bounds = Some out" "rects_ok bounds out"
    "\<forall>x y. covers rects x y \<longrightarrow> inside bounds x y \<longrightarrow> covers out x y"
proof -
  obtain a b where a: "coalesce_within rects tile bounds (merge_slack tile) = Some a" "rects_ok bounds a"
      "\<forall>x y. covers rects x y \<longrightarrow> inside bounds x y \<longrightarrow> covers a x y"
    and b: "coalesce_within rects tile bounds (2 ^ 64 - 1) = Some b" "rects_ok bounds b"
      "\<forall>x y. covers rects x y \<longrightarrow> inside bounds x y \<longrightarrow> covers b x y"
    using coalesce_within_covers [OF assms] by metis
  show ?thesis
  proof (cases "length a \<le> MAX_CAPTURE_RECTS")
    case True
    then show ?thesis using a by (intro that [of a]) (simp_all add: coalesce_def)
  next
    case False
    then show ?thesis using a(1) b by (intro that [of b]) (simp_all add: coalesce_def)
  qed
qed

text \<open>
  C34. No damage is lost: whatever rectangles the X server reports, merging them ends without a
  panic in tile-aligned parts of the screen that together hold every damaged pixel of the screen.
\<close>

theorem coalesce_covers:
  assumes "0 < tile" "tile < 2 ^ 16" "rect_wf bounds" "\<forall>r \<in> set rects. small_rect r"
  shows "\<exists>out. coalesce rects tile bounds = Some out \<and>
    (\<forall>r \<in> set out. \<not> rect_is_empty r \<and> rect_contains bounds r) \<and>
    (\<forall>x y. covers rects x y \<and> inside bounds x y \<longrightarrow> covers out x y)"
  by (rule coalesce_ok [OF assms]) (auto simp: rects_ok_def)

theorem coalesce_covers_witness:
  "\<exists>out. coalesce [rect_new 0 0 100 20, rect_new 0 100 40 80] 64 (rect_new 0 0 1920 1080) = Some out \<and> covers out 99 19"
  using coalesce_covers [of 64 "rect_new 0 0 1920 1080" "[rect_new 0 0 100 20, rect_new 0 100 40 80]"]
  by (auto simp: rect_wf_def small_rect_def covers_def inside_def)

lemma wrapped_slack:
  fixes a b :: nat
  assumes "0 < a + b" "a + b < 2 ^ 64"
  shows "add64 (add64 a b) (2 ^ 64 - 1) = a + b - 1"
proof -
  have "a + b + (2 ^ 64 - 1) = (a + b - 1) + 2 ^ 64" using assms(1) by simp
  then have "(a + b + (2 ^ 64 - 1)) mod 2 ^ 64 = a + b - 1" using assms by (metis mod_add_self2 mod_less less_imp_diff_less)
  moreover have "(a + b) mod 2 ^ 64 = a + b" using assms(2) by (rule mod_less)
  ultimately show ?thesis unfolding add64_def by simp
qed

text \<open>
  The fallback for fragmented damage does not merge unconditionally: its slack of \<open>u64::MAX\<close>
  wraps around in the sum it is added to (and overflows it in a build that checks), so two
  touching rectangles merge only when their union is smaller than both areas together.
\<close>

theorem fallback_slack_wraps:
  assumes "0 < area cur + area old" "area cur + area old < 2 ^ 64"
  shows "mergeable (2 ^ 64 - 1) cur old \<longleftrightarrow> touches old cur \<and> area (rect_union cur old) < area cur + area old"
proof -
  have "add64 (add64 (area cur) (area old)) (2 ^ 64 - 1) = area cur + area old - 1"
    using wrapped_slack [OF assms] .
  then show ?thesis using assms(1) unfolding mergeable_def by linarith
qed

theorem fallback_slack_wraps_witness:
  "touches (rect_new 0 0 64 64) (rect_new 64 0 64 64) \<and>
     \<not> mergeable (2 ^ 64 - 1) (rect_new 64 0 64 64) (rect_new 0 0 64 64)"
proof -
  have "area (rect_union (rect_new 64 0 64 64) (rect_new 0 0 64 64)) = 8192"
    by (simp add: rect_union_def rect_is_empty_def Let_def right_def bottom_def add32_def sub32_def area_def)
  then have "\<not> mergeable (2 ^ 64 - 1) (rect_new 64 0 64 64) (rect_new 0 0 64 64)"
    by (subst fallback_slack_wraps) (simp_all add: area_def)
  then show ?thesis by (simp add: touches_def right_def bottom_def add32_def)
qed

end
