(* ===== verification/Capture.thy ===== *)
theory Capture
  imports Image
begin

text \<open>
  \<open>crates/server/src/x11/capture.rs\<close>: reading rectangles of the root window into a framebuffer.
  A capture is cut into bands, the bands are packed into batches that share a shared memory
  segment, and every request of a batch is sent before the first reply is read. The X server is a
  parameter: what it answers to each request, and how far it has got when a reply is read.
\<close>

section \<open>Bands\<close>

definition MAX_BAND_ROWS :: nat where "MAX_BAND_ROWS = 4096"

definition MAX_PIPELINE :: nat where "MAX_PIPELINE = 64"

definition SHM_ALIGN :: nat where "SHM_ALIGN = 8"

text \<open>\<open>saturating_add\<close> and \<open>saturating_mul\<close> of \<open>usize\<close> values.\<close>

definition sat_add :: "nat \<Rightarrow> nat \<Rightarrow> nat" where "sat_add a b = min (a + b) (2 ^ 64 - 1)"

definition band_bytes :: "rect \<Rightarrow> nat" where
  "band_bytes r = sat_mul64 (sat_mul64 (rwidth r) (rheight r)) 4"

definition align_up :: "nat \<Rightarrow> nat \<Rightarrow> nat" where
  "align_up v a = unat ((of_nat (sat_add v (a - 1)) :: u64) AND NOT (of_nat (a - 1)))"

definition band_rows :: "nat \<Rightarrow> nat \<Rightarrow> nat" where
  "band_rows width capacity =
     (if width = 0 then MAX_BAND_ROWS else min (max (capacity div width) 1) MAX_BAND_ROWS)"

text \<open>The loop of \<open>split_bands\<close>; it is entered only with a positive number of rows.\<close>

function bands_from :: "rect \<Rightarrow> nat \<Rightarrow> nat \<Rightarrow> rect list" where
  "bands_from r max_rows y =
     (if y < bottom r \<and> 0 < max_rows
      then let h = min (bottom r - y) max_rows
           in rect_new (rx r) y (rwidth r) h # bands_from r max_rows (y + h)
      else [])"
  by pat_completeness auto
termination
  by (relation "measure (\<lambda>(r, m, y). bottom r - y)") auto

declare bands_from.simps [simp del]

definition split_bands :: "rect \<Rightarrow> nat \<Rightarrow> rect list" where
  "split_bands r max_rows =
     (if rect_is_empty r \<or> max_rows = 0 then [] else bands_from r max_rows (ry r))"

section \<open>Batches\<close>

record slot =
  slot_rect :: rect
  slot_offset :: nat

record planning =
  pl_batches :: "slot list list"
  pl_cur :: "slot list"
  pl_next :: nat

definition plan_step :: "nat \<Rightarrow> rect \<Rightarrow> planning \<Rightarrow> planning" where
  "plan_step capacity band st =
     (if rect_is_empty band then st
      else let need = band_bytes band;
               offset = align_up (pl_next st) SHM_ALIGN;
               full = MAX_PIPELINE \<le> length (pl_cur st) \<or> capacity < sat_add offset need;
               st = (if full \<and> pl_cur st \<noteq> []
                     then st\<lparr>pl_batches := pl_batches st @ [pl_cur st], pl_cur := []\<rparr> else st);
               offset = (if full then 0 else offset)
           in st\<lparr>pl_cur := pl_cur st @ [\<lparr>slot_rect = band, slot_offset = offset\<rparr>],
                 pl_next := sat_add offset need\<rparr>)"

definition plan_batches :: "rect list \<Rightarrow> nat \<Rightarrow> slot list list" where
  "plan_batches bands capacity =
     (let st = fold (plan_step capacity) bands \<lparr>pl_batches = [], pl_cur = [], pl_next = 0\<rparr>
      in if pl_cur st \<noteq> [] then pl_batches st @ [pl_cur st] else pl_batches st)"

section \<open>Pixels\<close>

text \<open>
  The words of \<open>chunks_exact(4)\<close>: \<open>from_be_bytes([0, s[1], s[2], s[3]])\<close> or
  \<open>from_le_bytes([s[0], s[1], s[2], 0])\<close>.
\<close>

fun pixels_of :: "bool \<Rightarrow> u8 list \<Rightarrow> u32 list" where
  "pixels_of msb (a # b # c # d # bs) =
     (if msb then of_le [d, c, b, 0] else of_le [a, b, c, 0]) # pixels_of msb bs"
| "pixels_of msb _ = []"

definition copy_pixels :: "framebuffer \<Rightarrow> rect \<Rightarrow> u8 list \<Rightarrow> bool \<Rightarrow> framebuffer option" where
  "copy_pixels fb r bytes msb =
     ofold (\<lambda>y fb. let i = y - ry r; w = rwidth r in
         if (i + 1) * w * 4 \<le> length bytes
         then fb_row_write fb y (rx r) w (pixels_of msb (take (w * 4) (drop (i * w * 4) bytes)))
         else None)
       [ry r..<bottom r] fb"

section \<open>The X server\<close>

text \<open>
  \<open>Unsent\<close>: the request could not be written to the connection. \<open>Failed\<close>: the reply is an error.
  \<open>Answered\<close>: the size the reply states and the pixel bytes, written to the shared segment
  (\<open>ShmGetImage\<close>) or carried in the reply (\<open>GetImage\<close>).
\<close>

datatype x_error = X_Match | X_Value | X_Other

datatype answer = Unsent | Failed x_error | Answered nat "u8 list"

datatype capture_error = Segment_Too_Small | Send_Failed | Reply_Failed x_error | Wrong_Size | Short_Reply

definition is_geometry_error :: "capture_error \<Rightarrow> bool" where
  "is_geometry_error e \<longleftrightarrow> (case e of Reply_Failed X_Match \<Rightarrow> True | Reply_Failed X_Value \<Rightarrow> True | _ \<Rightarrow> False)"

text \<open>
  The arguments of a request after the casts to \<open>i16\<close> and \<open>u16\<close>. A server answers the request with
  the given number.
\<close>

type_synonym x_request = "int \<times> int \<times> nat \<times> nat"

type_synonym x_server = "nat \<Rightarrow> x_request \<Rightarrow> answer"

definition x_request :: "rect \<Rightarrow> x_request" where
  "x_request r = (sint (of_nat (rx r) :: 16 word), sint (of_nat (ry r) :: 16 word),
     unat (of_nat (rwidth r) :: 16 word), unat (of_nat (rheight r) :: 16 word))"

text \<open>The server writes an image into the segment at the offset, an \<open>u32\<close>, of its request.\<close>

definition seg_write :: "nat \<Rightarrow> u8 list \<Rightarrow> u8 list \<Rightarrow> u8 list" where
  "seg_write off bs seg = take (length seg) (take off seg @ bs @ drop (off + length bs) seg)"

definition serve :: "x_server \<Rightarrow> nat \<times> slot \<Rightarrow> u8 list \<Rightarrow> u8 list" where
  "serve srv req seg =
     (case req of (n, s) \<Rightarrow>
        (case srv n (x_request (slot_rect s)) of
           Answered sz bs \<Rightarrow> seg_write (slot_offset s mod 2 ^ 32) bs seg
         | _ \<Rightarrow> seg))"

text \<open>\<open>ShmSegment::bytes_at\<close> with its assertion.\<close>

definition bytes_at :: "u8 list \<Rightarrow> nat \<Rightarrow> nat \<Rightarrow> u8 list option" where
  "bytes_at seg offset len =
     (if sat_add offset len \<le> length seg then Some (take len (drop offset seg)) else None)"

section \<open>Capturing\<close>

text \<open>
  Reading the replies of a batch: \<open>waiting\<close> are the requests whose reply is still to be read and
  \<open>todo\<close> those of them the server has not processed. A reply is there once its request is
  processed; the server may by then have processed \<open>ahead n\<close> more. Requests abandoned on an error
  are processed before any later one.
\<close>

primrec read_replies ::
    "x_server \<Rightarrow> (nat \<Rightarrow> nat) \<Rightarrow> bool \<Rightarrow> (nat \<times> slot) list \<Rightarrow> (nat \<times> slot) list \<Rightarrow>
      u8 list \<Rightarrow> framebuffer \<Rightarrow> (framebuffer \<times> u8 list \<times> capture_error option) option" where
  "read_replies srv ahead msb [] todo seg fb = Some (fb, seg, None)"
| "read_replies srv ahead msb (req # waiting) todo seg fb =
     (case req of (n, s) \<Rightarrow>
       let k = (length todo - length waiting) + ahead n;
           seg = fold (serve srv) (take k todo) seg;
           todo = drop k todo;
           fail = (\<lambda>e. Some (fb, fold (serve srv) todo seg, Some e))
       in (case srv n (x_request (slot_rect s)) of
             Unsent \<Rightarrow> fail Send_Failed
           | Failed e \<Rightarrow> fail (Reply_Failed e)
           | Answered sz _ \<Rightarrow>
               let need = band_bytes (slot_rect s)
               in if sz \<noteq> need then fail Wrong_Size
                  else do { bs \<leftarrow> bytes_at seg (slot_offset s) need;
                            fb \<leftarrow> copy_pixels fb (slot_rect s) bs msb;
                            read_replies srv ahead msb waiting todo seg fb }))"

definition unsent :: "x_server \<Rightarrow> nat \<times> slot \<Rightarrow> bool" where
  "unsent srv req \<longleftrightarrow> srv (fst req) (x_request (slot_rect (snd req))) = Unsent"

primrec run_batches ::
    "x_server \<Rightarrow> (nat \<Rightarrow> nat) \<Rightarrow> bool \<Rightarrow> slot list list \<Rightarrow> nat \<Rightarrow> u8 list \<Rightarrow> framebuffer \<Rightarrow>
      (framebuffer \<times> u8 list \<times> capture_error option) option" where
  "run_batches srv ahead msb [] n seg fb = Some (fb, seg, None)"
| "run_batches srv ahead msb (batch # batches) n seg fb =
     (let reqs = zip [n..<n + length batch] batch
      in if list_ex (unsent srv) reqs
         then Some (fb, fold (serve srv) (takeWhile (\<lambda>q. \<not> unsent srv q) reqs) seg, Some Send_Failed)
         else (case read_replies srv ahead msb reqs reqs seg fb of
                 None \<Rightarrow> None
               | Some (fb, seg, Some e) \<Rightarrow> Some (fb, seg, Some e)
               | Some (fb, seg, None) \<Rightarrow> run_batches srv ahead msb batches (n + length batch) seg fb))"

definition capture_shm ::
    "x_server \<Rightarrow> (nat \<Rightarrow> nat) \<Rightarrow> bool \<Rightarrow> u8 list \<Rightarrow> framebuffer \<Rightarrow> rect list \<Rightarrow>
      (framebuffer \<times> u8 list \<times> capture_error option) option" where
  "capture_shm srv ahead msb seg fb bands =
     (if list_ex (\<lambda>band. length seg < band_bytes band) bands then Some (fb, seg, Some Segment_Too_Small)
      else run_batches srv ahead msb (plan_batches bands (length seg)) 0 seg fb)"

primrec capture_serial ::
    "x_server \<Rightarrow> bool \<Rightarrow> nat \<Rightarrow> framebuffer \<Rightarrow> rect list \<Rightarrow> (framebuffer \<times> capture_error option) option" where
  "capture_serial srv msb n fb [] = Some (fb, None)"
| "capture_serial srv msb n fb (band # bands) =
     (case srv n (x_request band) of
        Unsent \<Rightarrow> Some (fb, Some Send_Failed)
      | Failed e \<Rightarrow> Some (fb, Some (Reply_Failed e))
      | Answered _ bs \<Rightarrow>
          let need = band_bytes band
          in if length bs < need then Some (fb, Some Short_Reply)
             else do { fb \<leftarrow> copy_pixels fb band (take need bs) msb;
                       capture_serial srv msb (n + 1) fb bands })"

record screen_capture =
  sc_shm :: "u8 list option"
  sc_shm_pixels :: nat

definition capture_bands :: "framebuffer \<Rightarrow> nat \<Rightarrow> rect list \<Rightarrow> rect list" where
  "capture_bands fb capacity rects =
     concat (map (\<lambda>r. let clipped = rect_intersect r (fb_bounds fb)
                       in if rect_is_empty clipped then []
                          else split_bands clipped (band_rows (rwidth clipped) capacity)) rects)"

definition capture_many ::
    "x_server \<Rightarrow> (nat \<Rightarrow> nat) \<Rightarrow> bool \<Rightarrow> screen_capture \<Rightarrow> framebuffer \<Rightarrow> rect list \<Rightarrow>
      (screen_capture \<times> framebuffer \<times> capture_error option) option" where
  "capture_many srv ahead msb cap fb rects =
     (let bands = capture_bands fb (sc_shm_pixels cap) rects
      in if bands = [] then Some (cap, fb, None)
         else (case sc_shm cap of
                 Some seg \<Rightarrow> do { (fb, seg, e) \<leftarrow> capture_shm srv ahead msb seg fb bands;
                                  Some (cap\<lparr>sc_shm := Some seg\<rparr>, fb, e) }
               | None \<Rightarrow> do { (fb, e) \<leftarrow> capture_serial srv msb 0 fb bands; Some (cap, fb, e) }))"

definition capture_into ::
    "x_server \<Rightarrow> (nat \<Rightarrow> nat) \<Rightarrow> bool \<Rightarrow> screen_capture \<Rightarrow> framebuffer \<Rightarrow> rect \<Rightarrow>
      (screen_capture \<times> framebuffer \<times> capture_error option) option" where
  "capture_into srv ahead msb cap fb r = capture_many srv ahead msb cap fb [r]"

text \<open>\<open>ScreenCapture::new\<close>, given whether the segment could be made.\<close>

definition capture_new :: "bool \<Rightarrow> nat \<Rightarrow> nat \<Rightarrow> screen_capture" where
  "capture_new shm max_width max_height =
     \<lparr>sc_shm = (if shm then Some (replicate (max_width * max_height * 4) 0) else None),
      sc_shm_pixels = max_width * max_height\<rparr>"

section \<open>Bands cover their rectangle\<close>

lemma sat_add_small: "a + b < 2 ^ 64 \<Longrightarrow> sat_add a b = a + b"
  by (simp add: sat_add_def)

lemma band_rows_pos: "0 < band_rows w c"
  by (simp add: band_rows_def MAX_BAND_ROWS_def less_max_iff_disj)

lemma band_rows_fits:
  assumes "0 < w" "w \<le> c" "h \<le> band_rows w c"
  shows "w * h \<le> c"
proof -
  have "1 \<le> c div w" using assms(1,2) by (simp add: div_greater_zero_iff Suc_le_eq)
  then have "h \<le> c div w" using assms by (simp add: band_rows_def)
  then have "w * h \<le> w * (c div w)" by simp
  also have "\<dots> \<le> c" by simp
  finally show ?thesis .
qed

lemma bands_from_shape:
  "b \<in> set (bands_from r m y) \<Longrightarrow> 0 < m \<Longrightarrow> \<exists>z h. b = rect_new (rx r) z (rwidth r) h \<and>
     y \<le> z \<and> 0 < h \<and> h \<le> m \<and> z + h \<le> bottom r"
proof (induction r m y rule: bands_from.induct)
  case (1 r m y)
  show ?case
  proof (cases "y < bottom r")
    case True
    let ?h = "min (bottom r - y) m"
    have "b = rect_new (rx r) y (rwidth r) ?h \<or> b \<in> set (bands_from r m (y + ?h))"
      using 1(2,3) True by (subst (asm) bands_from.simps) (auto simp: Let_def)
    then show ?thesis
    proof
      assume "b = rect_new (rx r) y (rwidth r) ?h"
      then show ?thesis using True 1(3) by (intro exI [of _ y] exI [of _ ?h]) auto
    next
      assume "b \<in> set (bands_from r m (y + ?h))"
      from 1(1) [OF _ refl this 1(3)] True 1(3)
      obtain z h where "b = rect_new (rx r) z (rwidth r) h" "y + ?h \<le> z" "0 < h" "h \<le> m" "z + h \<le> bottom r"
        by blast
      then show ?thesis by (intro exI [of _ z] exI [of _ h]) auto
    qed
  next
    case False
    then show ?thesis using 1(2) by (subst (asm) bands_from.simps) simp
  qed
qed

lemma bands_from_cover:
  "0 < m \<Longrightarrow> y \<le> v \<Longrightarrow> v < bottom r \<Longrightarrow> rx r \<le> u \<Longrightarrow> u < rx r + rwidth r \<Longrightarrow>
     \<exists>b \<in> set (bands_from r m y). inside b u v"
proof (induction r m y rule: bands_from.induct)
  case (1 r m y)
  let ?h = "min (bottom r - y) m"
  have lt: "y < bottom r" using 1 by simp
  have unf: "bands_from r m y = rect_new (rx r) y (rwidth r) ?h # bands_from r m (y + ?h)"
    using lt 1(2) by (subst bands_from.simps) (simp add: Let_def)
  show ?case
  proof (cases "v < y + ?h")
    case True
    then have "inside (rect_new (rx r) y (rwidth r) ?h) u v"
      using 1 by (auto simp: inside_def)
    then show ?thesis unfolding unf by simp
  next
    case False
    then have "\<exists>b \<in> set (bands_from r m (y + ?h)). inside b u v"
      using 1 lt by (intro 1(1)) auto
    then show ?thesis unfolding unf by simp
  qed
qed

text \<open>A band the framebuffer holds, that a segment of the given number of pixels has room for.\<close>

definition band_ok :: "framebuffer \<Rightarrow> nat \<Rightarrow> rect \<Rightarrow> bool" where
  "band_ok fb c b \<longleftrightarrow> \<not> rect_is_empty b \<and> rx b + rwidth b \<le> fb_width fb \<and>
     ry b + rheight b \<le> fb_height fb \<and> rwidth b * rheight b \<le> c"

lemma capture_bands_ok:
  assumes "fb_wf fb" "\<forall>r \<in> set rects. rect_wf r" "fb_width fb \<le> c" "b \<in> set (capture_bands fb c rects)"
  shows "band_ok fb c b"
proof -
  obtain r where r: "r \<in> set rects" and ne: "\<not> rect_is_empty (rect_intersect r (fb_bounds fb))"
    and b: "b \<in> set (split_bands (rect_intersect r (fb_bounds fb))
      (band_rows (rwidth (rect_intersect r (fb_bounds fb))) c))"
    using assms(4) by (auto simp: capture_bands_def Let_def split: if_splits)
  let ?c = "rect_intersect r (fb_bounds fb)"
  have wf: "rect_wf ?c" using assms(1,2) r by simp
  have "rect_contains (fb_bounds fb) ?c"
    using assms(1,2) r wf by (subst contains_inside) (auto simp: inside_intersect)
  note dims = contains_dims [OF assms(1) wf this ne]
  obtain z h where z: "b = rect_new (rx ?c) z (rwidth ?c) h" "ry ?c \<le> z" "0 < h"
    "h \<le> band_rows (rwidth ?c) c" "z + h \<le> bottom ?c"
    using b ne bands_from_shape [of b ?c "band_rows (rwidth ?c) c" "ry ?c"] band_rows_pos [of "rwidth ?c" c]
    by (auto simp: split_bands_def)
  have w: "0 < rwidth ?c" "rwidth ?c \<le> c" using ne dims(1) assms(3) by (auto simp: rect_is_empty_def)
  from band_rows_fits [OF w z(4)] z w dims show ?thesis
    by (auto simp: band_ok_def rect_is_empty_def)
qed

lemma capture_bands_inside:
  assumes "fb_wf fb" "\<forall>r \<in> set rects. rect_wf r" "fb_width fb \<le> c" "x < fb_width fb" "y < fb_height fb"
  shows "(\<exists>b \<in> set (capture_bands fb c rects). inside b x y) \<longleftrightarrow> (\<exists>r \<in> set rects. inside r x y)"
proof
  assume "\<exists>r \<in> set rects. inside r x y"
  then obtain r where r: "r \<in> set rects" "inside r x y" by blast
  let ?c = "rect_intersect r (fb_bounds fb)"
  have wf: "rect_wf ?c" and ins: "inside ?c x y"
    using assms r by (auto simp: inside_intersect)
  then have ne: "\<not> rect_is_empty ?c" using not_empty_inside by blast
  have "\<exists>b \<in> set (bands_from ?c (band_rows (rwidth ?c) c) (ry ?c)). inside b x y"
    using ins wf by (intro bands_from_cover band_rows_pos) (auto simp: inside_def no_wrap)
  then show "\<exists>b \<in> set (capture_bands fb c rects). inside b x y"
    using r(1) ne band_rows_pos [of "rwidth ?c" c] by (force simp: capture_bands_def split_bands_def Let_def)
next
  assume "\<exists>b \<in> set (capture_bands fb c rects). inside b x y"
  then obtain b r where b: "inside b x y" and r: "r \<in> set rects"
    and ne: "\<not> rect_is_empty (rect_intersect r (fb_bounds fb))"
    and sb: "b \<in> set (split_bands (rect_intersect r (fb_bounds fb))
      (band_rows (rwidth (rect_intersect r (fb_bounds fb))) c))"
    by (auto simp: capture_bands_def Let_def split: if_splits)
  let ?c = "rect_intersect r (fb_bounds fb)"
  have wf: "rect_wf ?c" using assms(1,2) r by simp
  obtain z h where z: "b = rect_new (rx ?c) z (rwidth ?c) h" "ry ?c \<le> z" "z + h \<le> bottom ?c"
    using sb ne bands_from_shape [of b ?c "band_rows (rwidth ?c) c" "ry ?c"] band_rows_pos [of "rwidth ?c" c]
    by (auto simp: split_bands_def)
  then have "inside ?c x y" using b wf by (auto simp: inside_def no_wrap)
  then show "\<exists>r \<in> set rects. inside r x y"
    using r assms(1,2) by (auto simp: inside_intersect)
qed


section \<open>The regions of a batch\<close>

lemma align_up_8:
  assumes "v + 7 < 2 ^ 64"
  shows "align_up v SHM_ALIGN = (v + 7) div 8 * 8"
proof -
  have mask: "(w :: u64) AND NOT 7 = push_bit 3 (drop_bit 3 w)" for w
  proof -
    have "(7 :: u64) = mask 3" by (simp add: mask_eq_exp_minus_1)
    then show ?thesis by (simp add: bit_eq_iff bit_simps) auto
  qed
  define u where "u = v + 7"
  have "u < 2 ^ 64" using assms by (simp add: u_def)
  then have u: "unat (of_nat u :: u64) = u" by (simp add: unat_of_nat take_bit_eq_mod)
  have "unat (drop_bit 3 (of_nat u :: u64)) = drop_bit 3 (unat (of_nat u :: u64))"
    by (rule unat_drop_bit_eq)
  then have d: "unat (drop_bit 3 (of_nat u :: u64)) = u div 8"
    unfolding u by (simp add: drop_bit_eq_div)
  have "u div 8 * 8 < 2 ^ 64"
    using assms div_times_less_eq_dividend [of u 8] unfolding u_def by linarith
  then have "unat (push_bit 3 (drop_bit 3 (of_nat u :: u64))) = u div 8 * 8"
    using d by (simp add: push_bit_eq_mult unat_word_ariths(2) mult.commute del: of_nat_add)
  moreover have "sat_add v (SHM_ALIGN - 1) = u"
    using assms by (simp add: SHM_ALIGN_def sat_add_small u_def)
  moreover have "(of_nat (SHM_ALIGN - 1) :: u64) = 7" by (simp add: SHM_ALIGN_def)
  ultimately show ?thesis unfolding align_up_def u_def [symmetric] by (simp only: mask)
qed

lemma align_up_bounds:
  assumes "v + 7 < 2 ^ 64"
  shows "v \<le> align_up v SHM_ALIGN" "align_up v SHM_ALIGN \<le> v + 7"
proof -
  have "v + 7 = (v + 7) div 8 * 8 + (v + 7) mod 8" by simp
  moreover have "(v + 7) mod 8 < 8" by simp
  ultimately show "v \<le> align_up v SHM_ALIGN" "align_up v SHM_ALIGN \<le> v + 7"
    unfolding align_up_8 [OF assms] by linarith+
qed

text \<open>Slots laid out one after the other from \<open>lo\<close>, and where the last one ends.\<close>

primrec packed :: "nat \<Rightarrow> nat \<Rightarrow> slot list \<Rightarrow> bool" where
  "packed cap lo [] \<longleftrightarrow> lo \<le> cap"
| "packed cap lo (s # ss) \<longleftrightarrow>
     lo \<le> slot_offset s \<and> packed cap (slot_offset s + band_bytes (slot_rect s)) ss"

primrec slots_end :: "nat \<Rightarrow> slot list \<Rightarrow> nat" where
  "slots_end lo [] = lo"
| "slots_end lo (s # ss) = slots_end (slot_offset s + band_bytes (slot_rect s)) ss"

lemma packed_le: "packed cap lo ss \<Longrightarrow> lo \<le> cap"
  by (induction ss arbitrary: lo) fastforce+

lemma packed_end: "packed cap lo ss \<Longrightarrow> slots_end lo ss \<le> cap"
  by (induction ss arbitrary: lo) auto

lemma packed_snoc:
  "packed cap lo (ss @ [s]) \<longleftrightarrow> packed cap lo ss \<and> slots_end lo ss \<le> slot_offset s \<and>
     slot_offset s + band_bytes (slot_rect s) \<le> cap"
  by (induction ss arbitrary: lo) auto

lemma slots_end_snoc: "slots_end lo (ss @ [s]) = slot_offset s + band_bytes (slot_rect s)"
  by (induction ss arbitrary: lo) auto

lemma packed_member:
  "packed cap lo ss \<Longrightarrow> s \<in> set ss \<Longrightarrow>
     lo \<le> slot_offset s \<and> slot_offset s + band_bytes (slot_rect s) \<le> cap"
  by (induction ss arbitrary: lo) (fastforce dest: packed_le)+

lemma packed_nth:
  "packed cap lo ss \<Longrightarrow> i < j \<Longrightarrow> j < length ss \<Longrightarrow>
     slot_offset (ss ! i) + band_bytes (slot_rect (ss ! i)) \<le> slot_offset (ss ! j)"
proof (induction ss arbitrary: lo i j)
  case (Cons s ss)
  obtain j' where j: "j = Suc j'" "j' < length ss" using Cons.prems by (cases j) auto
  show ?case
  proof (cases i)
    case 0
    then show ?thesis using Cons.prems(1) j packed_member [of cap _ ss "ss ! j'"] by auto
  next
    case (Suc i')
    then show ?thesis using Cons.IH [of _ i' j'] Cons.prems j by auto
  qed
qed simp

definition batch_ok :: "nat \<Rightarrow> slot list \<Rightarrow> bool" where
  "batch_ok cap ss \<longleftrightarrow> packed cap 0 ss \<and> length ss \<le> MAX_PIPELINE"

definition plan_inv :: "nat \<Rightarrow> rect list \<Rightarrow> planning \<Rightarrow> bool" where
  "plan_inv cap bands st \<longleftrightarrow> (\<forall>b \<in> set (pl_batches st). batch_ok cap b \<and> b \<noteq> []) \<and> batch_ok cap (pl_cur st) \<and>
     pl_next st = slots_end 0 (pl_cur st) \<and>
     map slot_rect (concat (pl_batches st) @ pl_cur st) = bands"

lemma plan_step_inv:
  assumes "plan_inv cap bands st" "\<not> rect_is_empty b" "band_bytes b \<le> cap" "cap < 2 ^ 62"
  shows "plan_inv cap (bands @ [b]) (plan_step cap b st)"
proof -
  let ?o = "align_up (pl_next st) SHM_ALIGN" and ?n = "band_bytes b"
  let ?full = "MAX_PIPELINE \<le> length (pl_cur st) \<or> cap < sat_add ?o ?n"
  have next_le: "pl_next st \<le> cap" using assms(1) packed_end by (auto simp: plan_inv_def batch_ok_def)
  have al: "pl_next st \<le> ?o" "?o \<le> pl_next st + 7"
    using align_up_bounds [of "pl_next st"] next_le assms(4) by auto
  have sat: "sat_add ?o ?n = ?o + ?n" "sat_add 0 ?n = ?n"
    using al next_le assms(3,4) by (simp_all add: sat_add_def)
  show ?thesis
  proof (cases ?full)
    case True
    then show ?thesis
      using assms sat by (auto simp: plan_inv_def plan_step_def batch_ok_def Let_def MAX_PIPELINE_def)
  next
    case False
    then have "packed cap 0 (pl_cur st @ [\<lparr>slot_rect = b, slot_offset = ?o\<rparr>])"
      using assms(1) sat al by (auto simp: packed_snoc plan_inv_def batch_ok_def)
    then show ?thesis
      using assms(1,2) False sat by (auto simp: plan_inv_def plan_step_def batch_ok_def Let_def slots_end_snoc)
  qed
qed

lemma plan_batches_ok:
  assumes "\<forall>b \<in> set bands. \<not> rect_is_empty b \<and> band_bytes b \<le> cap" "cap < 2 ^ 62"
  shows "map slot_rect (concat (plan_batches bands cap)) = bands \<and>
    (\<forall>b \<in> set (plan_batches bands cap). batch_ok cap b \<and> b \<noteq> [])"
proof -
  let ?s0 = "\<lparr>pl_batches = [], pl_cur = [], pl_next = 0\<rparr>"
  have "plan_inv cap bands (fold (plan_step cap) bands ?s0)"
    using assms(1)
  proof (induction bands rule: rev_induct)
    case Nil
    show ?case by (simp add: plan_inv_def batch_ok_def MAX_PIPELINE_def)
  next
    case (snoc b bs)
    then show ?case using plan_step_inv [OF _ _ _ assms(2)] by simp
  qed
  then show ?thesis by (auto simp: plan_inv_def plan_batches_def Let_def)
qed

text \<open>
  The batches hold every band exactly once and in order; within a batch there are at most
  \<open>MAX_PIPELINE\<close> requests, each with a region of its own, after the regions of the requests before
  it and inside the segment.
\<close>

theorem batches_are_disjoint:
  assumes "\<forall>b \<in> set bands. \<not> rect_is_empty b \<and> band_bytes b \<le> cap" "cap < 2 ^ 62"
  shows "map slot_rect (concat (plan_batches bands cap)) = bands \<and>
    (\<forall>ss \<in> set (plan_batches bands cap). length ss \<le> MAX_PIPELINE \<and>
      (\<forall>i j. i < j \<and> j < length ss \<longrightarrow>
         slot_offset (ss ! i) + band_bytes (slot_rect (ss ! i)) \<le> slot_offset (ss ! j)) \<and>
      (\<forall>s \<in> set ss. slot_offset s + band_bytes (slot_rect s) \<le> cap))"
  using plan_batches_ok [OF assms] packed_nth packed_member by (fastforce simp: batch_ok_def)

theorem batches_are_disjoint_witness:
  "length (plan_batches [rect_new 0 0 2 1, rect_new 0 1 2 1, rect_new 0 2 2 1] 16) = 2 \<and>
    map slot_rect (concat (plan_batches [rect_new 0 0 2 1, rect_new 0 1 2 1, rect_new 0 2 2 1] 16)) =
      [rect_new 0 0 2 1, rect_new 0 1 2 1, rect_new 0 2 2 1]"
proof
  show "length (plan_batches [rect_new 0 0 2 1, rect_new 0 1 2 1, rect_new 0 2 2 1] 16) = 2"
    by (simp add: plan_batches_def plan_step_def Let_def rect_is_empty_def band_bytes_def sat_mul64_def
        sat_add_small align_up_8 MAX_PIPELINE_def)
  show "map slot_rect (concat (plan_batches [rect_new 0 0 2 1, rect_new 0 1 2 1, rect_new 0 2 2 1] 16)) =
      [rect_new 0 0 2 1, rect_new 0 1 2 1, rect_new 0 2 2 1]"
    by (rule batches_are_disjoint [THEN conjunct1])
      (simp_all add: rect_is_empty_def band_bytes_def sat_mul64_def)
qed

section \<open>From bytes to pixels\<close>

text \<open>A pixel and a rectangle of pixels in the server's 32 bits per pixel format.\<close>

definition pixel_bytes :: "bool \<Rightarrow> u32 \<Rightarrow> u8 list" where
  "pixel_bytes msb v = (if msb then rev (le_bytes 4 v) else le_bytes 4 v)"

definition zpixmap :: "bool \<Rightarrow> (nat \<Rightarrow> nat \<Rightarrow> u32) \<Rightarrow> rect \<Rightarrow> u8 list" where
  "zpixmap msb p r = concat (map (pixel_bytes msb) (rect_pixels p r))"

lemma length_pixel_bytes [simp]: "length (pixel_bytes msb v) = 4"
  by (simp add: pixel_bytes_def)

lemma length_zpixmap [simp]: "length (zpixmap msb p r) = area r * 4"
proof -
  have "length (concat (map (pixel_bytes msb) vs)) = length vs * 4" for vs
    by (induction vs) auto
  then show ?thesis by (simp add: zpixmap_def)
qed

lemma slice_pixel_bytes:
  "take (w * 4) (drop (n * 4) (concat (map (pixel_bytes msb) vs))) =
     concat (map (pixel_bytes msb) (take w (drop n vs)))"
proof -
  have dr: "drop (n * 4) (concat (map (pixel_bytes msb) vs)) = concat (map (pixel_bytes msb) (drop n vs))" for n vs
    proof (induction vs arbitrary: n)
    case (Cons v vs)
    then show ?case by (cases n) simp_all
  qed simp
  have tk: "take (w * 4) (concat (map (pixel_bytes msb) vs)) = concat (map (pixel_bytes msb) (take w vs))" for w vs
    proof (induction vs arbitrary: w)
    case (Cons v vs)
    then show ?case by (cases w) simp_all
  qed simp
  show ?thesis by (simp add: dr tk)
qed

lemma le_bytes_4: "le_bytes 4 (v :: u32) =
    [ucast v, ucast (drop_bit 8 v), ucast (drop_bit 16 v), ucast (drop_bit 24 v)]"
  by (simp add: numeral_eq_Suc)

lemma low_three_bytes: "of_le [ucast v, ucast (drop_bit 8 v), ucast (drop_bit 16 v), 0 :: u8] = v AND (rgb_mask :: u32)"
proof -
  have m: "(rgb_mask :: u32) = mask 24" by (simp add: rgb_mask_def mask_eq_exp_minus_1)
  show ?thesis unfolding m
  proof (rule bit_word_eqI)
    fix n assume "n < LENGTH(32)"
    then consider "n < 8" | "8 \<le> n" "n < 16" | "16 \<le> n" "n < 24" | "24 \<le> n" by linarith
    then show "bit (of_le [ucast v, ucast (drop_bit 8 v), ucast (drop_bit 16 v), 0 :: u8] :: u32) n = bit (v AND mask 24) n"
      by cases (auto simp: bit_simps)
  qed
qed

lemma pixels_of_bytes: "pixels_of msb (concat (map (pixel_bytes msb) vs)) = map (\<lambda>v. v AND rgb_mask) vs"
proof (induction vs)
  case (Cons v vs)
  then show ?case using low_three_bytes [of v] by (cases msb) (simp_all add: pixel_bytes_def le_bytes_4)
qed simp

lemma copy_pixels_Some:
  assumes "fb_wf fb" "\<not> rect_is_empty r" "rx r + rwidth r \<le> fb_width fb" "ry r + rheight r \<le> fb_height fb"
  obtains fb' where "copy_pixels fb r (zpixmap msb p r) msb = Some fb'" "fb_wf fb'" "same_size fb' fb"
    "\<And>x y. x < fb_width fb \<Longrightarrow> px fb' x y = (if inside r x y then p x y AND rgb_mask else px fb x y)"
proof -
  let ?row = "\<lambda>y. map (\<lambda>v. v AND rgb_mask) (take (rwidth r) (drop ((y - ry r) * rwidth r) (rect_pixels p r)))"
  let ?f = "\<lambda>y. if ry r \<le> y then ?row y else replicate (rwidth r) 0"
  have wf: "rect_wf r" using assms by (auto simp: fb_wf_def rect_wf_def)
  have fits: "(y - ry r + 1) * rwidth r \<le> area r" if "y < ry r + rheight r" "ry r \<le> y" for y
  proof -
    have "(y - ry r + 1) * rwidth r \<le> rheight r * rwidth r" using that by (intro mult_le_mono1) auto
    then show ?thesis by (simp add: area_def mult.commute)
  qed
  have len: "length (?f y) = rwidth r" if "y < ry r + rheight r" for y
    using fits [OF that] by (auto simp: algebra_simps)
  obtain fb' where fb': "ofold (\<lambda>y fb. fb_row_write fb y (rx r) (rwidth r) (?f y))
      [ry r..<ry r + rheight r] fb = Some fb' \<and> fb_wf fb' \<and> same_size fb' fb \<and>
     (\<forall>x' y'. x' < fb_width fb \<longrightarrow> px fb' x' y' =
       (if ry r \<le> y' \<and> y' < ry r + rheight r \<and> rx r \<le> x' \<and> x' < rx r + rwidth r
        then ?f y' ! (x' - rx r) else px fb x' y'))"
    using rows_write [OF assms(1,3,4), where f = ?f and a = "ry r"] len by blast
  have cong: "ofold f xs s = ofold g xs s" if "\<And>x s. x \<in> set xs \<Longrightarrow> f x s = g x s"
    for f g :: "nat \<Rightarrow> framebuffer \<Rightarrow> framebuffer option" and xs s
    using that by (induction xs arbitrary: s) (auto intro: Option.bind_cong)
  have "copy_pixels fb r (zpixmap msb p r) msb = ofold (\<lambda>y fb. fb_row_write fb y (rx r) (rwidth r) (?f y))
      [ry r..<ry r + rheight r] fb"
    unfolding copy_pixels_def bottom_wf [OF wf]
  proof (rule cong)
    fix y fb assume y: "y \<in> set [ry r..<ry r + rheight r]"
    then have "(y - ry r + 1) * rwidth r * 4 \<le> length (zpixmap msb p r)" using fits [of y] by simp
    moreover have "pixels_of msb (take (rwidth r * 4) (drop ((y - ry r) * rwidth r * 4) (zpixmap msb p r))) = ?row y"
      by (simp add: zpixmap_def slice_pixel_bytes pixels_of_bytes)
    ultimately show "(let i = y - ry r; w = rwidth r in
         if (i + 1) * w * 4 \<le> length (zpixmap msb p r)
         then fb_row_write fb y (rx r) w (pixels_of msb (take (w * 4) (drop (i * w * 4) (zpixmap msb p r)))) else None) =
       fb_row_write fb y (rx r) (rwidth r) (?f y)"
      using y by (simp add: Let_def)
  qed
  with fb' have "copy_pixels fb r (zpixmap msb p r) msb = Some fb'" by simp
  moreover have "px fb' x y = (if inside r x y then p x y AND rgb_mask else px fb x y)" if x: "x < fb_width fb" for x y
  proof (cases "inside r x y")
    case True
    then have lt: "x - rx r < rwidth r" and yb: "y < ry r + rheight r" "ry r \<le> y" by (auto simp: inside_def)
    have "?row y ! (x - rx r) = rect_pixels p r ! ((y - ry r) * rwidth r + (x - rx r)) AND rgb_mask"
      using lt fits [OF yb] by (subst nth_map) (auto simp: algebra_simps)
    then show ?thesis using True fb' x rect_pixels_nth [OF True, of p] by (auto simp: inside_def)
  next
    case False
    then show ?thesis using fb' x by (auto simp: inside_def)
  qed
  ultimately show ?thesis using fb' that by blast
qed


section \<open>The segment while the server writes\<close>

text \<open>
  A server that answers every request inside a root of the given size with the pixels the root has
  when it processes that request.
\<close>

definition answers_root :: "x_server \<Rightarrow> bool \<Rightarrow> (nat \<Rightarrow> nat \<Rightarrow> nat \<Rightarrow> u32) \<Rightarrow> nat \<Rightarrow> nat \<Rightarrow> bool" where
  "answers_root srv msb root w h \<longleftrightarrow>
     (\<forall>n r. \<not> rect_is_empty r \<longrightarrow> rx r + rwidth r \<le> w \<longrightarrow> ry r + rheight r \<le> h \<longrightarrow>
        srv n (x_request r) = Answered (area r * 4) (zpixmap msb (root n) r))"

definition region :: "slot \<Rightarrow> u8 list \<Rightarrow> u8 list" where
  "region s seg = take (band_bytes (slot_rect s)) (drop (slot_offset s) seg)"

definition slot_end :: "slot \<Rightarrow> nat" where "slot_end s = slot_offset s + band_bytes (slot_rect s)"

text \<open>Bands inside the root whose byte count does not saturate.\<close>

definition rect_fits :: "nat \<Rightarrow> nat \<Rightarrow> rect \<Rightarrow> bool" where
  "rect_fits w h r \<longleftrightarrow> \<not> rect_is_empty r \<and> rx r + rwidth r \<le> w \<and> ry r + rheight r \<le> h \<and>
     band_bytes r = area r * 4"

lemma length_seg_write [simp]: "length (seg_write off bs seg) = length seg"
  by (simp add: seg_write_def)

lemma length_serve [simp]: "length (serve srv q seg) = length seg"
  by (auto simp: serve_def split: prod.splits answer.splits)

lemma length_fold_serve [simp]: "length (fold (serve srv) qs seg) = length seg"
  by (induction qs arbitrary: seg) auto

lemma packed_append:
  "packed cap lo (xs @ ys) \<longleftrightarrow> packed cap lo xs \<and> packed cap (slots_end lo xs) ys"
  by (induction xs arbitrary: lo) (auto dest: packed_le)

lemma packed_ends: "packed cap lo xs \<Longrightarrow> lo \<le> slots_end lo xs \<and> (s \<in> set xs \<longrightarrow> slot_end s \<le> slots_end lo xs)"
  by (induction xs arbitrary: lo) (fastforce simp: slot_end_def)+

lemma serve_region:
  assumes "answers_root srv msb root w h" "rect_fits w h (slot_rect s)"
    and "slot_end s \<le> length seg" "length seg < 2 ^ 32"
  shows "region s (serve srv (n, s) seg) = zpixmap msb (root n) (slot_rect s)"
    and "slot_end t \<le> slot_offset s \<Longrightarrow> region t (serve srv (n, s) seg) = region t seg"
proof -
  have bb: "band_bytes (slot_rect s) = area (slot_rect s) * 4"
    using assms(2) by (simp add: rect_fits_def)
  have ans: "srv n (x_request (slot_rect s)) = Answered (area (slot_rect s) * 4) (zpixmap msb (root n) (slot_rect s))"
    using assms(1,2) by (auto simp: answers_root_def rect_fits_def)
  have off: "slot_offset s mod 2 ^ 32 = slot_offset s"
    using assms(3,4) by (simp add: slot_end_def)
  have sv: "serve srv (n, s) seg =
      take (slot_offset s) seg @ zpixmap msb (root n) (slot_rect s) @ drop (slot_end s) seg"
    using assms(3) bb off by (simp add: serve_def ans seg_write_def slot_end_def)
  show "region s (serve srv (n, s) seg) = zpixmap msb (root n) (slot_rect s)"
    using assms(3) by (simp add: sv region_def bb slot_end_def)
  show "region t (serve srv (n, s) seg) = region t seg" if "slot_end t \<le> slot_offset s"
  proof -
    have "take (band_bytes (slot_rect t)) (drop (slot_offset t) (take (slot_offset s) seg @ rest)) =
        take (band_bytes (slot_rect t)) (drop (slot_offset t) seg)" for rest
      using that assms(3) by (auto simp: slot_end_def take_drop min_def)
    then show ?thesis unfolding sv region_def .
  qed
qed

lemma fold_serve_region:
  assumes "answers_root srv msb root w h" "length seg < 2 ^ 32"
    and "packed (length seg) lo (map snd qs)" "\<forall>q \<in> set qs. rect_fits w h (slot_rect (snd q))"
  shows "(\<forall>q \<in> set qs. region (snd q) (fold (serve srv) qs seg) = zpixmap msb (root (fst q)) (slot_rect (snd q))) \<and>
    (\<forall>t. slot_end t \<le> lo \<longrightarrow> region t (fold (serve srv) qs seg) = region t seg)"
  using assms
proof (induction qs arbitrary: lo seg)
  case (Cons q qs)
  obtain n s where q: "q = (n, s)" by fastforce
  have pk: "lo \<le> slot_offset s" "packed (length seg) (slot_end s) (map snd qs)"
    using Cons.prems(3) by (simp_all add: q slot_end_def)
  have fit: "rect_fits w h (slot_rect s)" "slot_end s \<le> length seg"
    using Cons.prems(4) packed_le [OF pk(2)] by (simp_all add: q)
  note one = serve_region [where n = n, OF assms(1) fit Cons.prems(2)]
  have IH: "(\<forall>p \<in> set qs. region (snd p) (fold (serve srv) qs (serve srv q seg)) = zpixmap msb (root (fst p)) (slot_rect (snd p))) \<and>
    (\<forall>t. slot_end t \<le> slot_end s \<longrightarrow> region t (fold (serve srv) qs (serve srv q seg)) = region t (serve srv q seg))"
    using Cons.prems(2,4) pk(2) by (intro Cons.IH assms(1)) simp_all
  moreover have "region t (serve srv q seg) = region t seg \<and> slot_end t \<le> slot_end s" if "slot_end t \<le> lo" for t
    using one(2) [of t] that pk(1) by (auto simp: q slot_end_def)
  ultimately show ?case using one(1) by (simp add: q)
qed simp

text \<open>
  The pixels after a list of captures: a pixel inside one of them comes from the root as one of them
  saw it, every other pixel is unchanged.
\<close>

definition shows_captures ::
    "(nat \<Rightarrow> nat \<Rightarrow> nat \<Rightarrow> u32) \<Rightarrow> (nat \<times> rect) list \<Rightarrow> framebuffer \<Rightarrow> framebuffer \<Rightarrow> bool" where
  "shows_captures root qs fb fb' \<longleftrightarrow> fb_wf fb' \<and> same_size fb' fb \<and>
     (\<forall>x y. x < fb_width fb \<longrightarrow>
       (if \<exists>q \<in> set qs. inside (snd q) x y
        then \<exists>q \<in> set qs. inside (snd q) x y \<and> px fb' x y = root (fst q) x y AND rgb_mask
        else px fb' x y = px fb x y))"

lemma shows_captures_Nil: "fb_wf fb \<Longrightarrow> shows_captures root [] fb fb"
  by (simp add: shows_captures_def)

lemma shows_captures_append:
  assumes "shows_captures root qs fb fb1" "shows_captures root qs' fb1 fb2"
  shows "shows_captures root (qs @ qs') fb fb2"
  unfolding shows_captures_def
proof (intro conjI allI impI)
  show "fb_wf fb2" "same_size fb2 fb" using assms by (auto simp: shows_captures_def same_size_def)
  fix x y assume x: "x < fb_width fb"
  then have x1: "x < fb_width fb1" using assms(1) by (simp add: shows_captures_def same_size_def)
  let ?in = "\<lambda>qs. \<exists>q \<in> set qs. inside (snd q) x y"
  let ?ok = "\<lambda>qs fb'. if ?in qs
      then \<exists>q \<in> set qs. inside (snd q) x y \<and> px fb' x y = root (fst q) x y AND rgb_mask else True"
  have 1: "?ok qs fb1" "\<not> ?in qs \<Longrightarrow> px fb1 x y = px fb x y"
    using assms(1) x by (auto simp: shows_captures_def)
  have 2: "?ok qs' fb2" "\<not> ?in qs' \<Longrightarrow> px fb2 x y = px fb1 x y"
    using assms(2) x1 by (auto simp: shows_captures_def)
  show "if ?in (qs @ qs')
        then \<exists>q \<in> set (qs @ qs'). inside (snd q) x y \<and> px fb2 x y = root (fst q) x y AND rgb_mask
        else px fb2 x y = px fb x y"
  proof (cases "?in qs'")
    case True
    then show ?thesis using 2(1) by auto
  next
    case False
    then show ?thesis using 1 2(2) by (auto split: if_splits)
  qed
qed

lemma copy_pixels_shows:
  assumes "fb_wf fb" "rect_fits (fb_width fb) (fb_height fb) r"
  obtains fb' where "copy_pixels fb r (zpixmap msb (root n) r) msb = Some fb'"
    "shows_captures root [(n, r)] fb fb'"
proof -
  have r: "\<not> rect_is_empty r" "rx r + rwidth r \<le> fb_width fb" "ry r + rheight r \<le> fb_height fb"
    using assms(2) by (simp_all add: rect_fits_def)
  obtain fb' where "copy_pixels fb r (zpixmap msb (root n) r) msb = Some fb'" "fb_wf fb'" "same_size fb' fb"
    "\<And>x y. x < fb_width fb \<Longrightarrow> px fb' x y = (if inside r x y then root n x y AND rgb_mask else px fb x y)"
    using copy_pixels_Some [where p = "root n" and msb = msb, OF assms(1) r] by metis
  then show ?thesis by (intro that [of fb']) (simp_all add: shows_captures_def)
qed


section \<open>Whole captures\<close>

abbreviation captured :: "(nat \<times> slot) list \<Rightarrow> (nat \<times> rect) list" where
  "captured qs \<equiv> map (\<lambda>q. (fst q, slot_rect (snd q))) qs"

lemma read_replies_correct:
  assumes "answers_root srv msb root w h" "cap < 2 ^ 32"
  shows "waiting = done @ todo \<Longrightarrow> length seg = cap \<Longrightarrow> packed cap lo (map snd waiting) \<Longrightarrow>
    \<forall>q \<in> set waiting. rect_fits w h (slot_rect (snd q)) \<Longrightarrow>
    \<forall>q \<in> set done. region (snd q) seg = zpixmap msb (root (fst q)) (slot_rect (snd q)) \<Longrightarrow>
    fb_wf fb \<Longrightarrow> fb_width fb = w \<Longrightarrow> fb_height fb = h \<Longrightarrow>
    \<exists>fb' seg'. read_replies srv ahead msb waiting todo seg fb = Some (fb', seg', None) \<and> length seg' = cap \<and>
      shows_captures root (captured waiting) fb fb'"
proof (induction waiting arbitrary: "done" todo seg lo fb)
  case Nil
  then show ?case by (simp add: shows_captures_Nil)
next
  case (Cons req rest)
  obtain n s where req: "req = (n, s)" by fastforce
  define k where "k = (length todo - length rest) + ahead n"
  define seg1 where "seg1 = fold (serve srv) (take k todo) seg"
  have k: "done = [] \<Longrightarrow> 0 < k"
    using Cons.prems(1) by (auto simp: k_def)
  have split: "req # rest = (done @ take k todo) @ drop k todo" using Cons.prems(1) by simp
  obtain d3 where d3: "done @ take k todo = req # d3" "rest = d3 @ drop k todo"
    using split k Cons.prems(1) by (cases "done @ take k todo") (auto simp: take_eq_Nil)
  have pk_todo: "packed cap (slots_end lo (map snd done)) (map snd (take k todo))"
  proof -
    have "packed cap (slots_end lo (map snd done)) (map snd (take k todo @ drop k todo))"
      using Cons.prems(1,3) by (simp only: packed_append map_append append_take_drop_id)
    then show ?thesis by (simp only: packed_append map_append)
  qed
  have pk_done: "packed cap lo (map snd done)" using Cons.prems(1,3) by (simp add: packed_append)
  have fits: "\<forall>q \<in> set (take k todo). rect_fits w h (slot_rect (snd q))"
    using Cons.prems(1,4) by (auto dest: in_set_takeD)
  have served: "(\<forall>q \<in> set (take k todo). region (snd q) seg1 = zpixmap msb (root (fst q)) (slot_rect (snd q))) \<and>
      (\<forall>t. slot_end t \<le> slots_end lo (map snd done) \<longrightarrow> region t seg1 = region t seg)"
    unfolding seg1_def
    by (rule fold_serve_region [OF assms(1) _ _ fits]) (use Cons.prems(2) assms(2) pk_todo in simp_all)
  have holds: "\<forall>q \<in> set (req # d3). region (snd q) seg1 = zpixmap msb (root (fst q)) (slot_rect (snd q))"
    unfolding d3(1) [symmetric]
    using served Cons.prems(5) packed_ends [OF pk_done] by (auto simp: image_iff) force+
  have len1: "length seg1 = cap" using Cons.prems(2) by (simp add: seg1_def)
  have fit: "rect_fits w h (slot_rect s)" using Cons.prems(4) by (simp add: req)
  have endle: "slot_end s \<le> cap"
    using Cons.prems(3) by (auto simp: req slot_end_def dest: packed_le)
  have bb: "band_bytes (slot_rect s) = area (slot_rect s) * 4" using fit by (simp add: rect_fits_def)
  have ans: "srv n (x_request (slot_rect s)) = Answered (area (slot_rect s) * 4) (zpixmap msb (root n) (slot_rect s))"
    using assms(1) fit by (auto simp: answers_root_def rect_fits_def)
  have bytes: "bytes_at seg1 (slot_offset s) (area (slot_rect s) * 4) = Some (zpixmap msb (root n) (slot_rect s))"
    using holds endle len1 assms(2) bb by (simp add: req bytes_at_def sat_add_def slot_end_def region_def)
  have fit': "rect_fits (fb_width fb) (fb_height fb) (slot_rect s)"
    using fit Cons.prems(7,8) by simp
  obtain fb1 where fb1: "copy_pixels fb (slot_rect s) (zpixmap msb (root n) (slot_rect s)) msb = Some fb1"
    "shows_captures root [(n, slot_rect s)] fb fb1"
    by (rule copy_pixels_shows [OF Cons.prems(6) fit']) 
  then have dims: "fb_wf fb1" "fb_width fb1 = w" "fb_height fb1 = h"
    using Cons.prems(7,8) by (auto simp: shows_captures_def same_size_def)
  have pk_rest: "packed cap (slot_end s) (map snd rest)" using Cons.prems(3) by (simp add: req slot_end_def)
  obtain fb' seg' where IH: "read_replies srv ahead msb rest (drop k todo) seg1 fb1 = Some (fb', seg', None)"
    "length seg' = cap" "shows_captures root (captured rest) fb1 fb'"
    using Cons.IH [OF d3(2) len1 pk_rest _ _ dims] Cons.prems(4) holds by auto
  have "read_replies srv ahead msb (req # rest) todo seg fb = Some (fb', seg', None)"
    using IH(1) fb1(1) bytes ans by (simp add: req Let_def bb flip: k_def seg1_def)
  moreover have "shows_captures root (captured (req # rest)) fb fb'"
    using shows_captures_append [OF fb1(2) IH(3)] by (simp add: req)
  ultimately show ?case using IH(2) by blast
qed

lemma run_batches_correct:
  assumes "answers_root srv msb root w h" "cap < 2 ^ 32"
  shows "length seg = cap \<Longrightarrow> \<forall>b \<in> set batches. batch_ok cap b \<Longrightarrow>
    \<forall>s \<in> set (concat batches). rect_fits w h (slot_rect s) \<Longrightarrow>
    fb_wf fb \<Longrightarrow> fb_width fb = w \<Longrightarrow> fb_height fb = h \<Longrightarrow>
    \<exists>fb' seg' qs. run_batches srv ahead msb batches n seg fb = Some (fb', seg', None) \<and> length seg' = cap \<and>
      shows_captures root qs fb fb' \<and> map snd qs = map slot_rect (concat batches)"
proof (induction batches arbitrary: n seg fb)
  case Nil
  then show ?case by (auto intro!: exI [of _ "[]"] simp: shows_captures_Nil)
next
  case (Cons b bs)
  let ?reqs = "zip [n..<n + length b] b"
  have snd: "map snd ?reqs = b" by simp
  have fits: "\<forall>q \<in> set ?reqs. rect_fits w h (slot_rect (snd q))"
    using Cons.prems(3) by (auto dest: set_zip_rightD)
  have sent: "\<not> list_ex (unsent srv) ?reqs"
  proof -
    have "\<not> unsent srv q" if "q \<in> set ?reqs" for q
      using fits that assms(1) by (auto simp: unsent_def answers_root_def rect_fits_def)
    then show ?thesis by (auto simp: list_ex_iff)
  qed
  have pk: "packed cap 0 (map snd ?reqs)" using Cons.prems(2) by (simp add: batch_ok_def)
  obtain fb1 seg1 where 1: "read_replies srv ahead msb ?reqs ?reqs seg fb = Some (fb1, seg1, None)"
    "length seg1 = cap" "shows_captures root (captured ?reqs) fb fb1"
    using read_replies_correct [OF assms, of ?reqs "[]" ?reqs seg 0 fb ahead] Cons.prems(1,4-6) pk fits by auto
  then have dims: "fb_wf fb1" "fb_width fb1 = w" "fb_height fb1 = h"
    using Cons.prems by (auto simp: shows_captures_def same_size_def)
  obtain fb2 seg2 qs where 2: "run_batches srv ahead msb bs (n + length b) seg1 fb1 = Some (fb2, seg2, None)"
    "length seg2 = cap" "shows_captures root qs fb1 fb2" "map snd qs = map slot_rect (concat bs)"
    using Cons.IH [OF 1(2) _ _ dims, of "n + length b"] Cons.prems(2,3) by auto
  have "map snd (captured ?reqs) = map slot_rect b"
    using arg_cong [OF snd, of "map slot_rect"] by (simp only: map_map comp_def snd_conv)
  then have "map snd (captured ?reqs @ qs) = map slot_rect (concat (b # bs))" using 2(4) by simp
  moreover have "shows_captures root (captured ?reqs @ qs) fb fb2" by (rule shows_captures_append [OF 1(3) 2(3)])
  moreover have "run_batches srv ahead msb (b # bs) n seg fb = Some (fb2, seg2, None)"
    using sent 1(1) 2(1) by (simp add: Let_def)
  ultimately show ?case using 2(2) by blast
qed

lemma capture_serial_correct:
  assumes "answers_root srv msb root w h"
  shows "\<forall>r \<in> set bands. rect_fits w h r \<Longrightarrow> fb_wf fb \<Longrightarrow> fb_width fb = w \<Longrightarrow> fb_height fb = h \<Longrightarrow>
    \<exists>fb' qs. capture_serial srv msb n fb bands = Some (fb', None) \<and>
      shows_captures root qs fb fb' \<and> map snd qs = bands"
proof (induction bands arbitrary: n fb)
  case Nil
  then show ?case by (auto intro!: exI [of _ "[]"] simp: shows_captures_Nil)
next
  case (Cons r rs)
  have fit: "rect_fits (fb_width fb) (fb_height fb) r" and bb: "band_bytes r = area r * 4"
    using Cons.prems by (auto simp: rect_fits_def)
  obtain fb1 where 1: "copy_pixels fb r (zpixmap msb (root n) r) msb = Some fb1" "shows_captures root [(n, r)] fb fb1"
    by (rule copy_pixels_shows [OF Cons.prems(2) fit])
  then have dims: "fb_wf fb1" "fb_width fb1 = w" "fb_height fb1 = h"
    using Cons.prems by (auto simp: shows_captures_def same_size_def)
  obtain fb2 qs where 2: "capture_serial srv msb (n + 1) fb1 rs = Some (fb2, None)"
    "shows_captures root qs fb1 fb2" "map snd qs = rs"
    using Cons.IH [OF _ dims, of "n + 1"] Cons.prems(1) by auto
  have "srv n (x_request r) = Answered (area r * 4) (zpixmap msb (root n) r)"
    using assms Cons.prems(1) by (auto simp: answers_root_def rect_fits_def)
  then have "capture_serial srv msb n fb (r # rs) = Some (fb2, None)"
    using 1(1) 2(1) by (simp add: bb)
  moreover have "shows_captures root ((n, r) # qs) fb fb2"
    using shows_captures_append [OF 1(2) 2(2)] by simp
  ultimately show ?case using 2(3) by (metis list.simps(9) snd_conv)
qed

text \<open>A capture object whose segment, if it has one, has four bytes for each of its pixels.\<close>

definition capture_ok :: "nat \<Rightarrow> screen_capture \<Rightarrow> bool" where
  "capture_ok w cap \<longleftrightarrow> w \<le> sc_shm_pixels cap \<and> sc_shm_pixels cap < 2 ^ 30 \<and>
     (\<forall>seg. sc_shm cap = Some seg \<longrightarrow> length seg = sc_shm_pixels cap * 4)"

lemma capture_new_ok: "0 < h \<Longrightarrow> w * h < 2 ^ 30 \<Longrightarrow> capture_ok w (capture_new shm w h)"
  by (auto simp: capture_ok_def capture_new_def)

lemma capture_many_correct:
  assumes "fb_wf fb" "\<forall>r \<in> set rects. rect_wf r" "capture_ok (fb_width fb) cap"
    and "answers_root srv msb root (fb_width fb) (fb_height fb)"
  shows "\<exists>cap' fb' qs. capture_many srv ahead msb cap fb rects = Some (cap', fb', None) \<and>
    sc_shm_pixels cap' = sc_shm_pixels cap \<and> capture_ok (fb_width fb) cap' \<and> shows_captures root qs fb fb' \<and>
    map snd qs = capture_bands fb (sc_shm_pixels cap) rects"
proof -
  let ?c = "sc_shm_pixels cap"
  let ?bands = "capture_bands fb ?c rects"
  have c: "fb_width fb \<le> ?c" "?c < 2 ^ 30" using assms(3) by (simp_all add: capture_ok_def)
  have bb: "band_bytes b = area b * 4 \<and> band_bytes b \<le> ?c * 4 \<and> rect_fits (fb_width fb) (fb_height fb) b"
    if "b \<in> set ?bands" for b
    using capture_bands_ok [OF assms(1,2) c(1) that] c(2)
    by (auto simp: band_ok_def rect_fits_def band_bytes_def sat_mul64_def area_def)
  show ?thesis
  proof (cases "?bands = []")
    case True
    then show ?thesis using assms(1,3)
      by (auto intro!: exI [of _ "[]"] simp: capture_many_def Let_def shows_captures_Nil)
  next
    case ne: False
    show ?thesis
    proof (cases "sc_shm cap")
      case None
      obtain fb' qs where "capture_serial srv msb 0 fb ?bands = Some (fb', None)"
        "shows_captures root qs fb fb'" "map snd qs = ?bands"
        using capture_serial_correct [OF assms(4) _ assms(1) refl refl, of ?bands 0] bb by blast
      then show ?thesis using ne None assms(3) by (auto simp: capture_many_def Let_def)
    next
      case (Some seg)
      then have len: "length seg = ?c * 4" using assms(3) by (simp add: capture_ok_def)
      have small: "\<not> list_ex (\<lambda>band. length seg < band_bytes band) ?bands"
        using bb len by (force simp: list_ex_iff)
      have "\<forall>b \<in> set ?bands. \<not> rect_is_empty b \<and> band_bytes b \<le> length seg"
        unfolding len using bb unfolding rect_fits_def by blast
      moreover have lt: "length seg < 2 ^ 62" "length seg < 2 ^ 32" using len c(2) by simp_all
      ultimately have plan: "map slot_rect (concat (plan_batches ?bands (length seg))) = ?bands"
        "\<forall>b \<in> set (plan_batches ?bands (length seg)). batch_ok (length seg) b \<and> b \<noteq> []"
        using plan_batches_ok by blast+
      have "rect_fits (fb_width fb) (fb_height fb) (slot_rect s)"
        if "s \<in> set (concat (plan_batches ?bands (length seg)))" for s
        using bb that plan(1) by (metis imageI set_map)
      then obtain fb' seg' qs where
        run: "run_batches srv ahead msb (plan_batches ?bands (length seg)) 0 seg fb = Some (fb', seg', None)"
        "length seg' = length seg" "shows_captures root qs fb fb'" "map snd qs = ?bands"
        using run_batches_correct [OF assms(4) lt(2) refl, of "plan_batches ?bands (length seg)" fb ahead 0]
          plan assms(1) by auto
      have shm: "capture_shm srv ahead msb seg fb ?bands = Some (fb', seg', None)"
        using run(1) small by (simp add: capture_shm_def)
      have "capture_many srv ahead msb cap fb rects = Some (cap\<lparr>sc_shm := Some seg'\<rparr>, fb', None)"
        using ne Some by (simp add: capture_many_def Let_def shm)
      moreover have "capture_ok (fb_width fb) (cap\<lparr>sc_shm := Some seg'\<rparr>)"
        using assms(3) run(2) len by (simp add: capture_ok_def)
      ultimately show ?thesis using run(3,4)
        by (intro exI [of _ "cap\<lparr>sc_shm := Some seg'\<rparr>"] exI [of _ fb'] exI [of _ qs]) simp
    qed
  qed
qed

lemma capture_still:
  assumes "fb_wf fb" "\<forall>r \<in> set rects. rect_wf r" "capture_ok (fb_width fb) cap"
    and "answers_root srv msb (\<lambda>_. root) (fb_width fb) (fb_height fb)"
  shows "\<exists>cap' fb'. capture_many srv ahead msb cap fb rects = Some (cap', fb', None) \<and>
    fb_wf fb' \<and> same_size fb' fb \<and> capture_ok (fb_width fb) cap' \<and>
    (\<forall>x y. x < fb_width fb \<and> y < fb_height fb \<longrightarrow>
      px fb' x y = (if \<exists>r \<in> set rects. inside r x y then root x y AND rgb_mask else px fb x y))"
proof -
  obtain cap' fb' qs where q: "capture_many srv ahead msb cap fb rects = Some (cap', fb', None)"
    "capture_ok (fb_width fb) cap'" "shows_captures (\<lambda>_. root) qs fb fb'"
    "map snd qs = capture_bands fb (sc_shm_pixels cap) rects"
    using capture_many_correct [OF assms] by blast
  have in_qs: "(\<exists>q \<in> set qs. inside (snd q) x y) \<longleftrightarrow> (\<exists>r \<in> set rects. inside r x y)"
    if "x < fb_width fb" "y < fb_height fb" for x y
  proof -
    have "(\<exists>q \<in> set qs. inside (snd q) x y) \<longleftrightarrow> (\<exists>b \<in> set (map snd qs). inside b x y)" by auto
    also have "\<dots> \<longleftrightarrow> (\<exists>r \<in> set rects. inside r x y)"
      unfolding q(4) using capture_bands_inside [OF assms(1,2) _ that] assms(3) by (simp add: capture_ok_def)
    finally show ?thesis .
  qed
  have "px fb' x y = (if \<exists>r \<in> set rects. inside r x y then root x y AND rgb_mask else px fb x y)"
    if "x < fb_width fb" "y < fb_height fb" for x y
    using q(3) that unfolding in_qs [OF that, symmetric] shows_captures_def by (auto split: if_splits)
  then show ?thesis using q(1-3) by (auto simp: shows_captures_def)
qed

text \<open>
  C12. However far the server runs ahead of the replies, a capture of a root that does not change
  meanwhile puts exactly its pixels into the requested rectangles, clipped to the framebuffer, and
  touches no other pixel.
\<close>

theorem capture_exact:
  assumes "fb_wf fb" "\<forall>r \<in> set rects. rect_wf r" "capture_ok (fb_width fb) cap"
    and "answers_root srv msb (\<lambda>_. root) (fb_width fb) (fb_height fb)"
  shows "\<exists>cap' fb'. capture_many srv ahead msb cap fb rects = Some (cap', fb', None) \<and>
    fb_wf fb' \<and> same_size fb' fb \<and> capture_ok (fb_width fb) cap' \<and>
    (\<forall>x y. x < fb_width fb \<and> y < fb_height fb \<longrightarrow>
      px fb' x y = (if \<exists>r \<in> set rects. inside r x y then root x y AND rgb_mask else px fb x y))"
  by (rule capture_still [OF assms])


text \<open>A server that holds a given picture, and the conditions under which it answers every request.\<close>

definition root_server :: "bool \<Rightarrow> (nat \<Rightarrow> nat \<Rightarrow> u32) \<Rightarrow> x_server" where
  "root_server msb p n req =
     (case req of (x, y, w, h) \<Rightarrow> Answered (w * h * 4) (zpixmap msb p (rect_new (nat x) (nat y) w h)))"

lemma root_server_answers:
  assumes "w < 2 ^ 15" "h < 2 ^ 15"
  shows "answers_root (root_server msb p) msb (\<lambda>_. p) w h"
  unfolding answers_root_def
proof (intro allI impI)
  fix n and r :: rect
  assume "\<not> rect_is_empty r" "rx r + rwidth r \<le> w" "ry r + rheight r \<le> h"
  then have small: "rx r < 2 ^ 15" "ry r < 2 ^ 15" "rwidth r < 2 ^ 15" "rheight r < 2 ^ 15"
    using assms by linarith+
  have s: "sint (of_nat a :: 16 word) = int a" if "a < 2 ^ 15" for a
    using that by (simp add: signed_of_nat signed_take_bit_int_eq_self)
  have u: "unat (of_nat a :: 16 word) = a" if "a < 2 ^ 15" for a
    using that by (simp add: unat_of_nat take_bit_eq_mod)
  show "root_server msb p n (x_request r) = Answered (area r * 4) (zpixmap msb p r)"
    unfolding root_server_def x_request_def prod.case s [OF small(1)] s [OF small(2)] u [OF small(3)] u [OF small(4)]
    by (simp add: rect_eta area_def)
qed

theorem capture_exact_witness:
  "\<exists>cap' fb'. capture_many (root_server True (\<lambda>x y. 0xFF000001)) (\<lambda>_. 3) True (capture_new True 2 2)
      (fb_new 2 2) [rect_new 0 0 1 2] = Some (cap', fb', None) \<and> px fb' 0 1 = 1 \<and> px fb' 1 1 = 0"
proof -
  let ?p = "\<lambda>x y. 0xFF000001 :: u32"
  have "answers_root (root_server True ?p) True (\<lambda>_. ?p) (fb_width (fb_new 2 2)) (fb_height (fb_new 2 2))"
    by (rule root_server_answers) (simp_all add: fb_new_def)
  moreover have "capture_ok (fb_width (fb_new 2 2)) (capture_new True 2 2)"
    using capture_new_ok [of 2 2 True] by (simp add: fb_new_def)
  moreover have "\<forall>r \<in> set [rect_new 0 0 1 2]. rect_wf r" by (simp add: rect_wf_def)
  moreover have "fb_wf (fb_new 2 2)" by (simp add: fb_new_wf)
  ultimately obtain cap' fb' where c: "capture_many (root_server True ?p) (\<lambda>_. 3) True (capture_new True 2 2)
      (fb_new 2 2) [rect_new 0 0 1 2] = Some (cap', fb', None)"
    and q: "\<And>x y. x < fb_width (fb_new 2 2) \<and> y < fb_height (fb_new 2 2) \<longrightarrow>
      px fb' x y = (if \<exists>r \<in> set [rect_new 0 0 1 2]. inside r x y then ?p x y AND rgb_mask else px (fb_new 2 2) x y)"
    using capture_exact [of "fb_new 2 2" "[rect_new 0 0 1 2]" "capture_new True 2 2" "root_server True ?p" True ?p "\<lambda>_. 3"]
    by blast
  have "px fb' 0 1 = 1" using q [of 0 1] by (simp add: fb_new_def inside_def rgb_mask_def)
  moreover have "px fb' 1 1 = 0" using q [of 1 1] px_new [of 1 2 1 2] by (simp add: fb_new_def inside_def)
  ultimately show ?thesis using c by blast
qed


section \<open>Any server at all\<close>

text \<open>
  Whatever the server answers, a capture ends without a panic, and every pixel it stores is a colour:
  the top byte is clear.
\<close>

lemma length_pixels_of: "length (pixels_of msb bs) = length bs div 4"
  by (induction msb bs rule: pixels_of.induct) auto

lemma of_le_top_clear: "of_le [a, b, c, 0 :: u8] AND rgb_mask = (of_le [a, b, c, 0] :: u32)"
proof -
  have m: "(rgb_mask :: u32) = mask 24" by (simp add: rgb_mask_def mask_eq_exp_minus_1)
  have long: "8 \<le> n \<Longrightarrow> \<not> bit (w :: u8) n" for w n using bit_imp_le_length [of w n] by auto
  show ?thesis unfolding m
  proof (rule bit_word_eqI)
    fix n assume "n < LENGTH(32)"
    show "bit ((of_le [a, b, c, 0 :: u8] :: u32) AND mask 24) n = bit (of_le [a, b, c, 0 :: u8] :: u32) n"
    proof (cases "n < 24")
      case True
      then show ?thesis by (simp add: bit_simps)
    next
      case False
      then show ?thesis using long [of n a] long [of "n - 8" b] long [of "n - 16" c] by (simp add: bit_simps)
    qed
  qed
qed

lemma pixels_of_colours: "v \<in> set (pixels_of msb bs) \<Longrightarrow> v AND rgb_mask = v"
proof (induction msb bs rule: pixels_of.induct)
  case (1 msb a b c d bs)
  then show ?case
    using of_le_top_clear [of d c b] of_le_top_clear [of a b c] by (auto simp del: of_le.simps split: if_splits)
qed auto

definition colours :: "framebuffer \<Rightarrow> bool" where
  "colours fb \<longleftrightarrow> fb_wf fb \<and> (\<forall>x y. x < fb_width fb \<longrightarrow> y < fb_height fb \<longrightarrow> px fb x y AND rgb_mask = px fb x y)"

lemma copy_pixels_total:
  assumes "colours fb" "rect_fits (fb_width fb) (fb_height fb) r" "length bs = area r * 4"
  obtains fb' where "copy_pixels fb r bs msb = Some fb'" "colours fb'" "same_size fb' fb"
proof -
  have r: "\<not> rect_is_empty r" "rx r + rwidth r \<le> fb_width fb" "ry r + rheight r \<le> fb_height fb"
    using assms(2) by (simp_all add: rect_fits_def)
  have wf: "fb_wf fb" "rect_wf r" using assms(1) r by (auto simp: colours_def fb_wf_def rect_wf_def)
  let ?row = "\<lambda>y. pixels_of msb (take (rwidth r * 4) (drop ((y - ry r) * rwidth r * 4) bs))"
  let ?f = "\<lambda>y. if ry r \<le> y then ?row y else replicate (rwidth r) 0"
  have fits: "(y - ry r + 1) * rwidth r * 4 \<le> length bs" if "y < ry r + rheight r" "ry r \<le> y" for y
  proof -
    have "(y - ry r + 1) * rwidth r \<le> rheight r * rwidth r" using that by (intro mult_le_mono1) auto
    then show ?thesis using assms(3) by (simp add: area_def mult.commute)
  qed
  have len: "length (?f y) = rwidth r" if "y < ry r + rheight r" for y
    using fits [OF that] by (auto simp: length_pixels_of algebra_simps)
  obtain fb' where fb': "ofold (\<lambda>y fb. fb_row_write fb y (rx r) (rwidth r) (?f y))
      [ry r..<ry r + rheight r] fb = Some fb' \<and> fb_wf fb' \<and> same_size fb' fb \<and>
     (\<forall>x' y'. x' < fb_width fb \<longrightarrow> px fb' x' y' =
       (if ry r \<le> y' \<and> y' < ry r + rheight r \<and> rx r \<le> x' \<and> x' < rx r + rwidth r
        then ?f y' ! (x' - rx r) else px fb x' y'))"
    using rows_write [OF wf(1) r(2,3), where f = ?f and a = "ry r"] len by blast
  have cong: "ofold f xs s = ofold g xs s" if "\<And>x s. x \<in> set xs \<Longrightarrow> f x s = g x s"
    for f g :: "nat \<Rightarrow> framebuffer \<Rightarrow> framebuffer option" and xs s
    using that by (induction xs arbitrary: s) (auto intro: Option.bind_cong)
  have "copy_pixels fb r bs msb = ofold (\<lambda>y fb. fb_row_write fb y (rx r) (rwidth r) (?f y))
      [ry r..<ry r + rheight r] fb"
    unfolding copy_pixels_def bottom_wf [OF wf(2)]
    by (rule cong) (use fits in \<open>auto simp: Let_def\<close>)
  with fb' have "copy_pixels fb r bs msb = Some fb'" by simp
  moreover have "px fb' x y AND rgb_mask = px fb' x y" if x: "x < fb_width fb" "y < fb_height fb" for x y
  proof (cases "ry r \<le> y \<and> y < ry r + rheight r \<and> rx r \<le> x \<and> x < rx r + rwidth r")
    case True
    then have "px fb' x y \<in> set (?row y)"
      using fb' x len [of y] by (auto intro!: nth_mem)
    then show ?thesis by (rule pixels_of_colours)
  next
    case False
    then have "px fb' x y = px fb x y" using fb' x by auto
    then show ?thesis using assms(1) x by (simp add: colours_def)
  qed
  ultimately show ?thesis using fb' that by (auto simp: colours_def same_size_def)
qed

lemma read_replies_total:
  assumes "cap < 2 ^ 64" "length seg = cap"
    and "\<forall>q \<in> set waiting. rect_fits w h (slot_rect (snd q)) \<and> slot_end (snd q) \<le> cap"
    and "colours fb" "fb_width fb = w" "fb_height fb = h"
  shows "\<exists>fb' seg' e. read_replies srv ahead msb waiting todo seg fb = Some (fb', seg', e) \<and> length seg' = cap \<and>
    colours fb' \<and> same_size fb' fb"
  using assms
proof (induction waiting arbitrary: todo seg fb)
  case (Cons q rest)
  obtain n s where q: "q = (n, s)" by fastforce
  let ?seg = "fold (serve srv) (take (length todo - length rest + ahead n) todo) seg"
  have fit: "rect_fits (fb_width fb) (fb_height fb) (slot_rect s)" and bb: "band_bytes (slot_rect s) = area (slot_rect s) * 4"
    and e: "slot_end s \<le> cap"
    using Cons.prems by (auto simp: q rect_fits_def)
  show ?case
  proof (cases "srv n (x_request (slot_rect s))")
    case (Answered sz bs)
    show ?thesis
    proof (cases "sz = band_bytes (slot_rect s)")
      case True
      have b: "bytes_at ?seg (slot_offset s) (band_bytes (slot_rect s)) =
          Some (take (band_bytes (slot_rect s)) (drop (slot_offset s) ?seg))"
        using e Cons.prems(1,2) by (simp add: bytes_at_def sat_add_def slot_end_def)
      have len: "length (take (band_bytes (slot_rect s)) (drop (slot_offset s) ?seg)) = area (slot_rect s) * 4"
        using e bb Cons.prems(2) by (simp add: slot_end_def)
      obtain fb1 where c: "copy_pixels fb (slot_rect s) (take (band_bytes (slot_rect s)) (drop (slot_offset s) ?seg)) msb = Some fb1"
        "colours fb1" "same_size fb1 fb"
        by (rule copy_pixels_total [OF Cons.prems(4) fit len])
      have "\<exists>fb' seg' e. read_replies srv ahead msb rest (drop (length todo - length rest + ahead n) todo) ?seg fb1 =
          Some (fb', seg', e) \<and> length seg' = cap \<and> colours fb' \<and> same_size fb' fb1"
        using Cons.prems c(2,3) by (intro Cons.IH) (auto simp: same_size_def)
      then show ?thesis using Answered True b c(1,3) by (auto simp: q Let_def same_size_def)
    qed (use Answered Cons.prems in \<open>simp add: q Let_def\<close>)
  qed (use Cons.prems in \<open>simp_all add: q Let_def\<close>)
qed simp

lemma run_batches_total:
  assumes "cap < 2 ^ 64" "length seg = cap" "\<forall>b \<in> set batches. batch_ok cap b"
    and "\<forall>s \<in> set (concat batches). rect_fits w h (slot_rect s)"
    and "colours fb" "fb_width fb = w" "fb_height fb = h"
  shows "\<exists>fb' seg' e. run_batches srv ahead msb batches n seg fb = Some (fb', seg', e) \<and> length seg' = cap \<and>
    colours fb' \<and> same_size fb' fb"
  using assms
proof (induction batches arbitrary: n seg fb)
  case (Cons b bs)
  let ?reqs = "zip [n..<n + length b] b"
  show ?case
  proof (cases "list_ex (unsent srv) ?reqs")
    case True
    then show ?thesis using Cons.prems by (simp add: Let_def)
  next
    case False
    have "\<forall>q \<in> set ?reqs. rect_fits w h (slot_rect (snd q)) \<and> slot_end (snd q) \<le> cap"
      using Cons.prems(3,4) packed_member by (fastforce simp: batch_ok_def slot_end_def dest: set_zip_rightD)
    from read_replies_total [OF Cons.prems(1,2) this Cons.prems(5-7), of srv ahead msb ?reqs]
    obtain fb1 seg1 e where 1: "read_replies srv ahead msb ?reqs ?reqs seg fb = Some (fb1, seg1, e)"
      "length seg1 = cap" "colours fb1" "same_size fb1 fb" by blast
    have "\<exists>fb' seg' e. run_batches srv ahead msb bs (n + length b) seg1 fb1 = Some (fb', seg', e) \<and> length seg' = cap \<and>
        colours fb' \<and> same_size fb' fb1"
      using Cons.prems 1 by (intro Cons.IH) (auto simp: same_size_def)
    then show ?thesis using False 1 by (cases e) (auto simp: Let_def same_size_def)
  qed
qed simp

lemma capture_serial_total:
  assumes "\<forall>r \<in> set bands. rect_fits (fb_width fb) (fb_height fb) r" "colours fb"
  shows "\<exists>fb' e. capture_serial srv msb n fb bands = Some (fb', e) \<and> colours fb' \<and> same_size fb' fb"
  using assms
proof (induction bands arbitrary: n fb)
  case (Cons r rs)
  have bb: "band_bytes r = area r * 4" using Cons.prems by (auto simp: rect_fits_def)
  show ?case
  proof (cases "srv n (x_request r)")
    case (Answered sz bs)
    show ?thesis
    proof (cases "length bs < band_bytes r")
      case False
      then have len: "length (take (band_bytes r) bs) = area r * 4" using bb by simp
      obtain fb1 where c: "copy_pixels fb r (take (band_bytes r) bs) msb = Some fb1" "colours fb1" "same_size fb1 fb"
        by (rule copy_pixels_total [OF Cons.prems(2) _ len]) (use Cons.prems(1) in auto)
      have "\<exists>fb' e. capture_serial srv msb (n + 1) fb1 rs = Some (fb', e) \<and> colours fb' \<and> same_size fb' fb1"
        using Cons.prems(1) c(2,3) by (intro Cons.IH) (auto simp: same_size_def)
      then show ?thesis using Answered False c by (auto simp: Let_def same_size_def)
    qed (use Answered Cons.prems in simp)
  qed (use Cons.prems in simp_all)
qed simp

lemma capture_many_total:
  assumes "colours fb" "\<forall>r \<in> set rects. rect_wf r" "capture_ok (fb_width fb) cap"
  shows "\<exists>cap' fb' e. capture_many srv ahead msb cap fb rects = Some (cap', fb', e) \<and> colours fb' \<and>
    same_size fb' fb \<and> capture_ok (fb_width fb) cap' \<and> sc_shm_pixels cap' = sc_shm_pixels cap"
proof -
  let ?c = "sc_shm_pixels cap"
  let ?bands = "capture_bands fb ?c rects"
  have wf: "fb_wf fb" using assms(1) by (simp add: colours_def)
  have c: "fb_width fb \<le> ?c" "?c < 2 ^ 30" using assms(3) by (simp_all add: capture_ok_def)
  have bb: "band_bytes b \<le> ?c * 4 \<and> rect_fits (fb_width fb) (fb_height fb) b" if "b \<in> set ?bands" for b
    using capture_bands_ok [OF wf assms(2) c(1) that] c(2)
    by (auto simp: band_ok_def rect_fits_def band_bytes_def sat_mul64_def area_def)
  show ?thesis
  proof (cases "?bands = []")
    case True
    then show ?thesis using assms(1,3) by (simp add: capture_many_def Let_def)
  next
    case ne: False
    show ?thesis
    proof (cases "sc_shm cap")
      case None
      obtain fb' e where "capture_serial srv msb 0 fb ?bands = Some (fb', e)" "colours fb'" "same_size fb' fb"
        using capture_serial_total [OF _ assms(1), of ?bands srv msb 0] bb by blast
      then show ?thesis using ne None assms(3) by (auto simp: capture_many_def Let_def)
    next
      case (Some seg)
      then have len: "length seg = ?c * 4" using assms(3) by (simp add: capture_ok_def)
      have lt: "length seg < 2 ^ 62" "length seg < 2 ^ 64" using len c(2) by simp_all
      have "\<forall>b \<in> set ?bands. \<not> rect_is_empty b \<and> band_bytes b \<le> length seg"
        unfolding len using bb unfolding rect_fits_def by blast
      note plan = plan_batches_ok [OF this lt(1)]
      have "rect_fits (fb_width fb) (fb_height fb) (slot_rect s)"
        if "s \<in> set (concat (plan_batches ?bands (length seg)))" for s
        using bb that plan by (metis imageI set_map)
      then have "\<forall>s \<in> set (concat (plan_batches ?bands (length seg))). rect_fits (fb_width fb) (fb_height fb) (slot_rect s)"
        by blast
      then obtain fb' seg' e where run: "run_batches srv ahead msb (plan_batches ?bands (length seg)) 0 seg fb = Some (fb', seg', e)"
        "length seg' = length seg" "colours fb'" "same_size fb' fb"
        using run_batches_total [OF lt(2) refl _ _ assms(1) refl refl, of "plan_batches ?bands (length seg)" srv ahead msb 0] plan
        by blast
      have "\<exists>fb' seg' e. capture_shm srv ahead msb seg fb ?bands = Some (fb', seg', e) \<and> length seg' = length seg \<and>
          colours fb' \<and> same_size fb' fb"
        using run assms(1) by (auto simp: capture_shm_def)
      then obtain fb' seg' e where shm: "capture_shm srv ahead msb seg fb ?bands = Some (fb', seg', e)"
        "length seg' = length seg" "colours fb'" "same_size fb' fb" by blast
      have "capture_many srv ahead msb cap fb rects = Some (cap\<lparr>sc_shm := Some seg'\<rparr>, fb', e)"
        using ne Some by (simp add: capture_many_def Let_def shm(1))
      moreover have "capture_ok (fb_width fb) (cap\<lparr>sc_shm := Some seg'\<rparr>)"
        using assms(3) shm(2) len by (simp add: capture_ok_def)
      ultimately show ?thesis using shm(3,4) by simp
    qed
  qed
qed

text \<open>
  Whatever the X server answers (errors, images of the wrong size, short data, garbage), however
  far it runs ahead, a capture does not panic: it ends with a framebuffer of the same size that holds
  colours only, and a segment ready for the next capture.
\<close>

theorem capture_survives_any_server:
  assumes "colours fb" "\<forall>r \<in> set rects. rect_wf r" "capture_ok (fb_width fb) cap"
  shows "\<exists>cap' fb' e. capture_many srv ahead msb cap fb rects = Some (cap', fb', e) \<and> colours fb' \<and>
    same_size fb' fb \<and> capture_ok (fb_width fb) cap' \<and> sc_shm_pixels cap' = sc_shm_pixels cap"
  by (rule capture_many_total [OF assms])

theorem capture_survives_any_server_witness:
  "\<exists>cap' fb' e. capture_many (\<lambda>n req. Answered 7 [1]) (\<lambda>_. 0) False (capture_new True 2 2) (fb_new 2 2)
     [rect_new 0 0 9 9] = Some (cap', fb', e) \<and> colours fb'"
proof -
  have "colours (fb_new 2 2)" by (simp add: colours_def fb_new_wf) (simp add: fb_new_def px_def less_2_cases_iff)
  moreover have "capture_ok (fb_width (fb_new 2 2)) (capture_new True 2 2)"
    using capture_new_ok [of 2 2 True] by (simp add: fb_new_def)
  moreover have "\<forall>r \<in> set [rect_new 0 0 9 9]. rect_wf r" by (simp add: rect_wf_def)
  ultimately show ?thesis
    using capture_survives_any_server [of "fb_new 2 2" "[rect_new 0 0 9 9]" "capture_new True 2 2"] by blast
qed

end
