(* ===== verification/Session_Core.thy ===== *)
theory Session_Core
  imports Transfer_Policies Flow_Control Damage Capture
begin

text \<open>
  \<open>crates/server/src/session/engine.rs\<close>: the state of the session core, the client it serves and
  the frames it sends. What other threads and the X server answer during one handler is a record
  \<open>world\<close>: the time, the root size, the damage, the screen, the pointer. The queue of the client's
  writer thread holds messages, each standing for the buffer it is framed into. A function that can
  panic returns an option; one that returns \<open>Result\<close> also returns the error, if any, with the state
  it leaves. Calls into the input injector, the clipboard and the like are recorded in order.
\<close>

section \<open>Constants\<close>

definition LOCAL_CURSOR :: u32 where "LOCAL_CURSOR = 1"
definition CLIPBOARD :: u32 where "CLIPBOARD = 2"
definition RESIZE :: u32 where "RESIZE = 4"
definition CLIPBOARD_IMAGE :: u32 where "CLIPBOARD_IMAGE = 8"
definition FILE_TRANSFER :: u32 where "FILE_TRANSFER = 16"
definition CLIPBOARD_FILES :: u32 where "CLIPBOARD_FILES = 32"
definition ATOMIC_FILES :: u32 where "ATOMIC_FILES = 64"
definition TARGETED_DROPS :: u32 where "TARGETED_DROPS = 128"

definition FORMAT_TEXT :: u32 where "FORMAT_TEXT = 1"
definition FORMAT_PNG :: u32 where "FORMAT_PNG = 2"
definition FORMAT_FILES :: u32 where "FORMAT_FILES = 4"

definition REJECT_VERSION :: u16 where "REJECT_VERSION = 1"

text \<open>Durations are in nanoseconds.\<close>

definition HANDSHAKE_TIMEOUT :: nat where "HANDSHAKE_TIMEOUT = 10 * 1000000000"
definition PING_INTERVAL :: nat where "PING_INTERVAL = 2 * 1000000000"
definition PONG_TIMEOUT :: nat where "PONG_TIMEOUT = 30 * 1000000000"
definition WRITE_QUEUE :: nat where "WRITE_QUEUE = 256"
definition STALE_CAPTURE_LIMIT :: nat where "STALE_CAPTURE_LIMIT = 3"

definition SUPPORTED_FEATURES :: u32 where
  "SUPPORTED_FEATURES = LOCAL_CURSOR OR CLIPBOARD OR RESIZE OR CLIPBOARD_IMAGE OR FILE_TRANSFER OR
     CLIPBOARD_FILES OR ATOMIC_FILES OR TARGETED_DROPS"

text \<open>\<open>features & f != 0\<close>.\<close>

definition has_feature :: "u32 \<Rightarrow> u32 \<Rightarrow> bool" where "has_feature fs f \<longleftrightarrow> fs AND f \<noteq> 0"

section \<open>State\<close>

record client =
  cl_generation :: u64
  cl_queue :: "message list"
  cl_writer_gone :: bool
  cl_connected_at :: nat
  cl_ready :: bool
  cl_features :: u32
  cl_in_flight :: "(u64 \<times> nat) list"
  cl_rtt :: rtt_window
  cl_window :: nat
  cl_next_frame_id :: u64
  cl_last_frame_at :: "nat option"
  cl_full_refresh :: bool
  cl_last_ping_at :: nat
  cl_last_pong_at :: nat
  cl_ping_nonce :: u64
  cl_last_client_pointer :: "i16 \<times> i16"
  cl_last_sent_pointer :: "(i16 \<times> i16) option"
  cl_dead :: bool
  cl_bytes_sent :: u64
  cl_frames_sent :: u64

record clipboard_echo =
  echo_sent :: "string option"
  echo_received :: "string option"

record options =
  op_max_in_flight :: nat
  op_max_in_flight_auto :: bool
  op_max_width :: nat
  op_max_height :: nat
  op_default_width :: nat
  op_default_height :: nat
  op_username :: string
  op_session_id :: u64
  op_exit_on_disconnect :: bool
  op_idle_timeout :: "nat option"
  op_upload_dir :: string

datatype exit_reason =
  DesktopExited string | ClientDisconnected | IdleTimeout | Shutdown string | XError string

text \<open>Calls into the input injector, the session's clipboard, the drops and the waiting pastes.\<close>

datatype x_call =
    Key u32 bool
  | Pointer_Move i16 i16
  | Button u8 bool
  | Wheel i16 i16
  | Release_All
  | Suppress_Auto_Repeat
  | Restore_Auto_Repeat
  | Reassert_Auto_Repeat
  | Set_Text string
  | Set_Image "u8 list"
  | Fetch_Reply u64 "(string \<times> string) option"
  | Request_Format u32
  | Begin_Drop u64 u16 u16 "file_entry list"
  | Fetch_Progress u64 nat
  | Settle_Drop u64 bool
  | Reset_Drops
  | Reload_Keymap

text \<open>
  \<open>co_pending_downloads\<close> maps a transfer to the worker's handle of the file being opened for it.
\<close>

record core =
  co_opts :: options
  co_display_size :: "nat \<times> nat"
  co_capture :: screen_capture
  co_dirty :: bool
  co_has_cursor :: bool
  co_has_clipboard :: bool
  co_has_drops :: bool
  co_last_pointer :: "i16 \<times> i16"
  co_encoder :: encoder
  co_screen :: framebuffer
  co_current_cursor :: "cursor_image option"
  co_client :: "client option"
  co_next_generation :: u64
  co_min_frame_interval :: nat
  co_last_client_seen :: nat
  co_echo :: clipboard_echo
  co_transfers :: manager
  co_client_formats :: u32
  co_staging_downloads :: "(u64, string \<times> string) hmap"
  co_waiting_fetches :: "u64 list"
  co_has_batch :: bool
  co_upload_options :: "(u64 \<times> bool) option"
  co_pending_downloads :: "(u64, u64) hmap"
  co_served :: "nat \<times> nat"
  co_capture_max :: "nat \<times> nat"
  co_stale_captures :: nat
  co_calls :: "x_call list"

text \<open>
  What the surroundings answer during one handler. \<open>wo_damage\<close>, \<open>wo_pointer\<close> and \<open>wo_cursor\<close> are
  \<open>None\<close> when the request fails; \<open>wo_size\<close> is the root's geometry and \<open>wo_resize\<close> whether a
  resize succeeds and the size last read from the server when it returns; \<open>wo_error\<close> is the text of
  the error of whatever fails. \<open>wo_create\<close> and \<open>wo_reader\<close> are the worker's files, \<open>wo_drops\<close> the
  drops in progress, \<open>wo_fetches\<close> the reads of pasted files that wait (remote path, directory and
  name of the copy), \<open>wo_abandoned\<close> the reads given up, \<open>wo_order\<close> the iteration order of a hash
  map, \<open>wo_expired\<close> the files that took too long to open.
\<close>

record world =
  wo_now :: nat
  wo_error :: string
  wo_size :: "(nat \<times> nat) option"
  wo_resize :: "nat \<Rightarrow> nat \<Rightarrow> bool \<times> nat \<times> nat"
  wo_damage :: "(i16 \<times> i16 \<times> u16 \<times> u16) list option"
  wo_server :: x_server
  wo_ahead :: "nat \<Rightarrow> nat"
  wo_msb_first :: bool
  wo_pointer :: "(i16 \<times> i16) option"
  wo_cursor :: "cursor_image option option"
  wo_input_fails :: bool
  wo_hash_order :: "(int \<times> nat) list \<Rightarrow> (int \<times> nat) list"
  wo_compressors :: compressors
  wo_seed :: u64
  wo_create :: "string \<Rightarrow> string \<Rightarrow> bool \<Rightarrow> io_fail option list"
  wo_quote :: "string \<Rightarrow> string"
  wo_drop_staging :: "(u64, string \<times> string) hmap"
  wo_drops :: "manager \<Rightarrow> message list \<times> manager"
  wo_drop_begins :: "string option"
  wo_order :: "u64 list \<Rightarrow> u64 list"
  wo_abandoned :: "u64 \<Rightarrow> bool"
  wo_fetches :: "(string \<times> string \<times> string) list"
  wo_staging_error :: "string option"
  wo_reader :: source
  wo_handle :: u64
  wo_expired :: "u64 \<Rightarrow> bool"
  wo_file_name :: "string \<Rightarrow> string option"
  wo_stat :: "string \<Rightarrow> u64 option"

section \<open>Sending\<close>

text \<open>\<open>Client::send\<close>.\<close>

definition client_send :: "message \<Rightarrow> client \<Rightarrow> bool \<times> client" where
  "client_send msg c =
     (if cl_dead c then (False, c)
      else let len = length (frame_message msg []) - HEADER_LEN
           in if MAX_MESSAGE_SIZE < len then (False, c\<lparr>cl_dead := True\<rparr>)
              else if cl_writer_gone c \<or> WRITE_QUEUE \<le> length (cl_queue c) then (False, c\<lparr>cl_dead := True\<rparr>)
              else (True, c\<lparr>cl_queue := cl_queue c @ [msg],
                            cl_bytes_sent := cl_bytes_sent c + of_nat (len + HEADER_LEN)\<rparr>))"

definition with_client :: "(client \<Rightarrow> client) \<Rightarrow> core \<Rightarrow> core" where
  "with_client f co = co\<lparr>co_client := map_option f (co_client co)\<rparr>"

primrec send_all :: "message list \<Rightarrow> client \<Rightarrow> client" where
  "send_all [] c = c"
| "send_all (m # ms) c = (case client_send m c of (ok, c) \<Rightarrow> if ok then send_all ms c else c)"

definition send_to_client :: "message list \<Rightarrow> core \<Rightarrow> core" where
  "send_to_client msgs co = with_client (send_all msgs) co"

definition call :: "x_call \<Rightarrow> core \<Rightarrow> core" where
  "call x co = co\<lparr>co_calls := co_calls co @ [x]\<rparr>"

section \<open>Screen size\<close>

definition force_full_refresh :: "core \<Rightarrow> core option" where
  "force_full_refresh co = do {
     encoder \<leftarrow> encoder_invalidate (rect_new 0 0 (fst (co_served co)) (snd (co_served co))) (co_encoder co);
     Some (with_client (\<lambda>c. c\<lparr>cl_full_refresh := True\<rparr>) (co\<lparr>co_encoder := encoder, co_dirty := True\<rparr>)) }"

text \<open>\<open>clamp\<close> panics when its bounds cross.\<close>

definition adopt_size :: "nat \<Rightarrow> nat \<Rightarrow> core \<Rightarrow> core option" where
  "adopt_size width height co =
     (if fst (co_capture_max co) < 1 \<or> snd (co_capture_max co) < 1 then None
      else let w = clamp 1 (fst (co_capture_max co)) width; h = clamp 1 (snd (co_capture_max co)) height
           in if (w, h) = co_served co then Some co
              else do {
                co \<leftarrow> force_full_refresh (co\<lparr>co_served := (w, h), co_screen := fb_new w h,
                         co_encoder := encoder_resize w h (co_encoder co)\<rparr>);
                Some (with_client (\<lambda>c. if cl_ready c then snd (client_send (ScreenResized (of_nat w) (of_nat h)) c) else c) co) })"

text \<open>\<open>XDisplay::refresh_size\<close> remembers the size it reads; then the core adopts it.\<close>

definition reread_size :: "world \<Rightarrow> core \<Rightarrow> core option" where
  "reread_size wo co =
     (case wo_size wo of
        None \<Rightarrow> Some co
      | Some (w, h) \<Rightarrow> adopt_size w h (co\<lparr>co_display_size := (w, h)\<rparr>))"

text \<open>\<open>resize_screen\<close> is asked for the clamped size; the core adopts what the server settled on.\<close>

definition apply_resize :: "world \<Rightarrow> nat \<Rightarrow> nat \<Rightarrow> core \<Rightarrow> core option" where
  "apply_resize wo width height co =
     (let width = clamp_dimension width (op_max_width (co_opts co));
          height = clamp_dimension height (op_max_height (co_opts co));
          (ok, w, h) = wo_resize wo width height;
          co = co\<lparr>co_display_size := (w, h)\<rparr>
      in if ok then adopt_size w h co else Some co)"

definition on_resize_request :: "world \<Rightarrow> nat \<Rightarrow> nat \<Rightarrow> core \<Rightarrow> core option" where
  "on_resize_request wo width height co =
     (case co_client co of
        None \<Rightarrow> Some co
      | Some c \<Rightarrow>
          if \<not> has_feature (cl_features c) RESIZE \<or> width = 0 \<or> height = 0 \<or> (width, height) = co_display_size co
          then Some co
          else apply_resize wo width height co)"

section \<open>Frames\<close>

definition sync_pointer :: "world \<Rightarrow> core \<Rightarrow> core \<times> string option" where
  "sync_pointer wo co =
     (case co_client co of
        None \<Rightarrow> (co, None)
      | Some c \<Rightarrow>
          if \<not> cl_ready c then (co, None)
          else (case wo_pointer wo of
                  None \<Rightarrow> (co, Some (wo_error wo))
                | Some pos \<Rightarrow>
                    if pos \<noteq> cl_last_client_pointer c \<and> cl_last_sent_pointer c \<noteq> Some pos
                    then (co\<lparr>co_client := Some (snd (client_send
                            (CursorPosition (of_nat (nat (max (sint (fst pos)) 0))) (of_nat (nat (max (sint (snd pos)) 0))))
                            (c\<lparr>cl_last_sent_pointer := Some pos\<rparr>)))\<rparr>, None)
                    else (co, None)))"

text \<open>The loop over the parts of a frame; \<open>False\<close> when one could not be sent.\<close>

primrec send_parts :: "nat \<Rightarrow> (copy_rect list \<times> tile_update list) list \<Rightarrow> client \<Rightarrow> bool \<times> client" where
  "send_parts now [] c = (True, c)"
| "send_parts now (p # ps) c =
     (let fid = cl_next_frame_id c
      in case client_send (ScreenUpdate fid (fst p) (snd p)) (c\<lparr>cl_next_frame_id := fid + 1\<rparr>) of
           (ok, c) \<Rightarrow>
             if ok then send_parts now ps (c\<lparr>cl_in_flight := cl_in_flight c @ [(fid, now)],
                                             cl_frames_sent := cl_frames_sent c + 1\<rparr>)
             else (False, c))"

text \<open>The rectangles a frame captures, or \<open>None\<close> when merging them panics.\<close>

definition frame_rects :: "bool \<Rightarrow> rect \<Rightarrow> (i16 \<times> i16 \<times> u16 \<times> u16) list \<Rightarrow> rect list option" where
  "frame_rects full bounds raw =
     (if full then Some [bounds]
      else do { merged \<leftarrow> coalesce (damage_rects raw) TILE_SIZE bounds;
                Some (if MAX_CAPTURE_RECTS < length merged \<or> area bounds < (total_area merged * 2) mod 2 ^ 64
                      then [bounds] else merged) })"

text \<open>Sending an encoded frame to the client and telling it where the pointer is.\<close>

definition deliver_frame :: "world \<Rightarrow> frame_update \<Rightarrow> core \<Rightarrow> core \<times> string option" where
  "deliver_frame wo f co =
     (case co_client co of
        None \<Rightarrow> (co, None)
      | Some c \<Rightarrow>
          let c = c\<lparr>cl_full_refresh := False\<rparr>
          in if fu_copies f = [] \<and> fu_tiles f = [] then (co\<lparr>co_client := Some c\<rparr>, None)
             else (case send_parts (wo_now wo) (split_frame (fu_copies f) (fu_tiles f)) c of
                     (False, c) \<Rightarrow> (co\<lparr>co_client := Some c\<rparr>, None)
                   | (True, c) \<Rightarrow>
                       sync_pointer wo (co\<lparr>co_client := Some (c\<lparr>cl_last_frame_at := Some (wo_now wo)\<rparr>)\<rparr>)))"

definition send_frame :: "world \<Rightarrow> core \<Rightarrow> (core \<times> string option) option" where
  "send_frame wo co =
     (let (w, h) = co_served co; bounds = rect_new 0 0 w h;
          full = (case co_client co of None \<Rightarrow> False | Some c \<Rightarrow> cl_full_refresh c);
          co = co\<lparr>co_dirty := False\<rparr>
      in case wo_damage wo of
           None \<Rightarrow> Some (co, Some (wo_error wo))
         | Some raw \<Rightarrow> do {
             rects \<leftarrow> frame_rects full bounds raw;
             let screen = (if fb_width (co_screen co) \<noteq> w \<or> fb_height (co_screen co) \<noteq> h then fb_new w h else co_screen co);
             (cap, screen, err) \<leftarrow>
               capture_many (wo_server wo) (wo_ahead wo) (wo_msb_first wo) (co_capture co) screen rects;
             let co = co\<lparr>co_capture := cap, co_screen := screen\<rparr>;
             (case err of
                Some e \<Rightarrow>
                  if \<not> is_geometry_error e \<or> STALE_CAPTURE_LIMIT \<le> co_stale_captures co
                  then Some (co, Some (wo_error wo))
                  else do { co \<leftarrow> reread_size wo (co\<lparr>co_stale_captures := co_stale_captures co + 1\<rparr>);
                            co \<leftarrow> force_full_refresh co;
                            Some (co, None) }
              | None \<Rightarrow> do {
                  (encoder, f) \<leftarrow> encode_frame (wo_hash_order wo) (wo_compressors wo) (wo_seed wo) screen rects (\<not> full)
                                    (co_encoder co);
                  Some (deliver_frame wo f (co\<lparr>co_stale_captures := 0, co_encoder := encoder\<rparr>)) }) })"

definition pump_frames :: "world \<Rightarrow> core \<Rightarrow> (core \<times> string option) option" where
  "pump_frames wo co =
     (case co_client co of
        None \<Rightarrow> Some (co, None)
      | Some c \<Rightarrow>
          if \<not> cl_ready c \<or> cl_window c \<le> length (cl_in_flight c) then Some (co, None)
          else if \<not> (co_dirty co \<or> cl_full_refresh c) then Some (co, None)
          else if (case cl_last_frame_at c of None \<Rightarrow> False | Some at \<Rightarrow> wo_now wo - at < co_min_frame_interval co)
               then Some (co, None)
          else send_frame wo co)"

definition next_frame_delay :: "world \<Rightarrow> core \<Rightarrow> nat option" where
  "next_frame_delay wo co = do {
     c \<leftarrow> co_client co;
     if \<not> cl_ready c \<or> cl_window c \<le> length (cl_in_flight c) then None
     else if \<not> (co_dirty co \<or> cl_full_refresh c) then None
     else do { at \<leftarrow> cl_last_frame_at c; Some (at + co_min_frame_interval co - wo_now wo) } }"

text \<open>A frame acknowledgement.\<close>

definition on_frame_ack :: "world \<Rightarrow> u64 \<Rightarrow> options \<Rightarrow> nat \<Rightarrow> client \<Rightarrow> client" where
  "on_frame_ack wo fid opts interval c =
     (case List.extract (\<lambda>(i, _). i = fid) (cl_in_flight c) of
        None \<Rightarrow> c
      | Some (_, (_, sent_at), rest) \<Rightarrow>
          let sample = wo_now wo - sent_at;
              (base, rtt) = rtt_record (wo_now wo) sample (cl_rtt c);
              c = c\<lparr>cl_in_flight := rest, cl_rtt := rtt\<rparr>
          in if op_max_in_flight_auto opts
             then c\<lparr>cl_window := adapt_in_flight (cl_window c) (op_max_in_flight opts) base sample interval\<rparr>
             else c)"

end
