(* ===== verification/Session_Engine.thy ===== *)
theory Session_Engine
  imports Session_Core
begin

text \<open>
  \<open>crates/server/src/session/engine.rs\<close>, continued: what the session core does with the messages of
  its client, with the clipboard, with transfers, with connections coming and going, and the loop
  that drives it.
\<close>

section \<open>The clipboard\<close>

definition session_copied :: "string \<Rightarrow> clipboard_echo \<Rightarrow> bool \<times> clipboard_echo" where
  "session_copied text ec =
     (if echo_received ec = Some text then (False, ec)
      else (True, ec\<lparr>echo_sent := Some text, echo_received := None\<rparr>))"

definition client_copied :: "string \<Rightarrow> clipboard_echo \<Rightarrow> bool \<times> clipboard_echo" where
  "client_copied text ec =
     (if echo_sent ec = Some text then (False, ec)
      else (True, ec\<lparr>echo_received := Some text, echo_sent := None\<rparr>))"

definition session_changed :: "clipboard_echo \<Rightarrow> clipboard_echo" where
  "session_changed ec = ec\<lparr>echo_sent := None\<rparr>"

definition client_changed :: "clipboard_echo \<Rightarrow> clipboard_echo" where
  "client_changed ec = ec\<lparr>echo_received := None\<rparr>"

definition echo_default :: clipboard_echo where
  "echo_default = \<lparr>echo_sent = None, echo_received = None\<rparr>"

definition unavailable_notice :: "u32 \<Rightarrow> string" where
  "unavailable_notice format =
     ''The '' @ (if format = FORMAT_PNG then ''image'' else if format = FORMAT_FILES then ''files''
                else if format = FORMAT_TEXT then ''text'' else ''content'') @
     '' copied in the remote session could not be transferred to your clipboard.''"

definition client_clipboard_formats :: "core \<Rightarrow> u32" where
  "client_clipboard_formats co =
     (case co_client co of
        None \<Rightarrow> 0
      | Some c \<Rightarrow>
          (if has_feature (cl_features c) CLIPBOARD then FORMAT_TEXT else 0) OR
          (if has_feature (cl_features c) CLIPBOARD_IMAGE then FORMAT_PNG else 0) OR
          (if has_feature (cl_features c) CLIPBOARD_FILES then FORMAT_FILES else 0))"

definition on_session_clipboard :: "string \<Rightarrow> core \<Rightarrow> core" where
  "on_session_clipboard text co =
     (case co_client co of
        None \<Rightarrow> co
      | Some c \<Rightarrow>
          if \<not> (cl_ready c \<and> has_feature (cl_features c) CLIPBOARD) then co
          else (case session_copied text (co_echo co) of
                  (False, _) \<Rightarrow> co
                | (True, ec) \<Rightarrow> send_to_client [ClipboardText text] (co\<lparr>co_echo := ec\<rparr>)))"

datatype clipboard_event =
  Formats u32 | Text_Copied string | Image_Copied "u8 list" | Files_Copied "string list" | Unavailable u32

definition on_clipboard_event :: "world \<Rightarrow> clipboard_event \<Rightarrow> core \<Rightarrow> core" where
  "on_clipboard_event wo ev co =
     (case ev of
        Formats formats \<Rightarrow>
          let co = co\<lparr>co_echo := session_changed (co_echo co)\<rparr>;
              offered = formats AND client_clipboard_formats co
          in if offered \<noteq> 0 then send_to_client [ClipboardOffer offered] co else co
      | Text_Copied text \<Rightarrow> on_session_clipboard text co
      | Image_Copied png \<Rightarrow>
          if client_clipboard_formats co AND FORMAT_PNG = 0 then co
          else (case offer_bytes ClipboardImage ''clipboard.png'' png (co_transfers co) of
                  (offer, tm) \<Rightarrow> send_to_client [offer] (co\<lparr>co_transfers := tm\<rparr>))
      | Files_Copied paths \<Rightarrow>
          if client_clipboard_formats co AND FORMAT_FILES = 0 then co
          else let files = concat (map (\<lambda>p. case wo_stat wo p of
                       None \<Rightarrow> [] | Some sz \<Rightarrow> [\<lparr>fe_path = p, fe_size = sz\<rparr>]) paths)
               in if files = [] then co
                  else (case next_id (co_transfers co) of
                          (i, tm) \<Rightarrow> send_to_client [FileList i files] (co\<lparr>co_transfers := tm\<rparr>))
      | Unavailable format \<Rightarrow>
          if client_clipboard_formats co AND format = 0 then co
          else send_to_client [Notice (unavailable_notice format)] co)"

definition on_clipboard_events :: "world \<Rightarrow> clipboard_event list \<Rightarrow> core \<Rightarrow> core" where
  "on_clipboard_events wo evs co = fold (on_clipboard_event wo) evs co"

section \<open>Files the client copied\<close>

definition cancel_and_tell :: "string \<Rightarrow> u64 \<Rightarrow> core \<Rightarrow> core" where
  "cancel_and_tell reason i co =
     (case cancel i reason (co_transfers co) of
        (None, tm) \<Rightarrow> co\<lparr>co_transfers := tm\<rparr>
      | (Some msg, tm) \<Rightarrow> send_to_client [msg] (co\<lparr>co_transfers := tm\<rparr>))"

definition stage_client_files :: "world \<Rightarrow> file_entry list \<Rightarrow> core \<Rightarrow> core" where
  "stage_client_files wo files co =
     (if \<not> co_has_clipboard co \<or> files = [] then co
      else let co = fold (cancel_and_tell ''clipboard replaced'') (wo_order wo (map fst (co_staging_downloads co))) co;
               co = co\<lparr>co_waiting_fetches := [], co_staging_downloads := [], co_has_batch := False\<rparr>
           in (case wo_staging_error wo of
                 Some e \<Rightarrow> send_to_client [Notice (''Could not offer copied files: '' @ e)] co
               | None \<Rightarrow>
                   send_to_client
                     [Notice (decimal (length files) @
                        '' copied file(s) ready. Paste into a folder in the remote session.'')]
                     (co\<lparr>co_has_batch := True\<rparr>)))"

definition settle_clipboard_file :: "u64 \<Rightarrow> bool \<Rightarrow> core \<Rightarrow> core" where
  "settle_clipboard_file i success co =
     (let co = (if co_has_drops co then call (Settle_Drop i success) co else co);
          path = hm_get (co_staging_downloads co) i;
          co = co\<lparr>co_staging_downloads := hm_remove i (co_staging_downloads co)\<rparr>
      in if i \<in> set (co_waiting_fetches co)
         then call (Fetch_Reply i (if success then path else None))
                (co\<lparr>co_waiting_fetches := removeAll i (co_waiting_fetches co)\<rparr>)
         else co)"

definition abandon_fetch :: "u64 \<Rightarrow> core \<Rightarrow> core" where
  "abandon_fetch i co =
     cancel_and_tell ''the reader stopped waiting'' i
       (co\<lparr>co_waiting_fetches := removeAll i (co_waiting_fetches co),
           co_staging_downloads := hm_remove i (co_staging_downloads co)\<rparr>)"

definition report_staging_progress :: "world \<Rightarrow> core \<Rightarrow> core" where
  "report_staging_progress wo co =
     (let waiting = wo_order wo (co_waiting_fetches co)
      in fold abandon_fetch (filter (wo_abandoned wo) waiting)
           (fold (\<lambda>i co. call (Fetch_Progress i (case progress i (co_transfers co) of None \<Rightarrow> 0 | Some (n, _) \<Rightarrow> n)) co)
              waiting co))"

definition start_fetch :: "string \<times> string \<times> string \<Rightarrow> core \<Rightarrow> core" where
  "start_fetch = (\<lambda>(remote, dir, file) co.
     case next_id (co_transfers co) of
       (i, tm) \<Rightarrow>
         send_to_client [FileRequest i remote]
           (co\<lparr>co_transfers := expect i tm,
               co_staging_downloads := hm_insert i (dir, file) (co_staging_downloads co),
               co_waiting_fetches := i # removeAll i (co_waiting_fetches co)\<rparr>))"

definition pump_clipboard_batch :: "world \<Rightarrow> core \<Rightarrow> core" where
  "pump_clipboard_batch wo co =
     (let co = report_staging_progress wo co
      in if co_has_batch co then fold start_fetch (wo_fetches wo) co else co)"

section \<open>Transfers\<close>

definition on_file_request :: "world \<Rightarrow> u64 \<Rightarrow> string \<Rightarrow> core \<Rightarrow> core" where
  "on_file_request wo i path co =
     (if co_client co = None then co
      else if hm_get (co_pending_downloads co) i \<noteq> None \<or> 64 \<le> length (co_pending_downloads co) \<or>
              i \<in> set (active_ids (co_transfers co)) \<or> 64 \<le> length (active_ids (co_transfers co))
      then send_to_client [TransferEnd i False
             (echo_prefix path @ '': transfer '' @ decimal (unat i) @ '' is already in progress'')] co
      else co\<lparr>co_pending_downloads := hm_insert i (wo_handle wo) (co_pending_downloads co)\<rparr>)"

record file_opened =
  fo_handle :: u64
  fo_id :: u64
  fo_generation :: u64
  fo_path :: string
  fo_result :: "string + u64"

definition on_file_opened :: "world \<Rightarrow> file_opened \<Rightarrow> core \<Rightarrow> core" where
  "on_file_opened wo fo co =
     (if map_option cl_generation (co_client co) \<noteq> Some (fo_generation fo) then co
      else case hm_get (co_pending_downloads co) (fo_id fo) of
        None \<Rightarrow> co
      | Some h \<Rightarrow>
          if h \<noteq> fo_handle fo then co
          else let co = co\<lparr>co_pending_downloads := hm_remove (fo_id fo) (co_pending_downloads co)\<rparr>
               in (case fo_result fo of
                     Inr sz \<Rightarrow>
                       let name = (case wo_file_name wo (fo_path fo) of Some n \<Rightarrow> n | None \<Rightarrow> fo_path fo)
                       in (case offer_stream_with_id (fo_id fo) FileDownload name (unat sz) (wo_reader wo) (co_transfers co) of
                             (offer, tm) \<Rightarrow> send_to_client [offer] (co\<lparr>co_transfers := tm\<rparr>))
                   | Inl e \<Rightarrow>
                       send_to_client [TransferEnd (fo_id fo) False (echo_prefix (fo_path fo) @ '': '' @ e)] co))"

definition on_transfer_complete :: "completed \<Rightarrow> core \<Rightarrow> core" where
  "on_transfer_complete d co =
     (case done_purpose d of
        ClipboardImage \<Rightarrow>
          (case done_data d of
             None \<Rightarrow> co
           | Some png \<Rightarrow> if co_has_clipboard co then call (Set_Image png) co else co)
      | FileUpload \<Rightarrow> send_to_client [Notice (''Received '' @ echo_prefix (done_name d))] co
      | FileDownload \<Rightarrow> settle_clipboard_file (done_id d) True co)"

definition settle_refusal :: "message \<Rightarrow> core \<Rightarrow> core" where
  "settle_refusal m co =
     (case m of TransferAccept i False _ \<Rightarrow> settle_clipboard_file i False co | _ \<Rightarrow> co)"

definition apply_transfer_outcome :: "world \<Rightarrow> outcome \<Rightarrow> core \<Rightarrow> core" where
  "apply_transfer_outcome wo out co =
     (let co = fold settle_refusal (replies out) co;
          co = send_to_client (replies out) co;
          co = fold (\<lambda>(i, reason). settle_clipboard_file i False) (failed out) co;
          co = fold on_transfer_complete (completed out) co;
          co = pump_clipboard_batch wo co
      in if co_has_drops co
         then (case wo_drops wo (co_transfers co) of (ms, tm) \<Rightarrow> send_to_client ms (co\<lparr>co_transfers := tm\<rparr>))
         else co)"

text \<open>Whether the message was one of a transfer, and the core after it.\<close>

definition handle_transfer_message :: "world \<Rightarrow> message \<Rightarrow> core \<Rightarrow> bool \<times> core" where
  "handle_transfer_message wo msg co =
     (let co = (case msg of
            TransferEnd i False _ \<Rightarrow> co\<lparr>co_pending_downloads := hm_remove i (co_pending_downloads co)\<rparr>
          | _ \<Rightarrow> co)
      in case msg of
           TransferOptions i replace \<Rightarrow>
             (True, if \<exists>c. co_client co = Some c \<and> has_feature (cl_features c) ATOMIC_FILES
                    then co\<lparr>co_upload_options := Some (i, replace)\<rparr> else co)
         | _ \<Rightarrow>
             let (replace, co) = (case msg of
                   TransferOffer i _ _ _ \<Rightarrow>
                     ((case co_upload_options co of None \<Rightarrow> False | Some (offered, replace) \<Rightarrow> offered = i \<and> replace),
                      co\<lparr>co_upload_options := None\<rparr>)
                 | _ \<Rightarrow> (False, co));
                 policy = \<lparr>sp_replace = replace, sp_upload_dir = op_upload_dir (co_opts co),
                           sp_staging = (if co_has_drops co
                             then fold (\<lambda>(i, d). hm_insert i d) (wo_drop_staging wo) (co_staging_downloads co)
                             else co_staging_downloads co)\<rparr>
             in (case handle (session_accept (wo_create wo) (wo_quote wo)) msg (co_transfers co) policy of
                   (None, tm, _) \<Rightarrow> (False, co\<lparr>co_transfers := tm\<rparr>)
                 | (Some out, tm, _) \<Rightarrow> (True, apply_transfer_outcome wo out (co\<lparr>co_transfers := tm\<rparr>))))"

section \<open>Connections\<close>

definition exit_after_disconnect :: "core \<Rightarrow> exit_reason option" where
  "exit_after_disconnect co = (if op_exit_on_disconnect (co_opts co) then Some ClientDisconnected else None)"

text \<open>
  \<open>drop_client\<close>: the notice, if any, is the last message queued for the client; it is sent on the
  connection that ends here.
\<close>

definition drop_client :: "world \<Rightarrow> string option \<Rightarrow> core \<Rightarrow> core \<times> string option" where
  "drop_client wo notice co =
     (if co_client co = None then (co, None)
      else let co = call Release_All (co\<lparr>co_client := None\<rparr>)
           in if wo_input_fails wo then (co, Some (wo_error wo))
              else let co = call Restore_Auto_Repeat co; co = (if co_has_drops co then call Reset_Drops co else co)
                   in (co\<lparr>co_pending_downloads := [], co_transfers := manager_clear (co_transfers co),
                         co_upload_options := None, co_staging_downloads := [], co_waiting_fetches := [],
                         co_has_batch := False, co_echo := echo_default, co_last_client_seen := wo_now wo\<rparr>, None))"

definition new_client :: "world \<Rightarrow> core \<Rightarrow> client" where
  "new_client wo co =
     \<lparr>cl_generation = co_next_generation co, cl_queue = [], cl_writer_gone = False, cl_connected_at = wo_now wo,
      cl_ready = False, cl_features = 0, cl_in_flight = [], cl_rtt = [],
      cl_window = clamp 1 MAX_IN_FLIGHT_CAP (op_max_in_flight (co_opts co)), cl_next_frame_id = 1,
      cl_last_frame_at = None, cl_full_refresh = False, cl_last_ping_at = wo_now wo,
      cl_last_pong_at = wo_now wo, cl_ping_nonce = 0, cl_last_client_pointer = co_last_pointer co,
      cl_last_sent_pointer = None, cl_dead = False, cl_bytes_sent = 0, cl_frames_sent = 0\<rparr>"

definition accept_client :: "world \<Rightarrow> core \<Rightarrow> core \<times> string option" where
  "accept_client wo co =
     (case (if co_client co \<noteq> None then drop_client wo (Some ''Another client connected to this session.'') co
            else (co, None)) of
        (co, Some e) \<Rightarrow> (co, Some e)
      | (co, None) \<Rightarrow>
          (call Suppress_Auto_Repeat
             (co\<lparr>co_client := Some (new_client wo co), co_next_generation := co_next_generation co + 1,
                 co_last_client_seen := wo_now wo\<rparr>), None))"

text \<open>A handler's result: the error of a \<open>?\<close>, or whether the session ends.\<close>

definition ends_as :: "exit_reason option \<Rightarrow> core \<times> string option \<Rightarrow> core \<times> (string + exit_reason option)" where
  "ends_as exit = (\<lambda>(co, err). (co, case err of Some e \<Rightarrow> Inl e | None \<Rightarrow> Inr exit))"

definition leaves :: "world \<Rightarrow> core \<Rightarrow> core \<times> (string + exit_reason option)" where
  "leaves wo co = ends_as (exit_after_disconnect co) (drop_client wo None co)"

definition drop_dead_client :: "world \<Rightarrow> core \<Rightarrow> core \<times> (string + exit_reason option)" where
  "drop_dead_client wo co =
     (if \<exists>c. co_client co = Some c \<and> cl_dead c then leaves wo co else (co, Inr None))"

definition reject_client :: "world \<Rightarrow> u16 \<Rightarrow> string \<Rightarrow> core \<Rightarrow> core \<times> (string + exit_reason option)" where
  "reject_client wo code reason co = leaves wo (send_to_client [Rejected code reason] co)"

section \<open>Messages of the client\<close>

definition refresh_cursor :: "world \<Rightarrow> core \<Rightarrow> core \<times> string option" where
  "refresh_cursor wo co =
     (if \<not> co_has_cursor co then (co, None)
      else case wo_cursor wo of
        None \<Rightarrow> (co, Some (wo_error wo))
      | Some None \<Rightarrow> (co, None)
      | Some (Some img) \<Rightarrow>
          (with_client (\<lambda>c. if cl_ready c \<and> has_feature (cl_features c) LOCAL_CURSOR
                             then snd (client_send (CursorShape img) c) else c)
             (co\<lparr>co_current_cursor := Some img\<rparr>), None))"

definition negotiated :: "core \<Rightarrow> u32 \<Rightarrow> u32" where
  "negotiated co want =
     want AND SUPPORTED_FEATURES AND (if co_has_drops co then -1 else NOT TARGETED_DROPS)"

definition requested_size :: "core \<Rightarrow> nat \<Rightarrow> nat \<Rightarrow> nat \<times> nat" where
  "requested_size co width height =
     (if 0 < width \<and> 0 < height then (width, height)
      else if map_option cl_generation (co_client co) = Some 1
      then (op_default_width (co_opts co), op_default_height (co_opts co))
      else co_display_size co)"

text \<open>\<open>server_name\<close> is the build's version string.\<close>

definition on_hello ::
    "string \<Rightarrow> world \<Rightarrow> u16 \<Rightarrow> u32 \<Rightarrow> nat \<Rightarrow> nat \<Rightarrow> core \<Rightarrow> (core \<times> (string + exit_reason option)) option" where
  "on_hello server_name wo version want width height co =
     (if \<not> peer_meets_floor version
      then Some (reject_client wo REJECT_VERSION
             (''protocol version '' @ decimal (unat version) @ '' is below the minimum this server supports ('' @
              decimal (unat MIN_COMPATIBLE_VERSION) @ '')'') co)
      else do {
        let feats = negotiated co want;
        let (w, h) = requested_size co width height;
        co \<leftarrow> (if (w, h) \<noteq> co_display_size co \<and> has_feature feats RESIZE then apply_resize wo w h co else Some co);
        if co_client co = None then Some (co, Inr None)
        else do {
          let co = with_client (\<lambda>c. snd (client_send
                     (ServerHello (agreed_version version) server_name feats (op_session_id (co_opts co))
                        (op_username (co_opts co)) (of_nat (fst (co_served co))) (of_nat (snd (co_served co))))
                     (c\<lparr>cl_ready := True, cl_features := feats\<rparr>))) co;
          case (if has_feature feats LOCAL_CURSOR then refresh_cursor wo co else (co, None)) of
            (co, Some e) \<Rightarrow> Some (co, Inl e)
          | (co, None) \<Rightarrow> do { co \<leftarrow> force_full_refresh co; Some (co, Inr None) } } })"

text \<open>Calls into the injector whose failure ends the session.\<close>

definition fallible_call :: "world \<Rightarrow> x_call \<Rightarrow> core \<Rightarrow> core \<times> (string + exit_reason option)" where
  "fallible_call wo x co = (call x co, if wo_input_fails wo then Inl (wo_error wo) else Inr None)"

definition pointer_target :: "core \<Rightarrow> u16 \<Rightarrow> u16 \<Rightarrow> i16 \<times> i16" where
  "pointer_target co x y =
     (of_nat (min (unat x) (fst (co_served co) - 1)), of_nat (min (unat y) (snd (co_served co) - 1)))"

definition on_pong :: "world \<Rightarrow> u64 \<Rightarrow> client \<Rightarrow> client" where
  "on_pong wo nonce c =
     (if nonce = cl_ping_nonce c
      then c\<lparr>cl_rtt := snd (rtt_record (wo_now wo) (wo_now wo - cl_last_ping_at c) (cl_rtt c)),
             cl_last_pong_at := wo_now wo\<rparr>
      else c)"

text \<open>\<open>request_format\<close> of the clipboard answers with events, a parameter here.\<close>

definition handle_ready_message ::
    "(kind \<Rightarrow> string) \<Rightarrow> (u32 \<Rightarrow> clipboard_event list) \<Rightarrow> world \<Rightarrow> message \<Rightarrow> core \<Rightarrow>
      (core \<times> (string + exit_reason option)) option" where
  "handle_ready_message show_kind request wo msg co =
     (case msg of
        KeyEvent keysym down \<Rightarrow> Some (call (Key keysym down) co, Inr None)
      | PointerMotion x y \<Rightarrow>
          let pos = pointer_target co x y
          in Some (fallible_call wo (Pointer_Move (fst pos) (snd pos))
               (with_client (\<lambda>c. c\<lparr>cl_last_client_pointer := pos, cl_last_sent_pointer := Some pos\<rparr>)
                 (co\<lparr>co_last_pointer := pos\<rparr>)))
      | PointerButton button down \<Rightarrow> Some (fallible_call wo (Button button down) co)
      | Scroll dx dy \<Rightarrow> Some (fallible_call wo (Wheel dx dy) co)
      | FrameAck fid \<Rightarrow>
          Some (with_client (on_frame_ack wo fid (co_opts co) (co_min_frame_interval co)) co, Inr None)
      | ResizeRequest width height \<Rightarrow>
          map_option (\<lambda>co. (co, Inr None)) (on_resize_request wo (unat width) (unat height) co)
      | ClipboardText text \<Rightarrow>
          if \<exists>c. co_client co = Some c \<and> \<not> has_feature (cl_features c) CLIPBOARD then Some (co, Inr None)
          else (case client_copied text (co_echo co) of
                  (False, _) \<Rightarrow> Some (co, Inr None)
                | (True, ec) \<Rightarrow>
                    let co = co\<lparr>co_echo := ec\<rparr>
                    in Some (if co_has_clipboard co then call (Set_Text text) co else co, Inr None))
      | Pong nonce \<Rightarrow> Some (with_client (on_pong wo nonce) co, Inr None)
      | Ping nonce \<Rightarrow> Some (send_to_client [Pong nonce] co, Inr None)
      | ClipboardOffer formats \<Rightarrow>
          let co = co\<lparr>co_echo := client_changed (co_echo co), co_client_formats := formats\<rparr>
          in Some (if formats AND FORMAT_PNG \<noteq> 0 \<and> co_has_clipboard co
                   then send_to_client [ClipboardRequest FORMAT_PNG] co else co, Inr None)
      | ClipboardRequest format \<Rightarrow>
          Some (if co_has_clipboard co
                then on_clipboard_events wo (request format) (call (Request_Format format) co) else co, Inr None)
      | FileRequest i path \<Rightarrow> Some (on_file_request wo i path co, Inr None)
      | FileList _ files \<Rightarrow> Some (stage_client_files wo files co, Inr None)
      | FileDrop i x y files \<Rightarrow>
          Some (if (\<exists>c. co_client co = Some c \<and> has_feature (cl_features c) TARGETED_DROPS) \<and> co_has_drops co
                then let co = call (Begin_Drop i x y files) co
                     in (case wo_drop_begins wo of
                           None \<Rightarrow> co | Some e \<Rightarrow> send_to_client [FileDropResult i False e] co)
                else co, Inr None)
      | RefreshRequest \<Rightarrow> map_option (\<lambda>co. (co, Inr None)) (force_full_refresh co)
      | Disconnect reason \<Rightarrow> Some (leaves wo co)
      | ClientHello _ _ _ _ _ \<Rightarrow> Some (reject_client wo REJECT_VERSION ''duplicate ClientHello'' co)
      | other \<Rightarrow> Some (reject_client wo REJECT_VERSION
                   (''unexpected message '' @ show_kind (msg_kind other) @ '' from client'') co))"

definition handle_client_message ::
    "string \<Rightarrow> (kind \<Rightarrow> string) \<Rightarrow> (u32 \<Rightarrow> clipboard_event list) \<Rightarrow> world \<Rightarrow> message \<Rightarrow> core \<Rightarrow>
      (core \<times> (string + exit_reason option)) option" where
  "handle_client_message server_name show_kind request wo msg co =
     (if \<not> (\<exists>c. co_client co = Some c \<and> cl_ready c)
      then (case msg of
              ClientHello version name want width height \<Rightarrow>
                on_hello server_name wo version want (unat width) (unat height) co
            | other \<Rightarrow> Some (reject_client wo REJECT_VERSION
                         (''expected ClientHello, got '' @ show_kind (msg_kind other)) co))
      else case handle_transfer_message wo msg co of
             (True, co) \<Rightarrow> Some (co, Inr None)
           | (False, co) \<Rightarrow> handle_ready_message show_kind request wo msg co)"


section \<open>The loop\<close>

text \<open>What the housekeeping tick decides about the client: drop it, or ping it.\<close>

definition housekeep_client :: "world \<Rightarrow> client \<Rightarrow> bool \<times> client" where
  "housekeep_client wo c =
     (if \<not> cl_ready c then (HANDSHAKE_TIMEOUT < wo_now wo - cl_connected_at c, c)
      else if PONG_TIMEOUT < wo_now wo - cl_last_pong_at c then (True, c)
      else if PING_INTERVAL \<le> wo_now wo - cl_last_ping_at c
      then (False, snd (client_send (Ping (cl_ping_nonce c + 1))
             (c\<lparr>cl_ping_nonce := cl_ping_nonce c + 1, cl_last_ping_at := wo_now wo\<rparr>)))
      else (False, c))"

definition expire_download :: "u64 \<Rightarrow> core \<Rightarrow> core" where
  "expire_download i co =
     send_to_client [TransferEnd i False ''file open timed out'']
       (co\<lparr>co_pending_downloads := hm_remove i (co_pending_downloads co)\<rparr>)"

text \<open>The last part of housekeeping, once no client had to be dropped without an exit.\<close>

definition housekeep_idle :: "world \<Rightarrow> core \<Rightarrow> core \<times> (string + exit_reason option)" where
  "housekeep_idle wo co =
     (if co_client co \<noteq> None
      then (case sync_pointer wo co of
              (co, Some e) \<Rightarrow> (co, Inl e)
            | (co, None) \<Rightarrow> (call Reassert_Auto_Repeat co, Inr None))
      else (co, Inr (case op_idle_timeout (co_opts co) of
                       None \<Rightarrow> None
                     | Some t \<Rightarrow> if t < wo_now wo - co_last_client_seen co then Some IdleTimeout else None)))"

text \<open>\<open>ticks\<close> are the events of the clipboard's clock.\<close>

definition housekeeping ::
    "clipboard_event list \<Rightarrow> world \<Rightarrow> core \<Rightarrow> core \<times> (string + exit_reason option)" where
  "housekeeping ticks wo co =
     (let co = fold expire_download
                 (wo_order wo (filter (wo_expired wo) (map fst (co_pending_downloads co)))) co;
          (out, tm) = poll (wo_order wo) (co_transfers co);
          co = apply_transfer_outcome wo out (co\<lparr>co_transfers := tm\<rparr>);
          co = (if co_has_clipboard co then on_clipboard_events wo ticks co else co)
      in case co_client co of
           None \<Rightarrow> housekeep_idle wo co
         | Some c \<Rightarrow>
             (case housekeep_client wo c of
                (False, c) \<Rightarrow> housekeep_idle wo (co\<lparr>co_client := Some c\<rparr>)
              | (True, c) \<Rightarrow>
                  (case leaves wo (co\<lparr>co_client := Some c\<rparr>) of
                     (co, Inl e) \<Rightarrow> (co, Inl e)
                   | (co, Inr (Some exit)) \<Rightarrow> (co, Inr (Some exit))
                   | (co, Inr None) \<Rightarrow> housekeep_idle wo co)))"

datatype x_event = Damage_Notify | Cursor_Notify | Mapping_Notify | Screen_Change | Other_Event

text \<open>
  Events of the core's channel. An X event comes with the replies of the drops and the events of the
  clipboard it causes.
\<close>

datatype core_event =
    X_Event x_event "message list" "clipboard_event list"
  | X_Lost string
  | New_Client
  | Client_Message u64 message "clipboard_event list"
  | Client_Closed u64 string
  | Desktop_Exited string
  | Shutdown_Request string
  | File_Ready
  | File_Opened file_opened
  | Clipboard_Fetch

definition handle_x_event ::
    "world \<Rightarrow> x_event \<Rightarrow> message list \<Rightarrow> clipboard_event list \<Rightarrow> core \<Rightarrow> (core \<times> string option) option" where
  "handle_x_event wo ev drop_replies events co =
     (let co = (if co_has_drops co then send_to_client drop_replies co else co)
      in do {
        (co, err) \<leftarrow> (case ev of
            Damage_Notify \<Rightarrow> Some (co\<lparr>co_dirty := True\<rparr>, None)
          | Cursor_Notify \<Rightarrow> Some (refresh_cursor wo co)
          | Mapping_Notify \<Rightarrow> Some (call Reload_Keymap co, None)
          | Screen_Change \<Rightarrow> map_option (\<lambda>co. (co, None)) (reread_size wo co)
          | Other_Event \<Rightarrow> Some (co, None));
        (case err of
           Some e \<Rightarrow> Some (co, Some e)
         | None \<Rightarrow> Some (if co_has_clipboard co then on_clipboard_events wo events co else co, None)) })"

definition generation_is :: "u64 \<Rightarrow> core \<Rightarrow> bool" where
  "generation_is g co \<longleftrightarrow> map_option cl_generation (co_client co) = Some g"

definition handle_event ::
    "string \<Rightarrow> (kind \<Rightarrow> string) \<Rightarrow> world \<Rightarrow> core_event \<Rightarrow> core \<Rightarrow> (core \<times> (string + exit_reason option)) option" where
  "handle_event server_name show_kind wo ev co =
     (case ev of
        X_Event x drop_replies events \<Rightarrow> map_option (ends_as None) (handle_x_event wo x drop_replies events co)
      | X_Lost e \<Rightarrow> Some (co, Inr (Some (XError e)))
      | New_Client \<Rightarrow> Some (ends_as None (accept_client wo co))
      | Client_Message g msg events \<Rightarrow>
          if \<not> generation_is g co then Some (co, Inr None)
          else handle_client_message server_name show_kind (\<lambda>_. events) wo msg co
      | Client_Closed g reason \<Rightarrow> if generation_is g co then Some (leaves wo co) else Some (co, Inr None)
      | Desktop_Exited status \<Rightarrow>
          Some (ends_as (Some (DesktopExited status)) (drop_client wo (Some ''The desktop session has ended.'') co))
      | Shutdown_Request reason \<Rightarrow>
          Some (ends_as (Some (Shutdown reason)) (drop_client wo (Some ''The server is shutting down.'') co))
      | File_Ready \<Rightarrow>
          (case poll (wo_order wo) (co_transfers co) of
             (out, tm) \<Rightarrow> Some (apply_transfer_outcome wo out (co\<lparr>co_transfers := tm\<rparr>), Inr None))
      | File_Opened fo \<Rightarrow> Some (on_file_opened wo fo co, Inr None)
      | Clipboard_Fetch \<Rightarrow> Some (pump_clipboard_batch wo co, Inr None))"

text \<open>The exit a step asks for: an error is the loss of the display.\<close>

definition settle :: "string + exit_reason option \<Rightarrow> exit_reason option" where
  "settle r = (case r of Inl e \<Rightarrow> Some (XError e) | Inr exit \<Rightarrow> exit)"

text \<open>
  One turn of the loop: the housekeeping tick, if it is what woke the loop; the queued events in order,
  each with what the surroundings answer then; the dead client; the clipboard batch; the frame. A turn
  that ends the session stops where it ends.
\<close>

primrec handle_events ::
    "string \<Rightarrow> (kind \<Rightarrow> string) \<Rightarrow> (world \<times> core_event) list \<Rightarrow> core \<Rightarrow> (core \<times> exit_reason option) option" where
  "handle_events server_name show_kind [] co = Some (co, None)"
| "handle_events server_name show_kind (e # es) co = do {
     (co, r) \<leftarrow> handle_event server_name show_kind (fst e) (snd e) co;
     (case settle r of
        Some exit \<Rightarrow> Some (co, Some exit)
      | None \<Rightarrow> handle_events server_name show_kind es co) }"

definition finish_turn :: "world \<Rightarrow> core \<Rightarrow> (core \<times> exit_reason option) option" where
  "finish_turn wo co =
     (case drop_dead_client wo co of
        (co, r) \<Rightarrow>
          (case settle r of
             Some exit \<Rightarrow> Some (co, Some exit)
           | None \<Rightarrow> do {
               (co, err) \<leftarrow> pump_frames wo (pump_clipboard_batch wo co);
               (case err of
                  Some e \<Rightarrow> Some (co, Some (XError e))
                | None \<Rightarrow> (case drop_dead_client wo co of (co, r) \<Rightarrow> Some (co, settle r))) }))"

definition loop_turn ::
    "string \<Rightarrow> (kind \<Rightarrow> string) \<Rightarrow> (world \<times> clipboard_event list) option \<Rightarrow> (world \<times> core_event) list \<Rightarrow> world \<Rightarrow>
      core \<Rightarrow> (core \<times> exit_reason option) option" where
  "loop_turn server_name show_kind tick evs wo co =
     (case (case tick of None \<Rightarrow> (co, Inr None) | Some (wo, ticks) \<Rightarrow> housekeeping ticks wo co) of
        (co, r) \<Rightarrow>
          (case settle r of
             Some e \<Rightarrow> Some (co, Some e)
           | None \<Rightarrow> do {
               (co, exit) \<leftarrow> handle_events server_name show_kind evs co;
               (case exit of Some e \<Rightarrow> Some (co, Some e) | None \<Rightarrow> finish_turn wo co) }))"

definition core_new ::
    "options \<Rightarrow> nat \<Rightarrow> nat \<Rightarrow> bool \<Rightarrow> bool \<Rightarrow> bool \<Rightarrow> bool \<Rightarrow> nat \<Rightarrow> nat \<Rightarrow> core" where
  "core_new opts w h shm has_cursor has_clipboard has_drops interval now =
     (let cap = (max (op_max_width opts) w, max (op_max_height opts) h) in
      \<lparr>co_opts = opts, co_display_size = (w, h), co_capture = capture_new shm (fst cap) (snd cap),
       co_dirty = True, co_has_cursor = has_cursor, co_has_clipboard = has_clipboard,
       co_has_drops = has_drops, co_last_pointer = (0, 0), co_encoder = encoder_new w h,
       co_screen = fb_new w h, co_current_cursor = None, co_client = None, co_next_generation = 1,
       co_min_frame_interval = interval, co_last_client_seen = now, co_echo = echo_default,
       co_transfers = manager_new False, co_client_formats = 0, co_staging_downloads = [],
       co_waiting_fetches = [], co_has_batch = False, co_upload_options = None,
       co_pending_downloads = [], co_served = (w, h), co_capture_max = cap, co_stale_captures = 0,
       co_calls = []\<rparr>)"

end
