(* ===== verification/Session_Screen.thy ===== *)
theory Session_Screen
  imports Session_Engine
begin

text \<open>
  Invariants of the session core. The handlers fall into those that leave the screen alone (\<open>quiet\<close>:
  they may queue messages that do not concern it, or find that the client is lost) and the few that
  move it: a refresh, a new size, a frame, a hello, a connection coming or going. For each of the
  latter the lemmas say how the client's decoder follows, so that in every reachable state of the
  core, its queue, the wire and the client the decoder ends up showing what the encoder believes.
\<close>

named_theorems quiet "handlers that leave the screen alone"

section \<open>Messages that do not concern the screen\<close>

text \<open>The clipboard formats a set of features allows.\<close>

definition formats_of :: "u32 \<Rightarrow> u32" where
  "formats_of f =
     (if has_feature f CLIPBOARD then FORMAT_TEXT else 0) OR
     (if has_feature f CLIPBOARD_IMAGE then FORMAT_PNG else 0) OR
     (if has_feature f CLIPBOARD_FILES then FORMAT_FILES else 0)"

text \<open>
  A message that leaves the screen alone and that a client with the given features agreed to.
\<close>

fun polite :: "u32 \<Rightarrow> message \<Rightarrow> bool" where
  "polite f (ServerHello _ _ _ _ _ _ _) = False"
| "polite f (ScreenUpdate _ _ _) = False"
| "polite f (ScreenResized _ _) = False"
| "polite f (CursorShape _) = has_feature f LOCAL_CURSOR"
| "polite f (ClipboardText _) = has_feature f CLIPBOARD"
| "polite f (ClipboardOffer formats) = (formats AND NOT (formats_of f) = 0)"
| "polite f (FileList _ _) = has_feature f CLIPBOARD_FILES"
| "polite f _ = True"

definition quiet_client :: "client \<Rightarrow> client \<Rightarrow> bool" where
  "quiet_client c c' \<longleftrightarrow>
     cl_generation c' = cl_generation c \<and> cl_ready c' = cl_ready c \<and> cl_features c' = cl_features c \<and>
     cl_in_flight c' = cl_in_flight c \<and> cl_window c' = cl_window c \<and>
     cl_next_frame_id c' = cl_next_frame_id c \<and> cl_full_refresh c' = cl_full_refresh c \<and>
     (cl_dead c \<longrightarrow> cl_dead c') \<and>
     (\<exists>ms. cl_queue c' = cl_queue c @ ms \<and> (\<forall>m \<in> set ms. polite (cl_features c) m))"

definition quiet_core :: "core \<Rightarrow> core \<Rightarrow> bool" where
  "quiet_core co co' \<longleftrightarrow>
     co_encoder co' = co_encoder co \<and> co_screen co' = co_screen co \<and> co_capture co' = co_capture co \<and>
     co_served co' = co_served co \<and> co_capture_max co' = co_capture_max co \<and> co_opts co' = co_opts co \<and>
     co_next_generation co' = co_next_generation co \<and>
     co_has_drops co' = co_has_drops co \<and> rel_option quiet_client (co_client co) (co_client co')"

lemma quiet_client_refl [simp]: "quiet_client c c"
  by (simp add: quiet_client_def)

lemma quiet_client_trans: "quiet_client a b \<Longrightarrow> quiet_client b c \<Longrightarrow> quiet_client a c"
  unfolding quiet_client_def by (auto; metis (no_types, opaque_lifting) Un_iff append.assoc set_append)

lemma quiet_refl [simp]: "quiet_core co co"
  by (simp add: quiet_core_def option.rel_refl)

lemma quiet_trans: "quiet_core a b \<Longrightarrow> quiet_core b c \<Longrightarrow> quiet_core a c"
  by (auto simp: quiet_core_def elim!: option.rel_cases intro: quiet_client_trans)

lemma quiet_fold: "(\<And>x co. quiet_core co (f x co)) \<Longrightarrow> quiet_core co (fold f xs co)"
  by (induction xs arbitrary: co) (auto intro: quiet_trans)

text \<open>Changing only other parts of the core.\<close>

lemma quiet_fields:
  assumes "co_encoder co' = co_encoder co" "co_screen co' = co_screen co" "co_capture co' = co_capture co"
    and "co_served co' = co_served co" "co_capture_max co' = co_capture_max co" "co_opts co' = co_opts co"
    and "co_next_generation co' = co_next_generation co" "co_has_drops co' = co_has_drops co" "co_client co' = co_client co"
  shows "quiet_core co co'"
  using assms by (simp add: quiet_core_def option.rel_refl)

lemma quiet_with_client: "(\<And>c. co_client co = Some c \<Longrightarrow> quiet_client c (f c)) \<Longrightarrow> quiet_core co (with_client f co)"
  by (cases "co_client co") (simp_all add: with_client_def quiet_core_def)

section \<open>Sending\<close>

lemma client_send_cases:
  obtains "client_send m c = (False, c)" "cl_dead c"
  | "client_send m c = (False, c\<lparr>cl_dead := True\<rparr>)"
  | n where "client_send m c = (True, c\<lparr>cl_queue := cl_queue c @ [m], cl_bytes_sent := n\<rparr>)" "\<not> cl_dead c"
proof (cases "cl_dead c")
  case False
  let ?len = "length (frame_message m []) - HEADER_LEN"
  have "client_send m c = (False, c\<lparr>cl_dead := True\<rparr>) \<or>
      client_send m c = (True, c\<lparr>cl_queue := cl_queue c @ [m],
        cl_bytes_sent := cl_bytes_sent c + of_nat (?len + HEADER_LEN)\<rparr>)"
    using False by (simp add: client_send_def Let_def)
  then show ?thesis using False that(2,3) by blast
qed (use that(1) in \<open>simp add: client_send_def\<close>)

lemma client_send_quiet: "polite (cl_features c) m \<Longrightarrow> quiet_client c (snd (client_send m c))"
  by (cases rule: client_send_cases [of m c]) (auto simp: quiet_client_def)

lemma send_all_quiet: "\<forall>m \<in> set ms. polite (cl_features c) m \<Longrightarrow> quiet_client c (send_all ms c)"
proof (induction ms arbitrary: c)
  case (Cons m ms)
  have q: "quiet_client c (snd (client_send m c))" using Cons.prems by (simp add: client_send_quiet)
  then have "cl_features (snd (client_send m c)) = cl_features c" by (simp add: quiet_client_def)
  then have "quiet_client (snd (client_send m c)) (send_all ms (snd (client_send m c)))"
    using Cons by simp
  with q show ?case by (auto split: prod.splits intro: quiet_client_trans)
qed simp

lemma send_to_client_quiet:
  "(\<And>c. co_client co = Some c \<Longrightarrow> \<forall>m \<in> set ms. polite (cl_features c) m) \<Longrightarrow> quiet_core co (send_to_client ms co)"
  unfolding send_to_client_def by (rule quiet_with_client) (blast intro: send_all_quiet)

text \<open>A change of other fields followed by a send.\<close>

lemma send_after_quiet:
  assumes "quiet_core co co1" "\<And>c. co_client co1 = Some c \<Longrightarrow> \<forall>m \<in> set ms. polite (cl_features c) m"
  shows "quiet_core co (send_to_client ms co1)"
  by (rule quiet_trans [OF assms(1) send_to_client_quiet]) (use assms(2) in blast)

lemma call_quiet [quiet, simp]: "quiet_core co (call x co)"
  by (rule quiet_fields) (simp_all add: call_def)

section \<open>The clipboard and files\<close>

lemma client_formats: "co_client co = Some c \<Longrightarrow> client_clipboard_formats co = formats_of (cl_features c)"
  by (simp add: client_clipboard_formats_def formats_of_def)

lemma on_session_clipboard_quiet [quiet]: "quiet_core co (on_session_clipboard text co)"
  by (auto simp: on_session_clipboard_def split: option.splits prod.splits bool.splits
      intro!: send_after_quiet quiet_fields)

lemma formats_files: "formats_of f AND FORMAT_FILES \<noteq> 0 \<Longrightarrow> has_feature f CLIPBOARD_FILES"
  by (auto simp: formats_of_def FORMAT_FILES_def FORMAT_TEXT_def FORMAT_PNG_def split: if_splits)

lemma on_clipboard_event_quiet [quiet]: "quiet_core co (on_clipboard_event wo ev co)"
proof (cases ev)
  case (Formats formats)
  have "(formats AND formats_of f) AND NOT (formats_of f) = 0" for f
    by (rule bit_word_eqI) (auto simp: bit_simps)
  then show ?thesis
    by (auto simp: Formats on_clipboard_event_def Let_def client_formats
        intro!: send_after_quiet quiet_fields dest: client_formats)
next
  case (Text_Copied t)
  then show ?thesis by (simp add: on_clipboard_event_def on_session_clipboard_quiet)
next
  case (Image_Copied png)
  then show ?thesis
    by (auto simp: on_clipboard_event_def offer_bytes_def next_id_def offer_stream_with_id_def
        split: prod.splits intro!: send_after_quiet quiet_fields)
next
  case (Files_Copied paths)
  have "has_feature (cl_features c) CLIPBOARD_FILES"
    if "co_client co = Some c" "client_clipboard_formats co AND FORMAT_FILES \<noteq> 0" for c
    using that by (simp add: client_formats formats_files)
  then show ?thesis
    by (auto simp: Files_Copied on_clipboard_event_def Let_def split: prod.splits
        intro!: send_after_quiet quiet_fields)
next
  case (Unavailable format)
  then show ?thesis
    by (auto simp: on_clipboard_event_def intro!: send_after_quiet)
qed

lemma on_clipboard_events_quiet [quiet]: "quiet_core co (on_clipboard_events wo evs co)"
  unfolding on_clipboard_events_def by (rule quiet_fold) (rule on_clipboard_event_quiet)

lemma cancel_and_tell_quiet [quiet]: "quiet_core co (cancel_and_tell reason i co)"
  by (auto simp: cancel_and_tell_def cancel_def Let_def split: prod.splits option.splits if_splits
      intro!: send_after_quiet quiet_fields)

lemma stage_client_files_quiet [quiet]: "quiet_core co (stage_client_files wo files co)"
proof -
  let ?co1 = "fold (cancel_and_tell ''clipboard replaced'') (wo_order wo (map fst (co_staging_downloads co))) co"
  have "quiet_core co ?co1" by (rule quiet_fold) (rule cancel_and_tell_quiet)
  moreover have "quiet_core ?co1 (?co1\<lparr>co_waiting_fetches := [], co_staging_downloads := [], co_has_batch := False\<rparr>)"
    "quiet_core ?co1 (?co1\<lparr>co_waiting_fetches := [], co_staging_downloads := [], co_has_batch := True\<rparr>)"
    by (rule quiet_fields; simp)+
  ultimately have "quiet_core co (?co1\<lparr>co_waiting_fetches := [], co_staging_downloads := [], co_has_batch := False\<rparr>)"
    "quiet_core co (?co1\<lparr>co_waiting_fetches := [], co_staging_downloads := [], co_has_batch := True\<rparr>)"
    by (blast intro: quiet_trans)+
  then show ?thesis
    by (auto simp: stage_client_files_def Let_def split: option.splits intro!: send_after_quiet)
qed

lemma settle_clipboard_file_quiet [quiet]: "quiet_core co (settle_clipboard_file i success co)"
  by (auto simp: settle_clipboard_file_def Let_def call_def intro!: quiet_fields)

lemma abandon_fetch_quiet [quiet]: "quiet_core co (abandon_fetch i co)"
  unfolding abandon_fetch_def by (rule quiet_trans [OF quiet_fields cancel_and_tell_quiet]) simp_all

lemma report_staging_progress_quiet [quiet]: "quiet_core co (report_staging_progress wo co)"
  unfolding report_staging_progress_def Let_def
  by (rule quiet_trans [OF quiet_fold [OF call_quiet] quiet_fold [OF abandon_fetch_quiet]])

lemma start_fetch_quiet [quiet]: "quiet_core co (start_fetch f co)"
  by (cases f) (auto simp: start_fetch_def split: prod.splits intro!: send_after_quiet quiet_fields)

lemma pump_clipboard_batch_quiet [quiet]: "quiet_core co (pump_clipboard_batch wo co)"
  by (auto simp: pump_clipboard_batch_def Let_def report_staging_progress_quiet
      intro: quiet_trans [OF report_staging_progress_quiet quiet_fold] start_fetch_quiet)

lemma on_file_request_quiet [quiet]: "quiet_core co (on_file_request wo i path co)"
  by (auto simp: on_file_request_def intro!: send_after_quiet quiet_fields)

lemma on_file_opened_quiet [quiet]: "quiet_core co (on_file_opened wo fo co)"
  by (auto simp: on_file_opened_def Let_def offer_stream_with_id_def split: option.splits sum.splits
      intro!: send_after_quiet quiet_fields)

lemma on_transfer_complete_quiet [quiet]: "quiet_core co (on_transfer_complete d co)"
  by (auto simp: on_transfer_complete_def settle_clipboard_file_quiet split: transfer_purpose.splits option.splits
      intro!: send_after_quiet)

lemma settle_refusal_quiet [quiet]: "quiet_core co (settle_refusal m co)"
  by (auto simp: settle_refusal_def settle_clipboard_file_quiet split: message.splits bool.splits)


section \<open>Transfers\<close>

fun transfer_reply :: "message \<Rightarrow> bool" where
  "transfer_reply (TransferAccept _ _ _) = True"
| "transfer_reply (TransferData _ _ _) = True"
| "transfer_reply (TransferAck _ _) = True"
| "transfer_reply (TransferEnd _ _ _) = True"
| "transfer_reply _ = False"

lemma transfer_reply_polite: "transfer_reply m \<Longrightarrow> polite f m"
  by (cases m) auto

abbreviation all_transfer :: "outcome \<Rightarrow> bool" where
  "all_transfer out \<equiv> \<forall>m \<in> set (replies out). transfer_reply m"

lemma outcome_replies [simp]:
  "replies outcome_default = []" "replies (reply m out) = replies out @ [m]"
  "replies (fail_transfer i e out) = replies out" "replies (complete_transfer c out) = replies out"
  "replies (refuse i r) = [TransferAccept i False r]"
  by (simp_all add: outcome_default_def reply_def fail_transfer_def complete_transfer_def refuse_def)

lemma pump_chunks_replies: "pump_chunks i budget s = (ms, f, b, s') \<Longrightarrow> m \<in> set ms \<Longrightarrow> transfer_reply m"
proof (induction i budget s arbitrary: ms f b s' rule: pump_chunks.induct)
  case (2 i budget s)
  then show ?case by (fastforce split: prod.splits sum.splits option.splits)
qed simp

lemma pump_id_replies:
  "\<forall>m \<in> set (pm_replies st). transfer_reply m \<Longrightarrow> \<forall>m \<in> set (pm_replies (pump_id i st)). transfer_reply m"
  by (auto simp: pump_id_def split: option.splits prod.splits dest: pump_chunks_replies)

lemma pump_replies: "all_transfer out \<Longrightarrow> pump (m, out) = (m', out') \<Longrightarrow> all_transfer out'"
proof -
  assume a: "all_transfer out" "pump (m, out) = (m', out')"
  have "\<forall>m \<in> set (pm_replies (fold pump_id is st)). transfer_reply m"
    if "\<forall>m \<in> set (pm_replies st). transfer_reply m" for "is" st
    using that
  proof (induction "is" arbitrary: st)
    case (Cons i "is")
    from Cons.IH [OF pump_id_replies [OF Cons.prems, of i]] show ?case unfolding fold.simps comp_def .
  qed (unfold fold.simps id_apply)
  note sent = this
  show "all_transfer out'"
  proof (cases "mg_outgoing m = []")
    case True
    then show ?thesis using a by (simp add: pump_def)
  next
    case False
    define st where "st = fold pump_id (pump_ids m) \<lparr>pm_outgoing = mg_outgoing m, pm_replies = [], pm_failed = [],
        pm_budget = GLOBAL_WINDOW_CHUNKS -
          sum_list (map (sender_in_flight \<circ> out_sender \<circ> snd) (mg_outgoing m)) mod 2 ^ 32\<rparr>"
    have "replies out' = replies out @ pm_replies st @ map (\<lambda>(i, e). TransferEnd i False e) (pm_failed st)"
      unfolding st_def using a(2) False by (auto simp: pump_def Let_def)
    moreover have "\<forall>m \<in> set (pm_replies st). transfer_reply m" unfolding st_def by (rule sent) simp
    ultimately show ?thesis using a(1) by auto
  qed
qed

lemma finish_incoming_replies: "all_transfer out \<Longrightarrow> all_transfer (finish_incoming i inc out)"
  by (cases "receiver_finish (inc_receiver inc)") (auto simp: finish_incoming_def)

lemma complete_incoming_replies:
  assumes "all_transfer out" "complete_incoming i (m, out) = (m', out')"
  shows "all_transfer out'"
proof (cases "hm_get (mg_incoming m) i")
  case None
  then show ?thesis using assms by (simp add: complete_incoming_def)
next
  case (Some inc)
  obtain err sk where f: "(if receiver_complete (inc_receiver inc) then sink_flush (rcv_sink (inc_receiver inc))
      else (None, rcv_sink (inc_receiver inc))) = (err, sk)" by fastforce
  show ?thesis
  proof (cases err)
    case None
    then show ?thesis
      using assms Some f finish_incoming_replies [OF assms(1)] by (auto simp: complete_incoming_def Let_def)
  next
    case (Some e)
    then show ?thesis
      using assms \<open>hm_get (mg_incoming m) i = Some inc\<close> f by (cases e) (auto simp: complete_incoming_def Let_def)
  qed
qed

lemma poll_replies: "poll order m = (out, m') \<Longrightarrow> all_transfer out"
proof -
  assume p: "poll order m = (out, m')"
  have "all_transfer out \<Longrightarrow> all_transfer (snd (fold complete_incoming is (m, out)))" for "is" m out
  proof (induction "is" arbitrary: m out)
    case (Cons i "is")
    obtain m1 out1 where c: "complete_incoming i (m, out) = (m1, out1)" by fastforce
    show ?case using Cons.IH [of out1 m1] complete_incoming_replies [OF Cons.prems c] c by simp
  qed simp
  from this [of outcome_default] have "all_transfer (snd (fold complete_incoming is (m, outcome_default)))" for "is" m
    by simp
  then show "all_transfer out"
    using p by (auto simp: poll_def Let_def split: prod.splits) (metis pump_replies prod.collapse snd_conv)
qed

lemma handle_offer_replies: "handle_offer policy i purpose name sz m p = (out, m', p') \<Longrightarrow> all_transfer out"
  unfolding handle_offer_def Let_def
  by (auto split: prod.splits sum.splits if_splits dest!: complete_incoming_replies [rotated])

lemma handle_end_replies: "handle_end i ok msg m = (out, m') \<Longrightarrow> all_transfer out"
proof -
  assume h: "handle_end i ok msg m = (out, m')"
  define early where "early \<longleftrightarrow> ok \<and> (case hm_get (mg_incoming m) i of None \<Rightarrow> False | Some x \<Rightarrow> receiver_complete (inc_receiver x))"
  show "all_transfer out"
  proof (cases early)
    case True
    then show ?thesis using h
      by (auto simp: handle_end_def Let_def early_def split: prod.splits dest!: complete_incoming_replies [rotated])
  next
    case False
    then have "replies out = []" using h
      by (cases "hm_get (mg_incoming m) i"; cases "hm_get (mg_outgoing m) i")
        (auto simp: handle_end_def Let_def early_def split: if_splits sum.splits)
    then show ?thesis by simp
  qed
qed

lemma handle_replies: "handle policy msg m p = (Some out, m', p') \<Longrightarrow> all_transfer out"
proof (cases msg)
  case (TransferOffer i purpose name sz)
  then show "handle policy msg m p = (Some out, m', p') \<Longrightarrow> all_transfer out"
    by (auto split: prod.splits dest: handle_offer_replies)
next
  case (TransferAccept i ok reason)
  then show "handle policy msg m p = (Some out, m', p') \<Longrightarrow> all_transfer out"
    by (auto simp: handle_accept_def split: prod.splits option.splits if_splits dest!: pump_replies [rotated])
next
  case (TransferData i seq data)
  then show "handle policy msg m p = (Some out, m', p') \<Longrightarrow> all_transfer out"
    by (auto simp: handle_data_def Let_def
        split: prod.splits option.splits sum.splits if_splits dest!: complete_incoming_replies [rotated])
next
  case (TransferAck i seq)
  then show "handle policy msg m p = (Some out, m', p') \<Longrightarrow> all_transfer out"
    by (auto simp: handle_ack_def Let_def split: prod.splits dest!: pump_replies [rotated])
next
  case (TransferEnd i ok reason)
  then show "handle policy msg m p = (Some out, m', p') \<Longrightarrow> all_transfer out"
    by (auto split: prod.splits dest: handle_end_replies)
qed auto


section \<open>Quiet handlers\<close>

text \<open>What drops in progress send: requests for their files, their results, refusals.\<close>

fun drop_message :: "message \<Rightarrow> bool" where
  "drop_message (FileRequest _ _) = True"
| "drop_message (FileDropResult _ _ _) = True"
| "drop_message (TransferEnd _ _ _) = True"
| "drop_message _ = False"

lemma drop_message_polite: "drop_message m \<Longrightarrow> polite f m"
  by (cases m) auto

definition world_ok :: "compressors \<Rightarrow> world \<Rightarrow> bool" where
  "world_ok cs wo \<longleftrightarrow> wo_compressors wo = cs \<and>
     (\<forall>tm. \<forall>m \<in> set (fst (wo_drops wo tm)). drop_message m)"

fun event_ok :: "core_event \<Rightarrow> bool" where
  "event_ok (X_Event _ drop_replies _) = (\<forall>m \<in> set drop_replies. drop_message m)"
| "event_ok _ = True"

lemma apply_transfer_outcome_quiet:
  assumes "world_ok cs wo" "all_transfer out"
  shows "quiet_core co (apply_transfer_outcome wo out co)"
proof -
  let ?c1 = "fold settle_refusal (replies out) co"
  let ?c2 = "send_to_client (replies out) ?c1"
  let ?c3 = "fold (\<lambda>(i, reason). settle_clipboard_file i False) (failed out) ?c2"
  let ?c4 = "fold on_transfer_complete (completed out) ?c3"
  let ?c5 = "pump_clipboard_batch wo ?c4"
  have 1: "quiet_core co ?c1" by (rule quiet_fold) (rule settle_refusal_quiet)
  have 2: "quiet_core ?c1 ?c2"
    by (rule send_to_client_quiet) (use assms(2) transfer_reply_polite in blast)
  have 3: "quiet_core ?c2 ?c3"
    by (rule quiet_fold) (auto simp: settle_clipboard_file_quiet split: prod.splits)
  have 4: "quiet_core ?c3 ?c4" by (rule quiet_fold) (rule on_transfer_complete_quiet)
  have 5: "quiet_core ?c4 ?c5" by (rule pump_clipboard_batch_quiet)
  have q: "quiet_core co ?c5"
    using quiet_trans [OF quiet_trans [OF quiet_trans [OF quiet_trans [OF 1 2] 3] 4] 5] .
  show ?thesis
  proof (cases "co_has_drops ?c5")
    case True
    obtain ms tm where d: "wo_drops wo (co_transfers ?c5) = (ms, tm)" by fastforce
    have ms: "\<forall>m \<in> set ms. drop_message m"
      using assms(1) arg_cong [OF d, of fst] unfolding world_ok_def by (metis fst_conv)
    have "quiet_core co (send_to_client ms (?c5\<lparr>co_transfers := tm\<rparr>))"
      by (rule send_after_quiet [OF quiet_trans [OF q quiet_fields]]) (use ms drop_message_polite in auto)
    then show ?thesis using True d by (simp add: apply_transfer_outcome_def Let_def)
  next
    case False
    then show ?thesis using q by (simp add: apply_transfer_outcome_def Let_def)
  qed
qed

lemma outcome_after_quiet:
  assumes "world_ok cs wo" "all_transfer out" "quiet_core co co1"
  shows "quiet_core co (apply_transfer_outcome wo out co1)"
  by (rule quiet_trans [OF assms(3) apply_transfer_outcome_quiet [OF assms(1,2)]])

lemma handle_transfer_message_quiet:
  assumes w: "world_ok cs wo" and h: "handle_transfer_message wo msg co = (b, co')"
  shows "quiet_core co co'"
proof (cases "\<exists>i replace. msg = TransferOptions i replace")
  case True
  then show ?thesis using h by (auto simp: handle_transfer_message_def intro!: quiet_fields split: if_splits)
next
  case False
  define co1 where "co1 = (case msg of
      TransferEnd i False _ \<Rightarrow> co\<lparr>co_pending_downloads := hm_remove i (co_pending_downloads co)\<rparr> | _ \<Rightarrow> co)"
  define rc where "rc = (case msg of
      TransferOffer i _ _ _ \<Rightarrow>
        ((case co_upload_options co1 of None \<Rightarrow> False | Some (offered, replace) \<Rightarrow> offered = i \<and> replace),
         co1\<lparr>co_upload_options := None\<rparr>)
    | _ \<Rightarrow> (False, co1))"
  have q: "quiet_core co (snd rc)"
    unfolding rc_def co1_def by (auto split: message.splits bool.splits intro!: quiet_fields)
  define p where "p = \<lparr>sp_replace = fst rc, sp_upload_dir = op_upload_dir (co_opts (snd rc)),
      sp_staging = (if co_has_drops (snd rc)
        then fold (\<lambda>(i, d). hm_insert i d) (wo_drop_staging wo) (co_staging_downloads (snd rc))
        else co_staging_downloads (snd rc))\<rparr>"
  obtain o' tm p' where r: "handle (session_accept (wo_create wo) (wo_quote wo)) msg (co_transfers (snd rc)) p = (o', tm, p')"
    by (metis prod_cases3)
  have eq: "handle_transfer_message wo msg co =
      (case handle (session_accept (wo_create wo) (wo_quote wo)) msg (co_transfers (snd rc)) p of
         (None, tm, _) \<Rightarrow> (False, (snd rc)\<lparr>co_transfers := tm\<rparr>)
       | (Some out, tm, _) \<Rightarrow> (True, apply_transfer_outcome wo out ((snd rc)\<lparr>co_transfers := tm\<rparr>)))"
    using False unfolding handle_transfer_message_def Let_def co1_def [symmetric] rc_def [symmetric]
    by (cases msg) (simp_all only: p_def case_prod_unfold message.simps simp_thms message.case fst_conv snd_conv, blast)
  have "handle_transfer_message wo msg co =
      (case o' of None \<Rightarrow> (False, (snd rc)\<lparr>co_transfers := tm\<rparr>)
       | Some out \<Rightarrow> (True, apply_transfer_outcome wo out ((snd rc)\<lparr>co_transfers := tm\<rparr>)))"
    unfolding eq r by (cases o') simp_all
  moreover have "quiet_core co ((snd rc)\<lparr>co_transfers := tm\<rparr>)"
    by (rule quiet_trans [OF q quiet_fields]) simp_all
  moreover have "all_transfer out" if "o' = Some out" for out
    by (rule handle_replies [OF r [unfolded that]])
  ultimately show ?thesis using h outcome_after_quiet [OF w] by (auto split: option.splits)
qed

lemma poll_quiet: "world_ok cs wo \<Longrightarrow> poll order (co_transfers co) = (out, tm) \<Longrightarrow>
    quiet_core co (apply_transfer_outcome wo out (co\<lparr>co_transfers := tm\<rparr>))"
  by (rule outcome_after_quiet [OF _ poll_replies quiet_fields]) simp_all

lemma sync_pointer_quiet: "sync_pointer wo co = (co', err) \<Longrightarrow> quiet_core co co'"
proof -
  have "quiet_client c (snd (client_send (CursorPosition x y) (c\<lparr>cl_last_sent_pointer := p\<rparr>)))" for c x y p
    by (rule quiet_client_trans [OF _ client_send_quiet]) (simp_all add: quiet_client_def)
  then show "sync_pointer wo co = (co', err) \<Longrightarrow> quiet_core co co'"
    by (auto simp: sync_pointer_def quiet_core_def split: option.splits if_splits intro: option.rel_refl)
qed

lemma refresh_cursor_quiet: "refresh_cursor wo co = (co', err) \<Longrightarrow> quiet_core co co'"
  by (auto simp: refresh_cursor_def split: option.splits if_splits
      intro!: quiet_trans [OF quiet_fields quiet_with_client] client_send_quiet)

lemma expire_download_quiet: "quiet_core co (expire_download i co)"
  by (auto simp: expire_download_def intro!: send_after_quiet quiet_fields)

lemma housekeep_client_quiet: "housekeep_client wo c = (b, c') \<Longrightarrow> quiet_client c c'"
proof -
  have "quiet_client c (snd (client_send (Ping n) (c\<lparr>cl_ping_nonce := n, cl_last_ping_at := t\<rparr>)))" for n t
    by (rule quiet_client_trans [OF _ client_send_quiet]) (simp_all add: quiet_client_def)
  then show "housekeep_client wo c = (b, c') \<Longrightarrow> quiet_client c c'"
    by (auto simp: housekeep_client_def split: if_splits)
qed


section \<open>The core's invariant\<close>

text \<open>
  The sizes agree: the encoder, the captured screen and the served size; the served size is within
  what the capture was made for, which fits the segment and 16-bit wire fields.
\<close>

definition core_ok :: "core \<Rightarrow> bool" where
  "core_ok co \<longleftrightarrow>
     (let (mw, mh) = co_capture_max co; (w, h) = co_served co in
        1 \<le> w \<and> w \<le> mw \<and> 1 \<le> h \<and> h \<le> mh \<and> mw < 2 ^ 16 \<and> mh < 2 ^ 16 \<and> mw * mh < 2 ^ 30 \<and>
        capture_ok mw (co_capture co) \<and>
        encoder_wf (co_encoder co) \<and> enc_tile (co_encoder co) = TILE_SIZE \<and>
        fb_width (enc_prev (co_encoder co)) = w \<and> fb_height (enc_prev (co_encoder co)) = h \<and>
        colours (co_screen co) \<and> fb_width (co_screen co) = w \<and> fb_height (co_screen co) = h)"

lemma colours_rgb: "colours fb \<longleftrightarrow> fb_rgb fb"
  by (simp add: colours_def fb_rgb_def visible_def)

lemma core_okE:
  assumes "core_ok co"
  obtains w h mw mh where "co_served co = (w, h)" "co_capture_max co = (mw, mh)"
    "1 \<le> w" "w \<le> mw" "1 \<le> h" "h \<le> mh" "mw < 2 ^ 16" "mh < 2 ^ 16" "mw * mh < 2 ^ 30"
    "capture_ok mw (co_capture co)" "encoder_wf (co_encoder co)" "enc_tile (co_encoder co) = TILE_SIZE"
    "fb_width (enc_prev (co_encoder co)) = w" "fb_height (enc_prev (co_encoder co)) = h"
    "colours (co_screen co)" "fb_width (co_screen co) = w" "fb_height (co_screen co) = h"
  using assms by (auto simp: core_ok_def split: prod.splits)

lemma core_okI:
  assumes "co_served co = (w, h)" "co_capture_max co = (mw, mh)"
    "1 \<le> w" "w \<le> mw" "1 \<le> h" "h \<le> mh" "mw < 2 ^ 16" "mh < 2 ^ 16" "mw * mh < 2 ^ 30"
    "capture_ok mw (co_capture co)" "encoder_wf (co_encoder co)" "enc_tile (co_encoder co) = TILE_SIZE"
    "fb_width (enc_prev (co_encoder co)) = w" "fb_height (enc_prev (co_encoder co)) = h"
    "colours (co_screen co)" "fb_width (co_screen co) = w" "fb_height (co_screen co) = h"
  shows "core_ok co"
  using assms by (simp add: core_ok_def)

text \<open>\<open>core_ok\<close> is about the screen only.\<close>

lemma core_ok_cong:
  assumes "co_served co' = co_served co" "co_capture_max co' = co_capture_max co" "co_capture co' = co_capture co"
    and "co_encoder co' = co_encoder co" "co_screen co' = co_screen co"
  shows "core_ok co' = core_ok co"
  using assms by (simp add: core_ok_def)

lemma core_ok_quiet: "quiet_core co co' \<Longrightarrow> core_ok co' = core_ok co"
  by (rule core_ok_cong) (simp_all add: quiet_core_def)

lemma with_client_fields [simp]:
  "co_served (with_client f co) = co_served co" "co_capture_max (with_client f co) = co_capture_max co"
  "co_capture (with_client f co) = co_capture co" "co_encoder (with_client f co) = co_encoder co"
  "co_screen (with_client f co) = co_screen co" "co_client (with_client f co) = map_option f (co_client co)"
  "co_opts (with_client f co) = co_opts co" "co_next_generation (with_client f co) = co_next_generation co"
  "co_has_drops (with_client f co) = co_has_drops co" "co_display_size (with_client f co) = co_display_size co"
  by (simp_all add: with_client_def)

lemma core_ok_with_client [simp]: "core_ok (with_client f co) = core_ok co"
  by (rule core_ok_cong) simp_all

lemma wf_of_dims: "encoder_wf e \<Longrightarrow> fb_wf (enc_prev e)"
  by (simp add: encoder_wf_def)

section \<open>What the client shows\<close>

text \<open>
  The client's decoder after a message: \<open>None\<close> when the message makes no sense to it. A hello
  makes a new decoder.
\<close>

fun show_message :: "compressors \<Rightarrow> message \<Rightarrow> decoder option \<Rightarrow> decoder option option" where
  "show_message cs (ServerHello _ _ _ _ _ w h) d = Some (Some (decoder_new (unat w) (unat h)))"
| "show_message cs (ScreenUpdate _ copies tiles) d =
     (case d of
        None \<Rightarrow> None
      | Some d \<Rightarrow> (case decoder_apply_frame cs copies tiles d of Some (d', Inr _) \<Rightarrow> Some (Some d') | _ \<Rightarrow> None))"
| "show_message cs (ScreenResized w h) d =
     (case d of None \<Rightarrow> None | Some d \<Rightarrow> map_option Some (decoder_resize (unat w) (unat h) d))"
| "show_message cs _ d = Some d"

definition show_messages :: "compressors \<Rightarrow> message list \<Rightarrow> decoder option \<Rightarrow> decoder option option" where
  "show_messages cs ms d = ofold (show_message cs) ms d"

lemma show_messages_append:
  "show_messages cs (ms @ ns) d = Option.bind (show_messages cs ms d) (show_messages cs ns)"
  by (simp add: show_messages_def [abs_def] ofold_append)

lemma show_messages_Nil [simp]: "show_messages cs [] d = Some d"
  by (simp add: show_messages_def)

lemma polite_shows: "polite f m \<Longrightarrow> show_message cs m d = Some d"
  by (cases m) auto

lemma polite_all_show: "\<forall>m \<in> set ms. \<exists>f. polite f m \<Longrightarrow> show_messages cs ms d = Some d"
  unfolding show_messages_def by (induction ms) (auto simp: polite_shows)

text \<open>
  A connected client that has not been lost either has not been greeted and has nothing about the
  screen under way, or everything under way (\<open>pend\<close>, taken from the queue but not yet processed, then
  the queue) leads its decoder to what \<open>P\<close> says.
\<close>

definition leads_to :: "(decoder \<Rightarrow> bool) \<Rightarrow> compressors \<Rightarrow> message list \<Rightarrow> decoder option \<Rightarrow> client \<Rightarrow> bool" where
  "leads_to P cs pend d c \<longleftrightarrow> cl_dead c \<or>
     (if cl_ready c then \<exists>d'. show_messages cs (pend @ cl_queue c) d = Some (Some d') \<and> P d'
      else \<forall>m \<in> set (pend @ cl_queue c). \<exists>f. polite f m)"

definition follows :: "compressors \<Rightarrow> message list \<Rightarrow> decoder option \<Rightarrow> core \<Rightarrow> bool" where
  "follows cs pend d co \<longleftrightarrow>
     (\<forall>c. co_client co = Some c \<longrightarrow>
        leads_to (\<lambda>d'. in_sync (enc_prev (co_encoder co)) (dec_fb d')) cs pend d c)"

lemma leads_to_quiet: "quiet_client c c' \<Longrightarrow> leads_to P cs pend d c \<Longrightarrow> leads_to P cs pend d c'"
proof -
  assume q: "quiet_client c c'" and l: "leads_to P cs pend d c"
  obtain ms where ms: "cl_queue c' = cl_queue c @ ms" "\<forall>m \<in> set ms. polite (cl_features c) m"
    using q by (auto simp: quiet_client_def)
  then have "show_messages cs ms x = Some x" for x by (intro polite_all_show) blast
  then have "show_messages cs (pend @ cl_queue c') d = show_messages cs (pend @ cl_queue c) d"
    by (simp add: ms(1) show_messages_append flip: append_assoc)
      (cases "show_messages cs pend d"; cases "show_messages cs (pend @ cl_queue c) d"; simp add: show_messages_append Option.bind_assoc)
  moreover have "cl_ready c' = cl_ready c" "cl_dead c \<Longrightarrow> cl_dead c'" using q by (auto simp: quiet_client_def)
  ultimately show ?thesis using l ms by (auto simp: leads_to_def split: if_splits)
qed

lemma follows_quiet: "quiet_core co co' \<Longrightarrow> follows cs pend d co \<Longrightarrow> follows cs pend d co'"
  unfolding follows_def quiet_core_def by (auto elim!: option.rel_cases intro: leads_to_quiet)

lemma leads_to_cong:
  "cl_dead c' = cl_dead c \<Longrightarrow> cl_ready c' = cl_ready c \<Longrightarrow> cl_queue c' = cl_queue c \<Longrightarrow>
     leads_to P cs pend d c' = leads_to P cs pend d c"
  by (simp add: leads_to_def)

lemma leads_to_mono: "leads_to P cs pend d c \<Longrightarrow> (\<And>d. P d \<Longrightarrow> Q d) \<Longrightarrow> leads_to Q cs pend d c"
  by (auto simp: leads_to_def)

text \<open>A client that shows some framebuffer of the served size.\<close>

definition sized :: "nat \<times> nat \<Rightarrow> decoder \<Rightarrow> bool" where
  "sized wh d \<longleftrightarrow> fb_wf (dec_fb d) \<and> fb_width (dec_fb d) = fst wh \<and> fb_height (dec_fb d) = snd wh"

lemma in_sync_sized: "core_ok co \<Longrightarrow> in_sync (enc_prev (co_encoder co)) (dec_fb d) \<Longrightarrow> sized (co_served co) d"
  by (auto simp: sized_def in_sync_def same_size_def elim!: core_okE)

section \<open>Refreshing\<close>

lemma force_full_refresh_ok:
  assumes ok: "core_ok co"
  obtains co' prev where "force_full_refresh co = Some co'"
    "co' = with_client (\<lambda>c. c\<lparr>cl_full_refresh := True\<rparr>)
       (co\<lparr>co_encoder := (co_encoder co)\<lparr>enc_prev := prev\<rparr>, co_dirty := True\<rparr>)"
    "core_ok co'" "\<And>d. sized (co_served co) d \<Longrightarrow> in_sync prev (dec_fb d)"
proof -
  obtain w h mw mh where c: "co_served co = (w, h)" "co_capture_max co = (mw, mh)"
    "1 \<le> w" "w \<le> mw" "1 \<le> h" "h \<le> mh" "mw < 2 ^ 16" "mh < 2 ^ 16" "mw * mh < 2 ^ 30"
    "capture_ok mw (co_capture co)" "encoder_wf (co_encoder co)" "enc_tile (co_encoder co) = TILE_SIZE"
    "fb_width (enc_prev (co_encoder co)) = w" "fb_height (enc_prev (co_encoder co)) = h"
    "colours (co_screen co)" "fb_width (co_screen co) = w" "fb_height (co_screen co) = h"
    by (rule core_okE [OF ok])
  have r: "rect_wf (rect_new 0 0 w h)" using c by (simp add: rect_wf_def)
  obtain prev where p: "encoder_invalidate (rect_new 0 0 w h) (co_encoder co) = Some ((co_encoder co)\<lparr>enc_prev := prev\<rparr>)"
    "fb_wf prev" "same_size prev (enc_prev (co_encoder co))"
    "\<And>x y. x < fb_width prev \<Longrightarrow> y < fb_height prev \<Longrightarrow> px prev x y =
       (if inside (rect_new 0 0 w h) x y then 0xFFFFFFFF else px (enc_prev (co_encoder co)) x y)"
    by (rule encoder_invalidate_Some [OF wf_of_dims [OF c(11)] r]) blast
  let ?co = "with_client (\<lambda>c. c\<lparr>cl_full_refresh := True\<rparr>)
       (co\<lparr>co_encoder := (co_encoder co)\<lparr>enc_prev := prev\<rparr>, co_dirty := True\<rparr>)"
  have "force_full_refresh co = Some ?co" using c(1) p(1) by (simp add: force_full_refresh_def)
  moreover have "core_ok ?co"
    unfolding core_ok_with_client
    by (rule core_okI [of _ w h mw mh])
      (use c p encoder_wf_prev [OF c(11) p(3,2)] in \<open>auto simp: same_size_def\<close>)
  moreover have "in_sync prev (dec_fb d)" if "sized (co_served co) d" for d
  proof -
    have "px prev x y = 0xFFFFFFFF" if "x < fb_width prev" "y < fb_height prev" for x y
      using p(3,4) that c by (simp add: same_size_def inside_def)
    then show ?thesis
      using that p(2,3) c sentinel_not_visible by (auto simp: in_sync_def sized_def same_size_def)
  qed
  ultimately show ?thesis using that by blast
qed

lemma force_full_refresh_follows:
  assumes "core_ok co" "\<And>c. co_client co = Some c \<Longrightarrow> leads_to (sized (co_served co)) cs pend d c"
    and "force_full_refresh co = Some co'"
  shows "core_ok co' \<and> follows cs pend d co'"
proof -
  obtain co1 prev where f: "force_full_refresh co = Some co1"
    "co1 = with_client (\<lambda>c. c\<lparr>cl_full_refresh := True\<rparr>)
       (co\<lparr>co_encoder := (co_encoder co)\<lparr>enc_prev := prev\<rparr>, co_dirty := True\<rparr>)"
    "core_ok co1" "\<And>d. sized (co_served co) d \<Longrightarrow> in_sync prev (dec_fb d)"
    by (rule force_full_refresh_ok [OF assms(1)]) blast
  have "follows cs pend d co1"
    unfolding follows_def f(2)
    using assms(2) f(4) leads_to_mono [of "sized (co_served co)" cs pend d _ "\<lambda>d'. in_sync prev (dec_fb d')"]
    by (auto simp: leads_to_cong [of "_\<lparr>cl_full_refresh := True\<rparr>"])
  then show ?thesis using f(1,3) assms(3) by simp
qed

lemma follows_sized:
  "core_ok co \<Longrightarrow> follows cs pend d co \<Longrightarrow> co_client co = Some c \<Longrightarrow> leads_to (sized (co_served co)) cs pend d c"
  unfolding follows_def by (blast intro: leads_to_mono in_sync_sized)

end
