(* ===== verification/Session_Sync.thy ===== *)
theory Session_Sync
  imports Session_Screen
begin

text \<open>
  The handlers that move the screen, one by one: a new size, a frame, a hello, connections coming and
  going. Each keeps the core's invariant and leaves the client's decoder following the encoder, and
  none of them panics.
\<close>

section \<open>Cores whose client follows\<close>

definition good :: "compressors \<Rightarrow> message list \<Rightarrow> decoder option \<Rightarrow> core \<Rightarrow> bool" where
  "good cs pend d co \<longleftrightarrow> core_ok co \<and> follows cs pend d co"

lemma good_quiet: "quiet_core co co' \<Longrightarrow> good cs pend d co \<Longrightarrow> good cs pend d co'"
  by (simp add: good_def core_ok_quiet follows_quiet)

lemma follows_cong:
  "co_client co' = co_client co \<Longrightarrow> co_encoder co' = co_encoder co \<Longrightarrow> follows cs pend d co' = follows cs pend d co"
  by (simp add: follows_def)

lemma good_cong:
  assumes "good cs pend d co"
    and "co_served co' = co_served co" "co_capture_max co' = co_capture_max co" "co_capture co' = co_capture co"
    and "co_encoder co' = co_encoder co" "co_screen co' = co_screen co" "co_client co' = co_client co"
  shows "good cs pend d co'"
  using assms(1) core_ok_cong [OF assms(2-6)] follows_cong [OF assms(7,5)] by (simp add: good_def)

text \<open>Changes of the client that touch neither its queue nor whether it was greeted or lost.\<close>

lemma good_with_client:
  assumes "\<And>c. cl_dead (f c) = cl_dead c \<and> cl_ready (f c) = cl_ready c \<and> cl_queue (f c) = cl_queue c"
  shows "good cs pend d (with_client f co) = good cs pend d co"
proof -
  have "leads_to P cs pend d (f c) = leads_to P cs pend d c" for P c by (rule leads_to_cong) (simp_all add: assms)
  then show ?thesis by (auto simp: good_def follows_def)
qed

lemma good_no_client: "core_ok co \<Longrightarrow> co_client co = None \<Longrightarrow> good cs pend d co"
  by (simp add: good_def follows_def)

lemma force_full_refresh_good:
  assumes "good cs pend d co"
  shows "\<exists>co'. force_full_refresh co = Some co' \<and> good cs pend d co'"
proof -
  have g: "core_ok co" "follows cs pend d co" using assms by (auto simp: good_def)
  obtain co' where f: "force_full_refresh co = Some co'"
    by (rule force_full_refresh_ok [OF g(1)])
  show ?thesis
    using f force_full_refresh_follows [OF g(1) follows_sized [OF g] f] by (auto simp: good_def)
qed

section \<open>Size changes\<close>

lemma decoder_resize_sized:
  assumes "fb_wf (dec_fb d)" "w < 2 ^ 16" "h < 2 ^ 16"
  obtains d' where "show_message cs (ScreenResized (of_nat w) (of_nat h)) (Some d) = Some (Some d')" "sized (w, h) d'"
proof -
  have n: "unat (of_nat w :: u16) = w" "unat (of_nat h :: u16) = h"
    using assms(2,3) by (simp_all add: unat_of_nat take_bit_nat_eq_self)
  obtain fb where "fb_resize (dec_fb d) w h = Some fb" "fb_wf fb" "fb_width fb = w" "fb_height fb = h"
    by (rule fb_resize_Some [OF assms(1), of w h]) (use assms in auto)
  then show ?thesis by (intro that [of "d\<lparr>dec_fb := fb\<rparr>"]) (simp_all add: decoder_resize_def sized_def n)
qed

lemma send_resized_leads:
  assumes "leads_to (\<lambda>d. fb_wf (dec_fb d)) cs pend d c" "w < 2 ^ 16" "h < 2 ^ 16"
  shows "leads_to (sized (w, h)) cs pend d
    (if cl_ready c then snd (client_send (ScreenResized (of_nat w) (of_nat h)) c) else c)"
proof (cases "cl_ready c")
  case True
  let ?m = "ScreenResized (of_nat w) (of_nat h)"
  consider "cl_dead (snd (client_send ?m c))"
    | "\<not> cl_dead c" "cl_queue (snd (client_send ?m c)) = cl_queue c @ [?m]" "cl_ready (snd (client_send ?m c))"
    by (cases rule: client_send_cases [of ?m c]) (auto simp: True)
  then show ?thesis
  proof cases
    case 2
    then obtain d1 where d1: "show_messages cs (pend @ cl_queue c) d = Some (Some d1)" "fb_wf (dec_fb d1)"
      using assms(1) True by (auto simp: leads_to_def)
    obtain d2 where d2: "show_message cs ?m (Some d1) = Some (Some d2)" "sized (w, h) d2"
      by (rule decoder_resize_sized [OF d1(2) assms(2,3)])
    have "show_messages cs ((pend @ cl_queue c) @ [?m]) d = Some (Some d2)"
      using show_messages_append [of cs "pend @ cl_queue c" "[?m]" d] d1(1) d2(1)
      by (simp add: show_messages_def [of cs "[?m]"])
    then show ?thesis using 2 True d2(2) by (auto simp: leads_to_def)
  qed (simp add: leads_to_def True)
qed (use assms(1) in \<open>auto simp: leads_to_def\<close>)

lemma core_ok_new_size:
  assumes "core_ok co" "co_capture_max co = (mw, mh)" "1 \<le> w" "w \<le> mw" "1 \<le> h" "h \<le> mh"
  shows "core_ok (co\<lparr>co_served := (w, h), co_screen := fb_new w h, co_encoder := encoder_resize w h (co_encoder co)\<rparr>)"
proof -
  have max: "mw < 2 ^ 16" "mh < 2 ^ 16" "mw * mh < 2 ^ 30" "capture_ok mw (co_capture co)"
    "enc_tile (co_encoder co) = TILE_SIZE"
    using assms(1,2) by (auto elim!: core_okE)
  have wh: "w < 2 ^ 32" "h < 2 ^ 32" using assms max(1,2) by simp_all
  have "w * h \<le> mw * mh" using assms by (intro mult_le_mono)
  then have "encoder_wf (encoder_resize w h (co_encoder co))"
    using assms max wh fb_new_wf [OF wh]
    by (simp add: encoder_wf_def encoder_resize_def TILE_SIZE_def) (simp add: fb_new_def fb_bounds_def area_def)
  moreover have "colours (fb_new w h)"
    using fb_new_wf [OF wh] px_new [of _ w _ h] by (auto simp: colours_def) (simp add: fb_new_def)+
  ultimately show ?thesis
    using assms max by (intro core_okI [of _ w h mw mh]) (auto simp: encoder_resize_def fb_new_def)
qed

lemma adopt_size_good:
  assumes "good cs pend d co"
  shows "\<exists>co'. adopt_size width height co = Some co' \<and> good cs pend d co'"
proof -
  have g: "core_ok co" "follows cs pend d co" using assms by (auto simp: good_def)
  obtain mw mh where m: "co_capture_max co = (mw, mh)" "1 \<le> mw" "1 \<le> mh" "mw < 2 ^ 16" "mh < 2 ^ 16"
    by (rule core_okE [OF g(1)]) (metis le_trans)
  let ?w = "clamp 1 mw width" and ?h = "clamp 1 mh height"
  have wh: "1 \<le> ?w" "?w \<le> mw" "1 \<le> ?h" "?h \<le> mh" using clamp_bounds m by auto
  show ?thesis
  proof (cases "(?w, ?h) = co_served co")
    case True
    then show ?thesis using assms m by (simp add: adopt_size_def Let_def)
  next
    case False
    let ?co1 = "co\<lparr>co_served := (?w, ?h), co_screen := fb_new ?w ?h,
                         co_encoder := encoder_resize ?w ?h (co_encoder co)\<rparr>"
    let ?send = "\<lambda>c. if cl_ready c then snd (client_send (ScreenResized (of_nat ?w) (of_nat ?h)) c) else c"
    have ok1: "core_ok ?co1" by (rule core_ok_new_size [OF g(1) m(1) wh])
    obtain co2 prev where f: "force_full_refresh ?co1 = Some co2"
      "co2 = with_client (\<lambda>c. c\<lparr>cl_full_refresh := True\<rparr>)
         (?co1\<lparr>co_encoder := (co_encoder ?co1)\<lparr>enc_prev := prev\<rparr>, co_dirty := True\<rparr>)"
      "core_ok co2" "\<And>d. sized (co_served ?co1) d \<Longrightarrow> in_sync prev (dec_fb d)"
      by (rule force_full_refresh_ok [OF ok1]) blast
    have "adopt_size width height co = Some (with_client ?send co2)"
      unfolding adopt_size_def Let_def m(1) fst_conv snd_conv
      using m(2,3) False f(1) by simp
    moreover have sent: "leads_to (\<lambda>d'. in_sync prev (dec_fb d')) cs pend d (?send c)"
      if cl: "co_client co2 = Some c" for c
    proof -
      obtain c0 where c0: "co_client co = Some c0" "c = c0\<lparr>cl_full_refresh := True\<rparr>" using cl by (cases "co_client co") (auto simp: f(2))
      have "leads_to (\<lambda>d. fb_wf (dec_fb d)) cs pend d c0"
        using g(2) c0(1) by (auto simp: follows_def in_sync_def intro: leads_to_mono)
      then have "leads_to (\<lambda>d. fb_wf (dec_fb d)) cs pend d c" by (auto simp: c0(2) leads_to_def)
      then have "leads_to (sized (?w, ?h)) cs pend d (?send c)"
        by (rule send_resized_leads) (use wh m in linarith)+
      then show ?thesis by (rule leads_to_mono) (use f(4) in simp)
    qed
    have "follows cs pend d (with_client ?send co2)" unfolding follows_def
    proof (intro allI impI)
      fix c assume "co_client (with_client ?send co2) = Some c"
      then obtain c2 where c2: "co_client co2 = Some c2" "c = ?send c2"
        unfolding with_client_fields map_option_eq_Some by blast
      have e: "co_encoder (with_client ?send co2) = (co_encoder ?co1)\<lparr>enc_prev := prev\<rparr>" by (simp add: f(2))
      show "leads_to (\<lambda>d'. in_sync (enc_prev (co_encoder (with_client ?send co2))) (dec_fb d')) cs pend d c"
        unfolding e c2(2) using sent [OF c2(1)] by simp
    qed
    then have "good cs pend d (with_client ?send co2)" using f(3) by (simp add: good_def)
    ultimately show ?thesis by blast
  qed
qed

lemma reread_size_good:
  assumes "good cs pend d co"
  shows "\<exists>co'. reread_size wo co = Some co' \<and> good cs pend d co'"
proof (cases "wo_size wo")
  case (Some wh)
  have "good cs pend d (co\<lparr>co_display_size := wh\<rparr>)" by (rule good_cong [OF assms]) simp_all
  from adopt_size_good [OF this] Some show ?thesis by (cases wh) (auto simp: reread_size_def)
qed (use assms in \<open>simp add: reread_size_def\<close>)

lemma apply_resize_good:
  assumes "good cs pend d co"
  shows "\<exists>co'. apply_resize wo width height co = Some co' \<and> good cs pend d co'"
proof -
  have "good cs pend d (co\<lparr>co_display_size := wh\<rparr>)" for wh by (rule good_cong [OF assms]) simp_all
  from this adopt_size_good [OF this] show ?thesis
    by (auto simp: apply_resize_def Let_def split: prod.splits)
qed

lemma on_resize_request_good:
  assumes "good cs pend d co"
  shows "\<exists>co'. on_resize_request wo width height co = Some co' \<and> good cs pend d co'"
  using assms apply_resize_good [OF assms] by (auto simp: on_resize_request_def split: option.splits)

section \<open>Frames\<close>

text \<open>A frame sent in parts does to the decoder what its parts do one after the other.\<close>

lemma show_update:
  "decoder_apply_frame cs copies tiles d = Some (d', Inr r) \<Longrightarrow>
     show_message cs (ScreenUpdate fid copies tiles) (Some d) = Some (Some d')"
  by simp

lemma show_messages_snoc:
  assumes "show_messages cs ms d = Some d1" "show_message cs m d1 = Some d2"
  shows "show_messages cs (ms @ [m]) d = Some d2"
  using assms show_messages_append [of cs ms "[m]" d] by (simp add: show_messages_def [of cs "[m]"])

lemma send_parts_leads:
  assumes "apply_messages cs ps d1 = Some (d2, Inr ())" "show_messages cs (pend @ cl_queue c) d = Some (Some d1)"
    and "cl_ready c" "send_parts now ps c = (ok, c')"
  shows "cl_ready c' \<and> (ok \<or> cl_dead c') \<and>
    (cl_dead c' \<or> show_messages cs (pend @ cl_queue c') d = Some (Some d2))"
  using assms
proof (induction ps arbitrary: c d1)
  case (Cons p ps)
  define c1 where "c1 = c\<lparr>cl_next_frame_id := cl_next_frame_id c + 1\<rparr>"
  define fid where "fid = cl_next_frame_id c"
  define m where "m = ScreenUpdate fid (fst p) (snd p)"
  have c1: "cl_queue c1 = cl_queue c" "cl_ready c1" using Cons.prems(3) by (simp_all add: c1_def)
  obtain d' r where d': "decoder_apply_frame cs (fst p) (snd p) d1 = Some (d', Inr r)"
    "apply_messages cs ps d' = Some (d2, Inr ())"
    using Cons.prems(1)
    by (cases "decoder_apply_frame cs (fst p) (snd p) d1" rule: option.exhaust) (auto split: sum.splits elim: sum.exhaust)
  have m: "show_message cs m (Some d1) = Some (Some d')" using d'(1) by (simp add: m_def)
  have step: "send_parts now (p # ps) c = (case client_send m c1 of (ok, c) \<Rightarrow>
      if ok then send_parts now ps (c\<lparr>cl_in_flight := cl_in_flight c @ [(fid, now)],
          cl_frames_sent := cl_frames_sent c + 1\<rparr>) else (False, c))"
    unfolding m_def c1_def fid_def by (simp add: Let_def)
  show ?case
  proof (cases rule: client_send_cases [of m c1])
    case 1
    then show ?thesis using Cons.prems(4) c1 unfolding step by auto
  next
    case 2
    then show ?thesis using Cons.prems(4) c1 unfolding step by auto
  next
    case (3 n)
    let ?c = "c1\<lparr>cl_queue := cl_queue c1 @ [m], cl_bytes_sent := n,
        cl_in_flight := cl_in_flight c1 @ [(fid, now)],
        cl_frames_sent := cl_frames_sent c1 + 1\<rparr>"
    have s: "send_parts now ps ?c = (ok, c')" using Cons.prems(4) unfolding step 3(1) by simp
    have q: "show_messages cs (pend @ cl_queue ?c) d = Some (Some d')"
      using show_messages_snoc [OF Cons.prems(2) m] c1 by simp
    show ?thesis by (rule Cons.IH [OF d'(2) q _ s]) (simp add: c1(2))
  qed
qed simp

text \<open>The rectangles of a frame stay within the decoder's budget.\<close>

lemma frame_rects_ok:
  assumes b: "bounds = rect_new 0 0 w h" and w: "1 \<le> w" "w < 2 ^ 16" "1 \<le> h" "h < 2 ^ 16" "w * h < 2 ^ 30"
  obtains rects where "frame_rects full bounds raw = Some rects" "\<forall>r \<in> set rects. rect_wf r \<and> rect_contains bounds r"
    "sum_list (map area rects) \<le> area bounds" "full \<Longrightarrow> rects = [bounds]"
    "\<forall>x y. covers (damage_rects raw) x y \<longrightarrow> inside bounds x y \<longrightarrow> covers rects x y"
proof -
  have bw: "rect_wf bounds" using b w by (simp add: rect_wf_def)
  have bb: "rect_contains bounds bounds" by (simp add: rect_contains_def)
  obtain m where m: "coalesce (damage_rects raw) TILE_SIZE bounds = Some m" "rects_ok bounds m"
    "\<forall>x y. covers (damage_rects raw) x y \<longrightarrow> inside bounds x y \<longrightarrow> covers m x y"
    by (rule coalesce_ok [of TILE_SIZE bounds "damage_rects raw"]) (use bw damage_rects_small in \<open>auto simp: TILE_SIZE_def\<close>)
  have areas: "\<forall>r \<in> set m. area r \<le> area bounds"
  proof
    fix r assume "r \<in> set m"
    then have "rect_wf r" "rect_contains bounds r" "\<not> rect_is_empty r" using m(2) by (auto simp: rects_ok_def)
    then have "rwidth r \<le> w" "rheight r \<le> h"
      using bw unfolding b by (auto simp: rect_contains_def no_wrap)
    then show "area r \<le> area bounds" unfolding b area_def by (simp add: mult_le_mono)
  qed
  have ab: "area bounds < 2 ^ 30" using w(5) by (simp add: b area_def)
  have total: "sum_list (map area m) \<le> area bounds"
    if "\<not> (MAX_CAPTURE_RECTS < length m \<or> area bounds < (total_area m * 2) mod 2 ^ 64)"
  proof -
    have "sum_list (map area m) \<le> length m * area bounds"
      using areas by (induction m) auto
    also have "\<dots> \<le> 24 * area bounds" using that by (intro mult_le_mono) (auto simp: MAX_CAPTURE_RECTS_def)
    finally have s: "sum_list (map area m) < 2 ^ 35" using ab by simp
    then have "total_area m = sum_list (map area m)" by (simp add: total_area_def)
    moreover have "sum_list (map area m) * 2 mod 2 ^ 64 = sum_list (map area m) * 2" using s by simp
    ultimately show ?thesis using that by simp
  qed
  show ?thesis
  proof (cases "full \<or> MAX_CAPTURE_RECTS < length m \<or> area bounds < (total_area m * 2) mod 2 ^ 64")
    case True
    then show ?thesis by (intro that [of "[bounds]"]) (use m(1) bw bb in \<open>auto simp: frame_rects_def\<close>)
  next
    case False
    then show ?thesis
      using m total by (intro that [of m]) (auto simp: frame_rects_def rects_ok_def)
  qed
qed

lemma paints_nothing: "applies_whole cs \<lparr>fu_copies = [], fu_tiles = []\<rparr> d d' \<Longrightarrow> d' = d"
  by (auto simp: applies_whole_def apply_copies_def)

text \<open>An encoded frame reaches the client, or the client is lost.\<close>

lemma deliver_frame_leads:
  assumes c: "co_client co = Some c" "cl_ready c" and before: "leads_to R cs pend d c"
    and frame: "\<And>d1. R d1 \<Longrightarrow> \<exists>d2. applies_whole cs f d1 d2 \<and> Q d2"
  obtains c' where "co_client (fst (deliver_frame wo f co)) = Some c'" "leads_to Q cs pend d c'" "cl_ready c'"
proof -
  let ?c = "c\<lparr>cl_full_refresh := False\<rparr>"
  have now: "cl_dead c \<or> (\<exists>d1 d2. show_messages cs (pend @ cl_queue c) d = Some (Some d1) \<and>
      applies_whole cs f d1 d2 \<and> Q d2)"
    using before frame c(2) unfolding leads_to_def by auto
  show ?thesis
  proof (cases "fu_copies f = [] \<and> fu_tiles f = []")
    case True
    then have "f = \<lparr>fu_copies = [], fu_tiles = []\<rparr>" by (cases f) simp
    then have "leads_to Q cs pend d ?c" using now c(2) by (auto simp: leads_to_def dest!: paints_nothing)
    then show ?thesis using True by (intro that [of ?c]) (simp_all add: deliver_frame_def c Let_def)
  next
    case False
    obtain sent c' where s: "send_parts (wo_now wo) (split_frame (fu_copies f) (fu_tiles f)) ?c = (sent, c')" by fastforce
    have c': "leads_to Q cs pend d c' \<and> cl_ready c'"
    proof (cases "cl_dead c")
      case True
      then show ?thesis using s c(2)
        by (cases "split_frame (fu_copies f) (fu_tiles f)") (auto simp: Let_def client_send_def leads_to_def)
    next
      case False
      then obtain d1 d2 where d: "show_messages cs (pend @ cl_queue ?c) d = Some (Some d1)" "applies_whole cs f d1 d2" "Q d2"
        using now by auto
      have "apply_messages cs (split_frame (fu_copies f) (fu_tiles f)) d1 = Some (d2, Inr ())"
        by (rule split_frame_applies) (use d(2) in \<open>cases f; simp\<close>)
      from send_parts_leads [OF this d(1) _ s] c(2) d(3) show ?thesis by (auto simp: leads_to_def)
    qed
    show ?thesis
    proof (cases sent)
      case True
      let ?co = "co\<lparr>co_client := Some (c'\<lparr>cl_last_frame_at := Some (wo_now wo)\<rparr>)\<rparr>"
      obtain co1 err where p: "sync_pointer wo ?co = (co1, err)" by fastforce
      then have "rel_option quiet_client (co_client ?co) (co_client co1)"
        using sync_pointer_quiet unfolding quiet_core_def by blast
      then obtain c1 where c1: "co_client co1 = Some c1" "quiet_client (c'\<lparr>cl_last_frame_at := Some (wo_now wo)\<rparr>) c1"
        by (auto elim: option.rel_cases)
      have "leads_to Q cs pend d (c'\<lparr>cl_last_frame_at := Some (wo_now wo)\<rparr>)" using c' by (auto simp: leads_to_def)
      then have "leads_to Q cs pend d c1" by (rule leads_to_quiet [OF c1(2)])
      moreover have "cl_ready c1" using c1(2) c' by (simp add: quiet_client_def)
      moreover have "deliver_frame wo f co = (co1, err)" using False s True p by (auto simp: deliver_frame_def c(1) Let_def)
      ultimately show ?thesis using that c1(1) by simp
    next
      case unsent: False
      then have "deliver_frame wo f co = (co\<lparr>co_client := Some c'\<rparr>, None)"
        using False s by (auto simp: deliver_frame_def c(1) Let_def)
      then show ?thesis using that c' by simp
    qed
  qed
qed

lemma deliver_frame_fields:
  assumes "deliver_frame wo f co = (co', err)"
  shows "co_served co' = co_served co" "co_capture_max co' = co_capture_max co" "co_capture co' = co_capture co"
    "co_encoder co' = co_encoder co" "co_screen co' = co_screen co" "co_client co = None \<Longrightarrow> co_client co' = None"
  using assms by (auto simp: deliver_frame_def sync_pointer_def Let_def split: option.splits prod.splits bool.splits if_splits)

lemma deliver_frame_good:
  assumes ok: "core_ok co" and ready: "\<And>c. co_client co = Some c \<Longrightarrow> cl_ready c"
    and frame: "\<And>d1. in_sync old (dec_fb d1) \<Longrightarrow>
      \<exists>d2. applies_whole cs f d1 d2 \<and> in_sync (enc_prev (co_encoder co)) (dec_fb d2)"
    and before: "\<And>c. co_client co = Some c \<Longrightarrow> leads_to (\<lambda>d'. in_sync old (dec_fb d')) cs pend d c"
  shows "good cs pend d (fst (deliver_frame wo f co))"
proof -
  obtain co' err where d: "deliver_frame wo f co = (co', err)" by fastforce
  note fields = deliver_frame_fields [OF d]
  have "core_ok co'" using ok core_ok_cong [OF fields(1-5)] by simp
  moreover have "follows cs pend d co'"
  proof (cases "co_client co")
    case (Some c)
    obtain c' where "co_client co' = Some c'" "leads_to (\<lambda>d'. in_sync (enc_prev (co_encoder co)) (dec_fb d')) cs pend d c'"
      using deliver_frame_leads [where Q = "\<lambda>d'. in_sync (enc_prev (co_encoder co)) (dec_fb d')",
          OF Some ready [OF Some] before [OF Some] frame] d by (metis fst_conv)
    then show ?thesis by (simp add: follows_def fields)
  qed (use fields in \<open>simp add: follows_def\<close>)
  ultimately show ?thesis by (simp add: good_def d)
qed

text \<open>
  Encoding a frame the core captured: it cannot panic, and whatever decoder agrees with the encoder
  before it agrees after it.
\<close>

lemma encode_core_frame:
  assumes cs: "compressors_ok cs" and e: "encoder_wf e" and cur: "colours cur" "same_size cur (enc_prev e)"
    and rects: "\<forall>r \<in> set rects. rect_wf r \<and> rect_contains (fb_bounds cur) r"
    and areas: "sum_list (map area rects) \<le> area (fb_bounds cur)"
  obtains e' f where "encode_frame ord cs seed cur rects allow e = Some (e', f)" "encoder_wf e'"
    "same_size (enc_prev e') (enc_prev e)" "enc_tile e' = enc_tile e"
    "\<And>d1. in_sync (enc_prev e) (dec_fb d1) \<Longrightarrow>
       \<exists>d2. applies_whole cs f d1 d2 \<and> in_sync (enc_prev e') (dec_fb d2)"
    "\<And>d1 d2. in_sync (enc_prev e) (dec_fb d1) \<Longrightarrow> applies_whole cs f d1 d2 \<Longrightarrow>
       \<forall>x y. x < fb_width cur \<longrightarrow> y < fb_height cur \<longrightarrow> covers rects x y \<longrightarrow> px (dec_fb d2) x y = px cur x y"
proof -
  have wf: "fb_wf cur" using cur(1) by (simp add: colours_def)
  have "sum_list (map (\<lambda>r. area (rect_intersect r (fb_bounds cur))) rects) \<le> sum_list (map area rects)"
    using rects by (induction rects) (auto intro!: add_mono area_mono simp: inside_intersect wf)
  then have budget: "sum_list (map (\<lambda>r. area (rect_intersect r (fb_bounds cur))) rects)
      \<le> MAX_FRAME_PIXEL_FACTOR * area (fb_bounds cur)"
    using areas by (simp add: MAX_FRAME_PIXEL_FACTOR_def)
  have sync: "\<exists>e' f d2. encode_frame ord cs seed cur rects allow e = Some (e', f) \<and> encoder_wf e' \<and>
      enc_tile e' = enc_tile e \<and> in_sync (enc_prev e') (dec_fb d2) \<and> same_size (dec_fb d2) cur \<and> applies_whole cs f d1 d2 \<and>
      (\<forall>x y. x < fb_width cur \<longrightarrow> y < fb_height cur \<longrightarrow> covers rects x y \<longrightarrow> px (dec_fb d2) x y = px cur x y)"
    if "in_sync (enc_prev e) (dec_fb d1)" for d1
    using encode_frame_sync [OF cs e that _ cur(2) _ budget, of ord seed allow] rects cur(1)
    unfolding colours_rgb covers_def by blast
  have self: "in_sync (enc_prev e) (dec_fb \<lparr>dec_fb = enc_prev e\<rparr>)"
    using e by (simp add: in_sync_def encoder_wf_def)
  from sync [OF self] obtain e' f d0 where ef: "encode_frame ord cs seed cur rects allow e = Some (e', f)"
    "encoder_wf e'" "in_sync (enc_prev e') (dec_fb (d0 :: decoder))" "same_size (dec_fb d0) cur" "enc_tile e' = enc_tile e" by blast
  have whole: "d2 = d3" if "applies_whole cs f d1 d2" "applies_whole cs f d1 d3" for d1 d2 d3
  proof -
    have "fb' = fb''" if "paints cs ts fb fb'" "paints cs ts fb fb''" for ts fb fb' fb''
      using that by (induction ts arbitrary: fb) auto
    then show ?thesis using that by (fastforce simp: applies_whole_def)
  qed
  show ?thesis
  proof (rule that [OF ef(1,2)])
    show "same_size (enc_prev e') (enc_prev e)" using ef(3,4) cur(2) by (auto simp: in_sync_def same_size_def)
    show "enc_tile e' = enc_tile e" by (rule ef(5))
    show "\<exists>d2. applies_whole cs f d1 d2 \<and> in_sync (enc_prev e') (dec_fb d2)" if "in_sync (enc_prev e) (dec_fb d1)" for d1
      using sync [OF that] ef(1) by auto
    show "\<forall>x y. x < fb_width cur \<longrightarrow> y < fb_height cur \<longrightarrow> covers rects x y \<longrightarrow> px (dec_fb d2) x y = px cur x y"
      if "in_sync (enc_prev e) (dec_fb d1)" "applies_whole cs f d1 d2" for d1 d2
      using sync [OF that(1)] ef(1) whole [OF that(2)] by fastforce
  qed
qed

lemma fb_bounds_core: "core_ok co \<Longrightarrow> fb_bounds (co_screen co) = rect_new 0 0 (fst (co_served co)) (snd (co_served co))"
  by (auto elim!: core_okE simp: fb_bounds_def)

text \<open>The first half of sending a frame: what is captured, into what, and what is left to do.\<close>

definition is_full_frame :: "core \<Rightarrow> bool" where
  "is_full_frame co \<longleftrightarrow> (case co_client co of None \<Rightarrow> False | Some c \<Rightarrow> cl_full_refresh c)"

lemma send_frame_captures:
  assumes g: "good cs pend d co" and damage: "wo_damage wo = Some raw"
  obtains rects cap screen err co2 where
    "send_frame wo co = (case err of
       Some e \<Rightarrow>
         if \<not> is_geometry_error e \<or> STALE_CAPTURE_LIMIT \<le> co_stale_captures co2
         then Some (co2, Some (wo_error wo))
         else do { co \<leftarrow> reread_size wo (co2\<lparr>co_stale_captures := co_stale_captures co2 + 1\<rparr>);
                   co \<leftarrow> force_full_refresh co;
                   Some (co, None) }
     | None \<Rightarrow> do {
         (encoder, f) \<leftarrow> encode_frame (wo_hash_order wo) (wo_compressors wo) (wo_seed wo) screen rects (\<not> is_full_frame co)
            (co_encoder co);
         Some (deliver_frame wo f (co2\<lparr>co_stale_captures := 0, co_encoder := encoder\<rparr>)) })"
    "capture_many (wo_server wo) (wo_ahead wo) (wo_msb_first wo) (co_capture co) (co_screen co) rects = Some (cap, screen, err)"
    "co2 = co\<lparr>co_dirty := False, co_capture := cap, co_screen := screen\<rparr>" "good cs pend d co2"
    "\<forall>r \<in> set rects. rect_wf r \<and> rect_contains (fb_bounds screen) r" "sum_list (map area rects) \<le> area (fb_bounds screen)"
    "is_full_frame co \<Longrightarrow> rects = [fb_bounds screen]"
    "\<forall>x y. covers (damage_rects raw) x y \<longrightarrow> inside (fb_bounds screen) x y \<longrightarrow> covers rects x y"
    "same_size screen (co_screen co)"
proof -
  obtain wd h mw mh where c: "co_served co = (wd, h)" "co_capture_max co = (mw, mh)"
    "1 \<le> wd" "wd \<le> mw" "1 \<le> h" "h \<le> mh" "mw < 2 ^ 16" "mh < 2 ^ 16" "mw * mh < 2 ^ 30"
    "capture_ok mw (co_capture co)" "encoder_wf (co_encoder co)" "enc_tile (co_encoder co) = TILE_SIZE"
    "fb_width (enc_prev (co_encoder co)) = wd" "fb_height (enc_prev (co_encoder co)) = h"
    "colours (co_screen co)" "fb_width (co_screen co) = wd" "fb_height (co_screen co) = h"
    using g by (auto simp: good_def elim!: core_okE)
  define bounds where "bounds = rect_new 0 0 wd h"
  have "wd * h \<le> mw * mh" using c by (intro mult_le_mono) auto
  then have lim: "wd < 2 ^ 16" "h < 2 ^ 16" "wd * h < 2 ^ 30" using c by linarith+
  obtain rects where r: "frame_rects (is_full_frame co) bounds raw = Some rects"
    "\<forall>r \<in> set rects. rect_wf r \<and> rect_contains bounds r" "sum_list (map area rects) \<le> area bounds"
    "is_full_frame co \<Longrightarrow> rects = [bounds]" "\<forall>x y. covers (damage_rects raw) x y \<longrightarrow> inside bounds x y \<longrightarrow> covers rects x y"
    by (rule frame_rects_ok [OF bounds_def c(3) lim(1) c(5) lim(2,3)]) blast
  have "capture_ok (fb_width (co_screen co)) (co_capture co)" using c by (auto simp: capture_ok_def)
  then obtain cap screen err where cap: "capture_many (wo_server wo) (wo_ahead wo) (wo_msb_first wo) (co_capture co)
      (co_screen co) rects = Some (cap, screen, err)" "colours screen" "same_size screen (co_screen co)"
    "capture_ok (fb_width (co_screen co)) cap" "sc_shm_pixels cap = sc_shm_pixels (co_capture co)"
    using capture_many_total [OF c(15)] r(2) by metis
  have cap_ok: "capture_ok mw cap" using cap(4,5) c(10) by (simp add: capture_ok_def)
  have b: "fb_bounds screen = bounds" using cap(3) c by (simp add: fb_bounds_def same_size_def bounds_def)
  define co2 where "co2 = co\<lparr>co_dirty := False, co_capture := cap, co_screen := screen\<rparr>"
  have "core_ok co2"
    by (rule core_okI [of _ wd h mw mh]) (use c cap(2,3) cap_ok in \<open>auto simp: co2_def same_size_def\<close>)
  then have g2: "good cs pend d co2" using g by (simp add: good_def follows_def co2_def)
  show ?thesis
  proof (rule that [OF _ cap(1) co2_def g2 _ _ _ _ cap(3)])
    show "send_frame wo co = (case err of
       Some e \<Rightarrow>
         if \<not> is_geometry_error e \<or> STALE_CAPTURE_LIMIT \<le> co_stale_captures co2
         then Some (co2, Some (wo_error wo))
         else do { co \<leftarrow> reread_size wo (co2\<lparr>co_stale_captures := co_stale_captures co2 + 1\<rparr>);
                   co \<leftarrow> force_full_refresh co;
                   Some (co, None) }
     | None \<Rightarrow> do {
         (encoder, f) \<leftarrow> encode_frame (wo_hash_order wo) (wo_compressors wo) (wo_seed wo) screen rects (\<not> is_full_frame co)
            (co_encoder co);
         Some (deliver_frame wo f (co2\<lparr>co_stale_captures := 0, co_encoder := encoder\<rparr>)) })"
      unfolding send_frame_def Let_def c(1) prod.case is_full_frame_def [symmetric] bounds_def [symmetric]
      using damage r(1) cap(1) c(16,17) by (simp add: co2_def split: option.splits)
  qed (use r b in auto)
qed

lemma send_frame_good:
  assumes cs: "compressors_ok cs" and w: "wo_compressors wo = cs" and g: "good cs pend d co"
    and ready: "\<And>c. co_client co = Some c \<Longrightarrow> cl_ready c"
  shows "\<exists>co' err. send_frame wo co = Some (co', err) \<and> good cs pend d co'"
proof (cases "wo_damage wo")
  case None
  have "good cs pend d (co\<lparr>co_dirty := False\<rparr>)" by (rule good_cong [OF g]) simp_all
  then show ?thesis using None by (cases "co_served co") (simp add: send_frame_def)
next
  case (Some raw)
  show ?thesis
  proof (rule send_frame_captures [OF g Some])
    fix rects cap screen err co2
    assume f: "send_frame wo co = (case err of
       Some e \<Rightarrow>
         if \<not> is_geometry_error e \<or> STALE_CAPTURE_LIMIT \<le> co_stale_captures co2
         then Some (co2, Some (wo_error wo))
         else do { co \<leftarrow> reread_size wo (co2\<lparr>co_stale_captures := co_stale_captures co2 + 1\<rparr>);
                   co \<leftarrow> force_full_refresh co;
                   Some (co, None) }
     | None \<Rightarrow> do {
         (encoder, f) \<leftarrow> encode_frame (wo_hash_order wo) (wo_compressors wo) (wo_seed wo) screen rects (\<not> is_full_frame co)
            (co_encoder co);
         Some (deliver_frame wo f (co2\<lparr>co_stale_captures := 0, co_encoder := encoder\<rparr>)) })"
      and co2: "co2 = co\<lparr>co_dirty := False, co_capture := cap, co_screen := screen\<rparr>" "good cs pend d co2"
      and rects: "\<forall>r \<in> set rects. rect_wf r \<and> rect_contains (fb_bounds screen) r"
        "sum_list (map area rects) \<le> area (fb_bounds screen)"
    show ?thesis
    proof (cases err)
      case None
      have c2: "core_ok co2" "co_screen co2 = screen" "co_encoder co2 = co_encoder co"
        using co2 by (simp_all add: good_def)
      have e: "encoder_wf (co_encoder co)" "colours screen" "same_size screen (enc_prev (co_encoder co))"
        using c2(1) by (auto simp: same_size_def c2(2,3) [symmetric] elim!: core_okE)
      obtain e' f' where e': "encode_frame (wo_hash_order wo) cs (wo_seed wo) screen rects (\<not> is_full_frame co) (co_encoder co) = Some (e', f')"
        "encoder_wf e'" "same_size (enc_prev e') (enc_prev (co_encoder co))" "enc_tile e' = enc_tile (co_encoder co)"
        "\<And>d1. in_sync (enc_prev (co_encoder co)) (dec_fb d1) \<Longrightarrow>
           \<exists>d2. applies_whole cs f' d1 d2 \<and> in_sync (enc_prev e') (dec_fb d2)"
        by (rule encode_core_frame [OF cs e rects, of "wo_hash_order wo" "wo_seed wo" "\<not> is_full_frame co"]) blast
      let ?co3 = "co2\<lparr>co_stale_captures := 0, co_encoder := e'\<rparr>"
      have ok3: "core_ok ?co3" 
        using c2(1) e'(2-4) c2(3)
        by (cases "co_served co2"; cases "co_capture_max co2") (simp add: core_ok_def same_size_def)
      have "good cs pend d (fst (deliver_frame wo f' ?co3))"
        by (rule deliver_frame_good [where old = "enc_prev (co_encoder co)", OF ok3])
          (use ready e'(5) co2 in \<open>auto simp: good_def follows_def\<close>)
      then show ?thesis by (simp add: f None e'(1) w) (metis prod.collapse)
    next
      case (Some e)
      have "good cs pend d (co2\<lparr>co_stale_captures := co_stale_captures co2 + 1\<rparr>)" by (rule good_cong [OF co2(2)]) simp_all
      from reread_size_good [OF this] obtain co3 where
        co3: "reread_size wo (co2\<lparr>co_stale_captures := co_stale_captures co2 + 1\<rparr>) = Some co3" "good cs pend d co3"
        by blast
      from force_full_refresh_good [OF co3(2)] show ?thesis using co2(2) co3(1) Some by (auto simp: f)
    qed
  qed
qed

text \<open>
  A frame sent while the root shows fixed pixels: the client ends up showing them, wherever the frame
  was to bring news.
\<close>

lemma send_frame_shows:
  assumes cs: "compressors_ok cs" and w: "wo_compressors wo = cs" and g: "good cs pend d co"
    and c: "co_client co = Some c" "cl_ready c" and damage: "wo_damage wo = Some raw"
    and root: "answers_root (wo_server wo) (wo_msb_first wo) (\<lambda>_. root) (fst (co_served co)) (snd (co_served co))"
  shows "\<exists>co' perr c'. send_frame wo co = Some (co', perr) \<and> co_client co' = Some c' \<and> cl_ready c' \<and>
    leads_to (\<lambda>d'. \<forall>x y. inside (rect_new 0 0 (fst (co_served co)) (snd (co_served co))) x y \<longrightarrow>
      cl_full_refresh c \<or> covers (damage_rects raw) x y \<longrightarrow> px (dec_fb d') x y = root x y AND rgb_mask) cs pend d c'"
proof -
  obtain wd h mw mh where co: "co_served co = (wd, h)" "capture_ok mw (co_capture co)" "wd \<le> mw" "mw < 2 ^ 16"
    "mh < 2 ^ 16" "h \<le> mh" "encoder_wf (co_encoder co)" "colours (co_screen co)"
    "fb_width (co_screen co) = wd" "fb_height (co_screen co) = h"
    "same_size (co_screen co) (enc_prev (co_encoder co))"
    using g by (auto simp: good_def same_size_def elim!: core_okE)
  let ?bounds = "rect_new 0 0 wd h"
  let ?Q = "\<lambda>d'. \<forall>x y. inside ?bounds x y \<longrightarrow> cl_full_refresh c \<or> covers (damage_rects raw) x y \<longrightarrow>
      px (dec_fb d') x y = root x y AND rgb_mask"
  have lim: "inside ?bounds x y \<longleftrightarrow> x < wd \<and> y < h" for x y by (auto simp: inside_def)
  show ?thesis
  proof (rule send_frame_captures [OF g damage], goal_cases)
    case (1 rects cap screen err co2)
    have b: "fb_bounds screen = ?bounds" "fb_width screen = wd" "fb_height screen = h"
      using 1(9) co by (simp_all add: fb_bounds_def same_size_def)
    have "capture_ok (fb_width (co_screen co)) (co_capture co)" using co by (auto simp: capture_ok_def)
    moreover have ans: "answers_root (wo_server wo) (wo_msb_first wo) (\<lambda>_. root) (fb_width (co_screen co)) (fb_height (co_screen co))"
      using root co by simp
    moreover have "fb_wf (co_screen co)" "\<forall>r \<in> set rects. rect_wf r" using co(8) 1(5) by (auto simp: colours_def)
    ultimately obtain cap' fb' where exact: "capture_many (wo_server wo) (wo_ahead wo) (wo_msb_first wo) (co_capture co)
        (co_screen co) rects = Some (cap', fb', None)"
      "\<forall>x y. x < wd \<and> y < h \<longrightarrow>
        px fb' x y = (if \<exists>r \<in> set rects. inside r x y then root x y AND rgb_mask else px (co_screen co) x y)"
      using capture_still [OF _ _ _ ans, of rects "co_capture co" "wo_ahead wo"] co(9,10) by auto
    then have shot: "err = None" "\<forall>x y. x < wd \<and> y < h \<longrightarrow>
        px screen x y = (if \<exists>r \<in> set rects. inside r x y then root x y AND rgb_mask else px (co_screen co) x y)"
      using 1(2) by simp_all
    have c2: "core_ok co2" "co_screen co2 = screen" using 1(3,4) by (simp_all add: good_def)
    have cur: "colours screen" "same_size screen (enc_prev (co_encoder co))"
      using c2 1(9) co(11) by (auto simp: same_size_def elim!: core_okE)
    obtain e' f where e': "encode_frame (wo_hash_order wo) cs (wo_seed wo) screen rects (\<not> is_full_frame co) (co_encoder co) = Some (e', f)"
      "\<And>d1. in_sync (enc_prev (co_encoder co)) (dec_fb d1) \<Longrightarrow> \<exists>d2. applies_whole cs f d1 d2 \<and> in_sync (enc_prev e') (dec_fb d2)"
      "\<And>d1 d2. in_sync (enc_prev (co_encoder co)) (dec_fb d1) \<Longrightarrow> applies_whole cs f d1 d2 \<Longrightarrow>
         \<forall>x y. x < fb_width screen \<longrightarrow> y < fb_height screen \<longrightarrow> covers rects x y \<longrightarrow> px (dec_fb d2) x y = px screen x y"
      by (rule encode_core_frame [OF cs co(7) cur 1(5,6), of "wo_hash_order wo" "wo_seed wo" "\<not> is_full_frame co"]) blast
    let ?co3 = "co2\<lparr>co_stale_captures := 0, co_encoder := e'\<rparr>"
    have news: "covers rects x y" if "inside ?bounds x y" "cl_full_refresh c \<or> covers (damage_rects raw) x y" for x y
      using 1(7,8) that b(1) c(1) by (auto simp: is_full_frame_def covers_def)
    have frame: "\<exists>d2. applies_whole cs f d1 d2 \<and> ?Q d2" if d1: "in_sync (enc_prev (co_encoder co)) (dec_fb d1)" for d1
      using e'(2) [OF d1] e'(3) [OF d1] news shot(2) b(2,3) unfolding lim covers_def by metis
    have start: "co_client ?co3 = Some c" "leads_to (\<lambda>d1. in_sync (enc_prev (co_encoder co)) (dec_fb d1)) cs pend d c"
      using 1(3) g c(1) by (simp_all add: good_def follows_def)
    obtain c' where c': "co_client (fst (deliver_frame wo f ?co3)) = Some c'" "leads_to ?Q cs pend d c'" "cl_ready c'"
      by (rule deliver_frame_leads [OF start(1) c(2) start(2) frame]) auto
    have "send_frame wo co = Some (deliver_frame wo f ?co3)" by (simp add: 1(1) shot(1) w e'(1))
    then show ?thesis using c' by (cases "deliver_frame wo f ?co3") (auto simp: co(1))
  qed
qed

lemma pump_frames_good:
  assumes "compressors_ok cs" "wo_compressors wo = cs" "good cs pend d co"
  shows "\<exists>co' err. pump_frames wo co = Some (co', err) \<and> good cs pend d co'"
proof (cases "co_client co")
  case None
  then show ?thesis using assms(3) by (simp add: pump_frames_def)
next
  case (Some c)
  consider "pump_frames wo co = Some (co, None)" | "pump_frames wo co = send_frame wo co" "cl_ready c"
    unfolding pump_frames_def Some option.case by meson
  then show ?thesis using send_frame_good [OF assms] assms(3) Some by cases auto
qed

end
