(* ===== verification/Session_System.thy ===== *)
theory Session_System
  imports Session_Sync
begin

text \<open>
  The session core with its connection: every handler of the core is total and keeps the client
  following, and so does a system of the core, the wire and the client's decoder, whatever the client
  sends, however the queue drains and whatever the X server answers.
\<close>

section \<open>Connections\<close>

lemma drop_client_none: "drop_client wo notice co = (co', err) \<Longrightarrow> co_client co' = None"
  by (auto simp: drop_client_def Let_def call_def split: if_splits)

lemma drop_client_ok: "core_ok co \<Longrightarrow> drop_client wo notice co = (co', err) \<Longrightarrow> core_ok co'"
proof -
  assume a: "core_ok co" "drop_client wo notice co = (co', err)"
  have "core_ok co' = core_ok co"
    by (rule core_ok_cong) (use a(2) in \<open>auto simp: drop_client_def Let_def call_def split: if_splits\<close>)
  then show ?thesis using a(1) by simp
qed

lemma drop_client_good: "core_ok co \<Longrightarrow> drop_client wo notice co = (co', err) \<Longrightarrow> good cs pend d co'"
  by (blast intro: good_no_client drop_client_ok drop_client_none)

lemma leaves_good: "core_ok co \<Longrightarrow> leaves wo co = (co', r) \<Longrightarrow> good cs pend d co'"
  unfolding leaves_def ends_as_def by (auto split: prod.splits intro: drop_client_good)

lemma reject_client_good: "core_ok co \<Longrightarrow> reject_client wo code reason co = (co', r) \<Longrightarrow> good cs pend d co'"
proof -
  assume a: "core_ok co" "reject_client wo code reason co = (co', r)"
  have "quiet_core co (send_to_client [Rejected code reason] co)" by (rule send_to_client_quiet) simp
  then have "core_ok (send_to_client [Rejected code reason] co)" using a(1) by (simp add: core_ok_quiet)
  then show ?thesis using a(2) unfolding reject_client_def by (rule leaves_good)
qed

lemma accept_client_good:
  assumes "core_ok co" "accept_client wo co = (co', None)"
  shows "good cs [] None co'"
proof -
  define dropped where "dropped = (if co_client co \<noteq> None
      then drop_client wo (Some ''Another client connected to this session.'') co else (co, None))"
  obtain co1 err where d: "dropped = (co1, err)" by fastforce
  have ok: "core_ok co1" using d assms(1) by (auto simp: dropped_def split: if_splits intro: drop_client_ok)
  have co': "co' = call Suppress_Auto_Repeat
       (co1\<lparr>co_client := Some (new_client wo co1), co_next_generation := co_next_generation co1 + 1,
            co_last_client_seen := wo_now wo\<rparr>)"
    using assms(2) d unfolding accept_client_def dropped_def [symmetric] by (auto split: option.splits)
  have "core_ok co' = core_ok co1" by (rule core_ok_cong) (simp_all add: co' call_def)
  then show ?thesis using ok by (simp add: good_def follows_def co' call_def leads_to_def new_client_def)
qed

lemma drop_dead_client_good:
  assumes "good cs pend d co" "drop_dead_client wo co = (co', r)"
  shows "good cs pend d co'"
  using assms leaves_good by (auto simp: drop_dead_client_def good_def split: if_splits)

section \<open>The hello\<close>

lemma not_ready_polite:
  assumes "follows cs pend d co" "co_client co = Some c" "\<not> cl_ready c"
  shows "cl_dead c \<or> show_messages cs (pend @ cl_queue c) x = Some x"
  using assms polite_all_show [of "pend @ cl_queue c" cs x] by (auto simp: follows_def leads_to_def)

lemma adopt_size_ready:
  assumes "adopt_size width height co = Some co'" "\<not> (\<exists>c. co_client co = Some c \<and> cl_ready c)"
  shows "\<not> (\<exists>c. co_client co' = Some c \<and> cl_ready c)"
  using assms by (cases "co_client co")
    (auto simp: adopt_size_def force_full_refresh_def Let_def with_client_def bind_eq_Some_conv split: if_splits)

lemma apply_resize_ready:
  assumes "apply_resize wo width height co = Some co'" "\<not> (\<exists>c. co_client co = Some c \<and> cl_ready c)"
  shows "\<not> (\<exists>c. co_client co' = Some c \<and> cl_ready c)"
  using assms adopt_size_ready [of _ _ "co\<lparr>co_display_size := _\<rparr>" co']
  by (auto simp: apply_resize_def Let_def split: prod.splits if_splits)

lemma hello_leads:
  assumes g: "good cs pend d co" and c: "co_client co = Some c" "\<not> cl_ready c"
  shows "leads_to (sized (co_served co)) cs pend d (snd (client_send
    (ServerHello v name feats sid user (of_nat (fst (co_served co))) (of_nat (snd (co_served co))))
    (c\<lparr>cl_ready := True, cl_features := feats\<rparr>)))"
proof -
  obtain w h where wh: "co_served co = (w, h)" "w < 2 ^ 16" "h < 2 ^ 16"
    using g unfolding good_def by (auto elim!: core_okE)
  let ?m = "ServerHello v name feats sid user (of_nat w) (of_nat h)"
  let ?c = "c\<lparr>cl_ready := True, cl_features := feats\<rparr>"
  have n: "unat (of_nat w :: u16) = w" "unat (of_nat h :: u16) = h"
    using wh by (simp_all add: unat_of_nat take_bit_nat_eq_self)
  have d: "sized (w, h) (decoder_new w h)"
    using fb_new_wf [of w h] wh by (simp add: sized_def decoder_new_def) (simp add: fb_new_def)
  have before: "cl_dead c \<or> show_messages cs (pend @ cl_queue c) d = Some d"
    using g c not_ready_polite unfolding good_def by blast
  show ?thesis unfolding wh(1) fst_conv snd_conv
  proof (cases rule: client_send_cases [of ?m ?c])
    case (3 k)
    then have "show_messages cs (pend @ cl_queue c) d = Some d" using before by simp
    then have "show_messages cs ((pend @ cl_queue c) @ [?m]) d = Some (Some (decoder_new w h))"
      by (rule show_messages_snoc) (simp add: n)
    then show "leads_to (sized (w, h)) cs pend d (snd (client_send ?m ?c))" using d 3 by (auto simp: leads_to_def)
  qed (auto simp: leads_to_def)
qed

lemma on_hello_good:
  assumes g: "good cs pend d co" and nr: "\<not> (\<exists>c. co_client co = Some c \<and> cl_ready c)"
  shows "\<exists>co' r. on_hello server_name wo version want width height co = Some (co', r) \<and>
    (settle r = None \<longrightarrow> good cs pend d co')"
proof (cases "peer_meets_floor version")
  case False
  then show ?thesis
    using reject_client_good [of co] g by (auto simp: on_hello_def good_def) (metis good_def prod.collapse)
next
  case True
  define feats where "feats = negotiated co want"
  obtain w h where wh: "requested_size co width height = (w, h)" by fastforce
  define resized where "resized = (if (w, h) \<noteq> co_display_size co \<and> has_feature feats RESIZE
      then apply_resize wo w h co else Some co)"
  obtain co1 where co1: "resized = Some co1" "good cs pend d co1" "\<not> (\<exists>c. co_client co1 = Some c \<and> cl_ready c)"
  proof (cases "(w, h) \<noteq> co_display_size co \<and> has_feature feats RESIZE")
    case True
    then show thesis using apply_resize_good [OF g, of wo w h] apply_resize_ready [OF _ nr] that
      by (auto simp: resized_def)
  qed (use that g nr in \<open>auto simp: resized_def\<close>)
  define greet where "greet = (\<lambda>c. snd (client_send
                     (ServerHello (agreed_version version) server_name feats (op_session_id (co_opts co1))
                        (op_username (co_opts co1)) (of_nat (fst (co_served co1))) (of_nat (snd (co_served co1))))
                     (c\<lparr>cl_ready := True, cl_features := feats\<rparr>)))"
  define co2 where "co2 = with_client greet co1"
  define cur where "cur = (if has_feature feats LOCAL_CURSOR then refresh_cursor wo co2 else (co2, None))"
  have eq: "on_hello server_name wo version want width height co =
      (if co_client co1 = None then Some (co1, Inr None)
       else case cur of (co, Some e) \<Rightarrow> Some (co, Inl e)
            | (co, None) \<Rightarrow> do { co \<leftarrow> force_full_refresh co; Some (co, Inr None) })"
    unfolding on_hello_def feats_def [symmetric] wh Let_def prod.case resized_def [symmetric] co1(1)
    using True by (simp add: cur_def co2_def greet_def)
  show ?thesis
  proof (cases "co_client co1")
    case None
    then show ?thesis using co1(2) by (simp add: eq)
  next
    case (Some c)
    have ok2: "core_ok co2" using co1(2) by (simp add: co2_def good_def)
    have l2: "\<And>c. co_client co2 = Some c \<Longrightarrow> leads_to (sized (co_served co2)) cs pend d c"
      using hello_leads [OF co1(2)] co1(3) by (auto simp: co2_def greet_def)
    obtain co3 err where cur: "cur = (co3, err)" by fastforce
    have q: "quiet_core co2 co3"
      using cur refresh_cursor_quiet unfolding cur_def by (metis fst_conv quiet_refl)
    have l3: "leads_to (sized (co_served co3)) cs pend d c" if "co_client co3 = Some c" for c
      using q that l2 leads_to_quiet unfolding quiet_core_def by (auto elim!: option.rel_cases)
    have ok3: "core_ok co3" using q ok2 by (simp add: core_ok_quiet)
    obtain co4 where f: "force_full_refresh co3 = Some co4" by (rule force_full_refresh_ok [OF ok3])
    have "good cs pend d co4" using force_full_refresh_follows [OF ok3 l3 f] by (simp add: good_def)
    then show ?thesis using Some f by (cases err) (simp_all add: eq cur settle_def)
  qed
qed

section \<open>The messages of a client\<close>

lemma good_quietE: "good cs pend d co \<Longrightarrow> quiet_core co co' \<Longrightarrow> good cs pend d co'"
  by (rule good_quiet)

lemma good_call: "good cs pend d co \<Longrightarrow> good cs pend d (call x co)"
  by (rule good_quiet [OF call_quiet])

lemma good_send: "good cs pend d co \<Longrightarrow> (\<And>f. \<forall>m \<in> set ms. polite f m) \<Longrightarrow> good cs pend d (send_to_client ms co)"
  by (rule good_quiet [OF send_to_client_quiet]) blast

lemma on_frame_ack_keeps:
  "cl_dead (on_frame_ack wo fid opts interval c) = cl_dead c \<and> cl_ready (on_frame_ack wo fid opts interval c) = cl_ready c \<and>
   cl_queue (on_frame_ack wo fid opts interval c) = cl_queue c"
  by (auto simp: on_frame_ack_def Let_def split: option.splits prod.splits)

lemma on_pong_keeps:
  "cl_dead (on_pong wo nonce c) = cl_dead c \<and> cl_ready (on_pong wo nonce c) = cl_ready c \<and>
   cl_queue (on_pong wo nonce c) = cl_queue c"
  by (simp add: on_pong_def)

lemma fallible_call_good:
  "good cs pend d co \<Longrightarrow> fallible_call wo x co = (co', r) \<Longrightarrow> good cs pend d co'"
  by (auto simp: fallible_call_def good_call)

text \<open>\<open>good_after\<close>: the handler returns, and the client still follows unless the session ends.\<close>

definition good_after ::
    "compressors \<Rightarrow> message list \<Rightarrow> decoder option \<Rightarrow> (core \<times> (string + exit_reason option)) option \<Rightarrow> bool" where
  "good_after cs pend d res \<longleftrightarrow>
     (\<exists>co r. res = Some (co, r) \<and> (settle r = None \<longrightarrow> good cs pend d co))"

lemma good_after_Some: "good cs pend d co \<Longrightarrow> good_after cs pend d (Some (co, r))"
  by (simp add: good_after_def)

lemma good_after_pair: "(\<And>co r. p = (co, r) \<Longrightarrow> good cs pend d co) \<Longrightarrow> good_after cs pend d (Some p)"
  by (cases p) (simp add: good_after_def)

lemma good_after_map:
  "\<exists>co'. x = Some co' \<and> good cs pend d co' \<Longrightarrow> good_after cs pend d (map_option (\<lambda>co. (co, Inr None)) x)"
  by (auto simp: good_after_def)

lemma good_reject: "good cs pend d co \<Longrightarrow> good_after cs pend d (Some (reject_client wo code reason co))"
  by (rule good_after_pair) (auto simp: good_def dest: reject_client_good)

lemma good_leaves: "good cs pend d co \<Longrightarrow> good_after cs pend d (Some (leaves wo co))"
  by (rule good_after_pair) (auto simp: good_def dest: leaves_good)

lemma good_fallible: "good cs pend d co \<Longrightarrow> good_after cs pend d (Some (fallible_call wo x co))"
  by (rule good_after_pair) (erule fallible_call_good)

lemma handle_ready_message_good:
  assumes g: "good cs pend d co"
  shows "good_after cs pend d (handle_ready_message show_kind request wo msg co)"
proof (cases msg)
  case (KeyEvent k dn)
  then show ?thesis by (simp add: handle_ready_message_def good_after_Some good_call g)
next
  case (PointerMotion x y)
  have "good cs pend d (with_client (\<lambda>c. c\<lparr>cl_last_client_pointer := p, cl_last_sent_pointer := Some p\<rparr>) (co\<lparr>co_last_pointer := p\<rparr>))" for p
    by (subst good_with_client) (simp, rule good_cong [OF g], simp_all)
  then show ?thesis by (simp add: PointerMotion handle_ready_message_def Let_def good_fallible)
next
  case (PointerButton b dn)
  then show ?thesis by (simp add: handle_ready_message_def good_fallible g)
next
  case (Scroll dx dy)
  then show ?thesis by (simp add: handle_ready_message_def good_fallible g)
next
  case (FrameAck fid)
  have "good cs pend d (with_client (on_frame_ack wo fid (co_opts co) (co_min_frame_interval co)) co)"
    using g on_frame_ack_keeps by (subst good_with_client) auto
  then show ?thesis by (simp add: FrameAck handle_ready_message_def good_after_Some)
next
  case (ResizeRequest w h)
  then show ?thesis using good_after_map [OF on_resize_request_good [OF g]] by (simp add: handle_ready_message_def)
next
  case (ClipboardText t)
  have "good cs pend d (co\<lparr>co_echo := ec\<rparr>)" for ec by (rule good_cong [OF g]) simp_all
  then show ?thesis
    by (auto simp: ClipboardText handle_ready_message_def Let_def g
        split: prod.splits bool.splits intro!: good_after_Some good_call)
next
  case (Pong n)
  have "good cs pend d (with_client (on_pong wo n) co)" using g on_pong_keeps by (subst good_with_client) auto
  then show ?thesis by (simp add: Pong handle_ready_message_def good_after_Some)
next
  case (Ping n)
  then show ?thesis by (simp add: handle_ready_message_def good_after_Some good_send g)
next
  case (ClipboardOffer f)
  have "good cs pend d (co\<lparr>co_echo := client_changed (co_echo co), co_client_formats := f\<rparr>)" by (rule good_cong [OF g]) simp_all
  then show ?thesis by (auto simp: ClipboardOffer handle_ready_message_def Let_def intro!: good_after_Some good_send)
next
  case (ClipboardRequest f)
  then show ?thesis
    by (auto simp: handle_ready_message_def g intro!: good_after_Some good_quiet [OF on_clipboard_events_quiet] good_call)
next
  case (FileRequest i path)
  then show ?thesis by (simp add: handle_ready_message_def good_after_Some good_quiet [OF on_file_request_quiet g])
next
  case (FileList i files)
  then show ?thesis by (simp add: handle_ready_message_def good_after_Some good_quiet [OF stage_client_files_quiet g])
next
  case (FileDrop i x y files)
  then show ?thesis
    by (auto simp: handle_ready_message_def Let_def g split: option.splits intro!: good_after_Some good_send good_call)
next
  case RefreshRequest
  then show ?thesis using good_after_map [OF force_full_refresh_good [OF g]] by (simp add: handle_ready_message_def)
next
  case (Disconnect r)
  then show ?thesis by (simp add: handle_ready_message_def good_leaves g)
qed (simp_all add: handle_ready_message_def good_reject g)

lemma handle_client_message_good:
  assumes w: "world_ok cs wo" and g: "good cs pend d co"
  shows "good_after cs pend d (handle_client_message server_name show_kind request wo msg co)"
proof (cases "\<exists>c. co_client co = Some c \<and> cl_ready c")
  case True
  obtain b co1 where h: "handle_transfer_message wo msg co = (b, co1)" by fastforce
  have g1: "good cs pend d co1" by (rule good_quiet [OF handle_transfer_message_quiet [OF w h] g])
  have "handle_client_message server_name show_kind request wo msg co =
      (if b then Some (co1, Inr None) else handle_ready_message show_kind request wo msg co1)"
    using True unfolding handle_client_message_def h by (cases b) simp_all
  then show ?thesis by (simp add: good_after_Some g1 handle_ready_message_good)
next
  case False
  have hello: "good_after cs pend d (on_hello server_name wo v want width height co)" for v want width height
    using on_hello_good [OF g False] by (simp add: good_after_def)
  have eq: "handle_client_message server_name show_kind request wo msg co =
      (case msg of
              ClientHello version name want width height \<Rightarrow>
                on_hello server_name wo version want (unat width) (unat height) co
            | other \<Rightarrow> Some (reject_client wo REJECT_VERSION
                         (''expected ClientHello, got '' @ show_kind (msg_kind other)) co))"
    unfolding handle_client_message_def using False by (simp only: if_P not_False_eq_True simp_thms)
  show ?thesis
    unfolding eq by (cases msg) (simp_all add: hello good_reject [OF g])
qed

section \<open>Events\<close>

lemma good_quiet_pair: "(\<And>co' r. p = (co', r) \<Longrightarrow> quiet_core co co') \<Longrightarrow> good cs pend d co \<Longrightarrow> good_after cs pend d (Some p)"
  by (rule good_after_pair) (blast intro: good_quiet)

lemma handle_x_event_good:
  assumes e: "\<forall>m \<in> set drop_replies. drop_message m" and g: "good cs pend d co"
  shows "\<exists>co' r. handle_x_event wo x drop_replies events co = Some (co', r) \<and> good cs pend d co'"
proof -
  define co1 where "co1 = (if co_has_drops co then send_to_client drop_replies co else co)"
  have g1: "good cs pend d co1" using g e by (auto simp: co1_def intro: good_send drop_message_polite)
  have dirty: "good cs pend d (co1\<lparr>co_dirty := True\<rparr>)" by (rule good_cong [OF g1]) simp_all
  have fin: "good cs pend d (if co_has_clipboard co' then on_clipboard_events wo events co' else co')"
    if "good cs pend d co'" for co'
    using that good_quiet [OF on_clipboard_events_quiet] by simp
  obtain co2 err where r: "refresh_cursor wo co1 = (co2, err)" by fastforce
  have g2: "good cs pend d co2" by (rule good_quiet [OF refresh_cursor_quiet [OF r] g1])
  show ?thesis
  proof (cases x)
    case Damage_Notify
    then show ?thesis using fin [OF dirty] by (simp add: handle_x_event_def co1_def [symmetric])
  next
    case Cursor_Notify
    then show ?thesis using fin [OF g2] g2 r by (cases err) (simp_all add: handle_x_event_def co1_def [symmetric])
  next
    case Mapping_Notify
    then show ?thesis using fin [OF good_call [OF g1]] by (simp add: handle_x_event_def co1_def [symmetric])
  next
    case Screen_Change
    obtain co3 where "reread_size wo co1 = Some co3" "good cs pend d co3" using reread_size_good [OF g1] by blast
    then show ?thesis using fin Screen_Change by (simp add: handle_x_event_def co1_def [symmetric])
  next
    case Other_Event
    then show ?thesis using fin [OF g1] by (simp add: handle_x_event_def co1_def [symmetric])
  qed
qed

text \<open>A new connection starts with nothing on its way.\<close>

definition pend_after :: "core_event \<Rightarrow> message list \<Rightarrow> message list" where
  "pend_after ev pend = (case ev of New_Client \<Rightarrow> [] | _ \<Rightarrow> pend)"

definition decoder_after :: "core_event \<Rightarrow> decoder option \<Rightarrow> decoder option" where
  "decoder_after ev d = (case ev of New_Client \<Rightarrow> None | _ \<Rightarrow> d)"

lemma ends_as_good:
  assumes "\<And>co' err. p = (co', err) \<Longrightarrow> good cs pend d co'"
  shows "good_after cs pend d (Some (ends_as ex p))"
  using assms by (cases p) (simp add: ends_as_def good_after_def)

lemma handle_event_good:
  assumes w: "world_ok cs wo" and e: "event_ok ev" and g: "good cs pend d co"
  shows "good_after cs (pend_after ev pend) (decoder_after ev d) (handle_event server_name show_kind wo ev co)"
proof (cases ev)
  case (X_Event x drop_replies events)
  obtain co' r where "handle_x_event wo x drop_replies events co = Some (co', r)" "good cs pend d co'"
    using handle_x_event_good [OF _ g, of drop_replies wo x events] e X_Event by auto
  then show ?thesis
    by (simp add: X_Event handle_event_def pend_after_def decoder_after_def ends_as_def good_after_def)
next
  case New_Client
  obtain co' err where a: "accept_client wo co = (co', err)" by fastforce
  have "err = None \<Longrightarrow> good cs [] None co'" using a g accept_client_good by (auto simp: good_def)
  then show ?thesis
    by (cases err) (auto simp: New_Client handle_event_def a ends_as_def good_after_def settle_def
        pend_after_def decoder_after_def)
next
  case (Client_Message gen msg events)
  then show ?thesis
    using handle_client_message_good [OF w g] g
    by (simp add: handle_event_def pend_after_def decoder_after_def good_after_Some)
next
  case (Client_Closed gen reason)
  then show ?thesis
    using good_leaves [OF g] g by (simp add: handle_event_def pend_after_def decoder_after_def good_after_Some)
next
  case (Desktop_Exited status)
  have "good_after cs pend d (handle_event server_name show_kind wo ev co)"
    unfolding Desktop_Exited handle_event_def core_event.case
    by (rule ends_as_good) (use g drop_client_good in \<open>auto simp: good_def\<close>)
  then show ?thesis by (simp add: Desktop_Exited pend_after_def decoder_after_def)
next
  case (Shutdown_Request reason)
  have "good_after cs pend d (handle_event server_name show_kind wo ev co)"
    unfolding Shutdown_Request handle_event_def core_event.case
    by (rule ends_as_good) (use g drop_client_good in \<open>auto simp: good_def\<close>)
  then show ?thesis by (simp add: Shutdown_Request pend_after_def decoder_after_def)
next
  case File_Ready
  obtain out tm where p: "poll (wo_order wo) (co_transfers co) = (out, tm)" by fastforce
  show ?thesis
    using good_quiet [OF poll_quiet [OF w p] g]
    by (simp add: File_Ready handle_event_def p pend_after_def decoder_after_def good_after_Some)
qed (use g good_quiet [OF on_file_opened_quiet g] good_quiet [OF pump_clipboard_batch_quiet g] in
    \<open>simp_all add: handle_event_def pend_after_def decoder_after_def good_after_Some\<close>)

section \<open>Turns of the loop\<close>

definition turn_ok :: "compressors \<Rightarrow> (core \<times> exit_reason option) option \<Rightarrow> bool" where
  "turn_ok cs res \<longleftrightarrow> (\<exists>co exit. res = Some (co, exit) \<and> (exit = None \<longrightarrow> (\<exists>pend d. good cs pend d co)))"

lemma finish_turn_good:
  assumes cs: "compressors_ok cs" and w: "world_ok cs wo" and g: "good cs pend d co"
  shows "\<exists>co' exit. finish_turn wo co = Some (co', exit) \<and> (exit = None \<longrightarrow> good cs pend d co')"
proof -
  obtain co1 r where 1: "drop_dead_client wo co = (co1, r)" by fastforce
  have g1: "good cs pend d co1" by (rule drop_dead_client_good [OF g 1])
  have g2: "good cs pend d (pump_clipboard_batch wo co1)" by (rule good_quiet [OF pump_clipboard_batch_quiet g1])
  obtain co3 err where 3: "pump_frames wo (pump_clipboard_batch wo co1) = Some (co3, err)" "good cs pend d co3"
    using pump_frames_good [OF cs _ g2, of wo] w by (auto simp: world_ok_def)
  obtain co4 r' where 4: "drop_dead_client wo co3 = (co4, r')" by fastforce
  have g4: "good cs pend d co4" by (rule drop_dead_client_good [OF 3(2) 4])
  show ?thesis
    using g4 by (cases "settle r"; cases err) (simp_all add: finish_turn_def 1 3(1) 4)
qed

lemma handle_events_good:
  assumes "\<forall>e \<in> set es. world_ok cs (fst e) \<and> event_ok (snd e)" "good cs pend d co"
  shows "turn_ok cs (handle_events server_name show_kind es co)"
  using assms
proof (induction es arbitrary: pend d co)
  case Nil
  then show ?case by (auto simp: turn_ok_def)
next
  case (Cons e es)
  obtain co1 r where h: "handle_event server_name show_kind (fst e) (snd e) co = Some (co1, r)"
    "settle r = None \<Longrightarrow> good cs (pend_after (snd e) pend) (decoder_after (snd e) d) co1"
    using handle_event_good [OF _ _ Cons.prems(2), of "fst e" "snd e" server_name show_kind] Cons.prems(1)
    by (auto simp: good_after_def)
  show ?case
  proof (cases "settle r")
    case None
    then show ?thesis using Cons.IH [OF _ h(2) [OF None]] Cons.prems(1) by (simp add: h(1))
  next
    case (Some x)
    then show ?thesis by (simp add: h(1) turn_ok_def)
  qed
qed

section \<open>The system\<close>

text \<open>
  A session: the core, what its writer put on the wire and the client has not read, and the client's
  decoder. Handlers run in the order the core's channel holds events; between them the writer takes
  messages from the queue, the client reads, and the connection may break.
\<close>

record session =
  ss_core :: core
  ss_wire :: "message list"
  ss_decoder :: "decoder option"

inductive session_step ::
    "compressors \<Rightarrow> string \<Rightarrow> (kind \<Rightarrow> string) \<Rightarrow> session \<Rightarrow> session \<Rightarrow> bool"
  for cs :: compressors and server_name :: string and show_kind :: "kind \<Rightarrow> string" where
  handled: "world_ok cs wo \<Longrightarrow> event_ok ev \<Longrightarrow>
    handle_event server_name show_kind wo ev (ss_core s) = Some (co, r) \<Longrightarrow> settle r = None \<Longrightarrow>
    session_step cs server_name show_kind s
      \<lparr>ss_core = co, ss_wire = pend_after ev (ss_wire s), ss_decoder = decoder_after ev (ss_decoder s)\<rparr>"
| ticked: "world_ok cs wo \<Longrightarrow> housekeeping ticks wo (ss_core s) = (co, r) \<Longrightarrow> settle r = None \<Longrightarrow>
    session_step cs server_name show_kind s (s\<lparr>ss_core := co\<rparr>)"
| turned: "world_ok cs wo \<Longrightarrow> finish_turn wo (ss_core s) = Some (co, None) \<Longrightarrow>
    session_step cs server_name show_kind s (s\<lparr>ss_core := co\<rparr>)"
| written: "co_client (ss_core s) = Some c \<Longrightarrow> cl_queue c = m # ms \<Longrightarrow>
    session_step cs server_name show_kind s
      (s\<lparr>ss_core := (ss_core s)\<lparr>co_client := Some (c\<lparr>cl_queue := ms\<rparr>)\<rparr>, ss_wire := ss_wire s @ [m]\<rparr>)"
| shown: "ss_wire s = m # ms \<Longrightarrow> show_message cs m (ss_decoder s) = Some d \<Longrightarrow>
    session_step cs server_name show_kind s (s\<lparr>ss_wire := ms, ss_decoder := d\<rparr>)"
| broken: "session_step cs server_name show_kind s
      (s\<lparr>ss_core := with_client (\<lambda>c. c\<lparr>cl_writer_gone := True\<rparr>) (ss_core s)\<rparr>)"

definition session_good :: "compressors \<Rightarrow> session \<Rightarrow> bool" where
  "session_good cs s \<longleftrightarrow> good cs (ss_wire s) (ss_decoder s) (ss_core s)"

text \<open>
  A session starts on a screen within the segment's and the protocol's limits, before any client.
\<close>

definition session_start :: "session \<Rightarrow> bool" where
  "session_start s \<longleftrightarrow>
     (\<exists>opts w h shm cursor clip drops interval now.
        ss_core s = core_new opts w h shm cursor clip drops interval now \<and> 1 \<le> w \<and> 1 \<le> h \<and>
        max (op_max_width opts) w < 2 ^ 16 \<and> max (op_max_height opts) h < 2 ^ 16 \<and>
        max (op_max_width opts) w * max (op_max_height opts) h < 2 ^ 30)"

lemma core_new_ok:
  assumes "1 \<le> w" "1 \<le> h" "max (op_max_width opts) w < 2 ^ 16" "max (op_max_height opts) h < 2 ^ 16"
    "max (op_max_width opts) w * max (op_max_height opts) h < 2 ^ 30"
  shows "core_ok (core_new opts w h shm cursor clip drops interval now)"
proof -
  let ?mw = "max (op_max_width opts) w" and ?mh = "max (op_max_height opts) h"
  have wh: "w < 2 ^ 32" "h < 2 ^ 32" using assms(3,4) by simp_all
  have "w * h \<le> ?mw * ?mh" by (intro mult_le_mono) auto
  then have "w * h < 2 ^ 30" using assms(5) by linarith
  then have "encoder_wf (encoder_new w h)"
    using wh fb_new_wf [OF wh] assms(3,4)
    by (simp add: encoder_wf_def encoder_new_def TILE_SIZE_def) (simp add: fb_new_def fb_bounds_def area_def)
  moreover have "colours (fb_new w h)"
    using fb_new_wf [OF wh] px_new [of _ w _ h] by (auto simp: colours_def) (simp add: fb_new_def)+
  moreover have "capture_ok ?mw (capture_new shm ?mw ?mh)" by (rule capture_new_ok) (use assms in linarith)+
  ultimately show ?thesis
    using assms by (intro core_okI [of _ w h ?mw ?mh]) (auto simp: core_new_def encoder_new_def fb_new_def Let_def)
qed

lemma session_start_good: "session_start s \<Longrightarrow> session_good cs s"
  unfolding session_start_def session_good_def
  by (auto intro!: good_no_client core_new_ok) (simp_all add: core_new_def Let_def)

lemma housekeep_idle_good: "good cs pend d co \<Longrightarrow> housekeep_idle wo co = (co', r) \<Longrightarrow> good cs pend d co'"
  by (auto simp: housekeep_idle_def split: if_splits prod.splits option.splits
      intro: good_call dest: good_quiet [OF sync_pointer_quiet])

lemma put_client_quiet: "co_client co = Some c \<Longrightarrow> quiet_client c c' \<Longrightarrow> quiet_core co (co\<lparr>co_client := Some c'\<rparr>)"
  by (simp add: quiet_core_def)

text \<open>Housekeeping is quiet, except that it may drop the client on the way.\<close>

lemma housekeeping_steps:
  assumes w: "world_ok cs wo" and h: "housekeeping ticks wo co = (co', r)" "settle r = None"
  obtains co1 where "quiet_core co co1" "housekeep_idle wo co1 = (co', r)"
  | co0 r0 co1 where "quiet_core co co0" "leaves wo co0 = (co1, r0)" "housekeep_idle wo co1 = (co', r)"
proof -
  define co1 where "co1 = fold expire_download (wo_order wo (filter (wo_expired wo) (map fst (co_pending_downloads co)))) co"
  obtain out tm where p: "poll (wo_order wo) (co_transfers co1) = (out, tm)" by fastforce
  define co2 where "co2 = apply_transfer_outcome wo out (co1\<lparr>co_transfers := tm\<rparr>)"
  define co3 where "co3 = (if co_has_clipboard co2 then on_clipboard_events wo ticks co2 else co2)"
  have "quiet_core co co1" unfolding co1_def by (rule quiet_fold) (rule expire_download_quiet)
  then have "quiet_core co co2" unfolding co2_def by (rule quiet_trans [OF _ poll_quiet [OF w p]])
  then have q: "quiet_core co co3" using quiet_trans [OF _ on_clipboard_events_quiet] by (simp add: co3_def)
  have eq: "housekeeping ticks wo co = (case co_client co3 of
           None \<Rightarrow> housekeep_idle wo co3
         | Some c \<Rightarrow>
             (case housekeep_client wo c of
                (False, c) \<Rightarrow> housekeep_idle wo (co3\<lparr>co_client := Some c\<rparr>)
              | (True, c) \<Rightarrow>
                  (case leaves wo (co3\<lparr>co_client := Some c\<rparr>) of
                     (co, Inl e) \<Rightarrow> (co, Inl e)
                   | (co, Inr (Some exit)) \<Rightarrow> (co, Inr (Some exit))
                   | (co, Inr None) \<Rightarrow> housekeep_idle wo co)))"
    unfolding housekeeping_def Let_def co1_def [symmetric] p prod.case co2_def [symmetric] co3_def [symmetric] ..
  show ?thesis
  proof (cases "co_client co3")
    case None
    then show ?thesis using that(1) [OF q] h(1) by (simp add: eq)
  next
    case (Some c)
    obtain b c1 where k: "housekeep_client wo c = (b, c1)" by fastforce
    have q4: "quiet_core co (co3\<lparr>co_client := Some c1\<rparr>)"
      by (rule quiet_trans [OF q put_client_quiet [OF Some housekeep_client_quiet [OF k]]])
    show ?thesis
    proof (cases b)
      case False
      then show ?thesis using that(1) [OF q4] h(1) by (simp add: eq Some k)
    next
      case True
      obtain co5 r5 where l: "leaves wo (co3\<lparr>co_client := Some c1\<rparr>) = (co5, r5)" by fastforce
      have "housekeep_idle wo co5 = (co', r)"
        using h True l by (auto simp: eq Some k settle_def split: sum.splits option.splits)
      then show ?thesis by (rule that(2) [OF q4 l])
    qed
  qed
qed

lemma housekeeping_good:
  assumes "world_ok cs wo" and g: "good cs pend d co" and "housekeeping ticks wo co = (co', r)" "settle r = None"
  shows "good cs pend d co'"
  using assms(1,3,4)
proof (cases rule: housekeeping_steps)
  case (1 co1)
  then show ?thesis using housekeep_idle_good good_quiet [OF _ g] by blast
next
  case (2 co0 r0 co1)
  have "core_ok co0" using good_quiet [OF 2(1) g] by (simp add: good_def)
  then have "good cs pend d co1" using 2(2) by (rule leaves_good)
  then show ?thesis using 2(3) by (rule housekeep_idle_good)
qed

lemma loop_turn_ok:
  assumes cs: "compressors_ok cs" and tick: "\<forall>w ticks. tick = Some (w, ticks) \<longrightarrow> world_ok cs w"
    and es: "\<forall>e \<in> set es. world_ok cs (fst e) \<and> event_ok (snd e)"
    and w: "world_ok cs wo" and g: "good cs pend d co"
  shows "turn_ok cs (loop_turn server_name show_kind tick es wo co)"
proof -
  obtain co0 r where t: "(case tick of None \<Rightarrow> (co, Inr None) | Some (wo, ticks) \<Rightarrow> housekeeping ticks wo co) = (co0, r)"
    by fastforce
  show ?thesis
  proof (cases "settle r")
    case None
    then have g0: "good cs pend d co0"
      using t g tick housekeeping_good by (auto split: option.splits)
    obtain co1 exit where h: "handle_events server_name show_kind es co0 = Some (co1, exit)"
      "exit = None \<Longrightarrow> \<exists>pend d. good cs pend d co1"
      using handle_events_good [OF es g0, of server_name show_kind] by (auto simp: turn_ok_def)
    show ?thesis
    proof (cases exit)
      case None
      then obtain pend' d' where "good cs pend' d' co1" using h(2) by blast
      from finish_turn_good [OF cs w this] show ?thesis
        using None \<open>settle r = None\<close> by (auto simp: loop_turn_def t h(1) turn_ok_def)
    next
      case (Some x)
      then show ?thesis using \<open>settle r = None\<close> by (simp add: loop_turn_def t h(1) turn_ok_def)
    qed
  qed (simp add: loop_turn_def t turn_ok_def)
qed

lemma written_good:
  assumes g: "good cs pend d co" and c: "co_client co = Some c" "cl_queue c = m # ms"
  shows "good cs (pend @ [m]) d (co\<lparr>co_client := Some (c\<lparr>cl_queue := ms\<rparr>)\<rparr>)"
proof -
  have "core_ok (co\<lparr>co_client := Some (c\<lparr>cl_queue := ms\<rparr>)\<rparr>)"
    using g core_ok_cong [of "co\<lparr>co_client := Some (c\<lparr>cl_queue := ms\<rparr>)\<rparr>" co] by (simp add: good_def)
  then show ?thesis using g c by (auto simp: good_def follows_def leads_to_def)
qed

lemma shown_good:
  assumes g: "good cs (m # ms) d co" and m: "show_message cs m d = Some d'"
  shows "good cs ms d' co"
proof -
  have step: "show_messages cs ((m # ms) @ q) d = show_messages cs (ms @ q) d'" for q
    using m by (simp add: show_messages_def)
  have "leads_to P cs ms d' c" if "leads_to P cs (m # ms) d c" for P c
    using that step [of "cl_queue c"] by (auto simp: leads_to_def)
  then show ?thesis using g by (auto simp: good_def follows_def)
qed

lemma session_step_good:
  assumes cs: "compressors_ok cs" and st: "session_step cs server_name show_kind s t" and g: "session_good cs s"
  shows "session_good cs t"
  using st g
proof cases
  case (handled wo ev co r)
  then show ?thesis
    using handle_event_good [of cs wo ev "ss_wire s" "ss_decoder s" "ss_core s" server_name show_kind] g
    by (auto simp: session_good_def good_after_def)
next
  case (ticked wo ticks co r)
  then show ?thesis using housekeeping_good g by (simp add: session_good_def)
next
  case (turned wo co)
  then show ?thesis
    using finish_turn_good [OF cs, of wo "ss_wire s" "ss_decoder s" "ss_core s"] g by (auto simp: session_good_def)
next
  case (written c m ms)
  then show ?thesis using written_good g by (simp add: session_good_def)
next
  case (shown m ms d)
  then show ?thesis using shown_good g by (simp add: session_good_def)
next
  case broken
  then show ?thesis using g by (simp add: session_good_def good_with_client)
qed

interpretation sessions: invariant_system session_start
    "\<lambda>s t. compressors_ok cs \<and> session_step cs server_name show_kind s t" "session_good cs"
  for cs server_name show_kind
  by unfold_locales (auto intro: session_start_good session_step_good)

end
