(* ===== verification/Session_Properties.thy ===== *)
theory Session_Properties
  imports Session_System
begin

text \<open>
  What the session promises: the properties of reachable sessions, what the client is told about
  features it did not agree to (nothing), flow control, and clipboard echoes.
\<close>

section \<open>What a client may be told\<close>

text \<open>Messages that make up the screen; they need no feature, only the greeting.\<close>

fun screen_message :: "message \<Rightarrow> bool" where
  "screen_message (ServerHello _ _ _ _ _ _ _) = True"
| "screen_message (ScreenUpdate _ _ _) = True"
| "screen_message (ScreenResized _ _) = True"
| "screen_message _ = False"

definition permitted :: "bool \<Rightarrow> u32 \<Rightarrow> message \<Rightarrow> bool" where
  "permitted ready feats m \<longleftrightarrow> polite feats m \<or> ready \<and> screen_message m"

text \<open>
  A handler is \<open>tame\<close> when, of the connection, it changes no more than what is queued, and queues only
  what the client may be told.
\<close>

definition tame_client :: "client \<Rightarrow> client \<Rightarrow> bool" where
  "tame_client c c' \<longleftrightarrow>
     cl_generation c' = cl_generation c \<and> cl_ready c' = cl_ready c \<and> cl_features c' = cl_features c \<and>
     cl_window c' = cl_window c \<and>
     (\<exists>ms. cl_queue c' = cl_queue c @ ms \<and> (\<forall>m \<in> set ms. permitted (cl_ready c) (cl_features c) m))"

definition tame :: "core \<Rightarrow> core \<Rightarrow> bool" where
  "tame co co' \<longleftrightarrow> co_next_generation co' = co_next_generation co \<and> rel_option tame_client (co_client co) (co_client co')"

lemma tame_client_refl [simp]: "tame_client c c"
  by (simp add: tame_client_def)

lemma tame_client_trans: "tame_client a b \<Longrightarrow> tame_client b c \<Longrightarrow> tame_client a c"
  unfolding tame_client_def by (auto; metis (no_types, opaque_lifting) Un_iff append.assoc set_append)

lemma tame_refl [simp]: "tame co co"
  by (simp add: tame_def option.rel_refl)

lemma tame_trans: "tame a b \<Longrightarrow> tame b c \<Longrightarrow> tame a c"
  by (auto simp: tame_def elim!: option.rel_cases intro: tame_client_trans)

lemma quiet_tame: "quiet_core co co' \<Longrightarrow> tame co co'"
  by (auto simp: quiet_core_def tame_def quiet_client_def tame_client_def permitted_def elim!: option.rel_mono_strong)

lemma tame_fields: "co_client co' = co_client co \<Longrightarrow> co_next_generation co' = co_next_generation co \<Longrightarrow> tame co co'"
  by (simp add: tame_def option.rel_refl)

lemma tame_with_client:
  "(\<And>c. co_client co = Some c \<Longrightarrow> tame_client c (f c)) \<Longrightarrow> tame co (with_client f co)"
  by (cases "co_client co") (simp_all add: tame_def)

lemma client_send_tame: "permitted (cl_ready c) (cl_features c) m \<Longrightarrow> tame_client c (snd (client_send m c))"
  by (cases rule: client_send_cases [of m c]) (auto simp: tame_client_def)

lemma force_full_refresh_tame: "force_full_refresh co = Some co' \<Longrightarrow> tame co co'"
  unfolding force_full_refresh_def
  by (auto simp: bind_eq_Some_conv tame_client_def intro!: tame_trans [OF tame_fields tame_with_client])

lemma adopt_size_tame: "adopt_size width height co = Some co' \<Longrightarrow> tame co co'"
proof -
  assume a: "adopt_size width height co = Some co'"
  let ?w = "clamp 1 (fst (co_capture_max co)) width" and ?h = "clamp 1 (snd (co_capture_max co)) height"
  let ?co1 = "co\<lparr>co_served := (?w, ?h), co_screen := fb_new ?w ?h, co_encoder := encoder_resize ?w ?h (co_encoder co)\<rparr>"
  let ?f = "\<lambda>c. if cl_ready c then snd (client_send (ScreenResized (of_nat ?w) (of_nat ?h)) c) else c"
  consider "co' = co" | co2 where "force_full_refresh ?co1 = Some co2" "co' = with_client ?f co2"
    using a unfolding adopt_size_def Let_def by (auto simp: bind_eq_Some_conv simp del: One_nat_def split: if_splits)
  then show ?thesis
  proof cases
    case 2
    have "tame co co2" by (rule tame_trans [OF tame_fields force_full_refresh_tame [OF 2(1)]]) simp_all
    moreover have "tame co2 co'" unfolding 2(2)
      by (rule tame_with_client) (auto intro: client_send_tame simp: permitted_def)
    ultimately show ?thesis by (rule tame_trans)
  qed simp
qed

lemma reread_size_tame: "reread_size wo co = Some co' \<Longrightarrow> tame co co'"
  by (auto simp: reread_size_def split: option.splits
      intro!: tame_trans [OF tame_fields adopt_size_tame [of _ _ "co\<lparr>co_display_size := _\<rparr>"]])

lemma apply_resize_tame: "apply_resize wo width height co = Some co' \<Longrightarrow> tame co co'"
proof -
  assume a: "apply_resize wo width height co = Some co'"
  obtain wh where "co' = co\<lparr>co_display_size := wh\<rparr> \<or> (\<exists>w h. adopt_size w h (co\<lparr>co_display_size := wh\<rparr>) = Some co')"
    using a by (auto simp: apply_resize_def Let_def split: prod.splits if_splits)
  moreover have "tame co (co\<lparr>co_display_size := wh\<rparr>)" by (rule tame_fields) simp_all
  ultimately show ?thesis using adopt_size_tame tame_trans by blast
qed

lemma on_resize_request_tame: "on_resize_request wo width height co = Some co' \<Longrightarrow> tame co co'"
  by (auto simp: on_resize_request_def split: option.splits if_splits dest: apply_resize_tame)

lemma send_parts_tame: "cl_ready c \<Longrightarrow> send_parts now ps c = (ok, c') \<Longrightarrow> tame_client c c'"
proof (induction ps arbitrary: c)
  case (Cons p ps)
  define fid where "fid = cl_next_frame_id c"
  define c1 where "c1 = c\<lparr>cl_next_frame_id := fid + 1\<rparr>"
  obtain b c2 where s: "client_send (ScreenUpdate fid (fst p) (snd p)) c1 = (b, c2)" by fastforce
  have "tame_client c1 c2"
    using client_send_tame [of c1 "ScreenUpdate fid (fst p) (snd p)"] s Cons.prems(1) by (simp add: permitted_def c1_def)
  then have t: "tame_client c c2" by (simp add: tame_client_def c1_def)
  show ?case
  proof (cases b)
    case True
    let ?c = "c2\<lparr>cl_in_flight := cl_in_flight c2 @ [(fid, now)], cl_frames_sent := cl_frames_sent c2 + 1\<rparr>"
    have "cl_ready ?c" using t Cons.prems(1) by (simp add: tame_client_def)
    moreover have "send_parts now ps ?c = (ok, c')"
      using Cons.prems(2) s True by (simp add: fid_def [symmetric] c1_def [symmetric])
    ultimately have "tame_client ?c c'" by (rule Cons.IH)
    moreover have "tame_client c2 ?c" by (simp add: tame_client_def)
    ultimately show ?thesis using t by (blast intro: tame_client_trans)
  next
    case False
    then show ?thesis using Cons.prems(2) s t by (simp add: fid_def [symmetric] c1_def [symmetric])
  qed
qed simp

lemma deliver_frame_tame:
  assumes ready: "\<And>c. co_client co = Some c \<Longrightarrow> cl_ready c" and d: "deliver_frame wo f co = (co', err)"
  shows "tame co co'"
proof (cases "co_client co")
  case None
  then show ?thesis using d by (simp add: deliver_frame_def)
next
  case (Some c)
  let ?c = "c\<lparr>cl_full_refresh := False\<rparr>"
  have put: "tame co (co\<lparr>co_client := Some c'\<rparr>)" if "tame_client c c'" for c'
    using that Some by (simp add: tame_def)
  have c: "tame_client c ?c" by (simp add: tame_client_def)
  obtain ok c1 where s: "send_parts (wo_now wo) (split_frame (fu_copies f) (fu_tiles f)) ?c = (ok, c1)" by fastforce
  have c1: "tame_client c c1" using tame_client_trans [OF c send_parts_tame [OF _ s]] ready [OF Some] by simp
  then have c2: "tame_client c (c1\<lparr>cl_last_frame_at := t\<rparr>)" for t by (simp add: tame_client_def)
  show ?thesis
    using d put [OF c] put [OF c1] tame_trans [OF put [OF c2] quiet_tame [OF sync_pointer_quiet]] s
    by (auto simp: deliver_frame_def Some Let_def split: if_splits bool.splits)
qed

lemma send_frame_tame:
  assumes g: "good cs pend d co" and ready: "\<And>c. co_client co = Some c \<Longrightarrow> cl_ready c"
    and s: "send_frame wo co = Some (co', perr)"
  shows "tame co co'"
proof (cases "wo_damage wo")
  case None
  then show ?thesis using s by (auto simp: send_frame_def intro: tame_fields split: prod.splits)
next
  case (Some raw)
  show ?thesis
  proof (rule send_frame_captures [OF g Some], goal_cases)
    case (1 rects cap screen err co2)
    have t2: "tame co co2" by (rule tame_fields) (simp_all add: 1(3))
    show ?thesis
    proof (cases err)
      case None
      then obtain e' f where f: "deliver_frame wo f (co2\<lparr>co_stale_captures := 0, co_encoder := e'\<rparr>) = (co', perr)"
        using s by (auto simp: 1(1) bind_eq_Some_conv)
      let ?co3 = "co2\<lparr>co_stale_captures := 0, co_encoder := e'\<rparr>"
      have "tame co ?co3" by (rule tame_fields) (simp_all add: 1(3))
      moreover have "tame ?co3 co'" by (rule deliver_frame_tame [OF _ f]) (use ready 1(3) in simp)
      ultimately show ?thesis by (rule tame_trans)
    next
      case (Some e)
      let ?co3 = "co2\<lparr>co_stale_captures := co_stale_captures co2 + 1\<rparr>"
      have t3: "tame co ?co3" by (rule tame_fields) (simp_all add: 1(3))
      consider "co' = co2" | co4 where "reread_size wo ?co3 = Some co4" "force_full_refresh co4 = Some co'"
        using s Some by (auto simp: 1(1) bind_eq_Some_conv split: if_splits)
      then show ?thesis
      proof cases
        case 2
        then show ?thesis using t3 reread_size_tame force_full_refresh_tame tame_trans by blast
      qed (use t2 in simp)
    qed
  qed
qed

lemma pump_frames_tame:
  assumes "good cs pend d co" "pump_frames wo co = Some (co', err)"
  shows "tame co co'"
proof (cases "co_client co")
  case None
  then show ?thesis using assms(2) by (simp add: pump_frames_def)
next
  case (Some c)
  consider "pump_frames wo co = Some (co, None)" | "pump_frames wo co = send_frame wo co" "cl_ready c"
    unfolding pump_frames_def Some option.case by meson
  then show ?thesis using send_frame_tame [OF assms(1)] assms(2) Some by cases auto
qed

section \<open>The client's record\<close>

definition client_ok :: "u64 \<Rightarrow> message list \<Rightarrow> client \<Rightarrow> bool" where
  "client_ok upcoming pend c \<longleftrightarrow>
     cl_generation c + 1 = upcoming \<and> 1 \<le> cl_window c \<and> cl_window c \<le> MAX_IN_FLIGHT_CAP \<and>
     (\<forall>m \<in> set (pend @ cl_queue c). permitted (cl_ready c) (cl_features c) m) \<and>
     (\<not> cl_ready c \<longrightarrow> cl_features c = 0) \<and> cl_features c AND NOT SUPPORTED_FEATURES = 0"

definition clients_ok :: "message list \<Rightarrow> core \<Rightarrow> bool" where
  "clients_ok pend co \<longleftrightarrow> (\<forall>c. co_client co = Some c \<longrightarrow> client_ok (co_next_generation co) pend c)"

lemma clients_ok_none: "co_client co = None \<Longrightarrow> clients_ok pend co"
  by (simp add: clients_ok_def)

lemma clients_ok_tame: "tame co co' \<Longrightarrow> clients_ok pend co \<Longrightarrow> clients_ok pend co'"
  by (auto simp: tame_def tame_client_def clients_ok_def client_ok_def elim!: option.rel_cases)

lemma clients_ok_quiet: "quiet_core co co' \<Longrightarrow> clients_ok pend co \<Longrightarrow> clients_ok pend co'"
  by (rule clients_ok_tame [OF quiet_tame])

lemma clients_ok_with_client:
  assumes "clients_ok pend co" "\<And>c. client_ok (co_next_generation co) pend c \<Longrightarrow> client_ok (co_next_generation co) pend (f c)"
  shows "clients_ok pend (with_client f co)"
  using assms by (auto simp: clients_ok_def)

lemma leaves_clients_ok: "leaves wo co = (co', r) \<Longrightarrow> clients_ok pend co' \<and> (co_client co = None \<longrightarrow> co' = co)"
  unfolding leaves_def ends_as_def
  by (auto split: prod.splits simp: clients_ok_none dest: drop_client_none) (simp add: drop_client_def)

lemma reject_clients_ok: "reject_client wo code reason co = (co', r) \<Longrightarrow> clients_ok pend co'"
  unfolding reject_client_def using leaves_clients_ok by blast

text \<open>\<open>keeps_ok\<close>: unless the session ends, the client's record is fine after the handler.\<close>

definition keeps_ok :: "message list \<Rightarrow> (core \<times> (string + exit_reason option)) option \<Rightarrow> bool" where
  "keeps_ok pend res \<longleftrightarrow> (\<forall>co r. res = Some (co, r) \<longrightarrow> settle r = None \<longrightarrow> clients_ok pend co)"

lemma keeps_Some: "clients_ok pend co \<Longrightarrow> keeps_ok pend (Some (co, r))"
  by (simp add: keeps_ok_def)

lemma keeps_pair: "(\<And>co r. p = (co, r) \<Longrightarrow> clients_ok pend co) \<Longrightarrow> keeps_ok pend (Some p)"
  by (simp add: keeps_ok_def)

lemma keeps_map: "(\<And>co. x = Some co \<Longrightarrow> clients_ok pend co) \<Longrightarrow> keeps_ok pend (map_option (\<lambda>co. (co, r)) x)"
  by (auto simp: keeps_ok_def)

lemma keeps_reject: "keeps_ok pend (Some (reject_client wo code reason co))"
  by (rule keeps_pair) (erule reject_clients_ok)

lemma keeps_leaves: "keeps_ok pend (Some (leaves wo co))"
  by (rule keeps_pair) (simp add: leaves_clients_ok)

lemma polite_without_features: "polite 0 m \<Longrightarrow> polite f m"
proof (cases m)
  case (ClipboardOffer fs)
  have "NOT (0 :: u32) = - 1" by simp
  then show "polite 0 m \<Longrightarrow> polite f m" using ClipboardOffer by (simp add: formats_of_def has_feature_def)
qed (auto simp: has_feature_def)

lemma negotiated_supported: "negotiated co want AND NOT SUPPORTED_FEATURES = 0"
  unfolding negotiated_def by (rule bit_word_eqI) (auto simp: bit_simps)

lemma greeting_ok:
  assumes "client_ok nxt pend c" "\<not> cl_ready c" "screen_message m"
  shows "client_ok nxt pend (snd (client_send m (c\<lparr>cl_ready := True, cl_features := negotiated co want\<rparr>)))"
proof -
  let ?c = "c\<lparr>cl_ready := True, cl_features := negotiated co want\<rparr>"
  have "client_ok nxt pend ?c"
    using assms negotiated_supported polite_without_features by (auto simp: client_ok_def permitted_def)
  moreover have "tame_client ?c (snd (client_send m ?c))"
    by (rule client_send_tame) (use assms(3) in \<open>simp add: permitted_def\<close>)
  ultimately show ?thesis by (auto simp: tame_client_def client_ok_def)
qed

lemma on_hello_keeps:
  assumes ok: "clients_ok pend co" and nr: "\<not> (\<exists>c. co_client co = Some c \<and> cl_ready c)"
  shows "keeps_ok pend (on_hello server_name wo version want width height co)"
proof (cases "peer_meets_floor version")
  case False
  then show ?thesis by (simp add: on_hello_def keeps_reject)
next
  case True
  define feats where "feats = negotiated co want"
  obtain w h where wh: "requested_size co width height = (w, h)" by fastforce
  define resized where "resized = (if (w, h) \<noteq> co_display_size co \<and> has_feature feats RESIZE
      then apply_resize wo w h co else Some co)"
  show ?thesis unfolding keeps_ok_def
  proof (intro allI impI)
    fix co' r assume res: "on_hello server_name wo version want width height co = Some (co', r)" and r: "settle r = None"
    obtain co1 where co1: "resized = Some co1"
      using res True unfolding on_hello_def feats_def [symmetric] wh Let_def prod.case resized_def [symmetric]
      by (cases resized) simp_all
    have t1: "tame co co1" using co1 apply_resize_tame by (auto simp: resized_def split: if_splits)
    have nr1: "\<not> (\<exists>c. co_client co1 = Some c \<and> cl_ready c)"
      using t1 nr by (auto simp: tame_def tame_client_def elim!: option.rel_cases)
    have ok1: "clients_ok pend co1" by (rule clients_ok_tame [OF t1 ok])
    define greet where "greet = (\<lambda>c. snd (client_send
                     (ServerHello (agreed_version version) server_name feats (op_session_id (co_opts co1))
                        (op_username (co_opts co1)) (of_nat (fst (co_served co1))) (of_nat (snd (co_served co1))))
                     (c\<lparr>cl_ready := True, cl_features := feats\<rparr>)))"
    define co2 where "co2 = with_client greet co1"
    have ok2: "clients_ok pend co2"
      using ok1 nr1 greeting_ok by (auto simp: clients_ok_def co2_def greet_def feats_def)
    obtain co3 err where cur: "(if has_feature feats LOCAL_CURSOR then refresh_cursor wo co2 else (co2, None)) = (co3, err)"
      by fastforce
    have "quiet_core co2 co3" using cur refresh_cursor_quiet by (metis fst_conv quiet_refl)
    then have ok3: "clients_ok pend co3" using ok2 by (rule clients_ok_quiet)
    have eq: "on_hello server_name wo version want width height co =
        (if co_client co1 = None then Some (co1, Inr None)
         else case (co3, err) of (co, Some e) \<Rightarrow> Some (co, Inl e)
              | (co, None) \<Rightarrow> do { co \<leftarrow> force_full_refresh co; Some (co, Inr None) })"
      unfolding on_hello_def feats_def [symmetric] wh Let_def prod.case resized_def [symmetric] co1 cur [symmetric]
      using True by (simp add: co2_def greet_def)
    show "clients_ok pend co'"
      using res r ok1 ok3 unfolding eq
      by (cases err) (auto simp: bind_eq_Some_conv settle_def split: if_splits
          intro: clients_ok_tame [OF force_full_refresh_tame])
  qed
qed

lemma window_range: "1 \<le> adapt_in_flight cur flr base s iv \<and> adapt_in_flight cur flr base s iv \<le> MAX_IN_FLIGHT_CAP"
  using adapt_bounds [of flr cur base s iv] clamp_bounds [of 1 MAX_IN_FLIGHT_CAP flr]
  by (simp add: MAX_IN_FLIGHT_CAP_def)

lemma frame_ack_ok:
  assumes "client_ok nxt pend c"
  shows "client_ok nxt pend (on_frame_ack wo fid opts interval c)"
proof -
  have "1 \<le> cl_window (on_frame_ack wo fid opts interval c) \<and> cl_window (on_frame_ack wo fid opts interval c) \<le> MAX_IN_FLIGHT_CAP"
    using assms window_range unfolding on_frame_ack_def client_ok_def
    by (auto simp: Let_def split: option.splits prod.splits)
  moreover have "cl_generation (on_frame_ack wo fid opts interval c) = cl_generation c"
    "cl_features (on_frame_ack wo fid opts interval c) = cl_features c"
    by (auto simp: on_frame_ack_def Let_def split: option.splits prod.splits)
  ultimately show ?thesis using assms on_frame_ack_keeps [of wo fid opts interval c] by (simp add: client_ok_def)
qed

lemma tame_keeps: "clients_ok pend co \<Longrightarrow> tame co co' \<Longrightarrow> keeps_ok pend (Some (co', r))"
  by (simp add: keeps_Some clients_ok_tame)

lemma call_tame: "tame co (call x co)"
  by (rule quiet_tame [OF call_quiet])

lemma fallible_keeps: "clients_ok pend co \<Longrightarrow> keeps_ok pend (Some (fallible_call wo x co))"
  by (rule keeps_pair) (auto simp: fallible_call_def intro: clients_ok_tame [OF call_tame])

lemma send_tame: "(\<And>f. \<forall>m \<in> set ms. polite f m) \<Longrightarrow> tame co (send_to_client ms co)"
  by (rule quiet_tame [OF send_to_client_quiet]) blast

lemma handle_ready_message_keeps:
  assumes ok: "clients_ok pend co"
  shows "keeps_ok pend (handle_ready_message show_kind request wo msg co)"
proof (cases msg)
  case (KeyEvent k dn)
  then show ?thesis by (simp add: handle_ready_message_def tame_keeps [OF ok call_tame])
next
  case (PointerMotion x y)
  have "tame co (with_client (\<lambda>c. c\<lparr>cl_last_client_pointer := p, cl_last_sent_pointer := Some p\<rparr>) (co\<lparr>co_last_pointer := p\<rparr>))" for p
    by (rule tame_trans [OF tame_fields tame_with_client]) (simp_all add: tame_client_def)
  then show ?thesis
    by (simp add: PointerMotion handle_ready_message_def Let_def fallible_keeps clients_ok_tame [OF _ ok])
next
  case (PointerButton b dn)
  then show ?thesis by (simp add: handle_ready_message_def fallible_keeps ok)
next
  case (Scroll dx dy)
  then show ?thesis by (simp add: handle_ready_message_def fallible_keeps ok)
next
  case (FrameAck fid)
  have "clients_ok pend (with_client (on_frame_ack wo fid (co_opts co) (co_min_frame_interval co)) co)"
    by (rule clients_ok_with_client [OF ok frame_ack_ok])
  then show ?thesis by (simp add: FrameAck handle_ready_message_def keeps_Some)
next
  case (ResizeRequest w h)
  then show ?thesis
    by (auto simp: handle_ready_message_def intro!: keeps_map clients_ok_tame [OF on_resize_request_tame ok])
next
  case (ClipboardText t)
  have "tame co (co\<lparr>co_echo := ec\<rparr>)" for ec by (rule tame_fields) simp_all
  then show ?thesis
    by (auto simp: ClipboardText handle_ready_message_def Let_def ok
        split: prod.splits bool.splits intro: keeps_Some tame_keeps [OF ok] tame_trans [OF _ call_tame])
next
  case (Pong n)
  have "tame co (with_client (on_pong wo n) co)" by (rule tame_with_client) (simp add: tame_client_def on_pong_def)
  then show ?thesis by (simp add: Pong handle_ready_message_def tame_keeps [OF ok])
next
  case (Ping n)
  then show ?thesis by (simp add: handle_ready_message_def tame_keeps [OF ok send_tame])
next
  case (ClipboardOffer f)
  have "tame co (co\<lparr>co_echo := client_changed (co_echo co), co_client_formats := f\<rparr>)" by (rule tame_fields) simp_all
  then show ?thesis
    by (auto simp: ClipboardOffer handle_ready_message_def Let_def intro!: tame_keeps [OF ok] tame_trans [OF _ send_tame])
next
  case (ClipboardRequest f)
  then show ?thesis
    by (auto simp: handle_ready_message_def intro!: tame_keeps [OF ok] tame_trans [OF call_tame quiet_tame [OF on_clipboard_events_quiet]])
next
  case (FileRequest i path)
  then show ?thesis by (simp add: handle_ready_message_def tame_keeps [OF ok quiet_tame [OF on_file_request_quiet]])
next
  case (FileList i files)
  then show ?thesis by (simp add: handle_ready_message_def tame_keeps [OF ok quiet_tame [OF stage_client_files_quiet]])
next
  case (FileDrop i x y files)
  then show ?thesis
    by (auto simp: handle_ready_message_def Let_def split: option.splits
        intro!: tame_keeps [OF ok] tame_trans [OF call_tame send_tame] call_tame)
next
  case RefreshRequest
  then show ?thesis
    by (auto simp: handle_ready_message_def intro!: keeps_map clients_ok_tame [OF force_full_refresh_tame ok])
next
  case (Disconnect r)
  then show ?thesis by (simp add: handle_ready_message_def keeps_leaves)
qed (simp_all add: handle_ready_message_def keeps_reject)

lemma handle_client_message_keeps:
  assumes w: "world_ok cs wo" and ok: "clients_ok pend co"
  shows "keeps_ok pend (handle_client_message server_name show_kind request wo msg co)"
proof (cases "\<exists>c. co_client co = Some c \<and> cl_ready c")
  case True
  obtain b co1 where h: "handle_transfer_message wo msg co = (b, co1)" by fastforce
  have ok1: "clients_ok pend co1" by (rule clients_ok_quiet [OF handle_transfer_message_quiet [OF w h] ok])
  have "handle_client_message server_name show_kind request wo msg co =
      (if b then Some (co1, Inr None) else handle_ready_message show_kind request wo msg co1)"
    using True unfolding handle_client_message_def h by (cases b) simp_all
  then show ?thesis by (simp add: keeps_Some ok1 handle_ready_message_keeps)
next
  case False
  have eq: "handle_client_message server_name show_kind request wo msg co =
      (case msg of
              ClientHello version name want width height \<Rightarrow>
                on_hello server_name wo version want (unat width) (unat height) co
            | other \<Rightarrow> Some (reject_client wo REJECT_VERSION
                         (''expected ClientHello, got '' @ show_kind (msg_kind other)) co))"
    unfolding handle_client_message_def using False by (simp only: if_P not_False_eq_True simp_thms)
  show ?thesis unfolding eq by (cases msg) (simp_all add: keeps_reject on_hello_keeps [OF ok False])
qed

lemma accept_clients_ok:
  assumes "accept_client wo co = (co', None)"
  shows "clients_ok [] co'"
  using assms clamp_bounds [of 1 MAX_IN_FLIGHT_CAP]
  by (auto simp: accept_client_def call_def clients_ok_def client_ok_def new_client_def MAX_IN_FLIGHT_CAP_def
      split: prod.splits option.splits)

lemma handle_x_event_tame:
  assumes e: "\<forall>m \<in> set drop_replies. drop_message m"
    and h: "handle_x_event wo x drop_replies events co = Some (co', r)"
  shows "tame co co'"
proof -
  define co1 where "co1 = (if co_has_drops co then send_to_client drop_replies co else co)"
  have t1: "tame co co1" using e by (auto simp: co1_def intro: send_tame drop_message_polite)
  have fin: "tame c (if co_has_clipboard c then on_clipboard_events wo events c else c)" for c
    using quiet_tame [OF on_clipboard_events_quiet] by simp
  obtain co2 err where mid: "(case x of
            Damage_Notify \<Rightarrow> Some (co1\<lparr>co_dirty := True\<rparr>, None)
          | Cursor_Notify \<Rightarrow> Some (refresh_cursor wo co1)
          | Mapping_Notify \<Rightarrow> Some (call Reload_Keymap co1, None)
          | Screen_Change \<Rightarrow> map_option (\<lambda>co. (co, None)) (reread_size wo co1)
          | Other_Event \<Rightarrow> Some (co1, None)) = Some (co2, err)"
    and out: "co' = co2 \<or> co' = (if co_has_clipboard co2 then on_clipboard_events wo events co2 else co2)"
    using h unfolding handle_x_event_def Let_def co1_def [symmetric]
    by (auto simp: bind_eq_Some_conv split: option.splits)
  have "tame co1 co2"
  proof (cases x)
    case Damage_Notify
    then have "co2 = co1\<lparr>co_dirty := True\<rparr>" using mid by simp
    then show ?thesis by (simp add: tame_fields)
  next
    case Cursor_Notify
    then show ?thesis using mid refresh_cursor_quiet quiet_tame by simp
  next
    case Screen_Change
    then show ?thesis using mid reread_size_tame by (cases "reread_size wo co1") simp_all
  next
    case Mapping_Notify
    then show ?thesis using mid call_tame by auto
  qed (use mid in simp_all)
  then have t2: "tame co co2" by (rule tame_trans [OF t1])
  from out show ?thesis by (elim disjE) (simp_all only: t2 tame_trans [OF t2 fin])
qed

lemma ends_as_keeps: "(\<And>co' err. p = (co', err) \<Longrightarrow> clients_ok pend co') \<Longrightarrow> keeps_ok pend (Some (ends_as ex p))"
  by (cases p) (simp add: ends_as_def keeps_ok_def)

lemma handle_event_keeps:
  assumes w: "world_ok cs wo" and e: "event_ok ev" and ok: "clients_ok pend co"
  shows "keeps_ok (pend_after ev pend) (handle_event server_name show_kind wo ev co)"
proof (cases ev)
  case (X_Event x drop_replies events)
  then show ?thesis
    using e clients_ok_tame [OF handle_x_event_tame ok]
    by (auto simp: handle_event_def pend_after_def keeps_ok_def ends_as_def)
next
  case New_Client
  obtain co' err where a: "accept_client wo co = (co', err)" by fastforce
  then have "err = None \<Longrightarrow> clients_ok [] co'" using accept_clients_ok by simp
  then show ?thesis
    by (cases err) (simp_all add: New_Client handle_event_def a ends_as_def settle_def pend_after_def keeps_ok_def)
next
  case (Client_Message gen msg events)
  then show ?thesis
    using handle_client_message_keeps [OF w ok] ok by (simp add: handle_event_def pend_after_def keeps_Some)
next
  case (Client_Closed gen reason)
  then show ?thesis using keeps_leaves ok by (simp add: handle_event_def pend_after_def keeps_Some)
next
  case File_Ready
  obtain out tm where p: "poll (wo_order wo) (co_transfers co) = (out, tm)" by fastforce
  show ?thesis
    using tame_keeps [OF ok quiet_tame [OF poll_quiet [OF w p]]] by (simp add: File_Ready handle_event_def p pend_after_def)
next
  case (Desktop_Exited status)
  have "keeps_ok pend (handle_event server_name show_kind wo ev co)"
    unfolding Desktop_Exited handle_event_def core_event.case
    by (rule ends_as_keeps) (auto intro: clients_ok_none drop_client_none)
  then show ?thesis by (simp add: Desktop_Exited pend_after_def)
next
  case (Shutdown_Request reason)
  have "keeps_ok pend (handle_event server_name show_kind wo ev co)"
    unfolding Shutdown_Request handle_event_def core_event.case
    by (rule ends_as_keeps) (auto intro: clients_ok_none drop_client_none)
  then show ?thesis by (simp add: Shutdown_Request pend_after_def)
next
  case (File_Opened fo)
  then show ?thesis
    by (simp add: handle_event_def pend_after_def keeps_Some clients_ok_quiet [OF on_file_opened_quiet ok])
next
  case Clipboard_Fetch
  then show ?thesis
    by (simp add: handle_event_def pend_after_def keeps_Some clients_ok_quiet [OF pump_clipboard_batch_quiet ok])
next
  case (X_Lost e)
  then show ?thesis by (simp add: handle_event_def pend_after_def keeps_Some ok)
qed

section \<open>Reachable sessions\<close>

lemma drop_dead_clients_ok: "drop_dead_client wo co = (co', r) \<Longrightarrow> clients_ok pend co \<Longrightarrow> clients_ok pend co'"
  by (auto simp: drop_dead_client_def dest: leaves_clients_ok split: if_splits)

lemma drop_dead_alive: "drop_dead_client wo co = (co', r) \<Longrightarrow> co_client co' = Some c \<Longrightarrow> \<not> cl_dead c"
  by (auto simp: drop_dead_client_def leaves_def ends_as_def split: if_splits prod.splits dest: drop_client_none)

lemma finish_turn_keeps:
  assumes cs: "compressors_ok cs" and w: "world_ok cs wo" and g: "good cs pend d co" and ok: "clients_ok pend co"
    and f: "finish_turn wo co = Some (co', None)"
  shows "clients_ok pend co'" "co_client co' = Some c \<Longrightarrow> \<not> cl_dead c"
proof -
  obtain co1 r where 1: "drop_dead_client wo co = (co1, r)" by fastforce
  have g2: "good cs pend d (pump_clipboard_batch wo co1)"
    by (rule good_quiet [OF pump_clipboard_batch_quiet drop_dead_client_good [OF g 1]])
  have ok2: "clients_ok pend (pump_clipboard_batch wo co1)"
    by (rule clients_ok_quiet [OF pump_clipboard_batch_quiet drop_dead_clients_ok [OF 1 ok]])
  obtain co3 err where 3: "pump_frames wo (pump_clipboard_batch wo co1) = Some (co3, err)"
    using pump_frames_good [OF cs _ g2, of wo] w by (auto simp: world_ok_def)
  have ok3: "clients_ok pend co3" by (rule clients_ok_tame [OF pump_frames_tame [OF g2 3] ok2])
  obtain co4 r' where 4: "drop_dead_client wo co3 = (co4, r')" by fastforce
  have "co' = co4" using f by (simp add: finish_turn_def 1 3 4 split: option.splits)
  then show "clients_ok pend co'" "co_client co' = Some c \<Longrightarrow> \<not> cl_dead c"
    using drop_dead_clients_ok [OF 4 ok3] drop_dead_alive [OF 4] by auto
qed

lemma housekeep_idle_tame: "housekeep_idle wo co = (co', r) \<Longrightarrow> tame co co'"
  by (auto simp: housekeep_idle_def split: if_splits prod.splits option.splits
      intro: tame_trans [OF quiet_tame [OF sync_pointer_quiet] call_tame] quiet_tame [OF sync_pointer_quiet])

lemma housekeeping_keeps:
  assumes "world_ok cs wo" and ok: "clients_ok pend co" and "housekeeping ticks wo co = (co', r)" "settle r = None"
  shows "clients_ok pend co'"
  using assms(1,3,4)
proof (cases rule: housekeeping_steps)
  case (1 co1)
  then show ?thesis using clients_ok_tame [OF housekeep_idle_tame] clients_ok_quiet [OF _ ok] by blast
next
  case (2 co0 r0 co1)
  then show ?thesis using clients_ok_tame [OF housekeep_idle_tame] leaves_clients_ok by blast
qed

definition session_ok :: "compressors \<Rightarrow> session \<Rightarrow> bool" where
  "session_ok cs s \<longleftrightarrow> session_good cs s \<and> clients_ok (ss_wire s) (ss_core s)"

lemma session_step_ok:
  assumes cs: "compressors_ok cs" and st: "session_step cs server_name show_kind s t" and ok: "session_ok cs s"
  shows "session_ok cs t"
proof -
  have g: "session_good cs t" using session_step_good [OF cs st] ok by (simp add: session_ok_def)
  have c: "clients_ok (ss_wire s) (ss_core s)" "good cs (ss_wire s) (ss_decoder s) (ss_core s)"
    using ok by (simp_all add: session_ok_def session_good_def)
  from st have "clients_ok (ss_wire t) (ss_core t)"
  proof cases
    case (handled wo ev co r)
    then show ?thesis using handle_event_keeps [OF _ _ c(1), of cs wo ev server_name show_kind] by (simp add: keeps_ok_def)
  next
    case (ticked wo ticks co r)
    then show ?thesis using housekeeping_keeps [OF _ c(1)] by simp
  next
    case (turned wo co)
    then show ?thesis using finish_turn_keeps(1) [OF cs _ c(2,1)] by simp
  next
    case (written c m ms)
    then show ?thesis using c(1) by (auto simp: clients_ok_def client_ok_def)
  next
    case (shown m ms d)
    then show ?thesis using c(1) by (auto simp: clients_ok_def client_ok_def)
  next
    case broken
    then show ?thesis using c(1) by (auto simp: clients_ok_def client_ok_def)
  qed
  then show ?thesis using g by (simp add: session_ok_def)
qed

lemma session_start_ok: "session_start s \<Longrightarrow> session_ok cs s"
  using session_start_good [of s cs] unfolding session_ok_def session_start_def
  by (auto intro: clients_ok_none simp: core_new_def Let_def)

interpretation running: invariant_system session_start
    "\<lambda>s t. compressors_ok cs \<and> session_step cs server_name show_kind s t" "session_ok cs"
  for cs server_name show_kind
  by unfold_locales (auto intro: session_start_ok session_step_ok)


abbreviation running_session :: "compressors \<Rightarrow> string \<Rightarrow> (kind \<Rightarrow> string) \<Rightarrow> session \<Rightarrow> bool" where
  "running_session cs server_name show_kind \<equiv>
     reach session_start (\<lambda>s t. compressors_ok cs \<and> session_step cs server_name show_kind s t)"

text \<open>
  C2. In every reachable session, whatever the X server answered, the client sent and the queue, the
  wire and resizes did, a greeted client that has not been lost ends up showing what the encoder
  believes it shows: once its decoder has processed what is on the wire and in the queue, every pixel
  the encoder counts as shown is on its screen.
\<close>

theorem session_screen_follows:
  assumes "running_session cs server_name show_kind s"
    and "co_client (ss_core s) = Some c" "cl_ready c" "\<not> cl_dead c"
  shows "\<exists>d. show_messages cs (ss_wire s @ cl_queue c) (ss_decoder s) = Some (Some d) \<and>
    in_sync (enc_prev (co_encoder (ss_core s))) (dec_fb d)"
  using running.inv_reach [OF assms(1)] assms(2-4)
  by (simp add: session_ok_def session_good_def good_def follows_def leads_to_def)

text \<open>
  C6. No turn of the session's loop panics: in every reachable session, whether housekeeping is
  due, whatever events are queued and whatever the surroundings answer, all handlers, the pump and the
  encoder return.
\<close>

theorem session_never_panics:
  assumes "running_session cs server_name show_kind s" "compressors_ok cs"
    and "\<forall>w ticks. tick = Some (w, ticks) \<longrightarrow> world_ok cs w"
    and "\<forall>e \<in> set es. world_ok cs (fst e) \<and> event_ok (snd e)" "world_ok cs wo"
  shows "\<exists>co exit. loop_turn server_name show_kind tick es wo (ss_core s) = Some (co, exit)"
  using loop_turn_ok [OF assms(2-5), of "ss_wire s" "ss_decoder s" "ss_core s" server_name show_kind]
    running.inv_reach [OF assms(1)]
  by (auto simp: session_ok_def session_good_def turn_ok_def)



text \<open>
  C11. Frames show the root: when a turn of a reachable session sends a frame while the X server's root
  shows fixed pixels, the core keeps the client and, unless it is lost, its screen ends up showing the
  root's colours at every damaged pixel, and everywhere when a full refresh was due.
\<close>

theorem frames_show_the_root:
  assumes "running_session cs server_name show_kind s" "compressors_ok cs" "wo_compressors wo = cs"
    and "co_client (ss_core s) = Some c" "cl_ready c" "wo_damage wo = Some raw"
    and "answers_root (wo_server wo) (wo_msb_first wo) (\<lambda>_. root)
      (fst (co_served (ss_core s))) (snd (co_served (ss_core s)))"
  shows "\<exists>co' err c'. send_frame wo (ss_core s) = Some (co', err) \<and> co_client co' = Some c' \<and>
    (cl_dead c' \<or> (\<exists>d. show_messages cs (ss_wire s @ cl_queue c') (ss_decoder s) = Some (Some d) \<and>
      (\<forall>x y. inside (rect_new 0 0 (fst (co_served (ss_core s))) (snd (co_served (ss_core s)))) x y \<longrightarrow>
        cl_full_refresh c \<or> covers (damage_rects raw) x y \<longrightarrow> px (dec_fb d) x y = root x y AND rgb_mask)))"
proof -
  have g: "good cs (ss_wire s) (ss_decoder s) (ss_core s)"
    using running.inv_reach [OF assms(1)] by (simp add: session_ok_def session_good_def)
  show ?thesis
    using send_frame_shows [OF assms(2,3) g assms(4-7)] unfolding leads_to_def by fastforce
qed

text \<open>
  A message that could not be queued loses the client: a turn of a reachable session that goes on
  ends with a client to whom everything queued since its greeting can still be delivered, or with none.
\<close>

theorem lost_clients_are_dropped:
  assumes "running_session cs server_name show_kind s" "compressors_ok cs" "world_ok cs wo"
    and "finish_turn wo (ss_core s) = Some (co, None)" "co_client co = Some c"
  shows "\<not> cl_dead c \<and>
    (cl_ready c \<longrightarrow> (\<exists>d. show_messages cs (ss_wire s @ cl_queue c) (ss_decoder s) = Some (Some d)))"
proof -
  have inv: "good cs (ss_wire s) (ss_decoder s) (ss_core s)" "clients_ok (ss_wire s) (ss_core s)"
    using running.inv_reach [OF assms(1)] by (simp_all add: session_ok_def session_good_def)
  have "\<not> cl_dead c" by (rule finish_turn_keeps(2) [OF assms(2,3) inv assms(4,5)])
  moreover have "good cs (ss_wire s) (ss_decoder s) co"
    using finish_turn_good [OF assms(2,3) inv(1)] assms(4) by auto
  ultimately show ?thesis using assms(5) by (auto simp: good_def follows_def leads_to_def)
qed

text \<open>
  Messages of a connection that was replaced have no effect: after a new client took over a
  reachable session, whatever the old connection still delivers, and its end, leave the core as it is.
\<close>

theorem replaced_connections_are_mute:
  assumes "running_session cs server_name show_kind s" "co_client (ss_core s) = Some c"
    and "handle_event server_name show_kind wo New_Client (ss_core s) = Some (co, r)" "settle r = None"
  shows "handle_event server_name show_kind wo' (Client_Message (cl_generation c) msg evs) co = Some (co, Inr None) \<and>
    handle_event server_name show_kind wo' (Client_Closed (cl_generation c) reason) co = Some (co, Inr None)"
proof -
  have "cl_generation c + 1 = co_next_generation (ss_core s)"
    using running.inv_reach [OF assms(1)] assms(2) by (simp add: session_ok_def clients_ok_def client_ok_def)
  moreover have "\<exists>c'. co_client co = Some c' \<and> cl_generation c' = co_next_generation (ss_core s)"
    using assms(2-4)
    by (auto simp: handle_event_def ends_as_def accept_client_def drop_client_def settle_def call_def new_client_def Let_def
        split: if_splits option.splits prod.splits)
  moreover have "g + 1 \<noteq> g" for g :: u64 by simp
  ultimately show ?thesis by (auto simp: handle_event_def generation_is_def)
qed

section \<open>A concrete session\<close>

text \<open>A session on a one-pixel screen, its client, and an uneventful world.\<close>

definition small_options :: options where
  "small_options = \<lparr>op_max_in_flight = 2, op_max_in_flight_auto = True, op_max_width = 1, op_max_height = 1,
     op_default_width = 1, op_default_height = 1, op_username = ''u'', op_session_id = 7,
     op_exit_on_disconnect = False, op_idle_timeout = None, op_upload_dir = ''/tmp''\<rparr>"

definition calm_world :: world where
  "calm_world = \<lparr>wo_now = 5, wo_error = [], wo_size = None, wo_resize = (\<lambda>w h. (True, w, h)), wo_damage = Some [],
     wo_server = root_server True (\<lambda>x y. 0x112233), wo_ahead = (\<lambda>_. 0), wo_msb_first = True, wo_pointer = Some (0, 0),
     wo_cursor = None, wo_input_fails = False, wo_hash_order = (\<lambda>t. t), wo_compressors = run_length_libraries,
     wo_seed = 5, wo_create = (\<lambda>_ _ _. []), wo_quote = (\<lambda>s. s), wo_drop_staging = [], wo_drops = (\<lambda>m. ([], m)),
     wo_drop_begins = None, wo_order = (\<lambda>xs. xs), wo_abandoned = (\<lambda>_. False), wo_fetches = [],
     wo_staging_error = None, wo_reader = [], wo_handle = 0, wo_expired = (\<lambda>_. False),
     wo_file_name = (\<lambda>_. None), wo_stat = (\<lambda>_. None)\<rparr>"

definition small_core :: core where
  "small_core = core_new small_options 1 1 True False False False 0 0"

definition joined_core :: core where
  "joined_core = fst (accept_client calm_world small_core)"

definition hello_event :: core_event where
  "hello_event = Client_Message 1 (ClientHello 3 ''c'' 0 0 0) []"

lemma calm_ok: "world_ok run_length_libraries calm_world"
  by (simp add: world_ok_def calm_world_def)

lemma small_start: "session_start \<lparr>ss_core = small_core, ss_wire = [], ss_decoder = None\<rparr>"
  unfolding session_start_def small_core_def
  by (intro exI [of _ small_options] exI [of _ 1] exI [of _ True] exI [of _ False] exI [of _ 0])
    (simp add: small_options_def)

lemma small_core_fields:
  "co_client small_core = None" "co_served small_core = (1, 1)" "co_display_size small_core = (1, 1)"
  "co_next_generation small_core = 1" "co_opts small_core = small_options"
  by (simp_all add: small_core_def core_new_def small_options_def Let_def)

lemma joined_core_eq:
  "joined_core = call Suppress_Auto_Repeat (small_core\<lparr>co_client := Some (new_client calm_world small_core),
     co_next_generation := 2, co_last_client_seen := 5\<rparr>)"
  by (simp add: joined_core_def accept_client_def small_core_fields) (simp add: calm_world_def)

lemma joined_core_fields:
  "co_client joined_core = Some (new_client calm_world small_core)" "co_served joined_core = (1, 1)"
  "co_display_size joined_core = (1, 1)" "co_opts joined_core = small_options"
  by (simp_all add: joined_core_eq call_def small_core_fields)

lemma joined: "handle_event sn sk calm_world New_Client small_core = Some (joined_core, Inr None)"
  by (simp add: handle_event_def joined_core_def accept_client_def ends_as_def small_core_fields)

lemma joined_ok: "core_ok joined_core"
proof -
  have "core_ok small_core" unfolding small_core_def by (rule core_new_ok) (simp_all add: small_options_def)
  then show ?thesis using core_ok_cong [of joined_core small_core] by (simp add: joined_core_eq call_def)
qed

definition small_hello :: message where
  "small_hello = ServerHello 3 [] 0 7 ''u'' 1 1"

lemma small_hello_sent:
  "\<not> cl_dead c \<Longrightarrow> \<not> cl_writer_gone c \<Longrightarrow> cl_queue c = [] \<Longrightarrow>
    \<exists>n. client_send small_hello c = (True, c\<lparr>cl_queue := [small_hello], cl_bytes_sent := n\<rparr>)"
  using length_enc_text [of "[]"] length_enc_text [of "''u''"]
  by (auto simp: client_send_def Let_def WRITE_QUEUE_def MAX_MESSAGE_SIZE_def small_hello_def
      frame_message_bytes encode_def encode_into_def wire_simps MAX_TEXT_LEN_def)

lemma greeted: "\<exists>co c. handle_event [] sk calm_world hello_event joined_core = Some (co, Inr None) \<and>
    co_client co = Some c \<and> cl_ready c \<and> \<not> cl_dead c \<and> cl_full_refresh c \<and> cl_generation c = 1 \<and>
    cl_queue c = [small_hello] \<and> co_served co = (1, 1)"
proof -
  let ?c = "new_client calm_world small_core"
  have c: "\<not> cl_ready ?c" "cl_queue ?c = []" "\<not> cl_dead ?c" "\<not> cl_writer_gone ?c" "cl_generation ?c = 1"
    by (simp_all add: new_client_def small_core_fields)
  obtain n where sent: "client_send small_hello (?c\<lparr>cl_ready := True, cl_features := 0\<rparr>) =
      (True, ?c\<lparr>cl_ready := True, cl_features := 0, cl_queue := [small_hello], cl_bytes_sent := n\<rparr>)"
    using small_hello_sent [of "?c\<lparr>cl_ready := True, cl_features := 0\<rparr>"] c by auto
  let ?greet = "\<lambda>c. snd (client_send small_hello (c\<lparr>cl_ready := True, cl_features := 0\<rparr>))"
  have ok: "core_ok (with_client ?greet joined_core)" by (simp add: joined_ok)
  obtain co prev where f: "force_full_refresh (with_client ?greet joined_core) = Some co"
    "co = with_client (\<lambda>c. c\<lparr>cl_full_refresh := True\<rparr>) ((with_client ?greet joined_core)\<lparr>
       co_encoder := (co_encoder (with_client ?greet joined_core))\<lparr>enc_prev := prev\<rparr>, co_dirty := True\<rparr>)"
    by (rule force_full_refresh_ok [OF ok]) blast
  have hello: "ServerHello (agreed_version 3) [] 0 (op_session_id small_options) (op_username small_options)
      (of_nat (fst (1::nat, 1::nat))) (of_nat (snd (1::nat, 1::nat))) = small_hello"
    by (simp add: small_hello_def small_options_def agreed_version_def PROTOCOL_VERSION_def)
  have "handle_event [] sk calm_world hello_event joined_core = on_hello [] calm_world 3 0 0 0 joined_core"
    using c by (simp add: handle_event_def hello_event_def generation_is_def joined_core_fields handle_client_message_def)
  also have "\<dots> = do { co \<leftarrow> force_full_refresh (with_client ?greet joined_core); Some (co, Inr None) }"
    unfolding hello [symmetric]
    by (simp add: on_hello_def peer_meets_floor_def MIN_COMPATIBLE_VERSION_def negotiated_def has_feature_def
        requested_size_def joined_core_fields c Let_def small_options_def)
  also have "\<dots> = Some (co, Inr None)" by (simp add: f(1))
  finally show ?thesis using sent c by (simp add: f(2) joined_core_fields)
qed

lemma joined_session:
  "running_session run_length_libraries sn sk \<lparr>ss_core = joined_core, ss_wire = [], ss_decoder = None\<rparr>"
proof (rule reach_step [where init = session_start, OF reach_init, OF small_start], intro conjI)
  show "session_step run_length_libraries sn sk \<lparr>ss_core = small_core, ss_wire = [], ss_decoder = None\<rparr>
      \<lparr>ss_core = joined_core, ss_wire = [], ss_decoder = None\<rparr>"
    using session_step.handled [OF calm_ok, of New_Client sn sk "\<lparr>ss_core = small_core, ss_wire = [], ss_decoder = None\<rparr>"
        joined_core "Inr None"] joined
    by (simp add: settle_def pend_after_def decoder_after_def)
qed (rule run_length_libraries_ok)

text \<open>The session after the hello, with the greeting in the queue.\<close>

lemma small_session:
  "\<exists>s c. running_session run_length_libraries [] sk s \<and> co_client (ss_core s) = Some c \<and> cl_ready c \<and> \<not> cl_dead c \<and>
     cl_full_refresh c \<and> cl_generation c = 1 \<and> cl_queue c = [small_hello] \<and> co_served (ss_core s) = (1, 1) \<and>
     ss_wire s = [] \<and> ss_decoder s = None"
proof -
  let ?step = "\<lambda>s t. compressors_ok run_length_libraries \<and> session_step run_length_libraries [] sk s t"
  let ?s1 = "\<lparr>ss_core = joined_core, ss_wire = [], ss_decoder = None\<rparr>"
  obtain co c where g: "handle_event [] sk calm_world hello_event joined_core = Some (co, Inr None)"
    "co_client co = Some c" "cl_ready c" "\<not> cl_dead c" "cl_full_refresh c" "cl_generation c = 1"
    "cl_queue c = [small_hello]" "co_served co = (1, 1)"
    using greeted by blast
  let ?s2 = "\<lparr>ss_core = co, ss_wire = [], ss_decoder = None\<rparr>"
  have "?step ?s1 ?s2"
    using session_step.handled [OF calm_ok, of hello_event "[]" sk ?s1 co "Inr None"] g(1)
    by (simp add: run_length_libraries_ok settle_def pend_after_def decoder_after_def hello_event_def)
  then have "running_session run_length_libraries [] sk ?s2" by (rule reach_step [OF joined_session])
  then show ?thesis using g by (intro exI [of _ ?s2] exI [of _ c]) simp
qed

theorem session_screen_follows_witness:
  "\<exists>s c d. running_session run_length_libraries [] (\<lambda>_. []) s \<and> co_client (ss_core s) = Some c \<and>
    show_messages run_length_libraries (ss_wire s @ cl_queue c) (ss_decoder s) = Some (Some d) \<and>
    in_sync (enc_prev (co_encoder (ss_core s))) (dec_fb d)"
  using small_session [of "\<lambda>_. []"] session_screen_follows [of run_length_libraries "[]" "\<lambda>_. []"] by blast

theorem session_never_panics_witness:
  "\<exists>s co exit. running_session run_length_libraries [] (\<lambda>_. []) s \<and>
    loop_turn [] (\<lambda>_. []) (Some (calm_world, [])) [(calm_world, X_Event Damage_Notify [] []), (calm_world, hello_event)] calm_world (ss_core s) = Some (co, exit)"
proof -
  obtain s where s: "running_session run_length_libraries [] (\<lambda>_. []) s" using small_session by blast
  then show ?thesis
    using session_never_panics [OF s run_length_libraries_ok _ _ calm_ok,
        of "Some (calm_world, [])" "[(calm_world, X_Event Damage_Notify [] []), (calm_world, hello_event)]"] calm_ok
    by (auto simp: hello_event_def)
qed

text \<open>The same session when the writer has put the greeting on the wire.\<close>

lemma small_session_on_wire:
  "\<exists>s c. running_session run_length_libraries [] sk s \<and> co_client (ss_core s) = Some c \<and> cl_ready c \<and> \<not> cl_dead c \<and>
     ss_wire s = [small_hello] \<and> ss_decoder s = None"
proof -
  obtain s c where s: "running_session run_length_libraries [] sk s" "co_client (ss_core s) = Some c" "cl_ready c"
    "\<not> cl_dead c" "cl_queue c = [small_hello]" "ss_wire s = []" "ss_decoder s = None"
    using small_session by blast
  let ?t = "s\<lparr>ss_core := (ss_core s)\<lparr>co_client := Some (c\<lparr>cl_queue := []\<rparr>)\<rparr>, ss_wire := ss_wire s @ [small_hello]\<rparr>"
  have "running_session run_length_libraries [] sk ?t"
    using reach_step [OF s(1), of ?t] session_step.written [OF s(2,5)] run_length_libraries_ok by blast
  then show ?thesis using s by (intro exI [of _ ?t]) auto
qed



theorem frames_show_the_root_witness:
  "\<exists>s c co' err c'. running_session run_length_libraries [] (\<lambda>_. []) s \<and> co_client (ss_core s) = Some c \<and> cl_full_refresh c \<and>
    send_frame calm_world (ss_core s) = Some (co', err) \<and> co_client co' = Some c' \<and>
    (cl_dead c' \<or> (\<exists>d. show_messages run_length_libraries (cl_queue c') None = Some (Some d) \<and> px (dec_fb d) 0 0 = 0x112233))"
proof -
  obtain s c where s: "running_session run_length_libraries [] (\<lambda>_. []) s" "co_client (ss_core s) = Some c" "cl_ready c"
    "cl_full_refresh c" "co_served (ss_core s) = (1, 1)" "ss_wire s = []" "ss_decoder s = None"
    using small_session by blast
  have w: "wo_compressors calm_world = run_length_libraries" "wo_damage calm_world = Some []"
    "answers_root (wo_server calm_world) (wo_msb_first calm_world) (\<lambda>_ x y. 0x112233)
       (fst (co_served (ss_core s))) (snd (co_served (ss_core s)))"
    using root_server_answers [of 1 1 True "\<lambda>x y. 0x112233"] by (simp_all add: calm_world_def s(5))
  show ?thesis
    using frames_show_the_root [OF s(1) run_length_libraries_ok w(1) s(2,3) w(2,3)] s
    by (auto simp: inside_def rgb_mask_def)
qed

theorem lost_clients_are_dropped_witness:
  "\<exists>s co c. running_session run_length_libraries [] (\<lambda>_. []) s \<and> finish_turn calm_world (ss_core s) = Some (co, None) \<and>
    co_client co = Some c \<and> \<not> cl_dead c"
proof -
  let ?s = "\<lparr>ss_core = joined_core, ss_wire = [], ss_decoder = None\<rparr>"
  have batch: "pump_clipboard_batch calm_world joined_core = joined_core"
    by (simp add: pump_clipboard_batch_def report_staging_progress_def Let_def joined_core_eq call_def)
      (simp add: calm_world_def small_core_def core_new_def Let_def)
  have "finish_turn calm_world joined_core = Some (joined_core, None)"
    by (simp add: finish_turn_def drop_dead_client_def joined_core_fields settle_def pump_frames_def batch new_client_def)
  moreover have "running_session run_length_libraries [] (\<lambda>_. []) ?s" by (rule joined_session)
  ultimately show ?thesis
    using lost_clients_are_dropped [of run_length_libraries "[]" "\<lambda>_. []" ?s calm_world joined_core]
      run_length_libraries_ok calm_ok joined_core_fields(1) by (intro exI [of _ ?s]) auto
qed

theorem replaced_connections_are_mute_witness:
  "\<exists>s co. running_session run_length_libraries [] (\<lambda>_. []) s \<and>
    handle_event [] (\<lambda>_. []) calm_world New_Client (ss_core s) = Some (co, Inr None) \<and>
    handle_event [] (\<lambda>_. []) calm_world (Client_Message 1 RefreshRequest []) co = Some (co, Inr None)"
proof -
  obtain s c where s: "running_session run_length_libraries [] (\<lambda>_. []) s" "co_client (ss_core s) = Some c" "cl_generation c = 1"
    using small_session by blast
  obtain co where co: "handle_event [] (\<lambda>_. []) calm_world New_Client (ss_core s) = Some (co, Inr None)"
    using s(2) by (auto simp: handle_event_def ends_as_def accept_client_def drop_client_def Let_def calm_world_def)
  show ?thesis using replaced_connections_are_mute [OF s(1,2) co] s co by (auto simp: settle_def)
qed

section \<open>Clipboard echoes\<close>

lemma not_a_transfer: "handle_transfer_message wo (ClipboardText t) co = (False, co)"
  by (simp add: handle_transfer_message_def Let_def)

lemma clipboard_text_message:
  assumes "co_client co = Some c" "cl_ready c" "has_feature (cl_features c) CLIPBOARD" "co_has_clipboard co"
  shows "handle_client_message sn sk req wo (ClipboardText t) co =
    (if echo_sent (co_echo co) = Some t then Some (co, Inr None)
     else Some (call (Set_Text t) (co\<lparr>co_echo := (co_echo co)\<lparr>echo_received := Some t, echo_sent := None\<rparr>\<rparr>), Inr None))"
  using assms
  by (simp add: handle_client_message_def not_a_transfer handle_ready_message_def client_copied_def Let_def)

text \<open>
  Clipboard text does not bounce. Text the client copied is set in the session once, and when the
  session's clipboard reports it back nothing is sent; text the session copied is sent to the client,
  and when the client reports it back the core ignores it.
\<close>

theorem clipboard_text_does_not_bounce:
  assumes c: "co_client co = Some c" "cl_ready c" "has_feature (cl_features c) CLIPBOARD" "co_has_clipboard co"
  shows "(echo_sent (co_echo co) \<noteq> Some t \<longrightarrow>
      (\<exists>co1. handle_client_message sn sk req wo (ClipboardText t) co = Some (co1, Inr None) \<and>
        co_calls co1 = co_calls co @ [Set_Text t] \<and> on_clipboard_event wo' (Text_Copied t) co1 = co1)) \<and>
    (echo_received (co_echo co) \<noteq> Some t \<longrightarrow>
      (let co2 = on_clipboard_event wo' (Text_Copied t) co in
        co_client co2 = Some (snd (client_send (ClipboardText t) c)) \<and>
        handle_client_message sn sk req wo (ClipboardText t) co2 = Some (co2, Inr None)))"
proof -
  have 1: "on_clipboard_event wo' (Text_Copied t)
      (call (Set_Text t) (co\<lparr>co_echo := (co_echo co)\<lparr>echo_received := Some t, echo_sent := None\<rparr>\<rparr>)) =
      call (Set_Text t) (co\<lparr>co_echo := (co_echo co)\<lparr>echo_received := Some t, echo_sent := None\<rparr>\<rparr>)"
    using c by (simp add: on_clipboard_event_def on_session_clipboard_def session_copied_def call_def)
  have one: "send_all [m] c = snd (client_send m c)" for m by (simp split: prod.split)
  let ?co2 = "send_to_client [ClipboardText t] (co\<lparr>co_echo := (co_echo co)\<lparr>echo_sent := Some t, echo_received := None\<rparr>\<rparr>)"
  have 2: "on_clipboard_event wo' (Text_Copied t) co = ?co2" if "echo_received (co_echo co) \<noteq> Some t"
    using c that by (simp add: on_clipboard_event_def on_session_clipboard_def session_copied_def)
  have cl: "co_client ?co2 = Some (snd (client_send (ClipboardText t) c))"
    using c(1) one by (simp add: send_to_client_def del: send_all.simps)
  have k: "cl_ready (snd (client_send (ClipboardText t) c))" "has_feature (cl_features (snd (client_send (ClipboardText t) c))) CLIPBOARD"
    using c client_send_tame [of c "ClipboardText t"] by (simp_all add: permitted_def tame_client_def)
  have "handle_client_message sn sk req wo (ClipboardText t) ?co2 = Some (?co2, Inr None)"
    using clipboard_text_message [OF cl k] c(4) by (simp add: send_to_client_def with_client_def)
  then show ?thesis using clipboard_text_message [OF c] 1 2 cl by (simp add: Let_def call_def)
qed

theorem clipboard_text_does_not_bounce_witness:
  "\<exists>co1. handle_client_message [] (\<lambda>_. []) (\<lambda>_. []) calm_world (ClipboardText ''hi'')
      (small_core\<lparr>co_client := Some ((new_client calm_world small_core)\<lparr>cl_ready := True, cl_features := CLIPBOARD\<rparr>),
         co_has_clipboard := True\<rparr>) = Some (co1, Inr None) \<and>
    on_clipboard_event calm_world (Text_Copied ''hi'') co1 = co1"
  using clipboard_text_does_not_bounce [of "small_core\<lparr>co_client := Some ((new_client calm_world small_core)\<lparr>cl_ready := True,
      cl_features := CLIPBOARD\<rparr>), co_has_clipboard := True\<rparr>" "(new_client calm_world small_core)\<lparr>cl_ready := True,
      cl_features := CLIPBOARD\<rparr>" "''hi''" "[]" "\<lambda>_. []" "\<lambda>_. []" calm_world calm_world]
  by (auto simp: has_feature_def CLIPBOARD_def small_core_def core_new_def echo_default_def Let_def)

end
