(* ===== verification/Outbound.thy ===== *)
theory Outbound
  imports Lynx_Prelude "HOL-Library.Sublist"
begin

text \<open>
  \<open>crates/client/src/outbound.rs\<close>: the client's writer, a bounded queue of framed messages and a
  worker thread that writes them to the socket. The socket is the list of the bytes written to it.
  The invariant is that what is on the socket is always a prefix of what was accepted, in order, and
  that the queue stays within its limits.
\<close>

section \<open>The writer\<close>

definition MAX_MESSAGES :: nat where "MAX_MESSAGES = 256"

definition MAX_BYTES :: nat where "MAX_BYTES = 8 * 1024 * 1024"

text \<open>
  \<open>ob_open\<close>: the sending end of the channel exists; \<open>ob_alive\<close>: the worker runs; \<open>ob_writing\<close>: what
  it took from the channel; \<open>ob_shut\<close>: the socket was shut down; \<open>ob_wire\<close>: what was written.
\<close>

record outbound =
  ob_open :: bool
  ob_queue :: "u8 list list"
  ob_writing :: "u8 list option"
  ob_queued_bytes :: nat
  ob_error :: "string option"
  ob_alive :: bool
  ob_shut :: bool
  ob_wire :: "u8 list"

definition outbound_new :: outbound where
  "outbound_new = \<lparr>ob_open = True, ob_queue = [], ob_writing = None, ob_queued_bytes = 0, ob_error = None,
     ob_alive = True, ob_shut = False, ob_wire = []\<rparr>"

text \<open>\<open>checked_add\<close> on a 64-bit \<open>usize\<close>.\<close>

definition reserve :: "nat \<Rightarrow> outbound \<Rightarrow> bool \<times> outbound" where
  "reserve sz ob =
     (if ob_queued_bytes ob + sz < 2 ^ 64 \<and> ob_queued_bytes ob + sz \<le> MAX_BYTES
      then (True, ob\<lparr>ob_queued_bytes := ob_queued_bytes ob + sz\<rparr>) else (False, ob))"

definition or_insert :: "'a \<Rightarrow> 'a option \<Rightarrow> 'a option" where
  "or_insert x o' = (case o' of None \<Rightarrow> Some x | Some y \<Rightarrow> Some y)"

definition stop_io :: "outbound \<Rightarrow> outbound" where
  "stop_io ob = ob\<lparr>ob_shut := True\<rparr>"

text \<open>The error \<open>Outbound::fail\<close> returns is the first one recorded.\<close>

definition outbound_fail :: "string \<Rightarrow> outbound \<Rightarrow> outbound \<times> (string + unit)" where
  "outbound_fail reason ob =
     (let err = or_insert reason (ob_error ob)
      in (stop_io (ob\<lparr>ob_error := err\<rparr>), Inl (case err of Some r \<Rightarrow> r | None \<Rightarrow> reason)))"

definition outbound_send :: "u8 list \<Rightarrow> outbound \<Rightarrow> outbound \<times> (string + unit)" where
  "outbound_send bytes ob =
     (case ob_error ob of
        Some reason \<Rightarrow> (ob, Inl reason)
      | None \<Rightarrow>
          if \<not> ob_open ob then (ob, Inl ''connection writer closed'')
          else (case reserve (length bytes) ob of
                  (False, ob) \<Rightarrow> outbound_fail ''outgoing connection stalled: byte queue limit reached'' ob
                | (True, ob) \<Rightarrow>
                    if \<not> ob_alive ob \<or> MAX_MESSAGES \<le> length (ob_queue ob)
                    then outbound_fail ''outgoing connection stalled: message queue unavailable''
                           (ob\<lparr>ob_queued_bytes := ob_queued_bytes ob - length bytes\<rparr>)
                    else (ob\<lparr>ob_queue := ob_queue ob @ [bytes]\<rparr>, Inr ())))"

section \<open>The worker\<close>

text \<open>
  Taking a buffer; writing it, in full or, when the write fails, some of it; and ending once the
  channel is closed and empty.
\<close>

definition worker_take :: "outbound \<Rightarrow> outbound" where
  "worker_take ob =
     (case ob_queue ob of
        b # bs \<Rightarrow> if ob_alive ob \<and> ob_writing ob = None then ob\<lparr>ob_queue := bs, ob_writing := Some b\<rparr> else ob
      | [] \<Rightarrow> if ob_alive ob \<and> ob_writing ob = None \<and> \<not> ob_open ob then ob\<lparr>ob_alive := False\<rparr> else ob)"

definition worker_write :: "(nat \<times> string) option \<Rightarrow> outbound \<Rightarrow> outbound" where
  "worker_write failure ob =
     (case ob_writing ob of
        None \<Rightarrow> ob
      | Some b \<Rightarrow>
          let ob = ob\<lparr>ob_writing := None, ob_queued_bytes := ob_queued_bytes ob - length b\<rparr>
          in (case failure of
                None \<Rightarrow> ob\<lparr>ob_wire := ob_wire ob @ b\<rparr>
              | Some (n, e) \<Rightarrow>
                  stop_io (ob\<lparr>ob_wire := ob_wire ob @ take n b, ob_alive := False,
                              ob_error := or_insert (''sending message: '' @ e) (ob_error ob)\<rparr>)))"

text \<open>\<open>n\<close> buffers written during the grace period.\<close>

definition worker_drains :: "nat \<Rightarrow> outbound \<Rightarrow> outbound" where
  "worker_drains n ob = ((\<lambda>ob. worker_take (worker_write None ob)) ^^ n) ob"

text \<open>
  Once the socket is shut down, the buffer in progress (or the next one) fails after \<open>broken\<close> of its
  bytes, and the worker that is joined has ended.
\<close>

definition outbound_close :: "bool \<Rightarrow> nat \<Rightarrow> nat \<times> string \<Rightarrow> outbound \<Rightarrow> outbound" where
  "outbound_close graceful n broken ob =
     (let ob = ob\<lparr>ob_open := False\<rparr>;
          ob = (if graceful \<and> ob_alive ob \<and> \<not> ob_shut ob then worker_drains n ob else ob);
          ob = stop_io ob
      in (worker_write (Some broken) (worker_take ob))\<lparr>ob_alive := False\<rparr>)"

section \<open>Order and limits\<close>

text \<open>The writer and the buffers it accepted so far.\<close>

inductive outbound_step :: "outbound \<times> u8 list list \<Rightarrow> outbound \<times> u8 list list \<Rightarrow> bool" where
  sends: "outbound_send b ob = (ob', r) \<Longrightarrow>
    outbound_step (ob, acc) (ob', if r = Inr () then acc @ [b] else acc)"
| takes: "outbound_step (ob, acc) (worker_take ob, acc)"
| writes: "\<not> ob_shut ob \<Longrightarrow> outbound_step (ob, acc) (worker_write None ob, acc)"
| fails: "outbound_step (ob, acc) (worker_write (Some broken) ob, acc)"
| closes: "outbound_step (ob, acc) (outbound_close graceful n broken ob, acc)"

inductive_cases outbound_stepE: "outbound_step (ob, acc) (ob', acc')"

definition unwritten :: "outbound \<Rightarrow> u8 list list" where
  "unwritten ob = (case ob_writing ob of None \<Rightarrow> [] | Some b \<Rightarrow> [b]) @ ob_queue ob"

definition outbound_ok :: "outbound \<times> u8 list list \<Rightarrow> bool" where
  "outbound_ok = (\<lambda>(ob, acc).
     prefix (ob_wire ob) (concat acc) \<and> (ob_alive ob \<longrightarrow> ob_wire ob @ concat (unwritten ob) = concat acc) \<and>
     (\<not> ob_alive ob \<longrightarrow> ob_writing ob = None) \<and>
     sum_list (map length (unwritten ob)) \<le> ob_queued_bytes ob \<and> ob_queued_bytes ob \<le> MAX_BYTES \<and>
     length (ob_queue ob) \<le> MAX_MESSAGES)"

lemma fail_fields [simp]:
  "ob_wire (fst (outbound_fail r ob)) = ob_wire ob" "ob_alive (fst (outbound_fail r ob)) = ob_alive ob"
  "unwritten (fst (outbound_fail r ob)) = unwritten ob" "ob_queue (fst (outbound_fail r ob)) = ob_queue ob"
  "ob_queued_bytes (fst (outbound_fail r ob)) = ob_queued_bytes ob" "\<exists>e. snd (outbound_fail r ob) = Inl e"
  "ob_error (fst (outbound_fail r ob)) \<noteq> None"
  by (auto simp: outbound_fail_def stop_io_def unwritten_def or_insert_def Let_def split: option.splits)

lemma outbound_send_cases:
  obtains (Accepted) "ob_error ob = None" "ob_open ob" "ob_alive ob" "length (ob_queue ob) < MAX_MESSAGES"
      "ob_queued_bytes ob + length b \<le> MAX_BYTES"
      "outbound_send b ob = (ob\<lparr>ob_queued_bytes := ob_queued_bytes ob + length b, ob_queue := ob_queue ob @ [b]\<rparr>, Inr ())"
  | (Failed) r where "outbound_send b ob = outbound_fail r ob" "ob_error ob = None"
  | (Refused) e where "outbound_send b ob = (ob, Inl e)"
proof (cases "ob_error ob = None \<and> ob_open ob")
  case False
  then show thesis by (cases "ob_error ob") (auto simp: outbound_send_def intro: Refused)
next
  case True
  then have here: "ob_error ob = None" "ob_open ob" by auto
  note send = outbound_send_def [of b ob] reserve_def here
  show thesis
  proof (cases "ob_queued_bytes ob + length b \<le> MAX_BYTES")
    case False
    then show thesis by (intro Failed) (simp_all add: send)
  next
    case fits: True
    then have "ob_queued_bytes ob + length b < 18446744073709551616" by (simp add: MAX_BYTES_def)
    note send = send this fits
    show thesis
    proof (cases "ob_alive ob \<and> length (ob_queue ob) < MAX_MESSAGES")
      case True
      then show thesis using here fits by (intro Accepted) (simp_all add: send)
    next
      case False
      then show thesis by (intro Failed) (auto simp: send)
    qed
  qed
qed

lemma outbound_ok_send:
  assumes "outbound_ok (ob, acc)" "outbound_send b ob = (ob', r)"
  shows "outbound_ok (ob', if r = Inr () then acc @ [b] else acc)"
proof (cases rule: outbound_send_cases [of ob b])
  case Accepted
  then have now: "ob' = ob\<lparr>ob_queued_bytes := ob_queued_bytes ob + length b, ob_queue := ob_queue ob @ [b]\<rparr>" "r = Inr ()"
    using assms(2) by auto
  have "unwritten ob' = unwritten ob @ [b]" by (simp add: unwritten_def now)
  then show ?thesis using assms(1) Accepted by (auto simp: outbound_ok_def now)
next
  case (Failed s)
  then have "outbound_fail s ob = (ob', r)" using assms(2) by simp
  then show ?thesis using assms(1) by (auto simp: outbound_ok_def outbound_fail_def stop_io_def unwritten_def Let_def)
next
  case Refused
  then show ?thesis using assms by auto
qed

lemma outbound_ok_take: "outbound_ok (ob, acc) \<Longrightarrow> outbound_ok (worker_take ob, acc)"
  by (auto simp: worker_take_def outbound_ok_def unwritten_def split: list.splits)

lemma outbound_ok_write:
  assumes ok: "outbound_ok (ob, acc)"
  shows "outbound_ok (worker_write failure ob, acc)"
proof (cases "ob_writing ob")
  case (Some b)
  have u: "unwritten ob = b # ob_queue ob" by (simp add: unwritten_def Some)
  have alive: "ob_alive ob" using ok Some by (auto simp: outbound_ok_def)
  have all: "concat acc = ob_wire ob @ b @ concat (ob_queue ob)" using ok u alive by (auto simp: outbound_ok_def)
  have broken: "prefix (ob_wire ob @ take n b) (concat acc)" for n
    unfolding all by (metis append.assoc append_take_drop_id prefixI same_prefix_prefix)
  have "prefix (ob_wire ob @ b) (concat acc)" using broken [of "length b"] by simp
  then show ?thesis
    using ok u Some alive all broken
    by (cases failure) (auto simp: worker_write_def outbound_ok_def unwritten_def stop_io_def Let_def)
qed (use ok in \<open>simp add: worker_write_def\<close>)

lemma outbound_ok_drains: "outbound_ok (ob, acc) \<Longrightarrow> outbound_ok (worker_drains n ob, acc)"
  by (induction n) (simp_all add: worker_drains_def outbound_ok_take outbound_ok_write)

lemma outbound_ok_flags:
  "outbound_ok (ob, acc) \<Longrightarrow> outbound_ok (ob\<lparr>ob_open := v\<rparr>, acc)"
  "outbound_ok (ob, acc) \<Longrightarrow> outbound_ok (stop_io ob, acc)"
  "outbound_ok (ob, acc) \<Longrightarrow> ob_writing ob = None \<Longrightarrow> outbound_ok (ob\<lparr>ob_alive := False\<rparr>, acc)"
  by (simp_all add: outbound_ok_def unwritten_def stop_io_def)

lemma worker_write_idle [simp]: "ob_writing (worker_write failure ob) = None"
  by (auto simp: worker_write_def stop_io_def Let_def split: option.splits)

lemma outbound_ok_close: "outbound_ok (ob, acc) \<Longrightarrow> outbound_ok (outbound_close graceful n broken ob, acc)"
  unfolding outbound_close_def Let_def
  by (intro outbound_ok_flags(3) outbound_ok_write outbound_ok_take outbound_ok_flags(2)) 
     (auto intro: outbound_ok_drains outbound_ok_flags(1))

lemma outbound_ok_step: "outbound_step s s' \<Longrightarrow> outbound_ok s \<Longrightarrow> outbound_ok s'"
  by (induction rule: outbound_step.induct)
     (auto intro: outbound_ok_take outbound_ok_write outbound_ok_close dest: outbound_ok_send)

lemma outbound_ok_start: "outbound_ok (outbound_new, [])"
  by (simp add: outbound_ok_def outbound_new_def unwritten_def)

interpretation writer: invariant_system "\<lambda>s. s = (outbound_new, [])" outbound_step outbound_ok
  by unfold_locales (auto intro: outbound_ok_start outbound_ok_step)

lemma outbound_error_sticks: "ob_error ob = Some e \<Longrightarrow> outbound_send b ob = (ob, Inl e)"
  by (simp add: outbound_send_def)

text \<open>
  C19. The writer keeps order and its limits: whatever is sent, however the worker's writes succeed, fail
  or are cut off and however it is closed, the bytes on the socket are a prefix of the accepted
  messages in the order they were accepted, nothing accepted is missing while the worker lives, and the
  queue stays within its limits; once there is an error it accepts nothing more.
\<close>

theorem outbound_in_order:
  assumes "reach (\<lambda>s. s = (outbound_new, [])) outbound_step (ob, accepted)"
  shows "prefix (ob_wire ob) (concat accepted) \<and>
    (ob_alive ob \<longrightarrow> ob_wire ob @ concat (unwritten ob) = concat accepted) \<and>
    ob_queued_bytes ob \<le> MAX_BYTES \<and> length (ob_queue ob) \<le> MAX_MESSAGES \<and>
    (\<forall>e b. ob_error ob = Some e \<longrightarrow> outbound_send b ob = (ob, Inl e))"
  using writer.inv_reach [OF assms] outbound_error_sticks by (simp add: outbound_ok_def)

theorem outbound_in_order_witness:
  "\<exists>ob. reach (\<lambda>s. s = (outbound_new, [])) outbound_step (ob, [[1, 2], [3]]) \<and> ob_wire ob = [1, 2] \<and>
    prefix (ob_wire ob) (concat [[1, 2], [3]])"
proof -
  let ?reach = "reach (\<lambda>s. s = (outbound_new, [])) outbound_step"
  let ?s1 = "outbound_new\<lparr>ob_queued_bytes := 2, ob_queue := [[1, 2]]\<rparr>"
  let ?s2 = "outbound_new\<lparr>ob_queued_bytes := 3, ob_queue := [[1, 2], [3]]\<rparr>"
  note sizes = outbound_send_def reserve_def outbound_new_def MAX_BYTES_def MAX_MESSAGES_def
  have 0: "?reach (outbound_new, [])" by (rule reach_init) simp
  have "outbound_step (outbound_new, []) (?s1, if Inr () = (Inr () :: string + unit) then [] @ [[1, 2]] else [])"
    by (rule outbound_step.sends) (simp add: sizes)
  from reach_step [OF 0 this] have 1: "?reach (?s1, [[1, 2]])" by simp
  have "outbound_step (?s1, [[1, 2]]) (?s2, if Inr () = (Inr () :: string + unit) then [[1, 2]] @ [[3]] else [[1, 2]])"
    by (rule outbound_step.sends) (simp add: sizes)
  from reach_step [OF 1 this] have 2: "?reach (?s2, [[1, 2], [3]])" by simp
  let ?s3 = "worker_take ?s2"
  from reach_step [OF 2 outbound_step.takes] have 3: "?reach (?s3, [[1, 2], [3]])" .
  have "outbound_step (?s3, [[1, 2], [3]]) (worker_write None ?s3, [[1, 2], [3]])"
    by (rule outbound_step.writes) (simp add: worker_take_def outbound_new_def)
  from reach_step [OF 3 this] have 4: "?reach (worker_write None ?s3, [[1, 2], [3]])" .
  have "ob_wire (worker_write None ?s3) = [1, 2]" by (simp add: worker_take_def worker_write_def outbound_new_def)
  with outbound_in_order [OF 4] 4 show ?thesis by blast
qed

end
