(* ===== verification/Text_Lines.thy ===== *)
theory Text_Lines
  imports Safe_Path
begin

text \<open>
  Text as several parts of the code read and write it: lines, trimming, hexadecimal digits, and the
  visible characters that trimming leaves alone.
\<close>

section \<open>Lines\<close>

definition trim_end :: "string \<Rightarrow> string" where
  "trim_end s = rev (strip_start (map rev white_space) (rev s))"

text \<open>\<open>str::lines\<close>: a line ends at a newline, and a carriage return before it goes with it.\<close>

fun split_lines :: "string \<Rightarrow> string list" where
  "split_lines [] = []"
| "split_lines s =
     (let l = takeWhile (\<lambda>c. c \<noteq> CHR 0x0A) s; rest = drop (length l + 1) s; ended = length l < length s;
          line = (if ended \<and> l \<noteq> [] \<and> last l = CHR 0x0D then butlast l else l)
      in line # (if rest = [] then [] else split_lines rest))"

lemma split_line:
  assumes "CHR 0x0A \<notin> set l"
  shows "split_lines (l @ [CHR 0x0A] @ t) = (if l \<noteq> [] \<and> last l = CHR 0x0D then butlast l else l) # split_lines t"
proof -
  have t: "takeWhile (\<lambda>c. c \<noteq> CHR 0x0A) (l @ CHR 0x0A # t) = l" using assms by (induction l) auto
  obtain c cs where c: "l @ CHR 0x0A # t = c # cs" by (cases l) auto
  have "split_lines (c # cs) = (if l \<noteq> [] \<and> last l = CHR 0x0D then butlast l else l) # split_lines t"
    unfolding split_lines.simps Let_def t [unfolded c] using arg_cong [OF c, of length] arg_cong [OF c, of "drop (length l + 1)"]
    by (cases t) auto
  then show ?thesis by (simp add: c)
qed

lemma split_lines_crlf: "CHR 0x0A \<notin> set l \<Longrightarrow> CHR 0x0D \<notin> set l \<Longrightarrow> split_lines (l @ [CHR 0x0D] @ [CHR 0x0A] @ t) = l # split_lines t"
  using split_line [of "l @ [CHR 0x0D]" t] by simp

lemma split_lines_lf: "CHR 0x0A \<notin> set l \<Longrightarrow> CHR 0x0D \<notin> set l \<Longrightarrow> split_lines (l @ [CHR 0x0A] @ t) = l # split_lines t"
proof -
  assume a: "CHR 0x0A \<notin> set l" "CHR 0x0D \<notin> set l"
  have "\<not> (l \<noteq> [] \<and> last l = CHR 0x0D)" using a(2) by (cases l rule: rev_cases) auto
  then show ?thesis using split_line [OF a(1)] by (simp only: if_False)
qed

section \<open>Visible characters\<close>

text \<open>Visible ASCII, which the columns are made of and a path starts and ends with.\<close>

definition graphic :: "char \<Rightarrow> bool" where
  "graphic c \<longleftrightarrow> 0x21 \<le> (of_char c :: nat) \<and> (of_char c :: nat) < 0x7F"

lemma white_space_ends: "w \<in> set white_space \<Longrightarrow> w \<noteq> [] \<and> \<not> graphic (hd w) \<and> \<not> graphic (last w)"
proof -
  have "list_all (\<lambda>w. w \<noteq> [] \<and> \<not> graphic (hd w) \<and> \<not> graphic (last w)) white_space"
    by (simp add: white_space_def graphic_def)
  then show "w \<in> set white_space \<Longrightarrow> w \<noteq> [] \<and> \<not> graphic (hd w) \<and> \<not> graphic (last w)" by (simp add: list_all_iff)
qed

lemma no_white_space: "graphic c \<Longrightarrow> w \<in> set white_space \<Longrightarrow> take (length w) (c # s) \<noteq> w"
  using white_space_ends [of w] by (cases w) auto

lemma strip_graphic: "graphic c \<Longrightarrow> strip_start white_space (c # s) = c # s"
proof -
  assume "graphic c"
  then have "List.find (\<lambda>w. w \<noteq> [] \<and> starts_with (c # s) w) white_space = None"
    using no_white_space [of c _ s] by (auto simp: find_None_iff starts_with_def)
  then show ?thesis by (simp add: strip_start.simps)
qed

lemma strip_graphic_end: "graphic c \<Longrightarrow> strip_start (map rev white_space) (c # s) = c # s"
proof -
  assume g: "graphic c"
  have "\<not> starts_with (c # s) (rev w)" if "w \<in> set white_space" for w
    using white_space_ends [OF that] g by (cases w rule: rev_cases) (auto simp: starts_with_def)
  then have "List.find (\<lambda>w. w \<noteq> [] \<and> starts_with (c # s) w) (map rev white_space) = None"
    by (auto simp: find_None_iff)
  then show ?thesis by (simp add: strip_start.simps)
qed

lemma trim_end_graphic: "graphic c \<Longrightarrow> trim_end (s @ [c]) = s @ [c]"
  by (simp add: trim_end_def strip_graphic_end)

lemma strip_spaces: "strip_start white_space (replicate n (CHR '' '') @ s) = strip_start white_space s"
proof (induction n)
  case (Suc n)
  have "List.find (\<lambda>w. w \<noteq> [] \<and> starts_with (CHR '' '' # t) w) white_space = Some [CHR '' '']" for t
    by (simp add: white_space_def starts_with_def)
  then show ?case using Suc by (simp add: strip_start.simps [of _ "CHR '' '' # _"])
qed simp

lemma trim_graphic: "s \<noteq> [] \<Longrightarrow> graphic (hd s) \<Longrightarrow> graphic (last s) \<Longrightarrow> trim s = s"
proof -
  assume s: "s \<noteq> []" "graphic (hd s)" "graphic (last s)"
  have "strip_start white_space s = s" using strip_graphic [OF s(2), of "tl s"] s(1) by simp
  moreover have "rev s = last s # rev (butlast s)" using s(1) by (metis append_butlast_last_id rev_eq_Cons_iff rev_rev_ident)
  then have "strip_start (map rev white_space) (rev s) = rev s" using strip_graphic_end [OF s(3), of "rev (butlast s)"] by (simp only:)
  ultimately show ?thesis by (simp add: trim_def)
qed

lemma find_first: "a \<le> i \<Longrightarrow> i < n \<Longrightarrow> P i \<Longrightarrow> (\<And>j. j < i \<Longrightarrow> \<not> P j) \<Longrightarrow> List.find P [a..<n] = Some i"
  by (auto simp: find_Some_iff intro!: exI [of _ "i - a"])

section \<open>Numbers in text\<close>

definition is_digit :: "char \<Rightarrow> bool" where
  "is_digit c \<longleftrightarrow> 48 \<le> (of_char c :: nat) \<and> (of_char c :: nat) \<le> 57"

definition digits_value :: "string \<Rightarrow> nat" where
  "digits_value ds = foldl (\<lambda>n c. n * 10 + (of_char c - 48)) 0 ds"

text \<open>\<open>str::parse\<close> of an unsigned integer that may be at most \<open>mx\<close>.\<close>

definition parse_unsigned :: "nat \<Rightarrow> string \<Rightarrow> nat option" where
  "parse_unsigned mx s =
     (let ds = (case s of c # cs \<Rightarrow> if c = CHR ''+'' \<and> cs \<noteq> [] then cs else s | [] \<Rightarrow> s)
      in if ds = [] \<or> \<not> list_all is_digit ds \<or> mx < digits_value ds then None else Some (digits_value ds))"

lemma digit_char: "d < 10 \<Longrightarrow> is_digit (char_of (48 + d))" "d < 10 \<Longrightarrow> (of_char (char_of (48 + d :: nat)) :: nat) = 48 + d"
  by (simp_all add: is_digit_def)

lemma decimal_digits: "list_all is_digit (decimal n)" "decimal n \<noteq> []" "digits_value (decimal n) = n"
proof (induction n rule: decimal.induct)
  case (1 n)
  have *: "decimal n = (if n < 10 then [char_of (48 + n)] else decimal (n div 10) @ [char_of (48 + n mod 10)])"
    by (rule decimal.simps)
  show "list_all is_digit (decimal n)" using 1(1) * digit_char(1) by auto
  show "decimal n \<noteq> []" using * by simp
  show "digits_value (decimal n) = n" using 1(3) * digit_char(2) [of "n mod 10"] digit_char(2) [of n]
    by (auto simp: digits_value_def)
qed

lemma parse_decimal: "n \<le> mx \<Longrightarrow> parse_unsigned mx (decimal n) = Some n"
proof -
  assume n: "n \<le> mx"
  obtain c cs where c: "decimal n = c # cs" using decimal_digits(2) by (cases "decimal n") blast
  then have "is_digit c" using decimal_digits(1) [of n] by simp
  then have "c \<noteq> CHR ''+''" by (auto simp: is_digit_def)
  then show ?thesis using n decimal_digits [of n] by (simp add: parse_unsigned_def c)
qed

section \<open>Hexadecimal digits\<close>

definition hex_value :: "char \<Rightarrow> nat option" where
  "hex_value c =
     (let n = of_char c in if 48 \<le> n \<and> n \<le> 57 then Some (n - 48)
      else if 65 \<le> n \<and> n \<le> 70 then Some (n - 55) else if 97 \<le> n \<and> n \<le> 102 then Some (n - 87) else None)"

fun hex_number :: "nat \<Rightarrow> string \<Rightarrow> nat option" where
  "hex_number a [] = Some a"
| "hex_number a (c # cs) = (case hex_value c of None \<Rightarrow> None | Some d \<Rightarrow> hex_number (16 * a + d) cs)"

definition hex_char :: "nat \<Rightarrow> char" where
  "hex_char d = char_of (if d < 10 then 48 + d else 55 + d)"

primrec hex_digits :: "nat \<Rightarrow> nat \<Rightarrow> string" where
  "hex_digits 0 n = []"
| "hex_digits (Suc k) n = hex_digits k (n div 16) @ [hex_char (n mod 16)]"

lemma hex_char_value: "d < 16 \<Longrightarrow> hex_value (hex_char d) = Some d"
  by (auto simp: hex_value_def hex_char_def)

lemma hex_char_graphic: "d < 16 \<Longrightarrow> graphic (hex_char d) \<and> hex_char d \<noteq> CHR '':'' \<and> hex_char d \<noteq> CHR ''+''"
proof -
  assume d: "d < 16"
  have "(of_char (hex_char d) :: nat) = (if d < 10 then 48 + d else 55 + d)" using d by (simp add: hex_char_def)
  then have "(of_char (hex_char d) :: nat) \<noteq> 58 \<and> (of_char (hex_char d) :: nat) \<noteq> 43 \<and> graphic (hex_char d)"
    using d by (auto simp: graphic_def)
  then show ?thesis by auto
qed

lemma hex_number_append: "hex_number a (xs @ ys) = Option.bind (hex_number a xs) (\<lambda>b. hex_number b ys)"
  by (induction xs arbitrary: a) (auto split: option.splits)

lemma hex_number_digits: "n < 16 ^ k \<Longrightarrow> hex_number 0 (hex_digits k n) = Some n"
proof (induction k arbitrary: n)
  case (Suc k)
  have "n div 16 < 16 ^ k" using Suc.prems by (simp add: less_mult_imp_div_less mult.commute)
  then show ?case using Suc.IH by (simp add: hex_number_append hex_char_value)
qed simp

lemma length_hex_digits [simp]: "length (hex_digits k n) = k"
  by (induction k arbitrary: n) auto

lemma hex_digits_chars: "c \<in> set (hex_digits k n) \<Longrightarrow> graphic c \<and> c \<noteq> CHR '':'' \<and> c \<noteq> CHR ''+''"
  by (induction k arbitrary: n) (auto simp: hex_char_graphic)

lemma hex_digits_numeral: "hex_digits (numeral k) n = hex_digits (pred_numeral k) (n div 16) @ [hex_char (n mod 16)]"
  unfolding numeral_eq_Suc [of k] by simp

lemma hex_chars:
  "hex_char 0 = CHR ''0''" "hex_char (Suc 0) = CHR ''1''" "hex_char 2 = CHR ''2''" "hex_char 3 = CHR ''3''" "hex_char 7 = CHR ''7''"
  "hex_char 10 = CHR ''A''" "hex_char 13 = CHR ''D''" "hex_char 14 = CHR ''E''" "hex_char 15 = CHR ''F''"
  by code_simp+

end
