(* ===== verification/Client_Paths.thy ===== *)
theory Client_Paths
  imports Text_Lines Message
begin

text \<open>
  The pure text and path functions of \<open>crates/client/src/connection.rs\<close>: which local paths may be
  offered to the session and how they are spelled on the wire, and how a rejection is phrased and
  recognised again. Paths are Unix paths; a path need not be UTF-8.
\<close>

section \<open>Rejections\<close>

definition REJECTION_MARK :: string where "REJECTION_MARK = ''rejected (code ''"

definition rejection_reason :: "u16 \<Rightarrow> string \<Rightarrow> string" where
  "rejection_reason code reason = REJECTION_MARK @ decimal (unat code) @ ''): '' @ reason"

definition before_paren :: "string \<Rightarrow> string option" where
  "before_paren s = (if CHR '')'' \<in> set s then Some (takeWhile (\<lambda>c. c \<noteq> CHR '')'') s) else None)"

definition rejection_code :: "string \<Rightarrow> u16 option" where
  "rejection_code txt =
     (if starts_with txt REJECTION_MARK
      then Option.bind (before_paren (drop (length REJECTION_MARK) txt))
             (\<lambda>s. map_option of_nat (parse_unsigned (2 ^ 16 - 1) s))
      else None)"

text \<open>\<open>match_indices\<close> finds matches from the left that do not overlap.\<close>

function any_match :: "string \<Rightarrow> (string \<Rightarrow> bool) \<Rightarrow> string \<Rightarrow> bool" where
  "any_match pat ok s =
     (if s = [] \<or> pat = [] then False
      else if starts_with s pat then ok s \<or> any_match pat ok (drop (length pat) s)
      else any_match pat ok (tl s))"
  by pat_completeness auto
termination by (relation "measure (\<lambda>(pat, ok, s). length s)") auto

declare any_match.simps [simp del]

definition mentions_rejection :: "string \<Rightarrow> bool" where
  "mentions_rejection txt = any_match REJECTION_MARK (\<lambda>s. rejection_code s \<noteq> None) txt"

lemma starts_with_append [simp]: "starts_with (pre @ s) pre"
  by (simp add: starts_with_def)

lemma rejection_code_reason: "rejection_code (rejection_reason code reason) = Some code"
proof -
  let ?d = "decimal (unat code)"
  have "c \<noteq> CHR '')''" if "c \<in> set ?d" for c
    using that decimal_digits(1) [of "unat code"] by (auto simp: list_all_iff is_digit_def)
  then have "before_paren (?d @ ''): '' @ reason) = Some ?d"
    by (simp add: before_paren_def takeWhile_append2)
  moreover have "unat code \<le> 2 ^ 16 - 1" using unsigned_less [of code, where ?'a = nat] by simp
  ultimately show ?thesis
    by (simp add: rejection_code_def rejection_reason_def parse_decimal)
qed

text \<open>The mark does not overlap a shift of itself, so no match before it can hide it.\<close>

lemma mark_unbordered: "0 < k \<Longrightarrow> k < length REJECTION_MARK \<Longrightarrow>
    take (length REJECTION_MARK - k) REJECTION_MARK \<noteq> drop k REJECTION_MARK"
proof -
  have "\<forall>k \<in> set [1..<15]. take (15 - k) ''rejected (code '' \<noteq> drop k ''rejected (code ''"
    by (simp add: upt_rec)
  moreover have "length REJECTION_MARK = 15" by (simp add: REJECTION_MARK_def)
  ultimately show "0 < k \<Longrightarrow> k < length REJECTION_MARK \<Longrightarrow> ?thesis"
    by (simp only: set_upt atLeastLessThan_iff REJECTION_MARK_def [symmetric]) force
qed

lemma starts_with_longer:
  assumes "starts_with (pre @ REJECTION_MARK @ s) REJECTION_MARK" "pre \<noteq> []"
  shows "length REJECTION_MARK \<le> length pre"
proof (rule ccontr)
  let ?m = REJECTION_MARK and ?k = "length pre"
  assume "\<not> length ?m \<le> ?k"
  then have k: "0 < ?k" "?k < length ?m" using assms(2) by simp_all
  have "take (length ?m) (pre @ ?m @ s) = pre @ take (length ?m - ?k) (?m @ s)"
    using k by simp
  then have m: "?m = pre @ take (length ?m - ?k) ?m" using assms(1) k by (simp add: starts_with_def)
  have "drop ?k ?m = take (length ?m - ?k) ?m" by (subst m) simp
  then show False using mark_unbordered [OF k] by simp
qed

lemma mentions_rejection_anywhere: "mentions_rejection (pre @ rejection_reason code reason)"
proof (induction pre rule: length_induct)
  case (1 pre)
  let ?r = "rejection_reason code reason"
  have r: "?r = REJECTION_MARK @ decimal (unat code) @ ''): '' @ reason" by (simp add: rejection_reason_def)
  have mark: "REJECTION_MARK \<noteq> []" by (simp add: REJECTION_MARK_def)
  show ?case
  proof (cases "pre = []")
    case True
    have "starts_with ?r REJECTION_MARK" by (simp add: r)
    then show ?thesis
      unfolding mentions_rejection_def True append_Nil
      by (subst any_match.simps) (use mark rejection_code_reason [of code reason] in \<open>simp add: r\<close>)
  next
    case nonempty: False
    show ?thesis
    proof (cases "starts_with (pre @ ?r) REJECTION_MARK")
      case True
      then have len: "length REJECTION_MARK \<le> length pre" using starts_with_longer nonempty unfolding r by blast
      have "length (drop (length REJECTION_MARK) pre) < length pre" using len mark nonempty by simp
      then have "mentions_rejection (drop (length REJECTION_MARK) pre @ ?r)" using 1 by blast
      then show ?thesis using True len mark nonempty
        unfolding mentions_rejection_def by (subst any_match.simps) simp
    next
      case False
      have "mentions_rejection (tl pre @ ?r)" using 1 nonempty by simp
      then show ?thesis using False mark nonempty
        unfolding mentions_rejection_def by (subst any_match.simps) simp
    qed
  qed
qed

section \<open>Local paths\<close>

datatype component = Root_Dir | Cur_Dir | Parent_Dir | Normal string

text \<open>\<open>Path::components\<close>: empty parts and \<open>.\<close> are dropped, but for a \<open>.\<close> a relative path starts with.\<close>

definition part_components :: "string \<Rightarrow> component list" where
  "part_components p =
     (if p = '''' \<or> p = ''.'' then [] else if p = ''..'' then [Parent_Dir] else [Normal p])"

definition components :: "string \<Rightarrow> component list" where
  "components path =
     (let parts = split_on (\<lambda>c. c = CHR ''/'') path
      in (if starts_with path ''/'' then [Root_Dir] else if hd parts = ''.'' then [Cur_Dir] else []) @
         concat (map part_components parts))"

text \<open>\<open>Path::strip_prefix\<close> and \<open>Path::starts_with\<close> compare components.\<close>

definition strip_path :: "string \<Rightarrow> string \<Rightarrow> component list option" where
  "strip_path base path =
     (let b = components base; p = components path
      in if take (length b) p = b then Some (drop (length b) p) else None)"

definition mac_alias :: "string \<Rightarrow> string" where
  "mac_alias path =
     (if strip_path ''/private/var'' path \<noteq> None
      then (if utf8_str path \<and> starts_with path ''/private'' then drop 8 path else path)
      else path)"

definition clipboard_reference_under :: "string \<Rightarrow> string \<Rightarrow> bool" where
  "clipboard_reference_under path root =
     (case strip_path (mac_alias root) (mac_alias path) of
        Some (Normal directory # tail) \<Rightarrow>
          utf8_str directory \<and> starts_with directory ''lynxrdp-clipboard-'' \<and>
          (let pid = drop 18 directory in pid \<noteq> [] \<and> list_all is_digit pid) \<and>
          tail \<noteq> [] \<and> list_all (\<lambda>c. case c of Normal _ \<Rightarrow> True | _ \<Rightarrow> False) tail
      | _ \<Rightarrow> False)"

definition received_clipboard_files :: "string \<Rightarrow> string list \<Rightarrow> bool" where
  "received_clipboard_files temp_dir paths = list_ex (\<lambda>p. clipboard_reference_under p temp_dir) paths"

definition wire_path :: "bool \<Rightarrow> string \<Rightarrow> string option" where
  "wire_path windows path =
     (if utf8_str path
      then Some (if windows then map (\<lambda>c. if c = CHR 0x5C then CHR ''/'' else c) path else path)
      else None)"

text \<open>
  The error of a \<open>Result\<close> of \<open>anyhow\<close> is the chain of its messages, the outermost first. \<open>stat\<close> tells
  whether a path is a file and its length, \<open>shown\<close> is \<open>Path::display\<close>.
\<close>

type_synonym failure = "string list"

definition file_entry_of ::
    "bool \<Rightarrow> (string \<Rightarrow> string) \<Rightarrow> (string \<Rightarrow> string + bool \<times> u64) \<Rightarrow> string \<Rightarrow> failure + file_entry" where
  "file_entry_of windows shown stat path =
     (case stat path of
        Inl e \<Rightarrow> Inl [''reading '' @ shown path, e]
      | Inr (is_file, len) \<Rightarrow>
          if \<not> is_file
          then Inl [''folders cannot be pasted through the clipboard yet; drag '' @ shown path @
                    '' into the session to upload it'']
          else (case wire_path windows path of
                  None \<Rightarrow> Inl [''the filename cannot be represented in the transfer protocol'']
                | Some name \<Rightarrow> Inr \<lparr>fe_path = name, fe_size = len\<rparr>))"

primrec collect :: "('a \<Rightarrow> 'e + 'b) \<Rightarrow> 'a list \<Rightarrow> 'e + 'b list" where
  "collect f [] = Inr []"
| "collect f (x # xs) = bindE (f x) (\<lambda>y. bindE (collect f xs) (\<lambda>ys. Inr (y # ys)))"

definition clipboard_file_entries ::
    "bool \<Rightarrow> (string \<Rightarrow> string) \<Rightarrow> (string \<Rightarrow> string + bool \<times> u64) \<Rightarrow> string list \<Rightarrow> failure + file_entry list" where
  "clipboard_file_entries windows shown stat paths =
     (if paths = [] \<or> MAX_FILE_LIST < length paths
      then Inl [''copy between 1 and '' @ decimal MAX_FILE_LIST @ '' files at a time'']
      else collect (file_entry_of windows shown stat) paths)"

lemma collect_Inr: "collect f xs = Inr ys \<longleftrightarrow> list_all2 (\<lambda>x y. f x = Inr y) xs ys"
  by (induction xs arbitrary: ys) (auto simp: bindE_Inr_iff list_all2_Cons1)

text \<open>Every path an offer lists is a file whose entry carries its own spelling and length.\<close>

lemma clipboard_file_entries_ok:
  "clipboard_file_entries windows shown stat paths = Inr files \<Longrightarrow>
    1 \<le> length files \<and> length files \<le> MAX_FILE_LIST \<and>
    list_all2 (\<lambda>p f. stat p = Inr (True, fe_size f) \<and> wire_path windows p = Some (fe_path f)) paths files"
  by (auto simp: clipboard_file_entries_def collect_Inr file_entry_of_def list_all2_lengthD Suc_le_eq
      split: if_splits sum.splits option.splits elim!: list_all2_mono dest: list_all2_lengthD)

text \<open>
  A rejection survives being reported: the code can be read back out of the phrase, for every code
  and reason, and the phrase is recognised wherever an error chain puts it.
\<close>

theorem rejections_are_recognised:
  "rejection_code (rejection_reason code reason) = Some code \<and>
   mentions_rejection (context_text @ rejection_reason code reason)"
  by (simp add: rejection_code_reason mentions_rejection_anywhere)

end
