(* ===== verification/Viewer.thy ===== *)
theory Viewer
  imports Session_Core Outbound Client_Paths
begin

text \<open>
  \<open>crates/client/src/connection.rs\<close>: the client's end of a connection. The state is the \<open>Client\<close> with
  its writer, its reader thread and the backlog between them; \<open>local\<close> is what the machine it runs on
  answers during one operation: the clock, the file system, the compression libraries. An operation
  returns the state it leaves and a \<open>Result\<close>; one that can panic returns an option.
\<close>

section \<open>Constants and texts\<close>

definition LIVENESS_TIMEOUT :: nat where "LIVENESS_TIMEOUT = 30 * 1000000000"

definition POLL_SLICE :: nat where "POLL_SLICE = 250 * 1000000"

definition MAX_BACKLOG_BYTES :: nat where "MAX_BACKLOG_BYTES = 16 * 1024 * 1024"

definition MAX_OUTGOING_TRANSFERS :: nat where "MAX_OUTGOING_TRANSFERS = 64"

definition default_features :: u32 where
  "default_features = LOCAL_CURSOR OR CLIPBOARD OR RESIZE OR CLIPBOARD_IMAGE OR FILE_TRANSFER OR
     CLIPBOARD_FILES OR ATOMIC_FILES OR TARGETED_DROPS"

definition show_rect :: "rect \<Rightarrow> string" where
  "show_rect r = decimal (rwidth r) @ ''x'' @ decimal (rheight r) @ ''+'' @ decimal (rect.rx r) @ ''+'' @ decimal (rect.ry r)"

fun show_codec_error :: "codec_error \<Rightarrow> string" where
  "show_codec_error (Corrupt what) = ''corrupt tile data: '' @ what"
| "show_codec_error (OutOfBounds r) = ''tile '' @ show_rect r @ '' outside framebuffer''"
| "show_codec_error (Excessive what) = ''update exceeds the '' @ what @ '' budget''"

text \<open>\<open>show_io\<close> is the text of the operating system's error.\<close>

fun show_frame_error :: "(io_error \<Rightarrow> string) \<Rightarrow> frame_error \<Rightarrow> string" where
  "show_frame_error show_io (Io e) = ''i/o error: '' @ show_io e"
| "show_frame_error show_io (TooLarge n) = ''frame too large: '' @ decimal n @ '' bytes''"
| "show_frame_error show_io (Decode e) = ''decode error: '' @ show_decode_error e"

section \<open>State\<close>

record server_info =
  si_server_name :: string
  si_features :: u32
  si_session_id :: u64
  si_username :: string

datatype client_event =
    E_Frame u64 rect
  | E_Resized nat nat
  | E_Cursor cursor_image
  | E_Cursor_Position u16 u16
  | E_Clipboard string
  | E_Clipboard_Image "u8 list"
  | E_Clipboard_Files "file_entry list"
  | E_File_Downloaded u64 string string
  | E_File_Uploaded u64 string
  | E_Transfer_Failed u64 string
  | E_Notice string
  | E_Rtt nat
  | E_Disconnected string
  | E_File_Drop_Result u64 bool string

text \<open>
  \<open>vw_input\<close>: the bytes that arrived and the reader has not read; \<open>vw_held\<close>: the message it waits to
  put into the backlog; \<open>vw_reader\<close>: it runs. \<open>vw_events\<close> is the channel with the size of each message.
\<close>

record viewer =
  vw_writer :: outbound
  vw_input :: "u8 list"
  vw_held :: "(message \<times> nat) option"
  vw_reader :: bool
  vw_events :: "(message \<times> nat) list"
  vw_backlog_bytes :: nat
  vw_backlog_closed :: bool
  vw_decoder :: decoder
  vw_info :: server_info
  vw_cursor :: "cursor_image option"
  vw_closed :: "string option"
  vw_frames_received :: u64
  vw_bytes_received :: u64
  vw_last_ping :: "(u64 \<times> nat) option"
  vw_last_message_at :: nat
  vw_queued :: "client_event list"
  vw_transfers :: manager
  vw_downloads :: "(u64, client_destination) hmap"
  vw_replacements :: "u64 set"
  vw_pending_image :: "u8 list option"
  vw_offered_files :: "(string, string) hmap"
  vw_clipboard_transfers :: "u64 set"
  vw_offered_drops :: "(u64, (string, string) hmap) hmap"

text \<open>
  \<open>lw_open\<close> is \<open>File::open\<close> with the bytes the file gives, \<open>lw_len\<close> the length its metadata states,
  \<open>lw_stat\<close> is \<open>metadata\<close> of a path, \<open>lw_parent\<close> and \<open>lw_file_name\<close> are the functions of \<open>Path\<close> (the
  latter in lossy UTF-8), \<open>lw_shown\<close> is \<open>Path::display\<close>.
\<close>

record local_world =
  lw_now :: nat
  lw_windows :: bool
  lw_temp_dir :: string
  lw_compressors :: compressors
  lw_shown :: "string \<Rightarrow> string"
  lw_stat :: "string \<Rightarrow> string + bool \<times> u64"
  lw_open :: "string \<Rightarrow> string + source"
  lw_len :: "string \<Rightarrow> string + u64"
  lw_parent :: "string \<Rightarrow> string option"
  lw_file_name :: "string \<Rightarrow> string option"
  lw_create_dirs :: "string \<Rightarrow> string option"
  lw_create :: "string \<Rightarrow> bool \<Rightarrow> string + io_fail option list"

type_synonym 'a answer = "viewer \<times> (failure + 'a)"

text \<open>The \<open>?\<close> after an operation on the client.\<close>

definition and_then :: "'a answer \<Rightarrow> ('a \<Rightarrow> viewer \<Rightarrow> 'b answer) \<Rightarrow> 'b answer" where
  "and_then a f = (case a of (v, Inl e) \<Rightarrow> (v, Inl e) | (v, Inr x) \<Rightarrow> f x v)"

lemma and_then_simps [simp]: "and_then (v, Inl e) f = (v, Inl e)" "and_then (v, Inr x) f = f x v"
  by (simp_all add: and_then_def)

section \<open>Connecting\<close>

record connect_options =
  cn_size :: "(u16 \<times> u16) option"
  cn_features :: u32
  cn_client_name :: string

definition client_hello :: "connect_options \<Rightarrow> message" where
  "client_hello opts =
     (case (case cn_size opts of Some wh \<Rightarrow> wh | None \<Rightarrow> (0, 0)) of
        (w, h) \<Rightarrow> ClientHello PROTOCOL_VERSION (cn_client_name opts) (cn_features opts) w h)"

definition viewer_new :: "nat \<Rightarrow> u8 list \<Rightarrow> server_info \<Rightarrow> nat \<Rightarrow> nat \<Rightarrow> viewer" where
  "viewer_new now input info width height =
     \<lparr>vw_writer = outbound_new, vw_input = input, vw_held = None, vw_reader = True, vw_events = [],
      vw_backlog_bytes = 0, vw_backlog_closed = False, vw_decoder = decoder_new width height, vw_info = info,
      vw_cursor = None, vw_closed = None, vw_frames_received = 0, vw_bytes_received = 0, vw_last_ping = None,
      vw_last_message_at = now, vw_queued = [], vw_transfers = manager_new True, vw_downloads = [],
      vw_replacements = {}, vw_pending_image = None, vw_offered_files = [], vw_clipboard_transfers = {},
      vw_offered_drops = []\<rparr>"

text \<open>
  \<open>from_stream\<close> after the hello was written: the bytes the server answered decide. \<open>show_kind\<close> is the
  derived \<open>Debug\<close> of a kind.
\<close>

definition from_stream ::
    "(io_error \<Rightarrow> string) \<Rightarrow> (kind \<Rightarrow> string) \<Rightarrow> nat \<Rightarrow> u8 list \<Rightarrow> failure + viewer" where
  "from_stream show_io show_kind now input =
     (case read_message input of
        Inl e \<Rightarrow> Inl [''handshake failed: '' @ show_frame_error show_io e]
      | Inr (msg, rest) \<Rightarrow>
          (case msg of
             ServerHello version server_name feats session_id username width height \<Rightarrow>
               if \<not> can_speak version
               then Inl [''server speaks protocol version '' @ decimal (unat version) @ ''; this client supports '' @
                         decimal (unat MIN_COMPATIBLE_VERSION) @ '' to '' @ decimal (unat PROTOCOL_VERSION)]
               else Inr (viewer_new now rest
                      \<lparr>si_server_name = server_name, si_features = feats, si_session_id = session_id, si_username = username\<rparr>
                      (unat width) (unat height))
           | Rejected code reason \<Rightarrow> Inl [rejection_reason code reason]
           | other \<Rightarrow> Inl [''unexpected message '' @ show_kind (msg_kind other) @ '' during handshake'']))"

section \<open>The reader thread and the backlog\<close>

text \<open>\<open>message_size\<close> is the size of the \<open>Message\<close> enum, which the compiler decides.\<close>

definition queued_size :: "nat \<Rightarrow> message \<Rightarrow> nat" where
  "queued_size message_size msg =
     message_size +
     (case msg of
        ScreenUpdate _ copies tiles \<Rightarrow>
          length copies * 12 + sum_list (map (\<lambda>t. length (tile_data t) + 16) tiles)
      | CursorShape cursor \<Rightarrow> length (argb cursor) * 4
      | ClipboardText txt \<Rightarrow> length txt
      | Notice txt \<Rightarrow> length txt
      | TransferData _ _ data \<Rightarrow> length data
      | FileList _ files \<Rightarrow> sum_list (map (\<lambda>f. length (fe_path f) + 32) files)
      | _ \<Rightarrow> 0)"

definition screen_bytes :: "message \<Rightarrow> u64" where
  "screen_bytes msg =
     (case msg of
        ScreenUpdate _ copies tiles \<Rightarrow>
          of_nat (sum_list (map (\<lambda>t. length (tile_data t) + 13) tiles) + 16 + length copies * 12)
      | _ \<Rightarrow> 0)"

text \<open>
  Bytes arrive; the reader reads a message, or ends when the stream does (\<open>eof\<close>) or makes no sense;
  it puts the message it holds into the channel once there is room for it.
\<close>

datatype reader_action = Feed "u8 list" | Read bool | Admit

definition reader_ends :: "(io_error \<Rightarrow> string) \<Rightarrow> frame_error \<Rightarrow> viewer \<Rightarrow> viewer" where
  "reader_ends show_io e v =
     v\<lparr>vw_events := vw_events v @
         [(Disconnect (if is_disconnect e then ''connection closed'' else show_frame_error show_io e), 0)],
       vw_reader := False\<rparr>"

definition reader_read :: "(io_error \<Rightarrow> string) \<Rightarrow> nat \<Rightarrow> bool \<Rightarrow> viewer \<Rightarrow> viewer" where
  "reader_read show_io message_size eof v =
     (if \<not> vw_reader v \<or> vw_held v \<noteq> None then v
      else case read_message (vw_input v) of
        Inl e \<Rightarrow> if \<not> eof \<and> e = Io UnexpectedEofIo then v else reader_ends show_io e v
      | Inr (msg, rest) \<Rightarrow>
          v\<lparr>vw_input := rest, vw_bytes_received := vw_bytes_received v + screen_bytes msg,
            vw_held := Some (msg, queued_size message_size msg)\<rparr>)"

definition backlog_admit :: "nat \<Rightarrow> viewer \<Rightarrow> bool option" where
  "backlog_admit sz v =
     (if vw_backlog_closed v then Some False
      else if 0 < vw_backlog_bytes v \<and> MAX_BACKLOG_BYTES < sat_add (vw_backlog_bytes v) sz then None
      else Some True)"

definition reader_admit :: "viewer \<Rightarrow> viewer" where
  "reader_admit v =
     (case vw_held v of
        None \<Rightarrow> v
      | Some (msg, sz) \<Rightarrow>
          (case backlog_admit sz v of
             None \<Rightarrow> v
           | Some False \<Rightarrow> v\<lparr>vw_held := None, vw_reader := False\<rparr>
           | Some True \<Rightarrow> v\<lparr>vw_held := None, vw_backlog_bytes := vw_backlog_bytes v + sz,
                             vw_events := vw_events v @ [(msg, sz)]\<rparr>))"

fun reader_act :: "(io_error \<Rightarrow> string) \<Rightarrow> nat \<Rightarrow> reader_action \<Rightarrow> viewer \<Rightarrow> viewer" where
  "reader_act show_io message_size (Feed bs) v = v\<lparr>vw_input := vw_input v @ bs\<rparr>"
| "reader_act show_io message_size (Read eof) v = reader_read show_io message_size eof v"
| "reader_act show_io message_size Admit v = reader_admit v"

definition backlog_release :: "nat \<Rightarrow> viewer \<Rightarrow> viewer" where
  "backlog_release sz v = v\<lparr>vw_backlog_bytes := vw_backlog_bytes v - sz\<rparr>"

section \<open>Sending\<close>

definition viewer_send :: "message \<Rightarrow> viewer \<Rightarrow> unit answer" where
  "viewer_send msg v =
     (case outbound_send (frame_message msg []) (vw_writer v) of
        (ob, res) \<Rightarrow> (v\<lparr>vw_writer := ob\<rparr>, map_sum (\<lambda>e. [e]) id res))"

primrec viewer_send_all :: "message list \<Rightarrow> viewer \<Rightarrow> unit answer" where
  "viewer_send_all [] v = (v, Inr ())"
| "viewer_send_all (m # ms) v = and_then (viewer_send m v) (\<lambda>_. viewer_send_all ms)"

definition tap_key :: "u32 \<Rightarrow> viewer \<Rightarrow> unit answer" where
  "tap_key keysym = viewer_send_all [KeyEvent keysym True, KeyEvent keysym False]"

definition viewer_click :: "u16 \<Rightarrow> u16 \<Rightarrow> u8 \<Rightarrow> viewer \<Rightarrow> unit answer" where
  "viewer_click x y button =
     viewer_send_all [PointerMotion x y, PointerButton button True, PointerButton button False]"

section \<open>Offers\<close>

definition offer_clipboard_image :: "u8 list \<Rightarrow> viewer \<Rightarrow> unit answer" where
  "offer_clipboard_image png v =
     (if \<not> has_feature (si_features (vw_info v)) CLIPBOARD_IMAGE then (v, Inr ())
      else viewer_send (ClipboardOffer FORMAT_PNG) (v\<lparr>vw_pending_image := Some png\<rparr>))"

definition viewer_next_id :: "viewer \<Rightarrow> u64 \<times> viewer" where
  "viewer_next_id v = (case next_id (vw_transfers v) of (i, tm) \<Rightarrow> (i, v\<lparr>vw_transfers := tm\<rparr>))"

definition offer_clipboard_files :: "local_world \<Rightarrow> string list \<Rightarrow> viewer \<Rightarrow> unit answer" where
  "offer_clipboard_files lw paths v =
     (let v = v\<lparr>vw_offered_files := []\<rparr>
      in if \<not> has_feature (si_features (vw_info v)) CLIPBOARD_FILES then (v, Inr ())
         else if received_clipboard_files (lw_temp_dir lw) paths then (v, Inr ())
         else case clipboard_file_entries (lw_windows lw) (lw_shown lw) (lw_stat lw) paths of
           Inl e \<Rightarrow> (v, Inl (''cannot share this clipboard selection'' # e))
         | Inr files \<Rightarrow>
             let v = v\<lparr>vw_offered_files := fold (\<lambda>(f, p). hm_insert (fe_path f) p) (zip files paths) []\<rparr>;
                 (i, v) = viewer_next_id v
             in viewer_send_all [FileList i files, ClipboardOffer FORMAT_FILES] v)"

definition clear_clipboard_files :: "viewer \<Rightarrow> viewer" where
  "clear_clipboard_files v = v\<lparr>vw_offered_files := []\<rparr>"

definition clear_drop_files :: "viewer \<Rightarrow> viewer" where
  "clear_drop_files v = v\<lparr>vw_offered_drops := []\<rparr>"

text \<open>The loop over the files of a drop, with the map and the entries collected so far.\<close>

primrec drop_entries ::
    "local_world \<Rightarrow> u64 \<Rightarrow> (string \<times> string) list \<Rightarrow> (string, string) hmap \<Rightarrow> file_entry list \<Rightarrow>
      failure + (string, string) hmap \<times> file_entry list" where
  "drop_entries lw i [] offered entries = Inr (offered, entries)"
| "drop_entries lw i (f # fs) offered entries =
     (case f of (path, name) \<Rightarrow>
        (case lw_stat lw path of
           Inl e \<Rightarrow> Inl [''reading '' @ lw_shown lw path, e]
         | Inr (is_file, len) \<Rightarrow>
             if \<not> is_file then Inl [lw_shown lw path @ '' is not a regular file'']
             else let key = decimal (unat i) @ ''/'' @ name
                  in if hm_get offered key \<noteq> None then Inl [''duplicate drop destination '' @ name]
                     else drop_entries lw i fs (hm_insert key path offered)
                            (entries @ [\<lparr>fe_path = key, fe_size = len\<rparr>])))"

definition drop_files :: "local_world \<Rightarrow> (string \<times> string) list \<Rightarrow> u16 \<Rightarrow> u16 \<Rightarrow> viewer \<Rightarrow> u64 answer" where
  "drop_files lw files x y v =
     (if \<not> has_feature (si_features (vw_info v)) TARGETED_DROPS
      then (v, Inl [''update the server to drop files into a chosen folder''])
      else if 4 \<le> length (vw_offered_drops v)
      then (v, Inl [''four drops are already in progress; wait for one to finish''])
      else if files = [] \<or> MAX_FILE_LIST < length files then (v, Inl [''invalid drop size''])
      else let (i, v) = viewer_next_id v
           in case drop_entries lw i files [] [] of
                Inl e \<Rightarrow> (v, Inl e)
              | Inr (offered, entries) \<Rightarrow>
                  and_then (viewer_send (FileDrop i x y entries) v)
                    (\<lambda>_ v. (v\<lparr>vw_offered_drops := hm_insert i offered (vw_offered_drops v)\<rparr>, Inr i)))"

definition viewer_offer :: "u64 \<Rightarrow> transfer_purpose \<Rightarrow> string \<Rightarrow> u64 \<Rightarrow> source \<Rightarrow> viewer \<Rightarrow> unit answer" where
  "viewer_offer i purpose name len src v =
     (case offer_stream_with_id i purpose name (unat len) src (vw_transfers v) of
        (offer, tm) \<Rightarrow> viewer_send offer (v\<lparr>vw_transfers := tm\<rparr>))"

definition send_file_with_overwrite :: "local_world \<Rightarrow> string \<Rightarrow> string \<Rightarrow> bool \<Rightarrow> viewer \<Rightarrow> u64 answer" where
  "send_file_with_overwrite lw path dst replace v =
     (let feats = si_features (vw_info v)
      in if \<not> (replace \<or> has_feature feats ATOMIC_FILES)
         then (v, Inl [''update the server for safe uploads, or explicitly allow overwriting''])
         else if \<not> has_feature feats FILE_TRANSFER then (v, Inl [''the server did not enable file transfer''])
         else case lw_open lw path of
           Inl e \<Rightarrow> (v, Inl [''opening '' @ lw_shown lw path, e])
         | Inr src \<Rightarrow>
             (case lw_len lw path of
                Inl e \<Rightarrow> (v, Inl [e])
              | Inr len \<Rightarrow>
                  let (i, v) = viewer_next_id v
                  in and_then (if has_feature feats ATOMIC_FILES then viewer_send (TransferOptions i replace) v else (v, Inr ()))
                       (\<lambda>_ v. and_then (viewer_offer i FileUpload dst len src v) (\<lambda>_ v. (v, Inr i)))))"

definition send_file :: "local_world \<Rightarrow> string \<Rightarrow> string \<Rightarrow> viewer \<Rightarrow> u64 answer" where
  "send_file lw path dst = send_file_with_overwrite lw path dst False"

definition request_file_with_overwrite ::
    "local_world \<Rightarrow> string \<Rightarrow> string \<Rightarrow> bool \<Rightarrow> viewer \<Rightarrow> u64 answer" where
  "request_file_with_overwrite lw remote path replace v =
     (if \<not> has_feature (si_features (vw_info v)) FILE_TRANSFER
      then (v, Inl [''the server did not enable file transfer''])
      else let (i, v) = viewer_next_id v;
               v = v\<lparr>vw_transfers := expect i (vw_transfers v),
                     vw_downloads := hm_insert i \<lparr>cd_path = path, cd_parent = lw_parent lw path\<rparr> (vw_downloads v),
                     vw_replacements := (if replace then insert i (vw_replacements v) else vw_replacements v)\<rparr>
           in and_then (viewer_send (FileRequest i remote) v) (\<lambda>_ v. (v, Inr i)))"

definition request_file :: "local_world \<Rightarrow> string \<Rightarrow> string \<Rightarrow> viewer \<Rightarrow> u64 answer" where
  "request_file lw remote path = request_file_with_overwrite lw remote path False"

definition forget_transfer :: "u64 \<Rightarrow> viewer \<Rightarrow> viewer" where
  "forget_transfer i v =
     v\<lparr>vw_clipboard_transfers := vw_clipboard_transfers v - {i}, vw_downloads := hm_remove i (vw_downloads v),
       vw_replacements := vw_replacements v - {i}\<rparr>"

definition cancel_transfer :: "u64 \<Rightarrow> viewer \<Rightarrow> viewer" where
  "cancel_transfer i v =
     (let v = forget_transfer i v; (end_msg, tm) = cancel i ''no longer wanted'' (vw_transfers v);
          v = v\<lparr>vw_transfers := tm\<rparr>
      in case end_msg of None \<Rightarrow> v | Some m \<Rightarrow> fst (viewer_send m v))"

definition transfer_details :: "viewer \<Rightarrow> (u64 \<times> string \<times> (nat \<times> nat) option) list" where
  "transfer_details v =
     map (\<lambda>i. case describe i (vw_transfers v) of
                Some (_, name, done, tot) \<Rightarrow> (i, name, Some (done, tot))
              | None \<Rightarrow> (i, ''Preparing file'', None)) (active_ids (vw_transfers v))"

fun show_purpose :: "transfer_purpose \<Rightarrow> string" where
  "show_purpose ClipboardImage = ''ClipboardImage''"
| "show_purpose FileUpload = ''FileUpload''"
| "show_purpose FileDownload = ''FileDownload''"

definition transfer_rows :: "viewer \<Rightarrow> (u64 \<times> string) list" where
  "transfer_rows v =
     map (\<lambda>i. (i, case describe i (vw_transfers v) of
                Some (purpose, name, done, tot) \<Rightarrow>
                  show_purpose purpose @ '' '' @ name @ '': '' @ decimal done @ ''/'' @ decimal tot @ '' bytes''
              | None \<Rightarrow> ''Waiting for file offer'')) (active_ids (vw_transfers v))"

section \<open>Transfers\<close>

definition push_event :: "client_event \<Rightarrow> viewer \<Rightarrow> viewer" where
  "push_event ev v = v\<lparr>vw_queued := vw_queued v @ [ev]\<rparr>"

definition pop_event :: "viewer \<Rightarrow> client_event option \<times> viewer" where
  "pop_event v = (case vw_queued v of [] \<Rightarrow> (None, v) | ev # evs \<Rightarrow> (Some ev, v\<lparr>vw_queued := evs\<rparr>))"

definition viewer_fail_transfer :: "u64 \<Rightarrow> string \<Rightarrow> viewer \<Rightarrow> viewer" where
  "viewer_fail_transfer i reason v = push_event (E_Transfer_Failed i reason) (forget_transfer i v)"

definition on_completed :: "completed \<Rightarrow> viewer \<Rightarrow> client_event option \<times> viewer" where
  "on_completed done v =
     (let v = v\<lparr>vw_replacements := vw_replacements v - {done_id done}\<rparr>
      in case done_purpose done of
           ClipboardImage \<Rightarrow> (map_option E_Clipboard_Image (done_data done), v)
         | FileDownload \<Rightarrow>
             (map_option (\<lambda>d. E_File_Downloaded (done_id done) (cd_path d) (done_name done))
                (hm_get (vw_downloads v) (done_id done)),
              v\<lparr>vw_downloads := hm_remove (done_id done) (vw_downloads v)\<rparr>)
         | FileUpload \<Rightarrow> (None, v))"

definition take_reply :: "message \<Rightarrow> viewer \<Rightarrow> unit answer" where
  "take_reply m v =
     viewer_send m (case m of TransferAccept i False reason \<Rightarrow> viewer_fail_transfer i reason v | _ \<Rightarrow> v)"

primrec take_replies :: "message list \<Rightarrow> viewer \<Rightarrow> unit answer" where
  "take_replies [] v = (v, Inr ())"
| "take_replies (m # ms) v = and_then (take_reply m v) (\<lambda>_. take_replies ms)"

definition take_sent :: "u64 \<times> transfer_purpose \<times> string \<Rightarrow> viewer \<Rightarrow> viewer" where
  "take_sent = (\<lambda>(i, purpose, name) v.
     let v = v\<lparr>vw_clipboard_transfers := vw_clipboard_transfers v - {i}\<rparr>
     in if purpose = FileUpload then push_event (E_File_Uploaded i name) v else v)"

definition take_completed :: "completed \<Rightarrow> viewer \<Rightarrow> viewer" where
  "take_completed done v =
     (case on_completed done v of (Some ev, v) \<Rightarrow> push_event ev v | (None, v) \<Rightarrow> v)"

text \<open>\<open>None\<close>: the message is not about a transfer.\<close>

definition handle_transfer :: "local_world \<Rightarrow> message \<Rightarrow> viewer \<Rightarrow> client_event option answer option" where
  "handle_transfer lw msg v =
     (case handle (client_accept (lw_create_dirs lw) (lw_create lw)) msg (vw_transfers v)
             \<lparr>cp_replacements = vw_replacements v, cp_downloads = vw_downloads v\<rparr> of
        (outcome, tm, p) \<Rightarrow>
          let v = v\<lparr>vw_transfers := tm, vw_downloads := cp_downloads p\<rparr>
          in map_option (\<lambda>out.
               and_then (take_replies (replies out) v) (\<lambda>_ v.
                 let v = fold (\<lambda>(i, reason). viewer_fail_transfer i reason) (failed out) v;
                     v = fold take_sent (sent out) v;
                     v = fold take_completed (completed out) v
                 in (case pop_event v of (ev, v) \<Rightarrow> (v, Inr ev)))) outcome)"

section \<open>Server messages\<close>

text \<open>A \<open>FileRequest\<close>: only what was offered on the clipboard or in a drop is served.\<close>

definition offered_path :: "string \<Rightarrow> viewer \<Rightarrow> string option" where
  "offered_path path v =
     (case hm_get (vw_offered_files v) path of
        Some p \<Rightarrow> Some p
      | None \<Rightarrow> Option.bind (List.find (\<lambda>(_, files). hm_get files path \<noteq> None) (vw_offered_drops v))
                 (\<lambda>(_, files). hm_get files path))"

definition viewer_file_request :: "local_world \<Rightarrow> u64 \<Rightarrow> string \<Rightarrow> viewer \<Rightarrow> unit answer" where
  "viewer_file_request lw i path v =
     (let outgoing = fst (in_flight (vw_transfers v)); busy = i \<in> set (active_ids (vw_transfers v))
      in if busy \<or> MAX_OUTGOING_TRANSFERS \<le> outgoing
         then viewer_send (TransferEnd i False
                (if busy then path @ '': transfer '' @ decimal (unat i) @ '' is already in progress''
                 else path @ '': '' @ decimal MAX_OUTGOING_TRANSFERS @ '' transfers are already in progress'')) v
         else case offered_path path v of
           None \<Rightarrow> viewer_send (TransferEnd i False ''not offered on the clipboard'') v
         | Some p \<Rightarrow>
             (case bindE (lw_open lw p) (\<lambda>src. map_sum id (Pair src) (lw_len lw p)) of
                Inl e \<Rightarrow> viewer_send (TransferEnd i False (lw_shown lw p @ '': '' @ e)) v
              | Inr (src, len) \<Rightarrow>
                  viewer_offer i FileDownload (case lw_file_name lw p of Some n \<Rightarrow> n | None \<Rightarrow> path) len src
                    (v\<lparr>vw_clipboard_transfers :=
                         (if hm_get (vw_offered_files v) path \<noteq> None then insert i (vw_clipboard_transfers v)
                          else vw_clipboard_transfers v)\<rparr>)))"

definition viewer_screen_update ::
    "local_world \<Rightarrow> u64 \<Rightarrow> copy_rect list \<Rightarrow> tile_update list \<Rightarrow> viewer \<Rightarrow> client_event option answer option" where
  "viewer_screen_update lw fid copies tiles v =
     (case decoder_apply_frame (lw_compressors lw) copies tiles (vw_decoder v) of
        None \<Rightarrow> None
      | Some (d, res) \<Rightarrow>
          let v = v\<lparr>vw_decoder := d\<rparr>
          in Some (case res of
               Inl e \<Rightarrow> (v, Inl [''applying screen update'', show_codec_error e])
             | Inr dirty \<Rightarrow>
                 and_then (viewer_send (FrameAck fid) (v\<lparr>vw_frames_received := vw_frames_received v + 1\<rparr>))
                   (\<lambda>_ v. (v, Inr (Some (E_Frame fid dirty))))))"

definition viewer_clipboard_offer :: "u32 \<Rightarrow> viewer \<Rightarrow> unit answer" where
  "viewer_clipboard_offer formats v =
     (let feats = si_features (vw_info v)
      in viewer_send_all
           ((if formats AND FORMAT_PNG \<noteq> 0 \<and> has_feature feats CLIPBOARD_IMAGE then [ClipboardRequest FORMAT_PNG] else []) @
            (if formats AND FORMAT_FILES \<noteq> 0 \<and> has_feature feats CLIPBOARD_FILES then [ClipboardRequest FORMAT_FILES] else [])) v)"

definition viewer_clipboard_request :: "u32 \<Rightarrow> viewer \<Rightarrow> unit answer" where
  "viewer_clipboard_request format v =
     (case vw_pending_image v of
        Some png \<Rightarrow>
          if format AND FORMAT_PNG \<noteq> 0
          then (case offer_bytes ClipboardImage ''clipboard.png'' png (vw_transfers v) of
                  (offer, tm) \<Rightarrow> viewer_send offer (v\<lparr>vw_pending_image := None, vw_transfers := tm\<rparr>))
          else (v, Inr ())
      | None \<Rightarrow> (v, Inr ()))"

definition viewer_pong :: "nat \<Rightarrow> u64 \<Rightarrow> viewer \<Rightarrow> client_event option \<times> viewer" where
  "viewer_pong now nonce v =
     (Option.bind (vw_last_ping v) (\<lambda>(n, t). if n = nonce then Some (E_Rtt (now - t)) else None),
      v\<lparr>vw_last_ping := None\<rparr>)"

definition answered :: "client_event option \<Rightarrow> unit answer \<Rightarrow> client_event option answer" where
  "answered ev a = and_then a (\<lambda>_ v. (v, Inr ev))"

definition viewer_message :: "local_world \<Rightarrow> message \<Rightarrow> viewer \<Rightarrow> client_event option answer option" where
  "viewer_message lw msg v =
     (case handle_transfer lw msg v of
        Some result \<Rightarrow> Some result
      | None \<Rightarrow>
          (case msg of
             ScreenUpdate fid copies tiles \<Rightarrow> viewer_screen_update lw fid copies tiles v
           | ScreenResized width height \<Rightarrow>
               map_option (\<lambda>d. (v\<lparr>vw_decoder := d\<rparr>, Inr (Some (E_Resized (unat width) (unat height)))))
                 (decoder_resize (unat width) (unat height) (vw_decoder v))
           | CursorShape cursor \<Rightarrow> Some (v\<lparr>vw_cursor := Some cursor\<rparr>, Inr (Some (E_Cursor cursor)))
           | CursorPosition x y \<Rightarrow> Some (v, Inr (Some (E_Cursor_Position x y)))
           | ClipboardText txt \<Rightarrow> Some (v, Inr (Some (E_Clipboard txt)))
           | FileList _ files \<Rightarrow> Some (v, Inr (Some (E_Clipboard_Files files)))
           | FileDropResult i ok reason \<Rightarrow>
               Some (v\<lparr>vw_offered_drops := hm_remove i (vw_offered_drops v)\<rparr>,
                     Inr (map_option (\<lambda>_. E_File_Drop_Result i ok reason) (hm_get (vw_offered_drops v) i)))
           | FileRequest i path \<Rightarrow> Some (answered None (viewer_file_request lw i path v))
           | ClipboardOffer formats \<Rightarrow> Some (answered None (viewer_clipboard_offer formats v))
           | ClipboardRequest format \<Rightarrow> Some (answered None (viewer_clipboard_request format v))
           | Notice txt \<Rightarrow> Some (v, Inr (Some (E_Notice txt)))
           | Ping nonce \<Rightarrow> Some (answered None (viewer_send (Pong nonce) v))
           | Pong nonce \<Rightarrow> (case viewer_pong (lw_now lw) nonce v of (ev, v) \<Rightarrow> Some (v, Inr ev))
           | Disconnect reason \<Rightarrow> Some (v\<lparr>vw_closed := Some reason\<rparr>, Inr (Some (E_Disconnected reason)))
           | Rejected code reason \<Rightarrow>
               (let r = rejection_reason code reason in Some (v\<lparr>vw_closed := Some r\<rparr>, Inr (Some (E_Disconnected r))))
           | _ \<Rightarrow> Some (v, Inr None)))"

text \<open>An error while the writer has failed is a disconnect.\<close>

definition viewer_handle :: "local_world \<Rightarrow> message \<Rightarrow> viewer \<Rightarrow> client_event option answer option" where
  "viewer_handle lw msg v =
     map_option (\<lambda>a. case a of
         (v, Inl e) \<Rightarrow> (case ob_error (vw_writer v) of
             Some reason \<Rightarrow> (v\<lparr>vw_closed := Some reason\<rparr>, Inr (Some (E_Disconnected reason)))
           | None \<Rightarrow> (v, Inl e))
       | (v, Inr ev) \<Rightarrow> (v, Inr ev)) (viewer_message lw msg v)"

section \<open>Polling\<close>

text \<open>
  What happens around one round of the loop: the clock at its start, what the reader thread does
  while the poll waits, the clock and the machine when a message is handled, and the clock after.
\<close>

record round =
  rd_before :: nat
  rd_reader :: "reader_action list"
  rd_world :: local_world
  rd_after :: nat

datatype 'a outcome_of = Unfinished | Panicked | Returned viewer "failure + 'a"

primrec poll_loop ::
    "(io_error \<Rightarrow> string) \<Rightarrow> nat \<Rightarrow> nat \<Rightarrow> round list \<Rightarrow> viewer \<Rightarrow> client_event option outcome_of" where
  "poll_loop show_io message_size deadline [] v = Unfinished"
| "poll_loop show_io message_size deadline (t # ts) v =
     (let left = deadline - rd_before t;
          v = fold (reader_act show_io message_size) (rd_reader t) v;
          now = lw_now (rd_world t)
      in case vw_events v of
           (msg, sz) # rest \<Rightarrow>
             (case viewer_handle (rd_world t) msg
                     ((backlog_release sz (v\<lparr>vw_events := rest\<rparr>))\<lparr>vw_last_message_at := now\<rparr>) of
                None \<Rightarrow> Panicked
              | Some (v, Inl e) \<Rightarrow> Returned v (Inl e)
              | Some (v, Inr (Some ev)) \<Rightarrow> Returned v (Inr (Some ev))
              | Some (v, Inr None) \<Rightarrow>
                  if deadline \<le> rd_after t then Returned v (Inr None)
                  else poll_loop show_io message_size deadline ts v)
         | [] \<Rightarrow>
             if \<not> vw_reader v
             then Returned (v\<lparr>vw_closed := Some ''reader stopped''\<rparr>) (Inr (Some (E_Disconnected ''reader stopped'')))
             else if LIVENESS_TIMEOUT < now - vw_last_message_at v
             then let reason = ''no response from the session for '' @ decimal (LIVENESS_TIMEOUT div 1000000000) @ ''s''
                  in Returned (v\<lparr>vw_closed := Some reason\<rparr>) (Inr (Some (E_Disconnected reason)))
             else if left \<le> POLL_SLICE then Returned v (Inr None)
             else poll_loop show_io message_size deadline ts v)"

definition poll_event ::
    "(io_error \<Rightarrow> string) \<Rightarrow> nat \<Rightarrow> nat \<Rightarrow> nat \<Rightarrow> round list \<Rightarrow> viewer \<Rightarrow> client_event option outcome_of" where
  "poll_event show_io message_size start timeout ts v =
     (case pop_event v of
        (Some ev, v) \<Rightarrow> Returned v (Inr (Some ev))
      | (None, v) \<Rightarrow>
          let v = (if vw_closed v = None then v\<lparr>vw_closed := ob_error (vw_writer v)\<rparr> else v)
          in case vw_closed v of
               Some reason \<Rightarrow> Returned v (Inr (Some (E_Disconnected reason)))
             | None \<Rightarrow> poll_loop show_io message_size (start + timeout) ts v)"

definition try_event ::
    "(io_error \<Rightarrow> string) \<Rightarrow> nat \<Rightarrow> nat \<Rightarrow> round list \<Rightarrow> viewer \<Rightarrow> client_event option outcome_of" where
  "try_event show_io message_size start = poll_event show_io message_size start 0"

definition has_pending_events :: "viewer \<Rightarrow> bool" where
  "has_pending_events v \<longleftrightarrow> vw_queued v \<noteq> [] \<or> vw_events v \<noteq> []"

text \<open>
  The command line's loop until a transfer is finished: each poll starts at a time and takes some
  rounds. The answer of a download is where it was written.
\<close>

primrec run_transfer ::
    "(io_error \<Rightarrow> string) \<Rightarrow> nat \<Rightarrow> u64 \<Rightarrow> nat \<Rightarrow> (nat \<times> nat \<times> round list) list \<Rightarrow> viewer \<Rightarrow> string option outcome_of" where
  "run_transfer show_io message_size i deadline [] v = Unfinished"
| "run_transfer show_io message_size i deadline (p # ps) v =
     (case p of (now, start, ts) \<Rightarrow>
        if deadline - now = 0 then Returned v (Inl [''transfer timed out''])
        else (case poll_event show_io message_size start (deadline - now) ts v of
                Unfinished \<Rightarrow> Unfinished
              | Panicked \<Rightarrow> Panicked
              | Returned v (Inl e) \<Rightarrow> Returned v (Inl e)
              | Returned v (Inr None) \<Rightarrow> Returned v (Inl [''transfer timed out''])
              | Returned v (Inr (Some ev)) \<Rightarrow>
                  (case ev of
                     E_File_Uploaded done _ \<Rightarrow>
                       if done = i then Returned v (Inr None) else run_transfer show_io message_size i deadline ps v
                   | E_File_Downloaded done path _ \<Rightarrow>
                       if done = i then Returned v (Inr (Some path)) else run_transfer show_io message_size i deadline ps v
                   | E_Transfer_Failed j reason \<Rightarrow>
                       if j = i then Returned v (Inl [reason]) else run_transfer show_io message_size i deadline ps v
                   | E_Disconnected reason \<Rightarrow> Returned v (Inl [''disconnected: '' @ reason])
                   | _ \<Rightarrow> run_transfer show_io message_size i deadline ps v)))"

primrec wait_for_frames ::
    "(io_error \<Rightarrow> string) \<Rightarrow> nat \<Rightarrow> u64 \<Rightarrow> nat \<Rightarrow> (nat \<times> nat \<times> round list) list \<Rightarrow> viewer \<Rightarrow> bool outcome_of" where
  "wait_for_frames show_io message_size n deadline [] v =
     (if vw_frames_received v < n then Unfinished else Returned v (Inr True))"
| "wait_for_frames show_io message_size n deadline (p # ps) v =
     (if vw_frames_received v < n
      then (case p of (now, start, ts) \<Rightarrow>
              if deadline - now = 0 then Returned v (Inr False)
              else (case poll_event show_io message_size start (deadline - now) ts v of
                      Unfinished \<Rightarrow> Unfinished
                    | Panicked \<Rightarrow> Panicked
                    | Returned v (Inl e) \<Rightarrow> Returned v (Inl e)
                    | Returned v (Inr (Some (E_Disconnected r))) \<Rightarrow> Returned v (Inl [''disconnected: '' @ r])
                    | Returned v (Inr _) \<Rightarrow> wait_for_frames show_io message_size n deadline ps v))
      else Returned v (Inr True))"

section \<open>Pings and closing\<close>

definition viewer_ping :: "nat \<Rightarrow> viewer \<Rightarrow> unit answer" where
  "viewer_ping now v =
     (let nonce = (case vw_last_ping v of Some (n, _) \<Rightarrow> n | None \<Rightarrow> 0) + 1
      in viewer_send (Ping nonce) (v\<lparr>vw_last_ping := Some (nonce, now)\<rparr>))"

text \<open>\<open>acts\<close> is what the reader still does before it is joined, \<open>broken\<close> what the writer's last write came to.\<close>

definition close_socket ::
    "(io_error \<Rightarrow> string) \<Rightarrow> nat \<Rightarrow> nat \<times> string \<Rightarrow> reader_action list \<Rightarrow> string \<Rightarrow> viewer \<Rightarrow> viewer" where
  "close_socket show_io message_size broken acts reason v =
     (let v = v\<lparr>vw_backlog_closed := True\<rparr>;
          v = v\<lparr>vw_writer := outbound_close False 0 broken (vw_writer v)\<rparr>;
          v = fold (reader_act show_io message_size) acts v;
          v = v\<lparr>vw_reader := False, vw_held := None\<rparr>
      in v\<lparr>vw_closed := or_insert reason (vw_closed v)\<rparr>)"

definition viewer_disconnect ::
    "(io_error \<Rightarrow> string) \<Rightarrow> nat \<Rightarrow> nat \<Rightarrow> nat \<times> string \<Rightarrow> reader_action list \<Rightarrow> string \<Rightarrow> viewer \<Rightarrow> viewer" where
  "viewer_disconnect show_io message_size n broken acts reason v =
     (let v = fst (viewer_send (Disconnect reason) v);
          v = v\<lparr>vw_writer := outbound_close True n broken (vw_writer v)\<rparr>
      in close_socket show_io message_size broken acts ''closed by client'' v)"

definition viewer_abandon ::
    "(io_error \<Rightarrow> string) \<Rightarrow> nat \<Rightarrow> nat \<times> string \<Rightarrow> reader_action list \<Rightarrow> string \<Rightarrow> viewer \<Rightarrow> viewer" where
  "viewer_abandon = close_socket"

definition viewer_drop ::
    "(io_error \<Rightarrow> string) \<Rightarrow> nat \<Rightarrow> nat \<Rightarrow> nat \<times> string \<Rightarrow> reader_action list \<Rightarrow> viewer \<Rightarrow> viewer" where
  "viewer_drop show_io message_size n broken acts v =
     (if vw_closed v = None then viewer_disconnect show_io message_size n broken acts ''client exiting'' v
      else close_socket show_io message_size broken acts ''client exiting'' v)"

end
