(* ===== verification/Viewer_Transfers.thy ===== *)
theory Viewer_Transfers
  imports Viewer
begin

text \<open>
  The transfers of the client: no outcome the manager reports is dropped on the way to the user
  interface, no download that was asked for is left without an answer, and only offered files are read.
\<close>

section \<open>Awaited downloads\<close>

text \<open>A download the manager still knows of, and the ways it reports that it is over.\<close>

definition awaited :: "manager \<Rightarrow> u64 \<Rightarrow> bool" where
  "awaited m i \<longleftrightarrow> i \<in> mg_pending m \<or> (\<exists>x. hm_get (mg_incoming m) i = Some x \<and> inc_purpose x = FileDownload)"

definition reported :: "outcome \<Rightarrow> u64 \<Rightarrow> bool" where
  "reported out i \<longleftrightarrow> (\<exists>r. TransferAccept i False r \<in> set (replies out)) \<or> i \<in> fst ` set (failed out) \<or>
     (\<exists>d \<in> set (completed out). done_id d = i \<and> done_purpose d = FileDownload)"

lemma reported_simps [simp]:
  "reported (reply m out) i \<longleftrightarrow> reported out i \<or> (\<exists>r. m = TransferAccept i False r)"
  "reported (fail_transfer j e out) i \<longleftrightarrow> reported out i \<or> j = i"
  "reported (complete_transfer d out) i \<longleftrightarrow> reported out i \<or> done_id d = i \<and> done_purpose d = FileDownload"
  "\<not> reported outcome_default i"
  by (auto simp: reported_def reply_def fail_transfer_def complete_transfer_def outcome_default_def)

lemma finish_incoming_reports:
  "inc_purpose x = FileDownload \<Longrightarrow> reported (finish_incoming i x out) i"
  "reported out j \<Longrightarrow> reported (finish_incoming i x out) j"
  by (auto simp: finish_incoming_def split: sum.splits sink.splits)

lemma complete_incoming_keeps:
  assumes "complete_incoming j (m, out) = (m', out')"
  shows "mg_pending m' = mg_pending m" "reported out i \<Longrightarrow> reported out' i"
    "i \<noteq> j \<Longrightarrow> hm_get (mg_incoming m') i = hm_get (mg_incoming m) i"
    "hm_get (mg_incoming m) j = Some x \<Longrightarrow> inc_purpose x = FileDownload \<Longrightarrow>
      awaited m' j \<or> reported out' j"
  using assms
  by (auto simp: complete_incoming_def Let_def awaited_def hm_get_insert hm_get_remove finish_incoming_reports
      split: option.splits prod.splits io_fail.splits if_splits)

lemma complete_incoming_awaits:
  "complete_incoming j (m, out) = (m', out') \<Longrightarrow> awaited m i \<Longrightarrow> awaited m' i \<or> reported out' i"
  using complete_incoming_keeps [of j m out m' out'] by (cases "i = j") (auto simp: awaited_def)

lemma pump_keeps [simp]:
  "mg_pending (fst (pump x)) = mg_pending (fst x)" "mg_incoming (fst (pump x)) = mg_incoming (fst x)"
  by (auto simp: pump_def Let_def split: prod.splits)

lemma awaited_pump: "pump (m, out) = (m', out') \<Longrightarrow> awaited m' i = awaited m i"
  using pump_keeps [of "(m, out)"] by (simp add: awaited_def)

text \<open>
  The answers a server gives that do: it ends a transfer it was asked for as successful only after
  offering it, and offers it as the download it is.
\<close>

definition fair_answer :: "manager \<Rightarrow> u64 \<Rightarrow> message \<Rightarrow> bool" where
  "fair_answer m i msg \<longleftrightarrow>
     (\<forall>t. msg = TransferEnd i True t \<longrightarrow> i \<notin> mg_pending m) \<and>
     (\<forall>name sz. msg \<noteq> TransferOffer i ClipboardImage name sz)"

lemma handle_offer_awaits:
  assumes "handle_offer (client_accept dirs create) j purpose name sz m p = (out, m', p')" "awaited m i"
    and "j = i \<Longrightarrow> purpose \<noteq> ClipboardImage"
  shows "awaited m' i \<or> reported out i"
proof -
  let ?m = "m\<lparr>mg_pending := mg_pending m - {j}\<rparr>"
  have other: "awaited ?m i" if "j \<noteq> i" using that assms(2) by (simp add: awaited_def)
  consider (Refused) r where "out = refuse j r" "m' = ?m"
    | (Taken) x out1 where "(if sz = 0 then complete_incoming j (?m\<lparr>mg_incoming := hm_insert j x (mg_incoming m)\<rparr>, out1)
          else (?m\<lparr>mg_incoming := hm_insert j x (mg_incoming m)\<rparr>, out1)) = (m', out)" "inc_purpose x = purpose" "purpose \<noteq> FileUpload"
    using assms(1) unfolding handle_offer_def client_accept_def Let_def
    by (auto split: if_splits sum.splits prod.splits transfer_purpose.splits)
  then show ?thesis
  proof cases
    case Refused
    then show ?thesis using other by (cases "j = i") (simp_all add: refuse_def)
  next
    case Taken
    let ?n = "?m\<lparr>mg_incoming := hm_insert j x (mg_incoming m)\<rparr>"
    have "purpose = FileDownload" if "j = i" using assms(3) that Taken(3) by (cases purpose) auto
    then have "awaited ?n i" using other Taken(2) by (cases "j = i") (auto simp: awaited_def hm_get_insert)
    then show ?thesis using Taken(1) complete_incoming_awaits by (auto split: if_splits)
  qed
qed

lemma handle_data_awaits:
  assumes "handle_data j seq data m = (out, m')" "awaited m i"
  shows "awaited m' i \<or> reported out i"
proof (cases "hm_get (mg_incoming m) j")
  case None
  then show ?thesis using assms by (simp add: handle_data_def)
next
  case (Some x)
  show ?thesis
  proof (cases "receive_chunk (unat seq) data (inc_receiver x)")
    case (Pair res r)
    let ?n = "m\<lparr>mg_incoming := hm_insert j (x\<lparr>inc_receiver := r\<rparr>) (mg_incoming m)\<rparr>"
    have n: "awaited ?n i" using assms(2) Some by (auto simp: awaited_def hm_get_insert)
    show ?thesis
    proof (cases res)
      case (Inl e)
      then show ?thesis using assms Some Pair by (cases "i = j") (auto simp: handle_data_def awaited_def hm_get_remove)
    next
      case (Inr ack)
      then show ?thesis using assms(1) n Some Pair complete_incoming_awaits [OF _ n]
        by (auto simp: handle_data_def Let_def split: if_splits prod.splits)
    qed
  qed
qed

lemma handle_end_awaits:
  assumes "handle_end j ok msg m = (out, m')" "awaited m i" "j = i \<Longrightarrow> ok \<Longrightarrow> i \<notin> mg_pending m"
  shows "awaited m' i \<or> reported out i"
proof -
  let ?complete = "case hm_get (mg_incoming m) j of None \<Rightarrow> False | Some x \<Rightarrow> receiver_complete (inc_receiver x)"
  show ?thesis
  proof (cases "ok \<and> ?complete")
    case True
    then show ?thesis using assms(1) complete_incoming_awaits [OF _ assms(2)]
      by (auto simp: handle_end_def split: prod.splits)
  next
    case False
    note here = assms(1)[unfolded handle_end_def Let_def if_not_P [OF False]]
    have m': "mg_incoming m' = hm_remove j (mg_incoming m)" "mg_pending m' = mg_pending m - {j}"
      using here by (auto split: if_splits)
    show ?thesis
    proof (cases "j = i")
      case False
      then show ?thesis using assms(2) by (auto simp: awaited_def m' hm_get_remove)
    next
      case same: True
      show ?thesis
      proof (cases ok)
        case True
        then obtain x where x: "hm_get (mg_incoming m) i = Some x" "inc_purpose x = FileDownload"
          using assms(2,3) same by (auto simp: awaited_def)
        then show ?thesis using here same True
          by (auto split: sum.splits option.splits if_splits simp: reported_def complete_transfer_def fail_transfer_def)
      next
        case False
        then show ?thesis using here same assms(2) by (auto simp: awaited_def split: if_splits)
      qed
    qed
  qed
qed

lemma handle_awaits:
  assumes "handle (client_accept dirs create) msg m p = (Some out, m', p')" "awaited m i" "fair_answer m i msg"
  shows "awaited m' i \<or> reported out i"
proof (cases msg)
  case (TransferOffer j purpose name sz)
  then show ?thesis using assms handle_offer_awaits [of dirs create j purpose name sz m p out m' p' i]
    by (auto simp: fair_answer_def split: prod.splits)
next
  case (TransferAccept j ok reason)
  show ?thesis
  proof (cases "\<exists>o1. hm_get (mg_outgoing m) j = Some o1 \<and> ok")
    case True
    then show ?thesis
      using assms(1,2) TransferAccept by (auto simp: handle_accept_def awaited_def dest!: awaited_pump [of _ _ _ _ i] split: prod.splits)
  next
    case False
    then have "mg_pending m' = mg_pending m" "mg_incoming m' = mg_incoming m"
      using assms(1) TransferAccept by (auto simp: handle_accept_def split: option.splits if_splits)
    then show ?thesis using assms(2) by (simp add: awaited_def)
  qed
next
  case (TransferAck j seq)
  then show ?thesis using assms(1,2)
    by (auto simp: handle_ack_def Let_def awaited_def dest!: awaited_pump [of _ _ _ _ i] split: option.splits prod.splits)
next
  case (TransferData j seq data)
  then show ?thesis using assms handle_data_awaits by (auto split: prod.splits)
next
  case (TransferEnd j ok t)
  then show ?thesis using assms handle_end_awaits [of j ok t m out m' i] by (auto simp: fair_answer_def split: prod.splits)
qed (use assms(1) in simp_all)

section \<open>What the user interface is told\<close>

lemma viewer_send_fields [simp]:
  "vw_queued (fst (viewer_send m v)) = vw_queued v" "vw_downloads (fst (viewer_send m v)) = vw_downloads v"
  "vw_transfers (fst (viewer_send m v)) = vw_transfers v" "vw_info (fst (viewer_send m v)) = vw_info v"
  "vw_events (fst (viewer_send m v)) = vw_events v" "vw_backlog_bytes (fst (viewer_send m v)) = vw_backlog_bytes v"
  "vw_decoder (fst (viewer_send m v)) = vw_decoder v" "vw_reader (fst (viewer_send m v)) = vw_reader v"
  "vw_held (fst (viewer_send m v)) = vw_held v" "vw_input (fst (viewer_send m v)) = vw_input v"
  "vw_offered_files (fst (viewer_send m v)) = vw_offered_files v" "vw_closed (fst (viewer_send m v)) = vw_closed v"
  "vw_offered_drops (fst (viewer_send m v)) = vw_offered_drops v"
  "vw_pending_image (fst (viewer_send m v)) = vw_pending_image v"
  "vw_backlog_closed (fst (viewer_send m v)) = vw_backlog_closed v"
  by (simp_all add: viewer_send_def split: prod.splits)

definition refusal_events :: "message list \<Rightarrow> client_event list" where
  "refusal_events ms = concat (map (\<lambda>m. case m of TransferAccept i False r \<Rightarrow> [E_Transfer_Failed i r] | _ \<Rightarrow> []) ms)"

definition sent_events :: "(u64 \<times> transfer_purpose \<times> string) list \<Rightarrow> client_event list" where
  "sent_events xs = map (\<lambda>(i, _, name). E_File_Uploaded i name) (filter (\<lambda>(_, p, _). p = FileUpload) xs)"

text \<open>The destination of a download is taken when it is reported.\<close>

primrec completed_events :: "completed list \<Rightarrow> (u64, client_destination) hmap \<Rightarrow> client_event list" where
  "completed_events [] downloads = []"
| "completed_events (d # ds) downloads =
     (case done_purpose d of
        ClipboardImage \<Rightarrow> (case done_data d of Some png \<Rightarrow> [E_Clipboard_Image png] | None \<Rightarrow> []) @ completed_events ds downloads
      | FileDownload \<Rightarrow>
          (case hm_get downloads (done_id d) of
             Some dst \<Rightarrow> [E_File_Downloaded (done_id d) (cd_path dst) (done_name d)] | None \<Rightarrow> []) @
          completed_events ds (hm_remove (done_id d) downloads)
      | FileUpload \<Rightarrow> completed_events ds downloads)"

text \<open>The downloads given up because the transfer was refused or failed.\<close>

definition given_up :: "outcome \<Rightarrow> u64 list" where
  "given_up out = concat (map (\<lambda>m. case m of TransferAccept i False r \<Rightarrow> [i] | _ \<Rightarrow> []) (replies out)) @ map fst (failed out)"

definition outcome_events :: "outcome \<Rightarrow> (u64, client_destination) hmap \<Rightarrow> client_event list" where
  "outcome_events out downloads =
     refusal_events (replies out) @ map (\<lambda>(i, r). E_Transfer_Failed i r) (failed out) @ sent_events (sent out) @
     completed_events (completed out) (fold hm_remove (given_up out) downloads)"

lemma take_replies_queued:
  "take_replies ms v = (v', Inr ()) \<Longrightarrow>
     vw_queued v' = vw_queued v @ refusal_events ms \<and> vw_transfers v' = vw_transfers v \<and>
     vw_downloads v' = fold hm_remove (concat (map (\<lambda>m. case m of TransferAccept i False r \<Rightarrow> [i] | _ \<Rightarrow> []) ms)) (vw_downloads v)"
proof (induction ms arbitrary: v)
  case (Cons m ms)
  obtain v1 where v1: "take_reply m v = (v1, Inr ())" "take_replies ms v1 = (v', Inr ())"
    using Cons.prems by (cases "take_reply m v") (auto simp: and_then_def split: sum.splits)
  let ?u = "case m of TransferAccept i False reason \<Rightarrow> viewer_fail_transfer i reason v | _ \<Rightarrow> v"
  have "v1 = fst (viewer_send m ?u)" using v1(1) by (simp add: take_reply_def split: message.splits bool.splits)
  then have "vw_queued v1 = vw_queued ?u" "vw_transfers v1 = vw_transfers ?u" "vw_downloads v1 = vw_downloads ?u" by simp_all
  moreover have "vw_queued ?u = vw_queued v @ refusal_events [m]" "vw_transfers ?u = vw_transfers v"
    "vw_downloads ?u = fold hm_remove (case m of TransferAccept i False r \<Rightarrow> [i] | _ \<Rightarrow> []) (vw_downloads v)"
    by (auto simp: refusal_events_def viewer_fail_transfer_def push_event_def forget_transfer_def split: message.splits bool.splits)
  ultimately show ?case using Cons.IH [OF v1(2)] by (simp add: refusal_events_def)
qed (simp add: refusal_events_def)

lemma take_failed_queued:
  "vw_queued (fold (\<lambda>(i, reason). viewer_fail_transfer i reason) xs v) = vw_queued v @ map (\<lambda>(i, r). E_Transfer_Failed i r) xs"
  "vw_downloads (fold (\<lambda>(i, reason). viewer_fail_transfer i reason) xs v) = fold hm_remove (map fst xs) (vw_downloads v)"
  "vw_transfers (fold (\<lambda>(i, reason). viewer_fail_transfer i reason) xs v) = vw_transfers v"
  by (induction xs arbitrary: v) (auto simp: viewer_fail_transfer_def push_event_def forget_transfer_def)

lemma take_sent_queued:
  "vw_queued (fold take_sent xs v) = vw_queued v @ sent_events xs"
  "vw_downloads (fold take_sent xs v) = vw_downloads v" "vw_transfers (fold take_sent xs v) = vw_transfers v"
  by (induction xs arbitrary: v) (auto simp: take_sent_def push_event_def sent_events_def Let_def)

lemma take_completed_queued:
  "vw_queued (fold take_completed ds v) = vw_queued v @ completed_events ds (vw_downloads v) \<and>
   vw_transfers (fold take_completed ds v) = vw_transfers v \<and>
   vw_downloads (fold take_completed ds v) =
     fold hm_remove (map done_id (filter (\<lambda>d. done_purpose d = FileDownload) ds)) (vw_downloads v)"
proof (induction ds arbitrary: v)
  case (Cons d ds)
  show ?case using Cons.IH [of "take_completed d v"]
    by (cases "done_purpose d"; cases "done_data d"; cases "hm_get (vw_downloads v) (done_id d)")
      (simp_all add: take_completed_def on_completed_def push_event_def)
qed simp

lemma client_accept_keeps [simp]: "snd (client_accept dirs create i purpose name sz p) = p"
  by (simp add: client_accept_def split: transfer_purpose.splits)

lemma handle_keeps_policy: "handle (client_accept dirs create) msg m p = (out, m', p') \<Longrightarrow> p' = p"
proof (cases msg)
  case (TransferOffer i purpose name sz)
  obtain r q where a: "client_accept dirs create i purpose name sz p = (r, q)" by fastforce
  then have "q = p" using client_accept_keeps [of dirs create i purpose name sz p] by simp
  then show "handle (client_accept dirs create) msg m p = (out, m', p') \<Longrightarrow> p' = p"
    by (auto simp: TransferOffer handle_offer_def a Let_def split: prod.splits sum.splits if_splits)
qed (auto split: prod.splits)

lemma handle_transfer_outcome:
  assumes "handle_transfer lw msg v = Some (v', Inr ev)"
  obtains out where
    "handle (client_accept (lw_create_dirs lw) (lw_create lw)) msg (vw_transfers v)
       \<lparr>cp_replacements = vw_replacements v, cp_downloads = vw_downloads v\<rparr> =
     (Some out, vw_transfers v', \<lparr>cp_replacements = vw_replacements v, cp_downloads = vw_downloads v\<rparr>)"
    "(case ev of None \<Rightarrow> [] | Some e \<Rightarrow> [e]) @ vw_queued v' = vw_queued v @ outcome_events out (vw_downloads v)"
    "ev = None \<longrightarrow> vw_queued v' = []"
    "vw_downloads v' = fold hm_remove (given_up out @ map done_id (filter (\<lambda>d. done_purpose d = FileDownload) (completed out)))
       (vw_downloads v)"
proof -
  let ?p = "\<lparr>cp_replacements = vw_replacements v, cp_downloads = vw_downloads v\<rparr>"
  let ?h = "handle (client_accept (lw_create_dirs lw) (lw_create lw)) msg (vw_transfers v) ?p"
  obtain o' tm p where h: "?h = (o', tm, p)" using prod_cases3 by blast
  have p: "p = ?p" using handle_keeps_policy [OF h] .
  let ?v = "v\<lparr>vw_transfers := tm, vw_downloads := vw_downloads v\<rparr>"
  obtain out where out: "o' = Some out" using assms by (auto simp: handle_transfer_def h Let_def)
  obtain v1 where v1: "take_replies (replies out) ?v = (v1, Inr ())"
    and v': "pop_event (fold take_completed (completed out) (fold take_sent (sent out)
        (fold (\<lambda>(i, reason). viewer_fail_transfer i reason) (failed out) v1))) = (ev, v')"
    using assms by (auto simp: handle_transfer_def h out p Let_def and_then_def split: prod.splits sum.splits)
  note facts = take_replies_queued [OF v1] take_failed_queued take_sent_queued take_completed_queued
  show thesis
  proof (rule that)
    show "?h = (Some out, vw_transfers v', ?p)"
      using v' facts by (auto simp: h out p pop_event_def split: list.splits)
    show "(case ev of None \<Rightarrow> [] | Some e \<Rightarrow> [e]) @ vw_queued v' = vw_queued v @ outcome_events out (vw_downloads v)"
      using v' facts by (auto simp: pop_event_def outcome_events_def given_up_def split: list.splits)
    show "ev = None \<longrightarrow> vw_queued v' = []" using v' by (auto simp: pop_event_def split: list.splits)
    show "vw_downloads v' = fold hm_remove (given_up out @ map done_id (filter (\<lambda>d. done_purpose d = FileDownload) (completed out)))
        (vw_downloads v)"
      using v' facts by (auto simp: pop_event_def given_up_def split: list.splits)
  qed
qed

lemma hm_get_removes: "hm_get (fold hm_remove is' m) i = (if i \<in> set is' then None else hm_get m i)"
  by (induction is' arbitrary: m) (auto simp: hm_get_remove)

fun answers :: "u64 \<Rightarrow> client_event \<Rightarrow> bool" where
  "answers i (E_Transfer_Failed j _) = (j = i)"
| "answers i (E_File_Downloaded j _ _) = (j = i)"
| "answers i _ = False"

lemma completed_answers:
  "\<exists>d \<in> set ds. done_id d = i \<and> done_purpose d = FileDownload \<Longrightarrow> hm_get downloads i \<noteq> None \<Longrightarrow>
    \<exists>e \<in> set (completed_events ds downloads). answers i e"
proof (induction ds arbitrary: downloads)
  case (Cons d ds)
  show ?case
  proof (cases "done_id d = i \<and> done_purpose d = FileDownload")
    case True
    then show ?thesis using Cons.prems(2) by auto
  next
    case False
    then have "\<exists>d \<in> set ds. done_id d = i \<and> done_purpose d = FileDownload" using Cons.prems(1) by auto
    then show ?thesis using False Cons.IH [of downloads] Cons.IH [of "hm_remove (done_id d) downloads"] Cons.prems(2)
      by (cases "done_purpose d") (auto simp: hm_get_remove)
  qed
qed simp

lemma given_up_answers: "i \<in> set (given_up out) \<Longrightarrow> \<exists>e \<in> set (outcome_events out downloads). answers i e"
  unfolding given_up_def outcome_events_def refusal_events_def
  by (force split: message.splits bool.splits if_splits)

lemma reported_answers:
  assumes "reported out i" "hm_get downloads i \<noteq> None"
  shows "\<exists>e \<in> set (outcome_events out downloads). answers i e"
proof (cases "i \<in> set (given_up out)")
  case False
  then have "\<not> ((\<exists>r. TransferAccept i False r \<in> set (replies out)) \<or> i \<in> fst ` set (failed out))"
    unfolding given_up_def by force
  then have "\<exists>d \<in> set (completed out). done_id d = i \<and> done_purpose d = FileDownload"
    using assms(1) by (auto simp: reported_def)
  moreover have "hm_get (fold hm_remove (given_up out) downloads) i \<noteq> None"
    using False assms(2) by (simp add: hm_get_removes)
  ultimately have "\<exists>e \<in> set (completed_events (completed out) (fold hm_remove (given_up out) downloads)). answers i e"
    by (rule completed_answers)
  then show ?thesis by (auto simp: outcome_events_def)
qed (rule given_up_answers)

lemma unreported_kept:
  assumes "\<not> reported out i"
  shows "i \<notin> set (given_up out @ map done_id (filter (\<lambda>d. done_purpose d = FileDownload) (completed out)))"
  using assms unfolding given_up_def reported_def
  by (force split: message.splits bool.splits if_splits)

section \<open>What may be read\<close>

lemma and_then_fst:
  assumes "P (fst a)" "\<And>x v. P v \<Longrightarrow> P (fst (f x v))"
  shows "P (fst (and_then a f))"
proof (cases a)
  case (Pair v r)
  then show ?thesis using assms by (cases r) simp_all
qed

text \<open>What answering a message about transfers leaves alone.\<close>

definition same_offers :: "viewer \<Rightarrow> viewer \<Rightarrow> bool" where
  "same_offers v v' \<longleftrightarrow> vw_offered_files v' = vw_offered_files v \<and> vw_offered_drops v' = vw_offered_drops v \<and>
     vw_pending_image v' \<in> {None, vw_pending_image v} \<and> vw_input v' = vw_input v \<and> vw_held v' = vw_held v \<and>
     vw_reader v' = vw_reader v \<and> vw_events v' = vw_events v \<and> vw_backlog_bytes v' = vw_backlog_bytes v \<and>
     vw_backlog_closed v' = vw_backlog_closed v \<and> vw_decoder v' = vw_decoder v \<and> vw_info v' = vw_info v \<and>
     vw_frames_received v' = vw_frames_received v \<and> vw_closed v' = vw_closed v"

lemma same_offers_refl [simp]: "same_offers v v"
  by (simp add: same_offers_def)

lemma same_offers_simps [simp]:
  "same_offers v (fst (viewer_send m u)) \<longleftrightarrow> same_offers v u"
  "same_offers v (viewer_fail_transfer i e u) \<longleftrightarrow> same_offers v u"
  "same_offers v (push_event ev u) \<longleftrightarrow> same_offers v u"
  "same_offers v (snd (pop_event u)) \<longleftrightarrow> same_offers v u"
  "same_offers v (take_sent x u) \<longleftrightarrow> same_offers v u"
  "same_offers v (take_completed d u) \<longleftrightarrow> same_offers v u"
  "same_offers v (fst (take_reply m u)) \<longleftrightarrow> same_offers v u"
  by (auto simp: same_offers_def viewer_send_def viewer_fail_transfer_def forget_transfer_def push_event_def pop_event_def
      take_sent_def take_completed_def on_completed_def take_reply_def Let_def
      split: prod.splits list.splits message.splits bool.splits transfer_purpose.splits option.splits)

lemma take_replies_offers: "same_offers v u \<Longrightarrow> same_offers v (fst (take_replies ms u))"
  by (induction ms arbitrary: u) (simp_all add: and_then_fst)

lemma folds_offers:
  "same_offers v u \<Longrightarrow> same_offers v (fold (\<lambda>(i, e). viewer_fail_transfer i e) xs u)"
  "same_offers v u \<Longrightarrow> same_offers v (fold take_sent ys u)"
  "same_offers v u \<Longrightarrow> same_offers v (fold take_completed ds u)"
  by (induction xs arbitrary: u, simp_all split: prod.splits)
    (induction ys arbitrary: u, simp_all, induction ds arbitrary: u, simp_all)

lemma take_replies_transfers: "vw_transfers (fst (take_replies ms u)) = vw_transfers u"
proof (induction ms arbitrary: u)
  case (Cons m ms)
  have "vw_transfers (fst (take_reply m u)) = vw_transfers u"
    by (auto simp: take_reply_def viewer_fail_transfer_def forget_transfer_def push_event_def split: message.splits bool.splits)
  then show ?case using Cons.IH by (cases "take_reply m u") (auto simp: and_then_def split: sum.splits)
qed simp

lemma handle_transfer_keeps:
  assumes "handle_transfer lw msg v = Some (v', r)"
  shows "same_offers v v' \<and> (\<exists>out p. handle (client_accept (lw_create_dirs lw) (lw_create lw)) msg (vw_transfers v)
       \<lparr>cp_replacements = vw_replacements v, cp_downloads = vw_downloads v\<rparr> = (Some out, vw_transfers v', p))"
proof -
  let ?h = "handle (client_accept (lw_create_dirs lw) (lw_create lw)) msg (vw_transfers v)
       \<lparr>cp_replacements = vw_replacements v, cp_downloads = vw_downloads v\<rparr>"
  obtain o' tm p where h: "?h = (o', tm, p)" using prod_cases3 by blast
  obtain out where out: "o' = Some out" using assms by (auto simp: handle_transfer_def h Let_def)
  let ?v = "v\<lparr>vw_transfers := tm, vw_downloads := cp_downloads p\<rparr>"
  obtain v1 r1 where v1: "take_replies (replies out) ?v = (v1, r1)" by fastforce
  have tr: "same_offers v v1" "vw_transfers v1 = tm"
    using take_replies_offers [of v ?v "replies out"] take_replies_transfers [of "replies out" ?v]
    by (simp_all add: v1 same_offers_def)
  have "same_offers v v' \<and> vw_transfers v' = tm"
  proof (cases r1)
    case (Inl e)
    then show ?thesis using assms tr by (simp add: handle_transfer_def h out v1 Let_def)
  next
    case (Inr u)
    let ?u = "fold take_completed (completed out) (fold take_sent (sent out)
        (fold (\<lambda>(i, reason). viewer_fail_transfer i reason) (failed out) v1))"
    have v': "v' = snd (pop_event ?u)" using assms by (auto simp: handle_transfer_def h out v1 Inr Let_def split: prod.splits)
    have "vw_transfers (snd (pop_event ?u)) = vw_transfers ?u" by (simp add: pop_event_def split: list.splits)
    then show ?thesis
      using tr folds_offers take_failed_queued(3) take_sent_queued(3) take_completed_queued by (simp add: v')
  qed
  then show ?thesis by (simp add: h out)
qed

text \<open>Messages about transfers make no new outgoing ones.\<close>

lemma pump_id_old: "hm_get (pm_outgoing (pump_id j st)) i \<noteq> None \<Longrightarrow> hm_get (pm_outgoing st) i \<noteq> None"
  by (auto simp: pump_id_def hm_get_insert split: option.splits prod.splits if_splits)

lemma pump_ids_old: "hm_get (pm_outgoing (fold pump_id js st)) i \<noteq> None \<Longrightarrow> hm_get (pm_outgoing st) i \<noteq> None"
  by (induction js arbitrary: st) (simp_all, metis not_None_eq pump_id_old)

lemma removes_old: "hm_get (fold (\<lambda>(i, e). hm_remove i) xs og) i \<noteq> None \<Longrightarrow> hm_get og i \<noteq> None"
proof (induction xs arbitrary: og)
  case (Cons x xs)
  then have "hm_get (hm_remove (fst x) og) i \<noteq> None" by (cases x) auto
  then show ?case by (auto simp: hm_get_remove split: if_splits)
qed simp

lemma pump_old:
  assumes "pump (m, out) = (m', out')" "hm_get (mg_outgoing m') i \<noteq> None"
  shows "hm_get (mg_outgoing m) i \<noteq> None"
proof (cases "mg_outgoing m = []")
  case True
  then show ?thesis using assms by (simp add: pump_def)
next
  case False
  define st where "st = \<lparr>pm_outgoing = mg_outgoing m, pm_replies = [], pm_failed = [],
    pm_budget = GLOBAL_WINDOW_CHUNKS - sum_list (map (sender_in_flight \<circ> out_sender \<circ> snd) (mg_outgoing m)) mod 2 ^ 32\<rparr>"
  have "mg_outgoing (fst (pump (m, out))) =
      fold (\<lambda>(i, e). hm_remove i) (pm_failed (fold pump_id (pump_ids m) st)) (pm_outgoing (fold pump_id (pump_ids m) st))"
    using False by (simp add: pump_def st_def Let_def)
  then have "hm_get (pm_outgoing st) i \<noteq> None" using assms removes_old pump_ids_old by (metis fst_conv)
  then show ?thesis by (simp add: st_def)
qed

lemma complete_incoming_old: "complete_incoming j (m, out) = (m', out') \<Longrightarrow> mg_outgoing m' = mg_outgoing m"
  by (auto simp: complete_incoming_def Let_def split: option.splits prod.splits io_fail.splits)

lemma handle_old:
  assumes "handle acc msg m p = (Some out, m', p')" "hm_get (mg_outgoing m') i \<noteq> None"
  shows "hm_get (mg_outgoing m) i \<noteq> None"
proof (cases msg)
  case (TransferOffer j purpose name sz)
  have "mg_outgoing m' = mg_outgoing m"
    using assms(1) unfolding TransferOffer
    by (auto simp: handle_offer_def Let_def split: prod.splits sum.splits if_splits dest!: complete_incoming_old)
  then show ?thesis using assms(2) by simp
next
  case (TransferAccept j ok reason)
  then show ?thesis using assms
    by (auto simp: handle_accept_def hm_get_remove hm_get_insert dest!: pump_old [of _ _ _ _ i] split: option.splits prod.splits if_splits)
next
  case (TransferAck j seq)
  then show ?thesis using assms
    by (auto simp: handle_ack_def Let_def hm_get_insert dest!: pump_old [of _ _ _ _ i] split: option.splits prod.splits if_splits)
next
  case (TransferData j seq data)
  then show ?thesis using assms
    by (auto simp: handle_data_def Let_def dest!: complete_incoming_old split: option.splits prod.splits if_splits sum.splits)
next
  case (TransferEnd j ok t)
  then show ?thesis using assms
    by (auto simp: handle_end_def Let_def hm_get_remove dest!: complete_incoming_old split: prod.splits if_splits)
qed (use assms(1) in simp_all)

section \<open>A concrete client\<close>

definition quiet_local :: local_world where
  "quiet_local = \<lparr>lw_now = 0, lw_windows = False, lw_temp_dir = ''/tmp'', lw_compressors = run_length_libraries,
     lw_shown = (\<lambda>p. p), lw_stat = (\<lambda>p. Inr (True, 1)), lw_open = (\<lambda>p. Inr [Bytes [7]]), lw_len = (\<lambda>p. Inr 1),
     lw_parent = (\<lambda>p. None), lw_file_name = Some, lw_create_dirs = (\<lambda>d. None), lw_create = (\<lambda>p r. Inr [])\<rparr>"

text \<open>It waits for one download and offers one file.\<close>

definition small_viewer :: viewer where
  "small_viewer = (viewer_new 0 []
     \<lparr>si_server_name = ''s'', si_features = default_features, si_session_id = 1, si_username = ''u''\<rparr> 2 1)
     \<lparr>vw_transfers := expect 9 (manager_new True), vw_downloads := [(9, \<lparr>cd_path = ''f'', cd_parent = None\<rparr>)],
      vw_offered_files := [(''a'', ''/home/a'')]\<rparr>"

section \<open>Properties\<close>





text \<open>
  The two answers excluded there do leave the requester waiting: the manager forgets the transfer, no
  event follows and the destination stays registered.
\<close>

lemma early_success_orphans:
  assumes "i \<in> mg_pending (vw_transfers v)" "hm_get (mg_incoming (vw_transfers v)) i = None"
    "hm_get (mg_outgoing (vw_transfers v)) i = None" "vw_queued v = []"
  shows "\<exists>v'. handle_transfer lw (TransferEnd i True t) v = Some (v', Inr None) \<and>
    vw_downloads v' = vw_downloads v \<and> \<not> awaited (vw_transfers v') i"
  using assms
  by (simp add: handle_transfer_def handle_end_def Let_def outcome_default_def pop_event_def awaited_def hm_get_remove)

lemma viewer_send_all_transfers: "vw_transfers v = tm \<Longrightarrow> vw_transfers (fst (viewer_send_all ms v)) = tm"
proof (induction ms arbitrary: v)
  case (Cons m ms)
  show ?case unfolding viewer_send_all.simps
    by (rule and_then_fst [where P = "\<lambda>u. vw_transfers u = tm"]) (simp_all add: Cons)
qed simp

lemma viewer_send_all_offers: "same_offers u v \<Longrightarrow> same_offers u (fst (viewer_send_all ms v))"
  by (induction ms arbitrary: v) (simp_all add: and_then_fst)

lemma answered_fst [simp]: "fst (answered ev a) = fst a"
  by (cases a) (auto simp: answered_def and_then_def split: sum.splits)

lemma viewer_offer_fst:
  "vw_transfers (fst (viewer_offer i purpose name len src v)) =
     snd (offer_stream_with_id i purpose name (unat len) src (vw_transfers v))"
  "same_offers u (fst (viewer_offer i purpose name len src v)) \<longleftrightarrow> same_offers u v"
  by (auto simp: viewer_offer_def same_offers_def viewer_send_def split: prod.splits)

lemma file_request_cases:
  obtains (Answer) m where "viewer_file_request lw j path v = viewer_send m v"
  | (Served) p src len name u where "viewer_file_request lw j path v = viewer_offer j FileDownload name len src u"
      "offered_path path v = Some p" "lw_open lw p = Inr src" "lw_len lw p = Inr len"
      "same_offers v u" "vw_transfers u = vw_transfers v"
proof (cases "(\<exists>m. viewer_file_request lw j path v = viewer_send m v) \<or> offered_path path v = None")
  case True
  then show thesis using Answer by (auto simp: viewer_file_request_def Let_def split: if_splits)
next
  case False
  then obtain p where p: "offered_path path v = Some p" by auto
  show thesis
  proof (cases "bindE (lw_open lw p) (\<lambda>src. map_sum id (Pair src) (lw_len lw p))")
    case (Inl e)
    then show thesis using False p by (auto simp: viewer_file_request_def Let_def split: if_splits)
  next
    case (Inr q)
    then obtain src len where q: "q = (src, len)" "lw_open lw p = Inr src" "lw_len lw p = Inr len"
      by (cases "lw_len lw p") (auto simp: bindE_Inr_iff)
    let ?u = "v\<lparr>vw_clipboard_transfers :=
      (if hm_get (vw_offered_files v) path \<noteq> None then insert j (vw_clipboard_transfers v) else vw_clipboard_transfers v)\<rparr>"
    have "viewer_file_request lw j path v =
        viewer_offer j FileDownload (case lw_file_name lw p of Some n \<Rightarrow> n | None \<Rightarrow> path) len src ?u"
      using False p Inr q(1) unfolding viewer_file_request_def Let_def by auto
    then show thesis using p q(2,3) by (rule Served) (simp_all add: same_offers_def)
  qed
qed

lemma file_request_reads:
  assumes "viewer_file_request lw j path v = (v', r)"
  shows "same_offers v v' \<and> (\<forall>i o1. hm_get (mg_outgoing (vw_transfers v)) i = None \<longrightarrow>
    hm_get (mg_outgoing (vw_transfers v')) i = Some o1 \<longrightarrow>
    i = j \<and> (\<exists>p src len. offered_path path v = Some p \<and> lw_open lw p = Inr src \<and> lw_len lw p = Inr len \<and>
      out_purpose o1 = FileDownload \<and> out_sender o1 = sender_new i (unat len) src))"
proof -
  have v': "v' = fst (viewer_file_request lw j path v)" using assms by simp
  show ?thesis
  proof (cases rule: file_request_cases [of lw j path v])
    case (Answer m)
    then show ?thesis by (simp add: v')
  next
    case (Served p src len name u)
    then show ?thesis unfolding v' Served(1)
      by (auto simp: viewer_offer_fst offer_stream_with_id_def hm_get_insert)
  qed
qed

lemma clipboard_request_reads:
  assumes "viewer_clipboard_request format v = (v', r)"
  shows "same_offers v v'" "hm_get (mg_outgoing (vw_transfers v)) i = None \<Longrightarrow>
    hm_get (mg_outgoing (vw_transfers v')) i = Some o1 \<Longrightarrow>
    \<exists>png. vw_pending_image v = Some png \<and> out_purpose o1 = ClipboardImage \<and> out_sender o1 = sender_new i (length png) [Bytes png]"
  using assms
  by (auto simp: viewer_clipboard_request_def same_offers_def offer_bytes_def offer_stream_with_id_def next_id_def
      viewer_send_def hm_get_insert split: option.splits prod.splits if_splits)



end
