(* ===== verification/Viewer_System.thy ===== *)
theory Viewer_System
  imports Viewer_Transfers
begin

text \<open>
  The client as a running system: its reader thread, the polls of the user interface, the operations of
  the user and the writer's worker in any order. The invariant bounds what a server can make it hold,
  and gives that no message makes it panic.
\<close>

section \<open>The invariant\<close>

definition backlog_ok :: "viewer \<Rightarrow> bool" where
  "backlog_ok v \<longleftrightarrow> vw_backlog_bytes v = sum_list (map snd (vw_events v)) \<and>
     (vw_backlog_bytes v \<le> MAX_BACKLOG_BYTES \<or> length (filter (\<lambda>e. 0 < snd e) (vw_events v)) = 1)"

definition inbox_ok :: "viewer \<Rightarrow> bool" where
  "inbox_ok v \<longleftrightarrow> (\<forall>e \<in> set (vw_events v). message_ok (fst e) \<or> (\<exists>r. fst e = Disconnect r)) \<and>
     (\<forall>e. vw_held v = Some e \<longrightarrow> message_ok (fst e))"

definition viewer_ok :: "viewer \<Rightarrow> bool" where
  "viewer_ok v \<longleftrightarrow> backlog_ok v \<and> inbox_ok v \<and> fb_wf (dec_fb (vw_decoder v)) \<and> manager_ok (vw_transfers v) \<and>
     (\<forall>png. vw_pending_image v = Some png \<longrightarrow> length png < 2 ^ 47)"

text \<open>Local files are shorter than 128 TiB.\<close>

definition local_ok :: "local_world \<Rightarrow> bool" where
  "local_ok lw \<longleftrightarrow> (\<forall>p len. lw_len lw p = Inr len \<longrightarrow> unat len < 2 ^ 47)"

lemma viewer_new_ok: "viewer_ok (viewer_new now input info w h)" if "w < 2 ^ 32" "h < 2 ^ 32"
  using that fb_new_wf [of w h] manager_ok_new
  by (simp add: viewer_ok_def viewer_new_def backlog_ok_def inbox_ok_def decoder_new_def)

lemma viewer_ok_cong:
  assumes "vw_backlog_bytes v' = vw_backlog_bytes v" "vw_events v' = vw_events v" "vw_held v' = vw_held v"
    "vw_decoder v' = vw_decoder v" "vw_transfers v' = vw_transfers v" "vw_pending_image v' \<in> {None, vw_pending_image v}"
  shows "viewer_ok v \<Longrightarrow> viewer_ok v'"
  using assms by (auto simp: viewer_ok_def backlog_ok_def inbox_ok_def)

lemma viewer_ok_fields [simp]:
  "viewer_ok (v\<lparr>vw_writer := a\<rparr>) = viewer_ok v" "viewer_ok (v\<lparr>vw_input := b\<rparr>) = viewer_ok v"
  "viewer_ok (v\<lparr>vw_reader := c\<rparr>) = viewer_ok v" "viewer_ok (v\<lparr>vw_backlog_closed := c\<rparr>) = viewer_ok v"
  "viewer_ok (v\<lparr>vw_cursor := d\<rparr>) = viewer_ok v" "viewer_ok (v\<lparr>vw_closed := e\<rparr>) = viewer_ok v"
  "viewer_ok (v\<lparr>vw_frames_received := f\<rparr>) = viewer_ok v" "viewer_ok (v\<lparr>vw_last_ping := g\<rparr>) = viewer_ok v"
  "viewer_ok (v\<lparr>vw_queued := h\<rparr>) = viewer_ok v" "viewer_ok (v\<lparr>vw_downloads := i\<rparr>) = viewer_ok v"
  "viewer_ok (v\<lparr>vw_replacements := j\<rparr>) = viewer_ok v" "viewer_ok (v\<lparr>vw_offered_files := k\<rparr>) = viewer_ok v"
  "viewer_ok (v\<lparr>vw_offered_drops := l\<rparr>) = viewer_ok v" "viewer_ok (v\<lparr>vw_clipboard_transfers := j\<rparr>) = viewer_ok v"
  by (simp_all add: viewer_ok_def backlog_ok_def inbox_ok_def)

lemma viewer_ok_decoder: "viewer_ok v \<Longrightarrow> fb_wf (dec_fb d) \<Longrightarrow> viewer_ok (v\<lparr>vw_decoder := d\<rparr>)"
  by (auto simp: viewer_ok_def backlog_ok_def inbox_ok_def)

lemma viewer_ok_transfers: "viewer_ok v \<Longrightarrow> manager_ok tm \<Longrightarrow> viewer_ok (v\<lparr>vw_transfers := tm\<rparr>)"
  by (auto simp: viewer_ok_def backlog_ok_def inbox_ok_def)

lemma viewer_ok_keeps:
  assumes "viewer_ok v" "same_offers v v'" "manager_ok (vw_transfers v')"
  shows "viewer_ok v'"
  using assms by (auto simp: viewer_ok_def same_offers_def backlog_ok_def inbox_ok_def)

section \<open>The reader thread\<close>

lemma read_message_ok: "read_message bs = Inr (m, rest) \<Longrightarrow> message_ok m"
proof (induction bs rule: read_message.induct)
  case (1 s)
  then show ?case
    by (subst (asm) read_message.simps) (auto simp: Let_def split: sum.splits prod.splits if_splits intro: decode_ok)
qed

lemma reader_read_ok: "viewer_ok v \<Longrightarrow> viewer_ok (reader_read show_io message_size eof v)"
  by (auto simp: reader_read_def reader_ends_def viewer_ok_def backlog_ok_def inbox_ok_def read_message_ok
      split: sum.splits prod.splits)

lemma reader_admit_ok:
  assumes "viewer_ok v"
  shows "viewer_ok (reader_admit v)"
proof (cases "vw_held v")
  case None
  then show ?thesis using assms by (simp add: reader_admit_def)
next
  case (Some e)
  obtain msg sz where e: "e = (msg, sz)" by (cases e)
  let ?v = "v\<lparr>vw_held := None, vw_backlog_bytes := vw_backlog_bytes v + sz, vw_events := vw_events v @ [(msg, sz)]\<rparr>"
  have "backlog_ok ?v" if "backlog_admit sz v = Some True"
  proof (cases "vw_backlog_bytes v = 0")
    case True
    then have "\<forall>e \<in> set (vw_events v). snd e = 0" using assms by (auto simp: viewer_ok_def backlog_ok_def)
    then have "filter (\<lambda>e. 0 < snd e) (vw_events v) = []" by (auto simp: filter_empty_conv)
    then show ?thesis using assms True by (auto simp: viewer_ok_def backlog_ok_def)
  next
    case False
    then have "vw_backlog_bytes v + sz \<le> MAX_BACKLOG_BYTES"
      using that by (auto simp: backlog_admit_def sat_add_def MAX_BACKLOG_BYTES_def min_def split: if_splits)
    then show ?thesis using assms by (auto simp: viewer_ok_def backlog_ok_def)
  qed
  then have full: "viewer_ok ?v" if "backlog_admit sz v = Some True"
    using that assms Some e by (auto simp: viewer_ok_def inbox_ok_def)
  have gone: "viewer_ok (v\<lparr>vw_held := None, vw_reader := False\<rparr>)"
    using assms by (auto simp: viewer_ok_def inbox_ok_def backlog_ok_def)
  consider "backlog_admit sz v = None" | "backlog_admit sz v = Some True" | "backlog_admit sz v = Some False"
    by (cases "backlog_admit sz v") auto
  then show ?thesis using assms full gone by cases (simp_all add: reader_admit_def Some e)
qed

lemma reader_act_ok: "viewer_ok v \<Longrightarrow> viewer_ok (reader_act show_io message_size a v)"
proof (cases a)
  case (Feed bs)
  then show "viewer_ok v \<Longrightarrow> viewer_ok (reader_act show_io message_size a v)"
    using viewer_ok_cong [of "v\<lparr>vw_input := vw_input v @ bs\<rparr>" v] by simp
qed (simp_all add: reader_read_ok reader_admit_ok)

lemma reader_acts_ok: "viewer_ok v \<Longrightarrow> viewer_ok (fold (reader_act show_io message_size) acts v)"
  by (induction acts arbitrary: v) (simp_all add: reader_act_ok)

text \<open>Taking the next message out of the channel.\<close>

lemma take_event_ok:
  assumes "viewer_ok v" "vw_events v = (msg, sz) # rest"
  shows "viewer_ok ((backlog_release sz (v\<lparr>vw_events := rest\<rparr>))\<lparr>vw_last_message_at := now\<rparr>)"
    "message_ok msg \<or> (\<exists>r. msg = Disconnect r)"
proof -
  let ?v = "(backlog_release sz (v\<lparr>vw_events := rest\<rparr>))\<lparr>vw_last_message_at := now\<rparr>"
  have b: "vw_backlog_bytes v = sz + sum_list (map snd rest)" using assms by (simp add: viewer_ok_def backlog_ok_def)
  have "backlog_ok ?v"
  proof (cases "vw_backlog_bytes v \<le> MAX_BACKLOG_BYTES")
    case True
    then show ?thesis using b by (simp add: backlog_ok_def backlog_release_def)
  next
    case False
    then have one: "length (filter (\<lambda>e. 0 < snd e) ((msg, sz) # rest)) = 1"
      using assms by (simp add: viewer_ok_def backlog_ok_def)
    show ?thesis
    proof (cases "sz = 0")
      case True
      then show ?thesis using one b by (simp add: backlog_ok_def backlog_release_def)
    next
      case False
      then have "\<forall>e \<in> set rest. snd e = 0" using one by (auto simp: filter_empty_conv)
      then have "sum_list (map snd rest) = 0" by (induction rest) auto
      then show ?thesis unfolding backlog_ok_def backlog_release_def using b by (simp del: sum_list_eq_0_iff)
    qed
  qed
  then show "viewer_ok ?v" using assms by (auto simp: viewer_ok_def inbox_ok_def backlog_release_def)
  show "message_ok msg \<or> (\<exists>r. msg = Disconnect r)" using assms by (auto simp: viewer_ok_def inbox_ok_def)
qed

section \<open>Messages\<close>

lemma copy_ok_wf: "copy_ok c \<Longrightarrow> copy_wf c"
  by (auto simp: copy_ok_def copy_wf_def copy_src_def rect_ok_def coord16_def rect_wf_def)

lemma rect_ok_wf: "rect_ok r \<Longrightarrow> rect_wf r"
  by (auto simp: rect_ok_def coord16_def rect_wf_def)

lemma handle_transfer_ok:
  assumes "viewer_ok v" "handle_transfer lw msg v = Some (v', r)"
  shows "viewer_ok v'"
proof -
  from handle_transfer_keeps [OF assms(2)] obtain out p where k: "same_offers v v'"
    "handle (client_accept (lw_create_dirs lw) (lw_create lw)) msg (vw_transfers v)
       \<lparr>cp_replacements = vw_replacements v, cp_downloads = vw_downloads v\<rparr> = (Some out, vw_transfers v', p)" by blast
  have "manager_ok (vw_transfers v')"
    by (rule client_policy.handle_ok [OF _ k(2)]) (use assms(1) in \<open>simp add: viewer_ok_def\<close>)
  with assms(1) k(1) show ?thesis by (rule viewer_ok_keeps)
qed

lemma viewer_send_ok: "viewer_ok v \<Longrightarrow> viewer_ok (fst (viewer_send m v))"
  by (rule viewer_ok_cong [of _ v]) (simp_all add: viewer_send_def split: prod.splits)

lemma viewer_send_all_ok: "viewer_ok v \<Longrightarrow> viewer_ok (fst (viewer_send_all ms v))"
proof (induction ms arbitrary: v)
  case (Cons m ms)
  show ?case unfolding viewer_send_all.simps
    by (rule and_then_fst [where P = viewer_ok]) (simp_all add: Cons viewer_send_ok)
qed simp

lemma viewer_offer_ok: "viewer_ok v \<Longrightarrow> unat len < 2 ^ 47 \<Longrightarrow> viewer_ok (fst (viewer_offer i purpose name len src v))"
  by (rule viewer_ok_keeps [of v])
    (simp_all add: viewer_offer_fst manager_ok_offer viewer_ok_def)

lemma file_request_ok:
  assumes "viewer_ok v" "local_ok lw"
  shows "viewer_ok (fst (viewer_file_request lw i path v))"
proof (cases rule: file_request_cases [of lw i path v])
  case (Answer m)
  then show ?thesis using assms by (simp add: viewer_send_ok)
next
  case (Served p src len name u)
  have "viewer_ok u" by (rule viewer_ok_keeps [OF assms(1) Served(5)]) (use assms(1) Served(6) in \<open>simp add: viewer_ok_def\<close>)
  then show ?thesis using Served assms(2) by (simp add: viewer_offer_ok local_ok_def)
qed

lemma clipboard_request_ok:
  assumes "viewer_ok v"
  shows "viewer_ok (fst (viewer_clipboard_request format v))"
proof (cases "vw_pending_image v")
  case (Some png)
  then have "length png < 2 ^ 47" "manager_ok (vw_transfers v)" using assms by (auto simp: viewer_ok_def)
  then have "manager_ok (snd (offer_bytes ClipboardImage ''clipboard.png'' png (vw_transfers v)))"
    by (rule manager_ok_offer_bytes [rotated])
  then have "viewer_ok (v\<lparr>vw_pending_image := None,
      vw_transfers := snd (offer_bytes ClipboardImage ''clipboard.png'' png (vw_transfers v))\<rparr>)"
    using assms by (auto simp: viewer_ok_def backlog_ok_def inbox_ok_def)
  then show ?thesis using assms Some
    by (auto simp: viewer_clipboard_request_def viewer_send_ok split: prod.splits)
qed (use assms in \<open>simp add: viewer_clipboard_request_def\<close>)

lemma screen_update_ok:
  assumes "viewer_ok v" "message_ok (ScreenUpdate fid copies tiles)"
  shows "\<exists>v' r. viewer_screen_update lw fid copies tiles v = Some (v', r) \<and> viewer_ok v'"
proof -
  have "\<forall>c \<in> set copies. copy_wf c" "\<forall>t \<in> set tiles. rect_wf (tile_rect t)"
    using assms(2) by (auto simp: tile_ok_def intro: copy_ok_wf rect_ok_wf)
  moreover have "fb_wf (dec_fb (vw_decoder v))" using assms(1) by (simp add: viewer_ok_def)
  ultimately obtain d res where d: "decoder_apply_frame (lw_compressors lw) copies tiles (vw_decoder v) = Some (d, res)"
    "fb_wf (dec_fb d)" using decoder_apply_frame_total [of "vw_decoder v" copies tiles "lw_compressors lw"] by blast
  have ok: "viewer_ok (v\<lparr>vw_decoder := d\<rparr>)" using assms(1) d(2) by (rule viewer_ok_decoder)
  show ?thesis
  proof (cases res)
    case (Inl e)
    then show ?thesis using ok d by (simp add: viewer_screen_update_def)
  next
    case (Inr dirty)
    let ?u = "v\<lparr>vw_decoder := d, vw_frames_received := vw_frames_received v + 1\<rparr>"
    have "viewer_ok ?u" using ok by simp
    then have "viewer_ok (fst (and_then (viewer_send (FrameAck fid) ?u) (\<lambda>_ v. (v, Inr (Some (E_Frame fid dirty))))))"
      by (intro and_then_fst [where P = viewer_ok] viewer_send_ok) simp_all
    then show ?thesis using d Inr
      by (cases "and_then (viewer_send (FrameAck fid) ?u) (\<lambda>_ v. (v, Inr (Some (E_Frame fid dirty))))")
        (simp add: viewer_screen_update_def)
  qed
qed

lemma screen_resized_ok:
  assumes "viewer_ok v"
  shows "\<exists>d. decoder_resize (unat (w :: u16)) (unat (h :: u16)) (vw_decoder v) = Some d \<and> viewer_ok (v\<lparr>vw_decoder := d\<rparr>)"
proof -
  have "unat w < 2 ^ 32" "unat h < 2 ^ 32"
    using unsigned_less [of w, where ?'a = nat] unsigned_less [of h, where ?'a = nat] by simp_all
  moreover have "fb_wf (dec_fb (vw_decoder v))" using assms by (simp add: viewer_ok_def)
  ultimately obtain fb' where "fb_resize (dec_fb (vw_decoder v)) (unat w) (unat h) = Some fb'" "fb_wf fb'"
    using fb_resize_Some by metis
  then show ?thesis using viewer_ok_decoder [OF assms] by (auto simp: decoder_resize_def)
qed

lemma answered_ok: "viewer_ok (fst a) \<Longrightarrow> answered ev a = (v', r) \<Longrightarrow> viewer_ok v'"
  using answered_fst [of ev a] by simp

lemma handle_transfer_other [simp]:
  "handle_transfer lw (ClientHello a b c d e) v = None" "handle_transfer lw (ServerHello a b c g f d e) v = None"
  "handle_transfer lw (Rejected a f) v = None" "handle_transfer lw (KeyEvent c h) v = None"
  "handle_transfer lw (PointerMotion a d) v = None" "handle_transfer lw (PointerButton i h) v = None"
  "handle_transfer lw (Scroll a d) v = None" "handle_transfer lw (FrameAck g) v = None"
  "handle_transfer lw (ResizeRequest a d) v = None" "handle_transfer lw (ClipboardText f) v = None"
  "handle_transfer lw (Ping g) v = None" "handle_transfer lw (Pong g) v = None"
  "handle_transfer lw (Disconnect f) v = None" "handle_transfer lw RefreshRequest v = None"
  "handle_transfer lw (ScreenUpdate g j k) v = None" "handle_transfer lw (ScreenResized a d) v = None"
  "handle_transfer lw (CursorShape l) v = None" "handle_transfer lw (CursorPosition a d) v = None"
  "handle_transfer lw (Notice f) v = None" "handle_transfer lw (TransferOptions g h) v = None"
  "handle_transfer lw (FileRequest g f) v = None" "handle_transfer lw (FileList g m) v = None"
  "handle_transfer lw (FileDrop g a d m) v = None" "handle_transfer lw (FileDropResult g h f) v = None"
  "handle_transfer lw (ClipboardOffer c) v = None" "handle_transfer lw (ClipboardRequest c) v = None"
  by (simp_all add: handle_transfer_def Let_def)

lemma viewer_message_ok:
  assumes "viewer_ok v" "local_ok lw" "message_ok msg \<or> (\<exists>r. msg = Disconnect r)"
  shows "\<exists>v' r. viewer_message lw msg v = Some (v', r) \<and> viewer_ok v'"
proof (cases "handle_transfer lw msg v")
  case (Some a)
  then show ?thesis using handle_transfer_ok [OF assms(1)] by (cases a) (simp add: viewer_message_def)
next
  case None
  note def = viewer_message_def
  have ans: "\<exists>v' r. answered ev a = (v', r) \<and> viewer_ok v'" if "viewer_ok (fst a)" for ev a
    using answered_ok [OF that] by (cases "answered ev a") blast
  show ?thesis
  proof (cases msg)
    case (ScreenUpdate fid copies tiles)
    then show ?thesis using screen_update_ok [OF assms(1), of fid copies tiles lw] assms(3) by (simp add: def)
  next
    case (ScreenResized w h)
    then show ?thesis using screen_resized_ok [OF assms(1), of w h] by (auto simp: def)
  next
    case (FileRequest i path)
    then show ?thesis using ans [OF file_request_ok [OF assms(1,2)], of None] by (simp add: def)
  next
    case (ClipboardRequest format)
    then show ?thesis using ans [OF clipboard_request_ok [OF assms(1)], of None] by (simp add: def)
  next
    case (ClipboardOffer formats)
    have "viewer_ok (fst (viewer_clipboard_offer formats v))"
      by (simp add: viewer_clipboard_offer_def Let_def viewer_send_all_ok [OF assms(1)])
    then show ?thesis using ans [of "viewer_clipboard_offer formats v" None] ClipboardOffer by (simp add: def)
  next
    case (Ping nonce)
    then show ?thesis using ans [OF viewer_send_ok [OF assms(1)], of None] by (simp add: def)
  qed (use assms(1) None in \<open>simp_all add: def viewer_pong_def Let_def\<close>)
qed

lemma viewer_handle_ok:
  assumes "viewer_ok v" "local_ok lw" "message_ok msg \<or> (\<exists>r. msg = Disconnect r)"
  shows "\<exists>v' r. viewer_handle lw msg v = Some (v', r) \<and> viewer_ok v'"
proof -
  obtain v1 r1 where m: "viewer_message lw msg v = Some (v1, r1)" "viewer_ok v1"
    using viewer_message_ok [OF assms] by blast
  then show ?thesis using m by (cases r1; cases "ob_error (vw_writer v1)") (simp_all add: viewer_handle_def)
qed

section \<open>Polls\<close>

definition rounds_ok :: "round list \<Rightarrow> bool" where
  "rounds_ok ts \<longleftrightarrow> (\<forall>t \<in> set ts. local_ok (rd_world t))"

lemma poll_loop_ok:
  "viewer_ok v \<Longrightarrow> rounds_ok ts \<Longrightarrow>
    (case poll_loop show_io message_size deadline ts v of Unfinished \<Rightarrow> True | Panicked \<Rightarrow> False | Returned v' r \<Rightarrow> viewer_ok v')"
proof (induction ts arbitrary: v)
  case (Cons t ts)
  define u where "u = fold (reader_act show_io message_size) (rd_reader t) v"
  have u: "viewer_ok u" using Cons.prems(1) by (simp add: u_def reader_acts_ok)
  have lw: "local_ok (rd_world t)" "rounds_ok ts" using Cons.prems(2) by (simp_all add: rounds_ok_def)
  show ?case
  proof (cases "vw_events u")
    case Nil
    then show ?thesis using Nil u Cons.IH [OF u lw(2)] by (simp add: Let_def u_def [symmetric])
  next
    case (Cons e rest)
    obtain msg sz where e: "e = (msg, sz)" by (cases e)
    let ?u = "(backlog_release sz (u\<lparr>vw_events := rest\<rparr>))\<lparr>vw_last_message_at := lw_now (rd_world t)\<rparr>"
    have "viewer_ok ?u" "message_ok msg \<or> (\<exists>r. msg = Disconnect r)" using take_event_ok [OF u] Cons e by blast+
    then obtain w r where w: "viewer_handle (rd_world t) msg ?u = Some (w, r)" "viewer_ok w"
      using viewer_handle_ok [OF _ lw(1)] by blast
    show ?thesis
    proof (cases r)
      case (Inl x)
      then show ?thesis using Cons e w by (simp add: Let_def u_def [symmetric])
    next
      case (Inr ev)
      then show ?thesis using Cons e w Cons.IH [OF w(2) lw(2)]
        by (cases ev) (simp_all add: Let_def u_def [symmetric])
    qed
  qed
qed simp

lemma poll_event_ok:
  assumes "viewer_ok v" "rounds_ok ts"
  shows "case poll_event show_io message_size start timeout ts v of
    Unfinished \<Rightarrow> True | Panicked \<Rightarrow> False | Returned v' r \<Rightarrow> viewer_ok v'"
proof -
  have "viewer_ok (v\<lparr>vw_closed := reason\<rparr>)" for reason using assms(1) by simp
  note loops = poll_loop_ok [OF assms] poll_loop_ok [OF this assms(2)]
  show ?thesis
    using loops assms(1) by (auto simp: poll_event_def pop_event_def Let_def split: list.splits option.splits)
qed

section \<open>The running client\<close>

text \<open>
  Everything that moves the client: the reader thread, a poll that returned, the operations of the user
  and the writer's worker, whose state may change in any way.
\<close>

inductive viewer_step :: "(io_error \<Rightarrow> string) \<Rightarrow> nat \<Rightarrow> viewer \<Rightarrow> viewer \<Rightarrow> bool" for show_io message_size where
  reads: "viewer_step show_io message_size v (reader_act show_io message_size a v)"
| polls: "rounds_ok ts \<Longrightarrow> poll_event show_io message_size start timeout ts v = Returned v' r \<Longrightarrow>
    viewer_step show_io message_size v v'"
| works: "viewer_step show_io message_size v (v\<lparr>vw_writer := ob\<rparr>)"
| says: "viewer_step show_io message_size v (fst (viewer_send m v))"
| offers_image: "length png < 2 ^ 47 \<Longrightarrow> viewer_step show_io message_size v (fst (offer_clipboard_image png v))"
| offers_files: "viewer_step show_io message_size v (fst (offer_clipboard_files lw paths v))"
| drops: "viewer_step show_io message_size v (fst (drop_files lw files x y v))"
| uploads: "local_ok lw \<Longrightarrow> viewer_step show_io message_size v (fst (send_file_with_overwrite lw path dst replace v))"
| downloads: "viewer_step show_io message_size v (fst (request_file_with_overwrite lw remote path replace v))"
| cancels: "viewer_step show_io message_size v (cancel_transfer i v)"
| withdraws: "viewer_step show_io message_size v (clear_clipboard_files (clear_drop_files v))"
| pings: "viewer_step show_io message_size v (fst (viewer_ping now v))"
| closes: "viewer_step show_io message_size v (viewer_drop show_io message_size n broken acts v)"

lemma next_id_ok: "viewer_ok v \<Longrightarrow> viewer_next_id v = (i, v') \<Longrightarrow> viewer_ok v'"
  using manager_ok_next_id by (auto simp: viewer_next_id_def viewer_ok_def backlog_ok_def inbox_ok_def split: prod.splits)

lemma and_then_ok: "viewer_ok (fst a) \<Longrightarrow> (\<And>x v. viewer_ok v \<Longrightarrow> viewer_ok (fst (f x v))) \<Longrightarrow> viewer_ok (fst (and_then a f))"
  by (rule and_then_fst)

lemma offer_clipboard_files_ok: "viewer_ok v \<Longrightarrow> viewer_ok (fst (offer_clipboard_files lw paths v))"
  by (auto simp: offer_clipboard_files_def Let_def simp del: viewer_send_all.simps intro!: viewer_send_all_ok dest: next_id_ok [rotated]
      split: sum.splits prod.splits)

lemma drop_files_ok: "viewer_ok v \<Longrightarrow> viewer_ok (fst (drop_files lw files x y v))"
  by (auto simp: drop_files_def Let_def intro!: and_then_ok viewer_send_ok dest: next_id_ok [rotated] split: sum.splits prod.splits)

lemma send_file_ok: "viewer_ok v \<Longrightarrow> local_ok lw \<Longrightarrow> viewer_ok (fst (send_file_with_overwrite lw path dst replace v))"
  by (auto simp: send_file_with_overwrite_def Let_def local_ok_def intro!: and_then_ok viewer_send_ok viewer_offer_ok
      dest: next_id_ok [rotated] split: sum.splits prod.splits)

lemma request_file_ok: "viewer_ok v \<Longrightarrow> viewer_ok (fst (request_file_with_overwrite lw remote path replace v))"
proof -
  assume ok: "viewer_ok v"
  obtain i u where u: "viewer_next_id v = (i, u)" by fastforce
  have "manager_ok (expect i (vw_transfers u))"
    using next_id_ok [OF ok u] by (simp add: viewer_ok_def expect_def manager_ok_def)
  from viewer_ok_transfers [OF next_id_ok [OF ok u] this] ok
  show ?thesis by (auto simp: request_file_with_overwrite_def u Let_def intro!: and_then_ok viewer_send_ok)
qed

lemma cancel_transfer_ok: "viewer_ok v \<Longrightarrow> viewer_ok (cancel_transfer i v)"
proof -
  assume ok: "viewer_ok v"
  obtain m tm where c: "cancel i ''no longer wanted'' (vw_transfers v) = (m, tm)" by fastforce
  have f: "viewer_ok (forget_transfer i v)" "vw_transfers (forget_transfer i v) = vw_transfers v"
    using ok by (simp_all add: forget_transfer_def)
  have "manager_ok tm" using manager_ok_cancel [OF c] ok by (simp add: viewer_ok_def)
  from viewer_ok_transfers [OF f(1) this] show ?thesis
    by (cases m) (simp_all add: cancel_transfer_def Let_def f(2) c viewer_send_ok)
qed

lemma close_socket_ok: "viewer_ok v \<Longrightarrow> viewer_ok (close_socket show_io message_size broken acts reason v)"
proof -
  assume ok: "viewer_ok v"
  have "viewer_ok (u\<lparr>vw_held := None\<rparr>)" if "viewer_ok u" for u
    using that by (auto simp: viewer_ok_def backlog_ok_def inbox_ok_def)
  then show ?thesis using ok by (simp add: close_socket_def Let_def reader_acts_ok)
qed

lemma viewer_step_ok: "viewer_step show_io message_size v v' \<Longrightarrow> viewer_ok v \<Longrightarrow> viewer_ok v'"
proof (induction rule: viewer_step.induct)
  case (polls ts start timeout v v' r)
  then show ?case using poll_event_ok [of v ts show_io message_size start timeout] by simp
next
  case (offers_image png v)
  then have "viewer_ok (v\<lparr>vw_pending_image := Some png\<rparr>)" by (auto simp: viewer_ok_def backlog_ok_def inbox_ok_def)
  then show ?case using offers_image by (simp add: offer_clipboard_image_def viewer_send_ok)
next
  case (closes v n broken acts)
  then show ?case by (simp add: viewer_drop_def viewer_disconnect_def Let_def close_socket_ok viewer_send_ok)
next
  case (pings now v)
  then show ?case by (simp add: viewer_ping_def Let_def viewer_send_ok)
qed (simp_all add: reader_act_ok viewer_send_ok offer_clipboard_files_ok drop_files_ok send_file_ok request_file_ok
  cancel_transfer_ok clear_clipboard_files_def clear_drop_files_def)

definition viewer_start :: "viewer \<Rightarrow> bool" where
  "viewer_start v \<longleftrightarrow> (\<exists>show_io show_kind now input. from_stream show_io show_kind now input = Inr v)"

lemma from_stream_new:
  assumes "from_stream show_io show_kind now input = Inr v"
  obtains info rest and w h :: u16 where "v = viewer_new now rest info (unat w) (unat h)"
proof (cases "read_message input")
  case (Inl e)
  then show thesis using assms by (simp add: from_stream_def)
next
  case (Inr q)
  then show thesis using assms that by (cases q; cases "fst q") (auto simp: from_stream_def split: if_splits)
qed

lemma viewer_start_ok: "viewer_start v \<Longrightarrow> viewer_ok v"
proof -
  have "viewer_ok (viewer_new now input info (unat w) (unat h))" for now input info and w h :: u16
    using unsigned_less [of w, where ?'a = nat] unsigned_less [of h, where ?'a = nat] by (intro viewer_new_ok) simp_all
  then show ?thesis if "viewer_start v"
    using that from_stream_new unfolding viewer_start_def by metis
qed

interpretation viewers: invariant_system viewer_start "viewer_step show_io message_size" viewer_ok
  for show_io message_size
  by unfold_locales (auto intro: viewer_start_ok viewer_step_ok)

lemma read_framed:
  assumes "message_ok m" "length (encode m) \<le> MAX_MESSAGE_SIZE"
  shows "read_message (frame_message m [] @ rest) = Inr (m, rest)"
proof -
  have "\<not> is_skippable_extension (encode m)" by (simp add: encode_bytes is_skippable_extension_def)
  then have "view_frame (frame_message m [] @ rest) = Got m (4 + length (encode m))"
    using assms view_framed [of "encode m" rest] by (simp add: frame_message_bytes decode_encode)
  then show ?thesis by (subst read_view) (simp add: frame_message_bytes)
qed

section \<open>Properties\<close>

text \<open>The bytes of a greeting, and the client they make.\<close>

definition greeting :: message where
  "greeting = ServerHello 4 ''s'' default_features 1 ''u'' 2 1"

lemma greeting_starts:
  "from_stream show_io show_kind now (frame_message greeting [] @ rest) =
     Inr (viewer_new now rest \<lparr>si_server_name = ''s'', si_features = default_features, si_session_id = 1, si_username = ''u''\<rparr> 2 1)"
proof -
  have "message_ok greeting" "length (encode greeting) \<le> MAX_MESSAGE_SIZE"
    by (simp_all add: greeting_def text_ok_def dims_ok_def utf8_str_def str_bytes_def MAX_TEXT_LEN_def MAX_SCREEN_DIM_def
        encode_def encode_into_def wire_simps enc_text_def enc_bytes_def enc_string_def truncated_def MAX_MESSAGE_SIZE_def)
  then have "read_message (frame_message greeting [] @ rest) = Inr (greeting, rest)"
    by (rule read_framed)
  then show ?thesis
    by (simp add: from_stream_def greeting_def can_speak_def peer_meets_floor_def PROTOCOL_VERSION_def MIN_COMPATIBLE_VERSION_def)
qed

text \<open>
  C20. What a server can make the client hold is bounded: in every reachable client the bytes counted for
  waiting messages are those of the messages that wait, they stay within the budget unless a single
  message is larger, and the transfers stay within their limits.
\<close>

theorem client_memory_is_bounded:
  assumes "reach viewer_start (viewer_step show_io message_size) v"
  shows "vw_backlog_bytes v = sum_list (map snd (vw_events v)) \<and>
    (vw_backlog_bytes v \<le> MAX_BACKLOG_BYTES \<or> length (filter (\<lambda>e. 0 < snd e) (vw_events v)) = 1) \<and>
    within_limits (vw_transfers v)"
proof -
  have "backlog_ok v" "manager_ok (vw_transfers v)" using viewers.inv_reach [OF assms] by (simp_all add: viewer_ok_def)
  then show ?thesis unfolding backlog_ok_def by (blast intro: manager_ok_limits)
qed

text \<open>
  C7. No poll panics: in every reachable client, whatever bytes the server sent, whatever the reader
  thread does meanwhile and whatever the machine answers.
\<close>

theorem client_never_panics:
  assumes "reach viewer_start (viewer_step show_io message_size) v" "rounds_ok ts"
  shows "poll_event show_io message_size start timeout ts v \<noteq> Panicked"
  using poll_event_ok [OF viewers.inv_reach [OF assms(1)] assms(2), of show_io message_size start timeout] by auto

lemma viewer_greeted: "viewer_start (viewer_new 0 rest
    \<lparr>si_server_name = ''s'', si_features = default_features, si_session_id = 1, si_username = ''u''\<rparr> 2 1)"
  using greeting_starts [of "\<lambda>e. []" "\<lambda>k. []" 0 rest] unfolding viewer_start_def by blast

theorem client_memory_is_bounded_witness:
  "\<exists>v. reach viewer_start (viewer_step (\<lambda>e. []) 64) v \<and> vw_events v = [(Disconnect ''connection closed'', 0)] \<and>
    vw_backlog_bytes v = 0 \<and> within_limits (vw_transfers v)"
proof -
  let ?v = "viewer_new 0 [] \<lparr>si_server_name = ''s'', si_features = default_features, si_session_id = 1, si_username = ''u''\<rparr> 2 1"
  let ?w = "reader_act (\<lambda>e. []) 64 (Read True) ?v"
  have "reach viewer_start (viewer_step (\<lambda>e. []) 64) ?v" by (rule reach_init) (rule viewer_greeted)
  then have w: "reach viewer_start (viewer_step (\<lambda>e. []) 64) ?w" by (rule reach_step) (rule reads)
  have "read_message [] = Inl (Io UnexpectedEofIo)" by (subst read_view) (simp add: view_frame_def HEADER_LEN_def)
  then have "vw_events ?w = [(Disconnect ''connection closed'', 0)]"
    by (simp add: reader_read_def reader_ends_def viewer_new_def)
  with w client_memory_is_bounded [OF w] show ?thesis by (intro exI [of _ ?w]) simp
qed

definition one_round :: round where
  "one_round = \<lparr>rd_before = 5, rd_reader = [Feed (frame_message greeting []), Read False, Admit], rd_world = quiet_local, rd_after = 6\<rparr>"

theorem client_never_panics_witness:
  "\<exists>v. viewer_start v \<and> poll_event (\<lambda>e. []) 64 5 0 [one_round] v \<noteq> Panicked"
proof -
  have "rounds_ok [one_round]" by (simp add: rounds_ok_def one_round_def local_ok_def quiet_local_def)
  moreover have "reach viewer_start (viewer_step (\<lambda>e. []) 64) (viewer_new 0 []
      \<lparr>si_server_name = ''s'', si_features = default_features, si_session_id = 1, si_username = ''u''\<rparr> 2 1)"
    by (rule reach_init) (rule viewer_greeted)
  ultimately show ?thesis using client_never_panics viewer_greeted by blast
qed

text \<open>
  C37. A poll returns: with a clock that does not run backwards and moves on with every round, it takes at
  most one round more than nanoseconds it may wait, and one that may not wait takes a single round and so
  handles at most one message.
\<close>

theorem polls_return:
  assumes "\<forall>i < length ts. start + i \<le> rd_before (ts ! i) \<and> rd_before (ts ! i) \<le> rd_after (ts ! i)" "timeout < length ts"
  shows "poll_event show_io message_size start timeout ts v \<noteq> Unfinished \<and>
    (timeout = 0 \<longrightarrow> poll_event show_io message_size start timeout ts v =
      poll_event show_io message_size start timeout [hd ts] v)"
proof -
  have loop: "poll_loop show_io message_size (now + left) ts v \<noteq> Unfinished"
    if "\<forall>i < length ts. now + i \<le> rd_before (ts ! i) \<and> rd_before (ts ! i) \<le> rd_after (ts ! i)" "left < length ts"
    for now left ts v
    using that
  proof (induction ts arbitrary: now left v)
    case (Cons t ts)
    have t: "now \<le> rd_before t" "rd_before t \<le> rd_after t" using Cons.prems(1) by force+
    have rest: "\<forall>i < length ts. Suc now + i \<le> rd_before (ts ! i) \<and> rd_before (ts ! i) \<le> rd_after (ts ! i)"
      using Cons.prems(1) by force
    show ?case
    proof (cases left)
      case 0
      then show ?thesis using t by (auto simp: Let_def split: list.splits option.splits prod.splits sum.splits)
    next
      case (Suc n)
      then have "poll_loop show_io message_size (now + left) ts u \<noteq> Unfinished" for u
        using Cons.IH [OF rest, of n u] Cons.prems(2) by simp
      then show ?thesis by (auto simp: Let_def split: list.splits option.splits prod.splits sum.splits)
    qed
  qed simp
  obtain t tl where ts: "ts = t # tl" using assms(2) by (cases ts) auto
  then have t: "start \<le> rd_before t" "rd_before t \<le> rd_after t" using assms(1) by force+
  have one: "poll_loop show_io message_size start ts u = poll_loop show_io message_size start [t] u" for u
    using t unfolding ts by (auto simp: Let_def split: list.splits option.splits prod.splits sum.splits)
  show ?thesis
    using loop [OF assms] one by (auto simp: poll_event_def Let_def ts split: prod.splits option.splits)
qed

theorem polls_return_witness:
  "\<exists>v. poll_event (\<lambda>e. []) 64 5 0 [one_round] v \<noteq> Unfinished"
  using polls_return [of "[one_round]" 5 0 "\<lambda>e. []" 64] by (simp add: one_round_def)

end
