(* ===== verification/Viewer_Session.thy ===== *)
theory Viewer_Session
  imports Session_Properties Viewer_System
begin

text \<open>
  Both ends together: the client of \<open>connection.rs\<close> does to its framebuffer what the session counts on, so
  what a reachable session put on the wire ends up on the client's screen.
\<close>

section \<open>Errors are disconnects\<close>

text \<open>An error of an operation whose writer is open has been recorded there.\<close>

definition writer_tells :: "'a answer \<Rightarrow> bool" where
  "writer_tells a \<longleftrightarrow> ob_open (vw_writer (fst a)) \<and> (\<forall>e. snd a = Inl e \<longrightarrow> ob_error (vw_writer (fst a)) \<noteq> None)"

lemma writer_tells_done [simp]: "writer_tells (v, Inr x) \<longleftrightarrow> ob_open (vw_writer v)"
  by (simp add: writer_tells_def)

lemma writer_tells_bind:
  "writer_tells a \<Longrightarrow> (\<And>x v. ob_open (vw_writer v) \<Longrightarrow> writer_tells (f x v)) \<Longrightarrow> writer_tells (and_then a f)"
  by (cases a; cases "snd a") (auto simp: writer_tells_def and_then_def)

lemma viewer_send_tells: "ob_open (vw_writer v) \<Longrightarrow> writer_tells (viewer_send m v)"
proof (cases rule: outbound_send_cases [of "vw_writer v" "frame_message m []"])
  case (Failed r)
  then show "ob_open (vw_writer v) \<Longrightarrow> writer_tells (viewer_send m v)"
    by (auto simp: viewer_send_def writer_tells_def outbound_fail_def stop_io_def or_insert_def Let_def split: option.splits)
next
  case (Refused e)
  assume "ob_open (vw_writer v)"
  moreover have "ob_error (vw_writer v) \<noteq> None" if "ob_open (vw_writer v)"
  proof
    assume none: "ob_error (vw_writer v) = None"
    show False
    proof (cases "reserve (length (frame_message m [])) (vw_writer v)")
      case (Pair ok ob)
      have "fst (outbound_send (frame_message m []) (vw_writer v)) = vw_writer v" by (simp add: Refused)
      then show False using none that Pair Refused
        by (cases ok) (auto simp: outbound_send_def outbound_fail_def or_insert_def Let_def stop_io_def split: if_splits option.splits
            dest!: arg_cong [where f = ob_error])
    qed
  qed
  ultimately show "writer_tells (viewer_send m v)" by (simp add: viewer_send_def Refused writer_tells_def)
qed (simp add: viewer_send_def writer_tells_def)

lemma viewer_send_all_tells: "ob_open (vw_writer v) \<Longrightarrow> writer_tells (viewer_send_all ms v)"
  by (induction ms arbitrary: v) (auto intro!: writer_tells_bind viewer_send_tells)

lemma take_replies_tells: "ob_open (vw_writer v) \<Longrightarrow> writer_tells (take_replies ms v)"
proof (induction ms arbitrary: v)
  case (Cons m ms)
  have "ob_open (vw_writer (case m of TransferAccept i False reason \<Rightarrow> viewer_fail_transfer i reason v | _ \<Rightarrow> v))"
    using Cons.prems by (auto simp: viewer_fail_transfer_def push_event_def forget_transfer_def split: message.splits bool.splits)
  then have "writer_tells (take_reply m v)" unfolding take_reply_def by (rule viewer_send_tells)
  then show ?case using Cons.IH by (auto intro!: writer_tells_bind)
qed simp

lemma bookkeeping_writer:
  "vw_writer (viewer_fail_transfer i e v) = vw_writer v" "vw_writer (take_sent x v) = vw_writer v"
  "vw_writer (take_completed d v) = vw_writer v" "vw_writer (snd (pop_event v)) = vw_writer v"
  by (auto simp: viewer_fail_transfer_def push_event_def forget_transfer_def take_sent_def take_completed_def on_completed_def
      pop_event_def Let_def split: prod.splits transfer_purpose.splits option.splits list.splits)

lemma folds_writer:
  "vw_writer (fold (\<lambda>(i, e). viewer_fail_transfer i e) xs v) = vw_writer v"
  "vw_writer (fold take_sent ys v) = vw_writer v" "vw_writer (fold take_completed ds v) = vw_writer v"
proof -
  show "vw_writer (fold (\<lambda>(i, e). viewer_fail_transfer i e) xs v) = vw_writer v"
    by (induction xs arbitrary: v) (auto simp: bookkeeping_writer)
  show "vw_writer (fold take_sent ys v) = vw_writer v"
    by (induction ys arbitrary: v) (auto simp: bookkeeping_writer)
  show "vw_writer (fold take_completed ds v) = vw_writer v"
    by (induction ds arbitrary: v) (auto simp: bookkeeping_writer)
qed

lemma handle_transfer_tells:
  assumes "ob_open (vw_writer v)" "handle_transfer lw msg v = Some a"
  shows "writer_tells a"
proof -
  let ?h = "handle (client_accept (lw_create_dirs lw) (lw_create lw)) msg (vw_transfers v)
       \<lparr>cp_replacements = vw_replacements v, cp_downloads = vw_downloads v\<rparr>"
  obtain o' tm p where h: "?h = (o', tm, p)" using prod_cases3 by blast
  obtain out where out: "o' = Some out" using assms by (auto simp: handle_transfer_def h Let_def)
  let ?rest = "\<lambda>_ v. case pop_event (fold take_completed (completed out) (fold take_sent (sent out)
        (fold (\<lambda>(i, reason). viewer_fail_transfer i reason) (failed out) v))) of (ev, v) \<Rightarrow> (v, Inr ev)"
  have a: "a = and_then (take_replies (replies out) (v\<lparr>vw_transfers := tm, vw_downloads := cp_downloads p\<rparr>)) ?rest"
    using assms(2) by (simp add: handle_transfer_def h out Let_def)
  have "writer_tells (?rest x u)" if "ob_open (vw_writer u)" for x u
    using that bookkeeping_writer(4) [of "fold take_completed (completed out) (fold take_sent (sent out)
        (fold (\<lambda>(i, reason). viewer_fail_transfer i reason) (failed out) u))"]
    by (auto simp: folds_writer split: prod.splits)
  then show ?thesis unfolding a by (intro writer_tells_bind take_replies_tells) (simp_all add: assms(1))
qed

section \<open>The same screen\<close>

fun is_hello :: "message \<Rightarrow> bool" where
  "is_hello (ServerHello _ _ _ _ _ _ _) = True"
| "is_hello _ = False"

lemma viewer_offer_tells: "ob_open (vw_writer v) \<Longrightarrow> writer_tells (viewer_offer i purpose name len src v)"
  by (auto simp: viewer_offer_def intro!: viewer_send_tells split: prod.splits)

lemma file_request_tells: "ob_open (vw_writer v) \<Longrightarrow> writer_tells (viewer_file_request lw i path v)"
  unfolding viewer_file_request_def Let_def
  by (auto intro!: viewer_send_tells viewer_offer_tells split: option.splits sum.splits)

lemma clipboard_request_tells: "ob_open (vw_writer v) \<Longrightarrow> writer_tells (viewer_clipboard_request format v)"
  unfolding viewer_clipboard_request_def
  by (auto intro!: viewer_send_tells split: option.splits prod.splits)

lemma answered_tells: "writer_tells a \<Longrightarrow> writer_tells (answered ev a)"
  unfolding answered_def by (rule writer_tells_bind) simp_all

lemma clipboard_request_decoder: "vw_decoder (fst (viewer_clipboard_request format v)) = vw_decoder v"
  using clipboard_request_reads(1) [of format v, OF prod.collapse [symmetric]] by (simp add: same_offers_def)

lemma file_request_decoder: "vw_decoder (fst (viewer_file_request lw i path v)) = vw_decoder v"
  using file_request_reads [of lw i path v, OF prod.collapse [symmetric]] by (simp add: same_offers_def)

lemma viewer_message_shows:
  assumes w: "ob_open (vw_writer v)" "lw_compressors lw = cs" "\<not> is_hello m"
    and s: "show_message cs m (Some (vw_decoder v)) = Some (Some d)"
  shows "\<exists>v' r. viewer_message lw m v = Some (v', r) \<and> vw_decoder v' = d \<and> writer_tells (v', r)"
proof -
  have ans: "\<exists>v' r. viewer_message lw m v = Some (v', r) \<and> vw_decoder v' = d \<and> writer_tells (v', r)"
    if "viewer_message lw m v = Some (answered None a)" "writer_tells a" "vw_decoder (fst a) = d" for a
    using that answered_tells [OF that(2), of None] answered_fst [of None a] by (cases "answered None a") auto
  show ?thesis
  proof (cases "handle_transfer lw m v")
    case (Some a)
    obtain v' r where a: "a = (v', r)" by (cases a)
    have "vw_decoder v' = vw_decoder v"
      using handle_transfer_keeps [OF Some [unfolded a]] by (simp add: same_offers_def)
    moreover have "d = vw_decoder v" using s Some by (cases m) auto
    ultimately show ?thesis using Some a handle_transfer_tells [OF w(1) Some] by (simp add: viewer_message_def)
  next
    case None
    show ?thesis
    proof (cases m)
      case (ScreenUpdate fid copies tiles)
      then obtain r where r: "decoder_apply_frame cs copies tiles (vw_decoder v) = Some (d, Inr r)"
        using s by (auto split: option.splits prod.splits sum.splits)
      let ?u = "v\<lparr>vw_decoder := d, vw_frames_received := vw_frames_received v + 1\<rparr>"
      let ?a = "and_then (viewer_send (FrameAck fid) ?u) (\<lambda>_ v. (v, Inr (Some (E_Frame fid r))))"
      have "writer_tells ?a" by (rule writer_tells_bind) (simp_all add: viewer_send_tells w(1))
      moreover have "vw_decoder (fst ?a) = d" by (rule and_then_fst [where P = "\<lambda>u. vw_decoder u = d"]) simp_all
      ultimately show ?thesis using r w(2)
        by (cases ?a) (simp add: viewer_message_def ScreenUpdate viewer_screen_update_def)
    next
      case (ScreenResized width height)
      then show ?thesis using s w(1) by (auto simp: viewer_message_def)
    next
      case (FileRequest i path)
      then show ?thesis using s
        by (intro ans [of "viewer_file_request lw i path v"]) (simp_all add: viewer_message_def file_request_tells w file_request_decoder)
    next
      case (ClipboardRequest format)
      then show ?thesis using s
        by (intro ans [of "viewer_clipboard_request format v"])
          (simp_all add: viewer_message_def clipboard_request_tells w clipboard_request_decoder)
    next
      case (ClipboardOffer formats)
      have "vw_decoder (fst (viewer_clipboard_offer formats v)) = vw_decoder v"
        using viewer_send_all_offers [OF same_offers_refl, of v] by (simp add: viewer_clipboard_offer_def Let_def same_offers_def)
      then show ?thesis using s ClipboardOffer
        by (intro ans [of "viewer_clipboard_offer formats v"])
          (simp_all add: viewer_message_def viewer_clipboard_offer_def Let_def viewer_send_all_tells w)
    next
      case (Ping nonce)
      then show ?thesis using s
        by (intro ans [of "viewer_send (Pong nonce) v"]) (simp_all add: viewer_message_def viewer_send_tells w)
    qed (use s w None in \<open>auto simp: viewer_message_def viewer_pong_def Let_def\<close>)
  qed
qed

lemma viewer_handle_shows:
  assumes "ob_open (vw_writer v)" "lw_compressors lw = cs" "\<not> is_hello m"
    and "show_message cs m (Some (vw_decoder v)) = Some (Some d)"
  shows "\<exists>v' ev. viewer_handle lw m v = Some (v', Inr ev) \<and> vw_decoder v' = d \<and> ob_open (vw_writer v')"
proof -
  obtain v1 r where m: "viewer_message lw m v = Some (v1, r)" "vw_decoder v1 = d" "writer_tells (v1, r)"
    using viewer_message_shows [OF assms] by blast
  then show ?thesis by (cases r) (auto simp: viewer_handle_def writer_tells_def)
qed

text \<open>The client handles a list of messages.\<close>

primrec handle_all :: "local_world \<Rightarrow> message list \<Rightarrow> viewer \<Rightarrow> viewer option" where
  "handle_all lw [] v = Some v"
| "handle_all lw (m # ms) v =
     (case viewer_handle lw m v of Some (v', Inr ev) \<Rightarrow> handle_all lw ms v' | _ \<Rightarrow> None)"

lemma show_message_some: "show_message cs m (Some d) = Some x \<Longrightarrow> \<exists>d'. x = Some d'"
  by (cases m) (auto split: option.splits prod.splits sum.splits)

lemma handle_all_shows:
  assumes "lw_compressors lw = cs"
  shows "ob_open (vw_writer v) \<Longrightarrow> \<forall>m \<in> set ms. \<not> is_hello m \<Longrightarrow>
    show_messages cs ms (Some (vw_decoder v)) = Some (Some d) \<Longrightarrow>
    \<exists>v'. handle_all lw ms v = Some v' \<and> vw_decoder v' = d"
proof (induction ms arbitrary: v)
  case (Cons m ms)
  obtain x where x: "show_message cs m (Some (vw_decoder v)) = Some x" "show_messages cs ms x = Some (Some d)"
    using Cons.prems(3) by (cases "show_message cs m (Some (vw_decoder v))") (simp_all add: show_messages_def)
  obtain d1 where d1: "x = Some d1" using show_message_some [OF x(1)] by blast
  obtain v1 ev where "viewer_handle lw m v = Some (v1, Inr ev)" "vw_decoder v1 = d1" "ob_open (vw_writer v1)"
    using viewer_handle_shows [OF Cons.prems(1) assms, of m d1] Cons.prems(2) x(1) d1 by auto
  then show ?case using Cons.IH [of v1] Cons.prems(2) x(2) d1 by simp
qed (simp add: show_messages_def)

section \<open>Properties\<close>

text \<open>
  C1. The user sees the session: take any reachable session with a greeted client that was not lost, and
  a client of \<open>connection.rs\<close> that has processed what came before. Once it has handled what is on the wire
  and in the queue, none of it an error, its framebuffer shows every pixel the session's encoder counts as
  shown.
\<close>

theorem viewer_follows_session:
  fixes v :: viewer
  assumes "running_session cs server_name show_kind s"
    and "co_client (ss_core s) = Some c" "cl_ready c" "\<not> cl_dead c"
    and "ss_decoder s = Some (vw_decoder v)" "ob_open (vw_writer v)" "lw_compressors lw = cs"
    and "\<forall>m \<in> set (ss_wire s @ cl_queue c). \<not> is_hello m"
  shows "\<exists>v'. handle_all lw (ss_wire s @ cl_queue c) v = Some v' \<and>
    in_sync (enc_prev (co_encoder (ss_core s))) (dec_fb (vw_decoder v'))"
proof -
  obtain d where "show_messages cs (ss_wire s @ cl_queue c) (Some (vw_decoder v)) = Some (Some d)"
    "in_sync (enc_prev (co_encoder (ss_core s))) (dec_fb d)"
    using running.inv_reach [OF assms(1)] assms(2-5)
    by (auto simp: session_ok_def session_good_def good_def follows_def leads_to_def)
  then show ?thesis using handle_all_shows [OF assms(7,6,8)] by metis
qed

theorem viewer_follows_session_witness:
  "\<exists>s c v v'. running_session run_length_libraries [] (\<lambda>_. []) s \<and> co_client (ss_core s) = Some c \<and> cl_ready c \<and>
    ss_decoder s = Some (vw_decoder v) \<and> handle_all quiet_local (ss_wire s @ cl_queue c) v = Some v' \<and>
    in_sync (enc_prev (co_encoder (ss_core s))) (dec_fb (vw_decoder v'))"
proof -
  let ?run = "running_session run_length_libraries [] (\<lambda>_. [])"
  let ?step = "\<lambda>s t. compressors_ok run_length_libraries \<and> session_step run_length_libraries [] (\<lambda>_. []) s t"
  obtain s c where s: "?run s" "co_client (ss_core s) = Some c" "cl_ready c" "\<not> cl_dead c" "cl_queue c = [small_hello]"
    "ss_wire s = []" "ss_decoder s = None"
    using small_session by blast
  let ?c = "c\<lparr>cl_queue := []\<rparr>"
  let ?t = "s\<lparr>ss_core := (ss_core s)\<lparr>co_client := Some ?c\<rparr>, ss_wire := ss_wire s @ [small_hello]\<rparr>"
  have t: "?run ?t" using reach_step [OF s(1), of ?t] session_step.written [OF s(2,5)] run_length_libraries_ok by blast
  let ?u = "?t\<lparr>ss_wire := [], ss_decoder := Some (decoder_new 1 1)\<rparr>"
  have "session_step run_length_libraries [] (\<lambda>_. []) ?t ?u"
    by (rule session_step.shown [where m = small_hello]) (simp_all add: s small_hello_def)
  then have u: "?run ?u" using reach_step [OF t, of ?u] run_length_libraries_ok by blast
  let ?v = "viewer_new 0 [] \<lparr>si_server_name = ''s'', si_features = 0, si_session_id = 7, si_username = ''u''\<rparr> 1 1"
  have f: "co_client (ss_core ?u) = Some ?c" "cl_ready ?c" "\<not> cl_dead ?c" "ss_decoder ?u = Some (vw_decoder ?v)"
    "ob_open (vw_writer ?v)" "lw_compressors quiet_local = run_length_libraries"
    "\<forall>m \<in> set (ss_wire ?u @ cl_queue ?c). \<not> is_hello m"
    using s by (simp_all add: viewer_new_def outbound_new_def quiet_local_def)
  obtain v' where "handle_all quiet_local (ss_wire ?u @ cl_queue ?c) ?v = Some v'"
    "in_sync (enc_prev (co_encoder (ss_core ?u))) (dec_fb (vw_decoder v'))"
    using viewer_follows_session [OF u f] by (elim exE conjE)
  then show ?thesis using u f(1,2,4)
    by (intro exI [of _ ?u] exI [of _ ?c] exI [of _ ?v] exI [of _ v'] conjI)
qed

end
