(* ===== verification/Keysym.thy ===== *)
theory Keysym
  imports Lynx_Prelude
begin

text \<open>
  \<open>crates/proto/src/keysym.rs\<close>: X11 keysyms and the characters they spell. A character is its code
  point. \<open>unicode\<close> holds the tables of the standard library's \<open>char\<close> and \<open>key_char\<close> of the \<open>xkeysym\<close>
  package.
\<close>

section \<open>Characters\<close>

record unicode =
  un_lower :: "u32 \<Rightarrow> bool"
  un_upper :: "u32 \<Rightarrow> bool"
  un_to_upper :: "u32 \<Rightarrow> u32 list"
  un_to_lower :: "u32 \<Rightarrow> u32 list"
  un_legacy :: "u32 \<Rightarrow> u32 option"

text \<open>\<open>char::from_u32\<close> takes the Unicode scalar values; \<open>char::is_control\<close> is the category \<open>Cc\<close>.\<close>

definition is_scalar :: "u32 \<Rightarrow> bool" where
  "is_scalar c \<longleftrightarrow> c < 0xD800 \<or> 0xE000 \<le> c \<and> c \<le> 0x10FFFF"

definition char_from_u32 :: "u32 \<Rightarrow> u32 option" where
  "char_from_u32 c = (if is_scalar c then Some c else None)"

definition is_control :: "u32 \<Rightarrow> bool" where
  "is_control c \<longleftrightarrow> c < 0x20 \<or> 0x7F \<le> c \<and> c \<le> 0x9F"

definition keep_if :: "('a \<Rightarrow> bool) \<Rightarrow> 'a option \<Rightarrow> 'a option" where
  "keep_if p o' = (case o' of Some x \<Rightarrow> if p x then Some x else None | None \<Rightarrow> None)"

section \<open>Keysyms\<close>

definition BACKSPACE :: u32 where "BACKSPACE = 0xff08"
definition TAB :: u32 where "TAB = 0xff09"
definition RETURN :: u32 where "RETURN = 0xff0d"
definition ESCAPE :: u32 where "ESCAPE = 0xff1b"
definition DELETE :: u32 where "DELETE = 0xffff"
definition NUM_LOCK :: u32 where "NUM_LOCK = 0xff7f"
definition F1 :: u32 where "F1 = 0xffbe"
definition SHIFT_L :: u32 where "SHIFT_L = 0xffe1"
definition SHIFT_R :: u32 where "SHIFT_R = 0xffe2"
definition CONTROL_L :: u32 where "CONTROL_L = 0xffe3"
definition CONTROL_R :: u32 where "CONTROL_R = 0xffe4"
definition CAPS_LOCK :: u32 where "CAPS_LOCK = 0xffe5"
definition ALT_L :: u32 where "ALT_L = 0xffe9"
definition ALT_R :: u32 where "ALT_R = 0xffea"
definition SUPER_L :: u32 where "SUPER_L = 0xffeb"
definition SUPER_R :: u32 where "SUPER_R = 0xffec"
definition ISO_LEVEL3_SHIFT :: u32 where "ISO_LEVEL3_SHIFT = 0xfe03"

definition latin1 :: "u32 \<Rightarrow> bool" where
  "latin1 c \<longleftrightarrow> 0x20 \<le> c \<and> c \<le> 0x7e \<or> 0xa0 \<le> c \<and> c \<le> 0xff"

definition keysym_from_char :: "u32 \<Rightarrow> u32" where
  "keysym_from_char cp =
     (if latin1 cp then cp
      else if cp = 0x08 then BACKSPACE
      else if cp = 0x09 then TAB
      else if cp = 0x0d \<or> cp = 0x0a then RETURN
      else if cp = 0x1b then ESCAPE
      else if cp = 0x7f then DELETE
      else 0x01000000 OR cp)"

definition char_from_keysym :: "unicode \<Rightarrow> u32 \<Rightarrow> u32 option" where
  "char_from_keysym un ks =
     (if latin1 ks then char_from_u32 ks
      else if 0x0100 \<le> ks \<and> ks \<le> 0x20ff then keep_if (\<lambda>c. \<not> is_control c) (un_legacy un ks)
      else if 0x01000000 \<le> ks \<and> ks \<le> 0x0110FFFF
      then keep_if (\<lambda>c. \<not> is_control c) (char_from_u32 (ks AND 0x00FFFFFF))
      else None)"

definition function_key :: "u32 \<Rightarrow> u32 option" where
  "function_key n = (if 1 \<le> n \<and> n \<le> 35 then Some (F1 + n - 1) else None)"

definition is_modifier :: "u32 \<Rightarrow> bool" where
  "is_modifier ks \<longleftrightarrow> ks \<in> {SHIFT_L, SHIFT_R, CONTROL_L, CONTROL_R, CAPS_LOCK, ALT_L, ALT_R, SUPER_L, SUPER_R,
     ISO_LEVEL3_SHIFT, NUM_LOCK}"

section \<open>Round trips\<close>

text \<open>What the tables promise: the legacy keysyms spell characters.\<close>

definition unicode_ok :: "unicode \<Rightarrow> bool" where
  "unicode_ok un \<longleftrightarrow> (\<forall>ks c. un_legacy un ks = Some c \<longrightarrow> is_scalar c)"

lemma or_top_bit:
  fixes c :: "'a :: len word"
  assumes c: "take_bit n c = c"
  shows "push_bit n 1 OR c = push_bit n 1 + c" "take_bit n (push_bit n 1 OR c) = c"
proof -
  have "push_bit n 1 AND c = push_bit n 1 AND take_bit n c" using c by simp
  also have "\<dots> = 0" by (rule bit_word_eqI) (auto simp: bit_simps)
  finally show "push_bit n 1 OR c = push_bit n 1 + c" by (simp add: disjunctive_add_eq_or)
  have "take_bit n (push_bit n 1 OR c) = take_bit n c" by (rule bit_word_eqI) (auto simp: bit_simps)
  then show "take_bit n (push_bit n 1 OR c) = c" using c by simp
qed

lemma or_plane:
  fixes c :: u32
  assumes "c < 0x01000000"
  shows "0x01000000 OR c = 0x01000000 + c" "(0x01000000 OR c) AND 0x00FFFFFF = c"
proof -
  have "unat c < 2 ^ 24" using assms by (simp add: word_less_nat_alt)
  then have c: "take_bit 24 c = c" by (simp add: word_unat_eq_iff unsigned_take_bit_eq take_bit_nat_eq_self)
  have one: "push_bit 24 (1 :: u32) = 0x01000000" by simp
  have mask: "take_bit 24 x = x AND 0x00FFFFFF" for x :: u32
    by (simp add: take_bit_eq_mask mask_eq_exp_minus_1)
  show "0x01000000 OR c = 0x01000000 + c" "(0x01000000 OR c) AND 0x00FFFFFF = c"
    using or_top_bit [OF c] unfolding one mask by simp_all
qed

lemma keysym_of_latin1 [simp]: "latin1 c \<Longrightarrow> keysym_from_char c = c"
  by (simp add: keysym_from_char_def)

lemma latin1_bounds: "latin1 c \<Longrightarrow> 0x20 \<le> c \<and> c \<le> 0xff"
  by (auto simp: latin1_def word_le_nat_alt)

lemma latin1_spells: "latin1 c \<Longrightarrow> char_from_keysym un c = Some c"
proof -
  assume l: "latin1 c"
  then have "c < 0xD800" using latin1_bounds [OF l] by (simp add: word_le_nat_alt word_less_nat_alt)
  then show ?thesis using l by (simp add: char_from_keysym_def char_from_u32_def is_scalar_def)
qed

text \<open>A character that is not a control code is spelled back by its keysym.\<close>

lemma keysym_spells:
  assumes "is_scalar c" "\<not> is_control c"
  shows "char_from_keysym un (keysym_from_char c) = Some c"
proof (cases "latin1 c")
  case True
  then show ?thesis by (simp add: latin1_spells)
next
  case False
  have small: "c < 0x01000000" "c \<le> 0x10FFFF"
    using assms(1) by (auto simp: is_scalar_def word_less_nat_alt word_le_nat_alt)
  have ks: "keysym_from_char c = 0x01000000 + c"
    using assms False or_plane(1) [OF small(1)]
    by (auto simp: keysym_from_char_def is_control_def latin1_def word_less_nat_alt word_le_nat_alt)
  have u: "unat (0x01000000 + c) = 0x01000000 + unat c"
    using small(1) by (simp add: unat_word_ariths word_less_nat_alt)
  have "char_from_keysym un (0x01000000 + c) = keep_if (\<lambda>c. \<not> is_control c) (char_from_u32 c)"
    using small(2) or_plane [OF small(1)]
    by (simp add: char_from_keysym_def latin1_def word_le_nat_alt u)
  then show ?thesis unfolding ks using assms by (simp add: char_from_u32_def keep_if_def)
qed

lemma char_from_keysym_scalar:
  assumes "unicode_ok un" "char_from_keysym un ks = Some c"
  shows "is_scalar c \<and> \<not> is_control c"
proof (cases "latin1 ks")
  case True
  then have "c = ks" using latin1_spells [OF True] assms(2) by simp
  then show ?thesis using True assms(2)
    by (auto simp: latin1_def is_scalar_def is_control_def word_le_nat_alt word_less_nat_alt)
next
  case False
  then show ?thesis using assms
    by (auto simp: char_from_keysym_def keep_if_def char_from_u32_def unicode_ok_def split: if_splits option.splits)
qed

end
