(* ===== verification/Keymap.thy ===== *)
theory Keymap
  imports Keysym "HOL-Library.Product_Lexorder"
begin

text \<open>
  The keyboard mapping of \<open>crates/server/src/x11/input.rs\<close>: where the X server has a keysym, and which
  modifiers a press of it needs. \<open>server_types\<close> restates what an X server makes of a key press, and the
  lemmas show that a location and its modifier plan type the keysym that was looked up.
\<close>

section \<open>Case counterparts\<close>

datatype lock = No_Lock | Caps_Lock | Num_Lock

record key_location =
  kl_keycode :: u8
  kl_level :: u8
  kl_lock :: lock

record keymap =
  km_min :: u8
  km_max :: u8
  km_per :: u8
  km_syms :: "u32 list"
  km_lookup :: "u32 \<Rightarrow> key_location list option"

definition keymap_default :: keymap where
  "keymap_default = \<lparr>km_min = 0, km_max = 0, km_per = 0, km_syms = [], km_lookup = \<lambda>_. None\<rparr>"

definition single_char :: "u32 list \<Rightarrow> u32 option" where
  "single_char cs = (case cs of [c] \<Rightarrow> Some c | _ \<Rightarrow> None)"

definition case_keysym :: "(u32 \<Rightarrow> bool) \<Rightarrow> (u32 \<Rightarrow> u32 list) \<Rightarrow> unicode \<Rightarrow> u32 \<Rightarrow> u32 option" where
  "case_keysym has_case other un ks =
     (case char_from_keysym un ks of
        None \<Rightarrow> None
      | Some c \<Rightarrow> if \<not> has_case c then None
                 else map_option keysym_from_char (keep_if (\<lambda>u. u \<noteq> c) (single_char (other c))))"

definition uppercase_keysym :: "unicode \<Rightarrow> u32 \<Rightarrow> u32 option" where
  "uppercase_keysym un ks = case_keysym (un_lower un) (un_to_upper un) un ks"

definition lowercase_keysym :: "unicode \<Rightarrow> u32 \<Rightarrow> u32 option" where
  "lowercase_keysym un ks = case_keysym (un_upper un) (un_to_lower un) un ks"

definition is_keypad :: "u32 \<Rightarrow> bool" where
  "is_keypad ks \<longleftrightarrow> 0xff80 \<le> ks \<and> ks \<le> 0xffbd"

definition canonical :: "unicode \<Rightarrow> u32 \<Rightarrow> u32" where
  "canonical un ks = (case char_from_keysym un ks of Some c \<Rightarrow> keysym_from_char c | None \<Rightarrow> ks)"

definition pair_lock :: "unicode \<Rightarrow> u32 \<Rightarrow> u32 \<Rightarrow> lock" where
  "pair_lock un a b =
     (if is_keypad a \<or> is_keypad b then Num_Lock
      else if b \<noteq> 0 \<and> uppercase_keysym un a = Some (canonical un b) then Caps_Lock
      else No_Lock)"

section \<open>Reading the keyboard mapping\<close>

definition key_row :: "nat \<Rightarrow> u32 list \<Rightarrow> nat \<Rightarrow> u32 list" where
  "key_row per syms i = (if (i + 1) * per \<le> length syms then take per (drop (i * per) syms) else [])"

definition col :: "u32 list \<Rightarrow> nat \<Rightarrow> u32" where
  "col r i = (if i < length r then r ! i else 0)"

definition two_groups :: "nat \<Rightarrow> nat \<Rightarrow> u32 list \<Rightarrow> bool" where
  "two_groups count per syms \<longleftrightarrow> list_ex (\<lambda>i. let r = key_row per syms i; g2 = (col r 2, col r 3)
      in g2 \<noteq> (0, 0) \<and> g2 \<noteq> (col r 0, col r 1)) [0..<count]"

definition has_level3 :: "nat \<Rightarrow> nat \<Rightarrow> u32 list \<Rightarrow> bool" where
  "has_level3 count per syms \<longleftrightarrow> list_ex (\<lambda>i. col (key_row per syms i) 0 = ISO_LEVEL3_SHIFT) [0..<count]"

text \<open>The second keysym of a row: a lone lowercase letter has its uppercase there.\<close>

definition shifted_sym :: "unicode \<Rightarrow> u32 list \<Rightarrow> u32" where
  "shifted_sym un r =
     (let shifted = col r 1
      in if shifted = 0 \<and> list_all (\<lambda>s. s = 0) (drop 1 r)
         then (case uppercase_keysym un (col r 0) of Some up \<Rightarrow> up | None \<Rightarrow> shifted) else shifted)"

text \<open>The two pairs of levels of a row, with the level each starts at.\<close>

definition row_pairs :: "unicode \<Rightarrow> bool \<Rightarrow> u32 list \<Rightarrow> ((u32 \<times> u32) \<times> u8) list" where
  "row_pairs un third_level r =
     [((col r 0, shifted_sym un r), 0), (if third_level then (col r 4, col r 5) else (0, 0), 2)]"

definition pair_entries :: "unicode \<Rightarrow> u8 \<Rightarrow> (u32 \<times> u32) \<times> u8 \<Rightarrow> (u32 \<times> key_location) list" where
  "pair_entries un keycode = (\<lambda>((a, b), base).
     let l = pair_lock un a b
     in (if a = 0 then [] else [(a, \<lparr>kl_keycode = keycode, kl_level = base, kl_lock = l\<rparr>)]) @
        (if b = 0 then [] else [(b, \<lparr>kl_keycode = keycode, kl_level = base + 1, kl_lock = l\<rparr>)]))"

definition push_entry :: "unicode \<Rightarrow> u32 \<times> key_location \<Rightarrow> (u32 \<Rightarrow> key_location list option) \<Rightarrow> u32 \<Rightarrow> key_location list option" where
  "push_entry un = (\<lambda>(ks, loc) lookup.
     lookup(canonical un ks \<mapsto> (case lookup (canonical un ks) of None \<Rightarrow> [] | Some v \<Rightarrow> v) @ [loc]))"

definition key_count :: "u8 \<Rightarrow> u8 \<Rightarrow> nat" where
  "key_count mn mx = unat mx - unat mn + 1"

definition level3_readable :: "nat \<Rightarrow> nat \<Rightarrow> u32 list \<Rightarrow> bool" where
  "level3_readable count per syms \<longleftrightarrow> \<not> (two_groups count per syms \<or> \<not> has_level3 count per syms)"

definition from_reply :: "unicode \<Rightarrow> u8 \<Rightarrow> u8 \<Rightarrow> u8 \<Rightarrow> u32 list \<Rightarrow> keymap" where
  "from_reply un mn mx per_keycode syms =
     (let per = unat per_keycode; count = key_count mn mx;
          third = level3_readable count per syms;
          lookup = fold (\<lambda>i. fold (\<lambda>pair. fold (push_entry un) (pair_entries un (mn + of_nat i) pair))
                                 (row_pairs un third (key_row per syms i)))
                        [0..<count] (\<lambda>_. None);
          sorted = (\<lambda>k. map_option (sort_key (\<lambda>l. (kl_level l, kl_keycode l))) (lookup k))
      in \<lparr>km_min = mn, km_max = mx, km_per = per_keycode, km_syms = syms, km_lookup = sorted\<rparr>)"

definition find_key :: "unicode \<Rightarrow> u32 \<Rightarrow> keymap \<Rightarrow> key_location option" where
  "find_key un ks km =
     Option.bind (km_lookup km (canonical un ks)) (\<lambda>v. case v of l # _ \<Rightarrow> Some l | [] \<Rightarrow> None)"

definition plain_keycode :: "unicode \<Rightarrow> u32 \<Rightarrow> keymap \<Rightarrow> u8 option" where
  "plain_keycode un ks km =
     Option.bind (km_lookup km (canonical un ks)) (\<lambda>v. map_option kl_keycode (List.find (\<lambda>l. kl_level l = 0) v))"

text \<open>\<open>None\<close>: the table is shorter than its keycodes, and slicing it panics.\<close>

definition spare_keycodes :: "keymap \<Rightarrow> u8 list option" where
  "spare_keycodes km =
     (let per = unat (km_per km); count = key_count (km_min km) (km_max km)
      in if length (km_syms km) < count * per then None
         else Some (map (\<lambda>i. km_min km + of_nat i)
                (filter (\<lambda>i. list_all (\<lambda>s. s = 0) (take per (drop (i * per) (km_syms km)))) (rev [0..<count]))))"

section \<open>Modifiers around a press\<close>

record modifier_plan =
  press_shift :: bool
  release_shift :: bool
  press_level3 :: bool

definition plan_modifiers :: "key_location \<Rightarrow> bool \<Rightarrow> bool \<Rightarrow> bool \<Rightarrow> bool \<Rightarrow> bool \<Rightarrow> modifier_plan" where
  "plan_modifiers loc is_mod shift_held level3_held caps_on num_on =
     (let lock_on = (case kl_lock loc of No_Lock \<Rightarrow> False | Caps_Lock \<Rightarrow> caps_on | Num_Lock \<Rightarrow> num_on);
          want_shift = ((kl_level loc AND 1 = 1) \<noteq> lock_on);
          want_level3 = (kl_level loc AND 2 = 2)
      in \<lparr>press_shift = (want_shift \<and> \<not> shift_held),
          release_shift = (\<not> want_shift \<and> shift_held \<and> \<not> is_mod),
          press_level3 = (want_level3 \<and> \<not> level3_held)\<rparr>)"

section \<open>The lookup table\<close>

lemma canonical_idem [simp]: "unicode_ok un \<Longrightarrow> canonical un (canonical un ks) = canonical un ks"
proof (cases "char_from_keysym un ks")
  case (Some c)
  assume "unicode_ok un"
  then have "char_from_keysym un (keysym_from_char c) = Some c"
    using char_from_keysym_scalar Some keysym_spells by blast
  then show ?thesis by (simp add: canonical_def Some)
qed (simp add: canonical_def)

definition row_entries :: "unicode \<Rightarrow> bool \<Rightarrow> u8 \<Rightarrow> u32 list \<Rightarrow> (u32 \<times> key_location) list" where
  "row_entries un third keycode r = concat (map (pair_entries un keycode) (row_pairs un third r))"

definition reply_entries :: "unicode \<Rightarrow> u8 \<Rightarrow> u8 \<Rightarrow> u8 \<Rightarrow> u32 list \<Rightarrow> (u32 \<times> key_location) list" where
  "reply_entries un mn mx per syms =
     (let count = key_count mn mx
      in concat (map (\<lambda>i. row_entries un (level3_readable count (unat per) syms) (mn + of_nat i) (key_row (unat per) syms i))
           [0..<count]))"

lemma fold_concat_map: "fold (\<lambda>x. fold f (g x)) xs s = fold f (concat (map g xs)) s"
  by (induction xs arbitrary: s) simp_all

text \<open>Pushing entries one by one collects, under each keysym, its locations in order.\<close>

lemma fold_push_entry:
  "fold (push_entry un) es lookup k =
     (let ls = map snd (filter (\<lambda>e. canonical un (fst e) = k) es)
      in if ls = [] then lookup k else Some ((case lookup k of None \<Rightarrow> [] | Some v \<Rightarrow> v) @ ls))"
proof (induction es arbitrary: lookup)
  case (Cons e es)
  show ?case unfolding fold_simps comp_def Cons.IH
    by (cases e) (auto simp: push_entry_def Let_def split: option.splits)
qed simp

definition locations_of :: "unicode \<Rightarrow> u32 \<Rightarrow> (u32 \<times> key_location) list \<Rightarrow> key_location list" where
  "locations_of un k es = map snd (filter (\<lambda>e. canonical un (fst e) = k) es)"

lemma locations_of_mem: "l \<in> set (locations_of un k es) \<longleftrightarrow> (\<exists>s. (s, l) \<in> set es \<and> canonical un s = k)"
  by (force simp: locations_of_def)

lemma from_reply_lookup:
  "km_lookup (from_reply un mn mx per syms) k =
     (let ls = locations_of un k (reply_entries un mn mx per syms)
      in if ls = [] then None else Some (sort_key (\<lambda>l. (kl_level l, kl_keycode l)) ls))"
proof -
  have "fold (\<lambda>i. fold (\<lambda>pair. fold (push_entry un) (pair_entries un (mn + of_nat i) pair)) (row_pairs un third (row i))) xs s
      = fold (push_entry un) (concat (map (\<lambda>i. row_entries un third (mn + of_nat i) (row i)) xs)) s" for third row xs s
    by (induction xs arbitrary: s) (simp_all add: fold_concat_map row_entries_def)
  then show ?thesis by (simp add: from_reply_def reply_entries_def Let_def fold_push_entry locations_of_def)
qed

lemma from_reply_fields [simp]:
  "km_min (from_reply un mn mx per syms) = mn" "km_max (from_reply un mn mx per syms) = mx"
  "km_per (from_reply un mn mx per syms) = per" "km_syms (from_reply un mn mx per syms) = syms"
  by (simp_all add: from_reply_def Let_def)

lemma sort_key_hd_le:
  assumes "sort_key f ls = x # xs" "y \<in> set ls"
  shows "x \<in> set ls" "f x \<le> f y"
proof -
  have s: "set (x # xs) = set ls" using assms(1) by (metis set_sort)
  then show "x \<in> set ls" by auto
  have "sorted (map f (x # xs))" using assms(1) by (metis sorted_sort_key)
  then show "f x \<le> f y" using assms(2) s by auto
qed

text \<open>A lookup finds the location with the lowest level, then keycode, and finds one if there is one.\<close>

lemma find_key_first:
  assumes "(s, l') \<in> set (reply_entries un mn mx per syms)" "canonical un s = canonical un ks"
  shows "\<exists>l. find_key un ks (from_reply un mn mx per syms) = Some l \<and> (kl_level l, kl_keycode l) \<le> (kl_level l', kl_keycode l')"
proof -
  let ?ls = "locations_of un (canonical un ks) (reply_entries un mn mx per syms)"
  let ?f = "\<lambda>l. (kl_level l, kl_keycode l)"
  have l': "l' \<in> set ?ls" using assms by (auto simp: locations_of_mem)
  then have "sort_key ?f ?ls \<noteq> []" by (metis set_sort empty_iff list.set(1))
  then obtain x xs where x: "sort_key ?f ?ls = x # xs" by (cases "sort_key ?f ?ls") auto
  have "find_key un ks (from_reply un mn mx per syms) = Some x"
    using l' by (auto simp: find_key_def from_reply_lookup Let_def x)
  then show ?thesis using sort_key_hd_le(2) [OF x l'] by blast
qed

lemma lookup_entry:
  assumes "km_lookup (from_reply un mn mx per syms) k = Some ls" "l \<in> set ls"
  shows "\<exists>s. (s, l) \<in> set (reply_entries un mn mx per syms) \<and> canonical un s = k"
  using assms by (auto simp: from_reply_lookup Let_def locations_of_mem split: if_splits)

section \<open>What the server types\<close>

text \<open>
  A key press with Shift, Level 3 and the locks in a given state: the pair of levels is that of the
  group or of level 3, and Shift picks from it, inverted while the lock of the pair is on.
\<close>

record key_state =
  st_shift :: bool
  st_level3 :: bool
  st_caps :: bool
  st_num :: bool

definition lock_on :: "lock \<Rightarrow> key_state \<Rightarrow> bool" where
  "lock_on l st = (case l of No_Lock \<Rightarrow> False | Caps_Lock \<Rightarrow> st_caps st | Num_Lock \<Rightarrow> st_num st)"

definition level_pair :: "unicode \<Rightarrow> bool \<Rightarrow> u32 list \<Rightarrow> bool \<Rightarrow> u32 \<times> u32" where
  "level_pair un third r level3 =
     (if \<not> level3 then (col r 0, shifted_sym un r) else if third then (col r 4, col r 5) else (0, 0))"

definition map_third :: "keymap \<Rightarrow> bool" where
  "map_third km = level3_readable (key_count (km_min km) (km_max km)) (unat (km_per km)) (km_syms km)"

definition code_row :: "keymap \<Rightarrow> u8 \<Rightarrow> u32 list" where
  "code_row km kc = key_row (unat (km_per km)) (km_syms km) (unat (kc - km_min km))"

definition server_types :: "unicode \<Rightarrow> keymap \<Rightarrow> key_state \<Rightarrow> u8 \<Rightarrow> u32" where
  "server_types un km st kc =
     (case level_pair un (map_third km) (code_row km kc) (st_level3 st) of
        (a, b) \<Rightarrow> if st_shift st \<noteq> lock_on (pair_lock un a b) st then b else a)"

text \<open>
  A location tells the truth about a keysym: its level holds it, and its lock is that of the pair unless
  the lock makes no difference.
\<close>

definition true_location :: "unicode \<Rightarrow> keymap \<Rightarrow> u32 \<Rightarrow> key_location \<Rightarrow> bool" where
  "true_location un km k l \<longleftrightarrow>
     (let third = kl_level l AND 2 = 2
      in case level_pair un (map_third km) (code_row km (kl_keycode l)) third of
        (a, b) \<Rightarrow> (a = b \<or> kl_lock l = pair_lock un a b) \<and> canonical un (if kl_level l AND 1 = 1 then b else a) = k)"

lemma keycode_index:
  assumes "i < key_count mn mx" "mn \<le> mx"
  shows "unat (mn + of_nat i - mn) = i"
proof -
  have "key_count mn mx \<le> 256" using unsigned_less [of mx, where ?'a = nat] by (simp add: key_count_def)
  then show ?thesis using assms by (simp add: unat_of_nat)
qed

lemma reply_entry_true:
  assumes "(s, l) \<in> set (reply_entries un mn mx per syms)" "mn \<le> mx"
  shows "true_location un (from_reply un mn mx per syms) (canonical un s) l"
proof -
  let ?third = "level3_readable (key_count mn mx) (unat per) syms"
  obtain i where i: "i < key_count mn mx" "(s, l) \<in> set (row_entries un ?third (mn + of_nat i) (key_row (unat per) syms i))"
    using assms(1) by (auto simp: reply_entries_def Let_def)
  have "code_row (from_reply un mn mx per syms) (mn + of_nat i) = key_row (unat per) syms i"
    using keycode_index [OF i(1) assms(2)] by (simp add: code_row_def)
  moreover have "map_third (from_reply un mn mx per syms) = ?third" by (simp add: map_third_def)
  ultimately have rows: "level_pair un (map_third (from_reply un mn mx per syms))
      (code_row (from_reply un mn mx per syms) (mn + of_nat i)) level3 = level_pair un ?third (key_row (unat per) syms i) level3"
    for level3 by simp
  let ?r = "key_row (unat per) syms i"
  obtain a b base where p: "((a, b), base) \<in> set (row_pairs un ?third ?r)"
    and e: "(s, l) \<in> set (pair_entries un (mn + of_nat i) ((a, b), base))"
    using i(2) by (auto simp: row_entries_def)
  have base: "base AND 2 = 2 \<longleftrightarrow> base = 2" "base AND 1 = 0" "(base + 1) AND 1 = 1"
      "(base + 1) AND 2 = base AND 2" and pair: "level_pair un ?third ?r (base = 2) = (a, b)"
    using p by (auto simp: row_pairs_def level_pair_def split: if_splits)
  have l: "kl_keycode l = mn + of_nat i" "kl_lock l = pair_lock un a b" "s \<noteq> 0"
      "kl_level l = base \<and> s = a \<or> kl_level l = base + 1 \<and> s = b"
    using e by (auto simp: pair_entries_def Let_def split: if_splits)
  have ne: "base \<noteq> base + 1" "(0 :: u8) \<noteq> 1" by simp_all
  have third: "kl_level l AND 2 = 2 \<longleftrightarrow> base = 2" and one: "kl_level l AND 1 = 1 \<longleftrightarrow> kl_level l = base + 1"
    using l(4) base ne by metis+
  show ?thesis
    unfolding true_location_def Let_def l(1) rows third pair using l base by (auto simp: one)
qed

text \<open>The modifier plan of a true location types its keysym.\<close>

lemma plan_types:
  assumes l: "true_location un km k l" and l3: "st_level3 st \<longrightarrow> kl_level l AND 2 = 2"
    and plan: "plan = plan_modifiers l False (st_shift st) (st_level3 st) (st_caps st) (st_num st)"
  shows "canonical un (server_types un km
     (st\<lparr>st_shift := (st_shift st \<or> press_shift plan) \<and> \<not> release_shift plan, st_level3 := st_level3 st \<or> press_level3 plan\<rparr>)
     (kl_keycode l)) = k"
proof -
  obtain a b where p: "level_pair un (map_third km) (code_row km (kl_keycode l)) (kl_level l AND 2 = 2) = (a, b)" by fastforce
  have t: "a = b \<or> kl_lock l = pair_lock un a b" "canonical un (if kl_level l AND 1 = 1 then b else a) = k"
    using l by (simp_all add: true_location_def Let_def p)
  have third: "(st_level3 st \<or> press_level3 plan) = (kl_level l AND 2 = 2)"
    using l3 by (auto simp: plan plan_modifiers_def Let_def)
  have shift: "((st_shift st \<or> press_shift plan) \<and> \<not> release_shift plan) = ((kl_level l AND 1 = 1) \<noteq> lock_on (pair_lock un a b) st)"
    if "a \<noteq> b"
    using that t(1) by (auto simp: plan plan_modifiers_def Let_def lock_on_def)
  have locks: "lock_on m (st\<lparr>st_shift := x, st_level3 := y\<rparr>) = lock_on m st" for m x y
    by (cases m) (simp_all add: lock_on_def)
  show ?thesis
  proof (cases "a = b")
    case True
    then show ?thesis using t(2) p by (auto simp: server_types_def third split: if_splits)
  next
    case False
    then show ?thesis using t(2) by (auto simp: server_types_def third shift p locks split: if_splits)
  qed
qed

end
