(* ===== verification/Input.thy ===== *)
theory Input
  imports Keymap
begin

text \<open>
  \<open>InputInjector\<close> of \<open>crates/server/src/x11/input.rs\<close>: the keys, buttons and motions of the client become
  fake input requests to the X server. The requests sent are kept in order; \<open>in_credit\<close> is how many more
  the connection takes before it is lost, \<open>None\<close> when it never is.
\<close>

section \<open>The injector\<close>

datatype event_type = KEY_PRESS | KEY_RELEASE | BUTTON_PRESS | BUTTON_RELEASE | MOTION

datatype auto_repeat = Repeat_Off | Repeat_On | Repeat_Default

datatype request =
    Fake event_type u8 i16 i16
  | Change_Mapping u8 u8 "u32 list"
  | Change_Repeat auto_repeat

datatype x_error = X_Lost | X_Refused string | X_Panicked

record injector =
  in_keymap :: keymap
  in_shift_keycode :: "u8 option"
  in_level3_keycode :: "u8 option"
  in_num_lock_mask :: u16
  in_pressed :: "(u32, u8) hmap"
  in_held_modifiers :: "u32 set"
  in_pressed_buttons :: "(u8, unit) hmap"
  in_spares :: "u8 list"
  in_dynamic :: "(u32, u8) hmap"
  in_dynamic_order :: "u32 list"
  in_last_pointer :: "i16 \<times> i16"
  in_suppressed :: bool
  in_original_auto_repeat :: "auto_repeat option"
  in_sent :: "request list"
  in_credit :: "nat option"

text \<open>
  What the X server answers while an operation runs: the keyboard mapping with its bounds, the modifier
  mapping with its keycodes per modifier, the pointer query's mask, the auto-repeat setting, and whether it
  takes a change of the mapping. \<open>None\<close> is an error.
\<close>

record x_replies =
  xr_xtest :: bool
  xr_mapping :: "(u8 \<times> u8 \<times> u8 \<times> u32 list) option"
  xr_modifiers :: "(nat \<times> u8 list) option"
  xr_mask :: "u16 option"
  xr_auto_repeat :: "auto_repeat option"
  xr_rebind :: bool

type_synonym 'a injected = "injector \<times> (x_error + 'a)"

definition inp_then :: "'a injected \<Rightarrow> ('a \<Rightarrow> injector \<Rightarrow> 'b injected) \<Rightarrow> 'b injected" where
  "inp_then a f = (case a of (inp, Inl e) \<Rightarrow> (inp, Inl e) | (inp, Inr x) \<Rightarrow> f x inp)"

definition x_request :: "request \<Rightarrow> injector \<Rightarrow> unit injected" where
  "x_request r inp =
     (if in_credit inp = Some 0 then (inp, Inl X_Lost)
      else (inp\<lparr>in_credit := map_option (\<lambda>n. n - 1) (in_credit inp), in_sent := in_sent inp @ [r]\<rparr>, Inr ()))"

definition fake :: "event_type \<Rightarrow> u8 \<Rightarrow> i16 \<Rightarrow> i16 \<Rightarrow> injector \<Rightarrow> unit injected" where
  "fake t detail x y = x_request (Fake t detail x y)"

definition x_flush :: "injector \<Rightarrow> unit injected" where
  "x_flush inp = (inp, if in_credit inp = Some 0 then Inl X_Lost else Inr ())"

primrec fakes :: "event_type \<Rightarrow> u8 list \<Rightarrow> injector \<Rightarrow> unit injected" where
  "fakes t [] inp = (inp, Inr ())"
| "fakes t (d # ds) inp = inp_then (fake t d 0 0 inp) (\<lambda>_. fakes t ds)"

section \<open>Auto-repeat\<close>

definition set_auto_repeat :: "auto_repeat \<Rightarrow> injector \<Rightarrow> injector" where
  "set_auto_repeat mode inp = fst (x_request (Change_Repeat mode) inp)"

definition suppress_auto_repeat :: "x_replies \<Rightarrow> injector \<Rightarrow> injector" where
  "suppress_auto_repeat xr inp =
     (let inp = (if in_suppressed inp then inp
                 else inp\<lparr>in_original_auto_repeat := (case xr_auto_repeat xr of Some m \<Rightarrow> Some m | None \<Rightarrow> in_original_auto_repeat inp),
                          in_suppressed := True\<rparr>)
      in set_auto_repeat Repeat_Off inp)"

definition reassert_auto_repeat_suppression :: "x_replies \<Rightarrow> injector \<Rightarrow> injector" where
  "reassert_auto_repeat_suppression xr inp =
     (if \<not> in_suppressed inp then inp
      else case xr_auto_repeat xr of
        None \<Rightarrow> inp
      | Some mode \<Rightarrow> if mode = Repeat_Off then inp
                     else set_auto_repeat Repeat_Off (inp\<lparr>in_original_auto_repeat := Some mode\<rparr>))"

definition restore_auto_repeat :: "injector \<Rightarrow> injector" where
  "restore_auto_repeat inp =
     (let inp = inp\<lparr>in_suppressed := False\<rparr>
      in case in_original_auto_repeat inp of Some mode \<Rightarrow> set_auto_repeat mode inp | None \<Rightarrow> inp)"

section \<open>The keyboard mapping\<close>

definition slice :: "nat \<Rightarrow> nat \<Rightarrow> 'a list \<Rightarrow> 'a list option" where
  "slice a b xs = (if a \<le> b \<and> b \<le> length xs then Some (take (b - a) (drop a xs)) else None)"

definition num_lock_mask :: "unicode \<Rightarrow> x_replies \<Rightarrow> injector \<Rightarrow> u16" where
  "num_lock_mask un xr inp =
     (case plain_keycode un NUM_LOCK (in_keymap inp) of
        None \<Rightarrow> 0
      | Some kc \<Rightarrow>
          (case xr_modifiers xr of
             None \<Rightarrow> 0
           | Some (per, keycodes) \<Rightarrow>
               (case List.find (\<lambda>i. case slice (i * per) ((i + 1) * per) keycodes of Some k \<Rightarrow> kc \<in> set k | None \<Rightarrow> False) [0..<8] of
                  None \<Rightarrow> 0
                | Some i \<Rightarrow> push_bit i 1)))"

definition reload_keymap :: "unicode \<Rightarrow> x_replies \<Rightarrow> injector \<Rightarrow> unit injected" where
  "reload_keymap un xr inp =
     (if in_credit inp = Some 0 then (inp, Inl X_Lost)
      else case xr_mapping xr of
        None \<Rightarrow> (inp, Inl (X_Refused ''keyboard mapping''))
      | Some (mn, mx, per, syms) \<Rightarrow>
          let km = from_reply un mn mx per syms;
              inp = inp\<lparr>in_keymap := km, in_shift_keycode := plain_keycode un SHIFT_L km,
                        in_level3_keycode := plain_keycode un ISO_LEVEL3_SHIFT km\<rparr>;
              inp = inp\<lparr>in_num_lock_mask := num_lock_mask un xr inp\<rparr>;
              dyn = filter (\<lambda>(ks, kc). map_option kl_keycode (find_key un ks km) = Some kc) (in_dynamic inp);
              inp = inp\<lparr>in_dynamic := dyn, in_dynamic_order := filter (\<lambda>ks. hm_get dyn ks \<noteq> None) (in_dynamic_order inp)\<rparr>
          in (case spare_keycodes km of
                None \<Rightarrow> (inp, Inl X_Panicked)
              | Some spares \<Rightarrow> (inp\<lparr>in_spares := filter (\<lambda>k. k \<notin> snd ` set dyn) spares\<rparr>, Inr ())))"

definition injector_new :: "unicode \<Rightarrow> x_replies \<Rightarrow> nat option \<Rightarrow> (x_error + injector)" where
  "injector_new un xr credit =
     (if \<not> xr_xtest xr then Inl (X_Refused ''XTEST extension is required for input'')
      else case reload_keymap un xr \<lparr>in_keymap = keymap_default, in_shift_keycode = None, in_level3_keycode = None,
             in_num_lock_mask = 0, in_pressed = [], in_held_modifiers = {}, in_pressed_buttons = [], in_spares = [],
             in_dynamic = [], in_dynamic_order = [], in_last_pointer = (0, 0), in_suppressed = False,
             in_original_auto_repeat = xr_auto_repeat xr, in_sent = [], in_credit = credit\<rparr> of
        (inp, Inl e) \<Rightarrow> Inl e
      | (inp, Inr _) \<Rightarrow> Inr inp)"

definition LOCK_MASK :: u16 where "LOCK_MASK = 2"

definition locks :: "x_replies \<Rightarrow> injector \<Rightarrow> bool \<times> bool" where
  "locks xr inp =
     (case xr_mask xr of
        None \<Rightarrow> (False, False)
      | Some m \<Rightarrow> (m AND LOCK_MASK \<noteq> 0, in_num_lock_mask inp \<noteq> 0 \<and> m AND in_num_lock_mask inp \<noteq> 0))"

text \<open>A spare keycode, or that of the oldest binding whose key is not held.\<close>

definition forget_location :: "u32 \<Rightarrow> u8 \<Rightarrow> keymap \<Rightarrow> keymap" where
  "forget_location old kc km =
     (case km_lookup km old of
        None \<Rightarrow> km
      | Some ls \<Rightarrow>
          let ls = filter (\<lambda>l. kl_keycode l \<noteq> kc) ls
          in km\<lparr>km_lookup := (km_lookup km)(old := if ls = [] then None else Some ls)\<rparr>)"

definition take_keycode :: "injector \<Rightarrow> u8 option \<times> injector" where
  "take_keycode inp =
     (if in_spares inp \<noteq> [] then (Some (last (in_spares inp)), inp\<lparr>in_spares := butlast (in_spares inp)\<rparr>)
      else case List.find (\<lambda>i. hm_get (in_pressed inp) (in_dynamic_order inp ! i) = None) [0..<length (in_dynamic_order inp)] of
        None \<Rightarrow> (None, inp)
      | Some pos \<Rightarrow>
          let old = in_dynamic_order inp ! pos;
              inp = inp\<lparr>in_dynamic_order := take pos (in_dynamic_order inp) @ drop (pos + 1) (in_dynamic_order inp)\<rparr>
          in (case hm_get (in_dynamic inp) old of
                None \<Rightarrow> (None, inp)
              | Some kc \<Rightarrow> (Some kc, inp\<lparr>in_dynamic := hm_remove old (in_dynamic inp),
                                        in_keymap := forget_location old kc (in_keymap inp)\<rparr>)))"

definition bound_row :: "u8 \<Rightarrow> u32 \<Rightarrow> u32 list" where
  "bound_row per ks = (let row = (replicate (unat per) 0)[0 := ks] in if 1 < per then row[1 := ks] else row)"

definition bind_keymap :: "u8 \<Rightarrow> u32 \<Rightarrow> u8 \<Rightarrow> keymap \<Rightarrow> keymap option" where
  "bind_keymap per ks kc km =
     (let i = (unat kc - unat (km_min km)) * unat per
      in if kc < km_min km \<or> length (km_syms km) < i + unat per then None
         else Some (km\<lparr>km_syms := take i (km_syms km) @ bound_row per ks @ drop (i + unat per) (km_syms km),
                       km_lookup := (km_lookup km)(ks \<mapsto> \<lparr>kl_keycode = kc, kl_level = 0, kl_lock = No_Lock\<rparr> #
                          (case km_lookup km ks of None \<Rightarrow> [] | Some ls \<Rightarrow> ls))\<rparr>))"

definition bind_dynamic :: "x_replies \<Rightarrow> u32 \<Rightarrow> injector \<Rightarrow> u8 option injected" where
  "bind_dynamic xr ks inp =
     (case take_keycode inp of
        (None, inp) \<Rightarrow> (inp, Inr None)
      | (Some kc, inp) \<Rightarrow>
          let per = max (km_per (in_keymap inp)) 1
          in inp_then (x_request (Change_Mapping kc per (bound_row per ks)) inp) (\<lambda>_ inp.
             if \<not> xr_rebind xr then (inp, Inl (X_Refused ''change keyboard mapping''))
             else case bind_keymap per ks kc (in_keymap inp) of
               None \<Rightarrow> (inp, Inl X_Panicked)
             | Some km \<Rightarrow>
                 inp_then (x_flush (inp\<lparr>in_keymap := km, in_dynamic := hm_insert ks kc (in_dynamic inp),
                                        in_dynamic_order := in_dynamic_order inp @ [ks]\<rparr>))
                   (\<lambda>_ inp. (inp, Inr (Some kc)))))"

section \<open>Keys\<close>

definition key_code_of :: "u8 \<Rightarrow> (u32, u8) hmap \<Rightarrow> u32 option" where
  "key_code_of kc pressed = map_option fst (List.find (\<lambda>e. snd e = kc) pressed)"

definition held_counterpart :: "unicode \<Rightarrow> keymap \<Rightarrow> (u32, u8) hmap \<Rightarrow> u32 \<Rightarrow> u32 option" where
  "held_counterpart un km pressed ks =
     (case Option.bind (find_key un ks km) (\<lambda>loc. key_code_of (kl_keycode loc) pressed) of
        Some s \<Rightarrow> Some s
      | None \<Rightarrow> List.find (\<lambda>c. hm_get pressed c \<noteq> None)
                  (List.map_filter id [uppercase_keysym un ks, lowercase_keysym un ks]))"

definition release :: "unicode \<Rightarrow> u32 \<Rightarrow> injector \<Rightarrow> unit injected" where
  "release un ks inp =
     (let inp = inp\<lparr>in_held_modifiers := in_held_modifiers inp - {ks}\<rparr>;
          (held, inp) =
            (case hm_get (in_pressed inp) ks of
               Some kc \<Rightarrow> (Some kc, inp\<lparr>in_pressed := hm_remove ks (in_pressed inp)\<rparr>)
             | None \<Rightarrow>
                 (case held_counterpart un (in_keymap inp) (in_pressed inp) ks of
                    None \<Rightarrow> (None, inp)
                  | Some other \<Rightarrow> (hm_get (in_pressed inp) other, inp\<lparr>in_pressed := hm_remove other (in_pressed inp)\<rparr>)))
      in case (case held of Some kc \<Rightarrow> Some kc | None \<Rightarrow> map_option kl_keycode (find_key un ks (in_keymap inp))) of
           None \<Rightarrow> (inp, Inr ())
         | Some kc \<Rightarrow> inp_then (fake KEY_RELEASE kc 0 0 inp) (\<lambda>_. x_flush))"

definition location_for :: "unicode \<Rightarrow> x_replies \<Rightarrow> u32 \<Rightarrow> injector \<Rightarrow> key_location option injected" where
  "location_for un xr ks inp =
     (case find_key un ks (in_keymap inp) of
        Some l \<Rightarrow> (inp, Inr (Some l))
      | None \<Rightarrow> inp_then (bind_dynamic xr ks inp)
          (\<lambda>r inp. (inp, Inr (map_option (\<lambda>kc. \<lparr>kl_keycode = kc, kl_level = 0, kl_lock = No_Lock\<rparr>) r))))"

definition free_keycode :: "u8 \<Rightarrow> injector \<Rightarrow> unit injected" where
  "free_keycode kc inp =
     (case key_code_of kc (in_pressed inp) of
        Some other \<Rightarrow> fake KEY_RELEASE kc 0 0 (inp\<lparr>in_pressed := hm_remove other (in_pressed inp)\<rparr>)
      | None \<Rightarrow> (inp, Inr ()))"

definition shift_held :: "injector \<Rightarrow> bool" where
  "shift_held inp \<longleftrightarrow> SHIFT_L \<in> in_held_modifiers inp \<or> SHIFT_R \<in> in_held_modifiers inp"

definition level3_held :: "injector \<Rightarrow> bool" where
  "level3_held inp \<longleftrightarrow> ISO_LEVEL3_SHIFT \<in> in_held_modifiers inp \<or> ALT_R \<in> in_held_modifiers inp"

definition lock_states :: "x_replies \<Rightarrow> key_location \<Rightarrow> injector \<Rightarrow> bool \<times> bool" where
  "lock_states xr loc inp = (if kl_lock loc = No_Lock then (False, False) else locks xr inp)"

definition opt_list :: "'a option \<Rightarrow> 'a list" where
  "opt_list o' = (case o' of Some x \<Rightarrow> [x] | None \<Rightarrow> [])"

definition temp_presses :: "modifier_plan \<Rightarrow> injector \<Rightarrow> u8 list" where
  "temp_presses plan inp =
     (if press_shift plan then opt_list (in_shift_keycode inp) else []) @
     (if press_level3 plan then opt_list (in_level3_keycode inp) else [])"

definition temp_releases :: "modifier_plan \<Rightarrow> injector \<Rightarrow> u8 list" where
  "temp_releases plan inp =
     (if release_shift plan then opt_list (hm_get (in_pressed inp) SHIFT_L) @ opt_list (hm_get (in_pressed inp) SHIFT_R) else [])"

text \<open>
  The press with its temporary modifier changes, which are undone right after it; the release of the key
  itself comes later.
\<close>

definition press_with :: "u8 list \<Rightarrow> u8 list \<Rightarrow> u32 \<Rightarrow> u8 \<Rightarrow> injector \<Rightarrow> unit injected" where
  "press_with releasing pressing ks kc inp =
     inp_then (fakes KEY_RELEASE releasing inp) (\<lambda>_ inp.
     inp_then (fakes KEY_PRESS pressing inp) (\<lambda>_ inp.
     inp_then (fake KEY_PRESS kc 0 0 inp) (\<lambda>_ inp.
     inp_then (fakes KEY_RELEASE (rev pressing) (inp\<lparr>in_pressed := hm_insert ks kc (in_pressed inp)\<rparr>)) (\<lambda>_ inp.
     inp_then (fakes KEY_PRESS (rev releasing) inp) (\<lambda>_. x_flush)))))"

definition note_modifier :: "u32 \<Rightarrow> injector \<Rightarrow> injector" where
  "note_modifier ks inp =
     (if is_modifier ks then inp\<lparr>in_held_modifiers := insert ks (in_held_modifiers inp)\<rparr> else inp)"

definition press_at :: "x_replies \<Rightarrow> u32 \<Rightarrow> key_location \<Rightarrow> injector \<Rightarrow> unit injected" where
  "press_at xr ks loc inp =
     (let inp = note_modifier ks inp;
          (caps_on, num_on) = lock_states xr loc inp;
          plan = plan_modifiers loc (is_modifier ks) (shift_held inp) (level3_held inp) caps_on num_on
      in press_with (temp_releases plan inp) (temp_presses plan inp) ks (kl_keycode loc) inp)"

definition key :: "unicode \<Rightarrow> x_replies \<Rightarrow> u32 \<Rightarrow> bool \<Rightarrow> injector \<Rightarrow> unit injected" where
  "key un xr ks down inp =
     (let ks = canonical un ks
      in if \<not> down then release un ks inp
         else if is_modifier ks \<and> hm_get (in_pressed inp) ks \<noteq> None then (inp, Inr ())
         else inp_then
                (case hm_get (in_pressed inp) ks of
                   Some kc \<Rightarrow> fake KEY_RELEASE kc 0 0 (inp\<lparr>in_pressed := hm_remove ks (in_pressed inp)\<rparr>)
                 | None \<Rightarrow> (inp, Inr ())) (\<lambda>_ inp.
              inp_then (location_for un xr ks inp) (\<lambda>l inp.
              case l of
                None \<Rightarrow> (inp, Inr ())
              | Some loc \<Rightarrow> inp_then (free_keycode (kl_keycode loc) inp) (\<lambda>_. press_at xr ks loc))))"

section \<open>The pointer\<close>

definition pointer_move :: "i16 \<Rightarrow> i16 \<Rightarrow> injector \<Rightarrow> unit injected" where
  "pointer_move x y inp = inp_then (fake MOTION 0 x y (inp\<lparr>in_last_pointer := (x, y)\<rparr>)) (\<lambda>_. x_flush)"

definition button :: "u8 \<Rightarrow> bool \<Rightarrow> injector \<Rightarrow> unit injected" where
  "button b down inp =
     (if b = 0 then (inp, Inr ())
      else if down
      then inp_then (fake BUTTON_PRESS b 0 0 (inp\<lparr>in_pressed_buttons := hm_insert b () (in_pressed_buttons inp)\<rparr>)) (\<lambda>_. x_flush)
      else inp_then (fake BUTTON_RELEASE b 0 0 (inp\<lparr>in_pressed_buttons := hm_remove b (in_pressed_buttons inp)\<rparr>)) (\<lambda>_. x_flush))"

definition clicks :: "i16 \<Rightarrow> nat" where
  "clicks n = min (nat \<bar>sint n\<bar>) 50"

primrec click_times :: "nat \<Rightarrow> u8 \<Rightarrow> injector \<Rightarrow> unit injected" where
  "click_times 0 b inp = (inp, Inr ())"
| "click_times (Suc n) b inp =
     inp_then (fake BUTTON_PRESS b 0 0 inp) (\<lambda>_ inp.
     inp_then (fake BUTTON_RELEASE b 0 0 inp) (\<lambda>_. click_times n b))"

definition scroll :: "i16 \<Rightarrow> i16 \<Rightarrow> injector \<Rightarrow> unit injected" where
  "scroll dx dy inp =
     inp_then (click_times (clicks dy) (if sint dy < 0 then 4 else 5) inp) (\<lambda>_ inp.
     inp_then (click_times (clicks dx) (if sint dx < 0 then 6 else 7) inp) (\<lambda>_. x_flush))"

definition release_all :: "injector \<Rightarrow> unit injected" where
  "release_all inp =
     (let keys = map snd (in_pressed inp)
      in inp_then (fakes KEY_RELEASE keys (inp\<lparr>in_pressed := []\<rparr>)) (\<lambda>_ inp.
         let buttons = map fst (in_pressed_buttons inp)
         in inp_then (fakes BUTTON_RELEASE buttons (inp\<lparr>in_held_modifiers := {}, in_pressed_buttons := []\<rparr>)) (\<lambda>_. x_flush)))"

definition pressed_count :: "injector \<Rightarrow> nat" where
  "pressed_count inp = length (in_pressed inp)"

section \<open>What the server holds down\<close>

fun key_effect :: "request \<Rightarrow> u8 set \<Rightarrow> u8 set" where
  "key_effect (Fake KEY_PRESS d _ _) ds = insert d ds"
| "key_effect (Fake KEY_RELEASE d _ _) ds = ds - {d}"
| "key_effect _ ds = ds"

fun button_effect :: "request \<Rightarrow> u8 set \<Rightarrow> u8 set" where
  "button_effect (Fake BUTTON_PRESS d _ _) ds = insert d ds"
| "button_effect (Fake BUTTON_RELEASE d _ _) ds = ds - {d}"
| "button_effect _ ds = ds"

definition keys_down :: "injector \<Rightarrow> u8 set" where
  "keys_down inp = fold key_effect (in_sent inp) {}"

definition buttons_down :: "injector \<Rightarrow> u8 set" where
  "buttons_down inp = fold button_effect (in_sent inp) {}"

text \<open>
  Every key down is one the client holds or is in \<open>K\<close>, every button down one it holds or in \<open>B\<close>, unless
  the connection is lost.
\<close>

definition held_but :: "u8 set \<Rightarrow> u8 set \<Rightarrow> injector \<Rightarrow> bool" where
  "held_but K B inp \<longleftrightarrow> hm_ok (in_pressed inp) \<and> hm_ok (in_pressed_buttons inp) \<and>
     (in_credit inp = Some 0 \<or>
      keys_down inp \<subseteq> snd ` set (in_pressed inp) \<union> K \<and> buttons_down inp \<subseteq> fst ` set (in_pressed_buttons inp) \<union> B)"

definition result_ok :: "('a \<Rightarrow> injector \<Rightarrow> bool) \<Rightarrow> 'a injected \<Rightarrow> bool" where
  "result_ok Q a = (case a of (i, Inl e) \<Rightarrow> held_but {} {} i | (i, Inr x) \<Rightarrow> Q x i)"

lemma result_ok_simps [simp]:
  "result_ok Q (i, Inl e) \<longleftrightarrow> held_but {} {} i" "result_ok Q (i, Inr x) \<longleftrightarrow> Q x i"
  by (simp_all add: result_ok_def)

lemma result_ok_then:
  "result_ok P a \<Longrightarrow> (\<And>x i. P x i \<Longrightarrow> result_ok Q (f x i)) \<Longrightarrow> result_ok Q (inp_then a f)"
  by (cases a; cases "snd a") (auto simp: inp_then_def)

lemma result_ok_mono: "result_ok P a \<Longrightarrow> (\<And>x i. P x i \<Longrightarrow> Q x i) \<Longrightarrow> result_ok Q a"
  by (cases a; cases "snd a") auto

lemma held_but_mono: "held_but K B inp \<Longrightarrow> K \<subseteq> K' \<Longrightarrow> B \<subseteq> B' \<Longrightarrow> held_but K' B' inp"
  by (auto simp: held_but_def)

text \<open>What leaves the keys and buttons alone.\<close>

definition same_keys :: "injector \<Rightarrow> injector \<Rightarrow> bool" where
  "same_keys i j \<longleftrightarrow> in_pressed i = in_pressed j \<and> in_pressed_buttons i = in_pressed_buttons j \<and>
     in_sent i = in_sent j \<and> in_credit i = in_credit j"

lemma same_keys_held: "same_keys i j \<Longrightarrow> held_but K B i = held_but K B j"
  by (simp add: same_keys_def held_but_def keys_down_def buttons_down_def)

text \<open>A request that goes out changes what is down, one that does not has lost the connection.\<close>

definition sent_after :: "injector \<Rightarrow> injector \<Rightarrow> bool" where
  "sent_after i j \<longleftrightarrow> (\<exists>s c. j = i\<lparr>in_sent := s, in_credit := c\<rparr>)"

lemma sent_after_fields:
  assumes "sent_after i j"
  shows "in_pressed j = in_pressed i" "in_pressed_buttons j = in_pressed_buttons i" "in_keymap j = in_keymap i"
    "in_held_modifiers j = in_held_modifiers i" "in_shift_keycode j = in_shift_keycode i"
    "in_level3_keycode j = in_level3_keycode i" "in_dynamic j = in_dynamic i" "in_spares j = in_spares i"
    "in_dynamic_order j = in_dynamic_order i" "in_num_lock_mask j = in_num_lock_mask i"
  using assms by (auto simp: sent_after_def)

lemma sent_after_trans: "sent_after i j \<Longrightarrow> sent_after j k \<Longrightarrow> sent_after i k"
  by (force simp: sent_after_def)

lemma sent_after_refl [simp]: "sent_after i i"
  unfolding sent_after_def by (intro exI [of _ "in_sent i"] exI [of _ "in_credit i"]) simp

lemma keys_down_snoc:
  "keys_down (inp\<lparr>in_sent := in_sent inp @ [r], in_credit := c\<rparr>) = key_effect r (keys_down inp)"
  "buttons_down (inp\<lparr>in_sent := in_sent inp @ [r], in_credit := c\<rparr>) = button_effect r (buttons_down inp)"
  by (simp_all add: keys_down_def buttons_down_def)

lemma x_request_held:
  assumes "held_but K B inp"
    and "\<And>ds. ds \<subseteq> snd ` set (in_pressed inp) \<union> K \<Longrightarrow> key_effect r ds \<subseteq> snd ` set (in_pressed inp) \<union> K'"
    and "\<And>ds. ds \<subseteq> fst ` set (in_pressed_buttons inp) \<union> B \<Longrightarrow> button_effect r ds \<subseteq> fst ` set (in_pressed_buttons inp) \<union> B'"
  shows "result_ok (\<lambda>_ j. held_but K' B' j \<and> sent_after inp j) (x_request r inp)"
proof (cases "in_credit inp = Some 0")
  case True
  then show ?thesis using assms(1) by (simp add: x_request_def held_but_def)
next
  case False
  let ?j = "inp\<lparr>in_credit := map_option (\<lambda>n. n - 1) (in_credit inp), in_sent := in_sent inp @ [r]\<rparr>"
  have j: "?j = inp\<lparr>in_sent := in_sent inp @ [r], in_credit := map_option (\<lambda>n. n - 1) (in_credit inp)\<rparr>" by simp
  have "sent_after inp ?j" unfolding j sent_after_def by blast
  moreover have "held_but K' B' ?j"
    unfolding j held_but_def keys_down_snoc using assms False by (simp add: held_but_def)
  ultimately show ?thesis using False by (simp add: x_request_def)
qed

lemma fake_held:
  assumes "held_but K B inp"
  shows "result_ok (\<lambda>_ j. held_but (insert kc K) B j \<and> sent_after inp j) (fake KEY_PRESS kc x y inp)"
    and "result_ok (\<lambda>_ j. held_but (K - {kc}) B j \<and> sent_after inp j) (fake KEY_RELEASE kc x y inp)"
    and "result_ok (\<lambda>_ j. held_but K (insert kc B) j \<and> sent_after inp j) (fake BUTTON_PRESS kc x y inp)"
    and "result_ok (\<lambda>_ j. held_but K (B - {kc}) j \<and> sent_after inp j) (fake BUTTON_RELEASE kc x y inp)"
    and "result_ok (\<lambda>_ j. held_but K B j \<and> sent_after inp j) (fake MOTION kc x y inp)"
    and "result_ok (\<lambda>_ j. held_but K B j \<and> sent_after inp j) (x_request (Change_Mapping kc per row) inp)"
    and "result_ok (\<lambda>_ j. held_but K B j \<and> sent_after inp j) (x_request (Change_Repeat mode) inp)"
  unfolding fake_def by (rule x_request_held [OF assms]; auto)+

lemma x_flush_ok: "held_but {} {} inp \<Longrightarrow> result_ok (\<lambda>_. held_but {} {}) (x_flush inp)"
  by (simp add: x_flush_def)

text \<open>A list of requests of one kind.\<close>

lemma fakes_held:
  "held_but K B inp \<Longrightarrow> result_ok (\<lambda>_ j. held_but (K \<union> set ds) B j \<and> sent_after inp j) (fakes KEY_PRESS ds inp)"
  "held_but K B inp \<Longrightarrow> result_ok (\<lambda>_ j. held_but (K - set ds) B j \<and> sent_after inp j) (fakes KEY_RELEASE ds inp)"
  "held_but K B inp \<Longrightarrow> result_ok (\<lambda>_ j. held_but K (B - set ds) j \<and> sent_after inp j) (fakes BUTTON_RELEASE ds inp)"
proof -
  show "held_but K B inp \<Longrightarrow> result_ok (\<lambda>_ j. held_but (K \<union> set ds) B j \<and> sent_after inp j) (fakes KEY_PRESS ds inp)"
  proof (induction ds arbitrary: K inp)
    case (Cons d ds)
    have e: "K \<union> set (d # ds) = insert d K \<union> set ds" by auto
    show ?case unfolding fakes.simps e
      by (rule result_ok_then [OF fake_held(1) [OF Cons.prems]], rule result_ok_mono [OF Cons.IH])
         (blast intro: sent_after_trans)+
  qed simp
  show "held_but K B inp \<Longrightarrow> result_ok (\<lambda>_ j. held_but (K - set ds) B j \<and> sent_after inp j) (fakes KEY_RELEASE ds inp)"
  proof (induction ds arbitrary: K inp)
    case (Cons d ds)
    have e: "K - set (d # ds) = K - {d} - set ds" by auto
    show ?case unfolding fakes.simps e
      by (rule result_ok_then [OF fake_held(2) [OF Cons.prems]], rule result_ok_mono [OF Cons.IH])
         (blast intro: sent_after_trans)+
  qed simp
  show "held_but K B inp \<Longrightarrow> result_ok (\<lambda>_ j. held_but K (B - set ds) j \<and> sent_after inp j) (fakes BUTTON_RELEASE ds inp)"
  proof (induction ds arbitrary: B inp)
    case (Cons d ds)
    have e: "B - set (d # ds) = B - {d} - set ds" by auto
    show ?case unfolding fakes.simps e
      by (rule result_ok_then [OF fake_held(4) [OF Cons.prems]], rule result_ok_mono [OF Cons.IH])
         (blast intro: sent_after_trans)+
  qed simp
qed

lemma hm_values_insert_new: "hm_get m k = None \<Longrightarrow> snd ` set (hm_insert k v m) = insert v (snd ` set m)"
  by (induction m) (auto split: if_splits)

lemma hm_values_remove:
  assumes "hm_ok m" "hm_get m k = Some v"
  shows "snd ` set m \<subseteq> insert v (snd ` set (hm_remove k m))"
proof
  fix w
  assume "w \<in> snd ` set m"
  then obtain l where l: "(l, w) \<in> set m" by (auto simp: image_iff)
  then have "hm_get m l = Some w" using assms(1) by simp
  moreover have "(l, w) \<in> set (hm_remove k m)" if "l \<noteq> k" using l that by (auto simp: AList.delete_eq)
  ultimately show "w \<in> insert v (snd ` set (hm_remove k m))" using assms(2) by (cases "l = k") (auto intro: rev_image_eqI)
qed

text \<open>Taking a key out of the held ones and putting one in.\<close>

lemma held_but_forget:
  assumes "held_but K B inp" "hm_get (in_pressed inp) ks = Some kc"
  shows "held_but (insert kc K) B (inp\<lparr>in_pressed := hm_remove ks (in_pressed inp)\<rparr>)"
proof -
  have "hm_ok (in_pressed inp)" using assms(1) by (simp add: held_but_def)
  note sub = hm_values_remove [OF this assms(2)]
  have "keys_down inp \<subseteq> snd ` set (hm_remove ks (in_pressed inp)) \<union> insert kc K"
    if "keys_down inp \<subseteq> snd ` set (in_pressed inp) \<union> K"
    using that sub by blast
  then show ?thesis using assms(1) unfolding held_but_def by (simp add: keys_down_def buttons_down_def) blast
qed

lemma held_but_hold:
  assumes "held_but (insert kc K) B inp" "hm_get (in_pressed inp) ks = None"
  shows "held_but K B (inp\<lparr>in_pressed := hm_insert ks kc (in_pressed inp)\<rparr>)"
  using assms(1) hm_values_insert_new [OF assms(2), of kc]
  by (auto simp: held_but_def keys_down_def buttons_down_def)

lemma held_but_absorb: "held_but K B inp \<Longrightarrow> K \<subseteq> snd ` set (in_pressed inp) \<union> K' \<Longrightarrow> held_but K' B inp"
  unfolding held_but_def by blast

section \<open>Every operation keeps to the held keys\<close>

lemma release_held: "held_but {} {} inp \<Longrightarrow> result_ok (\<lambda>_. held_but {} {}) (release un ks inp)"
proof -
  assume h: "held_but {} {} inp"
  have out: "result_ok (\<lambda>_. held_but {} {}) (inp_then (fake KEY_RELEASE kc 0 0 j) (\<lambda>_. x_flush))"
    if "held_but K {} j" "K \<subseteq> {kc}" for K kc j
  proof (rule result_ok_then [OF fake_held(2) [OF that(1)]])
    fix i assume "held_but (K - {kc}) {} i \<and> sent_after j i"
    moreover have "K - {kc} = {}" using that(2) by blast
    ultimately have "held_but {} {} i" by simp
    then show "result_ok (\<lambda>_. held_but {} {}) (x_flush i)" by (rule x_flush_ok)
  qed
  let ?i = "inp\<lparr>in_held_modifiers := in_held_modifiers inp - {ks}\<rparr>"
  have i: "held_but {} {} ?i" using h by (simp add: held_but_def keys_down_def buttons_down_def)
  have forget: "held_but {kc} {} (?i\<lparr>in_pressed := hm_remove k (in_pressed ?i)\<rparr>)"
    if "hm_get (in_pressed ?i) k = Some kc" for k kc
    using held_but_forget [OF i that] by simp
  note out_i = out [of "{}", OF i] and out_forget = out [OF forget subset_refl]
  show ?thesis
  proof (cases "hm_get (in_pressed ?i) ks")
    case (Some kc)
    then show ?thesis using out_forget [OF Some] by (simp add: release_def Let_def)
  next
    case none: None
    show ?thesis
    proof (cases "held_counterpart un (in_keymap inp) (in_pressed inp) ks")
      case None
      then show ?thesis using none i out_i
        by (cases "find_key un ks (in_keymap inp)") (simp_all add: release_def Let_def)
    next
      case (Some other)
      show ?thesis
      proof (cases "hm_get (in_pressed ?i) other")
        case (Some kc)
        then show ?thesis using out_forget [OF Some] none \<open>held_counterpart _ _ _ _ = Some other\<close>
          by (simp add: release_def Let_def)
      next
        case None
        have "?i\<lparr>in_pressed := hm_remove other (in_pressed ?i)\<rparr> = ?i"
          using None by (simp add: delete_idem map_of_eq_None_iff)
        then show ?thesis using None none \<open>held_counterpart _ _ _ _ = Some other\<close> i out_i
          by (cases "find_key un ks (in_keymap inp)") (simp_all add: release_def Let_def)
      qed
    qed
  qed
qed

lemma take_keycode_same: "same_keys (snd (take_keycode inp)) inp"
  by (auto simp: take_keycode_def same_keys_def Let_def split: option.splits)

lemma bind_dynamic_held:
  assumes "held_but {} {} inp"
  shows "result_ok (\<lambda>_ j. held_but {} {} j \<and> in_pressed j = in_pressed inp) (bind_dynamic xr ks inp)"
proof (cases "take_keycode inp")
  case (Pair r i)
  then have same: "same_keys i inp" using take_keycode_same [of inp] by simp
  then have i: "held_but {} {} i" "in_pressed i = in_pressed inp"
    using assms same_keys_held [OF same] by (simp_all add: same_keys_def)
  show ?thesis
  proof (cases r)
    case None
    then show ?thesis using i by (simp add: bind_dynamic_def Pair)
  next
    case (Some kc)
    let ?per = "max (km_per (in_keymap i)) 1"
    show ?thesis unfolding bind_dynamic_def Pair Some prod.case option.case Let_def
    proof (rule result_ok_then [OF fake_held(6) [OF i(1)]])
      fix j assume "held_but {} {} j \<and> sent_after i j"
      then have j: "held_but {} {} j" "in_pressed j = in_pressed inp" using i(2) by (auto dest: sent_after_fields)
      show "result_ok (\<lambda>_ j. held_but {} {} j \<and> in_pressed j = in_pressed inp)
         (if \<not> xr_rebind xr then (j, Inl (X_Refused ''change keyboard mapping''))
          else case bind_keymap ?per ks kc (in_keymap j) of None \<Rightarrow> (j, Inl X_Panicked)
            | Some km \<Rightarrow> inp_then (x_flush (j\<lparr>in_keymap := km, in_dynamic := hm_insert ks kc (in_dynamic j),
                 in_dynamic_order := in_dynamic_order j @ [ks]\<rparr>)) (\<lambda>_ i. (i, Inr (Some kc))))"
        using j by (auto simp: x_flush_def inp_then_def held_but_def keys_down_def buttons_down_def split: option.splits)
    qed
  qed
qed

lemma location_for_held:
  assumes "held_but {} {} inp"
  shows "result_ok (\<lambda>_ j. held_but {} {} j \<and> in_pressed j = in_pressed inp) (location_for un xr ks inp)"
proof (cases "find_key un ks (in_keymap inp)")
  case None
  show ?thesis unfolding location_for_def None option.case
    by (rule result_ok_then [OF bind_dynamic_held [OF assms]]) simp
qed (simp add: location_for_def assms)

lemma key_code_of_get: "hm_ok m \<Longrightarrow> key_code_of kc m = Some k \<Longrightarrow> hm_get m k = Some kc"
  unfolding key_code_of_def map_option_eq_Some find_Some_iff
  by (elim exE conjE) (metis map_of_eq_Some_iff nth_mem prod.collapse)

lemma free_keycode_held:
  assumes "held_but {} {} inp" "hm_get (in_pressed inp) ks = None"
  shows "result_ok (\<lambda>_ j. held_but {} {} j \<and> hm_get (in_pressed j) ks = None) (free_keycode kc inp)"
proof (cases "key_code_of kc (in_pressed inp)")
  case (Some other)
  then have "hm_get (in_pressed inp) other = Some kc" using assms(1) key_code_of_get by (auto simp: held_but_def)
  note gone = held_but_forget [OF assms(1) this]
  show ?thesis unfolding free_keycode_def Some option.case
    using assms(2) by (intro result_ok_mono [OF fake_held(2) [OF gone]])
      (auto dest: sent_after_fields simp: hm_get_remove)
qed (simp add: free_keycode_def assms)

lemma opt_list_held: "x \<in> set (opt_list (hm_get m k)) \<Longrightarrow> x \<in> snd ` set m"
  by (cases "hm_get m k") (auto simp: opt_list_def dest!: map_of_SomeD intro: rev_image_eqI)

lemma press_with_held:
  assumes h: "held_but {} {} inp" and ks: "hm_get (in_pressed inp) ks = None" and rs: "set rs \<subseteq> snd ` set (in_pressed inp)"
  shows "result_ok (\<lambda>_. held_but {} {}) (press_with rs ps ks kc inp)"
  unfolding press_with_def
proof (rule result_ok_then [OF fakes_held(2) [OF h]], rule result_ok_then [OF fakes_held(1)], erule conjunct1,
    rule result_ok_then [OF fake_held(1)], erule conjunct1)
  fix i1 i2 i3
  assume 1: "held_but ({} - set rs) {} i1 \<and> sent_after inp i1" and 2: "held_but ({} - set rs \<union> set ps) {} i2 \<and> sent_after i1 i2"
    and 3: "held_but (insert kc ({} - set rs \<union> set ps)) {} i3 \<and> sent_after i2 i3"
  then have p: "in_pressed i3 = in_pressed inp" by (auto dest!: sent_after_fields(1))
  let ?j = "i3\<lparr>in_pressed := hm_insert ks kc (in_pressed i3)\<rparr>"
  have j: "held_but (set ps) {} ?j" using 3 ks p by (intro held_but_hold) simp_all
  have rs_j: "set rs \<subseteq> snd ` set (in_pressed ?j)"
    using rs hm_values_insert_new [OF ks, of kc] p by auto
  show "result_ok (\<lambda>_. held_but {} {})
     (inp_then (fakes KEY_RELEASE (rev ps) ?j) (\<lambda>_ i. inp_then (fakes KEY_PRESS (rev rs) i) (\<lambda>_. x_flush)))"
  proof (rule result_ok_then [OF fakes_held(2) [OF j]], rule result_ok_then [OF fakes_held(1)], erule conjunct1)
    fix i4 i5
    assume 4: "held_but (set ps - set (rev ps)) {} i4 \<and> sent_after ?j i4"
      and 5: "held_but (set ps - set (rev ps) \<union> set (rev rs)) {} i5 \<and> sent_after i4 i5"
    then have "in_pressed i5 = in_pressed ?j" by (auto dest!: sent_after_fields(1))
    then have "held_but {} {} i5" using 5 rs_j by (intro held_but_absorb [of _ _ i5 "{}"]) auto
    then show "result_ok (\<lambda>_. held_but {} {}) (x_flush i5)" by (rule x_flush_ok)
  qed
qed

lemma note_modifier_fields [simp]:
  "in_pressed (note_modifier ks inp) = in_pressed inp" "held_but K B (note_modifier ks inp) = held_but K B inp"
  by (simp_all add: note_modifier_def held_but_def keys_down_def buttons_down_def)

lemma press_at_held:
  assumes "held_but {} {} inp" "hm_get (in_pressed inp) ks = None"
  shows "result_ok (\<lambda>_. held_but {} {}) (press_at xr ks loc inp)"
proof -
  have "set (temp_releases plan (note_modifier ks inp)) \<subseteq> snd ` set (in_pressed inp)" for plan
    unfolding temp_releases_def by (auto dest!: opt_list_held)
  then show ?thesis
    unfolding press_at_def Let_def using assms
    by (cases "lock_states xr loc (note_modifier ks inp)") (simp add: press_with_held)
qed

lemma key_held: "held_but {} {} inp \<Longrightarrow> result_ok (\<lambda>_. held_but {} {}) (key un xr ks down inp)"
proof -
  assume h: "held_but {} {} inp"
  let ?ks = "canonical un ks"
  let ?clear = "case hm_get (in_pressed inp) ?ks of
      Some kc \<Rightarrow> fake KEY_RELEASE kc 0 0 (inp\<lparr>in_pressed := hm_remove ?ks (in_pressed inp)\<rparr>) | None \<Rightarrow> (inp, Inr ())"
  have clear: "result_ok (\<lambda>_ j. held_but {} {} j \<and> hm_get (in_pressed j) ?ks = None) ?clear"
  proof (cases "hm_get (in_pressed inp) ?ks")
    case (Some kc)
    show ?thesis unfolding Some option.case
      by (rule result_ok_mono [OF fake_held(2) [OF held_but_forget [OF h Some]]])
         (auto dest: sent_after_fields simp: hm_get_remove)
  qed (simp add: h)
  have "result_ok (\<lambda>_. held_but {} {}) (inp_then ?clear (\<lambda>_ i. inp_then (location_for un xr ?ks i) (\<lambda>l i.
      case l of None \<Rightarrow> (i, Inr ()) | Some loc \<Rightarrow> inp_then (free_keycode (kl_keycode loc) i) (\<lambda>_. press_at xr ?ks loc))))"
  proof (rule result_ok_then [OF clear], rule result_ok_then [OF location_for_held], erule conjunct1)
    fix i l j
    assume "held_but {} {} i \<and> hm_get (in_pressed i) ?ks = None" "held_but {} {} j \<and> in_pressed j = in_pressed i"
    then have j: "held_but {} {} j" "hm_get (in_pressed j) ?ks = None" by simp_all
    show "result_ok (\<lambda>_. held_but {} {})
       (case l of None \<Rightarrow> (j, Inr ()) | Some loc \<Rightarrow> inp_then (free_keycode (kl_keycode loc) j) (\<lambda>_. press_at xr ?ks loc))"
      by (cases l) (auto simp: j intro: result_ok_then [OF free_keycode_held [OF j]] press_at_held)
  qed
  then show ?thesis unfolding key_def Let_def using release_held [OF h] h by simp
qed

lemma pointer_move_held: "held_but {} {} inp \<Longrightarrow> result_ok (\<lambda>_. held_but {} {}) (pointer_move x y inp)"
proof -
  assume "held_but {} {} inp"
  then have "held_but {} {} (inp\<lparr>in_last_pointer := (x, y)\<rparr>)" by (simp add: held_but_def keys_down_def buttons_down_def)
  note sent = fake_held(5) [OF this]
  show ?thesis unfolding pointer_move_def by (rule result_ok_then [OF sent]) (blast intro: x_flush_ok)
qed

lemma button_held: "held_but {} {} inp \<Longrightarrow> result_ok (\<lambda>_. held_but {} {}) (button b down inp)"
proof -
  assume h: "held_but {} {} inp"
  let ?on = "inp\<lparr>in_pressed_buttons := hm_insert b () (in_pressed_buttons inp)\<rparr>"
  let ?off = "inp\<lparr>in_pressed_buttons := hm_remove b (in_pressed_buttons inp)\<rparr>"
  have dom: "fst ` set (hm_insert b () m) = insert b (fst ` set m)" for m :: "(u8, unit) hmap"
    by (induction m) auto
  have rem: "fst ` set (hm_remove b m) = fst ` set m - {b}" for m :: "(u8, unit) hmap"
    by (metis delete_keys list.set_map set_removeAll)
  have on: "held_but {} {} ?on"
    using h unfolding held_but_def by (simp add: dom keys_down_def buttons_down_def) blast
  have off: "held_but {} {b} ?off"
    using h unfolding held_but_def by (simp add: rem keys_down_def buttons_down_def) blast
  have on': "result_ok (\<lambda>_. held_but {} {}) (inp_then (fake BUTTON_PRESS b 0 0 ?on) (\<lambda>_. x_flush))"
  proof (rule result_ok_then [OF fake_held(3) [OF on]])
    fix j assume j: "held_but {} {b} j \<and> sent_after ?on j"
    then have "fst ` set (in_pressed_buttons j) = insert b (fst ` set (in_pressed_buttons inp))"
      using sent_after_fields(2) [OF conjunct2 [OF j]] by (simp add: dom)
    then have "held_but {} {} j" using j unfolding held_but_def by blast
    then show "result_ok (\<lambda>_. held_but {} {}) (x_flush j)" by (rule x_flush_ok)
  qed
  have off': "result_ok (\<lambda>_. held_but {} {}) (inp_then (fake BUTTON_RELEASE b 0 0 ?off) (\<lambda>_. x_flush))"
    by (rule result_ok_then [OF fake_held(4) [OF off]]) (auto intro: x_flush_ok)
  show ?thesis using on' off' h by (simp add: button_def)
qed

lemma click_times_held: "held_but {} {} inp \<Longrightarrow> result_ok (\<lambda>_. held_but {} {}) (click_times n b inp)"
proof (induction n arbitrary: inp)
  case (Suc n)
  show ?case unfolding click_times.simps
    by (rule result_ok_then [OF fake_held(3) [OF Suc.prems]], rule result_ok_then [OF fake_held(4)], erule conjunct1)
       (auto intro: Suc.IH)
qed simp

lemma scroll_held: "held_but {} {} inp \<Longrightarrow> result_ok (\<lambda>_. held_but {} {}) (scroll dx dy inp)"
  unfolding scroll_def
  by (rule result_ok_then [OF click_times_held], assumption, rule result_ok_then [OF click_times_held], assumption)
     (rule x_flush_ok)

text \<open>After \<open>release_all\<close> nothing is down.\<close>

definition nothing_down :: "injector \<Rightarrow> bool" where
  "nothing_down inp \<longleftrightarrow> keys_down inp = {} \<and> buttons_down inp = {}"

lemma release_all_held:
  assumes h: "held_but {} {} inp"
  shows "result_ok (\<lambda>_ j. held_but {} {} j \<and> nothing_down j \<and> in_pressed j = [] \<and> in_held_modifiers j = {}) (release_all inp)"
proof -
  let ?ks = "map snd (in_pressed inp)"
  let ?i = "inp\<lparr>in_pressed := []\<rparr>"
  have i: "held_but (set ?ks) {} ?i" using h by (auto simp: held_but_def keys_down_def buttons_down_def)
  show ?thesis unfolding release_all_def Let_def
  proof (rule result_ok_then [OF fakes_held(2) [OF i]])
    fix j assume j: "held_but (set ?ks - set ?ks) {} j \<and> sent_after ?i j"
    let ?bs = "map fst (in_pressed_buttons j)"
    let ?k = "j\<lparr>in_held_modifiers := {}, in_pressed_buttons := []\<rparr>"
    have p: "in_pressed j = []" using j by (auto dest: sent_after_fields)
    have k: "held_but {} (set ?bs) ?k" using j by (auto simp: held_but_def keys_down_def buttons_down_def)
    show "result_ok (\<lambda>_ j. held_but {} {} j \<and> nothing_down j \<and> in_pressed j = [] \<and> in_held_modifiers j = {})
        (inp_then (fakes BUTTON_RELEASE ?bs ?k) (\<lambda>_. x_flush))"
    proof (rule result_ok_then [OF fakes_held(3) [OF k]])
      fix l assume l: "held_but {} (set ?bs - set ?bs) l \<and> sent_after ?k l"
      then have "in_pressed l = []" "in_pressed_buttons l = []" "in_held_modifiers l = {}"
        using p by (auto dest: sent_after_fields)
      then show "result_ok (\<lambda>_ j. held_but {} {} j \<and> nothing_down j \<and> in_pressed j = [] \<and> in_held_modifiers j = {}) (x_flush l)"
        using l by (auto simp: x_flush_def nothing_down_def held_but_def)
    qed
  qed
qed

section \<open>No stuck keys\<close>

inductive input_step :: "unicode \<Rightarrow> injector \<Rightarrow> injector \<Rightarrow> bool" for un :: unicode where
  keys: "input_step un i (fst (key un xr ks down i))"
| moves: "input_step un i (fst (pointer_move x y i))"
| buttons: "input_step un i (fst (button b down i))"
| scrolls: "input_step un i (fst (scroll dx dy i))"
| releases: "input_step un i (fst (release_all i))"
| reloads: "input_step un i (fst (reload_keymap un xr i))"
| suppresses: "input_step un i (suppress_auto_repeat xr i)"
| reasserts: "input_step un i (reassert_auto_repeat_suppression xr i)"
| restores: "input_step un i (restore_auto_repeat i)"

definition fresh_injector :: "unicode \<Rightarrow> injector \<Rightarrow> bool" where
  "fresh_injector un i \<longleftrightarrow> (\<exists>xr credit. injector_new un xr credit = Inr i)"

lemma result_ok_fst: "result_ok (\<lambda>_. held_but {} {}) a \<Longrightarrow> held_but {} {} (fst a)"
  by (cases a; cases "snd a") auto

lemma reload_keymap_same: "same_keys (fst (reload_keymap un xr i)) i"
  by (auto simp: reload_keymap_def same_keys_def Let_def split: option.splits)

lemma set_auto_repeat_held: "held_but {} {} i \<Longrightarrow> held_but {} {} (set_auto_repeat mode i)"
  using fake_held(7) [of "{}" "{}" i mode] by (auto simp: set_auto_repeat_def result_ok_def split: prod.splits sum.splits)

lemma held_but_settings [simp]:
  "held_but K B (i\<lparr>in_suppressed := v\<rparr>) = held_but K B i"
  "held_but K B (i\<lparr>in_original_auto_repeat := m\<rparr>) = held_but K B i"
  by (simp_all add: held_but_def keys_down_def buttons_down_def)

lemma input_step_held: "input_step un i j \<Longrightarrow> held_but {} {} i \<Longrightarrow> held_but {} {} j"
proof (induction rule: input_step.induct)
  case (releases i)
  then show ?case by (intro result_ok_fst result_ok_mono [OF release_all_held]) auto
next
  case (reloads i xr)
  then show ?case using same_keys_held [OF reload_keymap_same] by blast
qed (auto intro!: result_ok_fst key_held pointer_move_held button_held scroll_held set_auto_repeat_held
    simp: suppress_auto_repeat_def reassert_auto_repeat_suppression_def restore_auto_repeat_def Let_def split: option.splits)

lemma fresh_injector_held:
  assumes "fresh_injector un i"
  shows "held_but {} {} i"
proof -
  let ?new = "\<lambda>xr credit. \<lparr>in_keymap = keymap_default, in_shift_keycode = None, in_level3_keycode = None,
      in_num_lock_mask = 0, in_pressed = [], in_held_modifiers = {}, in_pressed_buttons = [], in_spares = [],
      in_dynamic = [], in_dynamic_order = [], in_last_pointer = (0, 0), in_suppressed = False,
      in_original_auto_repeat = xr_auto_repeat xr, in_sent = [], in_credit = credit\<rparr>"
  obtain xr credit where "injector_new un xr credit = Inr i" using assms by (auto simp: fresh_injector_def)
  then have "i = fst (reload_keymap un xr (?new xr credit))"
    by (auto simp: injector_new_def split: if_splits prod.splits sum.splits)
  then show ?thesis using same_keys_held [OF reload_keymap_same, of "{}" "{}" un xr "?new xr credit"]
    by (simp add: held_but_def keys_down_def buttons_down_def)
qed

interpretation input: invariant_system "fresh_injector un" "input_step un" "held_but {} {}"
  by unfold_locales (auto intro: fresh_injector_held input_step_held)

lemma live_requests:
  assumes "in_credit i = None"
  shows "\<exists>j. fakes t ds i = (j, Inr ()) \<and> in_credit j = None"
  using assms
proof (induction ds arbitrary: i)
  case (Cons d ds)
  obtain j where "fake t d 0 0 i = (j, Inr ())" "in_credit j = None"
    using Cons.prems by (simp add: fake_def x_request_def)
  then show ?case using Cons.IH [of j] by (simp add: inp_then_def)
qed simp

lemma release_all_live:
  assumes "in_credit i = None"
  shows "\<exists>j. release_all i = (j, Inr ())"
proof -
  obtain j where j: "fakes KEY_RELEASE (map snd (in_pressed i)) (i\<lparr>in_pressed := []\<rparr>) = (j, Inr ())" "in_credit j = None"
    using live_requests [of "i\<lparr>in_pressed := []\<rparr>"] assms by auto
  obtain k where "fakes BUTTON_RELEASE (map fst (in_pressed_buttons j)) (j\<lparr>in_held_modifiers := {}, in_pressed_buttons := []\<rparr>) = (k, Inr ())"
      "in_credit k = None"
    using live_requests [of "j\<lparr>in_held_modifiers := {}, in_pressed_buttons := []\<rparr>"] j(2) by auto
  then show ?thesis using j by (simp add: release_all_def inp_then_def x_flush_def)
qed

text \<open>
  C16. No stuck keys: whatever the client did, while the connection to the X server lasts every key and
  button the server holds down is one the injector knows as held, and \<open>release_all\<close> succeeds and leaves
  nothing down.
\<close>

theorem no_stuck_keys:
  assumes "reach (fresh_injector un) (input_step un) inp" "in_credit inp = None"
  shows "keys_down inp \<subseteq> snd ` set (in_pressed inp) \<and> buttons_down inp \<subseteq> fst ` set (in_pressed_buttons inp) \<and>
    (\<exists>j. release_all inp = (j, Inr ()) \<and> nothing_down j \<and> in_pressed j = [] \<and> in_held_modifiers j = {})"
proof -
  have h: "held_but {} {} inp" by (rule input.inv_reach [OF assms(1)])
  obtain j where j: "release_all inp = (j, Inr ())" using release_all_live [OF assms(2)] by blast
  have "nothing_down j \<and> in_pressed j = [] \<and> in_held_modifiers j = {}"
    using release_all_held [OF h] by (simp add: j)
  then show ?thesis using h assms(2) j by (simp add: held_but_def)
qed

text \<open>ASCII letters on a keyboard of four keys.\<close>

definition ascii :: unicode where
  "ascii = \<lparr>un_lower = \<lambda>c. 0x61 \<le> c \<and> c \<le> 0x7A, un_upper = \<lambda>c. 0x41 \<le> c \<and> c \<le> 0x5A,
     un_to_upper = \<lambda>c. [if 0x61 \<le> c \<and> c \<le> 0x7A then c - 32 else c],
     un_to_lower = \<lambda>c. [if 0x41 \<le> c \<and> c \<le> 0x5A then c + 32 else c], un_legacy = \<lambda>_. None\<rparr>"

definition four_keys :: x_replies where
  "four_keys = \<lparr>xr_xtest = True,
     xr_mapping = Some (8, 11, 2, [0x61, 0x41, SHIFT_L, 0, 0, 0, ISO_LEVEL3_SHIFT, 0]),
     xr_modifiers = None, xr_mask = Some 0, xr_auto_repeat = Some Repeat_On, xr_rebind = True\<rparr>"

definition four_key_injector :: injector where
  "four_key_injector = projr (injector_new ascii four_keys None)"

lemma four_key_fresh: "fresh_injector ascii four_key_injector"
proof -
  have "\<not> isl (injector_new ascii four_keys None)" by code_simp
  then show ?thesis unfolding fresh_injector_def four_key_injector_def by (metis sum.collapse(2))
qed

lemma four_key_typing:
  "in_sent (fst (key ascii four_keys 0x41 True four_key_injector)) =
     [Fake KEY_PRESS 9 0 0, Fake KEY_PRESS 8 0 0, Fake KEY_RELEASE 9 0 0]"
  "in_credit (fst (key ascii four_keys 0x41 True four_key_injector)) = None"
  by code_simp+

theorem no_stuck_keys_witness:
  "\<exists>i j. reach (fresh_injector ascii) (input_step ascii) i \<and> keys_down i = {8} \<and>
    release_all i = (j, Inr ()) \<and> nothing_down j"
proof -
  let ?i = "fst (key ascii four_keys 0x41 True four_key_injector)"
  have "reach (fresh_injector ascii) (input_step ascii) four_key_injector"
    by (rule reach_init [where init = "fresh_injector ascii"]) (rule four_key_fresh)
  then have r: "reach (fresh_injector ascii) (input_step ascii) ?i" by (rule reach_step) (rule input_step.keys)
  moreover have "keys_down ?i = {8}" by (auto simp: keys_down_def four_key_typing)
  ultimately show ?thesis using no_stuck_keys [OF r four_key_typing(2)] by blast
qed

end
