(* ===== verification/Typing.thy ===== *)
theory Typing
  imports Input
begin

text \<open>
  What the user types arrives: the requests of the injector, played to an X server that tracks the keys
  that are down, type exactly the keysyms the client sent. Shown for keyboard mappings whose Shift and
  Level 3 keys do nothing else, over any sequence of key events.
\<close>

section \<open>An X server that types\<close>

definition code_sym :: "keymap \<Rightarrow> u8 \<Rightarrow> u32" where
  "code_sym km kc = col (code_row km kc) 0"

definition shifting :: "u32 set" where "shifting = {SHIFT_L, SHIFT_R}"

definition level_mods :: "u32 set" where "level_mods = {SHIFT_L, SHIFT_R, ISO_LEVEL3_SHIFT}"

definition mod_code :: "keymap \<Rightarrow> u8 \<Rightarrow> bool" where
  "mod_code km kc \<longleftrightarrow> code_sym km kc \<in> level_mods"

definition key_state_of :: "keymap \<Rightarrow> bool \<Rightarrow> bool \<Rightarrow> u8 set \<Rightarrow> key_state" where
  "key_state_of km caps num ds =
     \<lparr>st_shift = (\<exists>kc\<in>ds. code_sym km kc \<in> shifting), st_level3 = (\<exists>kc\<in>ds. code_sym km kc = ISO_LEVEL3_SHIFT),
      st_caps = caps, st_num = num\<rparr>"

text \<open>The server drops a press of a key that is down, and Shift and Level 3 type nothing.\<close>

definition typed_now :: "unicode \<Rightarrow> keymap \<Rightarrow> bool \<Rightarrow> bool \<Rightarrow> request \<Rightarrow> u8 set \<Rightarrow> u32 list" where
  "typed_now un km caps num r ds =
     (case r of Fake KEY_PRESS d _ _ \<Rightarrow>
        if d \<in> ds \<or> mod_code km d then [] else [server_types un km (key_state_of km caps num ds) d]
      | _ \<Rightarrow> [])"

primrec typed :: "unicode \<Rightarrow> keymap \<Rightarrow> bool \<Rightarrow> bool \<Rightarrow> request list \<Rightarrow> u8 set \<Rightarrow> u32 list" where
  "typed un km caps num [] ds = []"
| "typed un km caps num (r # rs) ds = typed_now un km caps num r ds @ typed un km caps num rs (key_effect r ds)"

definition keys :: "event_type \<Rightarrow> u8 list \<Rightarrow> request list" where
  "keys t ds = map (\<lambda>d. Fake t d 0 0) ds"

lemma keys_simps [simp]:
  "keys t [] = []" "keys t (d # ds) = Fake t d 0 0 # keys t ds" "keys t (ds @ es) = keys t ds @ keys t es"
  by (simp_all add: keys_def)

lemma typed_append: "typed un km caps num (rs @ qs) ds = typed un km caps num rs ds @ typed un km caps num qs (fold key_effect rs ds)"
  by (induction rs arbitrary: ds) simp_all

lemma fold_keys:
  "fold key_effect (keys KEY_RELEASE xs) ds = ds - set xs" "fold key_effect (keys KEY_PRESS xs) ds = ds \<union> set xs"
  by (induction xs arbitrary: ds) auto

lemma typed_releases: "typed un km caps num (keys KEY_RELEASE xs) ds = []"
  by (induction xs arbitrary: ds) (simp_all add: typed_now_def)

lemma typed_mods: "\<forall>x\<in>set xs. mod_code km x \<Longrightarrow> typed un km caps num (keys KEY_PRESS xs) ds = []"
  by (induction xs arbitrary: ds) (simp_all add: typed_now_def)

section \<open>What an operation sends\<close>

lemma sent_after_update: "sent_after i (i\<lparr>in_credit := c, in_sent := s\<rparr>)"
  unfolding sent_after_def by (intro exI [of _ s] exI [of _ c]) simp

lemma sent_after_pressed:
  assumes "sent_after i j"
  shows "sent_after (i\<lparr>in_pressed := p\<rparr>) (j\<lparr>in_pressed := p\<rparr>)"
proof -
  obtain s c where j: "j = i\<lparr>in_sent := s, in_credit := c\<rparr>" using assms by (auto simp: sent_after_def)
  show ?thesis unfolding sent_after_def j by (intro exI [of _ s] exI [of _ c]) simp
qed

lemma fakes_sent: "fakes t ds i = (j, Inr ()) \<Longrightarrow> in_sent j = in_sent i @ keys t ds \<and> sent_after i j"
proof (induction ds arbitrary: i)
  case (Cons d ds)
  then obtain k where k: "fake t d 0 0 i = (k, Inr ())" "fakes t ds k = (j, Inr ())"
    by (auto simp: inp_then_def split: prod.splits sum.splits)
  have "in_sent k = in_sent i @ [Fake t d 0 0]" "sent_after i k"
    using k(1) sent_after_update by (auto simp: fake_def x_request_def split: if_splits)
  then show ?case using Cons.IH [OF k(2)] by (auto intro: sent_after_trans)
qed simp

lemma keys_down_sent: "in_sent j = in_sent i @ rs \<Longrightarrow> keys_down j = fold key_effect rs (keys_down i)"
  by (simp add: keys_down_def)

lemma live_fakes:
  assumes "in_credit i = None"
  obtains j where "fakes t ds i = (j, Inr ())" "in_sent j = in_sent i @ keys t ds" "sent_after i j" "in_credit j = None"
proof -
  obtain j where j: "fakes t ds i = (j, Inr ())" "in_credit j = None" using live_requests [OF assms, of t ds] by blast
  then show thesis using fakes_sent [OF j(1)] that by blast
qed

lemma live_fake:
  assumes "in_credit i = None"
  obtains j where "fake t d 0 0 i = (j, Inr ())" "in_sent j = in_sent i @ [Fake t d 0 0]" "sent_after i j" "in_credit j = None"
proof -
  let ?j = "i\<lparr>in_credit := None, in_sent := in_sent i @ [Fake t d 0 0]\<rparr>"
  have "sent_after i ?j" by (rule sent_after_update)
  then show thesis using assms by (intro that [of ?j]) (simp_all add: fake_def x_request_def)
qed

definition press_requests :: "u8 list \<Rightarrow> u8 list \<Rightarrow> u8 \<Rightarrow> request list" where
  "press_requests rs ps kc =
     keys KEY_RELEASE rs @ keys KEY_PRESS (ps @ [kc]) @ keys KEY_RELEASE (rev ps) @ keys KEY_PRESS (rev rs)"

lemma live_press_with:
  assumes "in_credit i = None"
  obtains j where "press_with rs ps ks kc i = (j, Inr ())" "in_sent j = in_sent i @ press_requests rs ps kc"
    "sent_after (i\<lparr>in_pressed := hm_insert ks kc (in_pressed i)\<rparr>) j" "in_credit j = None"
proof -
  obtain i1 where 1: "fakes KEY_RELEASE rs i = (i1, Inr ())" "in_sent i1 = in_sent i @ keys KEY_RELEASE rs" "sent_after i i1"
      "in_credit i1 = None" using live_fakes [OF assms] by blast
  obtain i2 where 2: "fakes KEY_PRESS ps i1 = (i2, Inr ())" "in_sent i2 = in_sent i1 @ keys KEY_PRESS ps" "sent_after i1 i2"
      "in_credit i2 = None" using live_fakes [OF 1(4)] by blast
  obtain i3 where 3: "fake KEY_PRESS kc 0 0 i2 = (i3, Inr ())" "in_sent i3 = in_sent i2 @ [Fake KEY_PRESS kc 0 0]"
      "sent_after i2 i3" "in_credit i3 = None" using live_fake [OF 2(4)] by blast
  let ?i3 = "i3\<lparr>in_pressed := hm_insert ks kc (in_pressed i3)\<rparr>"
  have c: "in_credit ?i3 = None" using 3(4) by simp
  obtain i4 where 4: "fakes KEY_RELEASE (rev ps) ?i3 = (i4, Inr ())" "in_sent i4 = in_sent ?i3 @ keys KEY_RELEASE (rev ps)"
      "sent_after ?i3 i4" "in_credit i4 = None" using live_fakes [OF c] by blast
  obtain i5 where 5: "fakes KEY_PRESS (rev rs) i4 = (i5, Inr ())" "in_sent i5 = in_sent i4 @ keys KEY_PRESS (rev rs)"
      "sent_after i4 i5" "in_credit i5 = None" using live_fakes [OF 4(4)] by blast
  show thesis
  proof (rule that)
    show "press_with rs ps ks kc i = (i5, Inr ())"
      using 1(1) 2(1) 3(1) 4(1) 5(1,4) by (simp add: press_with_def inp_then_def x_flush_def)
    show "in_sent i5 = in_sent i @ press_requests rs ps kc"
      using 1(2) 2(2) 3(2) 4(2) 5(2) by (simp add: press_requests_def)
    have "sent_after i i3" using 1(3) 2(3) 3(3) by (blast intro: sent_after_trans)
    then have "sent_after (i\<lparr>in_pressed := hm_insert ks kc (in_pressed i)\<rparr>) ?i3"
      using sent_after_pressed sent_after_fields(1) by fastforce
    then show "sent_after (i\<lparr>in_pressed := hm_insert ks kc (in_pressed i)\<rparr>) i5"
      using 4(3) 5(3) by (blast intro: sent_after_trans)
  qed (rule 5(4))
qed

text \<open>What the press with its temporary changes leaves down, and types.\<close>

lemma press_requests_down:
  "fold key_effect (press_requests rs ps kc) ds = insert kc (ds - set rs \<union> set ps) - set ps \<union> set rs"
  unfolding press_requests_def fold_append comp_def fold_keys by auto

lemma press_requests_typed:
  assumes "\<forall>x \<in> set ps \<union> set rs. mod_code km x" "\<not> mod_code km kc" "kc \<notin> ds"
  shows "typed un km caps num (press_requests rs ps kc) ds =
    [server_types un km (key_state_of km caps num (ds - set rs \<union> set ps)) kc]"
proof -
  have "kc \<notin> ds - set rs \<union> set ps" using assms by auto
  then show ?thesis using assms
    by (simp add: press_requests_def typed_append fold_keys typed_releases typed_mods typed_now_def)
qed

section \<open>Keyboard mappings whose modifiers are modifiers\<close>

text \<open>
  Every location is true and within the keycodes; the keys of Shift and Level 3 have one keysym each, on
  their first level, and those keysyms are on no other key.
\<close>

definition modifier_location :: "keymap \<Rightarrow> u32 \<Rightarrow> key_location \<Rightarrow> bool" where
  "modifier_location km k l \<longleftrightarrow> mod_code km (kl_keycode l) = (k \<in> level_mods) \<and>
     (k \<in> level_mods \<longrightarrow> kl_level l = 0 \<and> kl_lock l = No_Lock \<and> k = code_sym km (kl_keycode l))"

definition in_range :: "keymap \<Rightarrow> u8 \<Rightarrow> bool" where
  "in_range km kc \<longleftrightarrow> km_min km \<le> kc \<and> kc \<le> km_max km"

definition locations_at :: "keymap \<Rightarrow> u32 \<Rightarrow> key_location set" where
  "locations_at km k = (case km_lookup km k of None \<Rightarrow> {} | Some ls \<Rightarrow> set ls)"

definition keymap_sane :: "unicode \<Rightarrow> keymap \<Rightarrow> bool" where
  "keymap_sane un km \<longleftrightarrow> 2 \<le> unat (km_per km) \<and> km_min km \<le> km_max km \<and>
     length (km_syms km) = key_count (km_min km) (km_max km) * unat (km_per km) \<and>
     (\<forall>k. \<forall>l \<in> locations_at km k. true_location un km k l \<and> modifier_location km k l)"

text \<open>A keycode that may be bound: no modifier, in no second group, and with no keysym but \<open>ks\<close>.\<close>

definition row_group2 :: "u32 list \<Rightarrow> bool" where
  "row_group2 r \<longleftrightarrow> (col r 2, col r 3) \<noteq> (0, 0) \<and> (col r 2, col r 3) \<noteq> (col r 0, col r 1)"

definition bindable :: "keymap \<Rightarrow> (u32 \<Rightarrow> bool) \<Rightarrow> u8 \<Rightarrow> bool" where
  "bindable km only kc \<longleftrightarrow> in_range km kc \<and> \<not> mod_code km kc \<and> \<not> row_group2 (code_row km kc) \<and>
     (\<forall>k. \<forall>l \<in> locations_at km k. kl_keycode l = kc \<longrightarrow> only k)"

lemma find_key_location: "find_key un ks km = Some l \<Longrightarrow> l \<in> locations_at km (canonical un ks)"
  by (auto simp: find_key_def locations_at_def split: option.splits list.splits bind_splits)

lemma take_drop_front:
  assumes "a + b \<le> n" "n \<le> length xs"
  shows "take b (drop a (take n xs @ ys)) = take b (drop a xs)"
proof -
  have "take b (drop a (take n xs @ ys)) = take b (drop a (take n xs))" using assms by simp
  also have "\<dots> = take (min b (n - a)) (drop a xs)" by (simp add: drop_take)
  also have "min b (n - a) = b" using assms by simp
  finally show ?thesis .
qed

lemma key_row_update:
  assumes "length row = per" "(j + 1) * per \<le> length syms"
  shows "key_row per (take (j * per) syms @ row @ drop (j * per + per) syms) i = (if i = j then row else key_row per syms i)"
proof -
  let ?new = "take (j * per) syms @ row @ drop (j * per + per) syms"
  have len: "length ?new = length syms" and at: "j * per + per \<le> length syms" using assms by (simp_all add: algebra_simps)
  consider "i = j" | "i < j" | "j < i" by linarith
  then show ?thesis
  proof cases
    case 1
    then show ?thesis using assms at len by (simp add: key_row_def)
  next
    case 2
    then have "(i + 1) * per \<le> j * per" by (intro mult_le_mono1) simp
    then have "i * per + per \<le> j * per" by (simp add: algebra_simps)
    then have f: "take per (drop (i * per) ?new) = take per (drop (i * per) syms)"
      using at by (intro take_drop_front) simp_all
    show ?thesis unfolding key_row_def len f using 2 by simp
  next
    case 3
    then have "(j + 1) * per \<le> i * per" by (intro mult_le_mono1) simp
    then have "j * per + per \<le> i * per" by (simp add: algebra_simps)
    then have f: "drop (i * per) ?new = drop (i * per) syms"
      using assms(1) at 3 by (simp add: min_absorb2)
    show ?thesis unfolding key_row_def len f using 3 by simp
  qed
qed

lemma bound_row_cols:
  assumes "2 \<le> unat per"
  shows "length (bound_row per ks) = unat per" "col (bound_row per ks) 0 = ks" "col (bound_row per ks) (Suc 0) = ks"
    "2 \<le> i \<Longrightarrow> col (bound_row per ks) i = 0"
proof -
  have one: "1 < per" using assms by (simp add: word_less_nat_alt)
  obtain n where n: "unat per = Suc (Suc n)" using assms by (metis add_2_eq_Suc le_Suc_ex)
  have r: "bound_row per ks = ks # ks # replicate n 0" using one by (simp add: bound_row_def n)
  show "length (bound_row per ks) = unat per" "col (bound_row per ks) 0 = ks" "col (bound_row per ks) (Suc 0) = ks"
    by (simp_all add: r col_def n)
  assume "2 \<le> i"
  then obtain k where "i = Suc (Suc k)" by (metis add_2_eq_Suc le_Suc_ex)
  then show "col (bound_row per ks) i = 0" by (simp add: r col_def)
qed

lemma two_groups_rows: "two_groups count per syms \<longleftrightarrow> (\<exists>i<count. row_group2 (key_row per syms i))"
  by (auto simp: two_groups_def list_ex_iff row_group2_def Let_def)

lemma has_level3_rows: "has_level3 count per syms \<longleftrightarrow> (\<exists>i<count. col (key_row per syms i) 0 = ISO_LEVEL3_SHIFT)"
  by (auto simp: has_level3_def list_ex_iff)

text \<open>The index of a keycode in range.\<close>

lemma code_index:
  assumes "in_range km kc"
  shows "unat kc - unat (km_min km) = unat (kc - km_min km)" "unat (kc - km_min km) < key_count (km_min km) (km_max km)"
proof -
  show i: "unat kc - unat (km_min km) = unat (kc - km_min km)"
    using assms by (simp add: in_range_def unat_sub)
  show "unat (kc - km_min km) < key_count (km_min km) (km_max km)"
    using assms unfolding i [symmetric] in_range_def key_count_def word_le_nat_alt by linarith
qed

section \<open>Binding a keysym\<close>

lemma code_row_out:
  assumes "length (km_syms km) = key_count (km_min km) (km_max km) * unat (km_per km)"
    and "km_min km \<le> km_max km" "0 < unat (km_per km)" "\<not> in_range km kc"
  shows "code_row km kc = []"
proof -
  have "key_count (km_min km) (km_max km) \<le> unat (kc - km_min km)"
  proof (cases "km_min km \<le> kc")
    case True
    then show ?thesis using assms(2,4) by (auto simp: in_range_def key_count_def unat_sub word_le_nat_alt)
  next
    case False
    have "unat (kc - km_min km) = 256 + unat kc - unat (km_min km)"
      using False by (simp add: unat_sub_if_size word_size word_le_nat_alt)
    then show ?thesis using assms(2) unsigned_less [of "km_max km", where ?'a = nat]
      by (simp add: key_count_def word_le_nat_alt)
  qed
  then have "key_count (km_min km) (km_max km) * unat (km_per km) \<le> unat (kc - km_min km) * unat (km_per km)"
    by (rule mult_le_mono1)
  then show ?thesis using assms(1,3) by (simp add: code_row_def key_row_def)
qed

lemma keycode_inj: "unat (c - m) = unat (kc - m) \<Longrightarrow> c = (kc :: u8)"
  by (metis diff_add_cancel word_unat_eq_iff)

text \<open>A bound keysym takes over its row and no other.\<close>

lemma bind_rows:
  assumes sane: "keymap_sane un km" and range: "in_range km kc"
  obtains km' where "bind_keymap (km_per km) ks kc km = Some km'" "km_min km' = km_min km" "km_max km' = km_max km"
    "km_per km' = km_per km" "length (km_syms km') = length (km_syms km)"
    "km_lookup km' = (km_lookup km)(ks \<mapsto> \<lparr>kl_keycode = kc, kl_level = 0, kl_lock = No_Lock\<rparr> #
       (case km_lookup km ks of None \<Rightarrow> [] | Some ls \<Rightarrow> ls))"
    "\<And>i. key_row (unat (km_per km)) (km_syms km') i =
       (if i = unat (kc - km_min km) then bound_row (km_per km) ks else key_row (unat (km_per km)) (km_syms km) i)"
proof -
  let ?per = "unat (km_per km)"
  let ?i = "unat (kc - km_min km)"
  have per: "2 \<le> ?per" using sane by (simp add: keymap_sane_def)
  have "(?i + 1) * ?per \<le> key_count (km_min km) (km_max km) * ?per"
    using code_index(2) [OF range] by (intro mult_le_mono1) simp
  then have fits: "(?i + 1) * ?per \<le> length (km_syms km)" using sane by (simp add: keymap_sane_def)
  then have at: "?i * ?per + ?per \<le> length (km_syms km)" by (simp add: algebra_simps)
  have "\<not> kc < km_min km" using range unfolding in_range_def by (metis leD)
  then show thesis
    using at key_row_update [OF bound_row_cols(1) [OF per] fits, of ks]
    by (intro that [of "km\<lparr>km_syms := take (?i * ?per) (km_syms km) @ bound_row (km_per km) ks @ drop (?i * ?per + ?per) (km_syms km),
          km_lookup := (km_lookup km)(ks \<mapsto> \<lparr>kl_keycode = kc, kl_level = 0, kl_lock = No_Lock\<rparr> #
            (case km_lookup km ks of None \<Rightarrow> [] | Some ls \<Rightarrow> ls))\<rparr>"])
       (simp_all add: bind_keymap_def Let_def code_index(1) [OF range] bound_row_cols(1) [OF per])
qed

lemma uppercase_keysym_zero: "uppercase_keysym un 0 = None"
  by (simp add: uppercase_keysym_def case_keysym_def char_from_keysym_def latin1_def)

lemma bound_row_pair: "2 \<le> unat per \<Longrightarrow> level_pair un third (bound_row per ks) False = (ks, ks)"
  using bound_row_cols [where per = per and ks = ks] uppercase_keysym_zero
  by (auto simp: level_pair_def shifted_sym_def Let_def split: option.splits)

lemma bind_keymap_sane:
  assumes sane: "keymap_sane un km" and free: "bindable km (\<lambda>_. False) kc"
    and new: "ks \<notin> level_mods" "locations_at km ks = {}" "canonical un ks = ks"
  obtains km' where "bind_keymap (km_per km) ks kc km = Some km'" "keymap_sane un km'" "map_third km' = map_third km"
    "\<And>c. code_row km' c = (if c = kc then bound_row (km_per km) ks else code_row km c)"
    "\<And>k. locations_at km' k = (if k = ks then {\<lparr>kl_keycode = kc, kl_level = 0, kl_lock = No_Lock\<rparr>} else locations_at km k)"
    "\<And>c. in_range km' c = in_range km c" "\<And>c. mod_code km' c = mod_code km c"
    "\<And>c. mod_code km c \<Longrightarrow> code_sym km' c = code_sym km c" "km_per km' = km_per km"
proof -
  have range: "in_range km kc" and kc: "\<not> mod_code km kc" "\<not> row_group2 (code_row km kc)" using free by (simp_all add: bindable_def)
  obtain km' where b: "bind_keymap (km_per km) ks kc km = Some km'" "km_min km' = km_min km" "km_max km' = km_max km"
    "km_per km' = km_per km" "length (km_syms km') = length (km_syms km)"
    "km_lookup km' = (km_lookup km)(ks \<mapsto> \<lparr>kl_keycode = kc, kl_level = 0, kl_lock = No_Lock\<rparr> #
       (case km_lookup km ks of None \<Rightarrow> [] | Some ls \<Rightarrow> ls))"
    and rows: "\<And>i. key_row (unat (km_per km)) (km_syms km') i =
       (if i = unat (kc - km_min km) then bound_row (km_per km) ks else key_row (unat (km_per km)) (km_syms km) i)"
    using bind_rows [OF sane range] by blast
  have per: "2 \<le> unat (km_per km)" using sane by (simp add: keymap_sane_def)
  note cols = bound_row_cols [OF per, where ks = ks]
  have row: "code_row km' c = (if c = kc then bound_row (km_per km) ks else code_row km c)" for c
    using rows [of "unat (c - km_min km)"] keycode_inj [of c "km_min km" kc] by (auto simp: code_row_def b)
  have sym: "code_sym km' c = (if c = kc then ks else code_sym km c)" for c by (simp add: code_sym_def row cols)
  have mods: "mod_code km' c = mod_code km c" for c using kc(1) new(1) by (simp add: mod_code_def sym)
  have locs: "locations_at km' k = (if k = ks then {\<lparr>kl_keycode = kc, kl_level = 0, kl_lock = No_Lock\<rparr>} else locations_at km k)" for k
    using new(2) by (auto simp: locations_at_def b(6) split: option.splits)
  have third: "map_third km' = map_third km"
  proof -
    let ?count = "key_count (km_min km) (km_max km)" and ?i = "unat (kc - km_min km)" and ?per = "unat (km_per km)"
    have old: "key_row ?per (km_syms km) ?i = code_row km kc" by (simp add: code_row_def)
    have "row_group2 (key_row ?per (km_syms km') i) = row_group2 (key_row ?per (km_syms km) i)" for i
      using kc(2) cols by (simp add: rows row_group2_def old)
    moreover have "(col (key_row ?per (km_syms km') i) 0 = ISO_LEVEL3_SHIFT) = (col (key_row ?per (km_syms km) i) 0 = ISO_LEVEL3_SHIFT)" for i
      using kc(1) new(1) cols by (auto simp: rows old code_sym_def mod_code_def level_mods_def)
    ultimately show ?thesis
      by (simp add: map_third_def level3_readable_def b two_groups_rows has_level3_rows)
  qed
  have "true_location un km' k l \<and> modifier_location km' k l" if l: "l \<in> locations_at km' k" for k l
  proof (cases "k = ks")
    case True
    then have "l = \<lparr>kl_keycode = kc, kl_level = 0, kl_lock = No_Lock\<rparr>" using l locs by simp
    then show ?thesis using True new kc(1) bound_row_pair [OF per]
      by (simp add: true_location_def modifier_location_def mods row level_mods_def)
  next
    case False
    then have l: "l \<in> locations_at km k" using that locs by simp
    then have "kl_keycode l \<noteq> kc" using free by (auto simp: bindable_def)
    then show ?thesis using l sane
      by (simp add: keymap_sane_def true_location_def modifier_location_def row sym mods third)
  qed
  then have sane': "keymap_sane un km'" using sane by (simp add: keymap_sane_def b)
  have "code_sym km' c = code_sym km c" if "mod_code km c" for c using sym kc(1) that by auto
  then show thesis using that [OF b(1) sane' third row locs _ mods _ b(4)] by (simp add: in_range_def b(2,3))
qed

section \<open>The injector's tables\<close>

definition maps_ok :: "unicode \<Rightarrow> injector \<Rightarrow> bool" where
  "maps_ok un i \<longleftrightarrow> keymap_sane un (in_keymap i) \<and>
     (\<exists>s. in_shift_keycode i = Some s \<and> code_sym (in_keymap i) s \<in> shifting) \<and>
     (\<forall>s. in_level3_keycode i = Some s \<longrightarrow> code_sym (in_keymap i) s = ISO_LEVEL3_SHIFT) \<and>
     (map_third (in_keymap i) \<longrightarrow> in_level3_keycode i \<noteq> None) \<and>
     distinct (in_spares i) \<and> (\<forall>kc\<in>set (in_spares i). bindable (in_keymap i) (\<lambda>_. False) kc) \<and>
     hm_ok (in_dynamic i) \<and> distinct (map snd (in_dynamic i)) \<and>
     (\<forall>(k, kc)\<in>set (in_dynamic i). bindable (in_keymap i) (\<lambda>x. x = k) kc \<and> kc \<notin> set (in_spares i))"

lemma maps_ok_cong:
  "in_keymap j = in_keymap i \<Longrightarrow> in_shift_keycode j = in_shift_keycode i \<Longrightarrow> in_level3_keycode j = in_level3_keycode i \<Longrightarrow>
   in_spares j = in_spares i \<Longrightarrow> in_dynamic j = in_dynamic i \<Longrightarrow> maps_ok un j = maps_ok un i"
  by (simp add: maps_ok_def)

lemma maps_ok_sent: "sent_after i j \<Longrightarrow> maps_ok un j = maps_ok un i"
  by (intro maps_ok_cong) (auto dest: sent_after_fields)

text \<open>The same keys are modifiers, with the same keysyms.\<close>

definition same_mods :: "keymap \<Rightarrow> keymap \<Rightarrow> bool" where
  "same_mods km km' \<longleftrightarrow> (\<forall>c. mod_code km' c = mod_code km c \<and> (mod_code km c \<longrightarrow> code_sym km' c = code_sym km c))"

lemma same_mods_refl [simp]: "same_mods km km" by (simp add: same_mods_def)

lemma same_mods_sym: "same_mods km km' \<Longrightarrow> code_sym km' c \<in> level_mods \<or> code_sym km c \<in> level_mods \<Longrightarrow> code_sym km' c = code_sym km c"
  by (auto simp: same_mods_def mod_code_def)

lemma forget_location_fields:
  "km_min (forget_location old kc km) = km_min km" "km_max (forget_location old kc km) = km_max km"
  "km_per (forget_location old kc km) = km_per km" "km_syms (forget_location old kc km) = km_syms km"
  "locations_at (forget_location old kc km) k =
     (if k = old then {l \<in> locations_at km k. kl_keycode l \<noteq> kc} else locations_at km k)"
  by (auto simp: forget_location_def locations_at_def Let_def filter_empty_conv split: option.splits if_splits)

lemma forget_location_codes [simp]:
  "code_row (forget_location old kc km) c = code_row km c" "map_third (forget_location old kc km) = map_third km"
  "code_sym (forget_location old kc km) c = code_sym km c" "mod_code (forget_location old kc km) c = mod_code km c"
  "in_range (forget_location old kc km) c = in_range km c"
  by (simp_all add: code_row_def map_third_def code_sym_def mod_code_def in_range_def forget_location_fields)

lemma forget_location_sane: "keymap_sane un km \<Longrightarrow> keymap_sane un (forget_location old kc km)"
  by (auto simp: keymap_sane_def forget_location_fields true_location_def modifier_location_def split: if_splits)

lemma bindable_forget: "bindable km only c \<Longrightarrow> bindable (forget_location old kc km) only c"
  by (auto simp: bindable_def forget_location_fields split: if_splits)

lemma bindable_forgotten: "bindable km (\<lambda>x. x = old) kc \<Longrightarrow> bindable (forget_location old kc km) (\<lambda>_. False) kc"
  by (auto simp: bindable_def forget_location_fields split: if_splits)

definition same_hands :: "injector \<Rightarrow> injector \<Rightarrow> bool" where
  "same_hands i j \<longleftrightarrow> in_pressed j = in_pressed i \<and> in_held_modifiers j = in_held_modifiers i \<and>
     in_credit j = in_credit i \<and> in_pressed_buttons j = in_pressed_buttons i \<and>
     in_shift_keycode j = in_shift_keycode i \<and> in_level3_keycode j = in_level3_keycode i \<and> in_num_lock_mask j = in_num_lock_mask i"

lemma take_keycode_ok:
  assumes ok: "maps_ok un i" and t: "take_keycode i = (r, j)"
  shows "maps_ok un j \<and> same_hands i j \<and> in_sent j = in_sent i \<and> same_mods (in_keymap i) (in_keymap j) \<and>
    (\<forall>k. locations_at (in_keymap j) k \<subseteq> locations_at (in_keymap i) k) \<and>
    (\<forall>kc. r = Some kc \<longrightarrow> bindable (in_keymap j) (\<lambda>_. False) kc \<and> kc \<notin> set (in_spares j) \<and> kc \<notin> snd ` set (in_dynamic j))"
proof (cases "in_spares i = []")
  case False
  then have s: "in_spares i = butlast (in_spares i) @ [last (in_spares i)]" by simp
  have "distinct (butlast (in_spares i) @ [last (in_spares i)])" "\<forall>kc \<in> set (butlast (in_spares i) @ [last (in_spares i)]). bindable (in_keymap i) (\<lambda>_. False) kc"
      "\<forall>(k, kc)\<in>set (in_dynamic i). kc \<notin> set (butlast (in_spares i) @ [last (in_spares i)])"
    using ok s by (auto simp: maps_ok_def)
  moreover have "r = Some (last (in_spares i))" "j = i\<lparr>in_spares := butlast (in_spares i)\<rparr>"
    using t False by (simp_all add: take_keycode_def)
  ultimately show ?thesis using ok by (auto simp: maps_ok_def same_hands_def)
next
  case spares: True
  show ?thesis
  proof (cases "List.find (\<lambda>p. hm_get (in_pressed i) (in_dynamic_order i ! p) = None) [0..<length (in_dynamic_order i)]")
    case None
    then show ?thesis using t ok spares by (auto simp: take_keycode_def same_hands_def)
  next
    case (Some pos)
    let ?old = "in_dynamic_order i ! pos"
    let ?i = "i\<lparr>in_dynamic_order := take pos (in_dynamic_order i) @ drop (pos + 1) (in_dynamic_order i)\<rparr>"
    show ?thesis
    proof (cases "hm_get (in_dynamic i) ?old")
      case None
      then have "r = None" "j = ?i" using t Some spares by (simp_all add: take_keycode_def Let_def)
      then show ?thesis using ok by (simp add: maps_ok_def same_hands_def)
    next
      case (Some kc)
      let ?dyn = "hm_remove ?old (in_dynamic i)"
      have j: "r = Some kc" "j = ?i\<lparr>in_dynamic := ?dyn, in_keymap := forget_location ?old kc (in_keymap i)\<rparr>"
        using t Some spares \<open>List.find _ _ = Some pos\<close> by (simp_all add: take_keycode_def Let_def)
      have mem: "(?old, kc) \<in> set (in_dynamic i)" using Some by (rule map_of_SomeD)
      have dist: "distinct (map snd ?dyn)" "kc \<notin> snd ` set ?dyn"
      proof -
        have d: "distinct (map snd (in_dynamic i))" using ok by (simp add: maps_ok_def)
        then show "distinct (map snd ?dyn)" by (simp add: AList.delete_eq distinct_map_filter)
        show "kc \<notin> snd ` set ?dyn"
        proof
          assume "kc \<in> snd ` set ?dyn"
          then obtain k where k: "(k, kc) \<in> set (in_dynamic i)" "k \<noteq> ?old" by (auto simp: AList.delete_eq)
          have "(k, kc) = (?old, kc)" using d k(1) mem unfolding distinct_map by (metis inj_onD snd_conv)
          then show False using k(2) by simp
        qed
      qed
      have old: "\<forall>(k, c)\<in>set (in_dynamic i). bindable (in_keymap i) (\<lambda>x. x = k) c" using ok by (auto simp: maps_ok_def)
      then have here: "bindable (in_keymap i) (\<lambda>x. x = ?old) kc" using mem by auto
      have "maps_ok un j"
        using ok spares dist(1) old
        by (auto simp: maps_ok_def j forget_location_sane intro: bindable_forget dest: hm_mem_remove)
      then show ?thesis
        using bindable_forgotten [OF here] spares dist(2)
        by (simp add: j same_hands_def same_mods_def) (auto simp: forget_location_fields)
    qed
  qed
qed

text \<open>A bound key gets a true location, and nothing else changes its meaning.\<close>

lemma hm_insert_snd_distinct:
  "hm_ok m \<Longrightarrow> distinct (map snd m) \<Longrightarrow> v \<notin> snd ` set m \<Longrightarrow> distinct (map snd (hm_insert k v m))"
proof (induction m)
  case (Cons x m)
  obtain a b where x: "x = (a, b)" by (cases x)
  show ?case
  proof (cases "a = k")
    case True
    then show ?thesis using Cons.prems by (simp add: x)
  next
    case False
    have "b \<notin> snd ` set (hm_insert k v m)"
    proof
      assume "b \<in> snd ` set (hm_insert k v m)"
      then obtain c where "(c, b) \<in> set (hm_insert k v m)" by auto
      then have "(c, b) = (k, v) \<or> (c, b) \<in> set m" by (rule hm_mem_insert)
      then show False using Cons.prems by (auto simp: x image_iff)
    qed
    then show ?thesis using False Cons by (simp add: x)
  qed
qed simp

lemma bindable_bound:
  assumes row: "\<And>c. code_row km' c = (if c = kc then r else code_row km c)"
    and locs: "\<And>k. locations_at km' k = (if k = ks then {\<lparr>kl_keycode = kc, kl_level = 0, kl_lock = No_Lock\<rparr>} else locations_at km k)"
    and range: "\<And>c. in_range km' c = in_range km c" and mods: "\<And>c. mod_code km' c = mod_code km c"
    and b: "bindable km only c" "c \<noteq> kc"
  shows "bindable km' only c"
  using b by (auto simp: bindable_def row locs range mods split: if_splits)

lemma bind_dynamic_ok:
  assumes ok: "maps_ok un i" and live: "in_credit i = None"
    and new: "ks \<notin> level_mods" "locations_at (in_keymap i) ks = {}" "canonical un ks = ks"
    and b: "bind_dynamic xr ks i = (j, res)"
  shows "maps_ok un j \<and> same_hands i j \<and> same_mods (in_keymap i) (in_keymap j) \<and>
    (\<exists>rs. in_sent j = in_sent i @ rs \<and> (\<forall>q\<in>set rs. \<exists>kc per row. q = Change_Mapping kc per row)) \<and>
    (\<forall>kc. res = Inr (Some kc) \<longrightarrow> \<lparr>kl_keycode = kc, kl_level = 0, kl_lock = No_Lock\<rparr> \<in> locations_at (in_keymap j) ks)"
proof (cases "take_keycode i")
  case (Pair r0 i1)
  note taken = take_keycode_ok [OF ok Pair]
  show ?thesis
  proof (cases r0)
    case None
    then show ?thesis using b taken by (auto simp: bind_dynamic_def Pair)
  next
    case (Some kc)
    let ?km = "in_keymap i1"
    have per: "max (km_per ?km) 1 = km_per ?km"
      using taken by (auto simp: maps_ok_def keymap_sane_def word_le_nat_alt max_def)
    let ?row = "bound_row (km_per ?km) ks"
    let ?i2 = "i1\<lparr>in_credit := None, in_sent := in_sent i1 @ [Change_Mapping kc (km_per ?km) ?row]\<rparr>"
    have c: "in_credit i1 = None" using taken live by (simp add: same_hands_def)
    have free: "bindable ?km (\<lambda>_. False) kc" and kc: "kc \<notin> set (in_spares i1)" "kc \<notin> snd ` set (in_dynamic i1)"
      using taken Some by auto
    have empty: "locations_at ?km ks = {}" using taken new(2) by blast
    have sane: "keymap_sane un ?km" using taken by (simp add: maps_ok_def)
    obtain km' where km': "bind_keymap (km_per ?km) ks kc ?km = Some km'" "keymap_sane un km'" "map_third km' = map_third ?km"
      "\<And>c. code_row km' c = (if c = kc then ?row else code_row ?km c)"
      "\<And>k. locations_at km' k = (if k = ks then {\<lparr>kl_keycode = kc, kl_level = 0, kl_lock = No_Lock\<rparr>} else locations_at ?km k)"
      "\<And>c. in_range km' c = in_range ?km c" "\<And>c. mod_code km' c = mod_code ?km c"
      "\<And>c. mod_code ?km c \<Longrightarrow> code_sym km' c = code_sym ?km c" "km_per km' = km_per ?km"
      by (rule bind_keymap_sane [OF sane free new(1) empty new(3)]) (rule that)
    have i1: "maps_ok un i1" using taken by simp
    show ?thesis
    proof (cases "xr_rebind xr")
      case False
    then have j: "j = ?i2" "\<forall>kc. res \<noteq> Inr (Some kc)"
      using b c by (auto simp: bind_dynamic_def Pair Some per x_request_def inp_then_def Let_def)
    have "maps_ok un ?i2 = maps_ok un i1" by (rule maps_ok_cong) simp_all
    then have "maps_ok un ?i2" using i1 by simp
    then show ?thesis using taken j c by (simp add: same_hands_def same_mods_def)
  next
    case True
    then have j: "res = Inr (Some kc)" "j = ?i2\<lparr>in_keymap := km', in_dynamic := hm_insert ks kc (in_dynamic i1), in_dynamic_order := in_dynamic_order i1 @ [ks]\<rparr>"
      using b c by (auto simp: bind_dynamic_def Pair Some per x_request_def inp_then_def km'(1) x_flush_def Let_def split: if_splits)
    have mods: "same_mods ?km km'" using km'(7,8) by (simp add: same_mods_def)
    note same = bindable_bound [OF km'(4,5,6,7)]
    have spares: "\<forall>c\<in>set (in_spares i1). bindable km' (\<lambda>_. False) c"
      using i1 kc(1) same by (metis maps_ok_def)
    have fresh: "bindable km' (\<lambda>x. x = ks) kc"
      using free km'(4-7) bound_row_cols [where per = "km_per ?km" and ks = ks] i1
      by (auto simp: bindable_def maps_ok_def keymap_sane_def row_group2_def split: if_splits)
    have dyn: "bindable km' (\<lambda>x. x = k) c \<and> c \<notin> set (in_spares i1)" if "(k, c) \<in> set (hm_insert ks kc (in_dynamic i1))" for k c
    proof (cases "(k, c) = (ks, kc)")
      case False
      then have "(k, c) \<in> set (in_dynamic i1)" using hm_mem_insert [OF that] by blast
      then have "bindable ?km (\<lambda>x. x = k) c" "c \<notin> set (in_spares i1)" "c \<noteq> kc"
        using i1 kc(2) by (auto simp: maps_ok_def image_iff)
      then show ?thesis using same by blast
    qed (use fresh kc(1) in simp)
    have "maps_ok un j"
      using i1 km'(2,3) mods spares dyn kc(2)
      by (auto simp: maps_ok_def j hm_insert_snd_distinct same_mods_sym shifting_def level_mods_def)
    moreover have "same_hands i j" using taken c by (auto simp: same_hands_def j)
    moreover have "same_mods (in_keymap i) (in_keymap j)" using taken mods by (auto simp: same_mods_def j)
    ultimately show ?thesis using taken km'(5) by (simp add: j)
    qed
  qed
qed

section \<open>The modifiers the client holds\<close>

text \<open>
  The pressed keys have distinct keycodes, a pressed modifier sits on its own key and is down, and the
  modifiers noted as held are those pressed.
\<close>

definition mods_ok :: "keymap \<Rightarrow> (u32, u8) hmap \<Rightarrow> u32 set \<Rightarrow> u8 set \<Rightarrow> bool" where
  "mods_ok km p held ds \<longleftrightarrow> hm_ok p \<and> distinct (map snd p) \<and>
     (\<forall>m kc. hm_get p m = Some kc \<longrightarrow> mod_code km kc = (m \<in> level_mods) \<and> (m \<in> level_mods \<longrightarrow> m = code_sym km kc \<and> kc \<in> ds)) \<and>
     (\<forall>m\<in>level_mods. m \<in> held \<longleftrightarrow> hm_get p m \<noteq> None) \<and> ALT_R \<notin> held \<and> ds \<subseteq> snd ` set p"

lemma mods_ok_same: "same_mods km km' \<Longrightarrow> mods_ok km p held ds \<Longrightarrow> mods_ok km' p held ds"
  by (auto simp: mods_ok_def same_mods_def)

lemma hm_code_unique:
  assumes "distinct (map snd p)" "hm_get p m = Some kc" "hm_get p m' = Some kc"
  shows "m' = m"
proof -
  have "(m', kc) = (m, kc)"
    using assms unfolding distinct_map by (metis inj_onD map_of_SomeD snd_conv)
  then show ?thesis by simp
qed

lemma mods_ok_released:
  assumes ok: "mods_ok km p held ds" and m: "hm_get p m = Some kc"
  shows "mods_ok km (hm_remove m p) (held - {m}) (ds - {kc})"
proof -
  have "hm_ok p" "distinct (map snd p)" using ok by (simp_all add: mods_ok_def)
  note sub = hm_values_remove [OF this(1) m] and unique = hm_code_unique [OF this(2) m]
  have "ds \<subseteq> snd ` set p" using ok by (simp add: mods_ok_def)
  then have "ds - {kc} \<subseteq> snd ` set (hm_remove m p)" using sub by blast
  moreover have "distinct (map snd (hm_remove m p))"
    using ok by (simp add: mods_ok_def AList.delete_eq distinct_map_filter)
  ultimately show ?thesis
    using ok unique by (auto simp: mods_ok_def hm_get_remove split: if_splits)
qed

text \<open>Only the noted modifiers that select a level, and the right Alt, matter.\<close>

lemma mods_ok_held: "mods_ok km p held ds \<Longrightarrow> \<forall>m\<in>insert ALT_R level_mods. m \<in> held' \<longleftrightarrow> m \<in> held \<Longrightarrow> mods_ok km p held' ds"
  by (auto simp: mods_ok_def)

lemma mods_ok_forget_plain:
  assumes "mods_ok km p held ds" "hm_get p m = Some kc" "m \<notin> level_mods"
  shows "mods_ok km (hm_remove m p) held (ds - {kc})"
  using assms(1,3) by (intro mods_ok_held [OF mods_ok_released [OF assms(1,2)]]) (auto simp: mods_ok_def)

lemma mods_ok_stray:
  assumes "mods_ok km p held ds" "kc \<notin> snd ` set p" "held' = held - {m}" "hm_get p m = None"
  shows "mods_ok km p held' (ds - {kc})"
proof -
  have "kc \<notin> ds" using assms by (auto simp: mods_ok_def)
  then have "ds - {kc} = ds" by simp
  then show ?thesis using assms(1,3,4) by (auto simp: mods_ok_def)
qed

lemma mods_ok_pressed:
  assumes ok: "mods_ok km p held ds" and new: "hm_get p ks = None" "kc \<notin> snd ` set p" "ks \<noteq> ALT_R"
    and code: "mod_code km kc = (ks \<in> level_mods)" "ks \<in> level_mods \<longrightarrow> ks = code_sym km kc \<and> kc \<in> ds'"
    and held: "held' = held \<or> held' = insert ks held" "ks \<in> level_mods \<longrightarrow> ks \<in> held'"
    and ds: "ds' \<subseteq> insert kc (snd ` set p)" "\<And>m c. hm_get p m = Some c \<Longrightarrow> m \<in> level_mods \<Longrightarrow> c \<in> ds'"
  shows "mods_ok km (hm_insert ks kc p) held' ds'"
proof -
  have vals: "snd ` set (hm_insert ks kc p) = insert kc (snd ` set p)" by (rule hm_values_insert_new [OF new(1)])
  have "hm_ok (hm_insert ks kc p)" "distinct (map snd (hm_insert ks kc p))"
    using ok new hm_insert_snd_distinct by (auto simp: mods_ok_def)
  moreover have "\<forall>m c. hm_get (hm_insert ks kc p) m = Some c \<longrightarrow>
      mod_code km c = (m \<in> level_mods) \<and> (m \<in> level_mods \<longrightarrow> m = code_sym km c \<and> c \<in> ds')"
    using ok code ds(2) by (auto simp: mods_ok_def hm_get_insert)
  moreover have "\<forall>m\<in>level_mods. m \<in> held' \<longleftrightarrow> hm_get (hm_insert ks kc p) m \<noteq> None"
    using ok held by (auto simp: mods_ok_def hm_get_insert)
  moreover have "ALT_R \<notin> held'" using ok held(1) new(3) by (auto simp: mods_ok_def)
  ultimately show ?thesis using ds(1) vals by (simp add: mods_ok_def)
qed

text \<open>The Shift and Level 3 the server sees are those the client holds.\<close>

lemma mods_ok_state:
  assumes "mods_ok km p held ds"
  shows "(\<exists>kc\<in>ds. code_sym km kc \<in> shifting) \<longleftrightarrow> SHIFT_L \<in> held \<or> SHIFT_R \<in> held"
    and "(\<exists>kc\<in>ds. code_sym km kc = ISO_LEVEL3_SHIFT) \<longleftrightarrow> ISO_LEVEL3_SHIFT \<in> held"
proof -
  have entry: "mod_code km kc = (m \<in> level_mods)" "m \<in> level_mods \<Longrightarrow> m = code_sym km kc \<and> kc \<in> ds"
    if "hm_get p m = Some kc" for m kc
    using assms that unfolding mods_ok_def by blast+
  have held: "m \<in> held \<longleftrightarrow> hm_get p m \<noteq> None" if "m \<in> level_mods" for m
    using assms that unfolding mods_ok_def by blast
  have down: "code_sym km kc \<in> held" if "kc \<in> ds" "code_sym km kc \<in> level_mods" for kc
  proof -
    have "kc \<in> snd ` set p" "hm_ok p" using assms that(1) unfolding mods_ok_def by blast+
    then obtain m where m: "hm_get p m = Some kc" by (auto simp: image_iff)
    have "m = code_sym km kc" using entry [OF m] that(2) by (simp add: mod_code_def)
    then show ?thesis using m held [OF that(2)] by simp
  qed
  have up: "\<exists>kc\<in>ds. code_sym km kc = m" if "m \<in> held" "m \<in> level_mods" for m
    using held [OF that(2)] that entry by fastforce
  show "(\<exists>kc\<in>ds. code_sym km kc \<in> shifting) \<longleftrightarrow> SHIFT_L \<in> held \<or> SHIFT_R \<in> held"
    using down up [of SHIFT_L] up [of SHIFT_R] by (fastforce simp: shifting_def level_mods_def)
  show "(\<exists>kc\<in>ds. code_sym km kc = ISO_LEVEL3_SHIFT) \<longleftrightarrow> ISO_LEVEL3_SHIFT \<in> held"
    using down up [of ISO_LEVEL3_SHIFT] by (fastforce simp: level_mods_def)
qed

section \<open>Releases\<close>

definition typing_ok :: "unicode \<Rightarrow> injector \<Rightarrow> bool" where
  "typing_ok un i \<longleftrightarrow> maps_ok un i \<and> in_credit i = None \<and>
     mods_ok (in_keymap i) (in_pressed i) (in_held_modifiers i) (keys_down i)"

lemma level_mods_no_char: "m \<in> level_mods \<Longrightarrow> char_from_keysym un m = None"
  by (auto simp: level_mods_def SHIFT_L_def SHIFT_R_def ISO_LEVEL3_SHIFT_def char_from_keysym_def latin1_def)

lemma level_mods_modifier: "m \<in> level_mods \<Longrightarrow> is_modifier m"
  by (auto simp: level_mods_def is_modifier_def)

lemma keysym_from_char_plain: "keysym_from_char c \<notin> level_mods"
proof
  assume mods: "keysym_from_char c \<in> level_mods"
  show False
  proof (cases "latin1 c")
    case True
    then show False using mods latin1_bounds [OF True]
      by (auto simp: level_mods_def SHIFT_L_def SHIFT_R_def ISO_LEVEL3_SHIFT_def word_le_nat_alt)
  next
    case False
    have "bit (0x01000000 OR c) 24" by (simp add: bit_or_iff)
    moreover have "\<not> bit m 24" if "m \<in> level_mods" for m :: u32
      using that by (auto simp: level_mods_def SHIFT_L_def SHIFT_R_def ISO_LEVEL3_SHIFT_def)
    ultimately have "0x01000000 OR c \<notin> level_mods" by blast
    then show False using mods False
      by (auto simp: keysym_from_char_def level_mods_def SHIFT_L_def SHIFT_R_def ISO_LEVEL3_SHIFT_def
          BACKSPACE_def TAB_def RETURN_def ESCAPE_def DELETE_def split: if_splits)
  qed
qed

lemma case_keysym_plain: "case_keysym h t un ks = Some c \<Longrightarrow> c \<notin> level_mods \<and> ks \<notin> level_mods"
  using level_mods_no_char [of ks un] keysym_from_char_plain
  by (auto simp: case_keysym_def split: option.splits if_splits)

text \<open>A key released under another spelling is no modifier.\<close>

lemma held_counterpart_plain:
  assumes ok: "typing_ok un i" and ks: "hm_get (in_pressed i) ks = None" "canonical un ks = ks"
    and other: "held_counterpart un (in_keymap i) (in_pressed i) ks = Some other"
  shows "other \<notin> level_mods \<and> (\<exists>kc. hm_get (in_pressed i) other = Some kc)"
proof -
  let ?km = "in_keymap i" and ?p = "in_pressed i"
  have mods: "mods_ok ?km ?p (in_held_modifiers i) (keys_down i)" and maps: "maps_ok un i" using ok by (simp_all add: typing_ok_def)
  have entry: "mod_code ?km kc = (m \<in> level_mods)" "m \<in> level_mods \<Longrightarrow> m = code_sym ?km kc" if "hm_get ?p m = Some kc" for m kc
    using mods that unfolding mods_ok_def by blast+
  have dist: "hm_ok ?p" using mods unfolding mods_ok_def by blast
  show ?thesis
  proof (cases "Option.bind (find_key un ks ?km) (\<lambda>loc. key_code_of (kl_keycode loc) ?p)")
    case None
    then have f: "List.find (\<lambda>c. hm_get ?p c \<noteq> None) (List.map_filter id [uppercase_keysym un ks, lowercase_keysym un ks]) = Some other"
      using other by (simp add: held_counterpart_def)
    have "hm_get ?p other \<noteq> None" "other \<in> set (List.map_filter id [uppercase_keysym un ks, lowercase_keysym un ks])"
      using f by (auto simp: find_Some_iff)
    then show ?thesis using case_keysym_plain
      by (auto simp: List.map_filter_def uppercase_keysym_def lowercase_keysym_def split: if_splits)
  next
    case (Some s)
    then obtain loc where loc: "find_key un ks ?km = Some loc" "key_code_of (kl_keycode loc) ?p = Some other"
      using other by (auto simp: held_counterpart_def bind_eq_Some_conv)
    have at: "hm_get ?p other = Some (kl_keycode loc)" by (rule key_code_of_get [OF dist loc(2)])
    have "loc \<in> locations_at ?km ks" using find_key_location [OF loc(1)] ks(2) by simp
    then have m: "modifier_location ?km ks loc" using maps by (auto simp: maps_ok_def keymap_sane_def)
    have "other \<notin> level_mods"
    proof
      assume o: "other \<in> level_mods"
      then have "ks = other" using entry [OF at] m by (auto simp: modifier_location_def)
      then show False using at ks(1) by simp
    qed
    then show ?thesis using at by blast
  qed
qed

lemma released_live:
  assumes "in_credit i = None"
  obtains j where "inp_then (fake KEY_RELEASE kc 0 0 i) (\<lambda>_. x_flush) = (j, Inr ())" "sent_after i j" "in_credit j = None"
    "keys_down j = keys_down i - {kc}" "in_sent j = in_sent i @ [Fake KEY_RELEASE kc 0 0]"
proof -
  obtain j where j: "fake KEY_RELEASE kc 0 0 i = (j, Inr ())" "in_sent j = in_sent i @ [Fake KEY_RELEASE kc 0 0]"
      "sent_after i j" "in_credit j = None" by (rule live_fake [OF assms])
  then show thesis using keys_down_sent [OF j(2)] by (intro that [of j]) (simp_all add: inp_then_def x_flush_def)
qed

lemma typing_ok_sent:
  assumes "maps_ok un i" "sent_after i j" "in_credit j = None"
    and "mods_ok (in_keymap i) (in_pressed i) (in_held_modifiers i) (keys_down j)"
  shows "typing_ok un j"
  using assms by (simp add: typing_ok_def maps_ok_sent sent_after_fields [OF assms(2)])

lemma maps_ok_hands [simp]:
  "maps_ok un (i\<lparr>in_pressed := p\<rparr>) = maps_ok un i" "maps_ok un (i\<lparr>in_held_modifiers := h\<rparr>) = maps_ok un i"
  by (simp_all add: maps_ok_def)

lemma keys_down_hands [simp]:
  "keys_down (i\<lparr>in_pressed := p\<rparr>) = keys_down i" "keys_down (i\<lparr>in_held_modifiers := h\<rparr>) = keys_down i"
  by (simp_all add: keys_down_def)

lemma release_typing:
  assumes ok: "typing_ok un i" and ks: "canonical un ks = ks"
  shows "\<exists>j. release un ks i = (j, Inr ()) \<and> typing_ok un j"
proof -
  let ?h = "in_held_modifiers i - {ks}" and ?p = "in_pressed i" and ?km = "in_keymap i"
  let ?i = "i\<lparr>in_held_modifiers := ?h\<rparr>"
  have mods: "mods_ok ?km ?p (in_held_modifiers i) (keys_down i)" and maps: "maps_ok un i" and live: "in_credit i = None"
    using ok by (simp_all add: typing_ok_def)
  have out: "\<exists>j. inp_then (fake KEY_RELEASE kc 0 0 (?i\<lparr>in_pressed := p\<rparr>)) (\<lambda>_. x_flush) = (j, Inr ()) \<and> typing_ok un j"
    if "mods_ok ?km p ?h (keys_down i - {kc})" for p kc
  proof -
    have c: "in_credit (?i\<lparr>in_pressed := p\<rparr>) = None" using live by simp
    obtain j where j: "inp_then (fake KEY_RELEASE kc 0 0 (?i\<lparr>in_pressed := p\<rparr>)) (\<lambda>_. x_flush) = (j, Inr ())"
      "sent_after (?i\<lparr>in_pressed := p\<rparr>) j" "in_credit j = None" "keys_down j = keys_down (?i\<lparr>in_pressed := p\<rparr>) - {kc}"
      by (rule released_live [OF c])
    have "typing_ok un j" by (rule typing_ok_sent [OF _ j(2,3)]) (simp_all add: maps that j(4))
    then show ?thesis using j(1) by blast
  qed
  show ?thesis
  proof (cases "hm_get ?p ks")
    case (Some kc)
    then show ?thesis using out [OF mods_ok_released [OF mods Some]] by (simp add: release_def Let_def)
  next
    case none: None
    show ?thesis
    proof (cases "held_counterpart un ?km ?p ks")
      case (Some other)
      obtain kc where other: "other \<notin> level_mods" "hm_get ?p other = Some kc"
        using held_counterpart_plain [OF ok none ks Some] by blast
      have "mods_ok ?km (hm_remove other ?p) ?h (keys_down i - {kc})"
        by (rule mods_ok_held [OF mods_ok_forget_plain [OF mods other(2,1)]])
           (use mods none in \<open>auto simp: mods_ok_def\<close>)
      then show ?thesis using out none Some other(2) by (simp add: release_def Let_def)
    next
      case None
      have i: "?i\<lparr>in_pressed := ?p\<rparr> = ?i" by simp
      show ?thesis
      proof (cases "find_key un ks ?km")
        case None
        have "mods_ok ?km ?p ?h (keys_down i)"
          by (rule mods_ok_held [OF mods]) (use mods none in \<open>auto simp: mods_ok_def\<close>)
        then show ?thesis using none \<open>held_counterpart un ?km ?p ks = None\<close> None maps live
          by (simp add: release_def Let_def typing_ok_def)
      next
        case (Some loc)
        have "kl_keycode loc \<notin> snd ` set ?p"
          using \<open>held_counterpart un ?km ?p ks = None\<close> Some
          by (auto simp: held_counterpart_def key_code_of_def find_None_iff split: option.splits)
        then have "mods_ok ?km ?p ?h (keys_down i - {kl_keycode loc})" by (rule mods_ok_stray [OF mods _ refl none])
        from out [OF this] show ?thesis using none \<open>held_counterpart un ?km ?p ks = None\<close> Some i
          by (simp add: release_def Let_def)
      qed
    qed
  qed
qed

section \<open>Presses\<close>

lemma plan_modifiers_unlocked:
  "kl_lock loc = No_Lock \<Longrightarrow> plan_modifiers loc m s t c n = plan_modifiers loc m s t c' n'"
  by (simp add: plan_modifiers_def Let_def)

lemma plan_first_level:
  "kl_level loc = 0 \<Longrightarrow> kl_lock loc = No_Lock \<Longrightarrow>
   plan_modifiers loc True s t c n = \<lparr>press_shift = False, release_shift = False, press_level3 = False\<rparr>"
  by (simp add: plan_modifiers_def Let_def)

lemma press_at_typing:
  assumes ok: "typing_ok un i" and ks: "canonical un ks = ks" "hm_get (in_pressed i) ks = None" "ks \<noteq> ALT_R"
    and loc: "loc \<in> locations_at (in_keymap i) ks" "kl_keycode loc \<notin> snd ` set (in_pressed i)"
  shows "\<exists>j rs. press_at xr ks loc i = (j, Inr ()) \<and> typing_ok un j \<and> in_keymap j = in_keymap i \<and> in_sent j = in_sent i @ rs \<and>
    (\<not> is_modifier ks \<and> ks \<noteq> 0 \<and> locks xr i = (caps, num) \<and>
     (ISO_LEVEL3_SHIFT \<in> in_held_modifiers i \<longrightarrow> kl_level loc AND 2 = 2) \<longrightarrow>
     map (canonical un) (typed un (in_keymap i) caps num rs (keys_down i)) = [ks])"
proof -
  let ?km = "in_keymap i" and ?p = "in_pressed i" and ?kc = "kl_keycode loc" and ?ds = "keys_down i"
  have mods: "mods_ok ?km ?p (in_held_modifiers i) ?ds" and maps: "maps_ok un i" and live: "in_credit i = None"
    using ok by (simp_all add: typing_ok_def)
  have entry: "m = code_sym ?km kc" "kc \<in> ?ds" "mod_code ?km kc" "m \<in> in_held_modifiers i"
    if "hm_get ?p m = Some kc" "m \<in> level_mods" for m kc
    using mods that unfolding mods_ok_def by blast+
  have true: "true_location un ?km ks loc" and mloc: "modifier_location ?km ks loc"
    using maps loc(1) by (auto simp: maps_ok_def keymap_sane_def)
  let ?i = "note_modifier ks i"
  obtain c n where locks: "lock_states xr loc ?i = (c, n)" by fastforce
  define plan where "plan = plan_modifiers loc (is_modifier ks) (shift_held ?i) (level3_held ?i) c n"
  let ?ps = "temp_presses plan ?i" and ?rs = "temp_releases plan ?i"
  have same: "in_keymap ?i = ?km" "in_pressed ?i = ?p" "in_credit ?i = None" "in_sent ?i = in_sent i" "keys_down ?i = ?ds"
    "in_shift_keycode ?i = in_shift_keycode i" "in_level3_keycode ?i = in_level3_keycode i" "maps_ok un ?i"
    using live maps by (simp_all add: note_modifier_def)
  have held: "in_held_modifiers ?i = in_held_modifiers i \<or> in_held_modifiers ?i = insert ks (in_held_modifiers i)"
    "in_held_modifiers i \<subseteq> in_held_modifiers ?i" "ks \<in> level_mods \<longrightarrow> ks \<in> in_held_modifiers ?i"
    by (auto simp: note_modifier_def dest: level_mods_modifier)
  obtain s where s: "in_shift_keycode i = Some s" "code_sym ?km s \<in> shifting" using maps by (auto simp: maps_ok_def)
  have l3: "code_sym ?km x = ISO_LEVEL3_SHIFT" if "in_level3_keycode i = Some x" for x using maps that by (simp add: maps_ok_def)
  have ps: "x \<in> set ?ps \<longleftrightarrow> press_shift plan \<and> x = s \<or> press_level3 plan \<and> in_level3_keycode i = Some x" for x
    by (auto simp: temp_presses_def same s opt_list_def split: option.splits)
  have rs: "x \<in> set ?rs \<longleftrightarrow> release_shift plan \<and> (hm_get ?p SHIFT_L = Some x \<or> hm_get ?p SHIFT_R = Some x)" for x
    by (auto simp: temp_releases_def same opt_list_def split: option.splits)
  have ps_mod: "\<forall>x\<in>set ?ps. mod_code ?km x"
    using s(2) l3 by (auto simp: ps mod_code_def shifting_def level_mods_def)
  have rs_mod: "\<forall>x\<in>set ?rs. mod_code ?km x" using entry(3) by (auto simp: rs level_mods_def)
  have no_shift: "c \<noteq> s" if "press_shift plan" "hm_get ?p m = Some c" "m \<in> level_mods" for m c
    using that entry [OF that(2,3)] held(2) s(2) by (auto simp: plan_def plan_modifiers_def Let_def shift_held_def shifting_def)
  have no_l3: "in_level3_keycode i \<noteq> Some c" if "press_level3 plan" "hm_get ?p m = Some c" "m \<in> level_mods" for m c
    using that entry [OF that(2,3)] held(2) l3 by (auto simp: plan_def plan_modifiers_def Let_def level3_held_def)
  obtain j where j: "press_with ?rs ?ps ks ?kc ?i = (j, Inr ())" "in_sent j = in_sent ?i @ press_requests ?rs ?ps ?kc"
    "sent_after (?i\<lparr>in_pressed := hm_insert ks ?kc (in_pressed ?i)\<rparr>) j" "in_credit j = None"
    by (rule live_press_with [OF same(3)])
  let ?ds' = "insert ?kc (?ds - set ?rs \<union> set ?ps) - set ?ps \<union> set ?rs"
  have down: "keys_down j = ?ds'" using keys_down_sent [OF j(2)] press_requests_down same by simp
  have sub: "?ds \<subseteq> snd ` set ?p" using mods by (simp add: mods_ok_def)
  have rs_sub: "set ?rs \<subseteq> snd ` set ?p" using rs by (metis map_of_SomeD rev_image_eqI snd_conv subsetI)
  have "mods_ok ?km (hm_insert ks ?kc ?p) (in_held_modifiers ?i) ?ds'"
  proof (rule mods_ok_pressed [OF mods ks(2) loc(2) ks(3) _ _ held(1,3)])
    show "mod_code ?km ?kc = (ks \<in> level_mods)" using mloc by (simp add: modifier_location_def)
    show "ks \<in> level_mods \<longrightarrow> ks = code_sym ?km ?kc \<and> ?kc \<in> ?ds'"
    proof
      assume m: "ks \<in> level_mods"
      then have "plan = \<lparr>press_shift = False, release_shift = False, press_level3 = False\<rparr>"
        using mloc level_mods_modifier [OF m] by (simp add: plan_def plan_first_level modifier_location_def)
      then show "ks = code_sym ?km ?kc \<and> ?kc \<in> ?ds'" using m mloc by (simp add: modifier_location_def temp_presses_def)
    qed
    show "?ds' \<subseteq> insert ?kc (snd ` set ?p)" using sub rs_sub by blast
    show "x \<in> ?ds'" if "hm_get ?p m = Some x" "m \<in> level_mods" for m x
      using entry(2) [OF that] no_shift [OF _ that] no_l3 [OF _ that] by (auto simp: ps)
  qed
  then have "typing_ok un j"
    using same by (intro typing_ok_sent [OF _ j(3,4)]) (simp_all add: down)
  moreover have "press_at xr ks loc i = (j, Inr ())"
    using j(1) by (simp add: press_at_def Let_def locks plan_def [symmetric])
  moreover have "map (canonical un) (typed un ?km caps num (press_requests ?rs ?ps ?kc) ?ds) = [ks]"
    if typing: "\<not> is_modifier ks" "ks \<noteq> 0" "locks xr i = (caps, num)"
      "ISO_LEVEL3_SHIFT \<in> in_held_modifiers i \<longrightarrow> kl_level loc AND 2 = 2"
  proof -
    have i: "?i = i" using typing(1) by (simp add: note_modifier_def)
    let ?st = "key_state_of ?km caps num ?ds"
    have plain: "\<not> mod_code ?km ?kc" using mloc typing(1) level_mods_modifier by (auto simp: modifier_location_def)
    have up: "?kc \<notin> ?ds" using loc(2) sub by blast
    have st: "st_shift ?st = shift_held i" "st_level3 ?st = level3_held i" "st_caps ?st = caps" "st_num ?st = num"
      using mods_ok_state [OF mods] mods by (auto simp: key_state_of_def shift_held_def level3_held_def mods_ok_def)
    have plan: "plan = plan_modifiers loc False (st_shift ?st) (st_level3 ?st) (st_caps ?st) (st_num ?st)"
      using locks typing(1,3) unfolding plan_def st i
      by (auto simp: lock_states_def split: if_splits intro: plan_modifiers_unlocked)
    have third: "in_level3_keycode i \<noteq> None" if "press_level3 plan"
    proof -
      have "kl_level loc AND 2 = 2" using that by (simp add: plan_def plan_modifiers_def Let_def)
      then have "map_third ?km" using true typing(2) 
        by (auto simp: true_location_def level_pair_def canonical_def char_from_keysym_def latin1_def split: if_splits)
      then show ?thesis using maps by (simp add: maps_ok_def)
    qed
    have "key_state_of ?km caps num (?ds - set ?rs \<union> set ?ps) =
        ?st\<lparr>st_shift := (st_shift ?st \<or> press_shift plan) \<and> \<not> release_shift plan, st_level3 := st_level3 ?st \<or> press_level3 plan\<rparr>"
    proof -
      have iso: "ISO_LEVEL3_SHIFT \<notin> shifting" by (simp add: shifting_def ISO_LEVEL3_SHIFT_def SHIFT_L_def SHIFT_R_def)
      have ps_sym: "code_sym ?km x \<in> shifting \<longleftrightarrow> press_shift plan \<and> x = s" "code_sym ?km x = ISO_LEVEL3_SHIFT \<longleftrightarrow> \<not> (press_shift plan \<and> x = s)"
        if "x \<in> set ?ps" for x
        using that s(2) l3 iso by (auto simp: ps)
      have rs_sym: "code_sym ?km x \<in> shifting" if "x \<in> set ?rs" for x
        using that entry(1) by (auto simp: rs shifting_def level_mods_def)
      have rs_all: "x \<in> set ?rs" if x: "release_shift plan" "x \<in> ?ds" "code_sym ?km x \<in> shifting" for x
      proof -
        obtain m where m: "hm_get ?p m = Some x" using x(2) sub mods by (auto simp: mods_ok_def image_iff subset_iff)
        have "mod_code ?km x" using x(3) by (auto simp: mod_code_def shifting_def level_mods_def)
        then have "m \<in> level_mods" using mods m unfolding mods_ok_def by blast
        then have "m \<in> shifting" using entry(1) [OF m] x(3) by simp
        then show ?thesis using m x(1) by (auto simp: rs shifting_def)
      qed
      have both: "\<not> (press_shift plan \<and> release_shift plan)" by (simp add: plan_def plan_modifiers_def Let_def)
      have s_in: "press_shift plan \<Longrightarrow> s \<in> set ?ps" by (simp add: ps)
      have rs_none: "\<not> release_shift plan \<Longrightarrow> set ?rs = {}" by (simp add: temp_releases_def)
      have shift: "(\<exists>kc\<in>?ds - set ?rs \<union> set ?ps. code_sym ?km kc \<in> shifting) =
          (((\<exists>kc\<in>?ds. code_sym ?km kc \<in> shifting) \<or> press_shift plan) \<and> \<not> release_shift plan)"
      proof (cases "release_shift plan")
        case True
        then show ?thesis using rs_all both ps_sym(1) by auto
      next
        case False
        have "(\<exists>kc\<in>set ?ps. code_sym ?km kc \<in> shifting) = press_shift plan"
          using ps_sym(1) s_in s(2) by auto
        then show ?thesis using False rs_none [OF False] by auto
      qed
      obtain t where t: "press_level3 plan \<longrightarrow> t \<in> set ?ps \<and> code_sym ?km t = ISO_LEVEL3_SHIFT"
        using third l3 by (auto simp: ps)
      have level3: "(\<exists>kc\<in>?ds - set ?rs \<union> set ?ps. code_sym ?km kc = ISO_LEVEL3_SHIFT) =
          ((\<exists>kc\<in>?ds. code_sym ?km kc = ISO_LEVEL3_SHIFT) \<or> press_level3 plan)"
      proof
        assume "\<exists>kc\<in>?ds - set ?rs \<union> set ?ps. code_sym ?km kc = ISO_LEVEL3_SHIFT"
        then show "(\<exists>kc\<in>?ds. code_sym ?km kc = ISO_LEVEL3_SHIFT) \<or> press_level3 plan"
          using ps s(2) iso by (metis DiffE UnE)
      next
        assume "(\<exists>kc\<in>?ds. code_sym ?km kc = ISO_LEVEL3_SHIFT) \<or> press_level3 plan"
        then show "\<exists>kc\<in>?ds - set ?rs \<union> set ?ps. code_sym ?km kc = ISO_LEVEL3_SHIFT"
          using t rs_sym iso by (metis DiffI UnCI)
      qed
      show ?thesis by (simp add: key_state_of_def shift level3)
    qed
    then have "typed un ?km caps num (press_requests ?rs ?ps ?kc) ?ds = [server_types un ?km
        (?st\<lparr>st_shift := (st_shift ?st \<or> press_shift plan) \<and> \<not> release_shift plan, st_level3 := st_level3 ?st \<or> press_level3 plan\<rparr>) ?kc]"
      using press_requests_typed [of ?ps ?rs ?km ?kc ?ds un caps num] ps_mod rs_mod plain up by auto
    moreover have "st_level3 ?st \<longrightarrow> kl_level loc AND 2 = 2"
      using typing(4) mods by (simp add: st level3_held_def mods_ok_def)
    ultimately show ?thesis using plan_types [OF true _ plan] by simp
  qed
  ultimately show ?thesis using j(2,3) same by (auto simp: sent_after_fields)
qed

section \<open>Key events\<close>

definition silent :: "request list \<Rightarrow> bool" where
  "silent rs \<longleftrightarrow> (\<forall>r\<in>set rs. \<forall>d x y. r \<noteq> Fake KEY_PRESS d x y)"

lemma typed_silent: "silent rs \<Longrightarrow> typed un km caps num rs ds = []"
proof (induction rs arbitrary: ds)
  case (Cons r rs)
  then have "typed_now un km caps num r ds = []"
    by (auto simp: silent_def typed_now_def split: request.splits event_type.splits)
  then show ?case using Cons by (simp add: silent_def)
qed simp

lemma silent_append [simp]: "silent (rs @ qs) \<longleftrightarrow> silent rs \<and> silent qs" "silent []" "silent [Fake KEY_RELEASE d x y]"
  by (auto simp: silent_def)

text \<open>What an operation on the way to a press leaves as it was.\<close>

definition on_the_way :: "unicode \<Rightarrow> injector \<Rightarrow> injector \<Rightarrow> bool" where
  "on_the_way un i j \<longleftrightarrow> typing_ok un j \<and> in_held_modifiers j = in_held_modifiers i \<and> in_num_lock_mask j = in_num_lock_mask i \<and>
     (\<exists>rs. in_sent j = in_sent i @ rs \<and> silent rs)"

lemma on_the_way_refl: "typing_ok un i \<Longrightarrow> on_the_way un i i" by (auto simp: on_the_way_def)

lemma on_the_way_trans: "on_the_way un i j \<Longrightarrow> on_the_way un j k \<Longrightarrow> on_the_way un i k"
  by (auto simp: on_the_way_def)

lemma drop_key_typing:
  assumes ok: "typing_ok un i" and m: "hm_get (in_pressed i) m = Some kc" "m \<notin> level_mods"
  shows "\<exists>j. fake KEY_RELEASE kc 0 0 (i\<lparr>in_pressed := hm_remove m (in_pressed i)\<rparr>) = (j, Inr ()) \<and> on_the_way un i j \<and>
    in_keymap j = in_keymap i \<and> in_pressed j = hm_remove m (in_pressed i)"
proof -
  let ?i = "i\<lparr>in_pressed := hm_remove m (in_pressed i)\<rparr>"
  have mods: "mods_ok (in_keymap i) (in_pressed i) (in_held_modifiers i) (keys_down i)" and maps: "maps_ok un i" and live: "in_credit ?i = None"
    using ok by (simp_all add: typing_ok_def)
  obtain j where j: "fake KEY_RELEASE kc 0 0 ?i = (j, Inr ())" "in_sent j = in_sent ?i @ [Fake KEY_RELEASE kc 0 0]" "sent_after ?i j" "in_credit j = None"
    by (rule live_fake [OF live])
  have "keys_down j = keys_down i - {kc}" using keys_down_sent [OF j(2)] by simp
  then have "typing_ok un j"
    using maps mods_ok_forget_plain [OF mods m] by (intro typing_ok_sent [OF _ j(3,4)]) simp_all
  then show ?thesis using j sent_after_fields [OF j(3)] by (auto simp: on_the_way_def)
qed

lemma free_keycode_typing:
  assumes ok: "typing_ok un i" and ks: "hm_get (in_pressed i) ks = None" and loc: "loc \<in> locations_at (in_keymap i) ks"
  shows "\<exists>j. free_keycode (kl_keycode loc) i = (j, Inr ()) \<and> on_the_way un i j \<and> in_keymap j = in_keymap i \<and>
    hm_get (in_pressed j) ks = None \<and> kl_keycode loc \<notin> snd ` set (in_pressed j)"
proof (cases "key_code_of (kl_keycode loc) (in_pressed i)")
  case None
  then have "kl_keycode loc \<notin> snd ` set (in_pressed i)" by (auto simp: key_code_of_def find_None_iff)
  then show ?thesis using None ks on_the_way_refl [OF ok] by (simp add: free_keycode_def)
next
  case (Some other)
  let ?p = "in_pressed i" and ?km = "in_keymap i" and ?kc = "kl_keycode loc"
  have mods: "mods_ok ?km ?p (in_held_modifiers i) (keys_down i)" and maps: "maps_ok un i" using ok by (simp_all add: typing_ok_def)
  have dist: "hm_ok ?p" "distinct (map snd ?p)" using mods by (simp_all add: mods_ok_def)
  have at: "hm_get ?p other = Some ?kc" by (rule key_code_of_get [OF dist(1) Some])
  have mloc: "modifier_location ?km ks loc" using maps loc by (auto simp: maps_ok_def keymap_sane_def)
  have "other \<notin> level_mods"
  proof
    assume o: "other \<in> level_mods"
    then have "mod_code ?km ?kc" "other = code_sym ?km ?kc" using mods at unfolding mods_ok_def by blast+
    then have "ks = other" using mloc by (auto simp: modifier_location_def)
    then show False using at ks by simp
  qed
  from drop_key_typing [OF ok at this] obtain j where j: "free_keycode ?kc i = (j, Inr ())" "on_the_way un i j" "in_keymap j = ?km"
    "in_pressed j = hm_remove other ?p" by (auto simp: free_keycode_def Some)
  have "?kc \<notin> snd ` set (in_pressed j)"
  proof
    assume "?kc \<in> snd ` set (in_pressed j)"
    then obtain m where "(m, ?kc) \<in> set ?p" "m \<noteq> other" by (auto simp: j(4) AList.delete_eq)
    then show False using hm_code_unique [OF dist(2) at, of m] dist(1) by simp
  qed
  then show ?thesis using j ks by (simp add: hm_get_remove)
qed

lemma location_for_typing:
  assumes ok: "typing_ok un i" and ks: "canonical un ks = ks" "ks \<in> level_mods \<longrightarrow> find_key un ks (in_keymap i) \<noteq> None"
    and l: "location_for un xr ks i = (j, res)"
  shows "on_the_way un i j \<and> in_pressed j = in_pressed i \<and>
    (\<forall>loc. res = Inr (Some loc) \<longrightarrow> loc \<in> locations_at (in_keymap j) ks \<and>
       (\<forall>loc'. find_key un ks (in_keymap i) = Some loc' \<longrightarrow> loc' = loc)) \<and>
    (res = Inr None \<longrightarrow> find_key un ks (in_keymap i) = None)"
proof (cases "find_key un ks (in_keymap i)")
  case (Some loc)
  then show ?thesis using l find_key_location [OF Some] ks(1) on_the_way_refl [OF ok] by (auto simp: location_for_def)
next
  case None
  have mods: "mods_ok (in_keymap i) (in_pressed i) (in_held_modifiers i) (keys_down i)" and maps: "maps_ok un i" and live: "in_credit i = None"
    using ok by (simp_all add: typing_ok_def)
  have new: "ks \<notin> level_mods" "locations_at (in_keymap i) ks = {}"
    using None ks by (auto simp: find_key_def locations_at_def split: option.splits list.splits)
  obtain j' r where b: "bind_dynamic xr ks i = (j', r)" by fastforce
  note bound = bind_dynamic_ok [OF maps live new ks(1) b]
  have j: "j' = j" using l None b by (cases r) (auto simp: location_for_def inp_then_def)
  obtain rs where rs: "in_sent j = in_sent i @ rs" "\<forall>q\<in>set rs. \<exists>kc per row. q = Change_Mapping kc per row" using bound j by auto
  have "key_effect q ds = ds" if "\<exists>kc per row. q = Change_Mapping kc per row" for q ds using that by auto
  then have "fold key_effect rs ds = ds" for ds using rs(2) by (induction rs arbitrary: ds) simp_all
  then have down: "keys_down j = keys_down i" using keys_down_sent [OF rs(1)] by simp
  have "mods_ok (in_keymap j) (in_pressed j) (in_held_modifiers j) (keys_down j)"
    using mods_ok_same [of "in_keymap i" "in_keymap j"] bound mods j down by (simp add: same_hands_def)
  moreover have "silent rs" using rs(2) by (auto simp: silent_def)
  ultimately have "on_the_way un i j" using bound j rs(1) live by (auto simp: on_the_way_def typing_ok_def same_hands_def)
  then show ?thesis using None bound j l b by (cases r) (auto simp: location_for_def inp_then_def same_hands_def)
qed

text \<open>
  The keys the client may use: any but the right Alt, which the injector counts as Level 3, and of Shift and
  Level 3 only those the mapping has.
\<close>

definition playable :: "unicode \<Rightarrow> u32 \<Rightarrow> injector \<Rightarrow> bool" where
  "playable un ks i \<longleftrightarrow> canonical un ks \<noteq> ALT_R \<and>
     (canonical un ks \<in> level_mods \<longrightarrow> find_key un (canonical un ks) (in_keymap i) \<noteq> None)"

text \<open>A character can be typed unless Level 3 is held and the mapping has it on a lower level.\<close>

definition level3_fits :: "unicode \<Rightarrow> u32 \<Rightarrow> injector \<Rightarrow> bool" where
  "level3_fits un ks i \<longleftrightarrow> ISO_LEVEL3_SHIFT \<notin> in_held_modifiers i \<or>
     (\<exists>loc. find_key un ks (in_keymap i) = Some loc \<and> kl_level loc AND 2 = 2)"

lemma press_typing:
  assumes un: "unicode_ok un" and ok: "typing_ok un i" and p: "playable un ks i" and k: "key un xr ks True i = (j, res)"
  shows "typing_ok un j \<and> (res = Inr () \<longrightarrow> (\<exists>rs. in_sent j = in_sent i @ rs \<and>
    (\<not> is_modifier (canonical un ks) \<and> canonical un ks \<noteq> 0 \<and> locks xr i = (caps, num) \<and> level3_fits un (canonical un ks) i \<longrightarrow>
     map (canonical un) (typed un (in_keymap j) caps num rs (keys_down i)) = [canonical un ks] \<or>
     silent rs \<and> find_key un (canonical un ks) (in_keymap i) = None)))"
proof (cases "is_modifier (canonical un ks) \<and> hm_get (in_pressed i) (canonical un ks) \<noteq> None")
  case True
  then show ?thesis using k ok by (auto simp: key_def Let_def)
next
  case False
  let ?ks = "canonical un ks"
  have ks: "canonical un ?ks = ?ks" using un by simp
  let ?clear = "case hm_get (in_pressed i) ?ks of
      Some kc \<Rightarrow> fake KEY_RELEASE kc 0 0 (i\<lparr>in_pressed := hm_remove ?ks (in_pressed i)\<rparr>) | None \<Rightarrow> (i, Inr ())"
  obtain i1 where i1: "?clear = (i1, Inr ())" "on_the_way un i i1" "in_keymap i1 = in_keymap i" "hm_get (in_pressed i1) ?ks = None"
  proof (cases "hm_get (in_pressed i) ?ks")
    case None
    then show thesis using that [of i] on_the_way_refl [OF ok] by simp
  next
    case (Some kc)
    then have "?ks \<notin> level_mods" using False level_mods_modifier by auto
    from drop_key_typing [OF ok Some this] show thesis using that Some by (auto simp: hm_get_remove)
  qed
  obtain i2 r2 where i2: "location_for un xr ?ks i1 = (i2, r2)" by fastforce
  have "typing_ok un i1" using i1(2) by (simp add: on_the_way_def)
  from location_for_typing [OF this ks _ i2] have loc: "on_the_way un i1 i2" "in_pressed i2 = in_pressed i1"
    "\<forall>loc. r2 = Inr (Some loc) \<longrightarrow> loc \<in> locations_at (in_keymap i2) ?ks \<and>
       (\<forall>loc'. find_key un ?ks (in_keymap i1) = Some loc' \<longrightarrow> loc' = loc)"
    "r2 = Inr None \<longrightarrow> find_key un ?ks (in_keymap i1) = None"
    using p i1(3) by (auto simp: playable_def)
  have way: "on_the_way un i i2" by (rule on_the_way_trans [OF i1(2) loc(1)])
  have key: "key un xr ks True i = inp_then (i2, r2) (\<lambda>l i. case l of None \<Rightarrow> (i, Inr ())
      | Some loc \<Rightarrow> inp_then (free_keycode (kl_keycode loc) i) (\<lambda>_. press_at xr ?ks loc))"
    unfolding key_def Let_def using False i1(1) i2 by (auto simp: inp_then_def)
  show ?thesis
  proof (cases "\<exists>loc. r2 = Inr (Some loc)")
    case False
    then have "j = i2" "res = Inr () \<Longrightarrow> r2 = Inr None"
      using k key by (cases r2; auto simp: inp_then_def split: option.splits)+
    then show ?thesis using way loc(4) i1(3) by (auto simp: on_the_way_def)
  next
    case True
    then obtain l where l: "r2 = Inr (Some l)" by blast
    have i2ok: "typing_ok un i2" using way by (simp add: on_the_way_def)
    have at: "l \<in> locations_at (in_keymap i2) ?ks" using loc(3) l by blast
    have none: "hm_get (in_pressed i2) ?ks = None" using i1(4) loc(2) by simp
    from free_keycode_typing [OF i2ok none at] obtain i3 where i3: "free_keycode (kl_keycode l) i2 = (i3, Inr ())"
      "on_the_way un i2 i3" "in_keymap i3 = in_keymap i2" "hm_get (in_pressed i3) ?ks = None" "kl_keycode l \<notin> snd ` set (in_pressed i3)"
      by blast
    have i3ok: "typing_ok un i3" using i3(2) by (simp add: on_the_way_def)
    have "?ks \<noteq> ALT_R" "l \<in> locations_at (in_keymap i3) ?ks" using p at i3(3) by (simp_all add: playable_def)
    from press_at_typing [OF i3ok ks i3(4) this(1,2) i3(5), of xr caps num] obtain j' rs where j': "press_at xr ?ks l i3 = (j', Inr ())"
      "typing_ok un j'" "in_keymap j' = in_keymap i3" "in_sent j' = in_sent i3 @ rs"
      "\<not> is_modifier ?ks \<and> ?ks \<noteq> 0 \<and> locks xr i3 = (caps, num) \<and> (ISO_LEVEL3_SHIFT \<in> in_held_modifiers i3 \<longrightarrow> kl_level l AND 2 = 2) \<longrightarrow>
       map (canonical un) (typed un (in_keymap i3) caps num rs (keys_down i3)) = [?ks]"
      by (elim exE conjE) (rule that)
    have j: "j = j'" "res = Inr ()" using k key l i3(1) j'(1) by (simp_all add: inp_then_def)
    have way3: "on_the_way un i i3" by (rule on_the_way_trans [OF way i3(2)])
    then obtain qs where qs: "in_sent i3 = in_sent i @ qs" "silent qs" "in_held_modifiers i3 = in_held_modifiers i"
      "in_num_lock_mask i3 = in_num_lock_mask i" by (auto simp: on_the_way_def)
    have locks: "locks xr i3 = locks xr i" by (simp only: locks_def qs(4))
    have down: "keys_down i3 = fold key_effect qs (keys_down i)" by (rule keys_down_sent [OF qs(1)])
    have level: "ISO_LEVEL3_SHIFT \<in> in_held_modifiers i3 \<longrightarrow> kl_level l AND 2 = 2" if "level3_fits un ?ks i"
      using that loc(3) l qs(3) i1(3) by (auto simp: level3_fits_def)
    have "map (canonical un) (typed un (in_keymap j) caps num (qs @ rs) (keys_down i)) = [?ks]"
      if "\<not> is_modifier ?ks" "?ks \<noteq> 0" "locks xr i = (caps, num)" "level3_fits un ?ks i"
      using j'(5) that level locks by (simp add: j j'(3) typed_append typed_silent [OF qs(2)] down)
    then show ?thesis using j'(2,4) qs(1) by (intro conjI impI exI [of _ "qs @ rs"]) (simp_all add: j)
  qed
qed

section \<open>From the server's mapping\<close>

text \<open>A keyboard mapping whose Shift and Level 3 keys do nothing else.\<close>

definition row_ok :: "u32 list \<Rightarrow> bool" where
  "row_ok r \<longleftrightarrow> (if col r 0 \<in> level_mods then col r 1 = 0 \<and> col r 4 = 0 \<and> col r 5 = 0
     else col r 1 \<notin> level_mods \<and> col r 4 \<notin> level_mods \<and> col r 5 \<notin> level_mods)"

definition layout_ok :: "u8 \<Rightarrow> u8 \<Rightarrow> u8 \<Rightarrow> u32 list \<Rightarrow> bool" where
  "layout_ok mn mx per syms \<longleftrightarrow> mn \<le> mx \<and> 2 \<le> unat per \<and> length syms = key_count mn mx * unat per \<and>
     list_all (\<lambda>i. row_ok (key_row (unat per) syms i)) [0..<key_count mn mx] \<and>
     list_ex (\<lambda>i. col (key_row (unat per) syms i) 0 = SHIFT_L) [0..<key_count mn mx]"

lemma reply_locations: "l \<in> locations_at (from_reply un mn mx per syms) k \<longleftrightarrow>
    (\<exists>s. (s, l) \<in> set (reply_entries un mn mx per syms) \<and> canonical un s = k)"
proof -
  have "locations_at (from_reply un mn mx per syms) k = set (locations_of un k (reply_entries un mn mx per syms))"
    by (auto simp: locations_at_def from_reply_lookup Let_def)
  then show ?thesis by (simp add: locations_of_mem)
qed

lemma row_entry_code: "(s, l) \<in> set (row_entries un third kc r) \<Longrightarrow> kl_keycode l = kc"
  by (auto simp: row_entries_def row_pairs_def pair_entries_def Let_def split: if_splits)

lemma reply_row:
  assumes "(s, l) \<in> set (reply_entries un mn mx per syms)"
  obtains i where "i < key_count mn mx" "kl_keycode l = mn + of_nat i"
    "(s, l) \<in> set (row_entries un (level3_readable (key_count mn mx) (unat per) syms) (mn + of_nat i) (key_row (unat per) syms i))"
proof -
  obtain i where "i < key_count mn mx"
    "(s, l) \<in> set (row_entries un (level3_readable (key_count mn mx) (unat per) syms) (mn + of_nat i) (key_row (unat per) syms i))"
    using assms by (auto simp: reply_entries_def Let_def)
  then show thesis using that row_entry_code by blast
qed

lemma reply_code:
  assumes "i < key_count mn mx" "mn \<le> mx"
  shows "code_row (from_reply un mn mx per syms) (mn + of_nat i) = key_row (unat per) syms i"
    and "code_sym (from_reply un mn mx per syms) (mn + of_nat i) = col (key_row (unat per) syms i) 0"
  using keycode_index [OF assms] by (simp_all add: code_row_def code_sym_def)

lemma canonical_plain: "s \<notin> level_mods \<Longrightarrow> canonical un s \<notin> level_mods"
  using keysym_from_char_plain by (auto simp: canonical_def split: option.splits)

lemma level_mods_facts:
  assumes "m \<in> level_mods"
  shows "canonical un m = m" "uppercase_keysym un m = None" "pair_lock un m 0 = No_Lock" "m \<noteq> 0"
proof -
  show "canonical un m = m" using level_mods_no_char [OF assms] by (simp add: canonical_def)
  show "uppercase_keysym un m = None" using level_mods_no_char [OF assms] by (simp add: uppercase_keysym_def case_keysym_def)
  show "pair_lock un m 0 = No_Lock" "m \<noteq> 0"
    using assms by (auto simp: pair_lock_def is_keypad_def level_mods_def SHIFT_L_def SHIFT_R_def ISO_LEVEL3_SHIFT_def)
qed

lemma shifted_sym_plain: "col r 1 \<notin> level_mods \<Longrightarrow> shifted_sym un r \<notin> level_mods"
  using case_keysym_plain by (auto simp: shifted_sym_def uppercase_keysym_def Let_def split: option.splits)

lemma row_entry_modifier:
  assumes r: "row_ok r" and e: "(s, l) \<in> set (row_entries un third kc r)"
  shows "(col r 0 \<in> level_mods) = (canonical un s \<in> level_mods) \<and>
    (canonical un s \<in> level_mods \<longrightarrow> kl_level l = 0 \<and> kl_lock l = No_Lock \<and> canonical un s = col r 0)"
proof (cases "col r 0 \<in> level_mods")
  case True
  note m = level_mods_facts [OF True]
  have "shifted_sym un r = 0" using r True m by (simp add: row_ok_def shifted_sym_def Let_def)
  then have "s = col r 0 \<and> kl_level l = 0 \<and> kl_lock l = No_Lock"
    using e r True m by (auto simp: row_entries_def row_pairs_def pair_entries_def row_ok_def Let_def split: if_splits)
  then show ?thesis using True m by simp
next
  case False
  then have "s \<notin> level_mods" using e r shifted_sym_plain [of r un]
    by (auto simp: row_entries_def row_pairs_def pair_entries_def row_ok_def Let_def split: if_splits)
  then show ?thesis using False canonical_plain by simp
qed

lemma reply_sane:
  assumes "layout_ok mn mx per syms"
  shows "keymap_sane un (from_reply un mn mx per syms)"
proof -
  let ?km = "from_reply un mn mx per syms"
  have ok: "mn \<le> mx" "2 \<le> unat per" "length syms = key_count mn mx * unat per"
    and rows: "\<And>i. i < key_count mn mx \<Longrightarrow> row_ok (key_row (unat per) syms i)"
    using assms by (auto simp: layout_ok_def list_all_iff list_ex_iff)
  have "true_location un ?km k l \<and> modifier_location ?km k l" if l: "l \<in> locations_at ?km k" for k l
  proof -
    obtain s where s: "(s, l) \<in> set (reply_entries un mn mx per syms)" "canonical un s = k" using l unfolding reply_locations by blast
    obtain i where i: "i < key_count mn mx" "kl_keycode l = mn + of_nat i"
      "(s, l) \<in> set (row_entries un (level3_readable (key_count mn mx) (unat per) syms) (mn + of_nat i) (key_row (unat per) syms i))"
      by (rule reply_row [OF s(1)])
    have "modifier_location ?km k l"
      using row_entry_modifier [OF rows [OF i(1)] i(3)] s(2)
      by (simp add: modifier_location_def mod_code_def i(2) reply_code(2) [OF i(1) ok(1)])
    then show ?thesis using reply_entry_true [OF s(1) ok(1)] s(2) by simp
  qed
  then show ?thesis using ok by (simp add: keymap_sane_def)
qed

lemma sane_modifier:
  assumes "keymap_sane un km" "km_lookup km k = Some ls" "x \<in> set ls" "k \<in> level_mods"
  shows "kl_level x = 0" "k = code_sym km (kl_keycode x)"
proof -
  have "x \<in> locations_at km k" using assms(2,3) by (simp add: locations_at_def)
  then have "modifier_location km k x" using assms(1) by (simp add: keymap_sane_def)
  then show "kl_level x = 0" "k = code_sym km (kl_keycode x)" using assms(4) by (simp_all add: modifier_location_def)
qed

lemma plain_keycode_first:
  assumes sane: "keymap_sane un km" and k: "k \<in> level_mods" and l: "l \<in> locations_at km k"
  shows "\<exists>kc. plain_keycode un k km = Some kc \<and> code_sym km kc = k"
proof -
  obtain ls where ls: "km_lookup km k = Some ls" using l by (auto simp: locations_at_def split: option.splits)
  have mods: "kl_level x = 0 \<and> k = code_sym km (kl_keycode x)" if "x \<in> set ls" for x
    using sane_modifier [OF sane ls that k] by simp
  obtain x xs where "ls = x # xs" using l ls by (cases ls) (auto simp: locations_at_def)
  then show ?thesis using mods [of x] ls level_mods_facts(1) [OF k] by (simp add: plain_keycode_def)
qed

lemma plain_keycode_sym:
  assumes "keymap_sane un km" "k \<in> level_mods" "plain_keycode un k km = Some kc"
  shows "code_sym km kc = k"
proof -
  obtain ls x where ls: "km_lookup km k = Some ls" "List.find (\<lambda>l. kl_level l = 0) ls = Some x" "kl_keycode x = kc"
    using assms(3) level_mods_facts(1) [OF assms(2)] by (auto simp: plain_keycode_def bind_eq_Some_conv)
  have "x \<in> set ls" using ls(2) by (auto simp: find_Some_iff)
  then show ?thesis using sane_modifier(2) [OF assms(1) ls(1) _ assms(2)] ls(3) by simp
qed

lemma reply_modifier_there:
  assumes "i < key_count mn mx" "col (key_row (unat per) syms i) 0 = k" "k \<in> level_mods"
  shows "\<exists>l. l \<in> locations_at (from_reply un mn mx per syms) k"
proof -
  let ?r = "key_row (unat per) syms i" and ?third = "level3_readable (key_count mn mx) (unat per) syms"
  have "\<exists>l. (k, l) \<in> set (row_entries un ?third (mn + of_nat i) ?r)"
    using assms(2) level_mods_facts(4) [OF assms(3)]
    by (auto simp: row_entries_def row_pairs_def pair_entries_def Let_def)
  then obtain l where "(k, l) \<in> set (row_entries un ?third (mn + of_nat i) ?r)" by blast
  then have "(k, l) \<in> set (reply_entries un mn mx per syms)"
    using assms(1) unfolding reply_entries_def Let_def by (auto intro!: bexI [of _ i])
  then show ?thesis using level_mods_facts(1) [OF assms(3)] unfolding reply_locations by blast
qed

lemma zero_row:
  assumes "list_all (\<lambda>s. s = 0) r"
  shows "col r j = 0" "row_entries un third kc r = []"
proof -
  have z: "col r j = 0" for j using assms by (simp add: col_def list_all_length)
  then show "col r j = 0" .
  show "row_entries un third kc r = []"
    by (simp add: row_entries_def row_pairs_def pair_entries_def z shifted_sym_def Let_def uppercase_keysym_zero)
qed

lemma reply_spares:
  assumes ok: "layout_ok mn mx per syms" and sp: "spare_keycodes (from_reply un mn mx per syms) = Some spares"
  shows "distinct spares" "\<forall>kc\<in>set spares. bindable (from_reply un mn mx per syms) (\<lambda>_. False) kc"
proof -
  let ?km = "from_reply un mn mx per syms" and ?per = "unat per" and ?n = "key_count mn mx"
  have mm: "mn \<le> mx" "length syms = ?n * ?per" using ok by (auto simp: layout_ok_def list_all_iff list_ex_iff)
  have spares: "spares = map (\<lambda>i. mn + of_nat i) (filter (\<lambda>i. list_all (\<lambda>s. s = 0) (take ?per (drop (i * ?per) syms))) (rev [0..<?n]))"
    using sp by (simp add: spare_keycodes_def Let_def split: if_splits)
  have inj: "i = j" if "i < ?n" "j < ?n" "mn + of_nat i = mn + of_nat j" for i j
    using keycode_index [OF that(1) mm(1)] keycode_index [OF that(2) mm(1)] that(3) by simp
  show "distinct spares" unfolding spares
    by (auto simp: distinct_map intro!: inj_onI inj)
  show "\<forall>kc\<in>set spares. bindable ?km (\<lambda>_. False) kc"
  proof
    fix kc assume "kc \<in> set spares"
    then obtain i where i: "i < ?n" "kc = mn + of_nat i" "list_all (\<lambda>s. s = 0) (take ?per (drop (i * ?per) syms))"
      by (auto simp: spares)
    then have zero: "list_all (\<lambda>s. s = 0) (key_row ?per syms i)" by (simp add: key_row_def)
    note z = zero_row [OF zero]
    have "in_range ?km kc"
    proof -
      have up: "unat mn + i \<le> unat mx" using i(1) mm(1) unfolding key_count_def word_le_nat_alt by linarith
      then have "i < 256" "unat mn + i < 256" using unsigned_less [of mx, where ?'a = nat] by auto
      then have "unat kc = unat mn + i" by (simp add: i(2) unat_word_ariths unat_of_nat)
      then show ?thesis using up by (simp add: in_range_def word_le_nat_alt)
    qed
    moreover have "\<not> mod_code ?km kc" "\<not> row_group2 (code_row ?km kc)"
      using z(1) level_mods_facts(4) by (auto simp: mod_code_def i(2) reply_code [OF i(1) mm(1)] row_group2_def)
    moreover have "kl_keycode l \<noteq> kc" if l: "l \<in> locations_at ?km k" for k l
    proof
      assume kc: "kl_keycode l = kc"
      obtain s where s: "(s, l) \<in> set (reply_entries un mn mx per syms)" using l unfolding reply_locations by blast
      obtain j where j: "j < ?n" "kl_keycode l = mn + of_nat j"
        "(s, l) \<in> set (row_entries un (level3_readable ?n ?per syms) (mn + of_nat j) (key_row ?per syms j))"
        by (rule reply_row [OF s])
      have "mn + of_nat j = mn + of_nat i" using kc i(2) j(2) by metis
      then have "j = i" by (rule inj [OF j(1) i(1)])
      then show False using j(3) z(2) by simp
    qed
    ultimately show "bindable ?km (\<lambda>_. False) kc" by (auto simp: bindable_def)
  qed
qed

definition typing_start :: "unicode \<Rightarrow> injector \<Rightarrow> bool" where
  "typing_start un i \<longleftrightarrow> (\<exists>xr mn mx per syms. xr_mapping xr = Some (mn, mx, per, syms) \<and> layout_ok mn mx per syms \<and>
     injector_new un xr None = Inr i)"

inductive typing_step :: "unicode \<Rightarrow> injector \<Rightarrow> injector \<Rightarrow> bool" for un :: unicode where
  "playable un ks i \<Longrightarrow> typing_step un i (fst (key un xr ks down i))"

lemma typing_start_ok:
  assumes "typing_start un i"
  shows "typing_ok un i"
proof -
  obtain xr mn mx per syms where xr: "xr_mapping xr = Some (mn, mx, per, syms)" and lay: "layout_ok mn mx per syms"
    and new: "injector_new un xr None = Inr i" using assms by (auto simp: typing_start_def)
  let ?km = "from_reply un mn mx per syms" and ?per = "unat per" and ?n = "key_count mn mx"
  have sane: "keymap_sane un ?km" by (rule reply_sane [OF lay])
  obtain spares where sp: "spare_keycodes ?km = Some spares" and i: "in_keymap i = ?km" "in_shift_keycode i = plain_keycode un SHIFT_L ?km"
    "in_level3_keycode i = plain_keycode un ISO_LEVEL3_SHIFT ?km" "in_spares i = spares" "in_dynamic i = []"
    "in_pressed i = []" "in_held_modifiers i = {}" "in_sent i = []" "in_credit i = None"
    using new by (auto simp: injector_new_def reload_keymap_def xr Let_def split: if_splits option.splits prod.splits sum.splits)
  have mods: "SHIFT_L \<in> level_mods" "ISO_LEVEL3_SHIFT \<in> level_mods" by (simp_all add: level_mods_def)
  obtain p where p: "p < ?n" "col (key_row ?per syms p) 0 = SHIFT_L" using lay by (auto simp: layout_ok_def list_all_iff list_ex_iff)
  obtain l where l: "l \<in> locations_at ?km SHIFT_L" using reply_modifier_there [OF p mods(1)] by blast
  have shift: "\<exists>s. in_shift_keycode i = Some s \<and> code_sym ?km s \<in> shifting"
    using plain_keycode_first [OF sane mods(1) l] i(2) by (auto simp: shifting_def)
  have third: "in_level3_keycode i \<noteq> None" if t: "map_third ?km"
  proof -
    obtain q where q: "q < ?n" "col (key_row ?per syms q) 0 = ISO_LEVEL3_SHIFT"
      using t by (auto simp: map_third_def level3_readable_def has_level3_rows)
    obtain l where "l \<in> locations_at ?km ISO_LEVEL3_SHIFT" using reply_modifier_there [OF q mods(2)] by blast
    then show ?thesis using plain_keycode_first [OF sane mods(2)] i(3) by auto
  qed
  have "maps_ok un i"
    using sane shift third reply_spares [OF lay sp] plain_keycode_sym [OF sane mods(2)]
    by (simp add: maps_ok_def i)
  moreover have "mods_ok ?km [] {} (keys_down i)" by (simp add: mods_ok_def keys_down_def i(8))
  ultimately show ?thesis by (simp add: typing_ok_def i)
qed

lemma typing_step_ok:
  assumes un: "unicode_ok un" and s: "typing_step un i j" and ok: "typing_ok un i"
  shows "typing_ok un j"
  using s ok
proof (induction rule: typing_step.induct)
  case (1 ks i xr down)
  show ?case
  proof (cases down)
    case True
    then show ?thesis using press_typing [OF un 1(2,1), of xr "fst (key un xr ks True i)" "snd (key un xr ks True i)"] by simp
  next
    case False
    then show ?thesis using release_typing [OF 1(2), of "canonical un ks"] un by (auto simp: key_def Let_def)
  qed
qed

interpretation typing: invariant_system "typing_start un" "\<lambda>i j. unicode_ok un \<and> typing_step un i j" "typing_ok un"
  by unfold_locales (auto intro: typing_start_ok typing_step_ok)



end
