(* ===== verification/Daemon.thy ===== *)
theory Daemon
  imports Text_Lines
begin

text \<open>
  \<open>crates/server/src/daemon/manager.rs\<close>: the sessions the daemon knows, the per-user start latch, the
  admission of connections, and the worker threads that hand a connection to its user's session, as a
  machine whose steps are what happens under one lock or in one system call. A session and its supervisor
  are one process; a user's control socket is named by the uid, so the file system is a map from uids to
  the process whose listener the file names.
\<close>

section \<open>State\<close>

definition ADOPTED_PROBE_INTERVAL :: nat where "ADOPTED_PROBE_INTERVAL = 30 * 1000000000"
definition HANDOFF_WORKERS :: nat where "HANDOFF_WORKERS = 16"
definition HANDOFF_QUEUE :: nat where "HANDOFF_QUEUE = 32"
definition PER_UID_IN_FLIGHT :: nat where "PER_UID_IN_FLIGHT = 2"

record user_info =
  ui_uid :: u32
  ui_name :: string

record session_record =
  sr_supervisor :: "nat option"
  sr_id :: u64
  sr_username :: string
  sr_started :: nat

text \<open>A connection: its descriptor, its user and where it comes from.\<close>

record job =
  job_fd :: nat
  job_user :: user_info
  job_peer :: string

record adopted =
  ad_uid :: u32
  ad_username :: string
  ad_started :: nat

datatype handoff_failure = Dead string | Unusable string

definition into_error :: "handoff_failure \<Rightarrow> string" where
  "into_error f = (case f of Dead e \<Rightarrow> e | Unusable e \<Rightarrow> e)"

text \<open>Where a thread is: in \<open>reap\<close>, or at a step of \<open>handoff\<close>.\<close>

datatype reap_pc =
    Collect
  | Sweep "(u32 \<times> session_record) list" "adopted list"
  | Claimed u32 "(u32 \<times> session_record) list" "adopted list"
  | Unlink_Ended u32 "(u32 \<times> session_record) list" "adopted list"
  | Probe "adopted list"
  | Forget "(u32 \<times> nat) list"

datatype pc =
    Idle
  | Got job
  | Acquire job
  | Check job
  | Reap "job option" reap_pc
  | Look job
  | Try job
  | Adopt job
  | Judge job handoff_failure
  | Stale job
  | End_Old job "nat option"
  | Unlink_Old job
  | Spawn job
  | Insert job nat u64
  | Try_New job u64
  | Fail_New job string
  | End_New job "nat option" string
  | Unlink_New job string
  | Finish job "string + u64"

text \<open>
  Beside the fields of \<open>Inner\<close>, \<open>Starts\<close>, \<open>Admission\<close> and the pool: the control sockets, the live
  sessions with their users, what became of each connection, and, for the proofs only, the users a
  session was started for.
\<close>

record daemon =
  dm_sessions :: "(u32, session_record) hmap"
  dm_last_probe :: nat
  dm_busy :: "u32 set"
  dm_stopping :: bool
  dm_in_flight :: "(u32, nat) hmap"
  dm_jobs_open :: bool
  dm_queue :: "job list"
  dm_threads :: "nat \<Rightarrow> pc"
  dm_now :: nat
  dm_socket :: "u32 \<Rightarrow> nat option"
  dm_alive :: "nat \<Rightarrow> u32 option"
  dm_next :: nat
  dm_ends :: "(nat \<times> (string + u64)) list"
  dm_started :: "u32 set"

definition uid_of :: "job \<Rightarrow> u32" where "uid_of j = ui_uid (job_user j)"

definition name_of :: "job \<Rightarrow> string" where "name_of j = ui_name (job_user j)"

definition go :: "nat \<Rightarrow> pc \<Rightarrow> daemon \<Rightarrow> daemon" where
  "go t p d = d\<lparr>dm_threads := (dm_threads d)(t := p)\<rparr>"

section \<open>The latch and the admission\<close>

text \<open>\<open>Starts::try_acquire\<close>; \<open>acquire\<close> waits until it succeeds.\<close>

definition try_acquire :: "u32 \<Rightarrow> daemon \<Rightarrow> daemon option" where
  "try_acquire u d = (if u \<in> dm_busy d then None else Some (d\<lparr>dm_busy := insert u (dm_busy d)\<rparr>))"

definition latch_drop :: "u32 \<Rightarrow> daemon \<Rightarrow> daemon" where
  "latch_drop u d = d\<lparr>dm_busy := dm_busy d - {u}\<rparr>"

definition admission_take :: "u32 \<Rightarrow> nat \<Rightarrow> (u32, nat) hmap \<Rightarrow> (u32, nat) hmap option" where
  "admission_take u cap m =
     (let n = (case hm_get m u of Some n \<Rightarrow> n | None \<Rightarrow> 0)
      in if cap \<le> n then None else Some (hm_insert u (n + 1) m))"

definition slot_drop :: "u32 \<Rightarrow> (u32, nat) hmap \<Rightarrow> (u32, nat) hmap" where
  "slot_drop u m =
     (case hm_get m u of
        None \<Rightarrow> m
      | Some n \<Rightarrow> if n - 1 = 0 then hm_remove u m else hm_insert u (n - 1) m)"

definition job_drop :: "job \<Rightarrow> string + u64 \<Rightarrow> daemon \<Rightarrow> daemon" where
  "job_drop j r d = d\<lparr>dm_in_flight := slot_drop (uid_of j) (dm_in_flight d), dm_ends := dm_ends d @ [(job_fd j, r)]\<rparr>"

definition submit :: "job \<Rightarrow> daemon \<Rightarrow> daemon \<times> (string + unit)" where
  "submit j d =
     (if \<not> dm_jobs_open d then (d, Inl ''the daemon is shutting down'')
      else case admission_take (uid_of j) PER_UID_IN_FLIGHT (dm_in_flight d) of
        None \<Rightarrow> (d, Inl (name_of j @ '' already has 2 connections waiting for a session''))
      | Some m \<Rightarrow>
          if length (dm_queue d) < HANDOFF_QUEUE
          then (d\<lparr>dm_in_flight := m, dm_queue := dm_queue d @ [j]\<rparr>, Inr ())
          else (d\<lparr>dm_in_flight := slot_drop (uid_of j) m\<rparr>, Inl ''the server is busy starting sessions''))"

section \<open>Reaping\<close>

definition exited_records :: "nat set \<Rightarrow> (u32, session_record) hmap \<Rightarrow> (u32 \<times> session_record) list" where
  "exited_records ex m = filter (\<lambda>(u, r). case sr_supervisor r of Some p \<Rightarrow> p \<in> ex | None \<Rightarrow> False) m"

definition adopted_records :: "(u32, session_record) hmap \<Rightarrow> adopted list" where
  "adopted_records m =
     map (\<lambda>(u, r). \<lparr>ad_uid = u, ad_username = sr_username r, ad_started = sr_started r\<rparr>)
       (filter (\<lambda>(u, r). sr_supervisor r = None) m)"

text \<open>The part of \<open>reap\<close> under the lock; \<open>ex\<close> are the supervisors \<open>try_wait\<close> finds ended.\<close>

definition reap_collect :: "nat set \<Rightarrow> nat \<Rightarrow> daemon \<Rightarrow> daemon \<times> (u32 \<times> session_record) list \<times> adopted list" where
  "reap_collect ex now d =
     (let ended = exited_records ex (dm_sessions d);
          m = fold hm_remove (map fst ended) (dm_sessions d);
          ad = (if ADOPTED_PROBE_INTERVAL \<le> now - dm_last_probe d then adopted_records m else [])
      in (d\<lparr>dm_sessions := m, dm_last_probe := (if ad = [] then dm_last_probe d else now)\<rparr>, ended, ad))"

text \<open>A row of \<open>/proc/net/unix\<close>: seven columns, then the name.\<close>

definition skip_column :: "string \<Rightarrow> string option" where
  "skip_column s =
     (case List.find (\<lambda>i. \<exists>w\<in>set white_space. take (length w) (drop i s) = w) [0..<length s] of
        None \<Rightarrow> None
      | Some i \<Rightarrow> Some (strip_start white_space (drop i s)))"

primrec skip_columns :: "nat \<Rightarrow> string \<Rightarrow> string option" where
  "skip_columns 0 s = Some s"
| "skip_columns (Suc n) s = Option.bind (skip_column s) (skip_columns n)"

definition bound_path :: "string \<Rightarrow> string option" where
  "bound_path row =
     Option.bind (skip_columns 7 (strip_start white_space row))
       (\<lambda>rest. let r = trim_end rest in if r = [] then None else Some r)"

definition socket_is_bound :: "string \<Rightarrow> string \<Rightarrow> bool" where
  "socket_is_bound table path = list_ex (\<lambda>row. bound_path row = Some path) (drop 1 (split_lines table))"

definition socket_path :: "string \<Rightarrow> u32 \<Rightarrow> string" where
  "socket_path dir u = dir @ ''/'' @ decimal (unat u) @ ''.sock''"

definition probe_adopted :: "string \<Rightarrow> string option \<Rightarrow> adopted list \<Rightarrow> (u32 \<times> nat) list" where
  "probe_adopted dir table candidates =
     (case table of
        None \<Rightarrow> []
      | Some tb \<Rightarrow> map (\<lambda>a. (ad_uid a, ad_started a))
                     (filter (\<lambda>a. \<not> socket_is_bound tb (socket_path dir (ad_uid a))) candidates))"

definition forget_one :: "u32 \<times> nat \<Rightarrow> (u32, session_record) hmap \<Rightarrow> (u32, session_record) hmap" where
  "forget_one = (\<lambda>(u, started) m.
     case hm_get m u of Some r \<Rightarrow> if sr_started r = started then hm_remove u m else m | None \<Rightarrow> m)"

definition reap_done :: "job option \<Rightarrow> pc" where
  "reap_done c = (case c of None \<Rightarrow> Idle | Some j \<Rightarrow> Look j)"

text \<open>One step of \<open>reap\<close> after the collection: the unlinks, each under its latch, then the probe.\<close>

definition reap_next :: "job option \<Rightarrow> (u32 \<times> session_record) list \<Rightarrow> adopted list \<Rightarrow> daemon \<Rightarrow> daemon \<times> pc" where
  "reap_next c ended ad d =
     (case ended of
        [] \<Rightarrow> (d, if ad = [] then reap_done c else Reap c (Probe ad))
      | (u, r) # es \<Rightarrow>
          (case try_acquire u d of
             None \<Rightarrow> (d, Reap c (Sweep es ad))
           | Some d \<Rightarrow> (d, Reap c (Claimed u es ad))))"

definition reap_claimed :: "job option \<Rightarrow> u32 \<Rightarrow> (u32 \<times> session_record) list \<Rightarrow> adopted list \<Rightarrow> daemon \<Rightarrow> daemon \<times> pc" where
  "reap_claimed c u es ad d =
     (if hm_get (dm_sessions d) u \<noteq> None then (latch_drop u d, Reap c (Sweep es ad))
      else (d, Reap c (Unlink_Ended u es ad)))"

definition remove_file :: "u32 \<Rightarrow> daemon \<Rightarrow> daemon" where
  "remove_file u d = d\<lparr>dm_socket := (dm_socket d)(u := None)\<rparr>"

section \<open>Handing a connection over\<close>

datatype connect_kind = Connection_Refused | Not_Found | Other_Kind

datatype reply = Accepted | Refused

text \<open>How waiting for the reply fails: with the time out of \<open>WouldBlock\<close> and \<open>TimedOut\<close>, or otherwise.\<close>

datatype reply_error = No_Reply | Reply_Error string

text \<open>The two time-outs, as they are printed.\<close>

definition ESTABLISHED_REPLY_TIMEOUT :: string where "ESTABLISHED_REPLY_TIMEOUT = ''10s''"
definition COLD_START_REPLY_TIMEOUT :: string where "COLD_START_REPLY_TIMEOUT = ''45s''"

text \<open>
  What the system answers an attempt: the connect, who listens on the other end, and the reply. \<open>own\<close> is
  the daemon's uid.
\<close>

record attempt =
  at_connect :: "(connect_kind \<times> string) option"
  at_owner :: "string + u32"
  at_reply :: "reply_error + reply"

definition deliver :: "u32 \<Rightarrow> string \<Rightarrow> string \<Rightarrow> attempt \<Rightarrow> string + unit" where
  "deliver own path timeout a =
     (case at_owner a of
        Inl e \<Rightarrow> Inl (''identifying the owner of '' @ path @ '': '' @ e)
      | Inr owner \<Rightarrow>
          if owner \<noteq> own \<and> owner \<noteq> 0
          then Inl (path @ '' is served by uid '' @ decimal (unat owner) @ '', not by uid '' @ decimal (unat own) @ '' or root'')
          else (case at_reply a of
                  Inl No_Reply \<Rightarrow> Inl (''no reply within '' @ timeout)
                | Inl (Reply_Error e) \<Rightarrow> Inl (''sending the handoff: '' @ e)
                | Inr Accepted \<Rightarrow> Inr ()
                | Inr Refused \<Rightarrow> Inl ''session refused the handoff''))"

definition try_handoff :: "u32 \<Rightarrow> string \<Rightarrow> string \<Rightarrow> attempt \<Rightarrow> handoff_failure + unit" where
  "try_handoff own path timeout a =
     (case at_connect a of
        Some (kind, e) \<Rightarrow>
          let e = ''connecting to '' @ path @ '': '' @ e
          in Inl (if kind = Connection_Refused \<or> kind = Not_Found then Dead e else Unusable e)
      | None \<Rightarrow> map_sum Unusable id (deliver own path timeout a))"

text \<open>What the kernel says of a connect: only a live listener accepts, and only a missing one refuses.\<close>

definition attempt_ok :: "u32 \<Rightarrow> daemon \<Rightarrow> attempt \<Rightarrow> bool" where
  "attempt_ok u d a \<longleftrightarrow>
     (case at_connect a of
        None \<Rightarrow> (\<exists>p. dm_socket d u = Some p \<and> dm_alive d p \<noteq> None)
      | Some (kind, _) \<Rightarrow> (kind = Connection_Refused \<or> kind = Not_Found \<longrightarrow> (\<forall>p. dm_socket d u = Some p \<longrightarrow> dm_alive d p = None)))"

text \<open>The id of the session that took the connection; one not known is adopted under the id 0.\<close>

definition adopt_session :: "job \<Rightarrow> nat \<Rightarrow> daemon \<Rightarrow> daemon \<times> u64" where
  "adopt_session j now d =
     (case hm_get (dm_sessions d) (uid_of j) of
        Some r \<Rightarrow> (d, sr_id r)
      | None \<Rightarrow> (d\<lparr>dm_sessions := hm_insert (uid_of j)
                   \<lparr>sr_supervisor = None, sr_id = 0, sr_username = name_of j, sr_started = now\<rparr> (dm_sessions d)\<rparr>, 0))"

definition owns_session :: "u32 \<Rightarrow> daemon \<Rightarrow> bool" where
  "owns_session u d = (case hm_get (dm_sessions d) u of Some r \<Rightarrow> sr_supervisor r \<noteq> None | None \<Rightarrow> False)"

definition judge :: "job \<Rightarrow> handoff_failure \<Rightarrow> daemon \<Rightarrow> pc" where
  "judge j f d =
     (case f of
        Unusable e \<Rightarrow>
          if \<not> owns_session (uid_of j) d
          then Finish j (Inl (''the existing session for '' @ name_of j @
                 '' is still running but did not take the connection; try again once it is responsive: '' @ e))
          else Stale j
      | Dead e \<Rightarrow> Stale j)"

definition take_record :: "u32 \<Rightarrow> daemon \<Rightarrow> nat option \<times> daemon" where
  "take_record u d =
     (Option.bind (hm_get (dm_sessions d) u) sr_supervisor, d\<lparr>dm_sessions := hm_remove u (dm_sessions d)\<rparr>)"

text \<open>A terminated supervisor has exited, and its session with it, when the grace and the kill are over.\<close>

definition terminate :: "nat option \<Rightarrow> daemon \<Rightarrow> daemon" where
  "terminate c d = (case c of None \<Rightarrow> d | Some p \<Rightarrow> d\<lparr>dm_alive := (dm_alive d)(p := None)\<rparr>)"

text \<open>
  How far \<open>spawn\<close> gets: the bind fails, or something after it (the socket file then names a listener
  nobody holds), or the process starts.
\<close>

datatype spawn_result = Bind_Failed string | Start_Failed string | Started

definition spawn :: "job \<Rightarrow> spawn_result \<Rightarrow> daemon \<Rightarrow> daemon \<times> (string + nat)" where
  "spawn j res d =
     (let u = uid_of j; d = remove_file u d; p = dm_next d
      in case res of
           Bind_Failed e \<Rightarrow> (d, Inl (''starting session for '' @ name_of j @ '': '' @ e))
         | Start_Failed e \<Rightarrow>
             (d\<lparr>dm_socket := (dm_socket d)(u \<mapsto> p), dm_next := p + 1\<rparr>, Inl (''starting session for '' @ name_of j @ '': '' @ e))
         | Started \<Rightarrow>
             (d\<lparr>dm_socket := (dm_socket d)(u \<mapsto> p), dm_alive := (dm_alive d)(p \<mapsto> u), dm_next := p + 1,
                dm_started := insert u (dm_started d)\<rparr>, Inr p))"

definition new_session_id :: "u64 \<Rightarrow> u64 \<Rightarrow> u64" where
  "new_session_id t pid = (t XOR push_bit 48 pid) AND 0x7fffffffffffffff"

definition record_session :: "job \<Rightarrow> nat \<Rightarrow> u64 \<Rightarrow> nat \<Rightarrow> daemon \<Rightarrow> daemon" where
  "record_session j p sid now d =
     d\<lparr>dm_sessions := hm_insert (uid_of j)
         \<lparr>sr_supervisor = Some p, sr_id = sid, sr_username = name_of j, sr_started = now\<rparr> (dm_sessions d)\<rparr>"

text \<open>Every session the daemon started is ended and its socket removed; adopted ones are left alone.\<close>

definition own_sessions :: "(u32, session_record) hmap \<Rightarrow> (u32 \<times> nat) list" where
  "own_sessions m = List.map_filter (\<lambda>(u, r). map_option (Pair u) (sr_supervisor r)) m"

definition stop_all :: "daemon \<Rightarrow> daemon" where
  "stop_all d =
     (let ours = own_sessions (dm_sessions d);
          d = fold (\<lambda>(u, p). terminate (Some p)) ours (d\<lparr>dm_sessions := []\<rparr>)
      in fold (\<lambda>(u, p). remove_file u) ours d)"

definition begin_shutdown :: "daemon \<Rightarrow> daemon" where
  "begin_shutdown d = d\<lparr>dm_stopping := True\<rparr>"

section \<open>The machine\<close>

text \<open>Thread 0 accepts and reaps; the others are the pool's workers. The clock moves between records.\<close>

inductive daemon_step :: "string \<Rightarrow> u32 \<Rightarrow> daemon \<Rightarrow> daemon \<Rightarrow> bool" for dir :: string and own :: u32 where
  submits: "submit j d = (d', Inr ()) \<Longrightarrow> daemon_step dir own d d'"
| turned_away: "submit j d = (d', Inl e) \<Longrightarrow> daemon_step dir own d (d'\<lparr>dm_ends := dm_ends d' @ [(job_fd j, Inl e)]\<rparr>)"
| receives: "0 < t \<Longrightarrow> t \<le> HANDOFF_WORKERS \<Longrightarrow> dm_threads d t = Idle \<Longrightarrow> dm_queue d = j # q \<Longrightarrow>
    daemon_step dir own d (go t (Got j) (d\<lparr>dm_queue := q\<rparr>))"
| runs: "dm_threads d t = Got j \<Longrightarrow>
    daemon_step dir own d (if dm_stopping d then go t Idle (job_drop j (Inl ''closed'') d) else go t (Acquire j) d)"
| acquires: "dm_threads d t = Acquire j \<Longrightarrow> try_acquire (uid_of j) d = Some d' \<Longrightarrow> daemon_step dir own d (go t (Check j) d')"
| checks: "dm_threads d t = Check j \<Longrightarrow>
    daemon_step dir own d (go t (if dm_stopping d then Finish j (Inl ''the daemon is shutting down'') else Reap (Some j) Collect) d)"
| reaps: "dm_threads d 0 = Idle \<Longrightarrow> daemon_step dir own d (go 0 (Reap None Collect) d)"
| collects: "dm_threads d t = Reap c Collect \<Longrightarrow> \<forall>p\<in>ex. dm_alive d p = None \<Longrightarrow> dm_now d < now \<Longrightarrow>
    reap_collect ex now d = (d', ended, ad) \<Longrightarrow> daemon_step dir own d (go t (Reap c (Sweep ended ad)) (d'\<lparr>dm_now := now\<rparr>))"
| sweeps: "dm_threads d t = Reap c (Sweep ended ad) \<Longrightarrow> reap_next c ended ad d = (d', p) \<Longrightarrow> daemon_step dir own d (go t p d')"
| claims: "dm_threads d t = Reap c (Claimed u es ad) \<Longrightarrow> reap_claimed c u es ad d = (d', p) \<Longrightarrow> daemon_step dir own d (go t p d')"
| unlinks: "dm_threads d t = Reap c (Unlink_Ended u es ad) \<Longrightarrow>
    daemon_step dir own d (go t (Reap c (Sweep es ad)) (latch_drop u (remove_file u d)))"
| probes: "dm_threads d t = Reap c (Probe ad) \<Longrightarrow> gone = probe_adopted dir table ad \<Longrightarrow>
    daemon_step dir own d (go t (if gone = [] then reap_done c else Reap c (Forget gone)) d)"
| forgets: "dm_threads d t = Reap c (Forget gone) \<Longrightarrow>
    daemon_step dir own d (go t (reap_done c) (d\<lparr>dm_sessions := fold forget_one gone (dm_sessions d)\<rparr>))"
| looks: "dm_threads d t = Look j \<Longrightarrow>
    daemon_step dir own d (go t (if dm_socket d (uid_of j) \<noteq> None then Try j else Spawn j) d)"
| tries: "dm_threads d t = Try j \<Longrightarrow> attempt_ok (uid_of j) d a \<Longrightarrow>
    try_handoff own (socket_path dir (uid_of j)) ESTABLISHED_REPLY_TIMEOUT a = r \<Longrightarrow>
    daemon_step dir own d (go t (case r of Inr _ \<Rightarrow> Adopt j | Inl f \<Rightarrow> Judge j f) d)"
| adopts: "dm_threads d t = Adopt j \<Longrightarrow> dm_now d < now \<Longrightarrow> adopt_session j now d = (d', sid) \<Longrightarrow>
    daemon_step dir own d (go t (Finish j (Inr sid)) (d'\<lparr>dm_now := now\<rparr>))"
| judges: "dm_threads d t = Judge j f \<Longrightarrow> daemon_step dir own d (go t (judge j f d) d)"
| drops: "dm_threads d t = Stale j \<Longrightarrow> take_record (uid_of j) d = (c, d') \<Longrightarrow> daemon_step dir own d (go t (End_Old j c) d')"
| ends_old: "dm_threads d t = End_Old j c \<Longrightarrow> daemon_step dir own d (go t (Unlink_Old j) (terminate c d))"
| unlinks_old: "dm_threads d t = Unlink_Old j \<Longrightarrow> daemon_step dir own d (go t (Spawn j) (remove_file (uid_of j) d))"
| spawns: "dm_threads d t = Spawn j \<Longrightarrow> spawn j res d = (d', r) \<Longrightarrow> sid = new_session_id nanos pid \<Longrightarrow>
    daemon_step dir own d (go t (case r of Inl e \<Rightarrow> Finish j (Inl e) | Inr p \<Rightarrow> Insert j p sid) d')"
| inserts: "dm_threads d t = Insert j p sid \<Longrightarrow> dm_now d < now \<Longrightarrow>
    daemon_step dir own d (go t (Try_New j sid) (record_session j p sid now (d\<lparr>dm_now := now\<rparr>)))"
| tries_new: "dm_threads d t = Try_New j sid \<Longrightarrow> attempt_ok (uid_of j) d a \<Longrightarrow>
    try_handoff own (socket_path dir (uid_of j)) COLD_START_REPLY_TIMEOUT a = r \<Longrightarrow>
    daemon_step dir own d (go t (case r of Inr _ \<Rightarrow> Finish j (Inr sid) | Inl f \<Rightarrow> Fail_New j (into_error f)) d)"
| fails_new: "dm_threads d t = Fail_New j e \<Longrightarrow> take_record (uid_of j) d = (c, d') \<Longrightarrow> daemon_step dir own d (go t (End_New j c e) d')"
| ends_new: "dm_threads d t = End_New j c e \<Longrightarrow> daemon_step dir own d (go t (Unlink_New j e) (terminate c d))"
| unlinks_new: "dm_threads d t = Unlink_New j e \<Longrightarrow>
    daemon_step dir own d (go t (Finish j (Inl (''new session did not accept the connection: '' @ e))) (remove_file (uid_of j) d))"
| finishes: "dm_threads d t = Finish j r \<Longrightarrow> daemon_step dir own d (go t Idle (job_drop j r (latch_drop (uid_of j) d)))"
| dies: "daemon_step dir own d (d\<lparr>dm_alive := (dm_alive d)(p := None)\<rparr>)"
| shuts: "daemon_step dir own d ((begin_shutdown d)\<lparr>dm_jobs_open := False\<rparr>)"
| stops: "\<not> dm_jobs_open d \<Longrightarrow> dm_queue d = [] \<Longrightarrow> \<forall>t. dm_threads d t = Idle \<Longrightarrow> daemon_step dir own d (stop_all d)"

end
