(* ===== verification/Daemon_Sessions.thy ===== *)
theory Daemon_Sessions
  imports Daemon
begin

text \<open>
  What the daemon promises about sessions: in every state it can reach a user has at most one live
  session, and the user's control socket leads to it.
\<close>

section \<open>The invariant\<close>

definition live :: "daemon \<Rightarrow> u32 \<Rightarrow> nat set" where "live d u = {p. dm_alive d p = Some u}"

text \<open>The supervisor the map has for a user.\<close>

definition claim :: "daemon \<Rightarrow> u32 \<Rightarrow> nat set" where
  "claim d u = (case hm_get (dm_sessions d) u of Some r \<Rightarrow> set_option (sr_supervisor r) | None \<Rightarrow> {})"

text \<open>The users whose start latch a thread holds.\<close>

fun held_by_reap :: "reap_pc \<Rightarrow> u32 set" where
  "held_by_reap (Claimed u es ad) = {u}"
| "held_by_reap (Unlink_Ended u es ad) = {u}"
| "held_by_reap _ = {}"

fun holds :: "pc \<Rightarrow> u32 set" where
  "holds Idle = {}"
| "holds (Got j) = {}"
| "holds (Acquire j) = {}"
| "holds (Check j) = {uid_of j}"
| "holds (Reap c r) = uid_of ` set_option c \<union> held_by_reap r"
| "holds (Look j) = {uid_of j}"
| "holds (Try j) = {uid_of j}"
| "holds (Adopt j) = {uid_of j}"
| "holds (Judge j f) = {uid_of j}"
| "holds (Stale j) = {uid_of j}"
| "holds (End_Old j p) = {uid_of j}"
| "holds (Unlink_Old j) = {uid_of j}"
| "holds (Spawn j) = {uid_of j}"
| "holds (Insert j p sid) = {uid_of j}"
| "holds (Try_New j sid) = {uid_of j}"
| "holds (Fail_New j e) = {uid_of j}"
| "holds (End_New j p e) = {uid_of j}"
| "holds (Unlink_New j e) = {uid_of j}"
| "holds (Finish j r) = {uid_of j}"

text \<open>The user whose session a thread has in hand while the map has no record of it.\<close>

fun in_hand :: "pc \<Rightarrow> u32 set" where
  "in_hand (End_Old j c) = {uid_of j}"
| "in_hand (Insert j p sid) = {uid_of j}"
| "in_hand (End_New j c e) = {uid_of j}"
| "in_hand _ = {}"

lemma in_hand_holds: "in_hand p \<subseteq> holds p"
  by (cases p) auto

text \<open>What the probe may forget: a record it saw adopted. A record put since then is younger.\<close>

definition forgettable :: "daemon \<Rightarrow> (u32 \<times> nat) list \<Rightarrow> bool" where
  "forgettable d us \<longleftrightarrow> (\<forall>(u, s) \<in> set us. s \<le> dm_now d \<and>
     (\<forall>r. hm_get (dm_sessions d) u = Some r \<longrightarrow> sr_started r = s \<longrightarrow> sr_supervisor r = None))"

abbreviation seen :: "adopted list \<Rightarrow> (u32 \<times> nat) list" where
  "seen ad \<equiv> map (\<lambda>a. (ad_uid a, ad_started a)) ad"

fun reap_ok :: "daemon \<Rightarrow> reap_pc \<Rightarrow> bool" where
  "reap_ok d Collect \<longleftrightarrow> True"
| "reap_ok d (Sweep es ad) \<longleftrightarrow> fst ` set es \<subseteq> dm_started d \<and> forgettable d (seen ad)"
| "reap_ok d (Claimed u es ad) \<longleftrightarrow> u \<in> dm_started d \<and> fst ` set es \<subseteq> dm_started d \<and> forgettable d (seen ad)"
| "reap_ok d (Unlink_Ended u es ad) \<longleftrightarrow> live d u = {} \<and> fst ` set es \<subseteq> dm_started d \<and> forgettable d (seen ad)"
| "reap_ok d (Probe ad) \<longleftrightarrow> forgettable d (seen ad)"
| "reap_ok d (Forget us) \<longleftrightarrow> forgettable d us"

fun pc_ok :: "daemon \<Rightarrow> pc \<Rightarrow> bool" where
  "pc_ok d (Reap c r) \<longleftrightarrow> reap_ok d r \<and> uid_of ` set_option c \<inter> held_by_reap r = {}"
| "pc_ok d (Judge j f) \<longleftrightarrow> (\<forall>e. f = Dead e \<longrightarrow> live d (uid_of j) = {})"
| "pc_ok d (Stale j) \<longleftrightarrow> uid_of j \<in> dm_started d \<or> live d (uid_of j) = {}"
| "pc_ok d (End_Old j c) \<longleftrightarrow> live d (uid_of j) \<subseteq> set_option c"
| "pc_ok d (Unlink_Old j) \<longleftrightarrow> live d (uid_of j) = {}"
| "pc_ok d (Spawn j) \<longleftrightarrow> live d (uid_of j) = {}"
| "pc_ok d (Insert j p sid) \<longleftrightarrow> uid_of j \<in> dm_started d \<and> live d (uid_of j) \<subseteq> {p}"
| "pc_ok d (Try_New j sid) \<longleftrightarrow> uid_of j \<in> dm_started d"
| "pc_ok d (Fail_New j e) \<longleftrightarrow> uid_of j \<in> dm_started d"
| "pc_ok d (End_New j c e) \<longleftrightarrow> live d (uid_of j) \<subseteq> set_option c"
| "pc_ok d (Unlink_New j e) \<longleftrightarrow> live d (uid_of j) = {}"
| "pc_ok d _ \<longleftrightarrow> True"

definition latched :: "daemon \<Rightarrow> bool" where
  "latched d \<longleftrightarrow> (\<forall>t. holds (dm_threads d t) \<subseteq> dm_busy d) \<and>
     (\<forall>t t'. t \<noteq> t' \<longrightarrow> holds (dm_threads d t) \<inter> holds (dm_threads d t') = {}) \<and>
     (\<forall>u\<in>dm_busy d. \<exists>t. u \<in> holds (dm_threads d t))"

definition records_ok :: "daemon \<Rightarrow> bool" where
  "records_ok d \<longleftrightarrow> hm_ok (dm_sessions d) \<and> (\<forall>p. dm_alive d p \<noteq> None \<longrightarrow> p < dm_next d) \<and>
     (\<forall>u r. hm_get (dm_sessions d) u = Some r \<longrightarrow> sr_started r \<le> dm_now d \<and> (sr_supervisor r \<noteq> None \<longrightarrow> u \<in> dm_started d))"

text \<open>The socket of a user with a live session leads to it.\<close>

definition named :: "daemon \<Rightarrow> bool" where
  "named d \<longleftrightarrow> (\<forall>p u. dm_alive d p = Some u \<longrightarrow> dm_socket d u = Some p)"

text \<open>The live session of a user the daemon started one for is the one in the map.\<close>

definition covered :: "daemon \<Rightarrow> bool" where
  "covered d \<longleftrightarrow> (\<forall>u\<in>dm_started d. (\<forall>t. u \<notin> in_hand (dm_threads d t)) \<longrightarrow> live d u \<subseteq> claim d u)"

definition daemon_ok :: "daemon \<Rightarrow> bool" where
  "daemon_ok d \<longleftrightarrow> latched d \<and> records_ok d \<and> named d \<and> covered d \<and> (\<forall>t. pc_ok d (dm_threads d t))"

text \<open>
  A change that takes sessions away but from users in \<open>X\<close>, and puts only new records into the map.
\<close>

definition calm :: "u32 set \<Rightarrow> daemon \<Rightarrow> daemon \<Rightarrow> bool" where
  "calm X d d' \<longleftrightarrow> dm_started d \<subseteq> dm_started d' \<and> dm_now d \<le> dm_now d' \<and>
     (\<forall>u. u \<notin> X \<longrightarrow> live d' u \<subseteq> live d u) \<and>
     (\<forall>u r. hm_get (dm_sessions d') u = Some r \<longrightarrow> hm_get (dm_sessions d) u = Some r \<or> dm_now d < sr_started r)"

lemma calm_forgettable: "calm X d d' \<Longrightarrow> forgettable d us \<Longrightarrow> forgettable d' us"
  unfolding calm_def forgettable_def by (fastforce dest: leD)

lemma calm_reap_ok: "calm X d d' \<Longrightarrow> held_by_reap r \<inter> X = {} \<Longrightarrow> reap_ok d r \<Longrightarrow> reap_ok d' r"
  by (cases r) (use calm_forgettable [of X d d'] in \<open>auto simp: calm_def\<close>)

lemma calm_pc_ok: "calm X d d' \<Longrightarrow> holds p \<inter> X = {} \<Longrightarrow> pc_ok d p \<Longrightarrow> pc_ok d' p"
proof (cases p)
  case (Reap c r)
  then show "calm X d d' \<Longrightarrow> holds p \<inter> X = {} \<Longrightarrow> pc_ok d p \<Longrightarrow> pc_ok d' p"
    using calm_reap_ok [of X d d' r] by auto
qed (auto simp: calm_def)


section \<open>Steps\<close>

lemma go_simps [simp]:
  "dm_sessions (go t p d) = dm_sessions d" "dm_busy (go t p d) = dm_busy d" "dm_now (go t p d) = dm_now d"
  "dm_socket (go t p d) = dm_socket d" "dm_alive (go t p d) = dm_alive d" "dm_next (go t p d) = dm_next d"
  "dm_started (go t p d) = dm_started d" "dm_threads (go t p d) = (dm_threads d)(t := p)"
  "dm_ends (go t p d) = dm_ends d" "dm_queue (go t p d) = dm_queue d" "dm_in_flight (go t p d) = dm_in_flight d"
  "dm_stopping (go t p d) = dm_stopping d" "dm_jobs_open (go t p d) = dm_jobs_open d"
  by (simp_all add: go_def)

lemma live_go [simp]: "live (go t p d) = live d" and claim_go [simp]: "claim (go t p d) = claim d"
  by (simp_all add: live_def claim_def fun_eq_iff)

lemma forgettable_go [simp]: "forgettable (go t p d) = forgettable d"
  by (simp add: forgettable_def fun_eq_iff)

lemma reap_ok_go [simp]: "reap_ok (go t p d) r = reap_ok d r"
  by (cases r) auto

lemma pc_ok_go [simp]: "pc_ok (go t p d) q = pc_ok d q"
  by (cases q) auto

text \<open>A step of one thread keeps the invariant when it keeps it for that thread.\<close>

lemma thread_step:
  assumes ok: "daemon_ok d" and th: "dm_threads d' = dm_threads d" "dm_threads d t = q"
    and busy: "dm_busy d' = (dm_busy d - holds q) \<union> holds p" "holds p \<inter> (dm_busy d - holds q) = {}"
    and calm: "calm X d d'" "X \<subseteq> holds q"
    and rec: "records_ok d'" and nam: "named d'" and pc: "pc_ok d' p"
    and cov: "\<And>u. u \<in> dm_started d' \<Longrightarrow> u \<notin> in_hand p \<Longrightarrow> \<forall>t'. t' \<noteq> t \<longrightarrow> u \<notin> in_hand (dm_threads d t') \<Longrightarrow>
      (u \<in> dm_started d \<Longrightarrow> u \<notin> in_hand q \<Longrightarrow> live d u \<subseteq> claim d u) \<Longrightarrow> live d' u \<subseteq> claim d' u"
  shows "daemon_ok (go t p d')"
proof -
  have l: "holds (dm_threads d a) \<subseteq> dm_busy d" "a \<noteq> b \<Longrightarrow> holds (dm_threads d a) \<inter> holds (dm_threads d b) = {}" for a b
    using ok by (auto simp: daemon_ok_def latched_def)
  have o: "holds (dm_threads d a) \<subseteq> dm_busy d - holds q" if "a \<noteq> t" for a
    using l(1) [of a] l(2) [of a t] th(2) that by auto
  have "latched (go t p d')"
    unfolding latched_def
  proof (intro conjI allI impI)
    show "holds (dm_threads (go t p d') a) \<subseteq> dm_busy (go t p d')" for a
      using o [of a] by (auto simp: th(1) busy(1))
    show "holds (dm_threads (go t p d') a) \<inter> holds (dm_threads (go t p d') b) = {}" if "a \<noteq> b" for a b
      using that o [of a] o [of b] l(2) [of a b] busy(2) by (auto simp: th(1))
  next
    show "\<forall>u\<in>dm_busy (go t p d'). \<exists>a. u \<in> holds (dm_threads (go t p d') a)"
    proof
      fix u assume "u \<in> dm_busy (go t p d')"
      then have "u \<in> dm_busy d - holds q \<or> u \<in> holds p" by (simp add: busy(1))
      then show "\<exists>a. u \<in> holds (dm_threads (go t p d') a)"
      proof
        assume u: "u \<in> dm_busy d - holds q"
        then obtain a where "u \<in> holds (dm_threads d a)" using ok by (auto simp: daemon_ok_def latched_def)
        moreover have "a \<noteq> t" using u calculation th(2) by auto
        ultimately show ?thesis by (auto simp: th(1) intro!: exI [of _ a])
      qed (auto intro!: exI [of _ t])
    qed
  qed
  moreover have "pc_ok d' (dm_threads d a)" if "a \<noteq> t" for a
  proof (rule calm_pc_ok [OF calm(1)])
    show "holds (dm_threads d a) \<inter> X = {}" using l(2) [of a t] th(2) calm(2) that by blast
    show "pc_ok d (dm_threads d a)" using ok by (simp add: daemon_ok_def)
  qed
  then have "\<forall>a. pc_ok (go t p d') (dm_threads (go t p d') a)" using pc by (auto simp: th(1))
  moreover have "covered (go t p d')"
    unfolding covered_def
  proof (intro ballI impI)
    fix u assume u: "u \<in> dm_started (go t p d')" and n: "\<forall>a. u \<notin> in_hand (dm_threads (go t p d') a)"
    have o: "\<forall>t'. t' \<noteq> t \<longrightarrow> u \<notin> in_hand (dm_threads d t')" and "u \<notin> in_hand p"
      using n by (auto simp: th(1) split: if_splits)
    have "live d u \<subseteq> claim d u" if "u \<in> dm_started d" "u \<notin> in_hand q"
      using ok that o th(2) unfolding daemon_ok_def covered_def by metis
    then show "live (go t p d') u \<subseteq> claim (go t p d') u" using cov [of u] u o \<open>u \<notin> in_hand p\<close> by simp
  qed
  moreover have "records_ok (go t p d')" "named (go t p d')"
    using rec nam by (simp_all add: records_ok_def named_def)
  ultimately show ?thesis by (simp add: daemon_ok_def)
qed

text \<open>Steps that move no latch.\<close>

lemma calm_refl [simp]: "calm X d d" by (simp add: calm_def)

lemma moves:
  assumes ok: "daemon_ok d" and th: "dm_threads d t = q" "holds p = holds q" and pc: "pc_ok d p"
    and hand: "in_hand q = {}" 
  shows "daemon_ok (go t p d)"
proof (rule thread_step [OF ok refl th(1), where X = "{}"])
  show "dm_busy d = dm_busy d - holds q \<union> holds p"
    using ok th by (auto simp: daemon_ok_def latched_def)
  show "live d u \<subseteq> claim d u" if "u \<in> dm_started d" "u \<in> dm_started d \<Longrightarrow> u \<notin> in_hand q \<Longrightarrow> live d u \<subseteq> claim d u" for u
    using that hand by simp
qed (use ok th pc in \<open>auto simp: daemon_ok_def\<close>)


lemma daemon_okD:
  assumes "daemon_ok d"
  shows "latched d" "records_ok d" "named d" "covered d" "pc_ok d (dm_threads d t)" "holds (dm_threads d t) \<subseteq> dm_busy d"
  using assms by (auto simp: daemon_ok_def latched_def)

lemma alters:
  assumes "daemon_ok d" "dm_threads d' = dm_threads d" "dm_threads d t = q" "dm_busy d' = dm_busy d" "holds p = holds q"
    "calm X d d'" "X \<subseteq> holds q" "records_ok d'" "named d'" "pc_ok d' p"
    "\<And>u. u \<in> dm_started d' \<Longrightarrow> u \<notin> in_hand p \<Longrightarrow> (u \<in> dm_started d \<Longrightarrow> u \<notin> in_hand q \<Longrightarrow> live d u \<subseteq> claim d u) \<Longrightarrow>
      live d' u \<subseteq> claim d' u"
  shows "daemon_ok (go t p d')"
proof (rule thread_step [OF assms(1-3) _ _ assms(6-10)])
  show "dm_busy d' = dm_busy d - holds q \<union> holds p"
    using daemon_okD(6) [OF assms(1), of t] assms(3-5) by auto
qed (use assms(5,11) in auto)

text \<open>The user a thread is busy for is not in another thread's hands.\<close>

lemma not_in_other_hands:
  assumes "daemon_ok d" "u \<in> holds (dm_threads d t)" "u \<notin> in_hand (dm_threads d t)" "u \<in> dm_started d"
  shows "live d u \<subseteq> claim d u"
proof -
  have "u \<notin> in_hand (dm_threads d a)" for a
  proof (cases "a = t")
    case False
    have "holds (dm_threads d a) \<inter> holds (dm_threads d t) = {}"
      using daemon_okD(1) [OF assms(1)] False by (simp add: latched_def)
    then have "u \<notin> holds (dm_threads d a)" using assms(2) by blast
    then show ?thesis using in_hand_holds by blast
  qed (use assms(3) in simp)
  then show ?thesis using daemon_okD(4) [OF assms(1)] assms(4) by (auto simp: covered_def)
qed

lemma single_live: "named d \<Longrightarrow> p \<in> live d u \<Longrightarrow> dm_socket d u = Some p"
  by (simp add: named_def live_def)

text \<open>The latch.\<close>

lemma acquire_ok:
  assumes ok: "daemon_ok d" and th: "dm_threads d t = Acquire j" and got: "try_acquire (uid_of j) d = Some d'"
  shows "daemon_ok (go t (Check j) d')"
proof (rule thread_step [OF ok _ th, where X = "{}"])
  have d': "d' = d\<lparr>dm_busy := insert (uid_of j) (dm_busy d)\<rparr>" "uid_of j \<notin> dm_busy d"
    using got by (auto simp: try_acquire_def split: if_splits)
  show "records_ok d'" "named d'" "calm {} d d'"
    using daemon_okD(2,3) [OF ok] by (auto simp: d' records_ok_def named_def calm_def live_def)
  show "live d' u \<subseteq> claim d' u" if "u \<in> dm_started d'"
      "u \<in> dm_started d \<Longrightarrow> u \<notin> in_hand (Acquire j) \<Longrightarrow> live d u \<subseteq> claim d u" for u
    using that by (simp add: d' live_def claim_def)
qed (use got in \<open>auto simp: try_acquire_def split: if_splits\<close>)

lemma reap_done_simps [simp]: "holds (reap_done c) = uid_of ` set_option c" "pc_ok d (reap_done c)" "in_hand (reap_done c) = {}"
  by (cases c; simp add: reap_done_def)+

lemma sweep_ok:
  assumes ok: "daemon_ok d" and th: "dm_threads d t = Reap c (Sweep ended ad)" and st: "reap_next c ended ad d = (d', p)"
  shows "daemon_ok (go t p d')"
proof (cases ended)
  case Nil
  have "d' = d" "p = (if ad = [] then reap_done c else Reap c (Probe ad))" using st Nil by (auto simp: reap_next_def)
  then show ?thesis using daemon_okD(5) [OF ok, of t] th by (auto intro!: moves [OF ok th])
next
  case (Cons e es)
  obtain u r where e: "e = (u, r)" by (cases e)
  show ?thesis
  proof (cases "u \<in> dm_busy d")
    case True
    then have "d' = d" "p = Reap c (Sweep es ad)" using st Cons e by (auto simp: reap_next_def try_acquire_def)
    then show ?thesis using daemon_okD(5) [OF ok, of t] th Cons e by (auto intro!: moves [OF ok th])
  next
    case False
    then have d': "d' = d\<lparr>dm_busy := insert u (dm_busy d)\<rparr>" and p: "p = Reap c (Claimed u es ad)"
      using st Cons e by (auto simp: reap_next_def try_acquire_def)
    have c: "uid_of ` set_option c \<subseteq> dm_busy d" using daemon_okD(6) [OF ok, of t] th by simp
    have f: "forgettable d' us = forgettable d us" for us by (simp add: d' forgettable_def)
    show ?thesis
    proof (rule thread_step [OF ok _ th, where X = "{}"])
      show "records_ok d'" "named d'" "calm {} d d'"
        using daemon_okD(2,3) [OF ok] by (auto simp: d' records_ok_def named_def calm_def live_def)
      show "pc_ok d' p"
        using daemon_okD(5) [OF ok, of t] th Cons e False c f by (auto simp: p d')
      show "live d' v \<subseteq> claim d' v" if "v \<in> dm_started d'"
          "v \<in> dm_started d \<Longrightarrow> v \<notin> in_hand (Reap c (Sweep ended ad)) \<Longrightarrow> live d v \<subseteq> claim d v" for v
        using that by (simp add: d' live_def claim_def)
    qed (use False c in \<open>auto simp: d' p\<close>)
  qed
qed

lemma drop_latch:
  assumes ok: "daemon_ok d" and d': "d' = latch_drop u d0" and th: "dm_threads d t = q"
    and h: "holds q = insert u (holds p)" "u \<notin> holds p"
    and d0: "dm_threads d0 = dm_threads d" "dm_busy d0 = dm_busy d" "calm {} d d0" "records_ok d0" "named d0" "pc_ok d0 p"
    and hand: "\<And>v. v \<in> dm_started d0 \<Longrightarrow> (v \<in> dm_started d \<Longrightarrow> v \<notin> in_hand q \<Longrightarrow> live d v \<subseteq> claim d v) \<Longrightarrow> live d0 v \<subseteq> claim d0 v"
  shows "daemon_ok (go t p d')"
proof (rule thread_step [OF ok _ th, where X = "{}"])
  have s: "live d' = live d0" "claim d' = claim d0" "forgettable d' = forgettable d0"
    by (simp_all add: d' latch_drop_def live_def claim_def forgettable_def fun_eq_iff)
  have r: "reap_ok d' r = reap_ok d0 r" for r by (cases r) (simp_all add: s, simp_all add: d' latch_drop_def)
  show "dm_busy d' = dm_busy d - holds q \<union> holds p"
    using daemon_okD(6) [OF ok, of t] th h d0(2) by (auto simp: d' latch_drop_def)
  show "records_ok d'" "named d'" "calm {} d d'"
    using d0 by (simp_all add: d' latch_drop_def records_ok_def named_def calm_def live_def)
  show "pc_ok d' p"
    using d0(6) by (cases p) (simp_all add: s r, simp_all add: d' latch_drop_def)
  show "live d' v \<subseteq> claim d' v" if "v \<in> dm_started d'" "v \<in> dm_started d \<Longrightarrow> v \<notin> in_hand q \<Longrightarrow> live d v \<subseteq> claim d v" for v
    using hand [of v] that s by (simp add: d' latch_drop_def)
qed (use h d0 in \<open>auto simp: d' latch_drop_def\<close>)

lemma claimed_ok:
  assumes ok: "daemon_ok d" and th: "dm_threads d t = Reap c (Claimed u es ad)" and st: "reap_claimed c u es ad d = (d', p)"
  shows "daemon_ok (go t p d')"
proof (cases "hm_get (dm_sessions d) u = None")
  case True
  have "claim d u = {}" using True by (simp add: claim_def)
  then have "live d u = {}" using not_in_other_hands [OF ok, of u t] th daemon_okD(5) [OF ok, of t] by simp
  then have "daemon_ok (go t (Reap c (Unlink_Ended u es ad)) d)"
    by (intro moves [OF ok th]) (use daemon_okD(5) [OF ok, of t] th in auto)
  then show ?thesis using True st by (auto simp: reap_claimed_def)
next
  case False
  have o: "u \<notin> uid_of ` set_option c" "pc_ok d (Reap c (Sweep es ad))" using daemon_okD(5) [OF ok, of t] th by auto
  show ?thesis
  proof (rule drop_latch [OF ok _ th])
    show "d' = latch_drop u d" using False st by (auto simp: reap_claimed_def)
    show "holds (Reap c (Claimed u es ad)) = insert u (holds p)" "u \<notin> holds p" "pc_ok d p"
      using False st o by (auto simp: reap_claimed_def)
    show "live d v \<subseteq> claim d v" if "v \<in> dm_started d" "v \<in> dm_started d \<Longrightarrow> v \<notin> in_hand (Reap c (Claimed u es ad)) \<Longrightarrow> live d v \<subseteq> claim d v" for v
      using that by simp
  qed (use daemon_okD(2,3) [OF ok] in auto)
qed

lemma remove_file_ok:
  assumes "daemon_ok d" "live d u = {}"
  shows "records_ok (remove_file u d)" "named (remove_file u d)" "calm X d (remove_file u d)"
    "live (remove_file u d) = live d" "claim (remove_file u d) = claim d" "forgettable (remove_file u d) = forgettable d"
  using daemon_okD(2,3) [OF assms(1)] assms(2)
  by (auto simp: remove_file_def records_ok_def named_def calm_def live_def claim_def forgettable_def fun_eq_iff)

lemma remove_file_simps [simp]:
  "dm_sessions (remove_file u d) = dm_sessions d" "dm_busy (remove_file u d) = dm_busy d"
  "dm_started (remove_file u d) = dm_started d" "dm_threads (remove_file u d) = dm_threads d"
  "dm_alive (remove_file u d) = dm_alive d" "dm_next (remove_file u d) = dm_next d"
  "dm_socket (remove_file u d) = (dm_socket d)(u := None)" "dm_now (remove_file u d) = dm_now d"
  "dm_queue (remove_file u d) = dm_queue d" "dm_in_flight (remove_file u d) = dm_in_flight d"
  by (simp_all add: remove_file_def)

lemma unlink_ended_ok:
  assumes ok: "daemon_ok d" and th: "dm_threads d t = Reap c (Unlink_Ended u es ad)"
  shows "daemon_ok (go t (Reap c (Sweep es ad)) (latch_drop u (remove_file u d)))"
proof (rule drop_latch [OF ok refl th])
  have o: "u \<notin> uid_of ` set_option c" "live d u = {}" "pc_ok d (Reap c (Sweep es ad))" using daemon_okD(5) [OF ok, of t] th by auto
  show "calm {} d (remove_file u d)" "records_ok (remove_file u d)" "named (remove_file u d)"
    by (rule remove_file_ok [OF ok o(2)])+
  show "pc_ok (remove_file u d) (Reap c (Sweep es ad))" using o remove_file_ok(6) [OF ok o(2)] by simp
  show "live (remove_file u d) v \<subseteq> claim (remove_file u d) v" if "v \<in> dm_started (remove_file u d)"
      "v \<in> dm_started d \<Longrightarrow> v \<notin> in_hand (Reap c (Unlink_Ended u es ad)) \<Longrightarrow> live d v \<subseteq> claim d v" for v
    using that remove_file_ok(4,5) [OF ok o(2)] by simp
  show "u \<notin> holds (Reap c (Sweep es ad))" using o(1) by simp
qed auto


text \<open>The map.\<close>

lemma fold_remove_get:
  "hm_get (fold hm_remove us m) u = (if u \<in> set us then None else hm_get m u)"
  by (induction us arbitrary: m) (auto simp: hm_get_remove)

lemma fold_remove_ok: "hm_ok m \<Longrightarrow> hm_ok (fold hm_remove us m)"
  by (induction us arbitrary: m) auto

lemma adopted_forgettable: "records_ok d \<Longrightarrow> forgettable d (seen (adopted_records (dm_sessions d)))"
proof -
  assume r: "records_ok d"
  have "x \<le> dm_now d \<and> (\<forall>r. hm_get (dm_sessions d) u = Some r \<longrightarrow> sr_started r = x \<longrightarrow> sr_supervisor r = None)"
    if x: "(u, x) \<in> set (seen (adopted_records (dm_sessions d)))" for u x
  proof -
    obtain r where m: "(u, r) \<in> set (dm_sessions d)" and n: "sr_supervisor r = None" "x = sr_started r"
      using x by (auto simp: adopted_records_def)
    have "hm_get (dm_sessions d) u = Some r" using r m by (simp add: records_ok_def)
    then show ?thesis using r n unfolding records_ok_def by (metis option.inject)
  qed
  then show ?thesis unfolding forgettable_def by blast
qed

lemma collect_ok:
  assumes ok: "daemon_ok d" and th: "dm_threads d t = Reap c Collect" and ex: "\<forall>p\<in>ex. dm_alive d p = None"
    and now: "dm_now d < now" and st: "reap_collect ex now d = (d', ended, ad)"
  shows "daemon_ok (go t (Reap c (Sweep ended ad)) (d'\<lparr>dm_now := now\<rparr>))"
proof (rule alters [OF ok _ th, where X = "{}"])
  define m where "m = fold hm_remove (map fst ended) (dm_sessions d)"
  have e: "ended = exited_records ex (dm_sessions d)" and d': "dm_sessions d' = m" "dm_alive d' = dm_alive d"
      "dm_next d' = dm_next d" "dm_started d' = dm_started d" "dm_socket d' = dm_socket d" "dm_now d' = dm_now d"
    using st by (auto simp: reap_collect_def Let_def m_def)
  have ad: "ad = [] \<or> ad = adopted_records m" using st by (auto simp: reap_collect_def Let_def m_def)
  have hm: "hm_ok (dm_sessions d)" using daemon_okD(2) [OF ok] by (simp add: records_ok_def)
  have ended: "\<exists>p\<in>ex. hm_get (dm_sessions d) u = Some r \<and> sr_supervisor r = Some p" if "(u, r) \<in> set ended" for u r
    using that hm by (auto simp: e exited_records_def split: option.splits)
  have get: "hm_get m u = Some r \<Longrightarrow> hm_get (dm_sessions d) u = Some r" for u r
    by (simp add: m_def fold_remove_get split: if_splits)
  show rec: "records_ok (d'\<lparr>dm_now := now\<rparr>)"
    using daemon_okD(2) [OF ok] now get fold_remove_ok [OF hm, of "map fst ended"]
    by (fastforce simp: records_ok_def d' m_def [symmetric])
  show "named (d'\<lparr>dm_now := now\<rparr>)" "calm {} d (d'\<lparr>dm_now := now\<rparr>)"
    using daemon_okD(3) [OF ok] now get by (auto simp: named_def calm_def live_def d')
  have "fst ` set ended \<subseteq> dm_started d"
    using ended daemon_okD(2) [OF ok] by (fastforce simp: records_ok_def)
  moreover have "forgettable (d'\<lparr>dm_now := now\<rparr>) (seen ad)"
    using ad adopted_forgettable [OF rec] by (auto simp: d' forgettable_def)
  ultimately show "pc_ok (d'\<lparr>dm_now := now\<rparr>) (Reap c (Sweep ended ad))" by (simp add: d')
  show "live (d'\<lparr>dm_now := now\<rparr>) u \<subseteq> claim (d'\<lparr>dm_now := now\<rparr>) u"
    if "u \<in> dm_started (d'\<lparr>dm_now := now\<rparr>)" "u \<in> dm_started d \<Longrightarrow> u \<notin> in_hand (Reap c Collect) \<Longrightarrow> live d u \<subseteq> claim d u" for u
  proof -
    have s: "live d u \<subseteq> claim d u" using that by (simp add: d')
    have l: "live (d'\<lparr>dm_now := now\<rparr>) u = live d u" by (simp add: live_def d')
    show ?thesis
    proof (cases "u \<in> fst ` set ended")
      case True
      then obtain r p where "p \<in> ex" "hm_get (dm_sessions d) u = Some r" "sr_supervisor r = Some p" using ended by force
      then have "live d u \<subseteq> {p}" "p \<notin> live d u" using s ex by (auto simp: claim_def live_def)
      then show ?thesis by (auto simp: l)
    next
      case False
      then have "hm_get m u = hm_get (dm_sessions d) u" by (auto simp: m_def fold_remove_get)
      then show ?thesis using s by (simp add: l claim_def d')
    qed
  qed
qed (use st in \<open>auto simp: reap_collect_def Let_def\<close>)


lemma records_okI:
  assumes "records_ok d" "hm_ok (dm_sessions d')" "\<And>p. dm_alive d' p \<noteq> None \<Longrightarrow> p < dm_next d'"
    "\<And>u r. hm_get (dm_sessions d') u = Some r \<Longrightarrow>
      hm_get (dm_sessions d) u = Some r \<or> sr_started r \<le> dm_now d' \<and> (sr_supervisor r \<noteq> None \<longrightarrow> u \<in> dm_started d')"
    "dm_now d \<le> dm_now d'" "dm_started d \<subseteq> dm_started d'"
  shows "records_ok d'"
proof -
  have "hm_get (dm_sessions d) u = Some r \<Longrightarrow> sr_started r \<le> dm_now d' \<and> (sr_supervisor r \<noteq> None \<longrightarrow> u \<in> dm_started d')" for u r
    using assms(1,5,6) unfolding records_ok_def by (meson order.trans subsetD)
  then show ?thesis using assms(2-4) unfolding records_ok_def by blast
qed

lemma records_okD:
  assumes "records_ok d"
  shows "hm_ok (dm_sessions d)" "dm_alive d p \<noteq> None \<Longrightarrow> p < dm_next d"
    "hm_get (dm_sessions d) u = Some r \<Longrightarrow> sr_started r \<le> dm_now d \<and> (sr_supervisor r \<noteq> None \<longrightarrow> u \<in> dm_started d)"
  using assms unfolding records_ok_def by blast+

lemma fold_forget:
  "hm_get (fold forget_one us m) u = hm_get m u \<or>
   hm_get (fold forget_one us m) u = None \<and> (\<exists>s r. (u, s) \<in> set us \<and> hm_get m u = Some r \<and> sr_started r = s)"
proof (induction us arbitrary: m)
  case (Cons x us)
  obtain v s where x: "x = (v, s)" by (cases x)
  have one: "hm_get (forget_one x m) u = hm_get m u \<or>
      hm_get (forget_one x m) u = None \<and> v = u \<and> (\<exists>r. hm_get m u = Some r \<and> sr_started r = s)"
    by (auto simp: x forget_one_def hm_get_remove split: option.splits)
  show ?case
    using Cons.IH [of "forget_one x m"] one by (cases "hm_get (forget_one x m) u = hm_get m u") (auto simp: x)
qed simp

lemma fold_forget_ok: "hm_ok m \<Longrightarrow> hm_ok (fold forget_one us m)"
  by (induction us arbitrary: m) (auto simp: forget_one_def split: option.splits)

lemma forget_step_ok:
  assumes ok: "daemon_ok d" and th: "dm_threads d t = Reap c (Forget gone)"
  shows "daemon_ok (go t (reap_done c) (d\<lparr>dm_sessions := fold forget_one gone (dm_sessions d)\<rparr>))"
proof (rule alters [OF ok _ th, where X = "{}"])
  let ?d = "d\<lparr>dm_sessions := fold forget_one gone (dm_sessions d)\<rparr>"
  have f: "forgettable d gone" using daemon_okD(5) [OF ok, of t] th by simp
  have get: "hm_get (dm_sessions ?d) u = hm_get (dm_sessions d) u \<or>
      hm_get (dm_sessions ?d) u = None \<and> (\<exists>r. hm_get (dm_sessions d) u = Some r \<and> sr_supervisor r = None)" for u
    using fold_forget [of gone "dm_sessions d" u] f unfolding forgettable_def by fastforce
  have cl: "claim ?d u = claim d u" for u using get [of u] by (auto simp: claim_def)
  have g: "hm_get (dm_sessions ?d) u = Some r \<Longrightarrow> hm_get (dm_sessions d) u = Some r" for u r
    using get [of u] by auto
  show "records_ok ?d"
    by (rule records_okI [OF daemon_okD(2) [OF ok]])
      (use records_okD [OF daemon_okD(2) [OF ok]] fold_forget_ok g in simp_all)
  show "named ?d" "calm {} d ?d"
    using daemon_okD(3) [OF ok] g by (auto simp: named_def calm_def live_def)
  show "live ?d u \<subseteq> claim ?d u" if "u \<in> dm_started ?d"
      "u \<in> dm_started d \<Longrightarrow> u \<notin> in_hand (Reap c (Forget gone)) \<Longrightarrow> live d u \<subseteq> claim d u" for u
    using that by (simp add: cl) (simp add: live_def)
qed auto

text \<open>Looking for a session and trying it.\<close>

lemma unnamed_not_live:
  assumes "daemon_ok d" "\<forall>p. dm_socket d u = Some p \<longrightarrow> dm_alive d p = None"
  shows "live d u = {}"
proof -
  have "p \<notin> live d u" for p
    using single_live [OF daemon_okD(3) [OF assms(1)], of p u] assms(2) by (auto simp: live_def)
  then show ?thesis by blast
qed

lemma dead_not_live:
  assumes "daemon_ok d" "attempt_ok u d a" "try_handoff own path w a = Inl (Dead e)"
  shows "live d u = {}"
proof (rule unnamed_not_live [OF assms(1)])
  obtain kind e' where k: "at_connect a = Some (kind, e')" "kind = Connection_Refused \<or> kind = Not_Found"
  proof (cases "at_connect a")
    case None
    then show ?thesis using assms(3) by (cases "deliver own path w a") (auto simp: try_handoff_def)
  next
    case (Some x)
    then show ?thesis using assms(3) that by (cases x) (auto simp: try_handoff_def Let_def split: if_splits)
  qed
  then show "\<forall>p. dm_socket d u = Some p \<longrightarrow> dm_alive d p = None" using assms(2) by (auto simp: attempt_ok_def)
qed

lemma adopt_ok:
  assumes ok: "daemon_ok d" and th: "dm_threads d t = Adopt j" and now: "dm_now d < now" and st: "adopt_session j now d = (d', sid)"
  shows "daemon_ok (go t (Finish j (Inr sid)) (d'\<lparr>dm_now := now\<rparr>))"
proof (rule alters [OF ok _ th, where X = "{}"])
  let ?d = "d'\<lparr>dm_now := now\<rparr>"
  have f: "dm_alive d' = dm_alive d" "dm_next d' = dm_next d" "dm_started d' = dm_started d" "dm_socket d' = dm_socket d"
    "dm_busy d' = dm_busy d" "dm_threads d' = dm_threads d"
    using st by (auto simp: adopt_session_def split: option.splits)
  have get: "hm_get (dm_sessions d') u = hm_get (dm_sessions d) u \<or>
      hm_get (dm_sessions d) u = None \<and> (\<exists>r. hm_get (dm_sessions d') u = Some r \<and> sr_supervisor r = None \<and> sr_started r = now)" for u
    using st by (auto simp: adopt_session_def hm_get_insert split: option.splits if_splits)
  have cl: "claim ?d u = claim d u" for u using get [of u] by (auto simp: claim_def)
  have g: "hm_get (dm_sessions d') u = Some r \<Longrightarrow> hm_get (dm_sessions d) u = Some r \<or> sr_supervisor r = None \<and> sr_started r = now" for u r
    using get [of u] by auto
  have "hm_ok (dm_sessions d')"
    using st daemon_okD(2) [OF ok] by (auto simp: adopt_session_def records_ok_def split: option.splits)
  then show "records_ok ?d"
    by (intro records_okI [OF daemon_okD(2) [OF ok]])
      (use records_okD [OF daemon_okD(2) [OF ok]] g now in \<open>force simp: f\<close>)+
  show "named ?d" "calm {} d ?d"
    using daemon_okD(3) [OF ok] g now by (fastforce simp: named_def calm_def live_def f)+
  show "live ?d u \<subseteq> claim ?d u" if "u \<in> dm_started ?d"
      "u \<in> dm_started d \<Longrightarrow> u \<notin> in_hand (Adopt j) \<Longrightarrow> live d u \<subseteq> claim d u" for u
    using that by (simp add: cl) (simp add: live_def f)
qed (use st in \<open>auto simp: adopt_session_def split: option.splits\<close>)

lemma judge_ok:
  assumes ok: "daemon_ok d" and th: "dm_threads d t = Judge j f"
  shows "daemon_ok (go t (judge j f d) d)"
proof (rule moves [OF ok th])
  have "uid_of j \<in> dm_started d" if "owns_session (uid_of j) d"
    using that daemon_okD(2) [OF ok] by (auto simp: owns_session_def records_ok_def split: option.splits)
  then show "pc_ok d (judge j f d)"
    using daemon_okD(5) [OF ok, of t] th by (cases f) (auto simp: judge_def)
qed (cases f; auto simp: judge_def)+

text \<open>Ending a session.\<close>

lemma take_ok:
  assumes ok: "daemon_ok d" and th: "dm_threads d t = q" and st: "take_record u d = (c, d')"
    and u: "holds q = {u}" "holds p = {u}" "in_hand q = {}" "in_hand p = {u}" and pc: "live d u \<subseteq> claim d u \<Longrightarrow> pc_ok d' p"
    and early: "u \<in> dm_started d \<or> live d u = {}"
  shows "daemon_ok (go t p d')"
proof (rule alters [OF ok _ th, where X = "{}"])
  have d': "d' = d\<lparr>dm_sessions := hm_remove u (dm_sessions d)\<rparr>" using st by (simp add: take_record_def)
  show "pc_ok d' p" using pc early not_in_other_hands [OF ok, of u t] u th by auto
  show "records_ok d'" "named d'" "calm {} d d'"
    using daemon_okD(2,3) [OF ok] by (auto simp: d' records_ok_def named_def calm_def live_def hm_get_remove split: if_splits)
  show "live d' v \<subseteq> claim d' v" if "v \<in> dm_started d'" "v \<notin> in_hand p" "v \<in> dm_started d \<Longrightarrow> v \<notin> in_hand q \<Longrightarrow> live d v \<subseteq> claim d v" for v
    using that u by (auto simp: d' live_def claim_def hm_get_remove)
qed (use st u in \<open>auto simp: take_record_def\<close>)

lemma take_claim: "take_record u d = (c, d') \<Longrightarrow> claim d u = set_option c \<and> live d' = live d"
  by (auto simp: take_record_def claim_def live_def fun_eq_iff split: option.splits)

lemma terminate_ok:
  assumes ok: "daemon_ok d" and th: "dm_threads d t = q" and u: "holds q = {u}" "holds p = {u}" "in_hand q = {u}"
    and l: "live d u \<subseteq> set_option c" and pc: "live (terminate c d) u = {} \<Longrightarrow> pc_ok (terminate c d) p"
  shows "daemon_ok (go t p (terminate c d))"
proof (rule alters [OF ok _ th, where X = "{}"])
  have t: "dm_threads (terminate c d) = dm_threads d" "dm_busy (terminate c d) = dm_busy d" "dm_sessions (terminate c d) = dm_sessions d"
    "dm_now (terminate c d) = dm_now d" "dm_started (terminate c d) = dm_started d" "dm_socket (terminate c d) = dm_socket d"
    "dm_next (terminate c d) = dm_next d" "dm_alive (terminate c d) p = Some v \<Longrightarrow> dm_alive d p = Some v" for p v
    by (auto simp: terminate_def split: option.splits if_splits)
  show "dm_threads (terminate c d) = dm_threads d" "dm_busy (terminate c d) = dm_busy d" by (fact t)+
  have s: "live (terminate c d) v \<subseteq> live d v" for v using t by (auto simp: live_def)
  have e: "live (terminate c d) u = {}" using l by (cases c) (auto simp: terminate_def live_def)
  then show "pc_ok (terminate c d) p" by (rule pc)
  show "records_ok (terminate c d)" "named (terminate c d)" "calm {} d (terminate c d)"
    using daemon_okD(2,3) [OF ok] t s by (fastforce simp: records_ok_def named_def calm_def)+
  show "live (terminate c d) v \<subseteq> claim (terminate c d) v" if
      "v \<in> dm_started (terminate c d)" "v \<in> dm_started d \<Longrightarrow> v \<notin> in_hand q \<Longrightarrow> live d v \<subseteq> claim d v" for v
    using that s [of v] e u by (cases "v = u") (auto simp: claim_def t)
qed (use u in auto)

lemma unlink_ok:
  assumes ok: "daemon_ok d" and th: "dm_threads d t = q" and u: "holds q = {u}" "holds p = {u}" "in_hand q = {}"
    and l: "live d u = {}" and pc: "live (remove_file u d) = live d \<Longrightarrow> pc_ok (remove_file u d) p"
  shows "daemon_ok (go t p (remove_file u d))"
proof (rule alters [OF ok _ th, where X = "{}"])
  note r = remove_file_ok [OF ok l]
  show "pc_ok (remove_file u d) p" by (rule pc) (rule r)
  show "records_ok (remove_file u d)" "named (remove_file u d)" "calm {} d (remove_file u d)" by (rule r)+
  show "live (remove_file u d) v \<subseteq> claim (remove_file u d) v" if "v \<in> dm_started (remove_file u d)"
      "v \<in> dm_started d \<Longrightarrow> v \<notin> in_hand q \<Longrightarrow> live d v \<subseteq> claim d v" for v
    using that r(4,5) u by simp
qed (use u in auto)


text \<open>Starting a session.\<close>

lemma spawn_keeps:
  assumes ok: "daemon_ok d" and l: "live d (uid_of j) = {}" and st: "spawn j res d = (d', r)"
  shows "records_ok d'" "named d'" "calm {uid_of j} d d'" "claim d' = claim d"
    "v \<noteq> uid_of j \<Longrightarrow> live d' v = live d v \<and> (v \<in> dm_started d' \<longleftrightarrow> v \<in> dm_started d)"
    "case r of Inl e \<Rightarrow> live d' (uid_of j) = {} | Inr p \<Rightarrow> live d' (uid_of j) \<subseteq> {p} \<and> uid_of j \<in> dm_started d'"
    "dm_threads d' = dm_threads d" "dm_busy d' = dm_busy d"
proof -
  note rec = records_okD [OF daemon_okD(2) [OF ok]]
  have n: "dm_alive d (dm_next d) = None" using rec(2) [of "dm_next d"] by blast
  have s: "dm_socket d v = Some p \<and> v \<noteq> uid_of j \<and> p \<noteq> dm_next d" if "dm_alive d p = Some v" for p v
    using that daemon_okD(3) [OF ok] l n by (auto simp: named_def live_def)
  have b: "dm_alive d p \<noteq> None \<Longrightarrow> p < dm_next d" for p by (rule rec(2))
  have a: "dm_alive d p \<noteq> None \<Longrightarrow> p < Suc (dm_next d)" for p using rec(2) [of p] by simp
  show "records_ok d'"
    by (rule records_okI [OF daemon_okD(2) [OF ok]])
      (use st a b rec(1) in \<open>auto simp: spawn_def Let_def remove_file_def split: spawn_result.splits if_splits\<close>)
  show "named d'" "calm {uid_of j} d d'" "claim d' = claim d"
    "v \<noteq> uid_of j \<Longrightarrow> live d' v = live d v \<and> (v \<in> dm_started d' \<longleftrightarrow> v \<in> dm_started d)"
    "case r of Inl e \<Rightarrow> live d' (uid_of j) = {} | Inr p \<Rightarrow> live d' (uid_of j) \<subseteq> {p} \<and> uid_of j \<in> dm_started d'"
    "dm_threads d' = dm_threads d" "dm_busy d' = dm_busy d"
    using st s l n
    by (auto simp: spawn_def Let_def named_def calm_def claim_def live_def fun_eq_iff split: spawn_result.splits if_splits)
qed

lemma spawn_ok:
  assumes ok: "daemon_ok d" and th: "dm_threads d t = Spawn j" and st: "spawn j res d = (d', r)"
  shows "daemon_ok (go t (case r of Inl e \<Rightarrow> Finish j (Inl e) | Inr p \<Rightarrow> Insert j p sid) d')" (is "daemon_ok (go t ?p d')")
proof -
  have l: "live d (uid_of j) = {}" using daemon_okD(5) [OF ok, of t] th by simp
  note k = spawn_keeps [OF ok l st]
  show ?thesis
  proof (rule alters [OF ok _ th, where X = "{uid_of j}"])
    show "pc_ok d' ?p" using k(6) by (cases r) auto
    show "live d' v \<subseteq> claim d' v" if "v \<in> dm_started d'" "v \<notin> in_hand ?p"
        "v \<in> dm_started d \<Longrightarrow> v \<notin> in_hand (Spawn j) \<Longrightarrow> live d v \<subseteq> claim d v" for v
      using that k(4) k(5) [of v] k(6) by (cases "v = uid_of j"; cases r) auto
  qed (use k in \<open>auto split: sum.splits\<close>)
qed

lemma insert_ok:
  assumes ok: "daemon_ok d" and th: "dm_threads d t = Insert j p sid" and now: "dm_now d < now"
  shows "daemon_ok (go t (Try_New j sid) (record_session j p sid now (d\<lparr>dm_now := now\<rparr>)))"
proof (rule alters [OF ok _ th, where X = "{}"])
  let ?d = "record_session j p sid now (d\<lparr>dm_now := now\<rparr>)"
  have i: "uid_of j \<in> dm_started d" "live d (uid_of j) \<subseteq> {p}" using daemon_okD(5) [OF ok, of t] th by auto
  show "records_ok ?d"
    by (rule records_okI [OF daemon_okD(2) [OF ok]])
      (use i now records_okD [OF daemon_okD(2) [OF ok]] in \<open>auto simp: record_session_def hm_get_insert split: if_splits\<close>)
  show "named ?d" "calm {} d ?d"
    using daemon_okD(3) [OF ok] now by (auto simp: record_session_def named_def calm_def live_def hm_get_insert split: if_splits)
  show "live ?d u \<subseteq> claim ?d u" if "u \<in> dm_started ?d" "u \<in> dm_started d \<Longrightarrow> u \<notin> in_hand (Insert j p sid) \<Longrightarrow> live d u \<subseteq> claim d u" for u
    using that i by (cases "u = uid_of j") (auto simp: record_session_def live_def claim_def hm_get_insert)
qed (use daemon_okD(5) [OF ok, of t] th in \<open>auto simp: record_session_def\<close>)

text \<open>Steps that touch none of what the invariant speaks of.\<close>

definition same_sessions :: "daemon \<Rightarrow> daemon \<Rightarrow> bool" where
  "same_sessions d d' \<longleftrightarrow> dm_sessions d' = dm_sessions d \<and> dm_busy d' = dm_busy d \<and> dm_threads d' = dm_threads d \<and>
     dm_now d' = dm_now d \<and> dm_socket d' = dm_socket d \<and> dm_alive d' = dm_alive d \<and> dm_next d' = dm_next d \<and> dm_started d' = dm_started d"

lemma same_sessions_ok: "same_sessions d d' \<Longrightarrow> daemon_ok d \<Longrightarrow> daemon_ok d'"
proof -
  assume s: "same_sessions d d'" and ok: "daemon_ok d"
  have c: "calm {} d d'" using s by (auto simp: same_sessions_def calm_def live_def)
  have "pc_ok d' (dm_threads d' t)" for t
    using calm_pc_ok [OF c _ daemon_okD(5) [OF ok, of t]] s by (simp add: same_sessions_def)
  then show ?thesis
    using ok s by (simp add: daemon_ok_def same_sessions_def latched_def records_ok_def named_def covered_def live_def claim_def)
qed

lemma submit_same: "submit j d = (d', r) \<Longrightarrow> same_sessions d (d'\<lparr>dm_ends := es\<rparr>) \<and> same_sessions d d'"
  by (auto simp: submit_def same_sessions_def split: if_splits option.splits)

lemma job_drop_ok: "daemon_ok (go t Idle d) \<Longrightarrow> daemon_ok (go t Idle (job_drop j r d))"
  by (rule same_sessions_ok [of "go t Idle d"]) (simp_all add: same_sessions_def job_drop_def)

lemma finish_ok:
  assumes ok: "daemon_ok d" and th: "dm_threads d t = Finish j r"
  shows "daemon_ok (go t Idle (job_drop j r (latch_drop (uid_of j) d)))"
proof (rule job_drop_ok, rule drop_latch [OF ok refl th])
  show "live d v \<subseteq> claim d v" if "v \<in> dm_started d" "v \<in> dm_started d \<Longrightarrow> v \<notin> in_hand (Finish j r) \<Longrightarrow> live d v \<subseteq> claim d v" for v
    using that by simp
qed (use daemon_okD(2,3) [OF ok] in auto)

lemma end_all_alive:
  "dm_alive (fold (\<lambda>(u, p). terminate (Some p)) ours d) p = (if p \<in> snd ` set ours then None else dm_alive d p)"
  by (induction ours arbitrary: d) (auto simp: terminate_def)

lemma end_all_rest:
  "dm_sessions (fold (\<lambda>(u, p). terminate (Some p)) ours d) = dm_sessions d \<and> dm_busy (fold (\<lambda>(u, p). terminate (Some p)) ours d) = dm_busy d \<and>
   dm_threads (fold (\<lambda>(u, p). terminate (Some p)) ours d) = dm_threads d \<and> dm_now (fold (\<lambda>(u, p). terminate (Some p)) ours d) = dm_now d \<and>
   dm_socket (fold (\<lambda>(u, p). terminate (Some p)) ours d) = dm_socket d \<and> dm_next (fold (\<lambda>(u, p). terminate (Some p)) ours d) = dm_next d \<and>
   dm_started (fold (\<lambda>(u, p). terminate (Some p)) ours d) = dm_started d"
  by (induction ours arbitrary: d) (auto simp: terminate_def)

lemma unname_all:
  "dm_socket (fold (\<lambda>(u, p). remove_file u) ours d) u = (if u \<in> fst ` set ours then None else dm_socket d u) \<and>
   dm_sessions (fold (\<lambda>(u, p). remove_file u) ours d) = dm_sessions d \<and> dm_busy (fold (\<lambda>(u, p). remove_file u) ours d) = dm_busy d \<and>
   dm_threads (fold (\<lambda>(u, p). remove_file u) ours d) = dm_threads d \<and> dm_now (fold (\<lambda>(u, p). remove_file u) ours d) = dm_now d \<and>
   dm_alive (fold (\<lambda>(u, p). remove_file u) ours d) = dm_alive d \<and> dm_next (fold (\<lambda>(u, p). remove_file u) ours d) = dm_next d \<and>
   dm_started (fold (\<lambda>(u, p). remove_file u) ours d) = dm_started d"
  by (induction ours arbitrary: d) auto

lemma stop_all_ok:
  assumes ok: "daemon_ok d" and idle: "\<forall>t. dm_threads d t = Idle"
  shows "daemon_ok (stop_all d)"
proof -
  let ?ours = "own_sessions (dm_sessions d)"
  note rec = records_okD [OF daemon_okD(2) [OF ok]]
  have ours: "(u, p) \<in> set ?ours \<longleftrightarrow> (\<exists>r. hm_get (dm_sessions d) u = Some r \<and> sr_supervisor r = Some p)" for u p
    using rec(1) by (force simp: own_sessions_def List.map_filter_def)
  have lc: "live d u \<subseteq> claim d u" if "u \<in> dm_started d" for u
    using daemon_okD(4) [OF ok] that idle by (simp add: covered_def)
  have al: "dm_alive (stop_all d) p = (if p \<in> snd ` set ?ours then None else dm_alive d p)" for p
    by (simp add: stop_all_def Let_def unname_all end_all_alive)
  have f: "dm_sessions (stop_all d) = []" "dm_busy (stop_all d) = dm_busy d" "dm_threads (stop_all d) = dm_threads d"
      "dm_next (stop_all d) = dm_next d" "dm_started (stop_all d) = dm_started d" "dm_now (stop_all d) = dm_now d"
      "dm_socket (stop_all d) u = (if u \<in> fst ` set ?ours then None else dm_socket d u)" for u
    by (simp_all add: stop_all_def Let_def unname_all end_all_rest)
  have gone: "u \<notin> fst ` set ?ours \<and> u \<notin> dm_started d" if "dm_alive (stop_all d) p = Some u" for u p
  proof -
    have a: "dm_alive d p = Some u" "p \<notin> snd ` set ?ours" using that by (auto simp: al split: if_splits)
    have n: "u \<notin> dm_started d"
    proof
      assume "u \<in> dm_started d"
      then have "p \<in> claim d u" using lc a(1) by (auto simp: live_def)
      then have "(u, p) \<in> set ?ours" unfolding ours by (cases "hm_get (dm_sessions d) u") (auto simp: claim_def)
      then show False using a(2) by force
    qed
    moreover have "u \<notin> fst ` set ?ours" using n rec(3) [of u] ours by force
    ultimately show ?thesis by blast
  qed
  have "named (stop_all d)"
    using daemon_okD(3) [OF ok] gone by (fastforce simp: named_def f al split: if_splits)
  moreover have "records_ok (stop_all d)" using rec(2) by (auto simp: records_ok_def f al)
  moreover have "covered (stop_all d)" using gone by (fastforce simp: covered_def live_def f)
  moreover have "latched (stop_all d)" using daemon_okD(1) [OF ok] by (simp add: latched_def f)
  ultimately show ?thesis using idle by (simp add: daemon_ok_def f)
qed


lemma daemon_step_ok: "daemon_step dir own d d' \<Longrightarrow> daemon_ok d \<Longrightarrow> daemon_ok d'"
proof (induction rule: daemon_step.induct)
  case (submits j d d')
  then show ?case using submit_same same_sessions_ok by blast
next
  case (turned_away j d d' e)
  then show ?case using submit_same same_sessions_ok by blast
next
  case (receives t d j q)
  have "daemon_ok (d\<lparr>dm_queue := q\<rparr>)"
    by (rule same_sessions_ok [OF _ receives(5)]) (simp add: same_sessions_def)
  then show ?case by (rule moves) (use receives in auto)
next
  case (runs d t j)
  have "daemon_ok (go t Idle d)" "daemon_ok (go t (Acquire j) d)" by (rule moves [OF runs(2,1)]; simp)+
  then show ?case using job_drop_ok [of t d] by (auto simp: go_def job_drop_def)
next
  case (acquires d t j d')
  then show ?case using acquire_ok by blast
next
  case (checks d t j)
  show ?case by (rule moves [OF checks(2,1)]) auto
next
  case (reaps d)
  show ?case by (rule moves [OF reaps(2,1)]) auto
next
  case (collects d t c ex now d' ended ad)
  then show ?case using collect_ok by blast
next
  case (sweeps d t c ended ad d' p)
  then show ?case using sweep_ok by blast
next
  case (claims d t c u es ad d' p)
  then show ?case using claimed_ok by blast
next
  case (unlinks d t c u es ad)
  then show ?case using unlink_ended_ok by blast
next
  case (probes d t c ad gone table)
  have f: "forgettable d (seen ad)" using daemon_okD(5) [OF probes(3), of t] probes(1) by simp
  have "set gone \<subseteq> set (seen ad)" by (auto simp: probes(2) probe_adopted_def split: option.splits)
  then have g: "forgettable d gone" using f unfolding forgettable_def by blast
  show ?case by (rule moves [OF probes(3,1)]) (use g in auto)
next
  case (forgets d t c gone)
  then show ?case using forget_step_ok by blast
next
  case (looks d t j)
  have "dm_socket d (uid_of j) = None \<Longrightarrow> live d (uid_of j) = {}" by (rule unnamed_not_live [OF looks(2)]) simp
  then show ?case by (intro moves [OF looks(2,1)]) auto
next
  case (tries d t j a r)
  have "r = Inl (Dead e) \<Longrightarrow> live d (uid_of j) = {}" for e using dead_not_live [OF tries(4,2)] tries(3) by blast
  then show ?case by (intro moves [OF tries(4,1)]) (auto split: sum.splits)
next
  case (adopts d t j now d' sid)
  then show ?case using adopt_ok by blast
next
  case (judges d t j f)
  then show ?case using judge_ok by blast
next
  case (drops d t j c d')
  note tc = take_claim [OF drops(2)]
  show ?case by (rule take_ok [OF drops(3,1,2)]) (use tc daemon_okD(5) [OF drops(3), of t] drops(1) in auto)
next
  case (ends_old d t j c)
  show ?case by (rule terminate_ok [OF ends_old(2,1)]) (use daemon_okD(5) [OF ends_old(2), of t] ends_old(1) in auto)
next
  case (unlinks_old d t j)
  show ?case by (rule unlink_ok [OF unlinks_old(2,1)]) (use daemon_okD(5) [OF unlinks_old(2), of t] unlinks_old(1) in auto)
next
  case (spawns d t j res d' r sid nanos pid)
  then show ?case using spawn_ok by blast
next
  case (inserts d t j p sid now)
  then show ?case using insert_ok by blast
next
  case (tries_new d t j sid a r)
  show ?case by (rule moves [OF tries_new(4,1)]) (use daemon_okD(5) [OF tries_new(4), of t] tries_new(1) in \<open>auto split: sum.splits\<close>)
next
  case (fails_new d t j e c d')
  note tc = take_claim [OF fails_new(2)]
  show ?case by (rule take_ok [OF fails_new(3,1,2)]) (use tc daemon_okD(5) [OF fails_new(3), of t] fails_new(1) in auto)
next
  case (ends_new d t j c e)
  show ?case by (rule terminate_ok [OF ends_new(2,1)]) (use daemon_okD(5) [OF ends_new(2), of t] ends_new(1) in auto)
next
  case (unlinks_new d t j e)
  show ?case by (rule unlink_ok [OF unlinks_new(2,1)]) (use daemon_okD(5) [OF unlinks_new(2), of t] unlinks_new(1) in auto)
next
  case (finishes d t j r)
  then show ?case using finish_ok by blast
next
  case (dies d p)
  let ?d = "d\<lparr>dm_alive := (dm_alive d)(p := None)\<rparr>"
  have c: "calm {} d ?d" and l: "live ?d u \<subseteq> live d u" for u by (auto simp: calm_def live_def split: if_splits)
  have "pc_ok ?d (dm_threads ?d t)" for t
    using calm_pc_ok [OF c _ daemon_okD(5) [OF dies, of t]] by simp
  moreover have "covered ?d" using daemon_okD(4) [OF dies] l by (fastforce simp: covered_def claim_def)
  moreover have "records_ok ?d" "named ?d" "latched ?d"
    using daemon_okD(1-3) [OF dies] by (auto simp: records_ok_def named_def latched_def)
  ultimately show ?case by (simp add: daemon_ok_def)
next
  case (shuts d)
  show ?case by (rule same_sessions_ok [OF _ shuts]) (simp add: same_sessions_def begin_shutdown_def)
next
  case (stops d)
  then show ?case using stop_all_ok by blast
qed

text \<open>A daemon starts with no records and no work. What earlier daemons left runs under its user's name.\<close>

definition daemon_start :: "daemon \<Rightarrow> bool" where
  "daemon_start d \<longleftrightarrow> dm_sessions d = [] \<and> dm_busy d = {} \<and> \<not> dm_stopping d \<and> dm_in_flight d = [] \<and> dm_jobs_open d \<and>
     dm_queue d = [] \<and> dm_threads d = (\<lambda>t. Idle) \<and> dm_ends d = [] \<and> dm_started d = {} \<and>
     (\<forall>p. dm_alive d p \<noteq> None \<longrightarrow> p < dm_next d) \<and> named d"

interpretation daemons: invariant_system daemon_start "daemon_step dir own" daemon_ok
proof
  show "daemon_ok d" if "daemon_start d" for d
    using that by (simp add: daemon_start_def daemon_ok_def latched_def records_ok_def covered_def)
qed (rule daemon_step_ok)


text \<open>
  C5. One desktop per user: in every state the daemon can reach, however connections, reaping, ends of
  sessions and shutdown interleave, a user has at most one live session, and the user's control socket
  leads to it, so that no desktop is left where no connection can reach it.
\<close>

theorem one_desktop_per_user:
  assumes "reach daemon_start (daemon_step dir own) d" "dm_alive d p = Some u"
  shows "dm_socket d u = Some p \<and> (\<forall>q. dm_alive d q = Some u \<longrightarrow> q = p)"
proof -
  have n: "dm_alive d q = Some u \<Longrightarrow> dm_socket d u = Some q" for q
    using daemon_okD(3) [OF daemons.inv_reach [OF assms(1)]] by (simp add: named_def)
  show ?thesis
  proof (intro conjI allI impI)
    show "q = p" if "dm_alive d q = Some u" for q using n [OF that] n [OF assms(2)] by simp
  qed (rule n [OF assms(2)])
qed

text \<open>A cold start.\<close>

definition example_job :: job where
  "example_job = \<lparr>job_fd = 9, job_user = \<lparr>ui_uid = 1000, ui_name = ''ann''\<rparr>, job_peer = ''127.0.0.1:50000''\<rparr>"

definition example_daemon :: daemon where
  "example_daemon = \<lparr>dm_sessions = [], dm_last_probe = 0, dm_busy = {}, dm_stopping = False, dm_in_flight = [],
     dm_jobs_open = True, dm_queue = [], dm_threads = (\<lambda>t. Idle), dm_now = 0, dm_socket = (\<lambda>u. None),
     dm_alive = (\<lambda>p. None), dm_next = 0, dm_ends = [], dm_started = {}\<rparr>"

definition example_started :: daemon where
  "example_started = fst (spawn example_job Started (example_daemon\<lparr>dm_in_flight := [(1000, 1)], dm_busy := {1000},
     dm_now := 1, dm_threads := (\<lambda>t. Idle)(1 := Insert example_job 0 5)\<rparr>))"

lemma example_start: "daemon_start example_daemon"
  by (simp add: example_daemon_def daemon_start_def named_def)

lemma then_step:
  assumes "reach daemon_start (daemon_step dir own) d" "daemon_step dir own d d'" "d' = e"
  shows "reach daemon_start (daemon_step dir own) e"
  using reach_step [OF assms(1,2)] assms(3) by simp

lemma example_reached: "reach daemon_start (daemon_step dir own) example_started"
proof -
  let ?j = example_job
  let ?d = "example_daemon\<lparr>dm_in_flight := [(1000, 1)]\<rparr>"
  let ?w = "\<lambda>p d. d\<lparr>dm_threads := (\<lambda>t. Idle)(1 := p)\<rparr>"
  let ?b = "?d\<lparr>dm_busy := {1000}\<rparr>"
  note defs = example_daemon_def example_job_def uid_of_def
  have "reach daemon_start (daemon_step dir own) (?d\<lparr>dm_queue := [?j]\<rparr>)"
    by (rule then_step [OF reach_init [where init = daemon_start, OF example_start] submits [of ?j]])
      (auto simp: submit_def defs admission_take_def PER_UID_IN_FLIGHT_def HANDOFF_QUEUE_def)
  then have "reach daemon_start (daemon_step dir own) (?w (Got ?j) ?d)"
    by (rule then_step [OF _ receives [where t = 1]]) (auto simp: defs HANDOFF_WORKERS_def go_def)
  then have "reach daemon_start (daemon_step dir own) (?w (Acquire ?j) ?d)"
    by (rule then_step [OF _ runs [where t = 1]]) (auto simp: defs go_def)
  then have "reach daemon_start (daemon_step dir own) (?w (Check ?j) ?b)"
    by (rule then_step [OF _ acquires [where t = 1]]) (auto simp: defs go_def try_acquire_def)
  then have "reach daemon_start (daemon_step dir own) (?w (Reap (Some ?j) Collect) ?b)"
    by (rule then_step [OF _ checks [where t = 1]]) (auto simp: defs go_def)
  then have "reach daemon_start (daemon_step dir own) (?w (Reap (Some ?j) (Sweep [] [])) (?b\<lparr>dm_now := 1\<rparr>))"
    by (rule then_step [OF _ collects [where t = 1 and ex = "{}" and now = 1]])
      (auto simp: defs go_def reap_collect_def exited_records_def adopted_records_def)
  then have "reach daemon_start (daemon_step dir own) (?w (Look ?j) (?b\<lparr>dm_now := 1\<rparr>))"
    by (rule then_step [OF _ sweeps [where t = 1]]) (auto simp: defs go_def reap_next_def reap_done_def)
  then have "reach daemon_start (daemon_step dir own) (?w (Spawn ?j) (?b\<lparr>dm_now := 1\<rparr>))"
    by (rule then_step [OF _ looks [where t = 1]]) (auto simp: defs go_def)
  then show ?thesis
    by (rule then_step [OF _ spawns [where t = 1 and res = Started and nanos = 5 and pid = 0]])
      (auto simp: defs go_def spawn_def example_started_def Let_def new_session_id_def remove_file_def)
qed

theorem one_desktop_per_user_witness:
  "dm_socket example_started 1000 = Some 0 \<and> dm_alive example_started 1 \<noteq> Some 1000"
proof -
  have "dm_alive example_started 0 = Some 1000"
    by (simp add: example_started_def example_daemon_def spawn_def Let_def uid_of_def example_job_def remove_file_def)
  from one_desktop_per_user [OF example_reached this] show ?thesis by auto
qed

end
