(* ===== verification/Daemon_Service.thy ===== *)
theory Daemon_Service
  imports Daemon_Sessions
begin

text \<open>
  What the daemon owes to the connections it takes: none waits for ever on a latch, no user fills the
  pool, and a probe of the kernel's table forgets no session that is there.
\<close>

section \<open>Every connection can be answered\<close>

text \<open>The connection a thread works on.\<close>

fun job_of :: "pc \<Rightarrow> job option" where
  "job_of Idle = None"
| "job_of (Got j) = Some j"
| "job_of (Acquire j) = Some j"
| "job_of (Check j) = Some j"
| "job_of (Reap c r) = c"
| "job_of (Look j) = Some j"
| "job_of (Try j) = Some j"
| "job_of (Adopt j) = Some j"
| "job_of (Judge j f) = Some j"
| "job_of (Stale j) = Some j"
| "job_of (End_Old j p) = Some j"
| "job_of (Unlink_Old j) = Some j"
| "job_of (Spawn j) = Some j"
| "job_of (Insert j p sid) = Some j"
| "job_of (Try_New j sid) = Some j"
| "job_of (Fail_New j e) = Some j"
| "job_of (End_New j p e) = Some j"
| "job_of (Unlink_New j e) = Some j"
| "job_of (Finish j r) = Some j"

text \<open>How far a thread is from the end: its stage, and what it still has to sweep.\<close>

fun reap_rank :: "reap_pc \<Rightarrow> nat \<times> nat" where
  "reap_rank Collect = (17, 0)"
| "reap_rank (Sweep es ad) = (16, 3 * length es)"
| "reap_rank (Claimed u es ad) = (16, 3 * length es + 2)"
| "reap_rank (Unlink_Ended u es ad) = (16, 3 * length es + 1)"
| "reap_rank (Probe ad) = (15, 0)"
| "reap_rank (Forget us) = (14, 0)"

fun rank :: "pc \<Rightarrow> nat \<times> nat" where
  "rank Idle = (0, 0)"
| "rank (Finish j r) = (1, 0)"
| "rank (Unlink_New j e) = (2, 0)"
| "rank (End_New j p e) = (3, 0)"
| "rank (Fail_New j e) = (4, 0)"
| "rank (Try_New j sid) = (5, 0)"
| "rank (Insert j p sid) = (6, 0)"
| "rank (Spawn j) = (7, 0)"
| "rank (Unlink_Old j) = (8, 0)"
| "rank (End_Old j p) = (9, 0)"
| "rank (Stale j) = (10, 0)"
| "rank (Judge j f) = (11, 0)"
| "rank (Adopt j) = (11, 0)"
| "rank (Try j) = (12, 0)"
| "rank (Look j) = (13, 0)"
| "rank (Reap c r) = reap_rank r"
| "rank (Check j) = (18, 0)"
| "rank (Acquire j) = (19, 0)"
| "rank (Got j) = (20, 0)"

definition nearer :: "(pc \<times> pc) set" where "nearer = inv_image (less_than <*lex*> less_than) rank"

lemma nearer_iff: "(p, q) \<in> nearer \<longleftrightarrow> fst (rank p) < fst (rank q) \<or> fst (rank p) = fst (rank q) \<and> snd (rank p) < snd (rank q)"
  by (cases "rank p"; cases "rank q") (auto simp: nearer_def)

lemma wf_nearer: "wf nearer" by (simp add: nearer_def wf_lex_prod)

text \<open>Thread \<open>t\<close> gets nearer to its end, keeps its connection or answers it, and no other thread moves.\<close>

definition advance :: "nat \<Rightarrow> daemon \<Rightarrow> daemon \<Rightarrow> bool" where
  "advance t d d' \<longleftrightarrow> dm_queue d' = dm_queue d \<and> (\<exists>p. dm_threads d' = (dm_threads d)(t := p) \<and> (p, dm_threads d t) \<in> nearer \<and>
     (\<forall>j. job_of (dm_threads d t) = Some j \<longrightarrow> job_of p = Some j \<or> p = Idle \<and> (\<exists>r. (job_fd j, r) \<in> set (dm_ends d'))))"

lemma reap_advances:
  assumes th: "dm_threads d t = Reap c r"
  shows "\<exists>d'. daemon_step dir own d d' \<and> advance t d d'"
proof (cases r)
  case Collect
  obtain d' ended ad where e: "reap_collect {} (dm_now d + 1) d = (d', ended, ad)" by (cases "reap_collect {} (dm_now d + 1) d")
  have "daemon_step dir own d (go t (Reap c (Sweep ended ad)) (d'\<lparr>dm_now := dm_now d + 1\<rparr>))"
    by (rule collects [OF _ _ _ e]) (use th Collect in auto)
  moreover have "dm_queue d' = dm_queue d" "dm_threads d' = dm_threads d" using e by (auto simp: reap_collect_def Let_def)
  ultimately show ?thesis using th Collect by (intro exI conjI) (assumption, auto simp: advance_def nearer_iff)
next
  case (Sweep ended ad)
  obtain d' p where e: "reap_next c ended ad d = (d', p)" by (cases "reap_next c ended ad d")
  have "daemon_step dir own d (go t p d')" by (rule sweeps [OF _ e]) (use th Sweep in auto)
  moreover have "dm_queue d' = dm_queue d" "dm_threads d' = dm_threads d" "(p, dm_threads d t) \<in> nearer" "job_of p = c"
    using e th Sweep by (auto simp: reap_next_def reap_done_def try_acquire_def nearer_iff split: list.splits if_splits option.splits)
  ultimately show ?thesis using th by (intro exI conjI) (assumption, auto simp: advance_def)
next
  case (Claimed u es ad)
  obtain d' p where e: "reap_claimed c u es ad d = (d', p)" by (cases "reap_claimed c u es ad d")
  have "daemon_step dir own d (go t p d')" by (rule claims [OF _ e]) (use th Claimed in auto)
  moreover have "dm_queue d' = dm_queue d" "dm_threads d' = dm_threads d" "(p, dm_threads d t) \<in> nearer" "job_of p = c"
    using e th Claimed by (auto simp: reap_claimed_def latch_drop_def nearer_iff split: if_splits)
  ultimately show ?thesis using th by (intro exI conjI) (assumption, auto simp: advance_def)
next
  case (Unlink_Ended u es ad)
  have "daemon_step dir own d (go t (Reap c (Sweep es ad)) (latch_drop u (remove_file u d)))"
    by (rule unlinks) (use th Unlink_Ended in auto)
  then show ?thesis
    using th Unlink_Ended by (intro exI conjI) (assumption, auto simp: advance_def nearer_iff latch_drop_def)
next
  case (Probe ad)
  have "daemon_step dir own d (go t (if [] = ([] :: (u32 \<times> nat) list) then reap_done c else Reap c (Forget [])) d)"
    by (rule probes [where table = None]) (use th Probe in \<open>auto simp: probe_adopted_def\<close>)
  then show ?thesis
    using th Probe by (intro exI conjI) (assumption, auto simp: advance_def nearer_iff reap_done_def split: option.splits)
next
  case (Forget us)
  have "daemon_step dir own d (go t (reap_done c) (d\<lparr>dm_sessions := fold forget_one us (dm_sessions d)\<rparr>))"
    by (rule forgets) (use th Forget in auto)
  then show ?thesis
    using th Forget by (intro exI conjI) (assumption, auto simp: advance_def nearer_iff reap_done_def split: option.splits)
qed

definition no_answer :: attempt where
  "no_answer = \<lparr>at_connect = Some (Other_Kind, ''''), at_owner = Inr 0, at_reply = Inr Refused\<rparr>"

lemma no_answer_ok [simp]: "attempt_ok u d no_answer" "\<exists>e. try_handoff own path w no_answer = Inl (Unusable e)"
  by (simp_all add: no_answer_def attempt_ok_def try_handoff_def)

lemma moved: "daemon_step dir own d (go t p d') \<Longrightarrow> dm_threads d' = dm_threads d \<Longrightarrow> dm_queue d' = dm_queue d \<Longrightarrow>
    (p, dm_threads d t) \<in> nearer \<Longrightarrow> job_of p = job_of (dm_threads d t) \<Longrightarrow> \<exists>d'. daemon_step dir own d d' \<and> advance t d d'"
  unfolding advance_def by (intro exI [of _ "go t p d'"] conjI exI [of _ p]) auto

lemma thread_advances:
  assumes "dm_threads d t \<noteq> Idle" "\<forall>j. dm_threads d t \<noteq> Acquire j"
  shows "\<exists>d'. daemon_step dir own d d' \<and> advance t d d'"
proof (cases "dm_threads d t")
  case (Got j)
  show ?thesis
  proof (cases "dm_stopping d")
    case True
    then have "daemon_step dir own d (go t Idle (job_drop j (Inl ''closed'') d))" using runs [OF Got] by simp
    then show ?thesis
      by (intro exI conjI) (assumption, auto simp: advance_def Got nearer_iff job_drop_def intro!: exI [of _ Idle])
  next
    case False
    then have "daemon_step dir own d (go t (Acquire j) d)" using runs [OF Got] by simp
    then show ?thesis by (rule moved) (auto simp: Got nearer_iff)
  qed
next
  case (Check j)
  show ?thesis by (rule moved [OF checks [OF Check]]) (auto simp: Check nearer_iff)
next
  case (Reap c r)
  then show ?thesis by (rule reap_advances)
next
  case (Look j)
  show ?thesis by (rule moved [OF looks [OF Look]]) (auto simp: Look nearer_iff)
next
  case (Try j)
  show ?thesis by (rule moved [OF tries [OF Try no_answer_ok(1) refl]])
      (use no_answer_ok(2) in \<open>auto simp: Try nearer_iff split: sum.splits\<close>)
next
  case (Adopt j)
  obtain d' sid where e: "adopt_session j (dm_now d + 1) d = (d', sid)" by (cases "adopt_session j (dm_now d + 1) d")
  show ?thesis by (rule moved [OF adopts [OF Adopt _ e]])
      (use e in \<open>auto simp: Adopt nearer_iff adopt_session_def split: option.splits\<close>)
next
  case (Judge j f)
  show ?thesis by (rule moved [OF judges [OF Judge]]) (auto simp: Judge nearer_iff judge_def split: handoff_failure.splits)
next
  case (Stale j)
  obtain c d' where e: "take_record (uid_of j) d = (c, d')" by (cases "take_record (uid_of j) d")
  show ?thesis by (rule moved [OF drops [OF Stale e]]) (use e in \<open>auto simp: Stale nearer_iff take_record_def\<close>)
next
  case (End_Old j c)
  show ?thesis by (rule moved [OF ends_old [OF End_Old]]) (auto simp: End_Old nearer_iff terminate_def split: option.splits)
next
  case (Unlink_Old j)
  show ?thesis by (rule moved [OF unlinks_old [OF Unlink_Old]]) (auto simp: Unlink_Old nearer_iff)
next
  case (Spawn j)
  obtain d' r where e: "spawn j (Bind_Failed '''') d = (d', r)" by (cases "spawn j (Bind_Failed '''') d")
  show ?thesis by (rule moved [OF spawns [OF Spawn e refl]])
      (use e in \<open>auto simp: Spawn nearer_iff spawn_def Let_def split: sum.splits\<close>)
next
  case (Insert j p sid)
  show ?thesis by (rule moved [OF inserts [OF Insert lessI]]) (auto simp: Insert nearer_iff record_session_def)
next
  case (Try_New j sid)
  show ?thesis by (rule moved [OF tries_new [OF Try_New no_answer_ok(1) refl]])
      (use no_answer_ok(2) in \<open>auto simp: Try_New nearer_iff split: sum.splits\<close>)
next
  case (Fail_New j e)
  obtain c d' where k: "take_record (uid_of j) d = (c, d')" by (cases "take_record (uid_of j) d")
  show ?thesis by (rule moved [OF fails_new [OF Fail_New k]]) (use k in \<open>auto simp: Fail_New nearer_iff take_record_def\<close>)
next
  case (End_New j c e)
  show ?thesis by (rule moved [OF ends_new [OF End_New]]) (auto simp: End_New nearer_iff terminate_def split: option.splits)
next
  case (Unlink_New j e)
  show ?thesis by (rule moved [OF unlinks_new [OF Unlink_New]]) (auto simp: Unlink_New nearer_iff)
next
  case (Finish j r)
  have "daemon_step dir own d (go t Idle (job_drop j r (latch_drop (uid_of j) d)))" by (rule finishes [OF Finish])
  then show ?thesis
    by (intro exI conjI) (assumption, auto simp: advance_def Finish nearer_iff job_drop_def latch_drop_def intro!: exI [of _ Idle])
qed (use assms in auto)


lemma rank_low: "fst (rank p) \<le> 18 \<longleftrightarrow> (\<forall>j. p \<noteq> Got j \<and> p \<noteq> Acquire j)"
proof (cases p)
  case (Reap c r)
  then show ?thesis by (cases r) auto
qed auto

text \<open>A thread that waits for no latch can be run to its end.\<close>

lemma runs_out:
  assumes "\<forall>j. dm_threads d t \<noteq> Got j \<and> dm_threads d t \<noteq> Acquire j"
  shows "\<exists>d'. (daemon_step dir own)\<^sup>*\<^sup>* d d' \<and> dm_threads d' = (dm_threads d)(t := Idle) \<and> dm_queue d' = dm_queue d \<and>
    (\<forall>j. job_of (dm_threads d t) = Some j \<longrightarrow> (\<exists>r. (job_fd j, r) \<in> set (dm_ends d')))"
  using assms
proof (induction "dm_threads d t" arbitrary: d rule: wf_induct_rule [OF wf_nearer])
  case (1 d)
  show ?case
  proof (cases "dm_threads d t = Idle")
    case True
    then show ?thesis by (intro exI [of _ d]) auto
  next
    case False
    obtain d1 where s: "daemon_step dir own d d1" and a: "advance t d d1" using thread_advances [OF False] 1 by blast
    then obtain p where p: "dm_threads d1 = (dm_threads d)(t := p)" "(p, dm_threads d t) \<in> nearer" "dm_queue d1 = dm_queue d"
        "\<forall>j. job_of (dm_threads d t) = Some j \<longrightarrow> job_of p = Some j \<or> p = Idle \<and> (\<exists>r. (job_fd j, r) \<in> set (dm_ends d1))"
      by (auto simp: advance_def)
    show ?thesis
    proof (cases "p = Idle")
      case True
      then show ?thesis using s p by (intro exI [of _ d1]) auto
    next
      case n: False
      have "fst (rank p) \<le> 18" using p(2) 1(2) rank_low [of "dm_threads d t"] by (auto simp: nearer_iff)
      then have "\<forall>j. p \<noteq> Got j \<and> p \<noteq> Acquire j" by (simp add: rank_low)
      then obtain d2 where "(daemon_step dir own)\<^sup>*\<^sup>* d1 d2" "dm_threads d2 = (dm_threads d1)(t := Idle)" "dm_queue d2 = dm_queue d1"
          "\<forall>j. job_of p = Some j \<longrightarrow> (\<exists>r. (job_fd j, r) \<in> set (dm_ends d2))"
        using 1(1) [of d1] p(1,2) by auto
      then show ?thesis
        using s p n by (intro exI [of _ d2]) (auto intro: converse_rtranclp_into_rtranclp)
    qed
  qed
qed


lemma reach_run: "(daemon_step dir own)\<^sup>*\<^sup>* d d' \<Longrightarrow> reach i (daemon_step dir own) d \<Longrightarrow> reach i (daemon_step dir own) d'"
  by (induction rule: rtranclp_induct) (auto intro: reach_step)

text \<open>A latch is held by a thread that can be run to its end, so whoever waits for it gets it.\<close>

lemma waiting_runs_out:
  assumes r: "reach daemon_start (daemon_step dir own) d" and th: "dm_threads d t = Acquire j"
  shows "\<exists>d' r. (daemon_step dir own)\<^sup>*\<^sup>* d d' \<and> dm_threads d' t = Idle \<and> dm_queue d' = dm_queue d \<and> (job_fd j, r) \<in> set (dm_ends d')"
proof -
  have ok: "daemon_ok d" by (rule daemons.inv_reach [OF r])
  obtain e where e: "(daemon_step dir own)\<^sup>*\<^sup>* d e" "dm_threads e t = Acquire j" "dm_queue e = dm_queue d" "uid_of j \<notin> dm_busy e"
  proof (cases "uid_of j \<in> dm_busy d")
    case True
    then obtain a where a: "uid_of j \<in> holds (dm_threads d a)" using ok by (auto simp: daemon_ok_def latched_def)
    then have n: "\<forall>k. dm_threads d a \<noteq> Got k \<and> dm_threads d a \<noteq> Acquire k" "a \<noteq> t" using th by auto
    obtain e where e: "(daemon_step dir own)\<^sup>*\<^sup>* d e" "dm_threads e = (dm_threads d)(a := Idle)" "dm_queue e = dm_queue d"
      using runs_out [OF n(1)] by blast
    have "daemon_ok e" by (rule daemons.inv_reach [OF reach_run [OF e(1) r]])
    moreover have "uid_of j \<notin> holds (dm_threads e b)" for b
    proof (cases "b = a")
      case False
      then have "holds (dm_threads d a) \<inter> holds (dm_threads d b) = {}" using ok by (auto simp: daemon_ok_def latched_def)
      then show ?thesis using False a e(2) by auto
    qed (simp add: e(2))
    ultimately have "uid_of j \<notin> dm_busy e" by (auto simp: daemon_ok_def latched_def)
    then show ?thesis using that e th n(2) by simp
  qed (use th that in blast)
  obtain f where f: "daemon_step dir own e f" "dm_threads f = (dm_threads e)(t := Check j)" "dm_queue f = dm_queue e"
    using acquires [OF e(2), of "e\<lparr>dm_busy := insert (uid_of j) (dm_busy e)\<rparr>" dir own] e(4)
    by (auto simp: try_acquire_def)
  obtain g where "(daemon_step dir own)\<^sup>*\<^sup>* f g" "dm_threads g = (dm_threads f)(t := Idle)" "dm_queue g = dm_queue f"
      "\<exists>r. (job_fd j, r) \<in> set (dm_ends g)"
    using runs_out [of f t dir own] f(2) by auto
  moreover have "(daemon_step dir own)\<^sup>*\<^sup>* d g"
    using e(1) f(1) calculation(1) by (meson converse_rtranclp_into_rtranclp rtranclp_trans)
  ultimately show ?thesis using e f by auto
qed

lemma thread_runs_out:
  assumes r: "reach daemon_start (daemon_step dir own) d"
  shows "\<exists>d'. (daemon_step dir own)\<^sup>*\<^sup>* d d' \<and> dm_threads d' t = Idle \<and> dm_queue d' = dm_queue d \<and>
    (\<forall>j. job_of (dm_threads d t) = Some j \<longrightarrow> (\<exists>r. (job_fd j, r) \<in> set (dm_ends d')))"
proof (cases "\<exists>j. dm_threads d t = Got j \<or> dm_threads d t = Acquire j")
  case False
  then show ?thesis using runs_out [of d t dir own] by (metis fun_upd_same)
next
  case True
  then obtain j where j: "dm_threads d t = Got j \<or> dm_threads d t = Acquire j" by blast
  show ?thesis
  proof (cases "dm_threads d t = Acquire j")
    case True
    then show ?thesis using waiting_runs_out [OF r True] by fastforce
  next
    case False
    then have g: "dm_threads d t = Got j" using j by blast
    show ?thesis
    proof (cases "dm_stopping d")
      case True
      let ?d = "go t Idle (job_drop j (Inl ''closed'') d)"
      have "daemon_step dir own d ?d" using runs [OF g, of dir own] True by simp
      moreover have "dm_threads ?d t = Idle" "dm_queue ?d = dm_queue d" "(job_fd j, Inl ''closed'') \<in> set (dm_ends ?d)"
        by (simp_all add: job_drop_def)
      ultimately show ?thesis using g by (intro exI [of _ ?d]) auto
    next
      case False
      let ?d = "go t (Acquire j) d"
      have s: "daemon_step dir own d ?d" using runs [OF g, of dir own] False by simp
      obtain e x where "(daemon_step dir own)\<^sup>*\<^sup>* ?d e" "dm_threads e t = Idle" "dm_queue e = dm_queue ?d" "(job_fd j, x) \<in> set (dm_ends e)"
        using waiting_runs_out [OF reach_step [OF r s], of t j] by auto
      then show ?thesis using s g by (intro exI [of _ e]) (auto intro: converse_rtranclp_into_rtranclp)
    qed
  qed
qed

lemma queued_runs_out:
  assumes "reach daemon_start (daemon_step dir own) d" "j \<in> set (dm_queue d)"
  shows "\<exists>d' r. (daemon_step dir own)\<^sup>*\<^sup>* d d' \<and> (job_fd j, r) \<in> set (dm_ends d')"
  using assms
proof (induction "dm_queue d" arbitrary: d)
  case (Cons k q)
  obtain e where e: "(daemon_step dir own)\<^sup>*\<^sup>* d e" "dm_threads e 1 = Idle" "dm_queue e = k # q"
    using thread_runs_out [OF Cons.prems(1), of 1] Cons.hyps(2) by auto
  let ?f = "go 1 (Got k) (e\<lparr>dm_queue := q\<rparr>)"
  have s: "daemon_step dir own e ?f" by (rule receives) (use e in \<open>auto simp: HANDOFF_WORKERS_def\<close>)
  have f: "(daemon_step dir own)\<^sup>*\<^sup>* d ?f" using e(1) s by (rule rtranclp.rtrancl_into_rtrancl)
  have rf: "reach daemon_start (daemon_step dir own) ?f" by (rule reach_run [OF f Cons.prems(1)])
  show ?case
  proof (cases "j = k")
    case True
    then show ?thesis using thread_runs_out [OF rf, of 1] f by (auto intro: rtranclp_trans)
  next
    case False
    then have "j \<in> set (dm_queue ?f)" using Cons.prems(2) Cons.hyps(2) [symmetric] by simp
    then show ?thesis using Cons.hyps(1) [of ?f] rf f by (auto intro: rtranclp_trans)
  qed
qed simp




section \<open>Admission\<close>

definition engaged :: "daemon \<Rightarrow> u32 \<Rightarrow> nat set" where
  "engaged d u = {t. \<exists>j. job_of (dm_threads d t) = Some j \<and> uid_of j = u}"

definition waiting :: "daemon \<Rightarrow> u32 \<Rightarrow> nat" where
  "waiting d u = length (filter (\<lambda>j. uid_of j = u) (dm_queue d))"

text \<open>A user's connections in the pool.\<close>

definition load :: "daemon \<Rightarrow> u32 \<Rightarrow> nat" where "load d u = waiting d u + card (engaged d u)"

definition places :: "(u32, nat) hmap \<Rightarrow> u32 \<Rightarrow> nat" where
  "places m u = (case hm_get m u of Some n \<Rightarrow> n | None \<Rightarrow> 0)"

definition admission_ok :: "daemon \<Rightarrow> bool" where
  "admission_ok d \<longleftrightarrow> (\<forall>u. places (dm_in_flight d) u = load d u \<and> load d u \<le> PER_UID_IN_FLIGHT) \<and>
     length (dm_queue d) \<le> HANDOFF_QUEUE \<and> (\<forall>t. HANDOFF_WORKERS < t \<longrightarrow> dm_threads d t = Idle) \<and> job_of (dm_threads d 0) = None"

lemma engaged_workers: "admission_ok d \<Longrightarrow> engaged d u \<subseteq> {1..HANDOFF_WORKERS}"
proof
  fix t assume ok: "admission_ok d" and "t \<in> engaged d u"
  then obtain j where j: "job_of (dm_threads d t) = Some j" by (auto simp: engaged_def)
  then have "t \<noteq> 0" using ok by (auto simp: admission_ok_def intro: ccontr)
  moreover have "\<not> HANDOFF_WORKERS < t" using ok j by (auto simp: admission_ok_def)
  ultimately show "t \<in> {1..HANDOFF_WORKERS}" by simp
qed

lemma finite_engaged: "admission_ok d \<Longrightarrow> finite (engaged d u)"
  using finite_subset [OF engaged_workers] by blast

lemma same_work:
  assumes ok: "admission_ok d" and th: "dm_threads d' = (dm_threads d)(t := p)" "job_of p = job_of (dm_threads d t)"
    and t: "dm_threads d t \<noteq> Idle \<or> t = 0" and same: "dm_in_flight d' = dm_in_flight d" "dm_queue d' = dm_queue d"
  shows "admission_ok d'"
proof -
  have "engaged d' u = engaged d u" for u using th by (auto simp: engaged_def)
  then have "load d' = load d" using same by (simp add: load_def waiting_def fun_eq_iff)
  moreover have "\<not> HANDOFF_WORKERS < t" using ok t by (auto simp: admission_ok_def)
  ultimately show ?thesis
    using ok same th by (auto simp: admission_ok_def)
qed

lemma same_threads:
  assumes "admission_ok d" "dm_threads d' = dm_threads d" "dm_in_flight d' = dm_in_flight d" "dm_queue d' = dm_queue d"
  shows "admission_ok d'"
proof -
  have "load d' = load d" using assms by (simp add: load_def engaged_def waiting_def fun_eq_iff)
  then show ?thesis using assms by (simp add: admission_ok_def)
qed

lemma places_take:
  "admission_take u cap m = Some m' \<Longrightarrow> places m' v = places m v + (if v = u then 1 else 0) \<and> places m u < cap"
  by (auto simp: admission_take_def places_def Let_def hm_get_insert split: if_splits option.splits)

lemma places_drop: "places (slot_drop u m) v = places m v - (if v = u then 1 else 0)"
  by (auto simp: slot_drop_def places_def hm_get_insert hm_get_remove split: option.splits)

lemma submit_admission:
  assumes ok: "admission_ok d" and st: "submit j d = (d', r)"
  shows "admission_ok d'"
proof (cases r)
  case (Inr x)
  obtain m where m: "admission_take (uid_of j) PER_UID_IN_FLIGHT (dm_in_flight d) = Some m" "length (dm_queue d) < HANDOFF_QUEUE"
      and d': "d' = d\<lparr>dm_in_flight := m, dm_queue := dm_queue d @ [j]\<rparr>"
    using st Inr by (auto simp: submit_def split: if_splits option.splits)
  have e: "load d' u = load d u + (if u = uid_of j then 1 else 0)" for u by (simp add: d' load_def waiting_def engaged_def)
  show ?thesis
    unfolding admission_ok_def
  proof (intro conjI allI)
    fix u
    have p: "places m u = places (dm_in_flight d) u + (if u = uid_of j then 1 else 0)" "places (dm_in_flight d) (uid_of j) < PER_UID_IN_FLIGHT"
      using places_take [OF m(1), of u] by auto
    have o: "places (dm_in_flight d) u = load d u" "load d u \<le> PER_UID_IN_FLIGHT"
      using ok by (auto simp: admission_ok_def)
    show "places (dm_in_flight d') u = load d' u" "load d' u \<le> PER_UID_IN_FLIGHT"
      using p o e [of u] by (auto simp: d')
  qed (use ok m(2) in \<open>auto simp: admission_ok_def d'\<close>)
next
  case (Inl e)
  have "places (dm_in_flight d') u = places (dm_in_flight d) u" for u
    using st Inl places_take [of "uid_of j" PER_UID_IN_FLIGHT "dm_in_flight d" _ u]
    by (auto simp: submit_def places_drop split: if_splits option.splits)
  moreover have "dm_threads d' = dm_threads d" "dm_queue d' = dm_queue d"
    using st Inl by (auto simp: submit_def split: if_splits option.splits)
  moreover from this have "load d' = load d" by (simp add: load_def engaged_def waiting_def fun_eq_iff)
  ultimately show ?thesis using ok by (simp add: admission_ok_def)
qed

lemma drop_admission:
  assumes ok: "admission_ok d" and th: "job_of (dm_threads d t) = Some j" and d': "dm_threads d' = (dm_threads d)(t := Idle)"
    "dm_in_flight d' = slot_drop (uid_of j) (dm_in_flight d)" "dm_queue d' = dm_queue d"
  shows "admission_ok d'"
proof -
  have t: "t \<in> engaged d (uid_of j)" using th by (auto simp: engaged_def)
  have e: "engaged d' u = (if u = uid_of j then engaged d u - {t} else engaged d u)" for u
    using th by (auto simp: engaged_def d')
  have w: "waiting d' = waiting d" by (simp add: waiting_def d' fun_eq_iff)
  show ?thesis
    unfolding admission_ok_def
  proof (intro conjI allI)
    fix u
    have o: "places (dm_in_flight d) u = load d u" "load d u \<le> PER_UID_IN_FLIGHT"
      using ok by (auto simp: admission_ok_def)
    have c: "card (engaged d' u) = card (engaged d u) - (if u = uid_of j then 1 else 0)"
        "u = uid_of j \<Longrightarrow> 0 < card (engaged d u)"
      using t finite_engaged [OF ok, of u] by (auto simp: e card_gt_0_iff)
    then have l: "load d' u = load d u - (if u = uid_of j then 1 else 0)" by (auto simp: load_def w)
    show "places (dm_in_flight d') u = load d' u" "load d' u \<le> PER_UID_IN_FLIGHT" using o by (simp_all add: l d'(2) places_drop)
  qed (use ok in \<open>auto simp: admission_ok_def d'\<close>)
qed

lemma receive_admission:
  assumes ok: "admission_ok d" and t: "0 < t" "t \<le> HANDOFF_WORKERS" "dm_threads d t = Idle" and q: "dm_queue d = j # q"
  shows "admission_ok (go t (Got j) (d\<lparr>dm_queue := q\<rparr>))" (is "admission_ok ?d")
proof -
  have e: "engaged ?d u = (if u = uid_of j then insert t (engaged d u) else engaged d u)" for u
    using t(3) by (auto simp: engaged_def)
  have n: "t \<notin> engaged d u" for u using t(3) by (simp add: engaged_def)
  have "waiting d u = waiting ?d u + (if u = uid_of j then 1 else 0)" for u by (simp add: waiting_def q)
  moreover have "card (engaged ?d u) = card (engaged d u) + (if u = uid_of j then 1 else 0)" for u
    using finite_engaged [OF ok, of u] n [of u] by (cases "u = uid_of j") (auto simp: e)
  ultimately have "load ?d = load d" by (simp add: load_def fun_eq_iff)
  then show ?thesis using ok t q by (auto simp: admission_ok_def)
qed

lemma terminate_frame:
  "dm_threads (terminate c d) = dm_threads d" "dm_queue (terminate c d) = dm_queue d" "dm_in_flight (terminate c d) = dm_in_flight d"
  by (simp_all add: terminate_def split: option.splits)

lemma stop_all_frame:
  "dm_threads (stop_all d) = dm_threads d \<and> dm_queue (stop_all d) = dm_queue d \<and> dm_in_flight (stop_all d) = dm_in_flight d"
proof -
  have t: "dm_threads (fold (\<lambda>(u, p). terminate (Some p)) xs e) = dm_threads e \<and> dm_queue (fold (\<lambda>(u, p). terminate (Some p)) xs e) = dm_queue e \<and>
      dm_in_flight (fold (\<lambda>(u, p). terminate (Some p)) xs e) = dm_in_flight e" for xs :: "(u32 \<times> nat) list" and e
    by (induction xs arbitrary: e) (auto simp: terminate_frame)
  have r: "dm_threads (fold (\<lambda>(u, p). remove_file u) xs e) = dm_threads e \<and> dm_queue (fold (\<lambda>(u, p). remove_file u) xs e) = dm_queue e \<and>
      dm_in_flight (fold (\<lambda>(u, p). remove_file u) xs e) = dm_in_flight e" for xs :: "(u32 \<times> nat) list" and e
    by (induction xs arbitrary: e) auto
  show ?thesis unfolding stop_all_def Let_def using t r by simp
qed


lemma go_work:
  assumes "admission_ok d" "dm_threads d t = q" "dm_threads d' = dm_threads d" "job_of p = job_of q" "q \<noteq> Idle \<or> t = 0"
    "dm_in_flight d' = dm_in_flight d" "dm_queue d' = dm_queue d"
  shows "admission_ok (go t p d')"
  by (rule same_work [OF assms(1), where t = t and p = p]) (use assms in simp_all)

lemma daemon_step_admission: "daemon_step dir own d d' \<Longrightarrow> admission_ok d \<Longrightarrow> admission_ok d'"
proof (induction rule: daemon_step.induct)
  case (submits j d d')
  show ?case by (rule submit_admission [OF submits(2,1)])
next
  case (turned_away j d d' e)
  show ?case by (rule same_threads [OF submit_admission [OF turned_away(2,1)]]) simp_all
next
  case (receives t d j q)
  then show ?case using receive_admission by blast
next
  case (runs d t j)
  show ?case
  proof (cases "dm_stopping d")
    case True
    have "admission_ok (go t Idle (job_drop j (Inl ''closed'') d))"
      by (rule drop_admission [OF runs(2)]) (use runs(1) in \<open>auto simp: job_drop_def\<close>)
    then show ?thesis using True by simp
  next
    case False
    have "admission_ok (go t (Acquire j) d)" by (rule go_work [OF runs(2) runs(1)] ) (use runs(1) in auto)
    then show ?thesis using False by simp
  qed
next
  case (acquires d t j d')
  show ?case by (rule go_work [OF acquires(3) acquires(1)]) (use acquires(1,2) in \<open>auto simp: try_acquire_def split: if_splits\<close>)
next
  case (checks d t j)
  show ?case by (rule go_work [OF checks(2) checks(1)]) (use checks(1) in auto)
next
  case (reaps d)
  show ?case by (rule go_work [OF reaps(2) reaps(1)]) (use reaps(1) in auto)
next
  case (collects d t c ex now d' ended ad)
  show ?case by (rule go_work [OF collects(5) collects(1)]) (use collects(1,4) in \<open>auto simp: reap_collect_def Let_def\<close>)
next
  case (sweeps d t c ended ad d' p)
  show ?case by (rule go_work [OF sweeps(3) sweeps(1)])
      (use sweeps(1,2) in \<open>auto simp: reap_next_def reap_done_def try_acquire_def split: list.splits if_splits option.splits\<close>)
next
  case (claims d t c u es ad d' p)
  show ?case by (rule go_work [OF claims(3) claims(1)])
      (use claims(1,2) in \<open>auto simp: reap_claimed_def latch_drop_def split: if_splits\<close>)
next
  case (unlinks d t c u es ad)
  show ?case by (rule go_work [OF unlinks(2) unlinks(1)]) (use unlinks(1) in \<open>auto simp: latch_drop_def\<close>)
next
  case (probes d t c ad gone table)
  show ?case by (rule go_work [OF probes(3) probes(1)]) (use probes(1) in \<open>auto simp: reap_done_def split: option.splits\<close>)
next
  case (forgets d t c gone)
  show ?case by (rule go_work [OF forgets(2) forgets(1)]) (use forgets(1) in \<open>auto simp: reap_done_def split: option.splits\<close>)
next
  case (looks d t j)
  show ?case by (rule go_work [OF looks(2) looks(1)]) (use looks(1) in auto)
next
  case (tries d t j a r)
  show ?case by (rule go_work [OF tries(4) tries(1)]) (use tries(1) in \<open>auto split: sum.splits\<close>)
next
  case (adopts d t j now d' sid)
  show ?case by (rule go_work [OF adopts(4) adopts(1)]) (use adopts(1,3) in \<open>auto simp: adopt_session_def split: option.splits\<close>)
next
  case (judges d t j f)
  show ?case by (rule go_work [OF judges(2) judges(1)]) (use judges(1) in \<open>auto simp: judge_def split: handoff_failure.splits\<close>)
next
  case (drops d t j c d')
  show ?case by (rule go_work [OF drops(3) drops(1)]) (use drops(1,2) in \<open>auto simp: take_record_def\<close>)
next
  case (ends_old d t j c)
  show ?case by (rule go_work [OF ends_old(2) ends_old(1)]) (use ends_old(1) in \<open>auto simp: terminate_frame\<close>)
next
  case (unlinks_old d t j)
  show ?case by (rule go_work [OF unlinks_old(2) unlinks_old(1)]) (use unlinks_old(1) in auto)
next
  case (spawns d t j res d' r sid nanos pid)
  show ?case by (rule go_work [OF spawns(4) spawns(1)])
      (use spawns(1,2) in \<open>auto simp: spawn_def Let_def split: spawn_result.splits sum.splits\<close>)
next
  case (inserts d t j p sid now)
  show ?case by (rule go_work [OF inserts(3) inserts(1)]) (use inserts(1) in \<open>auto simp: record_session_def\<close>)
next
  case (tries_new d t j sid a r)
  show ?case by (rule go_work [OF tries_new(4) tries_new(1)]) (use tries_new(1) in \<open>auto split: sum.splits\<close>)
next
  case (fails_new d t j e c d')
  show ?case by (rule go_work [OF fails_new(3) fails_new(1)]) (use fails_new(1,2) in \<open>auto simp: take_record_def\<close>)
next
  case (ends_new d t j c e)
  show ?case by (rule go_work [OF ends_new(2) ends_new(1)]) (use ends_new(1) in \<open>auto simp: terminate_frame\<close>)
next
  case (unlinks_new d t j e)
  show ?case by (rule go_work [OF unlinks_new(2) unlinks_new(1)]) (use unlinks_new(1) in auto)
next
  case (finishes d t j r)
  show ?case by (rule drop_admission [OF finishes(2)]) (use finishes(1) in \<open>auto simp: job_drop_def latch_drop_def\<close>)
next
  case (dies d p)
  show ?case by (rule same_threads [OF dies]) simp_all
next
  case (shuts d)
  show ?case by (rule same_threads [OF shuts]) (simp_all add: begin_shutdown_def)
next
  case (stops d)
  show ?case by (rule same_threads [OF stops(4)]) (simp_all add: stop_all_frame)
qed

interpretation admissions: invariant_system daemon_start "daemon_step dir own" admission_ok
proof
  show "admission_ok d" if "daemon_start d" for d
    using that by (simp add: daemon_start_def admission_ok_def load_def waiting_def engaged_def places_def)
qed (rule daemon_step_admission)

text \<open>
  C38. The pool is shared: in every state the daemon can reach the places a user is charged for are
  exactly the user's connections in the queue and in the workers' hands, at most two, so that no user can
  hold more than two of the sixteen workers, and at most thirty-two connections wait.
\<close>

theorem pool_is_shared:
  assumes "reach daemon_start (daemon_step dir own) d"
  shows "places (dm_in_flight d) u = waiting d u + card (engaged d u) \<and> waiting d u + card (engaged d u) \<le> 2 \<and>
    finite (engaged d u) \<and> length (dm_queue d) \<le> 32"
  using admissions.inv_reach [OF assms] finite_engaged [OF admissions.inv_reach [OF assms]]
  by (simp add: admission_ok_def load_def PER_UID_IN_FLIGHT_def HANDOFF_QUEUE_def)

theorem pool_is_shared_witness:
  "places (dm_in_flight example_started) 1000 = 1 \<and> waiting example_started 1000 + card (engaged example_started 1000) \<le> 2"
  using pool_is_shared [OF example_reached, where u = 1000]
  by (simp add: example_started_def spawn_def Let_def places_def remove_file_def)


section \<open>The probe of the kernel's table\<close>

text \<open>A row as the kernel prints it: columns, each followed by a space or more, then the name.\<close>

definition column :: "string \<times> nat \<Rightarrow> string" where
  "column = (\<lambda>(c, n). c @ replicate (Suc n) (CHR '' ''))"

definition column_ok :: "string \<times> nat \<Rightarrow> bool" where
  "column_ok = (\<lambda>(c, n). c \<noteq> [] \<and> list_all graphic c)"

definition unix_row :: "nat \<Rightarrow> (string \<times> nat) list \<Rightarrow> string \<Rightarrow> string" where
  "unix_row n cols path = replicate n (CHR '' '') @ concat (map column cols) @ path"

lemma skip_one:
  assumes c: "column_ok (c, n)" and g: "graphic (hd s)" "s \<noteq> []"
  shows "skip_column (column (c, n) @ s) = Some s"
proof -
  let ?r = "column (c, n) @ s"
  let ?ws = "\<lambda>i. \<exists>w\<in>set white_space. take (length w) (drop i ?r) = w"
  have "\<not> ?ws i" if "i < length c" for i
  proof -
    have d: "drop i ?r = c ! i # drop (Suc i) ?r"
      using that by (simp add: column_def nth_append Cons_nth_drop_Suc [symmetric])
    have "graphic (c ! i)" using c that by (auto simp: column_ok_def list_all_iff)
    then show ?thesis unfolding d using no_white_space by blast
  qed
  moreover have "drop (length c) ?r = CHR '' '' # replicate n (CHR '' '') @ s" by (simp add: column_def)
  then have "?ws (length c)" by (simp add: white_space_def)
  ultimately have "List.find ?ws [0..<length ?r] = Some (length c)"
    by (intro find_first) (simp_all add: column_def)
  moreover have "strip_start white_space (drop (length c) ?r) = s"
  proof -
    have "drop (length c) ?r = replicate (Suc n) (CHR '' '') @ s" by (simp add: column_def)
    then have "strip_start white_space (drop (length c) ?r) = strip_start white_space s" by (simp only: strip_spaces)
    then show ?thesis using g strip_graphic [of "hd s" "tl s"] by simp
  qed
  ultimately show ?thesis by (simp add: skip_column_def)
qed

lemma skip_all:
  assumes "list_all column_ok cols" "graphic (hd s)" "s \<noteq> []"
  shows "skip_columns (length cols) (concat (map column cols) @ s) = Some s"
  using assms(1)
proof (induction cols)
  case (Cons x xs)
  obtain c n where x: "x = (c, n)" by (cases x)
  let ?t = "concat (map column xs) @ s"
  have "graphic (hd ?t) \<and> ?t \<noteq> []"
  proof (cases xs)
    case (Cons y ys)
    then show ?thesis using Cons.prems by (cases y) (auto simp: column_ok_def column_def hd_append list_all_iff)
  qed (use assms in simp)
  then show ?case using skip_one [of c n ?t] Cons x by simp
qed simp

lemma bound_path_row:
  assumes "list_all column_ok cols" "length cols = 7" "graphic (hd path)" "graphic (last path)" "path \<noteq> []"
  shows "bound_path (unix_row n cols path) = Some path"
proof -
  obtain c m xs where cols: "cols = (c, m) # xs" using assms(2) by (cases cols) auto
  let ?r = "concat (map column cols) @ path"
  have c: "c \<noteq> []" "graphic (hd c)" using assms(1) by (cases c; auto simp: cols column_ok_def)+
  then have "graphic (hd ?r)" "?r \<noteq> []" by (simp_all add: cols column_def hd_append)
  then have "strip_start white_space (unix_row n cols path) = ?r"
    using strip_graphic [of "hd ?r" "tl ?r"] by (simp add: unix_row_def strip_spaces)
  moreover have "skip_columns 7 ?r = Some path" using skip_all [OF assms(1,3,5)] assms(2) by simp
  moreover have "trim_end path = path" using trim_end_graphic [OF assms(4), of "butlast path"] assms(5) by simp
  ultimately show ?thesis using assms(5) by (simp add: bound_path_def)
qed

text \<open>
  A session that is still listening is not forgotten: when the kernel's table has a row for the
  control socket of a user, whatever its columns and their padding, the probe does not take the user's
  adopted session for gone; and a table that cannot be read makes it forget nothing.
\<close>

theorem listening_sessions_are_kept:
  assumes "unix_row n cols (socket_path dir u) \<in> set (drop 1 (split_lines table))"
    "list_all column_ok cols" "length cols = 7" "starts_with dir ''/''"
  shows "u \<notin> fst ` set (probe_adopted dir (Some table) candidates) \<and> probe_adopted dir None candidates = []"
proof -
  have "hd dir = CHR ''/''" "dir \<noteq> []" using assms(4) by (cases dir; auto simp: starts_with_def)+
  then have h: "graphic (hd (socket_path dir u))" by (simp add: socket_path_def graphic_def hd_append)
  have l: "graphic (last (socket_path dir u))" "socket_path dir u \<noteq> []" by (simp_all add: socket_path_def graphic_def)
  have "bound_path (unix_row n cols (socket_path dir u)) = Some (socket_path dir u)"
    by (rule bound_path_row [OF assms(2,3) h l])
  then have "socket_is_bound table (socket_path dir u)"
    using assms(1) by (auto simp: socket_is_bound_def list_ex_iff)
  then show ?thesis by (auto simp: probe_adopted_def)
qed

definition example_columns :: "(string \<times> nat) list" where
  "example_columns = [(''ffff8a:'', 0), (''00000002'', 0), (''00000000'', 0), (''00010000'', 0), (''0001'', 0), (''01'', 1), (''31337'', 0)]"

definition example_table :: string where
  "example_table = ''Num RefCount'' @ [CHR 0x0A] @ unix_row 0 example_columns ''/run/lynxrdp/sessions/1000.sock'' @ [CHR 0x0A]"

theorem listening_sessions_are_kept_witness:
  "1000 \<notin> fst ` set (probe_adopted ''/run/lynxrdp/sessions'' (Some example_table) [\<lparr>ad_uid = 1000, ad_username = ''ann'', ad_started = 3\<rparr>])"
proof -
  have p: "socket_path ''/run/lynxrdp/sessions'' 1000 = ''/run/lynxrdp/sessions/1000.sock''" by code_simp
  have "unix_row 0 example_columns ''/run/lynxrdp/sessions/1000.sock'' \<in> set (drop 1 (split_lines example_table))" by code_simp
  moreover have "list_all column_ok example_columns" "length example_columns = 7" "starts_with ''/run/lynxrdp/sessions'' ''/''" by code_simp+
  ultimately show ?thesis using listening_sessions_are_kept [of 0 example_columns "''/run/lynxrdp/sessions''" 1000 example_table] p by simp
qed

end
