(* ===== verification/Daemon_Access.thy ===== *)
theory Daemon_Access
  imports Daemon_Service Client_Paths
begin

text \<open>
  Whose connection it is: the owner of a socket as \<open>crates/server/src/peer.rs\<close> reads it from the kernel's
  tables, the access policy (\<open>daemon/access.rs\<close>, \<open>decide\<close> of \<open>daemon/mod.rs\<close>, \<open>handle_connection\<close> of
  \<open>bin/lynxrdpd.rs\<close>), the handoff record (\<open>handoff.rs\<close>) and the session's own check of it
  (\<open>session/listener.rs\<close>). Account lookups and the sockets are parameters.
\<close>

section \<open>The owner of a socket\<close>

text \<open>An address is its bytes in network order; IPv6 addresses have no scope.\<close>

datatype sock_addr = V4 "u8 list" u16 | V6 "u8 list" u16

record peer_identity =
  pi_uid :: u32
  pi_gid :: "u32 option"
  pi_pid :: "i32 option"

definition is_loopback :: "sock_addr \<Rightarrow> bool" where
  "is_loopback a = (case a of V4 ip p \<Rightarrow> ip \<noteq> [] \<and> hd ip = 127 | V6 ip p \<Rightarrow> ip = replicate 15 0 @ [1])"

text \<open>\<open>from_str_radix(_, 16)\<close> of an unsigned type whose greatest value is \<open>mx\<close>.\<close>

definition from_hex :: "nat \<Rightarrow> string \<Rightarrow> nat option" where
  "from_hex mx s =
     (let ds = (case s of c # cs \<Rightarrow> if c = CHR ''+'' \<and> cs \<noteq> [] then cs else s | [] \<Rightarrow> s)
      in if ds = [] then None
         else case hex_number 0 ds of None \<Rightarrow> None | Some n \<Rightarrow> if n \<le> mx then Some n else None)"

definition word_bytes :: "string \<Rightarrow> u8 list option" where
  "word_bytes s = map_option (\<lambda>n. le_bytes 4 (of_nat n :: u32)) (from_hex (2 ^ 32 - 1) s)"

definition split_once :: "char \<Rightarrow> string \<Rightarrow> (string \<times> string) option" where
  "split_once c s = (if c \<in> set s then Some (takeWhile ((\<noteq>) c) s, tl (dropWhile ((\<noteq>) c) s)) else None)"

definition parse_proc_addr :: "string \<Rightarrow> sock_addr option" where
  "parse_proc_addr field =
     (case split_once (CHR '':'') field of
        None \<Rightarrow> None
      | Some (ip, port) \<Rightarrow>
          (case from_hex (2 ^ 16 - 1) port of
             None \<Rightarrow> None
           | Some p \<Rightarrow>
               if length ip = 8 then map_option (\<lambda>b. V4 b (of_nat p)) (word_bytes ip)
               else if length ip = 32
               then (case (word_bytes (take 8 ip), word_bytes (take 8 (drop 8 ip)), word_bytes (take 8 (drop 16 ip)), word_bytes (drop 24 ip)) of
                       (Some a, Some b, Some c, Some d) \<Rightarrow> Some (V6 (a @ b @ c @ d) (of_nat p))
                     | _ \<Rightarrow> None)
               else None))"

text \<open>\<open>str::split_whitespace\<close>: what is left after white space starts with none.\<close>

lemma strip_start_shorter: "length (strip_start ws s) \<le> length s"
proof (induction ws s rule: strip_start.induct)
  case (1 ws s)
  show ?case
    using 1 by (subst strip_start.simps) (force split: option.splits)
qed

function str_words :: "string \<Rightarrow> string list" where
  "str_words s =
     (let r = strip_start white_space s
      in if r = [] then []
         else case List.find (\<lambda>i. \<exists>w\<in>set white_space. take (length w) (drop i r) = w) [1..<length r] of
                None \<Rightarrow> [r]
              | Some i \<Rightarrow> take i r # str_words (drop i r))"
  by pat_completeness auto
termination
proof (relation "measure length")
  fix s r :: string and i
  assume r: "r = strip_start white_space s" "r \<noteq> []"
    and f: "List.find (\<lambda>i. \<exists>w\<in>set white_space. take (length w) (drop i r) = w) [1..<length r] = Some i"
  have "1 \<le> i" using f by (auto simp: find_Some_iff)
  then show "(drop i r, s) \<in> measure length" using r strip_start_shorter [of white_space s] by (cases "length r") auto
qed simp

declare str_words.simps [simp del]

text \<open>A line with fewer than eight fields ends the search; one that is not a connection is passed over.\<close>

fun find_owner :: "string list \<Rightarrow> sock_addr \<Rightarrow> sock_addr \<Rightarrow> u32 option" where
  "find_owner [] l r = None"
| "find_owner (line # lines) l r =
     (case str_words line of
        sl # local # remote # state # txrx # trtm # retr # uid # _ \<Rightarrow>
          if state \<noteq> ''01'' then find_owner lines l r
          else (case (parse_proc_addr local, parse_proc_addr remote) of
                  (Some a, Some b) \<Rightarrow>
                    if a = l \<and> b = r then map_option of_nat (parse_unsigned (2 ^ 32 - 1) uid) else find_owner lines l r
                | _ \<Rightarrow> find_owner lines l r)
      | _ \<Rightarrow> None)"

definition find_socket_owner :: "string \<Rightarrow> sock_addr \<Rightarrow> sock_addr \<Rightarrow> u32 option" where
  "find_socket_owner table sock_local sock_remote = find_owner (drop 1 (split_lines table)) sock_local sock_remote"

text \<open>\<open>local\<close> and \<open>peer\<close> are what the socket says of its ends; \<open>t4\<close> and \<open>t6\<close> what reading the tables gives.\<close>

definition tcp_peer ::
    "string + sock_addr \<Rightarrow> string + sock_addr \<Rightarrow> string + string \<Rightarrow> string + string \<Rightarrow> string + peer_identity option" where
  "tcp_peer local peer t4 t6 =
     (case local of Inl e \<Rightarrow> Inl e
      | Inr l \<Rightarrow> (case peer of Inl e \<Rightarrow> Inl e
        | Inr p \<Rightarrow>
            if \<not> is_loopback p \<or> \<not> is_loopback l then Inr None
            else (case (case p of V4 _ _ \<Rightarrow> t4 | V6 _ _ \<Rightarrow> t6) of
                    Inl e \<Rightarrow> Inl e
                  | Inr table \<Rightarrow>
                      Inr (map_option (\<lambda>uid. \<lparr>pi_uid = uid, pi_gid = None, pi_pid = None\<rparr>) (find_socket_owner table p l)))))"

section \<open>The access policy\<close>

record access_config =
  ac_min_uid :: u32
  ac_allow_users :: "string list"
  ac_allow_groups :: "string list"
  ac_deny_users :: "string list"

definition access_check :: "access_config \<Rightarrow> u32 \<Rightarrow> string \<Rightarrow> string list \<Rightarrow> string + unit" where
  "access_check cfg uid user groups =
     (if user \<in> set (ac_deny_users cfg) then Inl (''user '' @ user @ '' is denied by configuration'')
      else if uid < ac_min_uid cfg
      then Inl (''uid '' @ decimal (unat uid) @ '' is below access.min_uid ('' @ decimal (unat (ac_min_uid cfg)) @ '')'')
      else
        let user_ok = ac_allow_users cfg = [] \<or> user \<in> set (ac_allow_users cfg);
            group_ok = ac_allow_groups cfg = [] \<or> list_ex (\<lambda>g. g \<in> set (ac_allow_groups cfg)) groups
        in if ac_allow_users cfg = [] \<and> ac_allow_groups cfg = [] then Inr ()
           else
             let listed_user = ac_allow_users cfg \<noteq> [] \<and> user_ok;
                 listed_group = ac_allow_groups cfg \<noteq> [] \<and> group_ok
             in if listed_user \<or> listed_group then Inr ()
                else Inl (''user '' @ user @ '' is not in access.allow_users or access.allow_groups''))"

datatype decision = Accept user_info | Reject u16 string

definition UNAUTHORIZED :: u16 where "UNAUTHORIZED = 2"
definition UNAVAILABLE :: u16 where "UNAVAILABLE = 4"

definition decide :: "access_config \<Rightarrow> (u32 \<Rightarrow> string + user_info) \<Rightarrow> (user_info \<Rightarrow> string list) \<Rightarrow> peer_identity option \<Rightarrow> decision" where
  "decide cfg user_by_uid groups_of peer =
     (case peer of
        None \<Rightarrow> Reject UNAUTHORIZED ''could not identify the local user behind the connection''
      | Some p \<Rightarrow>
          (case user_by_uid (pi_uid p) of
             Inl e \<Rightarrow> Reject UNAUTHORIZED (''unknown uid '' @ decimal (unat (pi_uid p)) @ '': '' @ e)
           | Inr user \<Rightarrow>
               (case access_check cfg (ui_uid user) (ui_name user) (groups_of user) of
                  Inr _ \<Rightarrow> Accept user
                | Inl reason \<Rightarrow> Reject UNAUTHORIZED reason)))"

text \<open>What becomes of an accepted connection: it is in the pool, or refused with a code and a reason.\<close>

definition handle_connection ::
    "access_config \<Rightarrow> (u32 \<Rightarrow> string + user_info) \<Rightarrow> (user_info \<Rightarrow> string list) \<Rightarrow> u32 \<Rightarrow> nat \<Rightarrow> peer_identity option \<Rightarrow> string \<Rightarrow>
     daemon \<Rightarrow> daemon \<times> (u16 \<times> string) option" where
  "handle_connection cfg user_by_uid groups_of own_uid fd identity desc d =
     (case decide cfg user_by_uid groups_of identity of
        Reject code reason \<Rightarrow> (d, Some (code, reason))
      | Accept user \<Rightarrow>
          if own_uid \<noteq> 0 \<and> ui_uid user \<noteq> own_uid
          then (d, Some (UNAVAILABLE, ''daemon is not running as root; cannot start a session for '' @ ui_name user))
          else (case submit \<lparr>job_fd = fd, job_user = user, job_peer = desc\<rparr> d of
                  (d', Inl reason) \<Rightarrow> (d', Some (UNAVAILABLE, reason))
                | (d', Inr _) \<Rightarrow> (d', None)))"

section \<open>The handoff\<close>

record handoff =
  ho_uid :: u32
  ho_username :: string
  ho_peer :: string

definition MAGIC :: "u8 list" where "MAGIC = str_bytes ''LXHO''"

definition handoff_encode :: "handoff \<Rightarrow> u8 list" where
  "handoff_encode h = w_string (ho_peer h) (w_string (ho_username h) (w_u32 (ho_uid h) (w_raw MAGIC [])))"

datatype handoff_error = Bad decode_error | Bad_Magic

definition rd_bad :: "'a rd \<Rightarrow> reader \<Rightarrow> handoff_error + 'a \<times> reader" where
  "rd_bad g r = map_sum Bad id (g r)"

definition handoff_decode :: "u8 list \<Rightarrow> handoff_error + handoff" where
  "handoff_decode bytes =
     (case rd_bad (rd_raw 4) (rd_new bytes) of Inl e \<Rightarrow> Inl e
      | Inr (magic, r) \<Rightarrow>
          if magic \<noteq> MAGIC then Inl Bad_Magic
          else (case rd_bad rd_u32 r of Inl e \<Rightarrow> Inl e
            | Inr (uid, r) \<Rightarrow> (case rd_bad rd_string r of Inl e \<Rightarrow> Inl e
              | Inr (username, r) \<Rightarrow> (case rd_bad rd_string r of Inl e \<Rightarrow> Inl e
                | Inr (peer, r) \<Rightarrow> (case rd_finish r of Inl e \<Rightarrow> Inl (Bad e)
                  | Inr _ \<Rightarrow> Inr \<lparr>ho_uid = uid, ho_username = username, ho_peer = peer\<rparr>)))))"

definition handoff_of :: "job \<Rightarrow> handoff" where
  "handoff_of j = \<lparr>ho_uid = uid_of j, ho_username = name_of j, ho_peer = job_peer j\<rparr>"

text \<open>
  The session's end of one control connection: who connected, what was received with which descriptor,
  and what becomes of it: the reply sent, and the client that joins the session when the reply went out.
\<close>

definition control_connection ::
    "u32 \<Rightarrow> string + peer_identity \<Rightarrow> string + u8 list \<times> nat option \<Rightarrow> bool \<Rightarrow> reply option \<times> (nat \<times> string) option" where
  "control_connection own_uid who received sends =
     (case who of
        Inl e \<Rightarrow> (None, None)
      | Inr p \<Rightarrow>
          if pi_uid p \<noteq> 0 \<and> pi_uid p \<noteq> own_uid then (None, None)
          else (case received of
                  Inl e \<Rightarrow> (None, None)
                | Inr (bytes, fd) \<Rightarrow>
                    (case (handoff_decode bytes, fd) of
                       (Inr h, Some f) \<Rightarrow>
                         if ho_uid h \<noteq> own_uid then (Some Refused, None)
                         else (Some Accepted, if sends then Some (f, ho_peer h @ '' via lynxrdpd'') else None)
                     | _ \<Rightarrow> (None, None))))"

text \<open>The daemon's end reads one byte.\<close>

definition read_reply :: "u8 \<Rightarrow> string + reply" where
  "read_reply b = (if b = 1 then Inr Accepted else if b = 2 then Inr Refused else Inl (''bad reply '' @ decimal (unat b)))"


section \<open>The kernel's rows\<close>

lemma from_hex_digits:
  assumes "n < 16 ^ k" "0 < k" "n \<le> mx"
  shows "from_hex mx (hex_digits k n) = Some n"
proof -
  obtain c cs where c: "hex_digits k n = c # cs" using assms(2) by (cases "hex_digits k n") (auto dest: arg_cong [where f = length])
  then have "c \<noteq> CHR ''+''" using hex_digits_chars [of c k n] by simp
  then show ?thesis using hex_number_digits [OF assms(1)] assms(3) c by (simp add: from_hex_def)
qed

text \<open>A word in host order, most significant digit first.\<close>

definition show_word :: "u8 list \<Rightarrow> string" where
  "show_word b = hex_digits 8 (unat (of_le b :: u32))"

lemma word_bytes_show: "length b = 4 \<Longrightarrow> word_bytes (show_word b) = Some b"
proof -
  assume b: "length b = 4"
  have u: "unat (of_le b :: u32) < 2 ^ 32" using unsigned_less [of "of_le b :: u32", where ?'a = nat] by simp
  then have "from_hex (2 ^ 32 - 1) (hex_digits 8 (unat (of_le b :: u32))) = Some (unat (of_le b :: u32))"
    by (intro from_hex_digits) simp_all
  then show ?thesis using le_bytes_of_le [OF b, where ?'a = 32] by (simp add: word_bytes_def show_word_def)
qed

fun show_addr :: "sock_addr \<Rightarrow> string" where
  "show_addr (V4 ip p) = show_word ip @ '':'' @ hex_digits 4 (unat p)"
| "show_addr (V6 ip p) =
     show_word (take 4 ip) @ show_word (take 4 (drop 4 ip)) @ show_word (take 4 (drop 8 ip)) @ show_word (drop 12 ip) @ '':'' @
     hex_digits 4 (unat p)"

fun addr_ok :: "sock_addr \<Rightarrow> bool" where
  "addr_ok (V4 ip p) \<longleftrightarrow> length ip = 4"
| "addr_ok (V6 ip p) \<longleftrightarrow> length ip = 16"

lemma split_once_append: "c \<notin> set a \<Longrightarrow> split_once c (a @ [c] @ b) = Some (a, b)"
  by (induction a) (auto simp: split_once_def)


lemma show_word_chars: "c \<in> set (show_word b) \<Longrightarrow> graphic c \<and> c \<noteq> CHR '':''"
  by (auto simp: show_word_def dest: hex_digits_chars)

lemma length_show_word [simp]: "length (show_word b) = 8"
  by (simp add: show_word_def)

lemma port_value:
  "from_hex (2 ^ 16 - 1) (hex_digits 4 (unat (p :: u16))) = Some (unat p)" "from_hex 65535 (hex_digits 4 (unat p)) = Some (unat p)"
proof -
  have "unat p < 2 ^ 16" using unsigned_less [of p, where ?'a = nat] by simp
  then show "from_hex (2 ^ 16 - 1) (hex_digits 4 (unat (p :: u16))) = Some (unat p)" by (intro from_hex_digits) simp_all
  then show "from_hex 65535 (hex_digits 4 (unat (p :: u16))) = Some (unat p)" by simp
qed

text \<open>What the kernel prints is read back.\<close>

lemma parse_show_addr: "addr_ok a \<Longrightarrow> parse_proc_addr (show_addr a) = Some a"
proof (cases a)
  case (V4 ip p)
  assume "addr_ok a"
  then have ip: "length ip = 4" by (simp add: V4)
  have "CHR '':'' \<notin> set (show_word ip)" using show_word_chars by blast
  then show ?thesis
    using split_once_append [of "CHR '':''" "show_word ip" "hex_digits 4 (unat p)"]
    by (simp add: V4 parse_proc_addr_def port_value word_bytes_show [OF ip])
next
  case (V6 ip p)
  assume "addr_ok a"
  then have ip: "length ip = 16" by (simp add: V6)
  let ?b = "\<lambda>i. take 4 (drop (4 * i) ip)"
  let ?w = "show_word (?b 0) @ show_word (?b 1) @ show_word (?b 2) @ show_word (?b 3)"
  have d: "?b 3 = drop 12 ip" using ip by simp
  have w: "word_bytes (show_word (?b i)) = Some (?b i)" if "i < 4" for i using that ip by (intro word_bytes_show) simp
  have "CHR '':'' \<notin> set ?w" using show_word_chars by auto
  then have s: "split_once (CHR '':'') (show_addr a) = Some (?w, hex_digits 4 (unat p))"
    using split_once_append [of "CHR '':''" ?w "hex_digits 4 (unat p)"] d by (simp add: V6)
  have j: "?b 0 @ ?b 1 @ ?b 2 @ ?b 3 = ip"
    by (rule nth_equalityI) (use ip in \<open>auto simp: nth_append\<close>)
  have "parse_proc_addr (show_addr a) = Some (V6 (?b 0 @ ?b 1 @ ?b 2 @ ?b 3) p)"
    unfolding parse_proc_addr_def s using w [of 0] w [of 1] w [of 2] w [of 3] by (simp add: port_value)
  then show ?thesis unfolding j V6 .
qed

lemma show_addr_graphic: "list_all graphic (show_addr a)" "show_addr a \<noteq> []"
proof -
  have "graphic (CHR '':'')" by (simp add: graphic_def)
  then show "list_all graphic (show_addr a)" using show_word_chars hex_digits_chars by (cases a) (auto simp: list_all_iff)
  show "show_addr a \<noteq> []" by (cases a) auto
qed

text \<open>The fields of a row are its columns.\<close>

lemma words_spaces: "str_words (replicate n (CHR '' '') @ s) = str_words s"
  by (subst (1 2) str_words.simps) (simp only: strip_spaces)

lemma words_column:
  assumes c: "column_ok (c, n)"
  shows "str_words (column (c, n) @ s) = c # str_words s"
proof -
  let ?r = "column (c, n) @ s"
  let ?ws = "\<lambda>i. \<exists>w\<in>set white_space. take (length w) (drop i ?r) = w"
  obtain x xs where x: "c = x # xs" "graphic x" using c by (cases c) (auto simp: column_ok_def)
  have r: "strip_start white_space ?r = ?r" using strip_graphic [OF x(2)] by (simp add: column_def x(1))
  have "\<not> ?ws i" if "i < length c" for i
  proof -
    have d: "drop i ?r = c ! i # drop (Suc i) ?r"
      using that by (simp add: column_def nth_append Cons_nth_drop_Suc [symmetric])
    have "graphic (c ! i)" using c that by (auto simp: column_ok_def list_all_iff)
    then show ?thesis unfolding d using no_white_space by blast
  qed
  moreover have "drop (length c) ?r = replicate (Suc n) (CHR '' '') @ s" by (simp add: column_def)
  moreover from this have "?ws (length c)" by (simp add: white_space_def)
  ultimately have f: "List.find ?ws [1..<length ?r] = Some (length c)"
    using x(1) by (intro find_first) (simp_all add: column_def)
  have "str_words ?r = take (length c) ?r # str_words (drop (length c) ?r)"
    by (subst str_words.simps) (use r f x(1) in \<open>simp add: Let_def column_def\<close>)
  also have "drop (length c) ?r = replicate (Suc n) (CHR '' '') @ s" by (simp add: column_def)
  finally show ?thesis unfolding words_spaces by (simp add: column_def)
qed

lemma words_row: "list_all column_ok cols \<Longrightarrow> str_words (unix_row n cols rest) = map fst cols @ str_words rest"
proof (induction cols arbitrary: n)
  case Nil
  then show ?case by (simp add: unix_row_def words_spaces)
next
  case (Cons x xs)
  have "unix_row n (x # xs) rest = replicate n (CHR '' '') @ column x @ unix_row 0 xs rest" by (simp add: unix_row_def)
  moreover have "str_words (column x @ unix_row 0 xs rest) = fst x # str_words (unix_row 0 xs rest)"
    using words_column [of "fst x" "snd x"] Cons.prems by simp
  ultimately show ?case using Cons by (simp add: words_spaces)
qed

text \<open>
  A row of \<open>/proc/net/tcp\<close>: how its columns are padded, its two addresses, whether it is established, its
  owner, and the columns that say nothing of these.
\<close>

record tcp_row =
  tr_pads :: "nat list"
  tr_slot :: string
  tr_local :: sock_addr
  tr_remote :: sock_addr
  tr_state :: u8
  tr_queues :: "string \<times> string \<times> string"
  tr_uid :: u32
  tr_rest :: string

definition row_fields :: "tcp_row \<Rightarrow> string list" where
  "row_fields r =
     (case tr_queues r of (a, b, c) \<Rightarrow>
        [tr_slot r, show_addr (tr_local r), show_addr (tr_remote r), hex_digits 2 (unat (tr_state r)), a, b, c, decimal (unat (tr_uid r))])"

definition show_row :: "tcp_row \<Rightarrow> string" where
  "show_row r = unix_row (hd (tr_pads r)) (zip (row_fields r) (tl (tr_pads r))) (tr_rest r)"

definition row_ok :: "tcp_row \<Rightarrow> bool" where
  "row_ok r \<longleftrightarrow> length (tr_pads r) = 9 \<and> addr_ok (tr_local r) \<and> addr_ok (tr_remote r) \<and>
     list_all (\<lambda>s. s \<noteq> [] \<and> list_all graphic s) [tr_slot r, fst (tr_queues r), fst (snd (tr_queues r)), snd (snd (tr_queues r))]"

definition connects :: "sock_addr \<Rightarrow> sock_addr \<Rightarrow> tcp_row \<Rightarrow> bool" where
  "connects l r row \<longleftrightarrow> tr_state row = 1 \<and> tr_local row = l \<and> tr_remote row = r"

lemma decimal_graphic: "list_all graphic (decimal n)"
  using decimal_digits(1) [of n] by (auto simp: list_all_iff is_digit_def graphic_def)

lemma row_words: "row_ok r \<Longrightarrow> str_words (show_row r) = row_fields r @ str_words (tr_rest r)"
proof -
  assume ok: "row_ok r"
  obtain a b c where q: "tr_queues r = (a, b, c)" by (cases "tr_queues r")
  have l: "length (row_fields r) = length (tl (tr_pads r))" using ok by (simp add: row_fields_def row_ok_def q)
  have "list_all graphic (hex_digits 2 n) \<and> hex_digits 2 n \<noteq> []" for n
    using hex_digits_chars length_hex_digits [of 2 n] by (auto simp: list_all_iff simp del: length_hex_digits)
  then have "list_all (\<lambda>s. s \<noteq> [] \<and> list_all graphic s) (row_fields r)"
    using ok show_addr_graphic decimal_graphic decimal_digits(2) by (simp add: row_fields_def row_ok_def q)
  then have "list_all column_ok (zip (row_fields r) (tl (tr_pads r)))"
    by (auto simp: list_all_iff column_ok_def dest!: set_zip_leftD)
  then show ?thesis by (simp add: show_row_def words_row l)
qed

lemma state_word: "hex_digits 2 (unat (s :: u8)) = ''01'' \<longleftrightarrow> s = 1"
proof
  assume h: "hex_digits 2 (unat s) = ''01''"
  have "unat s < 16 ^ 2" using unsigned_less [of s, where ?'a = nat] by simp
  then have "hex_number 0 ''01'' = Some (unat s)" using hex_number_digits [of "unat s" 2] h by simp
  moreover have "hex_number 0 ''01'' = Some 1" by code_simp
  ultimately show "s = 1" by (metis option.inject unat_1 word_unat_eq_iff)
next
  assume "s = 1"
  moreover have "hex_digits 2 1 = ''01''" by code_simp
  ultimately show "hex_digits 2 (unat s) = ''01''" by simp
qed

lemma find_owner_rows:
  assumes "\<forall>row\<in>set rows. row_ok row" "addr_ok l" "addr_ok r"
  shows "find_owner (map show_row rows) l r = map_option tr_uid (List.find (connects l r) rows)"
  using assms(1)
proof (induction rows)
  case (Cons row rows)
  obtain a b c where q: "tr_queues row = (a, b, c)" by (cases "tr_queues row")
  have ok: "row_ok row" using Cons.prems by simp
  have p: "parse_proc_addr (show_addr (tr_local row)) = Some (tr_local row)" "parse_proc_addr (show_addr (tr_remote row)) = Some (tr_remote row)"
    using ok by (simp_all add: parse_show_addr row_ok_def)
  have "unat (tr_uid row) \<le> 2 ^ 32 - 1" using unsigned_less [of "tr_uid row", where ?'a = nat] by simp
  then have u: "map_option of_nat (parse_unsigned (2 ^ 32 - 1) (decimal (unat (tr_uid row)))) = Some (tr_uid row)"
    by (subst parse_decimal) simp_all
  have w: "str_words (show_row row) = row_fields row @ str_words (tr_rest row)" by (rule row_words [OF ok])
  show ?case
    using Cons p u unfolding list.map(2) find_owner.simps w
    by (simp add: row_fields_def q state_word connects_def)
qed simp

text \<open>
  C17. The owner the daemon sees is the kernel's: for a table whose lines are the kernel's rows, whatever
  their padding and other columns, \<open>find_socket_owner\<close> returns the uid of the first established socket with
  the two addresses, and nothing when there is none.
\<close>

theorem socket_owner_is_the_kernels:
  assumes "drop 1 (split_lines table) = map show_row rows" "\<forall>row\<in>set rows. row_ok row" "addr_ok l" "addr_ok r"
  shows "find_socket_owner table l r = map_option tr_uid (List.find (connects l r) rows)"
  unfolding find_socket_owner_def assms(1) by (rule find_owner_rows [OF assms(2-4)])


definition example_row :: tcp_row where
  "example_row = \<lparr>tr_pads = [3, 0, 0, 0, 0, 0, 0, 2, 7], tr_slot = ''1:'', tr_local = V4 [127, 0, 0, 1] 0xA3F2,
     tr_remote = V4 [127, 0, 0, 1] 3390, tr_state = 1, tr_queues = (''00000000:00000000'', ''00:00000000'', ''00000000''),
     tr_uid = 1000, tr_rest = ''0 22222 1 0000000000000000 20 4 30 10 -1''\<rparr>"

definition example_listening :: tcp_row where
  "example_listening = example_row\<lparr>tr_slot := ''0:'', tr_local := V4 [127, 0, 0, 1] 3390, tr_remote := V4 [0, 0, 0, 0] 0,
     tr_state := 10, tr_uid := 0\<rparr>"

definition example_lines :: "string list" where
  "example_lines =
     [''   0: 0100007F:0D3E 00000000:0000 0A 00000000:00000000 00:00000000 00000000   0        0 22222 1 0000000000000000 20 4 30 10 -1'',
      ''   1: 0100007F:A3F2 0100007F:0D3E 01 00000000:00000000 00:00000000 00000000   1000        0 22222 1 0000000000000000 20 4 30 10 -1'']"

lemma replicate_many: "replicate (numeral k) x = x # replicate (pred_numeral k) x"
  unfolding numeral_eq_Suc [of k] by simp

lemma example_words:
  "(of_le [127, 0, 0, 1] :: u32) = 0x0100007F" "(of_le [0, 0, 0, 0] :: u32) = 0"
  "decimal 1000 = ''1000''" "decimal 0 = ''0''"
  by (simp, simp, code_simp, code_simp)

lemma example_rows: "map show_row [example_listening, example_row] = example_lines"
  by (simp add: example_listening_def example_row_def example_lines_def show_row_def row_fields_def unix_row_def column_def
      show_word_def hex_digits_numeral hex_chars example_words replicate_many)

theorem socket_owner_is_the_kernels_witness:
  "find_socket_owner (''  sl  local_address'' @ [CHR 0x0A] @ example_lines ! 0 @ [CHR 0x0A] @ example_lines ! 1 @ [CHR 0x0A])
     (V4 [127, 0, 0, 1] 0xA3F2) (V4 [127, 0, 0, 1] 3390) = Some 1000"
proof -
  have "drop 1 (split_lines (''  sl  local_address'' @ [CHR 0x0A] @ example_lines ! 0 @ [CHR 0x0A] @ example_lines ! 1 @ [CHR 0x0A])) =
      example_lines" by (simp add: example_lines_def)
  moreover have "list_all row_ok [example_listening, example_row]" by code_simp
  moreover have "map_option tr_uid (List.find (connects (V4 [127, 0, 0, 1] 0xA3F2) (V4 [127, 0, 0, 1] 3390)) [example_listening, example_row]) = Some 1000"
    by (simp add: connects_def example_listening_def example_row_def)
  ultimately show ?thesis
    using socket_owner_is_the_kernels [of _ "[example_listening, example_row]"] example_rows by (simp add: list_all_iff)
qed

section \<open>Only the owner is served\<close>

lemma access_check_iff:
  "access_check cfg uid user groups = Inr () \<longleftrightarrow>
   user \<notin> set (ac_deny_users cfg) \<and> ac_min_uid cfg \<le> uid \<and>
   (ac_allow_users cfg = [] \<and> ac_allow_groups cfg = [] \<or> user \<in> set (ac_allow_users cfg) \<or>
    (\<exists>g\<in>set groups. g \<in> set (ac_allow_groups cfg)))"
  by (auto simp: access_check_def Let_def list_ex_iff not_less)

lemma rd_bad_simps [simp]: "rd_bad g r = Inr (x, r') \<longleftrightarrow> g r = Inr (x, r')" "g r = Inr y \<Longrightarrow> rd_bad g r = Inr y"
  by (cases "g r"; auto simp: rd_bad_def)+

lemma handoff_bytes: "handoff_encode h = MAGIC @ le_bytes 4 (ho_uid h) @ enc_string (ho_username h) @ enc_string (ho_peer h)"
  by (simp add: handoff_encode_def wstring.put_enc wu32.put_enc w_raw_def)

lemma handoff_head:
  "rd_bad (rd_raw 4) (rd_new (handoff_encode h)) = Inr (MAGIC, rd_at MAGIC (le_bytes 4 (ho_uid h) @ enc_string (ho_username h) @ enc_string (ho_peer h)))"
  "rd_bad rd_u32 (rd_at MAGIC (le_bytes 4 (ho_uid h) @ t)) = Inr (ho_uid h, rd_at (MAGIC @ le_bytes 4 (ho_uid h)) t)"
  using rd_take_at [of MAGIC 4 "[]"] wu32.get_enc [where v = "ho_uid h" and pre = MAGIC and t = t]
  by (simp_all add: handoff_bytes rd_new_at rd_raw_def MAGIC_def str_bytes_def)

text \<open>The record arrives as it was sent, and whatever its texts are, no record arrives with another uid.\<close>

lemma handoff_roundtrip: "string_ok (ho_username h) \<Longrightarrow> string_ok (ho_peer h) \<Longrightarrow> handoff_decode (handoff_encode h) = Inr h"
proof -
  assume ok: "string_ok (ho_username h)" "string_ok (ho_peer h)"
  let ?p = "MAGIC @ le_bytes 4 (ho_uid h)"
  have "rd_bad rd_string (rd_at ?p (enc_string (ho_username h) @ enc_string (ho_peer h))) =
      Inr (ho_username h, rd_at (?p @ enc_string (ho_username h)) (enc_string (ho_peer h)))"
    using wstring.get_enc [OF ok(1)] by simp
  moreover have "rd_bad rd_string (rd_at (?p @ enc_string (ho_username h)) (enc_string (ho_peer h))) =
      Inr (ho_peer h, rd_at (?p @ enc_string (ho_username h) @ enc_string (ho_peer h)) [])"
    using wstring.get_enc [OF ok(2), of "?p @ enc_string (ho_username h)" "[]"] by simp
  ultimately show ?thesis by (simp add: handoff_decode_def handoff_head rd_finish_at)
qed

lemma handoff_uid: "handoff_decode (handoff_encode h) = Inr h' \<Longrightarrow> ho_uid h' = ho_uid h"
  by (auto simp: handoff_decode_def handoff_head split: sum.splits)

text \<open>
  C8. Only the owner is served: a connection that gets into the pool was identified; its job carries the
  identified uid, which the access policy admits and the daemon may serve; and a session process takes the
  record sent for it only when it runs as that uid. Account lookups return the account they were asked for.
\<close>

theorem only_the_owner_is_served:
  assumes "\<forall>uid user. user_by_uid uid = Inr user \<longrightarrow> ui_uid user = uid"
    "handle_connection cfg user_by_uid groups_of own fd identity desc d = (d', None)"
  shows "\<exists>p j. identity = Some p \<and> dm_queue d' = dm_queue d @ [j] \<and> job_fd j = fd \<and> uid_of j = pi_uid p \<and>
    (own = 0 \<or> own = pi_uid p) \<and> name_of j \<notin> set (ac_deny_users cfg) \<and> ac_min_uid cfg \<le> pi_uid p \<and>
    (ac_allow_users cfg = [] \<and> ac_allow_groups cfg = [] \<or> name_of j \<in> set (ac_allow_users cfg) \<or>
      (\<exists>g\<in>set (groups_of (job_user j)). g \<in> set (ac_allow_groups cfg))) \<and>
    (\<forall>session who f sends. snd (control_connection session who (Inr (handoff_encode (handoff_of j), Some f)) sends) \<noteq> None \<longrightarrow>
      session = pi_uid p)"
proof -
  obtain user where d: "decide cfg user_by_uid groups_of identity = Accept user"
    using assms(2) by (auto simp: handle_connection_def split: decision.splits)
  then obtain p where p: "identity = Some p" "user_by_uid (pi_uid p) = Inr user"
      and a: "access_check cfg (ui_uid user) (ui_name user) (groups_of user) = Inr ()"
    by (auto simp: decide_def split: option.splits sum.splits)
  have u: "ui_uid user = pi_uid p" using assms(1) p(2) by blast
  let ?j = "\<lparr>job_fd = fd, job_user = user, job_peer = desc\<rparr>"
  have s: "submit ?j d = (d', Inr ())" and o: "own = 0 \<or> own = pi_uid p"
    using assms(2) d u by (auto simp: handle_connection_def split: if_splits prod.splits sum.splits)
  have q: "dm_queue d' = dm_queue d @ [?j]" using s by (auto simp: submit_def split: if_splits option.splits)
  have "session = pi_uid p" if c: "snd (control_connection session who (Inr (handoff_encode (handoff_of ?j), Some f)) sends) \<noteq> None"
    for session who f sends
  proof -
    obtain h where "handoff_decode (handoff_encode (handoff_of ?j)) = Inr h" "ho_uid h = session"
      using c by (auto simp: control_connection_def split: sum.splits if_splits)
    then show ?thesis using handoff_uid [of "handoff_of ?j" h] u by (simp add: handoff_of_def uid_of_def)
  qed
  then show ?thesis using p(1) q u o a [unfolded access_check_iff]
    by (intro exI [of _ p] exI [of _ ?j]) (auto simp: uid_of_def name_of_def)
qed

definition example_user :: user_info where "example_user = \<lparr>ui_uid = 1000, ui_name = ''ann''\<rparr>"

definition example_policy :: access_config where
  "example_policy = \<lparr>ac_min_uid = 1000, ac_allow_users = [], ac_allow_groups = [''remote''], ac_deny_users = [''root'']\<rparr>"

theorem only_the_owner_is_served_witness:
  "\<exists>j. dm_queue (fst (handle_connection example_policy (\<lambda>u. if u = 1000 then Inr example_user else Inl ''none'') (\<lambda>u. [''remote'']) 0 9
      (Some \<lparr>pi_uid = 1000, pi_gid = None, pi_pid = None\<rparr>) ''127.0.0.1:50000'' example_daemon)) = [j] \<and> uid_of j = 1000"
proof -
  let ?l = "\<lambda>u. if u = 1000 then Inr example_user else Inl ''none''"
  have n: "handle_connection example_policy ?l (\<lambda>u. [''remote'']) 0 9
      (Some \<lparr>pi_uid = 1000, pi_gid = None, pi_pid = None\<rparr>) ''127.0.0.1:50000'' example_daemon =
      (example_daemon\<lparr>dm_in_flight := [(1000, 1)], dm_queue := [\<lparr>job_fd = 9, job_user = example_user, job_peer = ''127.0.0.1:50000''\<rparr>]\<rparr>, None)"
    by (simp add: handle_connection_def decide_def access_check_def example_policy_def example_user_def submit_def admission_take_def
        example_daemon_def uid_of_def PER_UID_IN_FLIGHT_def HANDOFF_QUEUE_def)
  have "\<forall>uid user. ?l uid = Inr user \<longrightarrow> ui_uid user = uid" by (simp add: example_user_def)
  from only_the_owner_is_served [OF this n] obtain p j where
      j: "Some \<lparr>pi_uid = 1000, pi_gid = None, pi_pid = None\<rparr> = Some p" "uid_of j = pi_uid p" and
      q: "dm_queue (example_daemon\<lparr>dm_in_flight := [(1000, 1)], dm_queue := [\<lparr>job_fd = 9, job_user = example_user, job_peer = ''127.0.0.1:50000''\<rparr>]\<rparr>) =
        dm_queue example_daemon @ [j]"
    by (elim exE conjE) (rule that)
  have "uid_of j = 1000" using j by auto
  moreover have "dm_queue example_daemon = []" by (simp add: example_daemon_def)
  ultimately show ?thesis unfolding n fst_conv q by simp
qed

end
