(* ===== verification/Uri_List.thy ===== *)
theory Uri_List
  imports Text_Lines
begin

text \<open>
  \<open>crates/proto/src/urilist.rs\<close>: \<open>text/uri-list\<close>, the form in which file managers put copied files on the
  clipboard. Texts and Unix paths are lists of bytes.
\<close>

section \<open>Percent coding\<close>

definition MAX_URIS :: nat where "MAX_URIS = 4096"

fun percent_decode :: "string \<Rightarrow> string" where
  "percent_decode [] = []"
| "percent_decode (c # s) =
     (case s of
        h # l # t \<Rightarrow>
          (case (hex_value h, hex_value l) of
             (Some hi, Some lo) \<Rightarrow> if c = CHR ''%'' then char_of (hi * 16 + lo) # percent_decode t else c # percent_decode s
           | _ \<Rightarrow> c # percent_decode s)
      | _ \<Rightarrow> c # percent_decode s)"

definition unreserved :: "char \<Rightarrow> bool" where
  "unreserved c \<longleftrightarrow>
     (let n = of_char c :: nat
      in 65 \<le> n \<and> n \<le> 90 \<or> 97 \<le> n \<and> n \<le> 122 \<or> 48 \<le> n \<and> n \<le> 57 \<or> c \<in> set ''-_.~/'')"

definition percent_encode :: "string \<Rightarrow> string" where
  "percent_encode bs = concat (map (\<lambda>b. if unreserved b then [b] else CHR ''%'' # hex_digits 2 (of_char b)) bs)"

section \<open>Lists\<close>

definition ascii_lower :: "char \<Rightarrow> char" where
  "ascii_lower c = (let n = of_char c :: nat in if 65 \<le> n \<and> n \<le> 90 then char_of (n + 32) else c)"

definition eq_ignore_ascii_case :: "string \<Rightarrow> string \<Rightarrow> bool" where
  "eq_ignore_ascii_case a b \<longleftrightarrow> map ascii_lower a = map ascii_lower b"

definition strip_prefix :: "string \<Rightarrow> string \<Rightarrow> string option" where
  "strip_prefix pre s = (if starts_with s pre then Some (drop (length pre) s) else None)"

text \<open>The path of one line, if it is a \<open>file\<close> URI of this machine.\<close>

definition line_path :: "string \<Rightarrow> string option" where
  "line_path line =
     (let line = trim line
      in if line = [] \<or> starts_with line ''#'' then None
         else case strip_prefix ''file://'' line of
           None \<Rightarrow> None
         | Some rest \<Rightarrow>
             if CHR ''/'' \<in> set rest
             then let host = takeWhile ((\<noteq>) (CHR ''/'')) rest
                  in if host \<noteq> [] \<and> \<not> eq_ignore_ascii_case host ''localhost'' then None
                     else Some (percent_decode (drop (length host) rest))
             else None)"

fun uri_lines :: "string list \<Rightarrow> string list \<Rightarrow> string list" where
  "uri_lines out [] = out"
| "uri_lines out (l # ls) =
     (case line_path l of
        None \<Rightarrow> uri_lines out ls
      | Some p \<Rightarrow> let out = out @ [p] in if MAX_URIS \<le> length out then out else uri_lines out ls)"

definition parse_uris :: "string \<Rightarrow> string list" where
  "parse_uris list = uri_lines [] (split_lines list)"

fun gnome_lines :: "string list \<Rightarrow> string list \<Rightarrow> string list option" where
  "gnome_lines paths [] = Some paths"
| "gnome_lines paths (l # ls) =
     (if MAX_URIS \<le> length paths \<or> l = [] \<or> CHR 0x00 \<in> set l then None
      else case parse_uris l of [p] \<Rightarrow> gnome_lines (paths @ [p]) ls | _ \<Rightarrow> None)"

definition parse_gnome_text :: "string \<Rightarrow> string list option" where
  "parse_gnome_text txt =
     (case split_lines txt of
        head # action # ls \<Rightarrow>
          if head \<noteq> ''x-special/nautilus-clipboard'' \<or> action \<noteq> ''copy'' \<and> action \<noteq> ''cut'' then None
          else (case gnome_lines [] ls of None \<Rightarrow> None | Some paths \<Rightarrow> if paths = [] then None else Some paths)
      | _ \<Rightarrow> None)"

definition uri_line :: "string \<Rightarrow> string" where
  "uri_line p = ''file://'' @ percent_encode p"

definition build_uris :: "string list \<Rightarrow> string" where
  "build_uris paths = concat (map (\<lambda>p. uri_line p @ [CHR 0x0D, CHR 0x0A]) paths)"

text \<open>The part after the last separator of either kind, unless it names no file.\<close>

definition base_name :: "string \<Rightarrow> string option" where
  "base_name path =
     (let name = rev (takeWhile (\<lambda>c. \<not> path_separator c) (rev path))
      in if name = '''' \<or> name = ''.'' \<or> name = ''..'' then None else Some name)"

section \<open>Round trips\<close>

lemma decode_escape:
  "n < 256 \<Longrightarrow> percent_decode (CHR ''%'' # hex_digits 2 n @ t) = char_of n # percent_decode t"
  by (simp add: hex_digits_numeral hex_char_value div_less_iff_less_mult)

lemma hex_value_percent [simp]: "hex_value (CHR ''%'') = None" "\<not> unreserved (CHR ''%'')"
  by (simp_all add: hex_value_def unreserved_def)

lemma decode_other: "c \<noteq> CHR ''%'' \<Longrightarrow> percent_decode (c # t) = c # percent_decode t"
  by (auto split: list.splits option.splits)

lemma percent_roundtrip: "percent_decode (percent_encode bs) = bs"
proof (induction bs)
  case (Cons b bs)
  show ?case
  proof (cases "unreserved b")
    case True
    then have "b \<noteq> CHR ''%''" by auto
    then show ?thesis using True Cons by (simp add: percent_encode_def decode_other del: percent_decode.simps)
  next
    case False
    then show ?thesis using Cons decode_escape [of "of_char b" "percent_encode bs"]
      by (simp add: percent_encode_def del: percent_decode.simps)
  qed
qed (simp add: percent_encode_def)

lemma unreserved_graphic: "unreserved c \<Longrightarrow> graphic c"
  by (auto simp: unreserved_def graphic_def Let_def)

lemma encode_graphic: "list_all graphic (percent_encode bs)"
proof -
  have "graphic (CHR ''%'')" by (simp add: graphic_def)
  then show ?thesis
    by (auto simp: percent_encode_def list_all_iff unreserved_graphic dest: hex_digits_chars split: if_splits)
qed

lemma line_path_uri_line:
  assumes "starts_with p ''/''"
  shows "line_path (uri_line p) = Some p"
proof -
  obtain q where p: "p = CHR ''/'' # q" using assms by (cases p) (auto simp: starts_with_def)
  have e: "percent_encode p = CHR ''/'' # percent_encode q" by (simp add: p percent_encode_def unreserved_def)
  have "graphic (last (uri_line p))" using encode_graphic [of p] e by (simp add: uri_line_def list_all_iff)
  moreover have "graphic (CHR ''f'')" by (simp add: graphic_def)
  ultimately have t: "trim (uri_line p) = uri_line p"
    by (intro trim_graphic) (simp_all add: uri_line_def e)
  show ?thesis
    using percent_roundtrip [of p] unfolding line_path_def t Let_def
    by (simp add: uri_line_def strip_prefix_def starts_with_def e del: percent_decode.simps)
qed

lemma uri_lines_paths:
  "length out + length ps \<le> MAX_URIS \<Longrightarrow> \<forall>p\<in>set ps. starts_with p ''/'' \<Longrightarrow> uri_lines out (map uri_line ps) = out @ ps"
proof (induction ps arbitrary: out)
  case (Cons p ps)
  have "MAX_URIS \<le> Suc (length out) \<Longrightarrow> ps = []" using Cons.prems(1) by (cases ps) auto
  then show ?case using Cons by (auto simp: line_path_uri_line Let_def)
qed simp

lemma no_newline: "list_all graphic s \<Longrightarrow> CHR 0x0A \<notin> set s \<and> CHR 0x0D \<notin> set s"
  by (auto simp: list_all_iff graphic_def)

lemma lines_of_built: "split_lines (build_uris ps) = map uri_line ps"
proof (induction ps)
  case (Cons p ps)
  have "list_all graphic (uri_line p)" using encode_graphic [of p] by (simp add: uri_line_def) (simp add: graphic_def)
  then have "split_lines (uri_line p @ [CHR 0x0D] @ [CHR 0x0A] @ build_uris ps) = uri_line p # split_lines (build_uris ps)"
    using no_newline by (intro split_lines_crlf) auto
  then show ?case using Cons by (simp add: build_uris_def)
qed (simp add: build_uris_def)

text \<open>
  Copied files arrive as they were listed: up to 4096 absolute paths, whatever bytes they are made of, come
  back from the list built of them, in order.
\<close>

theorem uri_list_roundtrip:
  assumes "length ps \<le> MAX_URIS" "\<forall>p\<in>set ps. starts_with p ''/''"
  shows "parse_uris (build_uris ps) = ps"
  unfolding parse_uris_def lines_of_built using uri_lines_paths [of "[]" ps] assms by simp

theorem uri_list_roundtrip_witness:
  "parse_uris (build_uris [''/tmp/with space.txt'', ''/tmp/100%#.txt'']) = [''/tmp/with space.txt'', ''/tmp/100%#.txt'']"
  by (rule uri_list_roundtrip) (simp_all add: MAX_URIS_def starts_with_def)

lemma uri_lines_length: "length out < MAX_URIS \<Longrightarrow> length (uri_lines out ls) \<le> MAX_URIS"
  by (induction out ls rule: uri_lines.induct) (auto simp: Let_def not_le split: option.splits)

text \<open>Whatever a clipboard holds, no more than 4096 paths come out of it.\<close>

theorem uri_lists_are_capped: "length (parse_uris list) \<le> MAX_URIS"
  unfolding parse_uris_def by (rule uri_lines_length) (simp add: MAX_URIS_def)

lemma base_name_safe: "base_name p = Some n \<Longrightarrow> n \<noteq> '''' \<and> n \<noteq> ''.'' \<and> n \<noteq> ''..'' \<and> (\<forall>c\<in>set n. \<not> path_separator c)"
  by (auto simp: base_name_def Let_def split: if_splits dest: set_takeWhileD)

end
