(* ===== verification/Clipboard_Batch.thy ===== *)
theory Clipboard_Batch
  imports Uri_List Message
begin

text \<open>
  \<open>crates/proto/src/clipboard_batch.rs\<close>: one copy of files through the clipboard. Names are made safe for
  every platform and kept apart, then a batch of transfers is planned, requested and settled.
\<close>

section \<open>Names\<close>

definition MAX_CONCURRENT_CLIPBOARD_FILES :: nat where "MAX_CONCURRENT_CLIPBOARD_FILES = 8"
definition MAX_STAGED_NAME :: nat where "MAX_STAGED_NAME = 200"

definition FORBIDDEN :: "char list" where
  "FORBIDDEN = [CHR ''<'', CHR ''>'', CHR '':'', CHR 0x22, CHR ''/'', CHR 0x5C, CHR ''|'', CHR ''?'', CHR ''*'']"

definition superscripts :: "string list" where
  "superscripts = [[CHR 0xC2, CHR 0xB9], [CHR 0xC2, CHR 0xB2], [CHR 0xC2, CHR 0xB3]]"

definition RESERVED :: "string list" where
  "RESERVED =
     [''CON'', ''PRN'', ''AUX'', ''NUL''] @
     map (\<lambda>d. ''COM'' @ [d]) ''123456789'' @ map (\<lambda>s. ''COM'' @ s) superscripts @
     map (\<lambda>d. ''LPT'' @ [d]) ''123456789'' @ map (\<lambda>s. ''LPT'' @ s) superscripts"

definition ascii_control :: "char \<Rightarrow> bool" where
  "ascii_control c \<longleftrightarrow> (of_char c :: nat) < 32 \<or> (of_char c :: nat) = 127"

text \<open>A control character is an ASCII one or one of \<open>U+0080\<close> to \<open>U+009F\<close>, in UTF-8 \<open>C2\<close> and a byte.\<close>

definition c1_control :: "char \<Rightarrow> char \<Rightarrow> bool" where
  "c1_control c d \<longleftrightarrow> c = CHR 0xC2 \<and> 128 \<le> (of_char d :: nat) \<and> (of_char d :: nat) \<le> 159"

fun replace_chars :: "string \<Rightarrow> string" where
  "replace_chars (c # d # s) =
     (if c1_control c d then CHR ''_'' # replace_chars s
      else (if ascii_control c \<or> c \<in> set FORBIDDEN then CHR ''_'' else c) # replace_chars (d # s))"
| "replace_chars [c] = [if ascii_control c \<or> c \<in> set FORBIDDEN then CHR ''_'' else c]"
| "replace_chars [] = []"

text \<open>\<open>Path::extension\<close> and \<open>Path::file_stem\<close> of a name without separators.\<close>

definition after_dot :: "string \<Rightarrow> string" where "after_dot s = rev (takeWhile ((\<noteq>) (CHR ''.'')) (rev s))"

definition before_dot :: "string \<Rightarrow> string" where "before_dot s = take (length s - length (after_dot s) - 1) s"

definition extension :: "string \<Rightarrow> string option" where
  "extension s = (if s = '''' \<or> s = ''.'' \<or> s = ''..'' \<or> CHR ''.'' \<notin> set s \<or> before_dot s = [] then None else Some (after_dot s))"

definition file_stem :: "string \<Rightarrow> string option" where
  "file_stem s =
     (if s = '''' \<or> s = ''.'' \<or> s = ''..'' then None
      else if CHR ''.'' \<notin> set s \<or> before_dot s = [] then Some s else Some (before_dot s))"

definition shorten :: "string \<Rightarrow> string" where
  "shorten name =
     (if MAX_STAGED_NAME < length name
      then let ext = (case extension name of None \<Rightarrow> '''' | Some e \<Rightarrow> if length e \<le> 16 then CHR ''.'' # e else '''');
               cut = cut_at_boundary (str_bytes name) (MAX_STAGED_NAME - length ext)
           in take cut name @ ext
      else name)"

definition trim_end_chars :: "char set \<Rightarrow> string \<Rightarrow> string" where
  "trim_end_chars cs s = rev (dropWhile (\<lambda>c. c \<in> cs) (rev s))"

definition first_stem :: "string \<Rightarrow> string" where
  "first_stem name = trim_end_chars {CHR '' ''} (takeWhile ((\<noteq>) (CHR ''.'')) name)"

definition safe_file_name :: "string \<Rightarrow> string" where
  "safe_file_name raw =
     (let name = shorten (replace_chars raw);
          trimmed = trim_end_chars {CHR '' '', CHR ''.''} name;
          name = (if trimmed = [] then ''file'' else trimmed)
      in if list_ex (eq_ignore_ascii_case (first_stem name)) RESERVED then CHR ''_'' # name else name)"

text \<open>
  \<open>key\<close> is \<open>collision_key\<close>, lower case and NFC of the libraries. The search for a free number takes one
  step more than there are names taken; the outer \<open>None\<close> would be a search that goes on.
\<close>

definition numbered :: "string \<Rightarrow> string \<Rightarrow> nat \<Rightarrow> string" where
  "numbered stem ext n = stem @ '' ('' @ decimal n @ '')'' @ ext"

primrec first_free :: "nat \<Rightarrow> (string \<Rightarrow> string) \<Rightarrow> string \<Rightarrow> string \<Rightarrow> nat \<Rightarrow> string set \<Rightarrow> (string set \<times> string) option" where
  "first_free 0 key stem ext n names = None"
| "first_free (Suc k) key stem ext n names =
     (let candidate = numbered stem ext n
      in if key candidate \<notin> names then Some (insert (key candidate) names, candidate)
         else first_free k key stem ext (n + 1) names)"

definition unique_name :: "(string \<Rightarrow> string) \<Rightarrow> string set \<Rightarrow> string \<Rightarrow> (string set \<times> string) option" where
  "unique_name key names name =
     (if key name \<notin> names then Some (insert (key name) names, name)
      else let stem = (case file_stem name of Some s \<Rightarrow> s | None \<Rightarrow> name);
               ext = (case extension name of Some e \<Rightarrow> CHR ''.'' # e | None \<Rightarrow> '''')
           in first_free (card names + 1) key stem ext 2 names)"

section \<open>The batch\<close>

record batch =
  bt_queued :: "(string \<times> string \<times> nat) list"
  bt_live :: "(u64, nat) hmap"
  bt_slots :: "string option list"

definition dir_join :: "string \<Rightarrow> string \<Rightarrow> string" where
  "dir_join dir name = (if dir = [] \<or> last dir = CHR ''/'' then dir @ name else dir @ ''/'' @ name)"

fun plan_files :: "(string \<Rightarrow> string) \<Rightarrow> string \<Rightarrow> nat \<Rightarrow> string set \<Rightarrow> string list \<Rightarrow> (string \<times> string \<times> nat) list option" where
  "plan_files key dir slot names [] = Some []"
| "plan_files key dir slot names (p # ps) =
     (let base = (case base_name p of Some n \<Rightarrow> n | None \<Rightarrow> '''')
      in case unique_name key names (safe_file_name base) of
           None \<Rightarrow> None
         | Some (names, name) \<Rightarrow> map_option ((#) (p, dir_join dir name, slot)) (plan_files key dir (slot + 1) names ps))"

definition batch_new :: "(string \<Rightarrow> string) \<Rightarrow> string \<Rightarrow> file_entry list \<Rightarrow> batch option" where
  "batch_new key dir files =
     map_option (\<lambda>q. \<lparr>bt_queued = q, bt_live = [], bt_slots = replicate (length files) None\<rparr>)
       (plan_files key dir 0 {} (map fe_path files))"

definition with_paths :: "(string \<times> string) list \<Rightarrow> batch" where
  "with_paths files =
     \<lparr>bt_queued = map (\<lambda>(slot, remote, dest). (remote, dest, slot)) (enumerate 0 files), bt_live = [],
      bt_slots = replicate (length files) None\<rparr>"

definition batch_total :: "batch \<Rightarrow> nat" where "batch_total b = length (bt_slots b)"

definition next_request :: "batch \<Rightarrow> batch \<times> (string \<times> string \<times> nat) option" where
  "next_request b =
     (if MAX_CONCURRENT_CLIPBOARD_FILES \<le> length (bt_live b) then (b, None)
      else case bt_queued b of [] \<Rightarrow> (b, None) | x # q \<Rightarrow> (b\<lparr>bt_queued := q\<rparr>, Some x))"

definition requested :: "nat \<Rightarrow> u64 \<Rightarrow> batch \<Rightarrow> batch" where
  "requested slot i b = b\<lparr>bt_live := hm_insert i slot (bt_live b)\<rparr>"

text \<open>The outer \<open>None\<close> is an index out of the slots.\<close>

definition resolve :: "u64 \<Rightarrow> string option \<Rightarrow> batch \<Rightarrow> (batch \<times> bool) option" where
  "resolve i path b =
     (case hm_get (bt_live b) i of
        None \<Rightarrow> Some (b, False)
      | Some slot \<Rightarrow>
          let b = b\<lparr>bt_live := hm_remove i (bt_live b)\<rparr>
          in case path of
               None \<Rightarrow> Some (b, True)
             | Some p \<Rightarrow> if slot < length (bt_slots b) then Some (b\<lparr>bt_slots := (bt_slots b)[slot := Some p]\<rparr>, True) else None)"

definition batch_done :: "batch \<Rightarrow> bool" where "batch_done b \<longleftrightarrow> bt_queued b = [] \<and> bt_live b = []"

definition into_files :: "batch \<Rightarrow> string list" where "into_files b = List.map_filter id (bt_slots b)"


section \<open>Staged names\<close>

fun no_c1 :: "string \<Rightarrow> bool" where
  "no_c1 (c # d # s) \<longleftrightarrow> \<not> c1_control c d \<and> no_c1 (d # s)"
| "no_c1 [c] \<longleftrightarrow> True"
| "no_c1 [] \<longleftrightarrow> True"

definition plain_char :: "char \<Rightarrow> bool" where "plain_char c \<longleftrightarrow> \<not> ascii_control c \<and> c \<notin> set FORBIDDEN"

definition reserved :: "string \<Rightarrow> bool" where
  "reserved name \<longleftrightarrow> list_ex (eq_ignore_ascii_case (first_stem name)) RESERVED"

text \<open>A name every platform can create as it is spelled.\<close>

definition name_ok :: "string \<Rightarrow> bool" where
  "name_ok s \<longleftrightarrow> s \<noteq> [] \<and> list_all plain_char s \<and> no_c1 s \<and> last s \<notin> {CHR '' '', CHR ''.''} \<and> \<not> reserved s"

lemma plain_simps [simp]:
  "plain_char (CHR ''_'')" "plain_char (CHR ''.'')" "plain_char (CHR '' '')" "plain_char (CHR ''('')" "plain_char (CHR '')'')"
  "plain_char (CHR ''f'')" "plain_char (CHR ''i'')" "plain_char (CHR ''l'')" "plain_char (CHR ''e'')"
  by (simp_all add: plain_char_def ascii_control_def FORBIDDEN_def)

lemma plain_digits: "list_all plain_char (decimal n)"
proof -
  have "plain_char c" if "48 \<le> (of_char c :: nat)" "(of_char c :: nat) \<le> 57" for c
    using that by (auto simp: plain_char_def ascii_control_def FORBIDDEN_def)
  then show ?thesis using decimal_digits(1) [of n] by (auto simp: list_all_iff is_digit_def)
qed

lemma low_follows [simp]: "(of_char d :: nat) < 128 \<Longrightarrow> \<not> c1_control c d"
  by (simp add: c1_control_def)

lemma no_c1_append: "no_c1 a \<Longrightarrow> no_c1 b \<Longrightarrow> (b \<noteq> [] \<Longrightarrow> (of_char (hd b) :: nat) < 128) \<Longrightarrow> no_c1 (a @ b)"
proof (induction a rule: no_c1.induct)
  case (2 c)
  then show ?case by (cases b) auto
qed auto

lemma no_c1_prefix: "no_c1 (a @ b) \<Longrightarrow> no_c1 a"
  by (induction a rule: no_c1.induct) auto

lemma replaced_plain: "list_all plain_char (replace_chars s)"
proof -
  have "plain_char (if ascii_control c \<or> c \<in> set FORBIDDEN then CHR ''_'' else c)" for c
    using plain_simps(1) by (simp add: plain_char_def)
  then show ?thesis by (induction s rule: replace_chars.induct) simp_all
qed

lemma replaced_hd: "hd (replace_chars (d # s)) = d \<or> hd (replace_chars (d # s)) = CHR ''_''"
  by (cases s) auto

lemma replaced_not_empty: "replace_chars (d # s) \<noteq> []"
  by (cases s) auto

lemma replaced_no_c1: "no_c1 (replace_chars s)"
proof (induction s rule: replace_chars.induct)
  case (1 c d s)
  show ?case
  proof (cases "c1_control c d")
    case True
    then show ?thesis using 1 by (cases "replace_chars s") (auto simp: c1_control_def)
  next
    case False
    obtain x xs where x: "replace_chars (d # s) = x # xs" using replaced_not_empty by (cases "replace_chars (d # s)") blast
    have "\<not> c1_control c x" using replaced_hd [of d s] False x by (auto simp: c1_control_def)
    then show ?thesis using 1 False x by (auto simp: c1_control_def)
  qed
qed auto

lemma after_dot_end: "\<exists>b. s = b @ after_dot s"
proof -
  have "rev s = takeWhile ((\<noteq>) (CHR ''.'')) (rev s) @ dropWhile ((\<noteq>) (CHR ''.'')) (rev s)" by simp
  then have "s = rev (dropWhile ((\<noteq>) (CHR ''.'')) (rev s)) @ after_dot s" unfolding after_dot_def by (metis rev_append rev_rev_ident)
  then show ?thesis by blast
qed

lemma split_dot: "CHR ''.'' \<in> set s \<Longrightarrow> s = before_dot s @ CHR ''.'' # after_dot s"
proof -
  assume "CHR ''.'' \<in> set s"
  then have "dropWhile ((\<noteq>) (CHR ''.'')) (rev s) \<noteq> []" by (auto simp: dropWhile_eq_Nil_conv)
  then obtain t where t: "dropWhile ((\<noteq>) (CHR ''.'')) (rev s) = CHR ''.'' # t"
    using hd_dropWhile [of "(\<noteq>) (CHR ''.'')" "rev s"] by (cases "dropWhile ((\<noteq>) (CHR ''.'')) (rev s)") auto
  have "rev s = rev (after_dot s) @ CHR ''.'' # t"
    using takeWhile_dropWhile_id [of "(\<noteq>) (CHR ''.'')" "rev s"] t by (simp add: after_dot_def)
  then have s: "s = rev t @ CHR ''.'' # after_dot s" by (metis append.assoc append_Cons append_Nil rev.simps(2) rev_append rev_rev_ident)
  have "length s = length t + 1 + length (after_dot s)" using arg_cong [OF s, of length] by simp
  then have "before_dot s = take (length t) s" by (simp add: before_dot_def)
  also have "\<dots> = rev t" by (subst s) simp
  finally show ?thesis using s by simp
qed

lemma plain_sub: "list_all plain_char s \<Longrightarrow> set t \<subseteq> insert (CHR ''.'') (set s) \<Longrightarrow> list_all plain_char t"
  by (auto simp: list_all_iff dest!: subsetD)

lemma no_c1_suffix: "no_c1 (a @ b) \<Longrightarrow> no_c1 b"
proof (induction a)
  case (Cons x a)
  then show ?case by (cases "a @ b") auto
qed simp

lemma extension_parts: "extension s = Some e \<Longrightarrow> s = before_dot s @ CHR ''.'' # e \<and> before_dot s \<noteq> [] \<and> file_stem s = Some (before_dot s)"
  using split_dot [of s] by (auto simp: extension_def file_stem_def split: if_splits)

lemma shorten_plain:
  assumes "list_all plain_char s" "no_c1 s"
  shows "list_all plain_char (shorten s)" "no_c1 (shorten s)"
proof -
  define ext where "ext = (case extension s of None \<Rightarrow> '''' | Some e \<Rightarrow> if length e \<le> 16 then CHR ''.'' # e else '''')"
  have e: "no_c1 ext \<and> set ext \<subseteq> insert (CHR ''.'') (set s)"
  proof (cases "extension s")
    case (Some e)
    have s: "s = before_dot s @ CHR ''.'' # e" using extension_parts [OF Some] by blast
    then have "set e \<subseteq> set s" by (metis Un_iff list.set_intros(2) set_append subsetI)
    moreover have "no_c1 (CHR ''.'' # e)" using assms(2) s no_c1_suffix by metis
    ultimately show ?thesis by (auto simp: ext_def Some)
  qed (simp add: ext_def)
  have h: "ext \<noteq> [] \<Longrightarrow> hd ext = CHR ''.''" by (auto simp: ext_def split: option.splits if_splits)
  have t: "no_c1 (take k s)" for k using no_c1_prefix [of "take k s" "drop k s"] assms(2) by simp
  have c: "shorten s = s \<or> (\<exists>k. shorten s = take k s @ ext)"
    by (auto simp: shorten_def ext_def Let_def)
  show "no_c1 (shorten s)"
  proof (cases "shorten s = s")
    case False
    then obtain k where k: "shorten s = take k s @ ext" using c by blast
    show ?thesis unfolding k by (rule no_c1_append) (use t e h in auto)
  qed (use assms in simp)
  have "set (shorten s) \<subseteq> insert (CHR ''.'') (set s)" using c e by (auto dest: in_set_takeD)
  then show "list_all plain_char (shorten s)" by (rule plain_sub [OF assms(1)])
qed


lemma trim_end_chars_prefix: "\<exists>t. s = trim_end_chars cs s @ t \<and> set t \<subseteq> cs"
proof -
  have "rev s = takeWhile (\<lambda>c. c \<in> cs) (rev s) @ dropWhile (\<lambda>c. c \<in> cs) (rev s)" by simp
  then have "s = trim_end_chars cs s @ rev (takeWhile (\<lambda>c. c \<in> cs) (rev s))"
    unfolding trim_end_chars_def by (metis rev_append rev_rev_ident)
  moreover have "set (rev (takeWhile (\<lambda>c. c \<in> cs) (rev s))) \<subseteq> cs" by (auto dest: set_takeWhileD)
  ultimately show ?thesis by blast
qed

lemma trim_end_chars_last: "trim_end_chars cs s \<noteq> [] \<Longrightarrow> last (trim_end_chars cs s) \<notin> cs"
proof -
  assume "trim_end_chars cs s \<noteq> []"
  then have d: "dropWhile (\<lambda>c. c \<in> cs) (rev s) \<noteq> []" by (simp only: trim_end_chars_def rev_is_Nil_conv simp_thms)
  show ?thesis unfolding trim_end_chars_def last_rev by (rule hd_dropWhile [OF d])
qed

lemma trim_end_chars_keeps: "last s \<notin> cs \<Longrightarrow> s \<noteq> [] \<Longrightarrow> trim_end_chars cs s = s"
  by (cases s rule: rev_cases) (simp_all add: trim_end_chars_def)

lemma ascii_lower_mark: "ascii_lower c = CHR ''_'' \<or> ascii_lower c = CHR ''('' \<Longrightarrow> c = ascii_lower c"
proof -
  assume a: "ascii_lower c = CHR ''_'' \<or> ascii_lower c = CHR ''(''"
  have "\<not> (65 \<le> (of_char c :: nat) \<and> (of_char c :: nat) \<le> 90)"
  proof
    assume u: "65 \<le> (of_char c :: nat) \<and> (of_char c :: nat) \<le> 90"
    then have "(of_char (ascii_lower c) :: nat) = of_char c + 32" by (simp add: ascii_lower_def Let_def)
    then show False using u a by auto
  qed
  then show ?thesis by (auto simp: ascii_lower_def Let_def)
qed

lemma reserved_names: "r \<in> set RESERVED \<Longrightarrow> list_all (\<lambda>c. ascii_lower c \<noteq> CHR ''_'' \<and> ascii_lower c \<noteq> CHR ''('') r \<and> r \<noteq> []"
proof -
  assume r: "r \<in> set RESERVED"
  have "list_all (\<lambda>r. CHR ''_'' \<notin> set r \<and> CHR ''('' \<notin> set r \<and> r \<noteq> []) RESERVED"
    by (simp add: RESERVED_def superscripts_def)
  then have "CHR ''_'' \<notin> set r \<and> CHR ''('' \<notin> set r \<and> r \<noteq> []" using r by (simp add: list_all_iff)
  moreover have "ascii_lower c \<noteq> CHR ''_'' \<and> ascii_lower c \<noteq> CHR ''(''" if "c \<in> set r" for c
    using ascii_lower_mark [of c] that calculation by metis
  ultimately show ?thesis by (simp add: list_all_iff)
qed

lemma ascii_lower_marks: "ascii_lower (CHR ''_'') = CHR ''_''" "ascii_lower (CHR ''('') = CHR ''(''"
  by code_simp+

lemma not_reserved: "c \<in> set (first_stem name) \<Longrightarrow> c = CHR ''_'' \<or> c = CHR ''('' \<Longrightarrow> \<not> reserved name"
proof
  assume c: "c \<in> set (first_stem name)" "c = CHR ''_'' \<or> c = CHR ''(''" and "reserved name"
  then obtain r where r: "r \<in> set RESERVED" "map ascii_lower (first_stem name) = map ascii_lower r"
    by (auto simp: reserved_def list_ex_iff eq_ignore_ascii_case_def)
  have "ascii_lower c \<in> set (map ascii_lower r)" unfolding r(2) [symmetric] using c(1) by simp
  then show False using reserved_names [OF r(1)] c(2) ascii_lower_marks by (auto simp: list_all_iff)
qed

lemma trim_keeps_set: "c \<in> set s \<Longrightarrow> c \<notin> cs \<Longrightarrow> c \<in> set (trim_end_chars cs s)"
proof -
  assume c: "c \<in> set s" "c \<notin> cs"
  obtain t where "s = trim_end_chars cs s @ t" "set t \<subseteq> cs" using trim_end_chars_prefix by blast
  then show ?thesis using c by (metis Un_iff set_append subsetD)
qed

lemma safe_file_name_ok: "name_ok (safe_file_name raw)"
proof -
  let ?n = "shorten (replace_chars raw)"
  let ?t = "trim_end_chars {CHR '' '', CHR ''.''} ?n"
  let ?m = "if ?t = [] then ''file'' else ?t"
  have n: "list_all plain_char ?n" "no_c1 ?n" using shorten_plain replaced_plain replaced_no_c1 by blast+
  obtain u where u: "?n = ?t @ u" using trim_end_chars_prefix by blast
  have t: "list_all plain_char ?t" "no_c1 ?t"
    using n(1) u plain_sub [OF n(1), of ?t] no_c1_prefix [of ?t u] n(2) by (simp_all, metis Un_upper1 set_append subset_insertI2)
  have m: "?m \<noteq> []" "list_all plain_char ?m" "no_c1 ?m" "last ?m \<notin> {CHR '' '', CHR ''.''}"
    using t trim_end_chars_last [of "{CHR '' '', CHR ''.''}" ?n] by (auto simp: c1_control_def)
  have s: "safe_file_name raw = (if reserved ?m then CHR ''_'' # ?m else ?m)"
    by (simp add: safe_file_name_def Let_def reserved_def)
  show ?thesis
  proof (cases "reserved ?m")
    case True
    have "CHR ''_'' \<in> set (first_stem (CHR ''_'' # ?m))"
      unfolding first_stem_def by (rule trim_keeps_set) simp_all
    then have "\<not> reserved (CHR ''_'' # ?m)" using not_reserved by blast
    moreover have "no_c1 (CHR ''_'' # ?m)" using m(1,3) by (cases ?m) (auto simp: c1_control_def)
    ultimately show ?thesis using m True unfolding s name_ok_def by simp
  next
    case False
    then show ?thesis using m unfolding s name_ok_def by simp
  qed
qed

lemma safe_file_name_short: "length (safe_file_name raw) \<le> MAX_STAGED_NAME + 1"
proof -
  let ?n = "shorten (replace_chars raw)"
  have l: "length ?n \<le> MAX_STAGED_NAME"
  proof (cases "MAX_STAGED_NAME < length (replace_chars raw)")
    case True
    define ext where "ext = (case extension (replace_chars raw) of None \<Rightarrow> '''' | Some e \<Rightarrow> if length e \<le> 16 then CHR ''.'' # e else '''')"
    define cut where "cut = cut_at_boundary (str_bytes (replace_chars raw)) (MAX_STAGED_NAME - length ext)"
    have "length ext \<le> 17" by (simp add: ext_def split: option.splits)
    moreover have "cut \<le> MAX_STAGED_NAME - length ext" unfolding cut_def using cut_at_boundary by blast
    moreover have "?n = take cut (replace_chars raw) @ ext" using True by (simp add: shorten_def ext_def cut_def Let_def)
    ultimately show ?thesis by (simp add: MAX_STAGED_NAME_def)
  qed (simp add: shorten_def)
  have "length (trim_end_chars {CHR '' '', CHR ''.''} ?n) \<le> length ?n"
    using trim_end_chars_prefix [of ?n "{CHR '' '', CHR ''.''}"] by (metis length_append le_add1)
  then show ?thesis using l by (auto simp: safe_file_name_def Let_def MAX_STAGED_NAME_def)
qed

text \<open>A number in brackets before the extension keeps a name usable.\<close>

lemma numbered_ok:
  assumes "name_ok s"
  defines "stem \<equiv> (case file_stem s of Some x \<Rightarrow> x | None \<Rightarrow> s)"
    and "ext \<equiv> (case extension s of Some e \<Rightarrow> CHR ''.'' # e | None \<Rightarrow> '''')"
  shows "name_ok (numbered stem ext n)"
proof -
  have s: "s \<noteq> []" "list_all plain_char s" "no_c1 s" "last s \<notin> {CHR '' '', CHR ''.''}" "\<not> reserved s" "s \<noteq> ''.''" "s \<noteq> ''..''"
    using assms(1) by (auto simp: name_ok_def)
  have parts: "s = stem @ ext"
  proof (cases "extension s")
    case None
    then have "file_stem s = Some s" using s by (auto simp: extension_def file_stem_def split: if_splits)
    then show ?thesis by (simp add: stem_def ext_def None)
  next
    case (Some e)
    then show ?thesis using extension_parts [OF Some] by (simp add: stem_def ext_def)
  qed
  have e: "ext = [] \<or> hd ext = CHR ''.''" by (auto simp: ext_def split: option.splits)
  have p: "list_all plain_char stem" "list_all plain_char ext" "no_c1 stem" "no_c1 ext"
    using s(2) no_c1_prefix [OF s(3) [unfolded parts]] no_c1_suffix [OF s(3) [unfolded parts]] by (simp_all add: parts)
  let ?d = "decimal n @ '')''"
  have d: "no_c1 (decimal n)"
  proof -
    have "no_c1 x" if "list_all is_digit x" for x
      using that by (induction x rule: no_c1.induct) (auto simp: is_digit_def)
    then show ?thesis using decimal_digits(1) by blast
  qed
  have lo: "(of_char (CHR '' '') :: nat) < 128" "(of_char (CHR ''.'') :: nat) < 128" "(of_char (CHR '')'') :: nat) < 128" by simp_all
  have b: "no_c1 ('' ('' @ ?d)"
  proof (rule no_c1_append)
    show "no_c1 ?d" by (rule no_c1_append [OF d]) simp_all
    have "is_digit (hd (decimal n))" using decimal_digits [of n] by (cases "decimal n") auto
    then show "?d \<noteq> [] \<Longrightarrow> (of_char (hd ?d) :: nat) < 128" using decimal_digits(2) [of n] by (simp add: is_digit_def)
  qed (simp add: c1_control_def)
  have "no_c1 (stem @ '' ('' @ ?d)" by (rule no_c1_append [OF p(3) b]) simp
  then have "no_c1 ((stem @ '' ('' @ ?d) @ ext)" by (rule no_c1_append [OF _ p(4)]) (use e in auto)
  then have "no_c1 (numbered stem ext n)" by (simp add: numbered_def)
  moreover have "list_all plain_char (numbered stem ext n)" using p plain_digits by (simp add: numbered_def)
  moreover have "last (numbered stem ext n) \<notin> {CHR '' '', CHR ''.''}"
    using s(4) parts by (cases "ext = []") (simp_all add: numbered_def)
  moreover have "\<not> reserved (numbered stem ext n)"
  proof (cases "CHR ''.'' \<in> set stem")
    case True
    then have "takeWhile ((\<noteq>) (CHR ''.'')) (stem @ x) = takeWhile ((\<noteq>) (CHR ''.'')) stem" for x
      by (intro takeWhile_append1) auto
    then have "first_stem (numbered stem ext n) = first_stem s" by (simp add: first_stem_def numbered_def parts)
    then show ?thesis using s(5) by (simp add: reserved_def)
  next
    case False
    have "CHR ''('' \<in> set (takeWhile ((\<noteq>) (CHR ''.'')) (numbered stem ext n))"
      using False by (simp add: numbered_def takeWhile_append)
    then have "CHR ''('' \<in> set (first_stem (numbered stem ext n))" unfolding first_stem_def by (rule trim_keeps_set) simp
    then show ?thesis using not_reserved by blast
  qed
  ultimately show ?thesis by (simp add: name_ok_def numbered_def)
qed


section \<open>Planning\<close>

text \<open>Lower case and NFC leave digits alone, so names numbered differently stay different.\<close>

definition keeps_numbers :: "(string \<Rightarrow> string) \<Rightarrow> bool" where
  "keeps_numbers key \<longleftrightarrow> (\<forall>stem ext m n. key (numbered stem ext m) = key (numbered stem ext n) \<longrightarrow> m = n)"

lemma first_free_Some:
  "first_free k key stem ext n names = Some (names', c) \<Longrightarrow>
     \<exists>m. c = numbered stem ext m \<and> key c \<notin> names \<and> names' = insert (key c) names"
  by (induction k arbitrary: n) (auto simp: Let_def split: if_splits)

lemma first_free_None:
  "first_free k key stem ext n names = None \<Longrightarrow> i < k \<Longrightarrow> key (numbered stem ext (n + i)) \<in> names"
proof (induction k arbitrary: n i)
  case (Suc k)
  then show ?case
  proof (cases i)
    case (Suc j)
    then show ?thesis using Suc.prems Suc.IH [of "n + 1" j] \<open>first_free (Suc k) key stem ext n names = None\<close>
      by (auto simp: Let_def split: if_splits)
  qed (auto simp: Let_def split: if_splits)
qed simp

lemma first_free_found:
  assumes "keeps_numbers key" "finite names"
  shows "first_free (card names + 1) key stem ext n names \<noteq> None"
proof
  assume f: "first_free (card names + 1) key stem ext n names = None"
  let ?f = "\<lambda>i. key (numbered stem ext (n + i))"
  have "?f ` {..card names} \<subseteq> names" using first_free_None [OF f] by auto
  moreover have "inj_on ?f {..card names}" 
  proof (rule inj_onI)
    fix x y assume "?f x = ?f y"
    then have "n + x = n + y" using assms(1) unfolding keeps_numbers_def by blast
    then show "x = y" by simp
  qed
  ultimately have "card {..card names} \<le> card names" using assms(2) by (metis card_inj_on_le)
  then show False by simp
qed

lemma unique_name_found: "keeps_numbers key \<Longrightarrow> finite names \<Longrightarrow> unique_name key names name \<noteq> None"
  unfolding unique_name_def Let_def using first_free_found by (metis option.distinct(1))

lemma unique_name_Some:
  assumes "unique_name key names name = Some (names', n)" "name_ok name"
  shows "name_ok n \<and> key n \<notin> names \<and> names' = insert (key n) names"
proof (cases "key name \<in> names")
  case True
  let ?stem = "case file_stem name of Some s \<Rightarrow> s | None \<Rightarrow> name"
  let ?ext = "case extension name of Some e \<Rightarrow> CHR ''.'' # e | None \<Rightarrow> ''''"
  have "first_free (card names + 1) key ?stem ?ext 2 names = Some (names', n)"
    using assms(1) True by (simp only: unique_name_def Let_def if_False not_True_eq_False simp_thms)
  then obtain m where m: "n = numbered ?stem ?ext m" "key n \<notin> names" "names' = insert (key n) names" using first_free_Some by blast
  then show ?thesis using numbered_ok [OF assms(2), of m] by simp
qed (use assms in \<open>auto simp: unique_name_def\<close>)

lemma plan_files_names:
  "keeps_numbers key \<Longrightarrow> finite names \<Longrightarrow>
     \<exists>ns. plan_files key dir slot names ps = Some (zip ps (zip (map (dir_join dir) ns) [slot..<slot + length ps])) \<and>
       length ns = length ps \<and> list_all name_ok ns \<and> distinct (map key ns) \<and> key ` set ns \<inter> names = {}"
proof (induction ps arbitrary: slot names)
  case (Cons p ps)
  let ?base = "case base_name p of Some n \<Rightarrow> n | None \<Rightarrow> ''''"
  obtain names' n where u: "unique_name key names (safe_file_name ?base) = Some (names', n)"
    using unique_name_found [OF Cons.prems] by fastforce
  have n: "name_ok n" "key n \<notin> names" "names' = insert (key n) names"
    using unique_name_Some [OF u safe_file_name_ok] by auto
  obtain ns where ns: "plan_files key dir (slot + 1) names' ps = Some (zip ps (zip (map (dir_join dir) ns) [slot + 1..<slot + 1 + length ps]))"
      "length ns = length ps" "list_all name_ok ns" "distinct (map key ns)" "key ` set ns \<inter> names' = {}"
    using Cons.IH [OF Cons.prems(1), of names' "slot + 1"] Cons.prems(2) n(3) by auto
  have range: "[slot..<slot + length (p # ps)] = slot # [slot + 1..<slot + 1 + length ps]"
    by (simp add: upt_conv_Cons del: upt_Suc)
  have "plan_files key dir slot names (p # ps) =
      Some (zip (p # ps) (zip (map (dir_join dir) (n # ns)) [slot..<slot + length (p # ps)]))"
    unfolding range using u ns(1) by (simp add: Let_def del: upt_Suc)
  moreover have "length (n # ns) = length (p # ps)" "list_all name_ok (n # ns)" "distinct (map key (n # ns))"
      "key ` set (n # ns) \<inter> names = {}"
    using ns(2-5) n by auto
  ultimately show ?case by blast
qed simp



section \<open>Settlement\<close>

text \<open>
  The batch as its caller drives it: it asks for the next file and gives the request a fresh transfer id; a
  transfer, of the batch or not, is resolved. \<open>res\<close> is what became of each slot, for the proofs only.
\<close>

inductive batch_step :: "batch \<times> (nat \<Rightarrow> string option option) \<Rightarrow> batch \<times> (nat \<Rightarrow> string option option) \<Rightarrow> bool" where
  asks: "next_request b = (b', Some (remote, target, slot)) \<Longrightarrow> hm_get (bt_live b) i = None \<Longrightarrow>
    batch_step (b, res) (requested slot i b', res)"
| settles: "resolve i path b = Some (b', True) \<Longrightarrow> hm_get (bt_live b) i = Some slot \<Longrightarrow> batch_step (b, res) (b', res(slot := Some path))"
| passes: "resolve i path b = Some (b', False) \<Longrightarrow> batch_step (b, res) (b', res)"

definition batch_start :: "batch \<times> (nat \<Rightarrow> string option option) \<Rightarrow> bool" where
  "batch_start = (\<lambda>(b, res). (\<exists>files. b = with_paths files \<or> (\<exists>key dir fs. keeps_numbers key \<and> batch_new key dir fs = Some b)) \<and> res = (\<lambda>s. None))"

definition open_slots :: "batch \<Rightarrow> nat list" where
  "open_slots b = map (snd \<circ> snd) (bt_queued b) @ map snd (bt_live b)"

definition batch_ok :: "batch \<times> (nat \<Rightarrow> string option option) \<Rightarrow> bool" where
  "batch_ok = (\<lambda>(b, res).
     hm_ok (bt_live b) \<and> distinct (open_slots b) \<and> length (bt_live b) \<le> MAX_CONCURRENT_CLIPBOARD_FILES \<and>
     (\<forall>s\<in>set (open_slots b). s < length (bt_slots b)) \<and>
     (\<forall>s < length (bt_slots b). res s = None \<longleftrightarrow> s \<in> set (open_slots b)) \<and>
     (\<forall>s < length (bt_slots b). (bt_slots b) ! s = Option.bind (res s) id))"


lemma insert_fresh: "hm_get m i = None \<Longrightarrow> hm_insert i s m = m @ [(i, s)]"
  by (induction m) (auto split: if_splits)

lemma remove_slot:
  assumes "hm_ok m" "distinct (map snd m)" "hm_get m i = Some s"
  shows "set (map snd (hm_remove i m)) = set (map snd m) - {s} \<and> distinct (map snd (hm_remove i m)) \<and> s \<in> set (map snd m) \<and>
    length (hm_remove i m) < length m"
  using assms
proof (induction m)
  case (Cons x m)
  obtain j t where x: "x = (j, t)" by (cases x)
  show ?case
  proof (cases "j = i")
    case True
    then have "hm_remove i m = m" using Cons.prems(1) by (intro delete_id) (auto simp: x)
    then show ?thesis using Cons.prems True by (auto simp: x)
  next
    case False
    then have g: "hm_get m i = Some s" using Cons.prems(3) by (simp add: x)
    then have "s \<in> snd ` set m" by (metis image_eqI map_of_SomeD snd_conv)
    then show ?thesis using Cons.IH Cons.prems g False by (auto simp: x)
  qed
qed simp

lemma settle_ok:
  assumes ok: "batch_ok (b, res)" and r: "resolve i path b = Some (b', True)" and g: "hm_get (bt_live b) i = Some slot"
  shows "batch_ok (b', res(slot := Some path))"
proof -
  have live: "hm_ok (bt_live b)" "distinct (map snd (bt_live b))" using ok by (auto simp: batch_ok_def open_slots_def)
  note rs = remove_slot [OF live g]
  have l: "bt_live b' = hm_remove i (bt_live b)" "bt_queued b' = bt_queued b" "length (bt_slots b') = length (bt_slots b)"
    using r g by (auto simp: resolve_def Let_def split: option.splits if_splits)
  have slots: "bt_slots b' ! s = (if s = slot \<and> path \<noteq> None then path else bt_slots b ! s)" if "s < length (bt_slots b)" for s
    using r g that by (auto simp: resolve_def Let_def nth_list_update split: option.splits if_splits)
  have in_live: "slot \<in> set (map snd (bt_live b))" using rs by blast
  then have notq: "slot \<notin> set (map (snd \<circ> snd) (bt_queued b))" using ok by (auto simp: batch_ok_def open_slots_def)
  have open_: "set (open_slots b') = set (open_slots b) - {slot}" "distinct (open_slots b')"
    using ok rs notq l by (auto simp: batch_ok_def open_slots_def)
  have old: "res slot = None" "slot < length (bt_slots b)" "bt_slots b ! slot = None"
  proof -
    have s: "slot \<in> set (open_slots b)" using in_live by (simp add: open_slots_def)
    then show k: "slot < length (bt_slots b)" using ok by (auto simp: batch_ok_def)
    then show n: "res slot = None" using ok s by (auto simp: batch_ok_def)
    then show "bt_slots b ! slot = None" using ok k by (auto simp: batch_ok_def)
  qed
  show ?thesis
    using ok rs l open_ slots old by (auto simp: batch_ok_def)
qed

lemma batch_step_ok: "batch_step s s' \<Longrightarrow> batch_ok s \<Longrightarrow> batch_ok s'"
proof (induction rule: batch_step.induct)
  case (asks b b' remote target slot i res)
  obtain q where q: "bt_queued b = (remote, target, slot) # q" "b' = b\<lparr>bt_queued := q\<rparr>" "length (bt_live b) < MAX_CONCURRENT_CLIPBOARD_FILES"
    using asks(1) by (auto simp: next_request_def split: if_splits list.splits)
  have l: "bt_live (requested slot i b') = bt_live b @ [(i, slot)]" using asks(2) q by (simp add: requested_def insert_fresh)
  have "i \<notin> fst ` set (bt_live b)" using asks(2) by (simp add: map_of_eq_None_iff)
  moreover have "set (open_slots (requested slot i b')) = set (open_slots b)"
    using l q by (auto simp: open_slots_def requested_def)
  moreover have "distinct (open_slots (requested slot i b'))"
    using asks(3) l q by (auto simp: open_slots_def requested_def batch_ok_def)
  ultimately show ?case using asks(3) l q by (simp add: batch_ok_def requested_def)
next
  case (settles i path b b' slot res)
  then show ?case using settle_ok by blast
next
  case (passes i path b b' res)
  then show ?case by (auto simp: resolve_def Let_def split: option.splits if_splits)
qed

lemma start_slots:
  "bt_queued b = zip ps (zip ds [0..<length ps]) \<Longrightarrow> length ds = length ps \<Longrightarrow> bt_live b = [] \<Longrightarrow> bt_slots b = replicate (length ps) None \<Longrightarrow>
   batch_ok (b, \<lambda>s. None)"
proof -
  assume b: "bt_queued b = zip ps (zip ds [0..<length ps])" "length ds = length ps" "bt_live b = []" "bt_slots b = replicate (length ps) None"
  have "map (snd \<circ> snd) (bt_queued b) = [0..<length ps]" using b(1,2) by (intro nth_equalityI) auto
  then have "open_slots b = [0..<length ps]" by (simp add: open_slots_def b(3))
  then show ?thesis by (simp add: batch_ok_def b(3,4))
qed

lemma batch_start_ok: "batch_start s \<Longrightarrow> batch_ok s"
proof -
  assume s: "batch_start s"
  obtain b res where sb: "s = (b, res)" by (cases s)
  have res: "res = (\<lambda>s. None)" using s sb by (simp add: batch_start_def)
  consider (paths) files where "b = with_paths files" | (planned) key dir fs where "keeps_numbers key" "batch_new key dir fs = Some b"
    using s sb by (auto simp: batch_start_def)
  then show ?thesis
  proof cases
    case paths
    have "bt_queued b = zip (map fst files) (zip (map snd files) [0..<length (map fst files)])"
      unfolding paths with_paths_def by (intro nth_equalityI) (auto simp: enumerate_eq_zip split: prod.splits)
    then show ?thesis unfolding sb res by (rule start_slots) (simp_all add: paths with_paths_def)
  next
    case planned
    obtain ns where "plan_files key dir 0 {} (map fe_path fs) = Some (zip (map fe_path fs) (zip (map (dir_join dir) ns) [0..<0 + length (map fe_path fs)]))"
        "length ns = length (map fe_path fs)"
      using plan_files_names [OF planned(1), of "{}" dir 0 "map fe_path fs"] by auto
    then show ?thesis
      unfolding sb res using planned(2)
      by (intro start_slots [of b "map fe_path fs" "map (dir_join dir) ns"]) (auto simp: batch_new_def)
  qed
qed

interpretation batches: invariant_system batch_start batch_step batch_ok
  by unfold_locales (auto intro: batch_start_ok batch_step_ok)

text \<open>
  C40. A clipboard copy settles exactly: never more than eight files are under way, a file is given up exactly
  when its transfer failed, and when the batch is done every file has been resolved and the published list
  holds the ones that arrived, in the order the session listed them.
\<close>

theorem clipboard_copy_settles:
  assumes "reach batch_start batch_step (b, res)"
  shows "length (bt_live b) \<le> 8 \<and>
    (batch_done b \<longrightarrow> (\<forall>s < batch_total b. res s \<noteq> None) \<and> into_files b = List.map_filter (\<lambda>s. Option.bind (res s) id) [0..<batch_total b])"
proof -
  have ok: "batch_ok (b, res)" by (rule batches.inv_reach [OF assms])
  have "bt_slots b = map (\<lambda>s. Option.bind (res s) id) [0..<batch_total b]"
    by (rule nth_equalityI) (use ok in \<open>auto simp: batch_ok_def batch_total_def\<close>)
  then have "into_files b = List.map_filter (\<lambda>s. Option.bind (res s) id) [0..<batch_total b]"
    by (simp add: into_files_def List.map_filter_def filter_map comp_def)
  moreover have "batch_done b \<Longrightarrow> \<forall>s < batch_total b. res s \<noteq> None"
    using ok by (simp add: batch_ok_def batch_done_def open_slots_def batch_total_def)
  ultimately show ?thesis using ok by (simp add: batch_ok_def MAX_CONCURRENT_CLIPBOARD_FILES_def)
qed

definition example_batch :: batch where "example_batch = with_paths [(''/home/ann/a'', ''/tmp/a''), (''/home/ann/b'', ''/tmp/b'')]"

lemma next_state: "reach batch_start batch_step s \<Longrightarrow> batch_step s t \<Longrightarrow> reach batch_start batch_step t"
  by (rule reach_step)

theorem clipboard_copy_settles_witness:
  "into_files \<lparr>bt_queued = [], bt_live = [], bt_slots = [None, Some ''/tmp/b'']\<rparr> = [''/tmp/b'']"
proof -
  let ?b = "\<lambda>q l s. \<lparr>bt_queued = q, bt_live = l, bt_slots = s\<rparr>"
  let ?r = "(\<lambda>s. None) :: nat \<Rightarrow> string option option"
  have 0: "reach batch_start batch_step (example_batch, ?r)"
    by (rule reach_init) (auto simp: batch_start_def example_batch_def)
  have s1: "batch_step (example_batch, ?r) (?b [(''/home/ann/b'', ''/tmp/b'', 1)] [(5, 0)] [None, None], ?r)"
    using asks [of example_batch "?b [(''/home/ann/b'', ''/tmp/b'', 1)] [] [None, None]" "''/home/ann/a''" "''/tmp/a''" 0 5 ?r]
    by (simp add: example_batch_def with_paths_def next_request_def requested_def MAX_CONCURRENT_CLIPBOARD_FILES_def numeral_2_eq_2)
  have s2: "batch_step (?b [(''/home/ann/b'', ''/tmp/b'', 1)] [(5, 0)] [None, None], ?r) (?b [] [(5, 0), (6, 1)] [None, None], ?r)"
    using asks [of "?b [(''/home/ann/b'', ''/tmp/b'', 1)] [(5, 0)] [None, None]" "?b [] [(5, 0)] [None, None]" "''/home/ann/b''" "''/tmp/b''" 1 6 ?r]
    by (simp add: next_request_def requested_def MAX_CONCURRENT_CLIPBOARD_FILES_def)
  have s3: "batch_step (?b [] [(5, 0), (6, 1)] [None, None], ?r) (?b [] [(5, 0)] [None, Some ''/tmp/b''], ?r(1 := Some (Some ''/tmp/b'')))"
    by (rule settles [where i = 6 and slot = 1]) (simp_all add: resolve_def)
  have s4: "batch_step (?b [] [(5, 0)] [None, Some ''/tmp/b''], ?r(1 := Some (Some ''/tmp/b'')))
      (?b [] [] [None, Some ''/tmp/b''], ?r(1 := Some (Some ''/tmp/b''), 0 := Some None))"
    by (rule settles [where i = 5 and slot = 0]) (simp_all add: resolve_def)
  have 4: "reach batch_start batch_step (?b [] [] [None, Some ''/tmp/b''], ?r(1 := Some (Some ''/tmp/b''), 0 := Some None))"
    by (rule next_state [OF next_state [OF next_state [OF next_state [OF 0 s1] s2] s3] s4])
  from clipboard_copy_settles [OF 4] show ?thesis
    by (simp add: batch_done_def batch_total_def upt_rec List.map_filter_simps)
qed

end
