(* ===== verification/Spec2Isabelle.thy ===== *)
theory Spec2Isabelle
  imports Viewer_Session Typing Daemon_Access Clipboard_Batch
begin

text \<open>
  LynxRDP, a remote desktop in Rust (\<open>crates/\<close>): a verification library for its protocol, the session
  that serves a desktop and the client that shows it.

  THE PROGRAM. On the server a daemon hands every connection to the session process of the user who
  owns it. The session process (\<open>crates/server\<close>) captures the root window of an X server, encodes what
  changed, and injects the client's keys and pointer. The client (\<open>crates/client\<close>) decodes frames into a
  framebuffer and sends input, clipboards and files. Both sides link the protocol crate
  (\<open>crates/proto\<close>): wire primitives, messages, framing, the screen codec, chunked transfers, keysyms.
  One connection is a pair of byte streams of framed messages; neither side shares anything else.

  THE PROTOCOL CRATE.
  \<open>Wire\<close>: \<open>wire.rs\<close>, the reader and writer of little-endian values, blobs and texts.
  \<open>Image\<close>: \<open>image.rs\<close>, rectangles and framebuffers.
  \<open>Tile_Codec\<close>, \<open>Palette\<close>, \<open>Pixels\<close>, \<open>Screen_Diff\<close>, \<open>Scroll\<close>, \<open>Screen_Codec\<close>: \<open>codec.rs\<close>, bottom up: tile
  encodings and byte packings, the palette family with its hash table, the choice of an encoding, tile
  diffing, scroll detection, and the two stateful ends \<open>Encoder\<close> and \<open>Decoder\<close>.
  \<open>Message\<close>, \<open>Frame\<close>: \<open>message.rs\<close>, \<open>frame.rs\<close> and the versions of \<open>lib.rs\<close>.
  \<open>Chunk_Transfer\<close>, \<open>Transfer_Manager\<close>, \<open>Safe_Path\<close>: \<open>transfer.rs\<close>, one windowed transfer, all the
  transfers of a connection, and the check of upload paths. \<open>Transfer_Policies\<close> adds the two policies
  that answer offers, in the session and in the client.
  \<open>Keysym\<close>: \<open>keysym.rs\<close>.

  THE SESSION PROCESS.
  \<open>Damage\<close>, \<open>Capture\<close>: \<open>x11/capture.rs\<close>. \<open>Keymap\<close>, \<open>Input\<close>, \<open>Typing\<close>: \<open>x11/input.rs\<close>.
  \<open>Flow_Control\<close>, \<open>Session_Core\<close>, \<open>Session_Engine\<close>: \<open>session/engine.rs\<close>: the in-flight window, the
  state of the core, every handler and the turn of its loop. \<open>Session_Screen\<close>, \<open>Session_Sync\<close> and
  \<open>Session_System\<close> hold its invariants and the step relation of the core with its connections;
  \<open>Session_Properties\<close> what follows for reachable sessions.

  THE CLIENT.
  \<open>Outbound\<close>: \<open>outbound.rs\<close>, the writer's queue. \<open>Client_Paths\<close>, \<open>Viewer\<close>: \<open>connection.rs\<close>.
  \<open>Viewer_Transfers\<close> and \<open>Viewer_System\<close> hold the invariants of the running client, and
  \<open>Viewer_Session\<close> joins the two ends: the client does to its framebuffer what the session counts on.

  HOW THE CODE IS MODELLED. A struct is a record, an enum a datatype, with the fields and variants of
  the source; an operation is a function from the old state to an \<open>Inl\<close> error or the result with
  the new state. Pixels, checksums, hashes and identifiers are machine words. Lengths, coordinates and
  counters are natural numbers, reduced modulo their width wherever the code's arithmetic may wrap
  (\<open>add32\<close>, \<open>sub32\<close>, \<open>sat_add\<close> and their kin in \<open>Lynx_Prelude\<close>); where the code would index out of
  bounds or overflow a checked operation, the model has an explicit panic (\<open>None\<close> in the panicking
  option type of the core), and the safety properties show that it is not reached. A hash map is an
  association list kept distinct. A string is the list of its UTF-8 bytes. Threads that share a queue are
  steps of a relation, interleaved freely; the time is a number of nanoseconds carried by the steps.

  What is not under \<open>src/\<close> is a parameter: the compressors LZ4 and Zstd (a record of functions with
  their documented contract, \<open>compressors_ok\<close> in \<open>Pixels\<close>), the entropy of a hasher, the answers of the X
  server, of the file system and of the clock. The Unicode tables are a parameter of the keysyms.

  INTERFACES. The locales state the contracts between components: \<open>wire_field\<close> and \<open>sized_field\<close> what
  the message codec needs of the encoder and decoder of a field (lists of fields follow inside the
  locale), \<open>transfer_policy\<close> what the transfer manager needs of whoever answers an offer, and
  \<open>invariant_system\<close> what a component's steps promise, so that reachable states keep its invariant. Each is
  interpreted on the model's own definitions.

  WHAT IS SHOWN. Round trips of tiles, messages and framed streams, with the converse that whatever is
  accepted is within its limits. Refinement: the decoder follows the encoder frame by frame, the
  session with its connections keeps a greeted client following through resizes, refreshes, lost
  messages and reconnections, and the real client of \<open>connection.rs\<close> behaves as that decoder.
  Exactness of captures and of scroll copies. No panic: the decoder, the session loop, the client.
  Delivery and bounds of transfers, of the client's backlog and its writer. Input: what is pressed is
  what is typed, and nothing stays pressed when a client goes away.

  BOUNDS AND FUEL. The loops of the code are structural recursions, functions with a measure, or
  (\<open>tile_starts\<close>) a \<open>partial_function\<close> proved to return. The probe of the palette's hash table gets as
  many steps as the table has slots, which is enough because the table is never full.

  NOT MODELLED. The user interface of the client (windows, overlay, launcher, theme), its SSH tunnel,
  its updater, settings and profiles; the file clipboards of the platforms; on the server the X
  protocol of clipboards, drag and drop, cursors and resizing, the start of a desktop, the
  daemon with its privilege separation, reporting and configuration. These parts are mostly calls
  into operating systems, toolkits and X servers, whose behaviour would have to be made up. The manifest
  lists each with its reason.
\<close>

end
